(* ===== verification/Prelude.thy ===== *)
theory Prelude
  imports Main "HOL-Library.Word" "HOL-Library.Sublist"
begin

text \<open>
  Shared vocabulary of the development.

  A kernel routine is a function from the state it works on to an \<^emph>\<open>outcome\<close>:
  it returns (\<open>Ok\<close>), it stops the machine (\<open>Panic\<close>: \<^verbatim>\<open>PANIC()\<close> or a failed
  \<^verbatim>\<open>ASSERT\<close> of \<^verbatim>\<open>src/common/defines.h\<close>), or the calling thread cannot go on by
  itself (\<open>Blocked\<close>: it spins on a spinlock that is already taken, or it sleeps on a
  semaphore until some other thread posts it), or it does something C leaves undefined
  (\<open>Undef\<close>: it reads or writes outside an object).  Components whose behaviour depends on
  the interleaving of threads have a step relation of their own on top of these routines.
\<close>

section \<open>Machine types\<close>

type_synonym u8 = "8 word"
type_synonym u16 = "16 word"
type_synonym u32 = "32 word"
type_synonym u64 = "64 word"

section \<open>Outcomes of kernel routines\<close>

datatype 'a outcome = Ok 'a | Panic | Blocked | Undef

named_theorems outcome_simps \<open>rewriting of sequenced kernel routines\<close>

definition andthen :: "'a outcome \<Rightarrow> ('a \<Rightarrow> 'b outcome) \<Rightarrow> 'b outcome" where
  "andthen m f = (case m of Ok x \<Rightarrow> f x | Panic \<Rightarrow> Panic | Blocked \<Rightarrow> Blocked | Undef \<Rightarrow> Undef)"

lemma andthen_simps [simp, outcome_simps]:
  "andthen (Ok x) f = f x"
  "andthen Panic f = Panic"
  "andthen Blocked f = Blocked"
  "andthen Undef f = Undef"
  by (simp_all add: andthen_def)

lemma andthen_eq_Ok [simp, outcome_simps]:
  "andthen m f = Ok y \<longleftrightarrow> (\<exists>x. m = Ok x \<and> f x = Ok y)"
  by (cases m) simp_all

lemma andthen_eq_Panic [outcome_simps]:
  "andthen m f = Panic \<longleftrightarrow> m = Panic \<or> (\<exists>x. m = Ok x \<and> f x = Panic)"
  by (cases m) simp_all

lemma andthen_OkE [elim]:
  assumes "andthen m f = Ok y"
  obtains x where "m = Ok x" and "f x = Ok y"
  using assms by auto

lemma andthen_cong [fundef_cong]:
  "m = m' \<Longrightarrow> (\<And>x. m' = Ok x \<Longrightarrow> f x = g x) \<Longrightarrow> andthen m f = andthen m' g"
  by (cases m') simp_all

text \<open>\<^verbatim>\<open>ASSERT(expr)\<close>: continue, or panic.\<close>

definition assert_that :: "bool \<Rightarrow> unit outcome" where
  "assert_that b = (if b then Ok () else Panic)"

lemma assert_that_simps [simp, outcome_simps]:
  "assert_that True = Ok ()"
  "assert_that False = Panic"
  "assert_that b = Ok u \<longleftrightarrow> b"
  "assert_that b = Panic \<longleftrightarrow> \<not> b"
  "assert_that b \<noteq> Blocked"
  "assert_that b \<noteq> Undef"
  by (simp_all add: assert_that_def)

text \<open>A \<^verbatim>\<open>for\<close> loop over the given indices whose body may panic or block.\<close>

fun for_each :: "('i \<Rightarrow> 's \<Rightarrow> 's outcome) \<Rightarrow> 'i list \<Rightarrow> 's \<Rightarrow> 's outcome" where
  "for_each f [] s = Ok s"
| "for_each f (j # js) s = andthen (f j s) (for_each f js)"

lemma for_each_append: "for_each f (xs @ ys) s = andthen (for_each f xs s) (for_each f ys)"
proof (induction xs arbitrary: s)
  case (Cons x xs)
  then show ?case by (cases "f x s") simp_all
qed simp

lemma for_each_map: "for_each f (map g xs) s = for_each (\<lambda>j. f (g j)) xs s"
proof (induction xs arbitrary: s)
  case (Cons x xs)
  then show ?case by (cases "f (g x) s") simp_all
qed simp

text \<open>A loop whose body refines \<open>g\<close> on an abstraction, under an invariant, refines the fold of \<open>g\<close>.\<close>

lemma for_each_refines:
  assumes "I s" and "\<And>i s. i \<in> set js \<Longrightarrow> I s \<Longrightarrow> P i (a s) \<Longrightarrow> \<exists>s'. f i s = Ok s' \<and> I s' \<and> a s' = g i (a s)"
    and "\<And>i js'. prefix (js' @ [i]) js \<Longrightarrow> P i (fold g js' (a s))"
  shows "\<exists>s'. for_each f js s = Ok s' \<and> I s' \<and> a s' = fold g js (a s)"
  using assms
proof (induction js arbitrary: s)
  case (Cons i js)
  have "P i (a s)" using Cons.prems(3) [of "[]" i] by simp
  then obtain s1 where 1: "f i s = Ok s1" "I s1" "a s1 = g i (a s)"
    using Cons.prems(1,2) by (metis list.set_intros(1))
  have "P j (fold g js' (a s1))" if "prefix (js' @ [j]) js" for j js'
    using Cons.prems(3) [of "i # js'" j] that 1(3) by simp
  then have "\<exists>s'. for_each f js s1 = Ok s' \<and> I s' \<and> a s' = fold g js (a s1)"
    by (intro Cons.IH [OF 1(2)] Cons.prems(2)) auto
  then show ?case using 1 by simp
qed simp

section \<open>Lists with an update by position\<close>

lemma nth_list_update_if:
  "i < length xs \<Longrightarrow> xs[i := x] ! j = (if i = j then x else xs ! j)"
  by simp

lemma take_drop_split:
  "k \<le> n \<Longrightarrow> n \<le> length xs \<Longrightarrow> take n xs = take k xs @ take (n - k) (drop k xs)"
  by (metis add_diff_inverse_nat not_less take_add)

lemma distinct_filter_key:
  "distinct (map f xs) \<Longrightarrow> distinct (map f (filter P xs))"
  by (induction xs) auto

section \<open>Bytes of a machine word, least significant first\<close>

text \<open>
  The processor is little endian, so a \<^verbatim>\<open>u64\<close>, \<^verbatim>\<open>u32\<close> or \<^verbatim>\<open>u16\<close> that the code
  writes through a cast pointer occupies the bytes \<open>le_bytes k v\<close>.
\<close>

fun le_bytes :: "nat \<Rightarrow> nat \<Rightarrow> u8 list" where
  "le_bytes 0 v = []"
| "le_bytes (Suc k) v = word_of_nat (v mod 256) # le_bytes k (v div 256)"

fun le_value :: "u8 list \<Rightarrow> nat" where
  "le_value [] = 0"
| "le_value (b # bs) = unat b + 256 * le_value bs"

lemma length_le_bytes [simp]: "length (le_bytes k v) = k"
  by (induction k arbitrary: v) auto

lemma unat_u8_less: "unat (b :: u8) < 256"
proof -
  have "unat b < 2 ^ LENGTH(8)" by (rule unsigned_less)
  then show ?thesis by simp
qed

lemma unat_byte_of_nat: "v < 256 \<Longrightarrow> unat (word_of_nat v :: u8) = v"
  by (simp add: unat_of_nat take_bit_eq_mod)

lemma le_value_le_bytes: "v < 256 ^ k \<Longrightarrow> le_value (le_bytes k v) = v"
proof (induction k arbitrary: v)
  case 0
  then show ?case by simp
next
  case (Suc k)
  from Suc.prems have "v div 256 < 256 ^ k"
    by (simp add: less_mult_imp_div_less mult.commute)
  then have "le_value (le_bytes k (v div 256)) = v div 256"
    by (rule Suc.IH)
  then show ?case
    by (simp add: unat_byte_of_nat)
qed

lemma le_value_bound: "le_value bs < 256 ^ length bs"
proof (induction bs)
  case Nil
  then show ?case by simp
next
  case (Cons b bs)
  have "unat b < 256" by (rule unat_u8_less)
  with Cons show ?case by simp
qed

lemma le_bytes_le_value: "le_bytes (length bs) (le_value bs) = bs"
proof (induction bs)
  case Nil
  then show ?case by simp
next
  case (Cons b bs)
  have "unat b < 256" by (rule unat_u8_less)
  then have "(unat b + 256 * le_value bs) div 256 = le_value bs"
    and "(unat b + 256 * le_value bs) mod 256 = unat b" by simp_all
  with Cons show ?case by simp
qed

section \<open>Arrays of fixed-size items in a byte buffer\<close>

definition chunk :: "nat \<Rightarrow> nat \<Rightarrow> 'a list \<Rightarrow> 'a list" where
  "chunk k i bs = take k (drop (k * i) bs)"

definition put_chunk :: "nat \<Rightarrow> nat \<Rightarrow> 'a list \<Rightarrow> 'a list \<Rightarrow> 'a list" where
  "put_chunk k i v bs = take (k * i) bs @ v @ drop (k * i + k) bs"

lemma chunk_concat:
  "\<forall>x\<in>set xs. length x = k \<Longrightarrow> i < length xs \<Longrightarrow> chunk k i (concat xs @ ys) = xs ! i"
proof (induction xs arbitrary: i)
  case (Cons x xs)
  then show ?case by (cases i) (auto simp: chunk_def)
qed simp

lemma length_chunk: "k * i + k \<le> length bs \<Longrightarrow> length (chunk k i bs) = k"
  by (simp add: chunk_def)

lemma length_put_chunk [simp]:
  "length v = k \<Longrightarrow> k * i + k \<le> length bs \<Longrightarrow> length (put_chunk k i v bs) = length bs"
  by (simp add: put_chunk_def)

lemma chunk_put_chunk_same:
  "length v = k \<Longrightarrow> k * i + k \<le> length bs \<Longrightarrow> chunk k i (put_chunk k i v bs) = v"
  by (simp add: chunk_def put_chunk_def)

lemma chunk_put_chunk_other:
  assumes "length v = k" and "k * i + k \<le> length bs" and "i \<noteq> j"
  shows "chunk k j (put_chunk k i v bs) = chunk k j bs"
proof (cases "j < i")
  case True
  then have le: "k * j + k \<le> k * i" by (metis Suc_leI add.commute mult_Suc_right mult_le_mono2)
  then have "take k (drop (k * j) (take (k * i) bs)) = take k (drop (k * j) bs)"
    by (simp add: drop_take)
  moreover have "length (take (k * i) bs) = k * i" using assms(2) by simp
  moreover have "length (drop (k * j) (take (k * i) bs)) = k * i - k * j"
    using assms(2) by simp
  ultimately show ?thesis using le
    by (simp add: chunk_def put_chunk_def)
next
  case False
  then have "i < j" using assms(3) by simp
  then have le: "k * i + k \<le> k * j" by (metis Suc_leI add.commute mult_Suc_right mult_le_mono2)
  then have "k * i - k * j = 0" "drop (k * j) (take (k * i) bs) = []" using \<open>i < j\<close> by simp_all
  with le assms show ?thesis by (simp add: chunk_def put_chunk_def)
qed

lemma length_concat_const: "\<forall>x\<in>set xs. length x = k \<Longrightarrow> length (concat xs) = k * length xs"
  by (induction xs) auto

lemma chunk_Suc: "chunk k (Suc i) bs = chunk k i (drop k bs)"
  by (simp add: chunk_def add.commute)

lemma chunks_ext:
  assumes "length xs = k * n" and "length ys = k * n" and "\<And>i. i < n \<Longrightarrow> chunk k i xs = chunk k i ys"
  shows "xs = ys"
  using assms
proof (induction n arbitrary: xs ys)
  case (Suc n)
  have c: "chunk k i (drop k xs) = chunk k i (drop k ys)" if "i < n" for i
    using Suc.prems(3) [of "Suc i"] that by (simp add: chunk_Suc)
  have "length (drop k xs) = k * n" "length (drop k ys) = k * n" using Suc.prems(1,2) by simp_all
  then have "drop k xs = drop k ys" by (rule Suc.IH) (rule c)
  moreover have "take k xs = take k ys" using Suc.prems(3) [of 0] by (simp add: chunk_def)
  ultimately show ?case by (metis append_take_drop_id)
qed simp

lemma concat_chunks: "length bs = k * n \<Longrightarrow> concat (map (\<lambda>i. chunk k i bs) [0..<n]) = bs"
proof (rule chunks_ext [where k = k and n = n])
  assume l: "length bs = k * n"
  have le: "k * i + k \<le> length bs" if "i < n" for i
    using that l by (metis Suc_leI add.commute mult_Suc_right mult_le_mono2)
  then have all: "\<forall>x\<in>set (map (\<lambda>i. chunk k i bs) [0..<n]). length x = k"
    by (auto simp: length_chunk)
  then show "length (concat (map (\<lambda>i. chunk k i bs) [0..<n])) = k * n"
    by (simp only: length_concat_const [OF all] length_map length_upt minus_nat.diff_0)
  show "chunk k i (concat (map (\<lambda>i. chunk k i bs) [0..<n])) = chunk k i bs" if "i < n" for i
    using chunk_concat [OF all, of i "[]"] that by simp
qed

section \<open>Numbers that fit into a word\<close>

lemma u32_of_nat: "k < 2 ^ 32 \<Longrightarrow> unat (of_nat k :: u32) = k"
  by (simp add: unat_of_nat take_bit_eq_mod)

lemma u64_of_nat: "k < 2 ^ 64 \<Longrightarrow> unat (of_nat k :: u64) = k"
  by (simp add: unat_of_nat take_bit_eq_mod)

section \<open>Ring buffers\<close>

text \<open>The \<open>n\<close> elements of the ring \<open>xs\<close> from the running position \<open>r\<close> on.\<close>

definition ring_list :: "'a list \<Rightarrow> nat \<Rightarrow> nat \<Rightarrow> 'a list" where
  "ring_list xs r n = map (\<lambda>i. xs ! ((r + i) mod length xs)) [0..<n]"

lemma length_ring [simp]: "length (ring_list xs r n) = n"
  by (simp add: ring_list_def)

lemma ring_0 [simp]: "ring_list xs r 0 = []"
  by (simp add: ring_list_def)

lemma ring_mod: "r mod length xs = r' mod length xs \<Longrightarrow> ring_list xs r n = ring_list xs r' n"
  by (auto simp: ring_list_def intro!: map_cong) (metis mod_add_left_eq)

lemma ring_take: "ring_list xs r (Suc n) = xs ! (r mod length xs) # ring_list xs (Suc r) n"
  by (simp add: ring_list_def map_upt_Suc del: upt_Suc)

lemma ring_put:
  assumes "n < length xs"
  shows "ring_list (xs[(r + n) mod length xs := c]) r (Suc n) = ring_list xs r n @ [c]"
proof -
  have "(r + i) mod length xs \<noteq> (r + n) mod length xs" if "i < n" for i
  proof
    assume "(r + i) mod length xs = (r + n) mod length xs"
    then have "length xs dvd (r + n) - (r + i)" using that by (intro mod_eq_dvd_iff_nat [THEN iffD1]) simp_all
    then have "length xs dvd n - i" by simp
    then show False using assms that by (auto dest: dvd_imp_le)
  qed
  moreover have "(r + n) mod length xs < length xs" using assms by (intro mod_less_divisor) auto
  ultimately show ?thesis by (fastforce simp: ring_list_def intro!: map_cong)
qed

end
