(* ===== verification/Basics.thy ===== *)
theory Basics
  imports Prelude
begin

unbundle bit_operations_syntax

text \<open>
  The leaf helpers of \<^verbatim>\<open>src/common\<close>: the rounding functions of \<^verbatim>\<open>defines.h\<close>, spinlocks
  (\<^verbatim>\<open>spinlock.c\<close>), reference counts (\<^verbatim>\<open>rc.c\<close>) and bitmaps of 64-bit cells (\<^verbatim>\<open>bitmap.h\<close>).
  A bitmap is used through the interface \<open>bit_array\<close>: writing one bit changes that bit only.
\<close>

section \<open>Rounding (defines.h)\<close>

text \<open>A zero divisor is undefined behaviour in C: \<open>None\<close>.\<close>

definition round_down :: "u64 \<Rightarrow> u64 \<Rightarrow> u64 option" where
  "round_down a b = (if b = 0 then None else Some (a - a mod b))"

definition round_up :: "u64 \<Rightarrow> u64 \<Rightarrow> u64 option" where
  "round_up a b = round_down (a + b - 1) b"

lemma unat_round_down:
  "b \<noteq> 0 \<Longrightarrow> map_option unat (round_down a b) = Some (unat a - unat a mod unat b)"
  by (simp add: round_down_def unat_sub word_mod_less_divisor unat_mod_distrib
      word_le_nat_alt)

lemma unat_round_up:
  assumes "b \<noteq> 0" and "unat a + unat b - 1 < 2 ^ 64"
  shows "map_option unat (round_up a b) =
    Some ((unat a + unat b - 1) - (unat a + unat b - 1) mod unat b)"
proof -
  have b: "1 \<le> unat b" using \<open>b \<noteq> 0\<close> by (simp add: unat_gt_0 Suc_leI)
  have "unat (a + (b - 1)) = unat a + unat (b - 1)"
    using assms b unat_sub [of 1 b] by (simp add: unat_word_ariths word_le_nat_alt)
  moreover have "unat (b - 1) = unat b - 1"
    using b unat_sub [of 1 b] by (simp add: word_le_nat_alt)
  ultimately have "unat (a + b - 1) = unat a + unat b - 1"
    using b by (simp add: algebra_simps)
  with unat_round_down [OF \<open>b \<noteq> 0\<close>, of "a + b - 1"] show ?thesis
    by (simp add: round_up_def)
qed

section \<open>Spinlocks (spinlock.c)\<close>

text \<open>
  The state of a spinlock is its \<^verbatim>\<open>locked\<close> flag.  The test and the atomic test-and-set of
  \<^verbatim>\<open>try_acquire_spinlock\<close> act as one step on it; \<^verbatim>\<open>acquire_spinlock\<close> retries until it
  succeeds, so on a taken lock the caller waits for another thread.
\<close>

type_synonym spinlock = bool

definition init_spinlock :: spinlock where
  "init_spinlock = False"

definition try_acquire_spinlock :: "spinlock \<Rightarrow> bool \<times> spinlock" where
  "try_acquire_spinlock locked = (if \<not> locked then (True, True) else (False, locked))"

definition acquire_spinlock :: "spinlock \<Rightarrow> spinlock outcome" where
  "acquire_spinlock locked =
     (case try_acquire_spinlock locked of (got, l) \<Rightarrow> if got then Ok l else Blocked)"

definition release_spinlock :: "spinlock \<Rightarrow> spinlock" where
  "release_spinlock locked = False"

lemma acquire_spinlock_simps [simp]:
  "acquire_spinlock False = Ok True"
  "acquire_spinlock True = Blocked"
  "acquire_spinlock l = Ok l' \<longleftrightarrow> \<not> l \<and> l'"
  "acquire_spinlock l \<noteq> Panic"
  by (auto simp: acquire_spinlock_def try_acquire_spinlock_def)

lemma release_spinlock_simp [simp]: "release_spinlock l = False"
  by (simp add: release_spinlock_def)

section \<open>Reference counts (rc.c)\<close>

text \<open>\<^verbatim>\<open>isize count\<close>: kept as an integer; the code never comes near \<open>2 ^ 63\<close> references.\<close>

type_synonym refcount = int

definition init_rc :: refcount where
  "init_rc = 0"

definition increment_rc :: "refcount \<Rightarrow> refcount" where
  "increment_rc c = c + 1"

definition decrement_rc :: "refcount \<Rightarrow> bool \<times> refcount" where
  "decrement_rc c = (let r = c - 1 in (r \<le> 0, r))"

section \<open>Bitmaps (bitmap.h)\<close>

text \<open>What a client of an array of bits relies on.\<close>

locale bit_array =
  fixes bget :: "'m \<Rightarrow> nat \<Rightarrow> bool"
    and bset :: "'m \<Rightarrow> nat \<Rightarrow> 'm"
    and bclear :: "'m \<Rightarrow> nat \<Rightarrow> 'm"
    and bits :: "'m \<Rightarrow> nat"
  assumes bget_bset: "i < bits m \<Longrightarrow> j < bits m \<Longrightarrow> bget (bset m i) j = (j = i \<or> bget m j)"
    and bget_bclear: "i < bits m \<Longrightarrow> j < bits m \<Longrightarrow> bget (bclear m i) j = (j \<noteq> i \<and> bget m j)"
    and bits_bset: "i < bits m \<Longrightarrow> bits (bset m i) = bits m"
    and bits_bclear: "i < bits m \<Longrightarrow> bits (bclear m i) = bits m"
begin

definition taken :: "'m \<Rightarrow> nat set" where
  "taken m = {i. i < bits m \<and> bget m i}"

lemma taken_bset: "i < bits m \<Longrightarrow> taken (bset m i) = insert i (taken m)"
  by (auto simp: taken_def bget_bset bits_bset)

lemma taken_bclear: "i < bits m \<Longrightarrow> taken (bclear m i) = taken m - {i}"
  by (auto simp: taken_def bget_bclear bits_bclear)

lemma finite_taken: "finite (taken m)"
  by (rule finite_subset [of _ "{..<bits m}"]) (auto simp: taken_def)

text \<open>Taking a free bit makes exactly one more bit taken; giving it back restores the count.\<close>

lemma card_taken_bset:
  "i < bits m \<Longrightarrow> \<not> bget m i \<Longrightarrow> card (taken (bset m i)) = Suc (card (taken m))"
  using finite_taken [of m] by (simp add: taken_bset) (simp add: taken_def)

lemma taken_bclear_bset:
  "i < bits m \<Longrightarrow> \<not> bget m i \<Longrightarrow> taken (bclear (bset m i) i) = taken m"
  by (simp add: taken_bclear bits_bset taken_bset) (simp add: taken_def)

end

text \<open>The cells of \<^verbatim>\<open>Bitmap(name, size)\<close>: 64 bits each.\<close>

definition BITMAP_BITS_PER_CELL :: nat where
  "BITMAP_BITS_PER_CELL = 64"

definition BITMAP_TO_NUM_CELLS :: "nat \<Rightarrow> nat" where
  "BITMAP_TO_NUM_CELLS sz = (sz + BITMAP_BITS_PER_CELL - 1) div BITMAP_BITS_PER_CELL"

definition bitmap_get :: "u64 list \<Rightarrow> nat \<Rightarrow> bool" where
  "bitmap_get bitmap index =
     (let idx = index div BITMAP_BITS_PER_CELL; offset = index mod BITMAP_BITS_PER_CELL
      in drop_bit offset (bitmap ! idx) AND 1 \<noteq> 0)"

definition bitmap_set :: "u64 list \<Rightarrow> nat \<Rightarrow> u64 list" where
  "bitmap_set bitmap index =
     (let idx = index div BITMAP_BITS_PER_CELL; offset = index mod BITMAP_BITS_PER_CELL
      in bitmap[idx := (bitmap ! idx) OR push_bit offset 1])"

definition bitmap_clear :: "u64 list \<Rightarrow> nat \<Rightarrow> u64 list" where
  "bitmap_clear bitmap index =
     (let idx = index div BITMAP_BITS_PER_CELL; offset = index mod BITMAP_BITS_PER_CELL
      in bitmap[idx := (bitmap ! idx) AND NOT (push_bit offset 1)])"

definition bitmap_bits :: "u64 list \<Rightarrow> nat" where
  "bitmap_bits bitmap = BITMAP_BITS_PER_CELL * length bitmap"

lemma and_one_bit: "drop_bit n (w :: 'a::len word) AND 1 \<noteq> 0 \<longleftrightarrow> bit w n"
  by (simp only: and_one_eq bit_iff_odd_drop_bit even_iff_mod_2_eq_zero)

lemma bit_or_one_shift:
  "j < LENGTH('a) \<Longrightarrow> bit ((w :: 'a::len word) OR 2 ^ i) j \<longleftrightarrow> bit w j \<or> i = j"
  by (auto simp: bit_or_iff bit_exp_iff)

lemma bit_andnot_one_shift:
  "j < LENGTH('a) \<Longrightarrow> bit ((w :: 'a::len word) AND NOT (2 ^ i)) j \<longleftrightarrow> bit w j \<and> i \<noteq> j"
  by (auto simp: bit_and_iff bit_not_iff bit_exp_iff)

lemma bitmap_get_bit: "bitmap_get m i = bit (m ! (i div 64)) (i mod 64)"
  by (simp add: bitmap_get_def BITMAP_BITS_PER_CELL_def Let_def and_one_bit)

lemma div_mod_eq_iff: "(i::nat) div 64 = j div 64 \<and> i mod 64 = j mod 64 \<longleftrightarrow> i = j"
  by (metis mod_div_mult_eq)

interpretation cells: bit_array bitmap_get bitmap_set bitmap_clear bitmap_bits
proof unfold_locales
  fix m :: "u64 list" and i j :: nat
  assume i: "i < bitmap_bits m"
  then have "i div 64 < length m"
    by (simp add: bitmap_bits_def BITMAP_BITS_PER_CELL_def less_mult_imp_div_less mult.commute)
  note i' = this
  show "bitmap_bits (bitmap_set m i) = bitmap_bits m"
    by (simp add: bitmap_bits_def bitmap_set_def Let_def)
  show "bitmap_bits (bitmap_clear m i) = bitmap_bits m"
    by (simp add: bitmap_bits_def bitmap_clear_def Let_def)
  have "j mod 64 < LENGTH(64)" by simp
  then show "bitmap_get (bitmap_set m i) j = (j = i \<or> bitmap_get m j)"
    using i' div_mod_eq_iff [of i j]
    by (auto simp: bitmap_get_bit bitmap_set_def BITMAP_BITS_PER_CELL_def Let_def
        nth_list_update bit_or_one_shift)
  from \<open>j mod 64 < LENGTH(64)\<close> show "bitmap_get (bitmap_clear m i) j = (j \<noteq> i \<and> bitmap_get m j)"
    using i' div_mod_eq_iff [of i j]
    by (auto simp: bitmap_get_bit bitmap_clear_def BITMAP_BITS_PER_CELL_def Let_def
        nth_list_update bit_andnot_one_shift)
qed

end
