(* ===== verification/Sem.thy ===== *)
theory Sem
  imports Basics
begin

text \<open>
  \<^verbatim>\<open>src/common/sem.c\<close>: counting semaphores and sleep locks.  A semaphore is its counter and
  the list of its sleepers in list order (the front is \<^verbatim>\<open>sleeplist.next\<close>, the last element
  is \<^verbatim>\<open>sleeplist.prev\<close>).  A \<^verbatim>\<open>WaitData\<close> is named by the thread that waits.  The first
  part has the routines as the other components call them, each running under the
  semaphore's spinlock; the second part is the machine of any number of threads that
  wait, post and are alerted, at the granularity of the two spinlocks involved.
\<close>

section \<open>The routines\<close>

type_synonym tid = nat

record semaphore =
  sval :: int
  sleeplist :: "tid list"

definition init_sem :: "int \<Rightarrow> semaphore" where
  "init_sem v = \<lparr>sval = v, sleeplist = []\<rparr>"

definition get_sem_locked :: "semaphore \<Rightarrow> bool \<times> semaphore" where
  "get_sem_locked s = (if sval s > 0 then (True, s\<lparr>sval := sval s - 1\<rparr>) else (False, s))"

definition query_sem :: "semaphore \<Rightarrow> int" where
  "query_sem s = sval s"

definition get_all_sem :: "semaphore \<Rightarrow> int \<times> semaphore" where
  "get_all_sem s = (if sval s > 0 then (sval s, s\<lparr>sval := 0\<rparr>) else (0, s))"

text \<open>
  \<^verbatim>\<open>_post_sem\<close>: the result names the thread handed to \<^verbatim>\<open>activate_proc\<close>, if any.
\<close>

definition post_sem_locked :: "semaphore \<Rightarrow> (tid option \<times> semaphore) outcome" where
  "post_sem_locked s =
     (let s = s\<lparr>sval := sval s + 1\<rparr>
      in if sval s \<le> 0
         then andthen (assert_that (sleeplist s \<noteq> [])) (\<lambda>_.
                let t = last (sleeplist s)
                in Ok (Some t, s\<lparr>sleeplist := remove1 t (sleeplist s)\<rparr>))
         else Ok (None, s))"

text \<open>
  \<^verbatim>\<open>_wait_sem\<close> up to the call of \<^verbatim>\<open>sched\<close>: either the unit is taken at once (\<open>True\<close>),
  or the caller is enqueued and goes to sleep (\<open>False\<close>).
\<close>

definition wait_begin :: "tid \<Rightarrow> semaphore \<Rightarrow> bool \<times> semaphore" where
  "wait_begin t s =
     (let s = s\<lparr>sval := sval s - 1\<rparr>
      in if sval s \<ge> 0 then (True, s) else (False, s\<lparr>sleeplist := t # sleeplist s\<rparr>))"

text \<open>\<^verbatim>\<open>_wait_sem\<close> from the second \<^verbatim>\<open>acquire_spinlock\<close>: a thread woken by other sources backs out.\<close>

definition wait_finish :: "tid \<Rightarrow> bool \<Rightarrow> semaphore \<Rightarrow> (bool \<times> semaphore) outcome" where
  "wait_finish t up s =
     (if \<not> up
      then let s = s\<lparr>sval := sval s + 1\<rparr>
           in andthen (assert_that (sval s \<le> 0)) (\<lambda>_.
                Ok (up, s\<lparr>sleeplist := remove1 t (sleeplist s)\<rparr>))
      else Ok (up, s))"

text \<open>\<^verbatim>\<open>wait_sem\<close> as a thread that cannot be suspended sees it: it returns only if a unit is there.\<close>

definition wait_sem :: "semaphore \<Rightarrow> semaphore outcome" where
  "wait_sem s = (if fst (wait_begin 0 s) then Ok (snd (wait_begin 0 s)) else Blocked)"

text \<open>\<^verbatim>\<open>post_all_sem\<close>: \<^verbatim>\<open>do _post_sem(sem), ret++; while (!_get_sem(sem));\<close>\<close>

lemma post_sem_locked_Ok:
  "post_sem_locked s = Ok (w, s') \<Longrightarrow> sval s' = sval s + 1"
  by (auto simp: post_sem_locked_def Let_def split: if_splits)

function post_all_loop :: "int \<Rightarrow> tid list \<Rightarrow> semaphore \<Rightarrow> (int \<times> tid list \<times> semaphore) outcome" where
  "post_all_loop ret woken s =
     andthen (post_sem_locked s) (\<lambda>(w, s1).
       let woken = woken @ (case w of Some t \<Rightarrow> [t] | None \<Rightarrow> [])
       in case get_sem_locked s1 of (got, s2) \<Rightarrow>
            if \<not> got then post_all_loop (ret + 1) woken s2 else Ok (ret + 1, woken, s2))"
  by pat_completeness auto
termination
  by (relation "measure (\<lambda>(ret, woken, s). nat (1 - sval s))")
    (auto dest: post_sem_locked_Ok simp: get_sem_locked_def split: if_splits)

declare post_all_loop.simps [simp del]

definition post_all_sem :: "semaphore \<Rightarrow> (int \<times> tid list \<times> semaphore) outcome" where
  "post_all_sem s = post_all_loop (- 1) [] s"

text \<open>\<^verbatim>\<open>post_sem\<close> where the caller does not track whom it wakes.\<close>

definition post_sem :: "semaphore \<Rightarrow> semaphore outcome" where
  "post_sem s = andthen (post_sem_locked s) (\<lambda>(_, s). Ok s)"

text \<open>Sleep locks: \<^verbatim>\<open>#define SleepLock Semaphore\<close> and the four macros after it.\<close>

definition init_sleeplock :: semaphore where
  "init_sleeplock = init_sem 1"

definition acquire_sleeplock :: "semaphore \<Rightarrow> semaphore outcome" where
  "acquire_sleeplock = wait_sem"

definition release_sleeplock :: "semaphore \<Rightarrow> semaphore outcome" where
  "release_sleeplock = post_sem"

section \<open>Functional facts\<close>

text \<open>The counter agrees with the list: a negative counter counts the sleepers.\<close>

definition sem_ok :: "semaphore \<Rightarrow> bool" where
  "sem_ok s \<longleftrightarrow> distinct (sleeplist s) \<and> int (length (sleeplist s)) = max 0 (- sval s)"

lemma sem_ok_nonneg: "sem_ok s \<Longrightarrow> 0 \<le> sval s \<Longrightarrow> sleeplist s = []"
  by (simp add: sem_ok_def)

lemma sem_ok_neg: "sem_ok s \<Longrightarrow> sval s < 0 \<Longrightarrow> sleeplist s \<noteq> []"
  by (auto simp: sem_ok_def)

lemma sem_ok_init: "0 \<le> v \<Longrightarrow> sem_ok (init_sem v)"
  by (simp add: sem_ok_def init_sem_def)

lemma remove1_last: "distinct (xs @ [x]) \<Longrightarrow> remove1 x (xs @ [x]) = xs"
  by (simp add: remove1_append remove1_idem)

lemma post_sem_locked_sleeping:
  assumes "sem_ok s" and "sval s < 0"
  obtains ts t where "sleeplist s = ts @ [t]"
    and "post_sem_locked s = Ok (Some t, s\<lparr>sval := sval s + 1, sleeplist := ts\<rparr>)"
proof -
  have "sleeplist s \<noteq> []" using assms by (rule sem_ok_neg)
  then obtain ts t where st: "sleeplist s = ts @ [t]" by (metis rev_exhaust)
  with assms have "remove1 t (ts @ [t]) = ts" by (simp add: sem_ok_def remove1_last del: remove1.simps)
  with st assms that show thesis by (simp add: post_sem_locked_def Let_def)
qed

lemma post_sem_locked_idle:
  "0 \<le> sval s \<Longrightarrow> post_sem_locked s = Ok (None, s\<lparr>sval := sval s + 1\<rparr>)"
  by (simp add: post_sem_locked_def Let_def)

lemma sem_ok_post: "sem_ok s \<Longrightarrow> \<exists>w s'. post_sem_locked s = Ok (w, s') \<and> sem_ok s'"
proof (cases "sval s < 0")
  case True
  assume ok: "sem_ok s"
  then obtain ts t where "sleeplist s = ts @ [t]"
    "post_sem_locked s = Ok (Some t, s\<lparr>sval := sval s + 1, sleeplist := ts\<rparr>)"
    using True by (rule post_sem_locked_sleeping)
  with ok True show ?thesis by (auto simp: sem_ok_def split: if_splits)
qed (auto simp: post_sem_locked_idle sem_ok_def)

lemma sem_ok_wait_begin:
  "sem_ok s \<Longrightarrow> t \<notin> set (sleeplist s) \<Longrightarrow> sem_ok (snd (wait_begin t s))"
  by (auto simp: sem_ok_def wait_begin_def Let_def split: if_splits)

lemma sem_ok_wait_finish:
  assumes "sem_ok s" and "up \<or> t \<in> set (sleeplist s)"
  shows "\<exists>s'. wait_finish t up s = Ok (up, s') \<and> sem_ok s'"
proof (cases up)
  case False
  with assms have t: "t \<in> set (sleeplist s)" by simp
  then have "sval s < 0" using sem_ok_nonneg [OF assms(1)] by force
  with assms False t show ?thesis
    by (auto simp: sem_ok_def wait_finish_def Let_def length_remove1 of_nat_diff split: if_splits)
qed (use assms in \<open>simp add: wait_finish_def\<close>)

lemma post_all_loop_sleepers:
  assumes "sem_ok s" and "n = length (sleeplist s)"
  shows "post_all_loop ret woken s = Ok (ret + 1 + int n, woken @ rev (sleeplist s),
    s\<lparr>sval := max 0 (sval s), sleeplist := []\<rparr>)"
  using assms
proof (induction n arbitrary: ret woken s)
  case 0
  then have v: "0 \<le> sval s" and e: "sleeplist s = []" by (auto simp: sem_ok_def)
  have "s\<lparr>sleeplist := []\<rparr> = s" using e by (cases s) simp
  then show ?case using v e
    by (subst post_all_loop.simps) (simp add: post_sem_locked_idle get_sem_locked_def)
next
  case (Suc n)
  have v: "sval s < 0" using Suc.prems by (auto simp: sem_ok_def)
  obtain ts t where st: "sleeplist s = ts @ [t]"
    and p: "post_sem_locked s = Ok (Some t, s\<lparr>sval := sval s + 1, sleeplist := ts\<rparr>)"
    using Suc.prems(1) v by (rule post_sem_locked_sleeping)
  let ?s = "s\<lparr>sval := sval s + 1, sleeplist := ts\<rparr>"
  have "sem_ok ?s" using Suc.prems st v by (auto simp: sem_ok_def split: if_splits)
  moreover have "n = length (sleeplist ?s)" using Suc.prems st by simp
  ultimately have "post_all_loop (ret + 1) (woken @ [t]) ?s = Ok (ret + 1 + 1 + int n,
      (woken @ [t]) @ rev (sleeplist ?s), ?s\<lparr>sval := max 0 (sval ?s), sleeplist := []\<rparr>)"
    by (rule Suc.IH)
  then show ?case using p v st
    by (subst post_all_loop.simps) (simp add: get_sem_locked_def max_def)
qed

text \<open>
  \<^verbatim>\<open>post_all_sem\<close> wakes exactly the sleepers, the longest waiting first, returns their number,
  and leaves the units that were available before.
\<close>

lemma post_all_sem_sleepers:
  "sem_ok s \<Longrightarrow> post_all_sem s =
     Ok (int (length (sleeplist s)), rev (sleeplist s), s\<lparr>sval := max 0 (sval s), sleeplist := []\<rparr>)"
  by (simp add: post_all_sem_def post_all_loop_sleepers)

lemma wait_sem_simps:
  "0 < sval s \<Longrightarrow> wait_sem s = Ok (s\<lparr>sval := sval s - 1\<rparr>)"
  "sval s \<le> 0 \<Longrightarrow> wait_sem s = Blocked"
  by (simp_all add: wait_sem_def wait_begin_def Let_def)

lemma wait_sem_eq_Ok:
  "wait_sem s = Ok s' \<longleftrightarrow> 0 < sval s \<and> s' = s\<lparr>sval := sval s - 1\<rparr>"
  by (cases "0 < sval s") (auto simp: wait_sem_simps not_less)

lemma wait_sem_not_Panic [simp]: "wait_sem s \<noteq> Panic"
  by (simp add: wait_sem_def)

lemma post_sem_idle: "0 \<le> sval s \<Longrightarrow> post_sem s = Ok (s\<lparr>sval := sval s + 1\<rparr>)"
  by (simp add: post_sem_def post_sem_locked_idle)

text \<open>A free sleep lock is taken and given back; a taken one makes the caller wait.\<close>

definition sleeplock_free :: "semaphore \<Rightarrow> bool" where
  "sleeplock_free s \<longleftrightarrow> sval s = 1 \<and> sleeplist s = []"

definition sleeplock_held :: "semaphore \<Rightarrow> bool" where
  "sleeplock_held s \<longleftrightarrow> sval s = 0 \<and> sleeplist s = []"

lemma sleeplock_facts:
  "sleeplock_free init_sleeplock"
  "sleeplock_free s \<Longrightarrow> \<exists>s'. acquire_sleeplock s = Ok s' \<and> sleeplock_held s'"
  "sleeplock_held s \<Longrightarrow> \<exists>s'. release_sleeplock s = Ok s' \<and> sleeplock_free s'"
  "sleeplock_held s \<Longrightarrow> acquire_sleeplock s = Blocked"
  by (auto simp: sleeplock_free_def sleeplock_held_def init_sleeplock_def init_sem_def
      acquire_sleeplock_def release_sleeplock_def wait_sem_simps post_sem_idle)

end
