(* ===== verification/Virtio.thy ===== *)
theory Virtio
  imports Sem "HOL-Library.Multiset"
begin

text \<open>
  \<^verbatim>\<open>src/driver/virtio_blk.c\<close>: the descriptor table of the virtio disk and the life of a
  request in it.  The device itself is hardware: what it does to a request is the
  parameter \<open>transfer\<close> of theory \<open>Device\<close>.  A descriptor is named by its index in the table;
  the pointers that a request puts in it (the header on the stack, the data of the \<^verbatim>\<open>Buf\<close>, the
  status byte) are arguments.
\<close>

section \<open>Data\<close>

definition NQUEUE :: nat where
  "NQUEUE = 16"

record virtq_desc =
  daddr :: u64
  dlen :: nat
  f_next :: bool
  f_write :: bool
  dnext :: nat

record req_info =
  status :: u8
  done_flag :: bool
  buf_ptr :: u64

record virtq =
  desc :: "virtq_desc list"
  free_head :: nat
  nfree :: nat
  last_used_idx :: u16
  avail_idx :: u16
  avail_ring :: "nat list"
  info :: "req_info list"

definition upd_desc :: "nat \<Rightarrow> (virtq_desc \<Rightarrow> virtq_desc) \<Rightarrow> virtq \<Rightarrow> virtq" where
  "upd_desc d f q = q\<lparr>desc := (desc q)[d := f (desc q ! d)]\<rparr>"

lemma upd_desc_simps [simp]:
  "desc (upd_desc d f q) = (desc q)[d := f (desc q ! d)]"
  "free_head (upd_desc d f q) = free_head q" "nfree (upd_desc d f q) = nfree q"
  "avail_idx (upd_desc d f q) = avail_idx q" "avail_ring (upd_desc d f q) = avail_ring q"
  "info (upd_desc d f q) = info q" "last_used_idx (upd_desc d f q) = last_used_idx q"
  by (simp_all add: upd_desc_def)

section \<open>The code\<close>

definition zero_desc :: virtq_desc where
  "zero_desc = \<lparr>daddr = 0, dlen = 0, f_next = False, f_write = False, dnext = 0\<rparr>"

fun desc_init_loop :: "nat \<Rightarrow> nat \<Rightarrow> virtq_desc list \<Rightarrow> virtq_desc list" where
  "desc_init_loop 0 i ds = ds"
| "desc_init_loop (Suc k) i ds =
     desc_init_loop k (i + 1)
       (if i \<noteq> NQUEUE - 1 then ds[i := (ds ! i)\<lparr>f_next := True, f_write := False, dnext := i + 1\<rparr>] else ds)"

definition desc_init :: "virtq \<Rightarrow> virtq" where
  "desc_init q = q\<lparr>desc := desc_init_loop NQUEUE 0 (desc q)\<rparr>"

text \<open>\<^verbatim>\<open>virtq_init\<close>: \<^verbatim>\<open>memset\<close> to zero, pages for the three rings, and the free list.\<close>

definition virtq_init :: virtq where
  "virtq_init = desc_init
     \<lparr>desc = replicate NQUEUE zero_desc, free_head = 0, nfree = NQUEUE, last_used_idx = 0,
      avail_idx = 0, avail_ring = replicate NQUEUE 0,
      info = replicate NQUEUE \<lparr>status = 0, done_flag = False, buf_ptr = 0\<rparr>\<rparr>"

definition alloc_desc :: "virtq \<Rightarrow> (nat \<times> virtq) outcome" where
  "alloc_desc q =
     (if nfree q = 0 then Panic
      else let d = free_head q;
               q = (if f_next (desc q ! d) then q\<lparr>free_head := dnext (desc q ! d)\<rparr> else q)
           in Ok (d, q\<lparr>nfree := nfree q - 1\<rparr>))"

text \<open>
  The loop \<^verbatim>\<open>while (nfree++, desc[n].flags & NEXT) n = desc[n].next\<close>: the last descriptor of
  the chain and the number of descriptors counted.  \<open>None\<close> is a chain that does not end.
\<close>

partial_function (option) free_walk :: "virtq_desc list \<Rightarrow> nat \<Rightarrow> nat \<Rightarrow> (nat \<times> nat) option" where
  "free_walk ds n k =
     (if f_next (ds ! n) then free_walk ds (dnext (ds ! n)) (k + 1) else Some (n, k + 1))"

definition free_desc :: "nat \<Rightarrow> virtq \<Rightarrow> virtq option" where
  "free_desc n q =
     (let head = n; empty = (nfree q = 0)
      in Option.bind (free_walk (desc q) n (nfree q)) (\<lambda>(n, k).
           let q = q\<lparr>nfree := k\<rparr>;
               q = upd_desc n (\<lambda>d. d\<lparr>f_next := True, f_write := False\<rparr>) q;
               q = (if \<not> empty then upd_desc n (\<lambda>d. d\<lparr>dnext := free_head q\<rparr>) q else q)
           in Some (q\<lparr>free_head := head\<rparr>)))"

text \<open>
  \<^verbatim>\<open>virtio_blk_rw\<close> up to the notification of the device: three descriptors are allocated,
  linked and filled, and the first is put in the ring.  The second half frees them.
\<close>

definition submit_request :: "bool \<Rightarrow> u64 \<Rightarrow> u64 \<Rightarrow> (nat \<Rightarrow> u64) \<Rightarrow> virtq \<Rightarrow> (nat \<times> virtq) outcome" where
  "submit_request is_read hdr dat stat q =
     andthen (alloc_desc q) (\<lambda>(d0, q).
     let q = upd_desc d0 (\<lambda>d. d\<lparr>daddr := hdr, dlen := 16, f_next := True, f_write := False\<rparr>) q
     in andthen (alloc_desc q) (\<lambda>(d1, q).
     let q = upd_desc d0 (\<lambda>d. d\<lparr>dnext := d1\<rparr>) q;
         q = upd_desc d1 (\<lambda>d. d\<lparr>daddr := dat, dlen := 512, f_next := True, f_write := is_read\<rparr>) q
     in andthen (alloc_desc q) (\<lambda>(d2, q).
     let q = upd_desc d1 (\<lambda>d. d\<lparr>dnext := d2\<rparr>) q;
         q = upd_desc d2 (\<lambda>d. d\<lparr>daddr := stat d0, dlen := 1, f_next := False, f_write := True, dnext := 0\<rparr>) q;
         q = q\<lparr>avail_ring := (avail_ring q)[unat (avail_idx q) mod NQUEUE := d0], avail_idx := avail_idx q + 1\<rparr>;
         q = q\<lparr>info := (info q)[d0 := (info q ! d0)\<lparr>buf_ptr := dat\<rparr>]\<rparr>
     in Ok (d0, q))))"

definition finish_request :: "nat \<Rightarrow> virtq \<Rightarrow> virtq option" where
  "finish_request d0 q =
     free_desc d0 (q\<lparr>info := (info q)[d0 := (info q ! d0)\<lparr>done_flag := False\<rparr>]\<rparr>)"

text \<open>
  \<^verbatim>\<open>virtio_blk_intr\<close>: the used ring is an argument.  The result lists the buffers whose
  semaphore is posted, in order.
\<close>

definition intr_one :: "nat \<Rightarrow> virtq \<times> u64 list \<Rightarrow> virtq \<times> u64 list" where
  "intr_one d0 = (\<lambda>(q, posted).
     (let p = buf_ptr (info q ! d0);
          (q, posted) = (if p \<noteq> 0
            then (q\<lparr>info := (info q)[d0 := (info q ! d0)\<lparr>done_flag := True\<rparr>]\<rparr>, posted @ [p])
            else (q, posted));
          q = q\<lparr>info := (info q)[d0 := (info q ! d0)\<lparr>buf_ptr := 0\<rparr>]\<rparr>
      in (q\<lparr>last_used_idx := last_used_idx q + 1\<rparr>, posted)))"

lemma intr_one_idx: "intr_one d0 (q, ps) = (q', ps') \<Longrightarrow> last_used_idx q' = last_used_idx q + 1"
  by (auto simp: intr_one_def Let_def split: if_splits prod.splits)

lemma u16_distance_less: "(x :: u16) \<noteq> y \<Longrightarrow> unat (y - (x + 1)) < unat (y - x)"
proof -
  assume "x \<noteq> y"
  then have nz: "y - x \<noteq> 0" by simp
  have e: "y - (x + 1) = (y - x) - 1" by simp
  have "unat (y - x - 1) = unat (y - x) - 1" using nz by (rule unat_minus_one)
  moreover have "0 < unat (y - x)" using nz by (simp add: unat_gt_0)
  ultimately show ?thesis unfolding e by linarith
qed

function intr_loop :: "u16 \<Rightarrow> (nat \<Rightarrow> nat) \<Rightarrow> virtq \<times> u64 list \<Rightarrow> (virtq \<times> u64 list) outcome" where
  "intr_loop used_idx ring (q, posted) =
     (if last_used_idx q \<noteq> used_idx
      then let d0 = ring (unat (last_used_idx q) mod NQUEUE)
           in if status (info q ! d0) \<noteq> 0 then Panic
              else intr_loop used_idx ring (intr_one d0 (q, posted))
      else Ok (q, posted))"
  by pat_completeness auto

termination
proof (relation "measure (\<lambda>(used_idx, ring, q, posted). unat (used_idx - last_used_idx q))")
  fix used_idx :: u16 and ring :: "nat \<Rightarrow> nat" and q :: virtq and posted :: "u64 list" and d0
  assume n: "last_used_idx q \<noteq> used_idx"
  obtain q' ps where o: "intr_one d0 (q, posted) = (q', ps)" by fastforce
  with u16_distance_less [OF n]
  show "((used_idx, ring, intr_one d0 (q, posted)), used_idx, ring, q, posted)
      \<in> measure (\<lambda>(used_idx, ring, q, posted). unat (used_idx - last_used_idx q))"
    by (simp add: intr_one_idx [OF o])
qed simp

definition virtio_blk_intr :: "u16 \<Rightarrow> (nat \<Rightarrow> nat) \<Rightarrow> virtq \<Rightarrow> (virtq \<times> u64 list) outcome" where
  "virtio_blk_intr used_idx ring q = intr_loop used_idx ring (q, [])"

section \<open>The descriptors are shared out between the free list and the requests\<close>

fun free_chain :: "virtq_desc list \<Rightarrow> nat \<Rightarrow> nat list \<Rightarrow> bool" where
  "free_chain ds h [] = True"
| "free_chain ds h [x] = (h = x)"
| "free_chain ds h (x # y # ys) = (h = x \<and> f_next (ds ! x) \<and> free_chain ds (dnext (ds ! x)) (y # ys))"

definition busy_chain :: "virtq_desc list \<Rightarrow> nat \<times> nat \<times> nat \<Rightarrow> bool" where
  "busy_chain ds = (\<lambda>(a, b, c). f_next (ds ! a) \<and> dnext (ds ! a) = b \<and>
     f_next (ds ! b) \<and> dnext (ds ! b) = c \<and> \<not> f_next (ds ! c))"

definition desc_of :: "nat \<times> nat \<times> nat \<Rightarrow> nat list" where
  "desc_of = (\<lambda>(a, b, c). [a, b, c])"

definition virtq_ok :: "virtq \<Rightarrow> nat list \<Rightarrow> (nat \<times> nat \<times> nat) list \<Rightarrow> bool" where
  "virtq_ok q free reqs \<longleftrightarrow>
     length (desc q) = NQUEUE \<and> nfree q = length free \<and>
     distinct (free @ concat (map desc_of reqs)) \<and>
     set (free @ concat (map desc_of reqs)) = {..<NQUEUE} \<and>
     free_chain (desc q) (free_head q) free \<and> (\<forall>r\<in>set reqs. busy_chain (desc q) r)"

lemma free_chain_cong:
  "free_chain ds h xs \<Longrightarrow> \<forall>x\<in>set xs. ds' ! x = ds ! x \<Longrightarrow> free_chain ds' h xs"
  by (induction ds h xs rule: free_chain.induct) auto

lemma free_chain_update [simp]:
  "d \<notin> set xs \<Longrightarrow> free_chain (ds[d := v]) h xs = free_chain ds h xs"
  by (rule iffI; erule free_chain_cong) (metis nth_list_update_neq)+

lemma busy_chain_update [simp]:
  "d \<notin> set (desc_of r) \<Longrightarrow> busy_chain (ds[d := v]) r = busy_chain ds r"
  by (cases r) (auto simp: busy_chain_def desc_of_def)

lemma alloc_desc_chain:
  assumes "free_chain (desc q) (free_head q) (x # xs)" and "nfree q = length (x # xs)"
  shows "\<exists>h. alloc_desc q = Ok (x, q\<lparr>free_head := h, nfree := length xs\<rparr>) \<and> free_chain (desc q) h xs"
  using assms
  by (cases xs; intro exI [of _ "if f_next (desc q ! x) then dnext (desc q ! x) else free_head q"])
    (auto simp: alloc_desc_def Let_def)

lemma virtq_ok_length: "virtq_ok q free reqs \<Longrightarrow> length free + 3 * length reqs = NQUEUE"
proof -
  assume ok: "virtq_ok q free reqs"
  have "length (concat (map desc_of reqs)) = 3 * length reqs"
    by (induction reqs) (auto simp: desc_of_def)
  moreover have "length (free @ concat (map desc_of reqs)) = NQUEUE"
    using ok distinct_card [of "free @ concat (map desc_of reqs)"] by (simp add: virtq_ok_def)
  ultimately show ?thesis by simp
qed

lemma virtq_ok_submit:
  assumes ok: "virtq_ok q (a # b # c # xs) reqs"
  shows "\<exists>q'. submit_request rd hdr dat stat q = Ok (a, q') \<and> virtq_ok q' xs ((a, b, c) # reqs) \<and>
    (\<forall>r\<in>set reqs. \<forall>d\<in>set (desc_of r). desc q' ! d = desc q ! d) \<and>
    daddr (desc q' ! a) = hdr \<and> daddr (desc q' ! b) = dat \<and> f_write (desc q' ! b) = rd \<and>
    daddr (desc q' ! c) = stat a"
proof -
  let ?free = "a # b # c # xs"
  have len: "length (desc q) = NQUEUE" and nf: "nfree q = length ?free"
    and dis: "distinct (?free @ concat (map desc_of reqs))"
    and set: "set (?free @ concat (map desc_of reqs)) = {..<NQUEUE}"
    and fc: "free_chain (desc q) (free_head q) ?free" and busy: "\<forall>r\<in>set reqs. busy_chain (desc q) r"
    using ok unfolding virtq_ok_def by auto
  have lt: "a < NQUEUE" "b < NQUEUE" "c < NQUEUE" using set by auto
  have abc: "a \<noteq> b" "a \<noteq> c" "b \<noteq> c" "a \<notin> set xs" "b \<notin> set xs" "c \<notin> set xs" using dis by auto
  have out: "a \<notin> set (desc_of r)" "b \<notin> set (desc_of r)" "c \<notin> set (desc_of r)" if "r \<in> set reqs" for r
    using that dis by auto
  obtain h1 where 1: "alloc_desc q = Ok (a, q\<lparr>free_head := h1, nfree := length (b # c # xs)\<rparr>)"
    "free_chain (desc q) h1 (b # c # xs)"
    using alloc_desc_chain [OF fc nf] by blast
  define q1 where "q1 = upd_desc a (\<lambda>d. d\<lparr>daddr := hdr, dlen := 16, f_next := True, f_write := False\<rparr>)
    (q\<lparr>free_head := h1, nfree := length (b # c # xs)\<rparr>)"
  have "free_chain (desc q1) (free_head q1) (b # c # xs)" "nfree q1 = length (b # c # xs)"
    using 1(2) abc by (simp_all add: q1_def)
  from alloc_desc_chain [OF this] obtain h2 where
    2: "alloc_desc q1 = Ok (b, q1\<lparr>free_head := h2, nfree := length (c # xs)\<rparr>)"
    "free_chain (desc q1) h2 (c # xs)" by blast
  define q2 where "q2 = upd_desc b (\<lambda>d. d\<lparr>daddr := dat, dlen := 512, f_next := True, f_write := rd\<rparr>)
    (upd_desc a (\<lambda>d. d\<lparr>dnext := b\<rparr>) (q1\<lparr>free_head := h2, nfree := length (c # xs)\<rparr>))"
  have "free_chain (desc q2) (free_head q2) (c # xs)" "nfree q2 = length (c # xs)"
    using 2(2) abc by (simp_all add: q2_def)
  from alloc_desc_chain [OF this] obtain h3 where
    3: "alloc_desc q2 = Ok (c, q2\<lparr>free_head := h3, nfree := length xs\<rparr>)"
    "free_chain (desc q2) h3 xs" by blast
  define q3 where "q3 = upd_desc c (\<lambda>d. d\<lparr>daddr := stat a, dlen := 1, f_next := False, f_write := True, dnext := 0\<rparr>)
    (upd_desc b (\<lambda>d. d\<lparr>dnext := c\<rparr>) (q2\<lparr>free_head := h3, nfree := length xs\<rparr>))"
  define q4 where "q4 = q3\<lparr>avail_ring := (avail_ring q3)[unat (avail_idx q3) mod NQUEUE := a],
    avail_idx := avail_idx q3 + 1\<rparr>"
  define q' where "q' = q4\<lparr>info := (info q4)[a := (info q4 ! a)\<lparr>buf_ptr := dat\<rparr>]\<rparr>"
  have run: "submit_request rd hdr dat stat q = Ok (a, q')"
    unfolding submit_request_def Let_def 1(1) andthen_simps prod.case q1_def [symmetric] 2(1)
      q2_def [symmetric] 3(1) q3_def [symmetric] q4_def [symmetric] q'_def [symmetric] ..
  have desc': "desc q' = desc q3" by (simp add: q'_def q4_def)
  have q': "length (desc q') = NQUEUE" "nfree q' = length xs"
    "free_chain (desc q') (free_head q') xs" "busy_chain (desc q') (a, b, c)"
    using 3(2) abc lt len by (simp_all add: q'_def q4_def q3_def q2_def q1_def busy_chain_def)
  have "busy_chain (desc q') r" if "r \<in> set reqs" for r
    using that busy out by (simp add: desc' q3_def q2_def q1_def)
  with q' dis set have "virtq_ok q' xs ((a, b, c) # reqs)"
    by (auto simp: virtq_ok_def desc_of_def)
  moreover have "desc q' ! d = desc q ! d" if "r \<in> set reqs" "d \<in> set (desc_of r)" for r d
  proof -
    have "d \<noteq> a" "d \<noteq> b" "d \<noteq> c" using out [OF that(1)] that(2) by auto
    then show ?thesis by (simp add: desc' q3_def q2_def q1_def)
  qed
  moreover have "daddr (desc q' ! a) = hdr" "daddr (desc q' ! b) = dat" "f_write (desc q' ! b) = rd"
    "daddr (desc q' ! c) = stat a"
    using abc lt len by (simp_all add: desc' q3_def q2_def q1_def)
  ultimately show ?thesis using run by blast
qed

lemma length_less_3: "length xs < 3 \<longleftrightarrow> xs = [] \<or> (\<exists>a. xs = [a]) \<or> (\<exists>a b. xs = [a, b])"
  by (cases xs; cases "tl xs"; cases "tl (tl xs)") auto

lemma alloc_desc_empty: "nfree q = 0 \<Longrightarrow> alloc_desc q = Panic"
  by (simp add: alloc_desc_def)

lemma submit_panics:
  assumes ok: "virtq_ok q free reqs" and few: "length free < 3"
  shows "submit_request rd hdr dat stat q = Panic"
proof -
  note A = alloc_desc_chain
  consider "free = []" | a where "free = [a]" | a b where "free = [a, b]"
    using few by (auto simp: length_less_3)
  then show ?thesis
  proof cases
    case 1
    then show ?thesis using ok by (simp add: submit_request_def alloc_desc_empty virtq_ok_def)
  next
    case (2 a)
    then obtain h where "alloc_desc q = Ok (a, q\<lparr>free_head := h, nfree := 0\<rparr>)"
      using A [of q a "[]"] ok by (auto simp: virtq_ok_def)
    then show ?thesis by (simp add: submit_request_def Let_def alloc_desc_empty)
  next
    case (3 a b)
    then obtain h where h: "alloc_desc q = Ok (a, q\<lparr>free_head := h, nfree := 1\<rparr>)"
      "free_chain (desc q) h [b]"
      using A [of q a "[b]"] ok by (auto simp: virtq_ok_def)
    have "a \<noteq> b" using ok 3 by (auto simp: virtq_ok_def)
    let ?q = "upd_desc a (\<lambda>d. d\<lparr>daddr := hdr, dlen := 16, f_next := True, f_write := False\<rparr>)
      (q\<lparr>free_head := h, nfree := Suc 0\<rparr>)"
    obtain h2 where "alloc_desc ?q = Ok (b, ?q\<lparr>free_head := h2, nfree := 0\<rparr>)"
      using A [of ?q b "[]"] h(2) \<open>a \<noteq> b\<close> by auto
    with h(1) show ?thesis by (simp add: submit_request_def Let_def alloc_desc_empty)
  qed
qed

lemma virtq_ok_finish:
  assumes ok: "virtq_ok q free ((a, b, c) # reqs)"
  shows "\<exists>q'. finish_request a q = Some q' \<and> virtq_ok q' (a # b # c # free) reqs"
proof -
  have len: "length (desc q) = NQUEUE" and nf: "nfree q = length free"
    and dis: "distinct (free @ [a, b, c] @ concat (map desc_of reqs))"
    and set: "set (free @ [a, b, c] @ concat (map desc_of reqs)) = {..<NQUEUE}"
    and fc: "free_chain (desc q) (free_head q) free"
    and busy: "busy_chain (desc q) (a, b, c)" "\<forall>r\<in>set reqs. busy_chain (desc q) r"
    using ok by (auto simp: virtq_ok_def desc_of_def)
  let ?q = "q\<lparr>info := (info q)[a := (info q ! a)\<lparr>done_flag := False\<rparr>]\<rparr>"
  have walk: "free_walk (desc q) a k = Some (c, k + 3)" for k
    using busy(1) by (auto simp: busy_chain_def free_walk.simps)
  have c: "c < NQUEUE" "c \<noteq> a" "c \<noteq> b" "c \<notin> set free" using dis set by auto
  have out: "c \<notin> set (desc_of r)" if "r \<in> set reqs" for r using that dis by auto
  obtain q' where q': "finish_request a q = Some q'" "nfree q' = length free + 3"
    "free_head q' = a"
    "desc q' = (desc q)[c := (desc q ! c)\<lparr>f_next := True, f_write := False,
       dnext := (if free \<noteq> [] then free_head q else dnext (desc q ! c))\<rparr>]"
    using nf walk c len by (auto simp: finish_request_def free_desc_def Let_def)
  have "free_chain (desc q') a (a # b # c # free)"
  proof (cases free)
    case Nil
    then show ?thesis using busy(1) c by (auto simp: q'(4) busy_chain_def)
  next
    case (Cons x xs)
    then have "free_head q = x" using fc by (cases xs) auto
    then show ?thesis using busy(1) c fc Cons len by (auto simp: q'(4) busy_chain_def)
  qed
  moreover have "\<forall>r\<in>set reqs. busy_chain (desc q') r" using busy(2) out by (simp add: q'(4))
  ultimately have "virtq_ok q' (a # b # c # free) reqs"
    using dis set len q' by (auto simp: virtq_ok_def)
  with q'(1) show ?thesis by blast
qed

lemma length_desc_init_loop [simp]: "length (desc_init_loop n i ds) = length ds"
  by (induction n arbitrary: i ds) simp_all

lemma virtq_ok_init: "virtq_ok virtq_init [0..<NQUEUE] []"
proof -
  have "free_chain (desc virtq_init) 0 [0, 1, 2, 3, 4, 5, 6, 7, 8, 9, 10, 11, 12, 13, 14, 15]"
    by (simp add: virtq_init_def desc_init_def NQUEUE_def zero_desc_def numeral_eq_Suc)
  moreover have "[0..<NQUEUE] = [0, 1, 2, 3, 4, 5, 6, 7, 8, 9, 10, 11, 12, 13, 14, 15]"
    by (simp add: NQUEUE_def upt_rec)
  ultimately have "free_chain (desc virtq_init) 0 [0..<NQUEUE]" by simp
  then show ?thesis by (simp add: virtq_ok_def virtq_init_def desc_init_def lessThan_atLeast0)
qed

text \<open>Requests come and go in any order.\<close>

inductive virtq_run :: "virtq \<Rightarrow> (nat \<times> nat \<times> nat) list \<Rightarrow> bool" where
  start: "virtq_run virtq_init []"
| submit: "virtq_run q reqs \<Longrightarrow> submit_request rd hdr dat stat q = Ok (d0, q') \<Longrightarrow>
    virtq_run q' ((d0, dnext (desc q' ! d0), dnext (desc q' ! dnext (desc q' ! d0))) # reqs)"
| finish: "virtq_run q reqs \<Longrightarrow> (a, b, c) \<in> set reqs \<Longrightarrow> finish_request a q = Some q' \<Longrightarrow>
    virtq_run q' (remove1 (a, b, c) reqs)"

lemma virtq_ok_reqs_perm:
  assumes "virtq_ok q free reqs" and "r \<in> set reqs"
  shows "virtq_ok q free (r # remove1 r reqs)"
proof -
  have p: "mset reqs = mset (r # remove1 r reqs)" using assms(2) by simp
  then have "mset (concat (map desc_of reqs)) = mset (concat (map desc_of (r # remove1 r reqs)))"
    by (metis mset_concat mset_map sum_mset_sum_list)
  then have "mset (free @ concat (map desc_of reqs)) = mset (free @ concat (map desc_of (r # remove1 r reqs)))"
    by simp
  then have "distinct (free @ concat (map desc_of (r # remove1 r reqs)))"
    "set (free @ concat (map desc_of (r # remove1 r reqs))) = {..<NQUEUE}"
    using assms(1) unfolding virtq_ok_def by (metis mset_eq_imp_distinct_iff, metis mset_eq_setD)
  moreover have "set (r # remove1 r reqs) = set reqs" using p by (metis mset_eq_setD)
  ultimately show ?thesis using assms(1) unfolding virtq_ok_def by auto
qed

lemma virtq_run_ok: "virtq_run q reqs \<Longrightarrow> \<exists>free. virtq_ok q free reqs"
proof (induction rule: virtq_run.induct)
  case start
  show ?case using virtq_ok_init by blast
next
  case (submit q reqs rd hdr dat stat d0 q')
  then obtain free where ok: "virtq_ok q free reqs" by blast
  have "\<not> length free < 3" using submit_panics [OF ok] submit.hyps(2) by auto
  then obtain a b c xs where "free = a # b # c # xs"
    by (metis Suc_le_length_iff not_less numeral_3_eq_3)
  with virtq_ok_submit [of q a b c xs reqs rd hdr dat stat] ok submit.hyps(2)
  have "d0 = a" "virtq_ok q' xs ((a, b, c) # reqs)" by auto
  moreover from this(2) have "dnext (desc q' ! a) = b" "dnext (desc q' ! b) = c"
    by (simp_all add: virtq_ok_def busy_chain_def)
  ultimately show ?case by auto
next
  case (finish q reqs a b c q')
  then obtain free where "virtq_ok q free ((a, b, c) # remove1 (a, b, c) reqs)"
    using virtq_ok_reqs_perm by blast
  from virtq_ok_finish [OF this] finish.hyps(3) show ?case by auto
qed

text \<open>A request is refused (by a panic) only when five are already in flight.\<close>

lemma virtq_capacity:
  assumes "virtq_run q reqs"
  shows "length reqs \<le> 5" and "nfree q + 3 * length reqs = NQUEUE"
    and "submit_request rd hdr dat stat q = Panic \<longleftrightarrow> length reqs = 5"
proof -
  obtain free where ok: "virtq_ok q free reqs" using virtq_run_ok [OF assms] by blast
  have n: "length free + 3 * length reqs = 16"
    using virtq_ok_length [OF ok] by (simp add: NQUEUE_def)
  then show "length reqs \<le> 5" by simp
  show "nfree q + 3 * length reqs = NQUEUE" using n ok by (simp add: virtq_ok_def NQUEUE_def)
  show "submit_request rd hdr dat stat q = Panic \<longleftrightarrow> length reqs = 5"
  proof
    assume p: "submit_request rd hdr dat stat q = Panic"
    have "length free < 3"
    proof (rule ccontr)
      assume "\<not> length free < 3"
      then obtain a b c xs where "free = a # b # c # xs"
        by (metis Suc_le_length_iff not_less numeral_3_eq_3)
      with virtq_ok_submit [of q a b c xs reqs rd hdr dat stat] ok p show False by auto
    qed
    with n show "length reqs = 5" by linarith
  next
    assume "length reqs = 5"
    with n have "length free < 3" by linarith
    then show "submit_request rd hdr dat stat q = Panic" by (rule submit_panics [OF ok])
  qed
qed

end
