(* ===== verification/FsDefs.thy ===== *)
theory FsDefs
  imports Prelude
begin

text \<open>
  \<^verbatim>\<open>src/fs/defines.h\<close>: the on-disk structures.  A struct in a block is read and written
  through a cast pointer, so each structure comes with the bytes it occupies (little endian,
  no padding between the fields used here) and the fact that the two directions agree.
\<close>

section \<open>Constants\<close>

definition BLOCK_SIZE :: nat where "BLOCK_SIZE = 512"

definition LOG_MAX_SIZE :: nat where "LOG_MAX_SIZE = (BLOCK_SIZE - 8) div 8"

definition INODE_NUM_DIRECT :: nat where "INODE_NUM_DIRECT = 12"

definition INODE_NUM_INDIRECT :: nat where "INODE_NUM_INDIRECT = BLOCK_SIZE div 4"

definition sizeof_InodeEntry :: nat where "sizeof_InodeEntry = 64"

definition INODE_PER_BLOCK :: nat where "INODE_PER_BLOCK = BLOCK_SIZE div sizeof_InodeEntry"

definition INODE_MAX_BLOCKS :: nat where "INODE_MAX_BLOCKS = INODE_NUM_DIRECT + INODE_NUM_INDIRECT"

definition INODE_MAX_BYTES :: nat where "INODE_MAX_BYTES = INODE_MAX_BLOCKS * BLOCK_SIZE"

definition FILE_NAME_MAX_LENGTH :: nat where "FILE_NAME_MAX_LENGTH = 14"

definition INODE_INVALID :: u16 where "INODE_INVALID = 0"

definition INODE_DIRECTORY :: u16 where "INODE_DIRECTORY = 1"

definition INODE_REGULAR :: u16 where "INODE_REGULAR = 2"

definition INODE_DEVICE :: u16 where "INODE_DEVICE = 3"

definition ROOT_INODE_NO :: nat where "ROOT_INODE_NO = 1"

definition BIT_PER_BLOCK :: nat where "BIT_PER_BLOCK = BLOCK_SIZE * 8"

lemmas fs_sizes = BLOCK_SIZE_def LOG_MAX_SIZE_def INODE_NUM_DIRECT_def INODE_NUM_INDIRECT_def
  sizeof_InodeEntry_def INODE_PER_BLOCK_def INODE_MAX_BLOCKS_def INODE_MAX_BYTES_def
  FILE_NAME_MAX_LENGTH_def BIT_PER_BLOCK_def

definition zero_block :: "u8 list" where "zero_block = replicate BLOCK_SIZE 0"

lemma length_zero_block [simp]: "length zero_block = BLOCK_SIZE"
  by (simp add: zero_block_def)

section \<open>Fields of a struct\<close>

definition field :: "nat \<Rightarrow> nat \<Rightarrow> u8 list \<Rightarrow> nat" where
  "field off k bs = le_value (take k (drop off bs))"

lemma field_bound: "field off k bs < 256 ^ k"
proof -
  have "le_value (take k (drop off bs)) < 256 ^ length (take k (drop off bs))" by (rule le_value_bound)
  also have "\<dots> \<le> 256 ^ k" by (rule power_increasing) auto
  finally show ?thesis by (simp add: field_def)
qed

lemma field_le_bytes:
  "length xs = off \<Longrightarrow> v < 256 ^ k \<Longrightarrow> field off k (xs @ le_bytes k v @ ys) = v"
  by (simp add: field_def le_value_le_bytes)

section \<open>The super block\<close>

record super_block =
  num_blocks :: nat
  num_data_blocks :: nat
  num_inodes :: nat
  num_log_blocks :: nat
  log_start :: nat
  inode_start :: nat
  bitmap_start :: nat

definition decode_super :: "u8 list \<Rightarrow> super_block" where
  "decode_super bs = \<lparr>num_blocks = field 0 4 bs, num_data_blocks = field 4 4 bs,
     num_inodes = field 8 4 bs, num_log_blocks = field 12 4 bs, log_start = field 16 4 bs,
     inode_start = field 20 4 bs, bitmap_start = field 24 4 bs\<rparr>"

section \<open>The log header\<close>

record log_header =
  hnum :: nat
  hblocks :: "nat list"

definition encode_header :: "log_header \<Rightarrow> u8 list" where
  "encode_header h = le_bytes 8 (hnum h) @ concat (map (le_bytes 8) (hblocks h))"

definition decode_header :: "u8 list \<Rightarrow> log_header" where
  "decode_header bs = \<lparr>hnum = le_value (take 8 bs),
     hblocks = map (\<lambda>i. le_value (chunk 8 i (drop 8 bs))) [0..<LOG_MAX_SIZE]\<rparr>"

definition header_ok :: "log_header \<Rightarrow> bool" where
  "header_ok h \<longleftrightarrow> hnum h < 2 ^ 64 \<and> length (hblocks h) = LOG_MAX_SIZE \<and> (\<forall>b\<in>set (hblocks h). b < 2 ^ 64)"

lemma decode_encode_header: "header_ok h \<Longrightarrow> decode_header (encode_header h) = h"
proof -
  assume ok: "header_ok h"
  have all: "\<forall>x\<in>set (map (le_bytes 8) (hblocks h)). length x = 8" by simp
  have "le_value (chunk 8 i (concat (map (le_bytes 8) (hblocks h)))) = hblocks h ! i"
    if "i < LOG_MAX_SIZE" for i
    using chunk_concat [OF all, of i "[]"] ok that
    by (simp add: header_ok_def le_value_le_bytes)
  then have "map (\<lambda>i. le_value (chunk 8 i (drop 8 (encode_header h)))) [0..<LOG_MAX_SIZE] = hblocks h"
    using ok by (auto simp: encode_header_def header_ok_def intro!: nth_equalityI)
  then show ?thesis
    using ok by (simp add: decode_header_def encode_header_def header_ok_def le_value_le_bytes)
qed

lemma length_encode_header: "length (hblocks h) = LOG_MAX_SIZE \<Longrightarrow> length (encode_header h) = BLOCK_SIZE"
proof -
  assume l: "length (hblocks h) = LOG_MAX_SIZE"
  have all: "\<forall>x\<in>set (map (le_bytes 8) (hblocks h)). length x = 8" by simp
  have "length (concat (map (le_bytes 8) (hblocks h))) = 8 * LOG_MAX_SIZE"
    using length_concat_const [OF all] l by simp
  then show ?thesis by (simp add: encode_header_def fs_sizes)
qed

section \<open>Inode entries\<close>

record inode_entry =
  itype :: u16
  major :: u16
  minor :: u16
  num_links :: u16
  num_bytes :: u32
  addrs :: "u32 list"
  indirect :: u32

definition encode_inode :: "inode_entry \<Rightarrow> u8 list" where
  "encode_inode e = le_bytes 2 (unat (itype e)) @ le_bytes 2 (unat (major e)) @
     le_bytes 2 (unat (minor e)) @ le_bytes 2 (unat (num_links e)) @ le_bytes 4 (unat (num_bytes e)) @
     concat (map (\<lambda>a. le_bytes 4 (unat a)) (addrs e)) @ le_bytes 4 (unat (indirect e))"

definition decode_inode :: "u8 list \<Rightarrow> inode_entry" where
  "decode_inode bs = \<lparr>itype = word_of_nat (field 0 2 bs), major = word_of_nat (field 2 2 bs),
     minor = word_of_nat (field 4 2 bs), num_links = word_of_nat (field 6 2 bs),
     num_bytes = word_of_nat (field 8 4 bs),
     addrs = map (\<lambda>i. word_of_nat (le_value (chunk 4 i (drop 12 bs)))) [0..<INODE_NUM_DIRECT],
     indirect = word_of_nat (field 60 4 bs)\<rparr>"

lemma unat_u16_less: "unat (w :: u16) < 256 ^ 2"
  using unsigned_less [of w] by simp

lemma unat_u32_less: "unat (w :: u32) < 256 ^ 4"
  using unsigned_less [of w] by simp

lemma le_value_word [simp]:
  "le_value (le_bytes 2 (unat (v :: u16))) = unat v"
  "le_value (le_bytes 4 (unat (w :: u32))) = unat w"
  using le_value_le_bytes [OF unat_u16_less] le_value_le_bytes [OF unat_u32_less] by blast+

lemma length_encode_inode:
  "length (addrs e) = INODE_NUM_DIRECT \<Longrightarrow> length (encode_inode e) = sizeof_InodeEntry"
proof -
  assume l: "length (addrs e) = INODE_NUM_DIRECT"
  have all: "\<forall>x\<in>set (map (\<lambda>a. le_bytes 4 (unat a)) (addrs e)). length x = 4" by simp
  from length_concat_const [OF all] l show ?thesis by (simp add: encode_inode_def fs_sizes)
qed

lemma decode_encode_inode:
  assumes l: "length (addrs e) = INODE_NUM_DIRECT"
  shows "decode_inode (encode_inode e) = e"
proof -
  let ?as = "map (\<lambda>a. le_bytes 4 (unat a)) (addrs e)"
  have all: "\<forall>x\<in>set ?as. length x = 4" by simp
  have lc: "length (concat ?as) = 48" using length_concat_const [OF all] l by (simp add: fs_sizes)
  have "le_value (chunk 4 i (concat ?as @ ys)) = unat (addrs e ! i)" if "i < INODE_NUM_DIRECT" for i ys
    using chunk_concat [OF all, of i ys] l that by (simp add:)
  then have "addrs (decode_inode (encode_inode e)) = addrs e"
    using l by (auto simp: decode_inode_def encode_inode_def intro!: nth_equalityI)
  then show ?thesis
    using lc by (simp add: decode_inode_def encode_inode_def field_def)
qed

text \<open>Inode \<open>i\<close> of an inode block, and the entries of an indirect block.\<close>

definition get_inode_entry :: "nat \<Rightarrow> u8 list \<Rightarrow> inode_entry" where
  "get_inode_entry i bs = decode_inode (chunk sizeof_InodeEntry i bs)"

definition put_inode_entry :: "nat \<Rightarrow> inode_entry \<Rightarrow> u8 list \<Rightarrow> u8 list" where
  "put_inode_entry i e bs = put_chunk sizeof_InodeEntry i (encode_inode e) bs"

definition get_indirect :: "nat \<Rightarrow> u8 list \<Rightarrow> u32" where
  "get_indirect i bs = word_of_nat (le_value (chunk 4 i bs))"

definition put_indirect :: "nat \<Rightarrow> u32 \<Rightarrow> u8 list \<Rightarrow> u8 list" where
  "put_indirect i a bs = put_chunk 4 i (le_bytes 4 (unat a)) bs"

lemma inode_entry_rw:
  assumes "length bs = BLOCK_SIZE" and "i < INODE_PER_BLOCK" and "length (addrs e) = INODE_NUM_DIRECT"
  shows "length (put_inode_entry i e bs) = BLOCK_SIZE"
    and "get_inode_entry i (put_inode_entry i e bs) = e"
    and "j \<noteq> i \<Longrightarrow> get_inode_entry j (put_inode_entry i e bs) = get_inode_entry j bs"
proof -
  have le: "sizeof_InodeEntry * i + sizeof_InodeEntry \<le> length bs"
    using assms by (simp add: fs_sizes)
  note l = length_encode_inode [OF assms(3)]
  show "length (put_inode_entry i e bs) = BLOCK_SIZE"
    using length_put_chunk [OF l le] assms(1) by (simp add: put_inode_entry_def)
  show "get_inode_entry i (put_inode_entry i e bs) = e"
    using chunk_put_chunk_same [OF l le] assms(3)
    by (simp add: get_inode_entry_def put_inode_entry_def decode_encode_inode)
  show "j \<noteq> i \<Longrightarrow> get_inode_entry j (put_inode_entry i e bs) = get_inode_entry j bs"
    using chunk_put_chunk_other [OF l le, of j]
    by (simp add: get_inode_entry_def put_inode_entry_def)
qed

lemma indirect_rw:
  assumes "length bs = BLOCK_SIZE" and "i < INODE_NUM_INDIRECT"
  shows "length (put_indirect i a bs) = BLOCK_SIZE"
    and "get_indirect i (put_indirect i a bs) = a"
    and "j \<noteq> i \<Longrightarrow> get_indirect j (put_indirect i a bs) = get_indirect j bs"
proof -
  have le: "4 * i + 4 \<le> length bs" using assms by (simp add: fs_sizes)
  have l: "length (le_bytes 4 (unat a)) = 4" by simp
  show "length (put_indirect i a bs) = BLOCK_SIZE"
    using length_put_chunk [OF l le] assms(1) by (simp add: put_indirect_def)
  show "get_indirect i (put_indirect i a bs) = a"
    using chunk_put_chunk_same [OF l le]
    by (simp add: get_indirect_def put_indirect_def)
  show "j \<noteq> i \<Longrightarrow> get_indirect j (put_indirect i a bs) = get_indirect j bs"
    using chunk_put_chunk_other [OF l le, of j]
    by (simp add: get_indirect_def put_indirect_def)
qed

section \<open>Directory entries\<close>

record dir_entry =
  dinode :: u16
  dname :: "u8 list"

definition encode_dirent :: "dir_entry \<Rightarrow> u8 list" where
  "encode_dirent d = le_bytes 2 (unat (dinode d)) @ dname d"

definition decode_dirent :: "u8 list \<Rightarrow> dir_entry" where
  "decode_dirent bs = \<lparr>dinode = word_of_nat (field 0 2 bs), dname = take FILE_NAME_MAX_LENGTH (drop 2 bs)\<rparr>"

definition sizeof_DirEntry :: nat where "sizeof_DirEntry = 16"

lemma decode_encode_dirent:
  "length (dname d) = FILE_NAME_MAX_LENGTH \<Longrightarrow> decode_dirent (encode_dirent d) = d"
  by (simp add: decode_dirent_def encode_dirent_def field_def)

lemma length_encode_dirent:
  "length (dname d) = FILE_NAME_MAX_LENGTH \<Longrightarrow> length (encode_dirent d) = sizeof_DirEntry"
  by (simp add: encode_dirent_def fs_sizes sizeof_DirEntry_def)

end
