(* ===== verification/Device.thy ===== *)
theory Device
  imports Virtio FsDefs
begin

text \<open>
  \<^verbatim>\<open>src/fs/block_device.c\<close>: the block device on top of the virtio disk.  What the disk does
  to a request is the parameter \<open>transfer\<close>: request type, sector, the data buffer and the
  state of the medium give the buffer after the request and the new state.
\<close>

section \<open>Requests\<close>

record buf =
  bblock_no :: u32
  bdirty :: bool
  bdata :: "u8 list"

datatype req_type = VIRTIO_BLK_T_IN | VIRTIO_BLK_T_OUT

type_synonym 'd transfer = "req_type \<Rightarrow> u64 \<Rightarrow> u8 list \<Rightarrow> 'd \<Rightarrow> u8 list \<times> 'd"

definition virtio_blk_rw :: "'d transfer \<Rightarrow> buf \<Rightarrow> 'd \<Rightarrow> buf \<times> 'd" where
  "virtio_blk_rw transfer b d =
     (let op = (if bdirty b then VIRTIO_BLK_T_OUT else VIRTIO_BLK_T_IN);
          sector = ucast (bblock_no b)
      in case transfer op sector (bdata b) d of (dat, d) \<Rightarrow> (b\<lparr>bdata := dat\<rparr>, d))"

definition SBLOCK_OFFSET :: u32 where
  "SBLOCK_OFFSET = 0x20800"

text \<open>\<open>junk\<close> is the content of the uninitialised buffer on the stack.\<close>

definition sd_read :: "'d transfer \<Rightarrow> u8 list \<Rightarrow> nat \<Rightarrow> 'd \<Rightarrow> u8 list \<times> 'd" where
  "sd_read transfer junk block_no d =
     (let b = \<lparr>bblock_no = word_of_nat block_no + SBLOCK_OFFSET, bdirty = False, bdata = junk\<rparr>
      in case virtio_blk_rw transfer b d of (b, d) \<Rightarrow> (take BLOCK_SIZE (bdata b), d))"

definition sd_write :: "'d transfer \<Rightarrow> nat \<Rightarrow> u8 list \<Rightarrow> 'd \<Rightarrow> 'd" where
  "sd_write transfer block_no buffer d =
     (let b = \<lparr>bblock_no = word_of_nat block_no + SBLOCK_OFFSET, bdirty = True,
               bdata = take BLOCK_SIZE buffer\<rparr>
      in snd (virtio_blk_rw transfer b d))"

definition init_block_device :: "'d transfer \<Rightarrow> u8 list \<Rightarrow> 'd \<Rightarrow> super_block \<times> 'd" where
  "init_block_device transfer junk d =
     (case sd_read transfer junk 1 d of (sblock_data, d) \<Rightarrow> (decode_super sblock_data, d))"

section \<open>The interface\<close>

text \<open>
  What the users of \<^verbatim>\<open>BlockDevice\<close> rely on: a block reads as it was last written, writing
  one block leaves the others alone, and reading changes nothing that can be read.
\<close>

locale block_device =
  fixes rd :: "nat \<Rightarrow> 'd \<Rightarrow> u8 list \<times> 'd"
    and wr :: "nat \<Rightarrow> u8 list \<Rightarrow> 'd \<Rightarrow> 'd"
    and limit :: nat
  assumes read_written: "n < limit \<Longrightarrow> length bs = BLOCK_SIZE \<Longrightarrow> fst (rd n (wr n bs d)) = bs"
    and read_other: "n < limit \<Longrightarrow> m < limit \<Longrightarrow> m \<noteq> n \<Longrightarrow> length bs = BLOCK_SIZE \<Longrightarrow>
      fst (rd m (wr n bs d)) = fst (rd m d)"
    and read_pure: "n < limit \<Longrightarrow> m < limit \<Longrightarrow> fst (rd m (snd (rd n d))) = fst (rd m d)"
begin

definition contents :: "'d \<Rightarrow> nat \<Rightarrow> u8 list" where
  "contents d n = fst (rd n d)"

text \<open>The device refines a map from block numbers to blocks.\<close>

lemma contents_write:
  "n < limit \<Longrightarrow> m < limit \<Longrightarrow> length bs = BLOCK_SIZE \<Longrightarrow>
    contents (wr n bs d) m = ((contents d)(n := bs)) m"
  by (simp add: contents_def read_written read_other)

lemma contents_read: "n < limit \<Longrightarrow> m < limit \<Longrightarrow> contents (snd (rd n d)) m = contents d m"
  by (simp add: contents_def read_pure)

fun write_all :: "(nat \<times> u8 list) list \<Rightarrow> 'd \<Rightarrow> 'd" where
  "write_all [] d = d"
| "write_all ((n, bs) # ws) d = write_all ws (wr n bs d)"

text \<open>After a sequence of writes each block holds what was last written to it.\<close>

lemma contents_write_all:
  assumes "\<forall>(n, bs)\<in>set ws. n < limit \<and> length bs = BLOCK_SIZE" and "m < limit"
  shows "contents (write_all ws d) m =
    (case map_of (rev ws) m of None \<Rightarrow> contents d m | Some bs \<Rightarrow> bs)"
  using assms
proof (induction ws arbitrary: d)
  case (Cons w ws)
  obtain n bs where w: "w = (n, bs)" by fastforce
  with Cons show ?case
    by (auto simp: contents_write map_add_def split: option.splits)
qed simp

end

text \<open>
  The medium as the virtio specification describes it: each sector keeps what was last
  written to it.
\<close>

definition sector_transfer :: "(u64 \<Rightarrow> u8 list) transfer" where
  "sector_transfer op sector bs d =
     (case op of VIRTIO_BLK_T_IN \<Rightarrow> (d sector, d)
               | VIRTIO_BLK_T_OUT \<Rightarrow> (bs, d(sector := take BLOCK_SIZE (bs @ drop (length bs) (d sector)))))"

text \<open>Block numbers below \<open>2\<^sup>32\<close> reach different sectors although the offset is added in 32 bits.\<close>

lemma word_of_nat_u32_inj:
  "n < 2 ^ 32 \<Longrightarrow> m < 2 ^ 32 \<Longrightarrow> word_of_nat n = (word_of_nat m :: u32) \<Longrightarrow> n = m"
  by (drule arg_cong [of _ _ unat]) (simp only: u32_of_nat)

lemma unat_ucast_u32_u64: "unat (ucast (x :: u32) :: u64) = unat x"
proof -
  have "unat x < 2 ^ 64" using unsigned_less [of x] by (rule less_le_trans) simp
  then show ?thesis by (simp add: unsigned_ucast_eq take_bit_eq_mod)
qed

lemma sector_inj:
  assumes "n < 2 ^ 32" and "m < 2 ^ 32"
    and "(ucast (word_of_nat n + SBLOCK_OFFSET :: u32) :: u64) = ucast (word_of_nat m + SBLOCK_OFFSET :: u32)"
  shows "n = m"
proof -
  have "word_of_nat n + SBLOCK_OFFSET = (word_of_nat m + SBLOCK_OFFSET :: u32)"
    using arg_cong [OF assms(3), of unat] by (simp only: unat_ucast_u32_u64 word_unat_eq_iff)
  then have "word_of_nat n = (word_of_nat m :: u32)" by (simp only: add_right_cancel)
  then show ?thesis by (rule word_of_nat_u32_inj [OF assms(1,2)])
qed

lemma sd_write_sector:
  "sd_write sector_transfer n bs d =
     d(ucast (word_of_nat n + SBLOCK_OFFSET :: u32) := take BLOCK_SIZE
        (take BLOCK_SIZE bs @ drop (length (take BLOCK_SIZE bs)) (d (ucast (word_of_nat n + SBLOCK_OFFSET :: u32)))))"
  by (simp add: sd_write_def virtio_blk_rw_def sector_transfer_def Let_def)

lemma sd_read_sector:
  "sd_read sector_transfer junk n d = (take BLOCK_SIZE (d (ucast (word_of_nat n + SBLOCK_OFFSET :: u32))), d)"
  by (simp add: sd_read_def virtio_blk_rw_def sector_transfer_def Let_def)

interpretation sd: block_device "sd_read sector_transfer junk" "sd_write sector_transfer" "2 ^ 32"
  for junk
proof
  fix n m :: nat and bs :: "u8 list" and d :: "u64 \<Rightarrow> u8 list"
  assume n: "n < 2 ^ 32"
  show "fst (sd_read sector_transfer junk n (sd_write sector_transfer n bs d)) = bs"
    if "length bs = BLOCK_SIZE"
    using that by (simp add: sd_read_sector sd_write_sector)
  show "fst (sd_read sector_transfer junk m (sd_write sector_transfer n bs d)) =
      fst (sd_read sector_transfer junk m d)"
    if "m < 2 ^ 32" "m \<noteq> n"
    using sector_inj [OF that(1) n] that(2) by (auto simp: sd_read_sector sd_write_sector)
  show "fst (sd_read sector_transfer junk m (snd (sd_read sector_transfer junk n d))) =
      fst (sd_read sector_transfer junk m d)"
    by (simp add: sd_read_sector)
qed

end
