(* ===== verification/Cache.thy ===== *)
theory Cache
  imports Device
begin

text \<open>
  \<^verbatim>\<open>src/fs/cache.c\<close>: the block cache, the log and the block bitmap.  A \<^verbatim>\<open>Block *\<close> is named by
  the number of the block it caches; \<open>lru\<close> is the list behind \<^verbatim>\<open>head\<close>, most recently used
  first, and \<open>blocks\<close> holds the in-memory \<^verbatim>\<open>Block\<close>s.  The device is seen through its
  interface: \<open>store\<close> is what it contains, and \<open>wlog\<close> records every write in order (the record
  is only used to say what a crash leaves behind).  \<^verbatim>\<open>kalloc\<close> succeeds, and a sleep lock is
  never interrupted by a signal.
\<close>

section \<open>State\<close>

record block =
  acquired :: bool
  pinned :: bool
  block_lock :: semaphore
  valid :: bool
  data :: "u8 list"

record op_context =
  rm :: nat

record cache_sys =
  sblock :: super_block
  store :: "nat \<Rightarrow> u8 list"
  wlog :: "(nat \<times> u8 list) list"
  lru :: "nat list"
  blocks :: "nat \<Rightarrow> block"
  cached_block_count :: nat
  clock :: spinlock
  bitlock :: spinlock
  loglock :: spinlock
  header :: log_header
  outstanding :: int
  committing :: bool
  log_sem :: semaphore

definition OP_MAX_NUM_BLOCKS :: nat where "OP_MAX_NUM_BLOCKS = 10"

definition EVICTION_THRESHOLD :: nat where "EVICTION_THRESHOLD = 20"

definition upd_block :: "nat \<Rightarrow> (block \<Rightarrow> block) \<Rightarrow> cache_sys \<Rightarrow> cache_sys" where
  "upd_block n f s = s\<lparr>blocks := (blocks s)(n := f (blocks s n))\<rparr>"

definition lock_cache :: "cache_sys \<Rightarrow> cache_sys outcome" where
  "lock_cache s = andthen (acquire_spinlock (clock s)) (\<lambda>l. Ok (s\<lparr>clock := l\<rparr>))"

definition unlock_cache :: "cache_sys \<Rightarrow> cache_sys" where
  "unlock_cache s = s\<lparr>clock := release_spinlock (clock s)\<rparr>"

definition lock_bitmap :: "cache_sys \<Rightarrow> cache_sys outcome" where
  "lock_bitmap s = andthen (acquire_spinlock (bitlock s)) (\<lambda>l. Ok (s\<lparr>bitlock := l\<rparr>))"

definition unlock_bitmap :: "cache_sys \<Rightarrow> cache_sys" where
  "unlock_bitmap s = s\<lparr>bitlock := release_spinlock (bitlock s)\<rparr>"

definition lock_log :: "cache_sys \<Rightarrow> cache_sys outcome" where
  "lock_log s = andthen (acquire_spinlock (loglock s)) (\<lambda>l. Ok (s\<lparr>loglock := l\<rparr>))"

definition unlock_log :: "cache_sys \<Rightarrow> cache_sys" where
  "unlock_log s = s\<lparr>loglock := release_spinlock (loglock s)\<rparr>"

section \<open>Device access\<close>

definition device_read :: "nat \<Rightarrow> cache_sys \<Rightarrow> cache_sys" where
  "device_read n s = upd_block n (\<lambda>b. b\<lparr>data := store s n\<rparr>) s"

definition dev_write :: "nat \<Rightarrow> u8 list \<Rightarrow> cache_sys \<Rightarrow> cache_sys" where
  "dev_write n bs s = s\<lparr>store := (store s)(n := bs), wlog := wlog s @ [(n, bs)]\<rparr>"

definition device_write :: "nat \<Rightarrow> cache_sys \<Rightarrow> cache_sys" where
  "device_write n s = dev_write n (data (blocks s n)) s"

definition read_header :: "cache_sys \<Rightarrow> cache_sys" where
  "read_header s = s\<lparr>header := decode_header (store s (log_start (sblock s)))\<rparr>"

definition write_header :: "cache_sys \<Rightarrow> cache_sys" where
  "write_header s = dev_write (log_start (sblock s)) (encode_header (header s)) s"

section \<open>The cache\<close>

definition fresh_block :: block where
  "fresh_block = \<lparr>acquired = False, pinned = False, block_lock = init_sleeplock, valid = False,
     data = zero_block\<rparr>"

definition init_block :: "nat \<Rightarrow> cache_sys \<Rightarrow> cache_sys" where
  "init_block n s = upd_block n (\<lambda>_. fresh_block) s"

definition insert_to_head :: "nat \<Rightarrow> cache_sys \<Rightarrow> cache_sys" where
  "insert_to_head n s = s\<lparr>lru := n # lru s\<rparr>"

definition remove_node :: "nat \<Rightarrow> cache_sys \<Rightarrow> cache_sys" where
  "remove_node n s = s\<lparr>lru := remove1 n (lru s)\<rparr>"

definition get_num_cached_blocks :: "cache_sys \<Rightarrow> nat" where
  "get_num_cached_blocks s = cached_block_count s"

text \<open>The eviction loop of \<^verbatim>\<open>cache_acquire\<close>, from the tail of the list.\<close>

fun find_victim :: "nat list \<Rightarrow> (nat \<Rightarrow> block) \<Rightarrow> nat option" where
  "find_victim [] bs = None"
| "find_victim (n # ns) bs =
     (if \<not> acquired (bs n) \<and> \<not> pinned (bs n) then Some n else find_victim ns bs)"

definition evict :: "cache_sys \<Rightarrow> cache_sys" where
  "evict s =
     (case find_victim (rev (lru s)) (blocks s) of
        Some n \<Rightarrow> (remove_node n s)\<lparr>cached_block_count := cached_block_count s - 1\<rparr>
      | None \<Rightarrow> s)"

definition cache_acquire :: "nat \<Rightarrow> cache_sys \<Rightarrow> cache_sys outcome" where
  "cache_acquire n s =
     andthen (lock_cache s) (\<lambda>s.
     if n \<in> set (lru s)
     then let s = upd_block n (\<lambda>b. b\<lparr>acquired := True\<rparr>) s;
              s = unlock_cache s
          in andthen (acquire_sleeplock (block_lock (blocks s n))) (\<lambda>l.
             let s = upd_block n (\<lambda>b. b\<lparr>block_lock := l\<rparr>) s
             in andthen (lock_cache s) (\<lambda>s.
                Ok (unlock_cache (insert_to_head n (remove_node n s)))))
     else let s = (if cached_block_count s \<ge> EVICTION_THRESHOLD then evict s else s);
              s = init_block n s
          in andthen (acquire_sleeplock (block_lock (blocks s n))) (\<lambda>l.
             let s = upd_block n (\<lambda>b. b\<lparr>block_lock := l, valid := True, acquired := True\<rparr>) s;
                 s = s\<lparr>cached_block_count := cached_block_count s + 1\<rparr>;
                 s = unlock_cache s;
                 s = device_read n s
             in andthen (lock_cache s) (\<lambda>s. Ok (unlock_cache (insert_to_head n s)))))"

definition cache_release :: "nat \<Rightarrow> cache_sys \<Rightarrow> cache_sys outcome" where
  "cache_release n s =
     andthen (lock_cache s) (\<lambda>s.
     let s = upd_block n (\<lambda>b. b\<lparr>acquired := False\<rparr>) s
     in andthen (release_sleeplock (block_lock (blocks s n))) (\<lambda>l.
        Ok (unlock_cache (upd_block n (\<lambda>b. b\<lparr>block_lock := l\<rparr>) s))))"

text \<open>The caller's access to \<^verbatim>\<open>block->data\<close>.\<close>

definition block_data :: "nat \<Rightarrow> cache_sys \<Rightarrow> u8 list" where
  "block_data n s = data (blocks s n)"

definition set_block_data :: "nat \<Rightarrow> u8 list \<Rightarrow> cache_sys \<Rightarrow> cache_sys" where
  "set_block_data n bs s = upd_block n (\<lambda>b. b\<lparr>data := bs\<rparr>) s"

section \<open>The log\<close>

definition logged :: "log_header \<Rightarrow> nat list" where
  "logged h = take (hnum h) (hblocks h)"

definition cache_sync :: "op_context option \<Rightarrow> nat \<Rightarrow> cache_sys \<Rightarrow> (op_context option \<times> cache_sys) outcome" where
  "cache_sync ctx n s =
     (case ctx of
        None \<Rightarrow> Ok (None, device_write n s)
      | Some c \<Rightarrow>
          andthen (lock_log s) (\<lambda>s.
          let s = upd_block n (\<lambda>b. b\<lparr>pinned := True\<rparr>) s
          in if n \<in> set (logged (header s)) then Ok (Some c, unlock_log s)
             else if rm c \<le> 0 then Panic
             else if hnum (header s) \<ge> LOG_MAX_SIZE then Panic
             else let h = header s;
                      s = s\<lparr>header := h\<lparr>hblocks := (hblocks h)[hnum h := n], hnum := hnum h + 1\<rparr>\<rparr>
                  in Ok (Some (c\<lparr>rm := rm c - 1\<rparr>), unlock_log s)))"

definition log_full :: "cache_sys \<Rightarrow> bool" where
  "log_full s \<longleftrightarrow> committing s \<or>
     int (hnum (header s)) + (outstanding s + 1) * int OP_MAX_NUM_BLOCKS > int LOG_MAX_SIZE"

text \<open>The \<^verbatim>\<open>while (1)\<close> loop of \<^verbatim>\<open>cache_begin_op\<close>: each round that finds the log full takes a
  unit of \<^verbatim>\<open>log.sem\<close> or waits for one.\<close>

function begin_op_loop :: "cache_sys \<Rightarrow> cache_sys outcome" where
  "begin_op_loop s =
     (if log_full s
      then andthen (wait_sem (log_sem (unlock_log s))) (\<lambda>m.
           andthen (lock_log ((unlock_log s)\<lparr>log_sem := m\<rparr>)) begin_op_loop)
      else Ok (s\<lparr>outstanding := outstanding s + 1\<rparr>))"
  by pat_completeness auto
termination
  by (relation "measure (\<lambda>s. nat (sval (log_sem s)))")
    (auto simp: lock_log_def unlock_log_def wait_sem_eq_Ok)

declare begin_op_loop.simps [simp del]

definition cache_begin_op :: "cache_sys \<Rightarrow> (op_context \<times> cache_sys) outcome" where
  "cache_begin_op s =
     andthen (lock_log s) (\<lambda>s. andthen (begin_op_loop s) (\<lambda>s.
       Ok (\<lparr>rm = OP_MAX_NUM_BLOCKS\<rparr>, unlock_log s)))"

text \<open>The three loops over the log: copy to the log area, install, and recover.\<close>

definition log_block :: "cache_sys \<Rightarrow> nat \<Rightarrow> nat" where
  "log_block s i = log_start (sblock s) + i + 1"

definition write_log_entry :: "nat \<Rightarrow> cache_sys \<Rightarrow> cache_sys outcome" where
  "write_log_entry i s =
     (let a = log_block s i; b = hblocks (header s) ! i
      in andthen (cache_acquire a s) (\<lambda>s.
         andthen (cache_acquire b s) (\<lambda>s.
         let s = set_block_data a (block_data b s) s
         in andthen (cache_sync None a s) (\<lambda>(_, s).
            andthen (cache_release a s) (cache_release b)))))"

definition install_entry :: "nat \<Rightarrow> cache_sys \<Rightarrow> cache_sys outcome" where
  "install_entry i s =
     (let b = hblocks (header s) ! i
      in andthen (cache_acquire b s) (\<lambda>s.
         andthen (cache_sync None b s) (\<lambda>(_, s).
         cache_release b (upd_block b (\<lambda>x. x\<lparr>pinned := False\<rparr>) s))))"

definition recover_entry :: "nat \<Rightarrow> cache_sys \<Rightarrow> cache_sys outcome" where
  "recover_entry i s =
     (let a = log_block s i; b = hblocks (header s) ! i
      in andthen (cache_acquire a s) (\<lambda>s.
         andthen (cache_acquire b s) (\<lambda>s.
         let s = set_block_data b (block_data a s) s
         in andthen (cache_sync None b s) (\<lambda>(_, s).
            andthen (cache_release a s) (cache_release b)))))"

text \<open>
  \<^verbatim>\<open>memset(header.block_no, 0, LOG_MAX_SIZE)\<close> counts bytes: it clears the first 63 bytes of
  the array of 63 eight-byte numbers.
\<close>

definition clear_block_nos :: "nat list \<Rightarrow> nat list" where
  "clear_block_nos bs =
     (let bytes = replicate LOG_MAX_SIZE 0 @ drop LOG_MAX_SIZE (concat (map (le_bytes 8) bs))
      in map (\<lambda>i. le_value (chunk 8 i bytes)) [0..<LOG_MAX_SIZE])"

definition clear_header :: "log_header \<Rightarrow> log_header" where
  "clear_header h = \<lparr>hnum = 0, hblocks = clear_block_nos (hblocks h)\<rparr>"

definition init_log :: "cache_sys \<Rightarrow> cache_sys outcome" where
  "init_log s =
     (let s = s\<lparr>loglock := init_spinlock, outstanding := 0, committing := False, log_sem := init_sem 0,
                header := (header s)\<lparr>hnum := 0\<rparr>\<rparr>;
          s = read_header s
      in andthen (for_each recover_entry [0..<hnum (header s)] s) (\<lambda>s.
         let s = s\<lparr>header := clear_header (header s)\<rparr>
         in Ok (write_header s)))"

definition init_bcache :: "super_block \<Rightarrow> cache_sys \<Rightarrow> cache_sys outcome" where
  "init_bcache sb s =
     init_log (s\<lparr>sblock := sb, clock := init_spinlock, bitlock := init_spinlock, lru := [],
                 cached_block_count := 0\<rparr>)"

definition cache_end_op :: "cache_sys \<Rightarrow> cache_sys outcome" where
  "cache_end_op s =
     andthen (lock_log s) (\<lambda>s.
     let s = s\<lparr>outstanding := outstanding s - 1\<rparr>
     in if committing s then Panic
        else if outstanding s > 0
        then andthen (post_sem (log_sem s)) (\<lambda>m.
             let s = unlock_log (s\<lparr>log_sem := m\<rparr>)
             in andthen (wait_sem (log_sem s)) (\<lambda>m. Ok (s\<lparr>log_sem := m\<rparr>)))
        else let s = s\<lparr>committing := True\<rparr>;
                 s = unlock_log s
             in andthen (for_each write_log_entry [0..<hnum (header s)] s) (\<lambda>s.
                let s = write_header s
                in andthen (lock_log s) (\<lambda>s.
                   andthen (for_each install_entry [0..<hnum (header s)] s) (\<lambda>s.
                   let s = s\<lparr>header := clear_header (header s)\<rparr>;
                       s = write_header s;
                       s = s\<lparr>committing := False\<rparr>
                   in andthen (post_all_sem (log_sem s)) (\<lambda>(_, _, m).
                      Ok (unlock_log (s\<lparr>log_sem := m\<rparr>)))))))"

section \<open>The bitmap of blocks\<close>

text \<open>
  The loops over the bytes of a bitmap block and over the bits of a byte: the position of the
  first free bit that stands for a block below \<open>nb\<close>.  \<open>base\<close> is the number of the block that the
  first bit of the byte stands for.
\<close>

fun scan_bits :: "nat \<Rightarrow> nat \<Rightarrow> u8 \<Rightarrow> nat \<Rightarrow> nat \<Rightarrow> nat option" where
  "scan_bits 0 offset bits base nb = None"
| "scan_bits (Suc k) offset bits base nb =
     (if base + offset < nb
      then if \<not> bit bits offset then Some offset else scan_bits k (offset + 1) bits base nb
      else None)"

fun scan_bytes :: "nat \<Rightarrow> nat \<Rightarrow> u8 list \<Rightarrow> nat \<Rightarrow> nat \<Rightarrow> (nat \<times> nat) option" where
  "scan_bytes 0 idx bs block_count nb = None"
| "scan_bytes (Suc k) idx bs block_count nb =
     (if block_count + idx * 8 < nb
      then case scan_bits 8 0 (bs ! idx) (block_count + idx * 8) nb of
             Some offset \<Rightarrow> Some (idx, offset)
           | None \<Rightarrow> scan_bytes k (idx + 1) bs block_count nb
      else None)"

definition take_block :: "op_context option \<Rightarrow> nat \<Rightarrow> nat \<Rightarrow> nat \<Rightarrow> nat \<Rightarrow> cache_sys \<Rightarrow> (nat \<times> op_context option \<times> cache_sys) outcome" where
  "take_block ctx m block_count idx offset s =
     (let bs = block_data m s;
          s = set_block_data m (bs[idx := bs ! idx OR push_bit offset 1]) s
      in andthen (cache_sync ctx m s) (\<lambda>(ctx, s).
         andthen (cache_release m s) (\<lambda>s.
         let target = block_count + idx * 8 + offset
         in andthen (cache_acquire target s) (\<lambda>s.
            let s = set_block_data target zero_block s
            in andthen (cache_sync ctx target s) (\<lambda>(ctx, s).
               andthen (cache_release target s) (\<lambda>s.
               Ok (target, ctx, unlock_bitmap s)))))))"

function alloc_loop :: "op_context option \<Rightarrow> nat \<Rightarrow> cache_sys \<Rightarrow> nat \<Rightarrow> (nat \<times> op_context option \<times> cache_sys) outcome" where
  "alloc_loop ctx block_count s nb =
     (if block_count < nb
      then let m = bitmap_start (sblock s) + block_count div BIT_PER_BLOCK
           in andthen (cache_acquire m s) (\<lambda>s.
              case scan_bytes BLOCK_SIZE 0 (block_data m s) block_count nb of
                Some (idx, offset) \<Rightarrow> take_block ctx m block_count idx offset s
              | None \<Rightarrow> andthen (cache_release m s) (\<lambda>s. alloc_loop ctx (block_count + BIT_PER_BLOCK) s nb))
      else Panic)"
  by pat_completeness auto
termination
  by (relation "measure (\<lambda>(ctx, block_count, s, nb). nb - block_count)") (auto simp: fs_sizes)

declare alloc_loop.simps [simp del]

definition cache_alloc :: "op_context option \<Rightarrow> cache_sys \<Rightarrow> (nat \<times> op_context option \<times> cache_sys) outcome" where
  "cache_alloc ctx s = andthen (lock_bitmap s) (\<lambda>s. alloc_loop ctx 0 s (num_blocks (sblock s)))"

definition cache_free :: "op_context option \<Rightarrow> nat \<Rightarrow> cache_sys \<Rightarrow> (op_context option \<times> cache_sys) outcome" where
  "cache_free ctx block_no s =
     andthen (lock_bitmap s) (\<lambda>s.
     let m = bitmap_start (sblock s) + block_no div BIT_PER_BLOCK
     in andthen (cache_acquire m s) (\<lambda>s.
        let bit_block_no = block_no mod BIT_PER_BLOCK;
            idx = bit_block_no div 8;
            offset = bit_block_no mod 8;
            bs = block_data m s;
            s = set_block_data m (bs[idx := bs ! idx AND NOT (push_bit offset 1)]) s
        in andthen (cache_sync ctx m s) (\<lambda>(ctx, s).
           andthen (cache_release m s) (\<lambda>s. Ok (ctx, unlock_bitmap s)))))"

end
