(* ===== verification/CacheSpec.thy ===== *)
theory CacheSpec
  imports Cache
begin

text \<open>
  What the block cache promises, as a refinement: the list of blocks, the eviction and the
  sleep locks are forgotten, and what is left is the content of each block as a caller sees
  it, the device behind it, the blocks that are held, the blocks that are pinned and the log.
\<close>

section \<open>The abstract cache\<close>

record acache =
  aview :: "nat \<Rightarrow> u8 list"
  adisk :: "nat \<Rightarrow> u8 list"
  atrace :: "(nat \<times> u8 list) list"
  aheld :: "nat set"
  apin :: "nat set"
  asb :: super_block
  ahdr :: log_header
  aout :: int
  acommit :: bool
  asem :: semaphore
  abit :: spinlock
  alog :: spinlock

definition abs_cache :: "cache_sys \<Rightarrow> acache" where
  "abs_cache s =
     \<lparr>aview = (\<lambda>n. if n \<in> set (lru s) then data (blocks s n) else store s n),
      adisk = store s, atrace = wlog s,
      aheld = {n \<in> set (lru s). acquired (blocks s n)},
      apin = {n \<in> set (lru s). pinned (blocks s n)},
      asb = sblock s, ahdr = header s, aout = outstanding s, acommit = committing s,
      asem = log_sem s, abit = bitlock s, alog = loglock s\<rparr>"

definition block_ok :: "(nat \<Rightarrow> u8 list) \<Rightarrow> nat \<Rightarrow> block \<Rightarrow> bool" where
  "block_ok disk n b \<longleftrightarrow> valid b \<and> length (data b) = BLOCK_SIZE \<and>
     (if acquired b then sleeplock_held (block_lock b) else sleeplock_free (block_lock b)) \<and>
     (\<not> acquired b \<and> \<not> pinned b \<longrightarrow> data b = disk n)"

text \<open>
  The invariant: no block is cached twice and the counter is right, a block that nobody
  holds and that is not pinned agrees with the device, a sleep lock is taken exactly while
  its block is held, and the header block is not in the cache.
\<close>

definition cache_ok :: "cache_sys \<Rightarrow> bool" where
  "cache_ok s \<longleftrightarrow> distinct (lru s) \<and> cached_block_count s = length (lru s) \<and> \<not> clock s \<and>
     log_start (sblock s) \<notin> set (lru s) \<and> (\<forall>n. length (store s n) = BLOCK_SIZE) \<and>
     (\<forall>n\<in>set (lru s). block_ok (store s) n (blocks s n))"

definition a_acquire :: "nat \<Rightarrow> acache \<Rightarrow> acache" where
  "a_acquire n a = a\<lparr>aheld := insert n (aheld a)\<rparr>"

definition a_release :: "nat \<Rightarrow> acache \<Rightarrow> acache" where
  "a_release n a = a\<lparr>aheld := aheld a - {n}\<rparr>"

definition a_set :: "nat \<Rightarrow> u8 list \<Rightarrow> acache \<Rightarrow> acache" where
  "a_set n bs a = a\<lparr>aview := (aview a)(n := bs)\<rparr>"

definition a_flush :: "nat \<Rightarrow> acache \<Rightarrow> acache" where
  "a_flush n a = a\<lparr>adisk := (adisk a)(n := aview a n), atrace := atrace a @ [(n, aview a n)]\<rparr>"

definition a_unpin :: "nat \<Rightarrow> acache \<Rightarrow> acache" where
  "a_unpin n a = a\<lparr>apin := apin a - {n}\<rparr>"

definition a_header :: "acache \<Rightarrow> acache" where
  "a_header a = a_flush (log_start (asb a)) (a_set (log_start (asb a)) (encode_header (ahdr a)) a)"

definition a_pin :: "nat \<Rightarrow> acache \<Rightarrow> acache" where
  "a_pin n a = a\<lparr>apin := insert n (apin a)\<rparr>"

definition a_log :: "nat \<Rightarrow> acache \<Rightarrow> acache" where
  "a_log n a = a\<lparr>ahdr := (ahdr a)\<lparr>hblocks := (hblocks (ahdr a))[hnum (ahdr a) := n], hnum := hnum (ahdr a) + 1\<rparr>\<rparr>"

lemmas a_defs = a_acquire_def a_release_def a_set_def a_flush_def a_unpin_def a_header_def
  a_pin_def a_log_def

lemma abs_cache_simps [simp]:
  "adisk (abs_cache s) = store s" "atrace (abs_cache s) = wlog s" "asb (abs_cache s) = sblock s"
  "ahdr (abs_cache s) = header s" "aout (abs_cache s) = outstanding s"
  "acommit (abs_cache s) = committing s" "asem (abs_cache s) = log_sem s"
  "abit (abs_cache s) = bitlock s" "alog (abs_cache s) = loglock s"
  by (simp_all add: abs_cache_def)

lemma abs_view_held: "n \<in> aheld (abs_cache s) \<Longrightarrow> aview (abs_cache s) n = block_data n s"
  by (simp add: abs_cache_def block_data_def)

lemma held_cached: "n \<in> aheld (abs_cache s) \<Longrightarrow> n \<in> set (lru s) \<and> acquired (blocks s n)"
  by (simp add: abs_cache_def)

lemma view_length: "cache_ok s \<Longrightarrow> length (aview (abs_cache s) n) = BLOCK_SIZE"
  by (auto simp: cache_ok_def abs_cache_def block_ok_def)

text \<open>A block that is neither held nor pinned reads as the device has it.\<close>

lemma view_clean:
  "cache_ok s \<Longrightarrow> n \<notin> aheld (abs_cache s) \<Longrightarrow> n \<notin> apin (abs_cache s) \<Longrightarrow> aview (abs_cache s) n = store s n"
  by (auto simp: cache_ok_def abs_cache_def block_ok_def)

section \<open>Each operation refines its abstract counterpart\<close>

lemma find_victim_Some:
  "find_victim ns bs = Some n \<Longrightarrow> n \<in> set ns \<and> \<not> acquired (bs n) \<and> \<not> pinned (bs n)"
  by (induction ns) (auto split: if_splits)

lemma evict_ok:
  assumes "cache_ok s"
  shows "cache_ok (evict s) \<and> abs_cache (evict s) = abs_cache s \<and> set (lru (evict s)) \<subseteq> set (lru s) \<and>
    clock (evict s) = clock s"
proof (cases "find_victim (rev (lru s)) (blocks s)")
  case None
  then show ?thesis using assms by (simp add: evict_def)
next
  case (Some v)
  note v = find_victim_Some [OF Some]
  have d: "distinct (lru s)" and vd: "data (blocks s v) = store s v"
    using assms v by (auto simp: cache_ok_def block_ok_def)
  have e: "evict s = s\<lparr>lru := remove1 v (lru s), cached_block_count := cached_block_count s - 1\<rparr>"
    using Some by (simp add: evict_def remove_node_def)
  have "length (remove1 v (lru s)) = length (lru s) - 1" using v by (simp add: length_remove1)
  then have "cache_ok (evict s)"
    using assms d by (auto simp: e cache_ok_def)
  moreover have "abs_cache (evict s) = abs_cache s"
    using d v vd by (auto simp: e abs_cache_def fun_eq_iff)
  ultimately show ?thesis using d by (simp add: e)
qed

lemma acquire_sleeplock_free: "sleeplock_free l \<Longrightarrow> acquire_sleeplock l = Ok (l\<lparr>sval := 0\<rparr>)"
  by (simp add: sleeplock_free_def acquire_sleeplock_def wait_sem_simps)

lemma release_sleeplock_held: "sleeplock_held l \<Longrightarrow> release_sleeplock l = Ok (l\<lparr>sval := 1\<rparr>)"
  by (simp add: sleeplock_held_def release_sleeplock_def post_sem_idle)

lemma sleeplock_taken: "sleeplock_free l \<Longrightarrow> sleeplock_held (l\<lparr>sval := 0\<rparr>)"
  "sleeplock_held l \<Longrightarrow> sleeplock_free (l\<lparr>sval := 1\<rparr>)"
  by (simp_all add: sleeplock_free_def sleeplock_held_def)

lemma lock_cache_free: "\<not> clock s \<Longrightarrow> lock_cache s = Ok (s\<lparr>clock := True\<rparr>)"
  by (simp add: lock_cache_def)

lemma acquire_hit:
  assumes "cache_ok s" and "n \<in> set (lru s)" and "\<not> acquired (blocks s n)"
  shows "\<exists>s'. cache_acquire n s = Ok s' \<and> cache_ok s' \<and> abs_cache s' = a_acquire n (abs_cache s)"
proof -
  let ?b = "(blocks s n)\<lparr>acquired := True, block_lock := (block_lock (blocks s n))\<lparr>sval := 0\<rparr>\<rparr>"
  let ?s = "s\<lparr>blocks := (blocks s)(n := ?b), lru := n # remove1 n (lru s)\<rparr>"
  have ok: "block_ok (store s) n (blocks s n)" and nc: "\<not> clock s" and d: "distinct (lru s)"
    using assms by (auto simp: cache_ok_def)
  then have fr: "sleeplock_free (block_lock (blocks s n))" using assms(3) by (simp add: block_ok_def)
  have "cache_acquire n s = Ok ?s"
    using nc assms(2) acquire_sleeplock_free [OF fr]
    by (cases s) (simp add: cache_acquire_def lock_cache_def unlock_cache_def Let_def upd_block_def
        insert_to_head_def remove_node_def)
  moreover have "cache_ok ?s"
  proof -
    have "block_ok (store s) n ?b" using ok assms(3) sleeplock_taken(1) [OF fr] by (simp add: block_ok_def)
    then show ?thesis using assms(1,2) d length_pos_if_in_set [OF assms(2)]
      by (auto simp: cache_ok_def length_remove1)
  qed
  moreover have "abs_cache ?s = a_acquire n (abs_cache s)"
    using assms(2) d by (auto simp: abs_cache_def a_acquire_def fun_eq_iff)
  ultimately show ?thesis by blast
qed

lemma acquire_miss:
  assumes ok: "cache_ok s" and n: "n \<notin> set (lru s)" "n \<noteq> log_start (sblock s)"
  shows "\<exists>s'. cache_acquire n s = Ok s' \<and> cache_ok s' \<and> abs_cache s' = a_acquire n (abs_cache s)"
proof -
  define s1 where "s1 = (if cached_block_count s \<ge> EVICTION_THRESHOLD then evict s else s)"
  have s1: "cache_ok s1" "abs_cache s1 = abs_cache s" "set (lru s1) \<subseteq> set (lru s)" "clock s1 = clock s"
    using evict_ok [OF ok] ok by (auto simp: s1_def)
  have nc: "\<not> clock s" using ok by (simp add: cache_ok_def)
  have n1: "n \<notin> set (lru s1)" "n \<noteq> log_start (sblock s1)"
    using n s1(3) arg_cong [OF s1(2), of asb] by auto
  let ?b = "\<lparr>acquired = True, pinned = False, block_lock = init_sleeplock\<lparr>sval := 0\<rparr>, valid = True,
     data = store s1 n\<rparr>"
  let ?s = "s1\<lparr>blocks := (blocks s1)(n := ?b), lru := n # lru s1, cached_block_count := cached_block_count s1 + 1\<rparr>"
  have ev: "(if cached_block_count s \<ge> EVICTION_THRESHOLD then evict (s\<lparr>clock := True\<rparr>) else s\<lparr>clock := True\<rparr>)
      = s1\<lparr>clock := True\<rparr>"
    by (simp add: s1_def evict_def remove_node_def split: option.split)
  have fr: "sleeplock_free init_sleeplock" by (rule sleeplock_facts)
  have cl: "?s\<lparr>clock := False\<rparr> = ?s" using s1(4) nc by (cases s1) simp
  have "cache_acquire n s = Ok (?s\<lparr>clock := False\<rparr>)"
    using nc n(1) acquire_sleeplock_free [OF fr]
    by (simp add: cache_acquire_def lock_cache_def ev)
      (simp add: unlock_cache_def Let_def upd_block_def
        insert_to_head_def init_block_def device_read_def fresh_block_def)
  then have "cache_acquire n s = Ok ?s" unfolding cl .
  moreover have "cache_ok ?s"
    using s1(1) n1 sleeplock_taken(1) [OF fr] by (auto simp: cache_ok_def block_ok_def)
  moreover have "abs_cache ?s = a_acquire n (abs_cache s1)"
    using n1(1) by (auto simp: abs_cache_def a_acquire_def fun_eq_iff)
  ultimately show ?thesis using s1(2) by auto
qed

lemma acquire_refines:
  assumes "cache_ok s" and "n \<notin> aheld (abs_cache s)" and "n \<noteq> log_start (sblock s)"
  shows "\<exists>s'. cache_acquire n s = Ok s' \<and> cache_ok s' \<and> abs_cache s' = a_acquire n (abs_cache s)"
proof (cases "n \<in> set (lru s)")
  case True
  with assms(2) have "\<not> acquired (blocks s n)" by (simp add: abs_cache_def)
  from acquire_hit [OF assms(1) True this] show ?thesis .
next
  case False
  from acquire_miss [OF assms(1) False assms(3)] show ?thesis .
qed

lemma acquire_held_blocks:
  assumes "cache_ok s" and "n \<in> aheld (abs_cache s)"
  shows "cache_acquire n s = Blocked"
proof -
  have "n \<in> set (lru s)" "acquired (blocks s n)" using held_cached [OF assms(2)] by auto
  moreover from this assms(1) have "sleeplock_held (block_lock (blocks s n))" "\<not> clock s"
    by (auto simp: cache_ok_def block_ok_def)
  ultimately show ?thesis using sleeplock_facts(4)
    by (simp add: cache_acquire_def lock_cache_def unlock_cache_def Let_def upd_block_def)
qed

lemma release_refines:
  assumes ok: "cache_ok s" and h: "n \<in> aheld (abs_cache s)"
    and c: "n \<in> apin (abs_cache s) \<or> aview (abs_cache s) n = store s n"
  shows "\<exists>s'. cache_release n s = Ok s' \<and> cache_ok s' \<and> abs_cache s' = a_release n (abs_cache s)"
proof -
  have n: "n \<in> set (lru s)" "acquired (blocks s n)" using held_cached [OF h] by auto
  have b: "block_ok (store s) n (blocks s n)" and nc: "\<not> clock s" using ok n by (auto simp: cache_ok_def)
  then have hl: "sleeplock_held (block_lock (blocks s n))" using n by (simp add: block_ok_def)
  have c': "pinned (blocks s n) \<or> data (blocks s n) = store s n"
    using c n by (auto simp: abs_cache_def)
  let ?b = "(blocks s n)\<lparr>acquired := False, block_lock := (block_lock (blocks s n))\<lparr>sval := 1\<rparr>\<rparr>"
  let ?s = "s\<lparr>blocks := (blocks s)(n := ?b)\<rparr>"
  have "cache_release n s = Ok ?s"
    using nc release_sleeplock_held [OF hl]
    by (cases s) (simp add: cache_release_def lock_cache_def unlock_cache_def Let_def upd_block_def)
  moreover have "block_ok (store s) n ?b"
    using b c' n sleeplock_taken(2) [OF hl] by (auto simp: block_ok_def)
  then have "cache_ok ?s" using ok by (simp add: cache_ok_def)
  moreover have "abs_cache ?s = a_release n (abs_cache s)"
    using n by (auto simp: abs_cache_def a_release_def fun_eq_iff)
  ultimately show ?thesis by blast
qed

lemma set_data_refines:
  assumes ok: "cache_ok s" and h: "n \<in> aheld (abs_cache s)" and l: "length bs = BLOCK_SIZE"
  shows "cache_ok (set_block_data n bs s) \<and> abs_cache (set_block_data n bs s) = a_set n bs (abs_cache s)"
  using held_cached [OF h] ok l
  by (auto simp: set_block_data_def upd_block_def cache_ok_def block_ok_def abs_cache_def a_set_def fun_eq_iff)

lemma flush_refines:
  assumes ok: "cache_ok s" and h: "n \<in> aheld (abs_cache s)"
  shows "\<exists>s'. cache_sync None n s = Ok (None, s') \<and> cache_ok s' \<and> abs_cache s' = a_flush n (abs_cache s)"
  using held_cached [OF h] ok
  by (auto simp: cache_sync_def device_write_def dev_write_def cache_ok_def block_ok_def abs_cache_def
      a_flush_def fun_eq_iff)

lemma unpin_refines:
  assumes ok: "cache_ok s" and h: "n \<in> aheld (abs_cache s)"
  shows "cache_ok (upd_block n (\<lambda>b. b\<lparr>pinned := False\<rparr>) s) \<and>
    abs_cache (upd_block n (\<lambda>b. b\<lparr>pinned := False\<rparr>) s) = a_unpin n (abs_cache s)"
  using held_cached [OF h] ok
  by (auto simp: upd_block_def cache_ok_def block_ok_def abs_cache_def a_unpin_def fun_eq_iff)

lemma write_header_refines:
  assumes ok: "cache_ok s" and l: "length (hblocks (header s)) = LOG_MAX_SIZE"
  shows "cache_ok (write_header s) \<and> abs_cache (write_header s) = a_header (abs_cache s)"
proof -
  have "log_start (sblock s) \<notin> set (lru s)" using ok by (simp add: cache_ok_def)
  with ok length_encode_header [OF l] show ?thesis
    by (auto simp: write_header_def dev_write_def cache_ok_def block_ok_def abs_cache_def a_header_def
        a_flush_def a_set_def fun_eq_iff)
qed

text \<open>\<^verbatim>\<open>cache_sync\<close> inside an operation: pin the block, and log it unless it is logged already.\<close>

lemma sync_refines:
  assumes ok: "cache_ok s" and h: "n \<in> aheld (abs_cache s)" and nl: "\<not> loglock s"
  shows "n \<in> set (logged (header s)) \<Longrightarrow> \<exists>s'. cache_sync (Some c) n s = Ok (Some c, s') \<and> cache_ok s' \<and>
      abs_cache s' = a_pin n (abs_cache s)"
    and "n \<notin> set (logged (header s)) \<Longrightarrow> 0 < rm c \<Longrightarrow> hnum (header s) < LOG_MAX_SIZE \<Longrightarrow>
      \<exists>s'. cache_sync (Some c) n s = Ok (Some (c\<lparr>rm := rm c - 1\<rparr>), s') \<and> cache_ok s' \<and>
        abs_cache s' = a_log n (a_pin n (abs_cache s))"
    and "n \<notin> set (logged (header s)) \<Longrightarrow> rm c = 0 \<or> LOG_MAX_SIZE \<le> hnum (header s) \<Longrightarrow>
      cache_sync (Some c) n s = Panic"
proof -
  let ?s = "s\<lparr>blocks := (blocks s)(n := (blocks s n)\<lparr>pinned := True\<rparr>)\<rparr>"
  have n: "n \<in> set (lru s)" "acquired (blocks s n)" using held_cached [OF h] by auto
  have s': "cache_ok ?s" "abs_cache ?s = a_pin n (abs_cache s)"
    using ok n by (auto simp: cache_ok_def block_ok_def abs_cache_def a_pin_def fun_eq_iff)
  have ul: "?s\<lparr>loglock := False\<rparr> = ?s" using nl by (cases s) simp
  show "\<exists>s'. cache_sync (Some c) n s = Ok (Some c, s') \<and> cache_ok s' \<and>
      abs_cache s' = a_pin n (abs_cache s)" if "n \<in> set (logged (header s))"
  proof -
    have "cache_sync (Some c) n s = Ok (Some c, ?s\<lparr>loglock := False\<rparr>)"
      using that nl by (simp add: cache_sync_def lock_log_def unlock_log_def upd_block_def Let_def)
    then show ?thesis unfolding ul using s' by blast
  qed
  show "\<exists>s'. cache_sync (Some c) n s = Ok (Some (c\<lparr>rm := rm c - 1\<rparr>), s') \<and> cache_ok s' \<and>
        abs_cache s' = a_log n (a_pin n (abs_cache s))"
    if "n \<notin> set (logged (header s))" "0 < rm c" "hnum (header s) < LOG_MAX_SIZE"
  proof -
    let ?t = "?s\<lparr>header := (header s)\<lparr>hblocks := (hblocks (header s))[hnum (header s) := n], hnum := hnum (header s) + 1\<rparr>\<rparr>"
    have "?t\<lparr>loglock := False\<rparr> = ?t" using nl by (cases s) simp
    moreover have "cache_sync (Some c) n s = Ok (Some (c\<lparr>rm := rm c - 1\<rparr>), ?t\<lparr>loglock := False\<rparr>)"
      using that nl by (simp add: cache_sync_def lock_log_def unlock_log_def upd_block_def Let_def)
    ultimately have "cache_sync (Some c) n s = Ok (Some (c\<lparr>rm := rm c - 1\<rparr>), ?t)" by (simp only:)
    moreover have "cache_ok ?t" using s'(1) by (simp add: cache_ok_def)
    moreover have "abs_cache ?t = a_log n (abs_cache ?s)" by (simp add: abs_cache_def a_log_def fun_eq_iff)
    ultimately show ?thesis using s'(2) by auto
  qed
  show "cache_sync (Some c) n s = Panic"
    if "n \<notin> set (logged (header s))" "rm c = 0 \<or> LOG_MAX_SIZE \<le> hnum (header s)"
    using that nl by (auto simp: cache_sync_def lock_log_def unlock_log_def upd_block_def Let_def)
qed

end
