(* ===== verification/CacheLog.thy ===== *)
theory CacheLog
  imports CacheSpec
begin

text \<open>
  The log: committing an operation, installing it, and recovering after a crash.  The
  writes of \<^verbatim>\<open>cache_end_op\<close> are computed exactly; a crash leaves the device with a prefix of
  them, and recovery turns every prefix into either none or all of the operation.
\<close>

section \<open>Sequences of device writes\<close>

definition replay :: "(nat \<times> u8 list) list \<Rightarrow> (nat \<Rightarrow> u8 list) \<Rightarrow> nat \<Rightarrow> u8 list" where
  "replay ws d = fold (\<lambda>(n, bs) d. d(n := bs)) ws d"

lemma replay_Nil [simp]: "replay [] d = d"
  by (simp add: replay_def)

lemma replay_append: "replay (xs @ ys) d = replay ys (replay xs d)"
  by (simp add: replay_def)

lemma replay_Cons [simp]: "replay ((n, bs) # ws) d = replay ws (d(n := bs))"
  by (simp add: replay_def)

lemma replay_agree:
  "\<forall>(m, bs)\<in>set ws. bs = f m \<Longrightarrow> replay ws d n = (if n \<in> fst ` set ws then f n else d n)"
proof (induction ws arbitrary: d)
  case (Cons w ws)
  obtain m bs where w: "w = (m, bs)" by fastforce
  have "replay (w # ws) d = replay ws (d(m := bs))" by (simp add: replay_def w)
  with Cons w show ?case by auto
qed simp

lemma replay_other: "n \<notin> fst ` set ws \<Longrightarrow> replay ws d n = d n"
proof (induction ws arbitrary: d)
  case (Cons w ws)
  obtain m bs where w: "w = (m, bs)" by fastforce
  have "replay (w # ws) d = replay ws (d(m := bs))" by (simp add: replay_def w)
  with Cons w show ?case by auto
qed simp

section \<open>The bodies of the loops over the log\<close>

definition log_area :: "super_block \<Rightarrow> nat set" where
  "log_area sb = {log_start sb .. log_start sb + LOG_MAX_SIZE}"

definition a_write_entry :: "nat \<Rightarrow> acache \<Rightarrow> acache" where
  "a_write_entry i a = (let x = log_start (asb a) + i + 1
     in a_flush x (a_set x (aview a (hblocks (ahdr a) ! i)) a))"

definition a_install :: "nat \<Rightarrow> acache \<Rightarrow> acache" where
  "a_install i a = (let b = hblocks (ahdr a) ! i in a_unpin b (a_flush b a))"

definition a_recover :: "nat \<Rightarrow> acache \<Rightarrow> acache" where
  "a_recover i a = (let b = hblocks (ahdr a) ! i
     in a_flush b (a_set b (aview a (log_start (asb a) + i + 1)) a))"

lemma copy_refines:
  assumes ok: "cache_ok s" and h: "aheld (abs_cache s) = {}" and ne: "x \<noteq> y"
    and ls: "x \<noteq> log_start (sblock s)" "y \<noteq> log_start (sblock s)"
    and xy: "(p, q) = (x, y) \<or> (p, q) = (y, x)"
  shows "\<exists>s'. andthen (cache_acquire p s) (\<lambda>s.
         andthen (cache_acquire q s) (\<lambda>s.
         let s = set_block_data x (block_data y s) s
         in andthen (cache_sync None x s) (\<lambda>(_, s).
            andthen (cache_release p s) (cache_release q)))) = Ok s' \<and> cache_ok s' \<and>
    abs_cache s' = a_flush x (a_set x (aview (abs_cache s) y) (abs_cache s))"
proof -
  let ?a = "abs_cache s"
  have pq: "p \<noteq> q" "p \<noteq> log_start (sblock s)" "q \<noteq> log_start (sblock s)"
    and xin: "x \<in> {p, q}" "y \<in> {p, q}" using ne ls xy by auto
  obtain s1 where 1: "cache_acquire p s = Ok s1" "cache_ok s1" "abs_cache s1 = a_acquire p ?a"
    using acquire_refines [OF ok] h pq by blast
  have "sblock s1 = sblock s" using arg_cong [OF 1(3), of asb] by (simp add: a_acquire_def)
  then have "q \<notin> aheld (abs_cache s1)" "q \<noteq> log_start (sblock s1)"
    using h pq by (simp_all add: 1(3) a_acquire_def)
  then obtain s2 where 2: "cache_acquire q s1 = Ok s2" "cache_ok s2" "abs_cache s2 = a_acquire q (a_acquire p ?a)"
    using acquire_refines [OF 1(2)] 1(3) by metis
  have held2: "aheld (abs_cache s2) = {p, q}" using h by (auto simp: 2(3) a_acquire_def)
  have y2: "block_data y s2 = aview ?a y"
  proof -
    have "y \<in> aheld (abs_cache s2)" using xin held2 by simp
    then have "block_data y s2 = aview (abs_cache s2) y" by (simp add: abs_view_held)
    then show ?thesis by (simp add: 2(3) a_acquire_def)
  qed
  let ?s3 = "set_block_data x (block_data y s2) s2"
  have "length (block_data y s2) = BLOCK_SIZE" using y2 view_length [OF ok] by simp
  with set_data_refines [OF 2(2)] xin held2 y2
  have 3: "cache_ok ?s3" "abs_cache ?s3 = a_set x (aview ?a y) (a_acquire q (a_acquire p ?a))"
    by (auto simp: 2(3))
  have "x \<in> aheld (abs_cache ?s3)" using 3(2) xin by (auto simp: a_set_def a_acquire_def)
  then obtain s4 where 4: "cache_sync None x ?s3 = Ok (None, s4)" "cache_ok s4"
    "abs_cache s4 = a_flush x (a_set x (aview ?a y) (a_acquire q (a_acquire p ?a)))"
    using flush_refines [OF 3(1)] 3(2) by auto
  have st4: "store s4 = (store s)(x := aview ?a y)"
    using arg_cong [OF 4(3), of adisk] by (simp add: a_flush_def a_set_def a_acquire_def)
  have clean: "n \<in> apin (abs_cache s4) \<or> aview (abs_cache s4) n = store s4 n" for n
    using view_clean [OF ok, of n] h st4 4(3) by (auto simp: a_flush_def a_set_def a_acquire_def)
  obtain s5 where 5: "cache_release p s4 = Ok s5" "cache_ok s5" "abs_cache s5 = a_release p (abs_cache s4)"
    using release_refines [OF 4(2) _ clean] 4(3) by (auto simp: a_flush_def a_set_def a_acquire_def)
  have st5: "store s5 = store s4" using arg_cong [OF 5(3), of adisk] by (simp add: a_release_def)
  have "q \<in> aheld (abs_cache s5)" using pq 5(3) 4(3)
    by (simp add: a_release_def a_flush_def a_set_def a_acquire_def)
  moreover have "q \<in> apin (abs_cache s5) \<or> aview (abs_cache s5) q = store s5 q"
    using clean [of q] 5(3) st5 by (simp add: a_release_def)
  ultimately obtain s6 where 6: "cache_release q s5 = Ok s6" "cache_ok s6"
    "abs_cache s6 = a_release q (abs_cache s5)"
    using release_refines [OF 5(2)] by blast
  have "abs_cache s6 = a_flush x (a_set x (aview ?a y) ?a)"
    using h pq by (simp add: 6(3) 5(3) 4(3) a_release_def a_flush_def a_set_def a_acquire_def)
      (cases ?a, auto)
  with 1(1) 2(1) 4(1) 5(1) 6(1,2) show ?thesis by (simp add: Let_def)
qed

text \<open>What the loops need: nobody holds a block, and the block of the entry is not in the log area.\<close>

definition entry_ok :: "nat \<Rightarrow> acache \<Rightarrow> bool" where
  "entry_ok i a \<longleftrightarrow> aheld a = {} \<and> i < LOG_MAX_SIZE \<and> hblocks (ahdr a) ! i \<notin> log_area (asb a)"

lemma write_entry_refines:
  assumes "cache_ok s" and "entry_ok i (abs_cache s)"
  shows "\<exists>s'. write_log_entry i s = Ok s' \<and> cache_ok s' \<and> abs_cache s' = a_write_entry i (abs_cache s)"
  using copy_refines [OF assms(1), of "log_block s i" "hblocks (header s) ! i" "log_block s i" "hblocks (header s) ! i"] assms(2)
  by (auto simp: entry_ok_def write_log_entry_def a_write_entry_def log_block_def log_area_def Let_def)

lemma recover_entry_refines:
  assumes "cache_ok s" and "entry_ok i (abs_cache s)"
  shows "\<exists>s'. recover_entry i s = Ok s' \<and> cache_ok s' \<and> abs_cache s' = a_recover i (abs_cache s)"
  using copy_refines [OF assms(1), of "hblocks (header s) ! i" "log_block s i" "log_block s i" "hblocks (header s) ! i"] assms(2)
  by (auto simp: entry_ok_def recover_entry_def a_recover_def log_block_def log_area_def Let_def)

lemma install_entry_refines:
  assumes ok: "cache_ok s" and e: "entry_ok i (abs_cache s)"
  shows "\<exists>s'. install_entry i s = Ok s' \<and> cache_ok s' \<and> abs_cache s' = a_install i (abs_cache s)"
proof -
  let ?a = "abs_cache s" and ?b = "hblocks (header s) ! i"
  have h: "aheld ?a = {}" and b: "?b \<noteq> log_start (sblock s)" using e by (auto simp: entry_ok_def log_area_def)
  obtain s1 where 1: "cache_acquire ?b s = Ok s1" "cache_ok s1" "abs_cache s1 = a_acquire ?b ?a"
    using acquire_refines [OF ok] h b by blast
  then obtain s2 where 2: "cache_sync None ?b s1 = Ok (None, s2)" "cache_ok s2"
    "abs_cache s2 = a_flush ?b (a_acquire ?b ?a)"
    using flush_refines [OF 1(2), of ?b] by (auto simp: a_acquire_def)
  let ?s3 = "upd_block ?b (\<lambda>x. x\<lparr>pinned := False\<rparr>) s2"
  have 3: "cache_ok ?s3" "abs_cache ?s3 = a_unpin ?b (a_flush ?b (a_acquire ?b ?a))"
    using unpin_refines [OF 2(2), of ?b] by (auto simp: 2(3) a_acquire_def a_flush_def)
  have "adisk (abs_cache ?s3) ?b = aview (abs_cache ?s3) ?b"
    unfolding 3(2) by (simp add: a_unpin_def a_flush_def)
  then have "store ?s3 ?b = aview (abs_cache ?s3) ?b" by simp
  then obtain s4 where 4: "cache_release ?b ?s3 = Ok s4" "cache_ok s4"
    "abs_cache s4 = a_release ?b (abs_cache ?s3)"
    using release_refines [OF 3(1), of ?b] 3(2) by (auto simp: a_acquire_def a_flush_def a_unpin_def)
  have "abs_cache s4 = a_install i ?a"
    using h by (simp add: 4(3) 3(2) a_install_def a_defs Let_def)
  with 1(1) 2(1) 4(1,2) show ?thesis by (simp add: install_entry_def Let_def)
qed

section \<open>The loops\<close>

definition entries_ok :: "acache \<Rightarrow> bool" where
  "entries_ok a \<longleftrightarrow> aheld a = {} \<and> hnum (ahdr a) \<le> LOG_MAX_SIZE \<and>
     (\<forall>i<hnum (ahdr a). hblocks (ahdr a) ! i \<notin> log_area (asb a))"

lemma prefix_upt: "prefix (js @ [i]) [0..<k] \<Longrightarrow> js = [0..<i] \<and> i < k"
proof -
  assume p: "prefix (js @ [i]) [0..<k]"
  then have t: "js @ [i] = take (Suc (length js)) [0..<k]"
    by (metis append_eq_conv_conj length_append_singleton prefix_def)
  have l: "Suc (length js) \<le> k" using prefix_length_le [OF p] by simp
  then have "js @ [i] = [0..<Suc (length js)]" using t by (simp add: take_upt del: upt_Suc)
  then have "js = [0..<length js]" "i = length js" by simp_all
  then show ?thesis using l by simp
qed

lemma loop_refines:
  assumes f: "\<And>i s. cache_ok s \<Longrightarrow> entry_ok i (abs_cache s) \<Longrightarrow>
      \<exists>s'. f i s = Ok s' \<and> cache_ok s' \<and> abs_cache s' = g i (abs_cache s)"
    and keep: "\<And>i a. aheld (g i a) = aheld a \<and> ahdr (g i a) = ahdr a \<and> asb (g i a) = asb a"
    and ok: "cache_ok s" and e: "entries_ok (abs_cache s)"
  shows "\<exists>s'. for_each f [0..<hnum (header s)] s = Ok s' \<and> cache_ok s' \<and>
    abs_cache s' = fold g [0..<hnum (header s)] (abs_cache s)"
proof (rule for_each_refines [where I = cache_ok and P = entry_ok])
  show "cache_ok s" by (rule ok)
  show "\<And>i s. cache_ok s \<Longrightarrow> entry_ok i (abs_cache s) \<Longrightarrow>
      \<exists>s'. f i s = Ok s' \<and> cache_ok s' \<and> abs_cache s' = g i (abs_cache s)" by (rule f)
  have k: "aheld (fold g js a) = aheld a \<and> ahdr (fold g js a) = ahdr a \<and> asb (fold g js a) = asb a" for js a
    by (induction js arbitrary: a) (simp_all add: keep)
  fix i js assume "prefix (js @ [i]) [0..<hnum (header s)]"
  then have "i < hnum (header s)" by (simp add: prefix_upt)
  then show "entry_ok i (fold g js (abs_cache s))" using e k by (auto simp: entry_ok_def entries_ok_def)
qed

lemma write_loop_refines:
  "cache_ok s \<Longrightarrow> entries_ok (abs_cache s) \<Longrightarrow> \<exists>s'. for_each write_log_entry [0..<hnum (header s)] s = Ok s' \<and>
    cache_ok s' \<and> abs_cache s' = fold a_write_entry [0..<hnum (header s)] (abs_cache s)"
  by (rule loop_refines [where f = write_log_entry and g = a_write_entry], erule (1) write_entry_refines) (auto simp: a_write_entry_def a_flush_def a_set_def Let_def)

lemma install_loop_refines:
  "cache_ok s \<Longrightarrow> entries_ok (abs_cache s) \<Longrightarrow> \<exists>s'. for_each install_entry [0..<hnum (header s)] s = Ok s' \<and>
    cache_ok s' \<and> abs_cache s' = fold a_install [0..<hnum (header s)] (abs_cache s)"
  by (rule loop_refines [where f = install_entry and g = a_install], erule (1) install_entry_refines) (auto simp: a_install_def a_flush_def a_unpin_def Let_def)

lemma recover_loop_refines:
  "cache_ok s \<Longrightarrow> entries_ok (abs_cache s) \<Longrightarrow> \<exists>s'. for_each recover_entry [0..<hnum (header s)] s = Ok s' \<and>
    cache_ok s' \<and> abs_cache s' = fold a_recover [0..<hnum (header s)] (abs_cache s)"
  by (rule loop_refines [where f = recover_entry and g = a_recover], erule (1) recover_entry_refines) (auto simp: a_recover_def a_flush_def a_set_def Let_def)

lemma fold_write_entry:
  assumes "k \<le> LOG_MAX_SIZE" and "\<forall>i<k. hblocks (ahdr a) ! i \<notin> log_area (asb a)"
  shows "fold a_write_entry [0..<k] a =
    (let ws = map (\<lambda>i. (log_start (asb a) + i + 1, aview a (hblocks (ahdr a) ! i))) [0..<k]
     in a\<lparr>aview := replay ws (aview a), adisk := replay ws (adisk a), atrace := atrace a @ ws\<rparr>)"
  using assms
proof (induction k)
  case (Suc k)
  let ?ws = "map (\<lambda>i. (log_start (asb a) + i + 1, aview a (hblocks (ahdr a) ! i))) [0..<k]"
  have "hblocks (ahdr a) ! k \<notin> fst ` set ?ws" using Suc.prems by (auto simp: log_area_def)
  then have "replay ?ws (aview a) (hblocks (ahdr a) ! k) = aview a (hblocks (ahdr a) ! k)"
    by (rule replay_other)
  with Suc show ?case
    by (simp add: Let_def a_write_entry_def a_flush_def a_set_def replay_append)
qed (simp add: Let_def)

lemma fold_install:
  "fold a_install [0..<k] a =
    (let ws = map (\<lambda>i. (hblocks (ahdr a) ! i, aview a (hblocks (ahdr a) ! i))) [0..<k]
     in a\<lparr>adisk := replay ws (adisk a), atrace := atrace a @ ws, apin := apin a - fst ` set ws\<rparr>)"
proof (induction k)
  case (Suc k)
  then show ?case
    by (simp add: Let_def a_install_def a_flush_def a_unpin_def replay_append Diff_insert [symmetric])
qed (simp add: Let_def)

lemma fold_recover:
  assumes "k \<le> LOG_MAX_SIZE" and "\<forall>i<k. hblocks (ahdr a) ! i \<notin> log_area (asb a)"
  shows "fold a_recover [0..<k] a =
    (let ws = map (\<lambda>i. (hblocks (ahdr a) ! i, aview a (log_start (asb a) + i + 1))) [0..<k]
     in a\<lparr>aview := replay ws (aview a), adisk := replay ws (adisk a), atrace := atrace a @ ws\<rparr>)"
  using assms
proof (induction k)
  case (Suc k)
  let ?ws = "map (\<lambda>i. (hblocks (ahdr a) ! i, aview a (log_start (asb a) + i + 1))) [0..<k]"
  have "log_start (asb a) + k + 1 \<in> log_area (asb a)" using Suc.prems(1) by (simp add: log_area_def)
  then have "log_start (asb a) + k + 1 \<notin> fst ` set ?ws" using Suc.prems(2) by (auto dest: less_SucI)
  then have "replay ?ws (aview a) (log_start (asb a) + k + 1) = aview a (log_start (asb a) + k + 1)"
    by (rule replay_other)
  with Suc show ?case
    by (simp add: Let_def a_recover_def a_flush_def a_set_def replay_append)
qed (simp add: Let_def)

section \<open>Fields that the cache does not look at\<close>

lemma cache_ok_upd [simp]:
  "cache_ok (s\<lparr>header := h\<rparr>) = cache_ok s" "cache_ok (s\<lparr>outstanding := k\<rparr>) = cache_ok s"
  "cache_ok (s\<lparr>committing := b\<rparr>) = cache_ok s" "cache_ok (s\<lparr>log_sem := m\<rparr>) = cache_ok s"
  "cache_ok (s\<lparr>loglock := l\<rparr>) = cache_ok s" "cache_ok (s\<lparr>bitlock := l\<rparr>) = cache_ok s"
  by (simp_all add: cache_ok_def)

lemma abs_cache_upd [simp]:
  "abs_cache (s\<lparr>header := h\<rparr>) = (abs_cache s)\<lparr>ahdr := h\<rparr>"
  "abs_cache (s\<lparr>outstanding := k\<rparr>) = (abs_cache s)\<lparr>aout := k\<rparr>"
  "abs_cache (s\<lparr>committing := b\<rparr>) = (abs_cache s)\<lparr>acommit := b\<rparr>"
  "abs_cache (s\<lparr>log_sem := m\<rparr>) = (abs_cache s)\<lparr>asem := m\<rparr>"
  "abs_cache (s\<lparr>loglock := l\<rparr>) = (abs_cache s)\<lparr>alog := l\<rparr>"
  "abs_cache (s\<lparr>bitlock := l\<rparr>) = (abs_cache s)\<lparr>abit := l\<rparr>"
  by (simp_all add: abs_cache_def fun_eq_iff)

lemma length_clear_block_nos [simp]: "length (clear_block_nos bs) = LOG_MAX_SIZE"
  by (simp add: clear_block_nos_def Let_def)

lemma clear_block_nos_bound: "b \<in> set (clear_block_nos bs) \<Longrightarrow> b < 2 ^ 64"
proof -
  assume "b \<in> set (clear_block_nos bs)"
  then obtain i bytes where b: "b = le_value (chunk 8 i bytes)"
    by (auto simp: clear_block_nos_def Let_def)
  define xs where "xs = chunk 8 i bytes"
  have l: "length xs \<le> 8" by (simp add: xs_def chunk_def)
  have "le_value xs < 256 ^ length xs" by (rule le_value_bound)
  also have "\<dots> \<le> 256 ^ 8" using l by (rule power_increasing) simp
  finally show ?thesis by (simp add: b xs_def)
qed

lemma clear_header_facts [simp]: "hnum (clear_header h) = 0" "length (hblocks (clear_header h)) = LOG_MAX_SIZE"
  by (simp_all add: clear_header_def)

lemma header_ok_clear: "header_ok (clear_header h)"
  using clear_block_nos_bound by (auto simp: header_ok_def clear_header_def)

section \<open>Ending the last running operation\<close>

text \<open>
  The state between file system calls and inside them: the pinned blocks are the logged ones,
  the header in memory is well formed, and the header on the device is empty.
\<close>

definition log_ok :: "cache_sys \<Rightarrow> bool" where
  "log_ok s \<longleftrightarrow> cache_ok s \<and> hnum (header s) \<le> LOG_MAX_SIZE \<and> header_ok (header s) \<and>
     distinct (logged (header s)) \<and> set (logged (header s)) \<inter> log_area (sblock s) = {} \<and>
     apin (abs_cache s) = set (logged (header s)) \<and>
     hnum (decode_header (store s (log_start (sblock s)))) = 0 \<and>
     \<not> loglock s \<and> \<not> committing s \<and> sem_ok (log_sem s)"

definition commit_writes :: "cache_sys \<Rightarrow> (nat \<times> u8 list) list" where
  "commit_writes s =
    (let ls = log_start (sblock s); h = header s; v = aview (abs_cache s)
     in map (\<lambda>i. (ls + i + 1, v (hblocks h ! i))) [0..<hnum h] @ [(ls, encode_header h)] @
        map (\<lambda>i. (hblocks h ! i, v (hblocks h ! i))) [0..<hnum h] @ [(ls, encode_header (clear_header h))])"

lemma logged_nth: "length (hblocks h) = LOG_MAX_SIZE \<Longrightarrow> hnum h \<le> LOG_MAX_SIZE \<Longrightarrow>
  set (logged h) = {hblocks h ! i | i. i < hnum h}"
  by (auto simp: logged_def nth_image [symmetric])

lemma log_ok_entries:
  assumes "log_ok s" and "aheld (abs_cache s) = {}"
  shows "entries_ok (abs_cache s)"
  using assms by (auto simp: log_ok_def entries_ok_def logged_nth header_ok_def)

lemma fst_set_map: "fst ` set (map (\<lambda>i. (f i, g i)) js) = f ` set js"
  by (simp add: image_image)

lemma end_op_commits:
  assumes ok: "log_ok s" and h: "aheld (abs_cache s) = {}" and o1: "outstanding s = 1"
  shows "\<exists>s'. cache_end_op s = Ok s' \<and> cache_ok s' \<and>
    wlog s' = wlog s @ commit_writes s \<and> store s' = replay (commit_writes s) (store s) \<and>
    aheld (abs_cache s') = {} \<and> apin (abs_cache s') = {} \<and> sblock s' = sblock s \<and>
    header s' = clear_header (header s) \<and> outstanding s' = 0 \<and> \<not> loglock s' \<and> \<not> committing s' \<and>
    bitlock s' = bitlock s \<and> sem_ok (log_sem s') \<and>
    (\<forall>n. n \<notin> log_area (sblock s) \<longrightarrow> aview (abs_cache s') n = aview (abs_cache s) n)"
proof -
  let ?ls = "log_start (sblock s)" and ?h = "header s" and ?v = "aview (abs_cache s)"
  let ?k = "hnum ?h"
  have cok: "cache_ok s" and nl: "\<not> loglock s" and nc: "\<not> committing s" and sem: "sem_ok (log_sem s)"
    and hl: "length (hblocks ?h) = LOG_MAX_SIZE" and hk: "?k \<le> LOG_MAX_SIZE"
    using ok by (auto simp: log_ok_def header_ok_def)
  have e: "entries_ok (abs_cache s)" by (rule log_ok_entries [OF ok h])
  then have out: "\<forall>i<?k. hblocks ?h ! i \<notin> log_area (sblock s)" by (simp add: entries_ok_def)
  let ?s0 = "s\<lparr>outstanding := 0, committing := True, loglock := False\<rparr>"
  let ?w1 = "map (\<lambda>i. (?ls + i + 1, ?v (hblocks ?h ! i))) [0..<?k]"
  let ?w2 = "map (\<lambda>i. (hblocks ?h ! i, ?v (hblocks ?h ! i))) [0..<?k]"
  have "entries_ok (abs_cache ?s0)" using e by (simp add: entries_ok_def)
  from write_loop_refines [OF _ this] cok obtain s1 where
    1: "for_each write_log_entry [0..<?k] ?s0 = Ok s1" "cache_ok s1"
      "abs_cache s1 = fold a_write_entry [0..<?k] (abs_cache ?s0)"
    by auto
  have a1: "abs_cache s1 = (abs_cache ?s0)\<lparr>aview := replay ?w1 ?v, adisk := replay ?w1 (store s),
      atrace := wlog s @ ?w1\<rparr>"
    using fold_write_entry [of ?k "abs_cache ?s0"] hk out by (simp add: 1(3) Let_def)
  have s1: "header s1 = ?h" "sblock s1 = sblock s" "loglock s1 = False"
    using arg_cong [OF a1, of ahdr] arg_cong [OF a1, of asb] arg_cong [OF a1, of alog] by simp_all
  have 2: "cache_ok (write_header s1)" "abs_cache (write_header s1) = a_header (abs_cache s1)"
    using write_header_refines [OF 1(2)] hl s1 by auto
  have s2: "header (write_header s1) = ?h" "sblock (write_header s1) = sblock s"
    "loglock (write_header s1) = False"
    using s1 by (simp_all add: write_header_def dev_write_def)
  let ?s2 = "(write_header s1)\<lparr>loglock := True\<rparr>"
  have "entries_ok (abs_cache ?s2)" using e by (simp add: entries_ok_def 2(2) a1 a_header_def a_flush_def a_set_def)
  from install_loop_refines [OF _ this] 2(1) s2 obtain s3 where
    3: "for_each install_entry [0..<?k] ?s2 = Ok s3" "cache_ok s3"
      "abs_cache s3 = fold a_install [0..<?k] (abs_cache ?s2)"
    by auto
  have vh: "aview (abs_cache ?s2) (hblocks ?h ! i) = ?v (hblocks ?h ! i)" if "i < ?k" for i
  proof -
    have "hblocks ?h ! i \<notin> log_area (sblock s)" using out that by blast
    then have "hblocks ?h ! i \<noteq> ?ls" "hblocks ?h ! i \<notin> fst ` set ?w1" using hk by (auto simp: log_area_def)
    then show ?thesis by (simp add: 2(2) a1 a_header_def a_flush_def a_set_def replay_other del: set_map)
  qed
  have w2: "map (\<lambda>i. (hblocks ?h ! i, aview (abs_cache ?s2) (hblocks ?h ! i))) [0..<?k] = ?w2"
    using vh by simp
  have s2f: "ahdr (abs_cache ?s2) = ?h" "adisk (abs_cache ?s2) = (replay ?w1 (store s))(?ls := encode_header ?h)"
    "atrace (abs_cache ?s2) = wlog s @ ?w1 @ [(?ls, encode_header ?h)]"
    "apin (abs_cache ?s2) = set (logged ?h)"
    "aview (abs_cache ?s2) = (replay ?w1 ?v)(?ls := encode_header ?h)"
    "asb (abs_cache ?s2) = sblock s"
    using ok by (simp_all add: 2(2) a1 a_header_def a_flush_def a_set_def log_ok_def)
  have a3: "abs_cache s3 = (abs_cache ?s2)\<lparr>adisk := replay ?w2 (adisk (abs_cache ?s2)),
      atrace := atrace (abs_cache ?s2) @ ?w2, apin := apin (abs_cache ?s2) - fst ` set ?w2\<rparr>"
    using fold_install [of ?k "abs_cache ?s2"] w2 by (simp only: 3(3) s2f(1) Let_def)
  have s3: "header s3 = ?h" "sblock s3 = sblock s" "log_sem s3 = log_sem s" "bitlock s3 = bitlock s" "outstanding s3 = 0"
    using arg_cong [OF a3, of ahdr] arg_cong [OF a3, of asb] arg_cong [OF a3, of asem]
      arg_cong [OF a3, of abit] arg_cong [OF a3, of aout]
    by (simp_all add: 2(2) a1 a_header_def a_flush_def a_set_def)
  let ?s4 = "s3\<lparr>header := clear_header ?h\<rparr>"
  have 4: "cache_ok (write_header ?s4)" "abs_cache (write_header ?s4) = a_header (abs_cache ?s4)"
    using write_header_refines [of ?s4] 3(2) by auto
  have s4: "log_sem (write_header ?s4) = log_sem s" using s3 by (simp add: write_header_def dev_write_def)
  obtain r where r: "post_all_sem (log_sem s) = Ok (r, rev (sleeplist (log_sem s)),
      (log_sem s)\<lparr>sval := max 0 (sval (log_sem s)), sleeplist := []\<rparr>)"
    using post_all_sem_sleepers [OF sem] by blast
  let ?s' = "(write_header ?s4)\<lparr>committing := False,
    log_sem := (log_sem s)\<lparr>sval := max 0 (sval (log_sem s)), sleeplist := []\<rparr>, loglock := False\<rparr>"
  have run: "cache_end_op s = Ok ?s'"
    using 1(1) 3(1) nl nc o1 s1 s2 s3 s4 r
    by (simp add: cache_end_op_def lock_log_def unlock_log_def Let_def del: andthen_eq_Ok)
  have a': "abs_cache ?s' = (a_header (abs_cache ?s4))\<lparr>acommit := False,
    asem := (log_sem s)\<lparr>sval := max 0 (sval (log_sem s)), sleeplist := []\<rparr>, alog := False\<rparr>"
    by (simp add: 4(2))
  have a4: "abs_cache ?s4 = (abs_cache s3)\<lparr>ahdr := clear_header ?h\<rparr>" by simp
  have "atrace (abs_cache ?s') = wlog s @ commit_writes s"
    "adisk (abs_cache ?s') = replay (commit_writes s) (store s)"
    unfolding a' a4 a3 a_header_def a_flush_def a_set_def commit_writes_def Let_def
    by (simp_all add: s2f replay_append del: abs_cache_simps abs_cache_upd)
  then have fields: "wlog ?s' = wlog s @ commit_writes s" "store ?s' = replay (commit_writes s) (store s)"
    by (simp_all only: abs_cache_simps)
  have "apin (abs_cache ?s') = set (logged ?h) - fst ` set ?w2"
    unfolding a' a4 a3 a_header_def a_flush_def a_set_def
    by (simp add: s2f del: abs_cache_simps abs_cache_upd set_map)
  moreover have "set (logged ?h) \<subseteq> fst ` set ?w2"
    using logged_nth [OF hl hk] by (auto simp: image_image)
  ultimately have pins: "apin (abs_cache ?s') = {}" by (simp only: Diff_eq_empty_iff)
  have "aheld (abs_cache ?s') = {}"
  proof -
    have "aheld (abs_cache ?s2) = {}" using h by (simp add: 2(2) a1 a_header_def a_flush_def a_set_def)
    then show ?thesis
      unfolding a' a4 a3 a_header_def a_flush_def a_set_def by (simp del: abs_cache_simps abs_cache_upd)
  qed
  moreover have "aview (abs_cache ?s') n = ?v n" if "n \<notin> log_area (sblock s)" for n
  proof -
    have "n \<noteq> ?ls" "n \<notin> fst ` set ?w1" using that hk by (auto simp: log_area_def)
    then show ?thesis
      unfolding a' a4 a3 a_header_def a_flush_def a_set_def
      by (simp add: s2f replay_other del: abs_cache_simps abs_cache_upd set_map)
  qed
  moreover have "sem_ok ((log_sem s)\<lparr>sval := max 0 (sval (log_sem s)), sleeplist := []\<rparr>)"
    by (simp add: sem_ok_def)
  ultimately show ?thesis
    using run pins 4(1) fields s3
    by (intro exI [of _ ?s']) (simp add: write_header_def dev_write_def)
qed

lemma log_ok_end_op:
  assumes "log_ok s" and "aheld (abs_cache s) = {}" and "outstanding s = 1"
  shows "\<exists>s'. cache_end_op s = Ok s' \<and> log_ok s' \<and> aheld (abs_cache s') = {} \<and>
    outstanding s' = 0 \<and> hnum (header s') = 0 \<and> sblock s' = sblock s"
proof -
  obtain s' where s': "cache_end_op s = Ok s'" "cache_ok s'" "store s' = replay (commit_writes s) (store s)"
    "aheld (abs_cache s') = {}" "apin (abs_cache s') = {}" "sblock s' = sblock s"
    "header s' = clear_header (header s)" "outstanding s' = 0" "\<not> loglock s'" "\<not> committing s'" "sem_ok (log_sem s')"
    using end_op_commits [OF assms] by blast
  have "store s' (log_start (sblock s)) = encode_header (clear_header (header s))"
    by (simp add: s'(3) commit_writes_def Let_def replay_append)
  then have "hnum (decode_header (store s' (log_start (sblock s)))) = 0"
    by (simp add: decode_encode_header header_ok_clear)
  moreover have "logged (clear_header (header s)) = []" by (simp add: logged_def)
  ultimately have "log_ok s'" using s' header_ok_clear by (simp add: log_ok_def)
  with s' show ?thesis by simp
qed

section \<open>Recovery\<close>

definition recovery_writes :: "super_block \<Rightarrow> (nat \<Rightarrow> u8 list) \<Rightarrow> (nat \<times> u8 list) list" where
  "recovery_writes sb d =
    (let ls = log_start sb; h = decode_header (d ls)
     in map (\<lambda>i. (hblocks h ! i, d (ls + i + 1))) [0..<hnum h] @ [(ls, encode_header (clear_header h))])"

definition recoverable :: "super_block \<Rightarrow> (nat \<Rightarrow> u8 list) \<Rightarrow> bool" where
  "recoverable sb d \<longleftrightarrow> (\<forall>n. length (d n) = BLOCK_SIZE) \<and>
    (let h = decode_header (d (log_start sb))
     in hnum h \<le> LOG_MAX_SIZE \<and> (\<forall>i<hnum h. hblocks h ! i \<notin> log_area sb))"

definition recovered :: "super_block \<Rightarrow> (nat \<Rightarrow> u8 list) \<Rightarrow> nat \<Rightarrow> u8 list" where
  "recovered sb d = replay (recovery_writes sb d) d"

lemma length_decode_header [simp]: "length (hblocks (decode_header bs)) = LOG_MAX_SIZE"
  by (simp add: decode_header_def)

text \<open>\<^verbatim>\<open>init_bcache\<close> performs the recovery, whatever was in memory before, and leaves an empty log.\<close>

lemma init_bcache_recovers:
  assumes rec: "recoverable sb (store s)"
  shows "\<exists>s'. init_bcache sb s = Ok s' \<and> log_ok s' \<and> aheld (abs_cache s') = {} \<and> outstanding s' = 0 \<and>
    hnum (header s') = 0 \<and> sblock s' = sb \<and> \<not> bitlock s' \<and>
    wlog s' = wlog s @ recovery_writes sb (store s) \<and> store s' = recovered sb (store s) \<and>
    aview (abs_cache s') = store s'"
proof -
  let ?ls = "log_start sb" and ?h = "decode_header (store s (log_start sb))"
  let ?k = "hnum ?h"
  let ?s0 = "s\<lparr>sblock := sb, clock := False, bitlock := False, lru := [], cached_block_count := 0,
    loglock := False, outstanding := 0, committing := False, log_sem := init_sem 0, header := ?h\<rparr>"
  have len: "\<forall>n. length (store s n) = BLOCK_SIZE" and hk: "?k \<le> LOG_MAX_SIZE"
    and out: "\<forall>i<?k. hblocks ?h ! i \<notin> log_area sb"
    using rec by (auto simp: recoverable_def Let_def)
  have c0: "cache_ok ?s0" using len by (simp add: cache_ok_def)
  have a0: "aheld (abs_cache ?s0) = {}" "apin (abs_cache ?s0) = {}" "aview (abs_cache ?s0) = store s"
    by (simp_all add: abs_cache_def fun_eq_iff)
  have "entries_ok (abs_cache ?s0)" using hk out a0(1) by (simp only: entries_ok_def abs_cache_simps) simp
  from recover_loop_refines [OF c0 this] obtain s1 where
    1: "for_each recover_entry [0..<?k] ?s0 = Ok s1" "cache_ok s1"
      "abs_cache s1 = fold a_recover [0..<?k] (abs_cache ?s0)" by auto
  let ?w = "map (\<lambda>i. (hblocks ?h ! i, store s (?ls + i + 1))) [0..<?k]"
  have f0: "ahdr (abs_cache ?s0) = ?h" "asb (abs_cache ?s0) = sb" by simp_all
  have d0: "adisk (abs_cache ?s0) = store s" "atrace (abs_cache ?s0) = wlog s" by simp_all
  have out0: "\<forall>i<?k. hblocks (ahdr (abs_cache ?s0)) ! i \<notin> log_area (asb (abs_cache ?s0))"
    using out unfolding f0 .
  have a1: "abs_cache s1 = (abs_cache ?s0)\<lparr>aview := replay ?w (store s), adisk := replay ?w (store s),
      atrace := wlog s @ ?w\<rparr>"
    using fold_recover [OF hk out0] unfolding 1(3) Let_def f0 d0 a0(3) .
  have s1: "header s1 = ?h" "sblock s1 = sb" "loglock s1 = False" "committing s1 = False"
    "bitlock s1 = False" "outstanding s1 = 0" "log_sem s1 = init_sem 0"
    using arg_cong [OF a1, of ahdr] arg_cong [OF a1, of asb] arg_cong [OF a1, of alog]
      arg_cong [OF a1, of acommit] arg_cong [OF a1, of abit] arg_cong [OF a1, of aout]
      arg_cong [OF a1, of asem] by simp_all
  let ?s1 = "s1\<lparr>header := clear_header ?h\<rparr>"
  let ?s' = "write_header ?s1"
  have 2: "cache_ok ?s'" "abs_cache ?s' = a_header (abs_cache ?s1)"
    using write_header_refines [of ?s1] 1(2) by auto
  have run: "init_bcache sb s = Ok ?s'"
    using 1(1) s1(1) by (simp add: init_bcache_def init_log_def read_header_def Let_def init_spinlock_def
        del: andthen_eq_Ok)
  have a1': "abs_cache ?s1 = (abs_cache s1)\<lparr>ahdr := clear_header ?h\<rparr>" by simp
  have f1: "ahdr (abs_cache s1) = ?h" "asb (abs_cache s1) = sb" "aheld (abs_cache s1) = {}"
    "apin (abs_cache s1) = {}" "atrace (abs_cache s1) = wlog s @ ?w" "adisk (abs_cache s1) = replay ?w (store s)"
    "aview (abs_cache s1) = replay ?w (store s)"
    using a0(1,2) f0 unfolding a1 by (simp_all del: abs_cache_simps abs_cache_upd)
  have g: "atrace (abs_cache ?s') = wlog s @ recovery_writes sb (store s)"
    "adisk (abs_cache ?s') = recovered sb (store s)" "aheld (abs_cache ?s') = {}" "apin (abs_cache ?s') = {}"
    "aview (abs_cache ?s') = adisk (abs_cache ?s')"
    unfolding 2(2) a1' a_header_def a_flush_def a_set_def recovered_def recovery_writes_def Let_def
    by (simp_all add: f1 replay_append del: abs_cache_simps abs_cache_upd)
  then have g': "wlog ?s' = wlog s @ recovery_writes sb (store s)" "store ?s' = recovered sb (store s)"
    by (simp_all only: abs_cache_simps)
  have s': "header ?s' = clear_header ?h" "sblock ?s' = sb" "\<not> loglock ?s'" "\<not> committing ?s'"
    "\<not> bitlock ?s'" "outstanding ?s' = 0" "log_sem ?s' = init_sem 0"
    using s1 by (simp_all add: write_header_def dev_write_def)
  have "store ?s' ?ls = encode_header (clear_header ?h)"
    unfolding g'(2) by (simp add: recovered_def recovery_writes_def Let_def replay_append)
  then have "hnum (decode_header (store ?s' ?ls)) = 0" by (simp add: decode_encode_header header_ok_clear)
  moreover have "logged (clear_header ?h) = []" by (simp add: logged_def)
  ultimately have "log_ok ?s'" using 2(1) g(4) s' header_ok_clear sem_ok_init [of 0]
    by (simp add: log_ok_def)
  with run g g' s' show ?thesis by simp
qed

section \<open>Crashes\<close>

lemma replay_indep: "n \<in> fst ` set ws \<Longrightarrow> replay ws d n = replay ws d' n"
proof (induction ws arbitrary: d d' rule: rev_induct)
  case (snoc w ws)
  obtain m bs where "w = (m, bs)" by fastforce
  with snoc show ?case by (auto simp: replay_append)
qed simp

lemma replay_length:
  "\<forall>n. length (d n) = k \<Longrightarrow> \<forall>(m, bs)\<in>set ws. length bs = k \<Longrightarrow> length (replay ws d n) = k"
proof (induction ws arbitrary: d)
  case (Cons w ws)
  obtain m bs where "w = (m, bs)" by fastforce
  with Cons show ?case by simp
qed simp

text \<open>Recovery reads the log area only.\<close>

lemma recovery_writes_cong:
  assumes "\<And>m. m \<in> log_area sb \<Longrightarrow> d' m = d m" and "hnum (decode_header (d (log_start sb))) \<le> LOG_MAX_SIZE"
  shows "recovery_writes sb d' = recovery_writes sb d"
proof -
  have "d' (log_start sb) = d (log_start sb)" using assms(1) by (simp add: log_area_def)
  moreover have "d' (log_start sb + i + 1) = d (log_start sb + i + 1)"
    if "i < hnum (decode_header (d (log_start sb)))" for i
    using that assms by (simp add: log_area_def)
  ultimately show ?thesis by (simp add: recovery_writes_def Let_def)
qed

lemma recoverable_cong:
  assumes "recoverable sb d" and "\<And>m. m \<in> log_area sb \<Longrightarrow> d' m = d m" and "\<And>m. length (d' m) = BLOCK_SIZE"
  shows "recoverable sb d'"
proof -
  have "d' (log_start sb) = d (log_start sb)" using assms(2) by (simp add: log_area_def)
  with assms show ?thesis by (simp add: recoverable_def)
qed

lemma recovery_writes_length:
  "recoverable sb d \<Longrightarrow> \<forall>(m, bs)\<in>set (recovery_writes sb d). length bs = BLOCK_SIZE"
  by (auto simp: recovery_writes_def recoverable_def Let_def length_encode_header)

lemma take_replay_length:
  assumes "\<forall>n. length (d n) = k" and "\<forall>(m, bs)\<in>set ws. length bs = k"
  shows "length (replay (take j ws) d n) = k"
  by (rule replay_length [OF assms(1)]) (use assms(2) in \<open>auto dest: in_set_takeD\<close>)

lemma empty_header_recovers:
  assumes "hnum (decode_header (d (log_start sb))) = 0" and "n \<noteq> log_start sb"
  shows "recovered sb d n = d n"
  using assms by (simp add: recovered_def recovery_writes_def Let_def)

text \<open>A second crash, at any point of the recovery, changes nothing.\<close>

lemma recovery_idempotent:
  assumes rec: "recoverable sb d" and n: "n \<notin> log_area sb"
  shows "recovered sb (replay (take j (recovery_writes sb d)) d) n = recovered sb d n"
    and "recoverable sb (replay (take j (recovery_writes sb d)) d)"
proof -
  define h where "h = decode_header (d (log_start sb))"
  define w where "w = map (\<lambda>i. (hblocks h ! i, d (log_start sb + i + 1))) [0..<hnum h]"
  define e where "e = encode_header (clear_header h)"
  define d' where "d' = replay (take j (recovery_writes sb d)) d"
  have out: "\<forall>i<hnum h. hblocks h ! i \<notin> log_area sb" and hk: "hnum h \<le> LOG_MAX_SIZE"
    and len: "\<forall>n. length (d n) = BLOCK_SIZE"
    using rec by (auto simp: recoverable_def Let_def h_def)
  have R: "recovery_writes sb d = w @ [(log_start sb, e)]"
    by (simp add: recovery_writes_def Let_def h_def w_def e_def)
  have nls: "n \<noteq> log_start sb" using n by (auto simp: log_area_def)
  have whole: "recovered sb d n = replay w d n" using nls by (simp add: recovered_def R replay_append)
  have l: "length (d' m) = BLOCK_SIZE" for m
    unfolding d'_def by (rule take_replay_length [OF len recovery_writes_length [OF rec]])
  have "recovered sb d' n = recovered sb d n \<and> recoverable sb d'"
  proof (cases "j \<le> length w")
    case True
    then have d': "d' = replay (take j w) d" by (simp add: d'_def R)
    have sub: "fst ` set (take j w) \<subseteq> fst ` set w" by (intro image_mono set_take_subset)
    have same: "d' m = d m" if "m \<in> log_area sb" for m
      unfolding d' by (rule replay_other) (use sub that out in \<open>auto simp: w_def\<close>)
    have rw: "recovery_writes sb d' = recovery_writes sb d"
      by (rule recovery_writes_cong [OF same]) (use hk in \<open>simp_all add: h_def\<close>)
    have "recovered sb d' n = replay w d' n" using nls by (simp add: recovered_def rw R replay_append)
    also have "\<dots> = replay w d n"
    proof (cases "n \<in> fst ` set w")
      case False
      then have "n \<notin> fst ` set (take j w)" using sub by blast
      then show ?thesis using False by (simp only: d' replay_other not_False_eq_True)
    qed (rule replay_indep)
    finally show ?thesis using whole recoverable_cong [OF rec same l] by simp
  next
    case False
    then have d': "d' = (replay w d)(log_start sb := e)" by (simp add: d'_def R replay_append)
    then have h0: "hnum (decode_header (d' (log_start sb))) = 0"
      by (simp add: e_def decode_encode_header header_ok_clear)
    then have "recovered sb d' n = d' n" using nls by (rule empty_header_recovers)
    with whole d' nls h0 l show ?thesis by (simp add: recoverable_def Let_def)
  qed
  then show "recovered sb (replay (take j (recovery_writes sb d)) d) n = recovered sb d n"
    "recoverable sb (replay (take j (recovery_writes sb d)) d)" by (simp_all add: d'_def)
qed

text \<open>
  A crash after any number of the writes of \<^verbatim>\<open>cache_end_op\<close>: recovery gives the contents
  before the operation if the header had not been written, and after it otherwise.
\<close>

lemma crash_atomic:
  fixes k :: nat
  assumes ok: "log_ok s" and h: "aheld (abs_cache s) = {}" and n: "n \<notin> log_area (sblock s)"
  defines "D \<equiv> replay (take k (commit_writes s)) (store s)"
  shows "recovered (sblock s) D n =
      (if k \<le> hnum (header s) then store s n else aview (abs_cache s) n)"
    and "recoverable (sblock s) D"
proof -
  define ls where "ls = log_start (sblock s)"
  define hd where "hd = header s"
  define v where "v = aview (abs_cache s)"
  define w1 where "w1 = map (\<lambda>i. (ls + i + 1, v (hblocks hd ! i))) [0..<hnum hd]"
  define w2 where "w2 = map (\<lambda>i. (hblocks hd ! i, v (hblocks hd ! i))) [0..<hnum hd]"
  define e where "e = encode_header (clear_header hd)"
  have W: "commit_writes s = w1 @ [(ls, encode_header hd)] @ w2 @ [(ls, e)]"
    by (simp add: commit_writes_def Let_def ls_def hd_def v_def w1_def w2_def e_def)
  have cok: "cache_ok s" and hk: "hnum hd \<le> LOG_MAX_SIZE" and hok: "header_ok hd"
    and h0: "hnum (decode_header (store s ls)) = 0" and pin: "apin (abs_cache s) = set (logged hd)"
    using ok by (auto simp: log_ok_def hd_def ls_def)
  have out: "\<forall>i<hnum hd. hblocks hd ! i \<notin> log_area (sblock s)"
    using log_ok_entries [OF ok h] by (simp add: entries_ok_def hd_def)
  have len: "\<forall>n. length (store s n) = BLOCK_SIZE" using cok by (simp add: cache_ok_def)
  have vl: "length (v m) = BLOCK_SIZE" for m using view_length [OF cok] by (simp add: v_def)
  have hl: "length (hblocks hd) = LOG_MAX_SIZE" using hok by (simp add: header_ok_def)
  have clean: "v n = store s n" if "n \<notin> fst ` set w2"
  proof -
    have "n \<notin> set (logged hd)" using that logged_nth [OF hl hk] by (auto simp: w2_def image_image)
    then show ?thesis using view_clean [OF cok, of n] h pin by (simp add: v_def)
  qed
  have wl: "\<forall>(m, bs)\<in>set (commit_writes s). length bs = BLOCK_SIZE"
    using vl hl by (auto simp: W w1_def w2_def e_def length_encode_header)
  have l: "length (D m) = BLOCK_SIZE" for m unfolding D_def by (rule take_replay_length [OF len wl])
  have nls: "n \<noteq> ls" "n \<notin> fst ` set w1" using n hk by (auto simp: log_area_def ls_def w1_def)
  have area1: "ls \<notin> fst ` set w1" by (auto simp: w1_def)
  have area2: "m \<notin> fst ` set w2" if "m \<in> log_area (sblock s)" for m using out that by (auto simp: w2_def)
  have lsin: "ls \<in> log_area (sblock s)" by (simp add: ls_def log_area_def)
  have "recovered (sblock s) D n = (if k \<le> hnum hd then store s n else v n) \<and> recoverable (sblock s) D"
  proof (cases "k \<le> hnum hd")
    case True
    then have "take k (commit_writes s) = take k w1" by (simp add: W w1_def)
    then have D: "D = replay (take k w1) (store s)" by (simp add: D_def)
    have sub: "fst ` set (take k w1) \<subseteq> fst ` set w1" by (intro image_mono set_take_subset)
    have "D ls = store s ls" "D n = store s n"
      unfolding D using sub area1 nls by (auto intro!: replay_other)
    with h0 l True nls show ?thesis
      by (simp add: empty_header_recovers ls_def recoverable_def Let_def)
  next
    case False
    show ?thesis
    proof (cases "k \<le> hnum hd + 1 + length w2")
      case True
      define j where "j = k - (hnum hd + 1)"
      have "take k (commit_writes s) = w1 @ [(ls, encode_header hd)] @ take j w2"
      proof -
        have "k = hnum hd + Suc j" using False by (simp add: j_def)
        moreover have "j \<le> length w2" using True False by (simp add: j_def)
        moreover have "length w1 = hnum hd" by (simp add: w1_def)
        ultimately show ?thesis by (simp add: W)
      qed
      then have D: "D = replay (take j w2) ((replay w1 (store s))(ls := encode_header hd))"
        by (simp add: D_def replay_append)
      have sub: "fst ` set (take j w2) \<subseteq> fst ` set w2" by (intro image_mono set_take_subset)
      have same: "D m = ((replay w1 (store s))(ls := encode_header hd)) m" if "m \<in> log_area (sblock s)" for m
        unfolding D by (rule replay_other) (use sub area2 [OF that] in blast)
      have "D ls = encode_header hd" using same [OF lsin] by simp
      then have dh: "decode_header (D ls) = hd" using hok by (simp add: decode_encode_header)
      have w1a: "\<forall>(m, bs)\<in>set w1. bs = (\<lambda>m. v (hblocks hd ! (m - ls - 1))) m" by (auto simp: w1_def)
      have logc: "D (ls + i + 1) = v (hblocks hd ! i)" if "i < hnum hd" for i
      proof -
        have "ls + i + 1 \<in> log_area (sblock s)" using that hk by (simp add: log_area_def ls_def)
        then have "D (ls + i + 1) = replay w1 (store s) (ls + i + 1)" using same by simp
        also have "\<dots> = v (hblocks hd ! i)"
          using replay_agree [OF w1a, of "store s" "ls + i + 1"] that by (auto simp: w1_def image_iff)
        finally show ?thesis .
      qed
      have rw: "recovery_writes (sblock s) D = w2 @ [(ls, e)]"
        using dh logc by (simp add: recovery_writes_def Let_def ls_def [symmetric] w2_def e_def)
      have w2a: "\<forall>(m, bs)\<in>set w2. bs = v m" by (auto simp: w2_def)
      have "recovered (sblock s) D n = replay w2 D n" using nls by (simp add: recovered_def rw replay_append)
      also have "\<dots> = v n"
      proof (cases "n \<in> fst ` set w2")
        case True
        then show ?thesis using replay_agree [OF w2a, of D n] by simp
      next
        case no: False
        then have "n \<notin> fst ` set (take j w2)" using sub by blast
        then have "D n = store s n" unfolding D using nls by (simp add: replay_other)
        with no show ?thesis using clean replay_agree [OF w2a, of D n] by simp
      qed
      finally have "recovered (sblock s) D n = v n" .
      moreover have "recoverable (sblock s) D"
        using l dh hk out by (simp add: recoverable_def Let_def ls_def)
      ultimately show ?thesis using False by simp
    next
      case all: False
      then have "take k (commit_writes s) = commit_writes s"
        by (simp add: W w1_def w2_def)
      then have D: "D = (replay w2 ((replay w1 (store s))(ls := encode_header hd)))(ls := e)"
        by (simp add: D_def W replay_append)
      have "D ls = e" by (simp add: D)
      then have e0: "hnum (decode_header (D ls)) = 0" by (simp add: e_def decode_encode_header header_ok_clear)
      have w2a: "\<forall>(m, bs)\<in>set w2. bs = v m" by (auto simp: w2_def)
      have "recovered (sblock s) D n = D n" using e0 nls by (simp add: empty_header_recovers ls_def)
      also have "\<dots> = v n"
        using replay_agree [OF w2a, of "(replay w1 (store s))(ls := encode_header hd)" n] nls clean
        by (simp add: D replay_other)
      finally show ?thesis using False l e0 by (simp add: recoverable_def Let_def ls_def)
    qed
  qed
  then show "recovered (sblock s) D n = (if k \<le> hnum (header s) then store s n else aview (abs_cache s) n)"
    "recoverable (sblock s) D" by (simp_all add: hd_def v_def)
qed

end
