(* ===== verification/CacheAlloc.thy ===== *)
theory CacheAlloc
  imports CacheLog
begin

text \<open>
  The operations as a file system call uses them between \<^verbatim>\<open>begin_op\<close> and \<^verbatim>\<open>end_op\<close>: acquire,
  change, sync and release keep the log well formed and never touch the device, and
  \<^verbatim>\<open>alloc\<close> and \<^verbatim>\<open>free\<close> keep the bitmap on the disk exact.
\<close>

section \<open>Steps inside an operation\<close>

text \<open>What a step inside an operation leaves alone.\<close>

definition same_disk :: "cache_sys \<Rightarrow> cache_sys \<Rightarrow> bool" where
  "same_disk s s' \<longleftrightarrow> sblock s' = sblock s \<and> store s' = store s \<and> wlog s' = wlog s \<and>
     outstanding s' = outstanding s \<and> bitlock s' = bitlock s \<and> log_sem s' = log_sem s"

lemma same_disk_refl [simp]: "same_disk s s"
  by (simp add: same_disk_def)

lemma same_disk_trans: "same_disk s t \<Longrightarrow> same_disk t u \<Longrightarrow> same_disk s u"
  by (simp add: same_disk_def)

text \<open>The state of the log from which the operation can go on: every sync that is left fits.\<close>

definition op_ok :: "op_context \<Rightarrow> cache_sys \<Rightarrow> bool" where
  "op_ok c s \<longleftrightarrow> log_ok s \<and> hnum (header s) + rm c \<le> LOG_MAX_SIZE"

lemma log_ok_abs:
  assumes "log_ok s" and "cache_ok s'" and a: "abs_cache s' = (abs_cache s)\<lparr>aheld := H, aview := V\<rparr>"
  shows "log_ok s' \<and> same_disk s s' \<and> header s' = header s"
proof -
  have "sblock s' = sblock s" "header s' = header s" "store s' = store s" "loglock s' = loglock s"
    "committing s' = committing s" "log_sem s' = log_sem s" "apin (abs_cache s') = apin (abs_cache s)"
    "wlog s' = wlog s" "outstanding s' = outstanding s" "bitlock s' = bitlock s"
    using arg_cong [OF a, of asb] arg_cong [OF a, of ahdr] arg_cong [OF a, of adisk]
      arg_cong [OF a, of alog] arg_cong [OF a, of acommit] arg_cong [OF a, of asem] arg_cong [OF a, of apin]
      arg_cong [OF a, of atrace] arg_cong [OF a, of aout] arg_cong [OF a, of abit] by simp_all
  with assms show ?thesis by (simp add: log_ok_def same_disk_def)
qed

lemma op_acquire:
  assumes ok: "op_ok c s" and "n \<notin> aheld (abs_cache s)" and "n \<notin> log_area (sblock s)"
  shows "\<exists>s'. cache_acquire n s = Ok s' \<and> op_ok c s' \<and> same_disk s s' \<and> header s' = header s \<and>
    aview (abs_cache s') = aview (abs_cache s) \<and> aheld (abs_cache s') = insert n (aheld (abs_cache s)) \<and>
    apin (abs_cache s') = apin (abs_cache s) \<and> block_data n s' = aview (abs_cache s) n"
proof -
  have "n \<noteq> log_start (sblock s)" using assms(3) by (auto simp: log_area_def)
  then obtain s' where s': "cache_acquire n s = Ok s'" "cache_ok s'" "abs_cache s' = a_acquire n (abs_cache s)"
    using acquire_refines [of s n] assms(1,2) unfolding op_ok_def log_ok_def by blast
  have "abs_cache s' = (abs_cache s)\<lparr>aheld := insert n (aheld (abs_cache s)), aview := aview (abs_cache s)\<rparr>"
    by (simp add: s'(3) a_acquire_def)
  from log_ok_abs [OF _ s'(2) this] ok have l: "log_ok s'" "same_disk s s'" "header s' = header s"
    by (auto simp: op_ok_def)
  have f: "aview (abs_cache s') = aview (abs_cache s)" "aheld (abs_cache s') = insert n (aheld (abs_cache s))"
    "apin (abs_cache s') = apin (abs_cache s)"
    by (simp_all add: s'(3) a_acquire_def)
  have "block_data n s' = aview (abs_cache s) n"
    using abs_view_held [of n s'] f(1,2) by simp
  with s'(1) l f ok show ?thesis by (simp add: op_ok_def)
qed

lemma op_release:
  assumes ok: "op_ok c s" and h: "n \<in> aheld (abs_cache s)"
    and d: "n \<in> apin (abs_cache s) \<or> aview (abs_cache s) n = store s n"
  shows "\<exists>s'. cache_release n s = Ok s' \<and> op_ok c s' \<and> same_disk s s' \<and> header s' = header s \<and>
    aview (abs_cache s') = aview (abs_cache s) \<and> aheld (abs_cache s') = aheld (abs_cache s) - {n} \<and>
    apin (abs_cache s') = apin (abs_cache s)"
proof -
  obtain s' where s': "cache_release n s = Ok s'" "cache_ok s'" "abs_cache s' = a_release n (abs_cache s)"
    using release_refines [OF _ h d] ok by (auto simp: op_ok_def log_ok_def)
  have "abs_cache s' = (abs_cache s)\<lparr>aheld := aheld (abs_cache s) - {n}, aview := aview (abs_cache s)\<rparr>"
    by (simp add: s'(3) a_release_def)
  from log_ok_abs [OF _ s'(2) this] ok have "log_ok s'" "same_disk s s'" "header s' = header s"
    by (auto simp: op_ok_def)
  with s' ok show ?thesis by (simp add: op_ok_def a_release_def)
qed

lemma op_set_data:
  assumes ok: "op_ok c s" and h: "n \<in> aheld (abs_cache s)" and l: "length bs = BLOCK_SIZE"
  shows "op_ok c (set_block_data n bs s) \<and> same_disk s (set_block_data n bs s) \<and>
    header (set_block_data n bs s) = header s \<and>
    aview (abs_cache (set_block_data n bs s)) = (aview (abs_cache s))(n := bs) \<and>
    aheld (abs_cache (set_block_data n bs s)) = aheld (abs_cache s) \<and>
    apin (abs_cache (set_block_data n bs s)) = apin (abs_cache s)"
proof -
  have s': "cache_ok (set_block_data n bs s)" "abs_cache (set_block_data n bs s) = a_set n bs (abs_cache s)"
    using set_data_refines [OF _ h l] ok by (auto simp: op_ok_def log_ok_def)
  have "abs_cache (set_block_data n bs s) =
      (abs_cache s)\<lparr>aheld := aheld (abs_cache s), aview := (aview (abs_cache s))(n := bs)\<rparr>"
    by (simp add: s'(2) a_set_def)
  from log_ok_abs [OF _ s'(1) this] ok show ?thesis by (auto simp: op_ok_def s'(2) a_set_def)
qed

lemma take_update_snoc: "k < length xs \<Longrightarrow> take (Suc k) (xs[k := x]) = take k xs @ [x]"
  by (simp add: take_Suc_conv_app_nth)

lemma logged_append:
  assumes "length (hblocks h) = LOG_MAX_SIZE" and "hnum h < LOG_MAX_SIZE"
  shows "logged (h\<lparr>hblocks := (hblocks h)[hnum h := n], hnum := hnum h + 1\<rparr>) = logged h @ [n]"
  using assms by (simp add: logged_def take_update_snoc)

lemma op_sync:
  assumes ok: "op_ok c s" and h: "n \<in> aheld (abs_cache s)" and n: "n \<notin> log_area (sblock s)" "n < 2 ^ 64"
    and r: "n \<in> set (logged (header s)) \<or> 0 < rm c"
  shows "\<exists>c' s'. cache_sync (Some c) n s = Ok (Some c', s') \<and> op_ok c' s' \<and> same_disk s s' \<and>
    aview (abs_cache s') = aview (abs_cache s) \<and> aheld (abs_cache s') = aheld (abs_cache s) \<and>
    apin (abs_cache s') = insert n (apin (abs_cache s)) \<and>
    set (logged (header s')) = insert n (set (logged (header s))) \<and>
    rm c' = (if n \<in> set (logged (header s)) then rm c else rm c - 1)"
proof -
  have cok: "cache_ok s" and nl: "\<not> loglock s" and lok: "log_ok s" and hok: "header_ok (header s)"
    using ok by (auto simp: op_ok_def log_ok_def)
  note S = sync_refines [OF cok h nl]
  show ?thesis
  proof (cases "n \<in> set (logged (header s))")
    case True
    from S(1) [OF True] obtain s' where s': "cache_sync (Some c) n s = Ok (Some c, s')" "cache_ok s'"
      "abs_cache s' = a_pin n (abs_cache s)" by blast
    have "n \<in> apin (abs_cache s)" using True lok by (simp add: log_ok_def)
    then have "abs_cache s' = (abs_cache s)\<lparr>aheld := aheld (abs_cache s), aview := aview (abs_cache s)\<rparr>"
      by (simp add: s'(3) a_pin_def insert_absorb)
    from log_ok_abs [OF lok s'(2) this] True s' ok show ?thesis
      by (intro exI [of _ c] exI [of _ s']) (auto simp: op_ok_def a_pin_def)
  next
    case False
    then have r': "0 < rm c" using r by simp
    then have room: "hnum (header s) < LOG_MAX_SIZE" using ok by (simp add: op_ok_def)
    from S(2) [OF False r' room] obtain s' where
      s': "cache_sync (Some c) n s = Ok (Some (c\<lparr>rm := rm c - 1\<rparr>), s')" "cache_ok s'"
      "abs_cache s' = a_log n (a_pin n (abs_cache s))" by blast
    note a = s'(3)
    have f: "sblock s' = sblock s" "store s' = store s" "loglock s' = loglock s"
      "committing s' = committing s" "log_sem s' = log_sem s" "wlog s' = wlog s"
      "outstanding s' = outstanding s" "bitlock s' = bitlock s"
      "header s' = (header s)\<lparr>hblocks := (hblocks (header s))[hnum (header s) := n], hnum := hnum (header s) + 1\<rparr>"
      using arg_cong [OF a, of asb] arg_cong [OF a, of ahdr] arg_cong [OF a, of adisk]
        arg_cong [OF a, of alog] arg_cong [OF a, of acommit] arg_cong [OF a, of asem]
        arg_cong [OF a, of atrace] arg_cong [OF a, of aout] arg_cong [OF a, of abit]
      by (simp_all add: a_log_def a_pin_def)
    have g: "apin (abs_cache s') = insert n (apin (abs_cache s))" "aview (abs_cache s') = aview (abs_cache s)"
      "aheld (abs_cache s') = aheld (abs_cache s)"
      by (simp_all add: a a_log_def a_pin_def)
    have hl: "length (hblocks (header s)) = LOG_MAX_SIZE" using hok by (simp add: header_ok_def)
    have lg: "logged (header s') = logged (header s) @ [n]" unfolding f(9) by (rule logged_append [OF hl room])
    have "hnum (header s') < 2 ^ 64" using room by (simp add: f(9) fs_sizes)
    moreover have "\<forall>b\<in>set (hblocks (header s')). b < 2 ^ 64"
      using hok n(2) by (auto simp: f(9) header_ok_def dest: subsetD [OF set_update_subset_insert])
    ultimately have "header_ok (header s')" using hl by (simp add: header_ok_def f(9))
    then have "log_ok s'"
      using lok s'(2) n(1) False room by (simp add: log_ok_def lg f(1-8) g) (simp add: f(9))
    then have "op_ok (c\<lparr>rm := rm c - 1\<rparr>) s'" using ok r' by (simp add: op_ok_def f(9))
    with s'(1) f g lg False show ?thesis by (simp add: same_disk_def)
  qed
qed

text \<open>A first sync of a block when the operation has used up its blocks is a panic.\<close>

lemma op_sync_limit:
  assumes "op_ok c s" and "n \<in> aheld (abs_cache s)" and "n \<notin> set (logged (header s))" and "rm c = 0"
  shows "cache_sync (Some c) n s = Panic"
  using sync_refines(3) [of s n c] assms by (auto simp: op_ok_def log_ok_def)

section \<open>The bitmap on the disk\<close>

definition bm_block :: "super_block \<Rightarrow> nat \<Rightarrow> nat" where
  "bm_block sb b = bitmap_start sb + b div BIT_PER_BLOCK"

definition bm_idx :: "nat \<Rightarrow> nat" where
  "bm_idx b = b mod BIT_PER_BLOCK div 8"

definition bm_off :: "nat \<Rightarrow> nat" where
  "bm_off b = b mod BIT_PER_BLOCK mod 8"

definition block_used :: "super_block \<Rightarrow> (nat \<Rightarrow> u8 list) \<Rightarrow> nat \<Rightarrow> bool" where
  "block_used sb v b = bit (v (bm_block sb b) ! bm_idx b) (bm_off b)"

definition mark_used :: "super_block \<Rightarrow> (nat \<Rightarrow> u8 list) \<Rightarrow> nat \<Rightarrow> nat \<Rightarrow> u8 list" where
  "mark_used sb v b = v(bm_block sb b :=
     (v (bm_block sb b))[bm_idx b := v (bm_block sb b) ! bm_idx b OR push_bit (bm_off b) 1])"

definition mark_free :: "super_block \<Rightarrow> (nat \<Rightarrow> u8 list) \<Rightarrow> nat \<Rightarrow> nat \<Rightarrow> u8 list" where
  "mark_free sb v b = v(bm_block sb b :=
     (v (bm_block sb b))[bm_idx b := v (bm_block sb b) ! bm_idx b AND NOT (push_bit (bm_off b) 1)])"

definition disk_bits :: "super_block \<Rightarrow> (nat \<Rightarrow> u8 list) \<Rightarrow> nat" where
  "disk_bits sb v = (if \<forall>n. length (v n) = BLOCK_SIZE then num_blocks sb else 0)"

lemma bm_bounds: "bm_idx b < BLOCK_SIZE" "bm_off b < 8"
  by (simp_all add: bm_idx_def bm_off_def fs_sizes less_mult_imp_div_less)

lemma bm_inj: "bm_block sb b = bm_block sb c \<Longrightarrow> bm_idx b = bm_idx c \<Longrightarrow> bm_off b = bm_off c \<Longrightarrow> b = c"
proof -
  assume "bm_block sb b = bm_block sb c" "bm_idx b = bm_idx c" "bm_off b = bm_off c"
  then have "b div BIT_PER_BLOCK = c div BIT_PER_BLOCK"
    and "b mod BIT_PER_BLOCK div 8 = c mod BIT_PER_BLOCK div 8"
    and "b mod BIT_PER_BLOCK mod 8 = c mod BIT_PER_BLOCK mod 8"
    by (simp_all add: bm_block_def bm_idx_def bm_off_def)
  then show ?thesis by (metis mod_div_mult_eq)
qed

interpretation disk_map: bit_array "block_used sb" "mark_used sb" "mark_free sb" "disk_bits sb" for sb
proof unfold_locales
  fix v :: "nat \<Rightarrow> u8 list" and i j :: nat
  assume i: "i < disk_bits sb v"
  then have len: "\<forall>n. length (v n) = BLOCK_SIZE" by (auto simp: disk_bits_def split: if_splits)
  show "disk_bits sb (mark_used sb v i) = disk_bits sb v"
    using len by (simp add: disk_bits_def mark_used_def)
  show "disk_bits sb (mark_free sb v i) = disk_bits sb v"
    using len by (simp add: disk_bits_def mark_free_def)
  have l: "bm_idx i < length (v (bm_block sb i))" using len bm_bounds by simp
  have ob: "bm_off j < LENGTH(8)" using bm_bounds by simp
  show "block_used sb (mark_used sb v i) j = (j = i \<or> block_used sb v j)"
    using l bm_inj [of sb i j] bit_or_one_shift [OF ob]
    by (auto simp: block_used_def mark_used_def nth_list_update push_bit_eq_mult)
  show "block_used sb (mark_free sb v i) j = (j \<noteq> i \<and> block_used sb v j)"
    using l bm_inj [of sb i j] bit_andnot_one_shift [OF ob]
    by (auto simp: block_used_def mark_free_def nth_list_update push_bit_eq_mult)
qed

section \<open>The search\<close>

lemma scan_bits_Some:
  "scan_bits k off bits base nb = Some p \<Longrightarrow>
    off \<le> p \<and> p < off + k \<and> base + p < nb \<and> \<not> bit bits p \<and> (\<forall>q. off \<le> q \<longrightarrow> q < p \<longrightarrow> bit bits q)"
  by (induction k off bits base nb rule: scan_bits.induct)
    (auto split: if_splits, metis Suc_leI le_neq_implies_less)

lemma scan_bits_None:
  "scan_bits k off bits base nb = None \<Longrightarrow> off \<le> q \<Longrightarrow> q < off + k \<Longrightarrow> base + q < nb \<Longrightarrow> bit bits q"
proof (induction k off bits base nb rule: scan_bits.induct)
  case (2 k off bits base nb)
  then show ?case by (cases "q = off") (auto split: if_splits)
qed simp

lemma scan_bytes_Some:
  "scan_bytes k idx bs bc nb = Some (i, p) \<Longrightarrow>
    idx \<le> i \<and> i < idx + k \<and> p < 8 \<and> bc + i * 8 + p < nb \<and> \<not> bit (bs ! i) p \<and>
    (\<forall>j q. idx \<le> j \<longrightarrow> q < 8 \<longrightarrow> j * 8 + q < i * 8 + p \<longrightarrow> bit (bs ! j) q)"
proof (induction k idx bs bc nb rule: scan_bytes.induct)
  case (2 k idx bs bc nb)
  show ?case
  proof (cases "scan_bits 8 0 (bs ! idx) (bc + idx * 8) nb")
    case None
    with 2(2) have s: "bc + idx * 8 < nb" "scan_bytes k (idx + 1) bs bc nb = Some (i, p)"
      by (auto split: if_splits)
    note ih = 2(1) [OF s(1) None s(2)]
    have "bit (bs ! j) q" if "idx \<le> j" "q < 8" "j * 8 + q < i * 8 + p" for j q
    proof (cases "j = idx")
      case True
      then show ?thesis using scan_bits_None [OF None, of q] ih that by (simp add: algebra_simps)
    qed (use ih that in auto)
    with ih show ?thesis by auto
  next
    case (Some off)
    with 2(2) have ip: "i = idx" "p = off" by (auto split: if_splits)
    note sb = scan_bits_Some [OF Some]
    have "bit (bs ! j) q" if "idx \<le> j" "q < 8" "j * 8 + q < i * 8 + p" for j q
    proof -
      have "j = idx" using that sb ip by linarith
      with that sb ip show ?thesis by simp
    qed
    with sb ip show ?thesis by auto
  qed
qed simp

lemma scan_bytes_None:
  "scan_bytes k idx bs bc nb = None \<Longrightarrow> idx \<le> j \<Longrightarrow> j < idx + k \<Longrightarrow> q < 8 \<Longrightarrow> bc + j * 8 + q < nb \<Longrightarrow>
    bit (bs ! j) q"
proof (induction k idx bs bc nb rule: scan_bytes.induct)
  case (2 k idx bs bc nb)
  have b: "bc + idx * 8 < nb" using 2(3,6) by (meson add_le_mono1 add_left_mono le_less_trans mult_le_mono1 trans_le_add1)
  then have n: "scan_bits 8 0 (bs ! idx) (bc + idx * 8) nb = None" "scan_bytes k (idx + 1) bs bc nb = None"
    using 2(2) by (auto split: option.splits)
  show ?case
  proof (cases "j = idx")
    case True
    then show ?thesis using scan_bits_None [OF n(1), of q] 2(5,6) by simp
  qed (use 2(1) [OF b n(1) n(2)] 2(3-6) in auto)
qed simp

text \<open>The loop of \<^verbatim>\<open>cache_alloc\<close> over one bitmap block, in terms of block numbers.\<close>

lemma block_split:
  assumes "BIT_PER_BLOCK dvd bc" and "i < BLOCK_SIZE" and "p < 8"
  shows "bm_block sb (bc + i * 8 + p) = bitmap_start sb + bc div BIT_PER_BLOCK"
    and "bm_idx (bc + i * 8 + p) = i" and "bm_off (bc + i * 8 + p) = p"
proof -
  obtain m where bc: "bc = BIT_PER_BLOCK * m" using assms(1) by blast
  have lt: "i * 8 + p < BIT_PER_BLOCK" using assms(2,3) by (simp add: BIT_PER_BLOCK_def)
  have md: "(bc + i * 8 + p) mod BIT_PER_BLOCK = i * 8 + p"
    and dv: "(bc + i * 8 + p) div BIT_PER_BLOCK = m"
    using lt unfolding bc by (simp_all add: add.assoc)
  have "bc div BIT_PER_BLOCK = m" unfolding bc by (simp add: fs_sizes)
  then show "bm_block sb (bc + i * 8 + p) = bitmap_start sb + bc div BIT_PER_BLOCK"
    by (simp add: bm_block_def dv)
  show "bm_idx (bc + i * 8 + p) = i" "bm_off (bc + i * 8 + p) = p"
    using assms(3) by (simp_all only: bm_idx_def bm_off_def md) simp_all
qed

lemma split_block:
  assumes "BIT_PER_BLOCK dvd bc" and "bc \<le> b" and "b < bc + BIT_PER_BLOCK"
  shows "b = bc + bm_idx b * 8 + bm_off b"
proof -
  obtain m where bc: "bc = BIT_PER_BLOCK * m" using assms(1) by blast
  have "b mod BIT_PER_BLOCK = (BIT_PER_BLOCK * m + (b - bc)) mod BIT_PER_BLOCK"
    using assms(2) by (simp add: bc)
  also have "\<dots> = (b - bc) mod BIT_PER_BLOCK" by (rule mod_mult_self4)
  also have "\<dots> = b - bc" using assms(2,3) by (intro mod_less) linarith
  finally have "b mod BIT_PER_BLOCK = b - bc" .
  then show ?thesis using assms(2) by (simp add: bm_idx_def bm_off_def)
qed

lemma scan_finds_least:
  assumes d: "BIT_PER_BLOCK dvd bc" and bm: "bs = v (bitmap_start sb + bc div BIT_PER_BLOCK)"
  shows "scan_bytes BLOCK_SIZE 0 bs bc nb = Some (i, p) \<Longrightarrow>
      i < BLOCK_SIZE \<and> p < 8 \<and> bc + i * 8 + p < nb \<and> \<not> block_used sb v (bc + i * 8 + p) \<and>
      (\<forall>b. bc \<le> b \<longrightarrow> b < bc + i * 8 + p \<longrightarrow> block_used sb v b)"
    and "scan_bytes BLOCK_SIZE 0 bs bc nb = None \<Longrightarrow> bc \<le> b \<Longrightarrow> b < bc + BIT_PER_BLOCK \<Longrightarrow> b < nb \<Longrightarrow>
      block_used sb v b"
proof -
  have used: "block_used sb v b = bit (bs ! bm_idx b) (bm_off b)"
    if "bc \<le> b" "b < bc + BIT_PER_BLOCK" for b
    using block_split(1) [OF d bm_bounds, of sb b b] split_block [OF d that] by (simp add: block_used_def bm)
  show "i < BLOCK_SIZE \<and> p < 8 \<and> bc + i * 8 + p < nb \<and> \<not> block_used sb v (bc + i * 8 + p) \<and>
      (\<forall>b. bc \<le> b \<longrightarrow> b < bc + i * 8 + p \<longrightarrow> block_used sb v b)"
    if s: "scan_bytes BLOCK_SIZE 0 bs bc nb = Some (i, p)"
  proof -
    note S = scan_bytes_Some [OF s]
    have lt: "i * 8 + p < BIT_PER_BLOCK" using S by (simp add: BIT_PER_BLOCK_def)
    have sp: "bm_idx (bc + i * 8 + p) = i" "bm_off (bc + i * 8 + p) = p"
      using block_split(2,3) [OF d, of i p] S by simp_all
    have "block_used sb v b" if "bc \<le> b" "b < bc + i * 8 + p" for b
    proof -
      have b: "b < bc + BIT_PER_BLOCK" using that lt by simp
      have "bm_idx b * 8 + bm_off b < i * 8 + p" using split_block [OF d that(1) b] that(2) by linarith
      then show ?thesis using S bm_bounds used [OF that(1) b] by simp
    qed
    then show ?thesis using S used [of "bc + i * 8 + p"] sp lt by simp
  qed
  show "block_used sb v b"
    if "scan_bytes BLOCK_SIZE 0 bs bc nb = None" "bc \<le> b" "b < bc + BIT_PER_BLOCK" "b < nb"
    using scan_bytes_None [OF that(1), of "bm_idx b" "bm_off b"] bm_bounds used [OF that(2,3)]
      split_block [OF d that(2,3)] that(4) by simp
qed

section \<open>alloc and free\<close>

text \<open>
  The geometry \<open>alloc\<close> relies on: the bitmap lies outside the log, and neither the log nor
  the bitmap itself is offered as free.
\<close>

definition bitmap_ok :: "super_block \<Rightarrow> (nat \<Rightarrow> u8 list) \<Rightarrow> bool" where
  "bitmap_ok sb v \<longleftrightarrow> num_blocks sb \<le> 2 ^ 64 \<and>
     (\<forall>b<num_blocks sb. bm_block sb b \<notin> log_area sb \<and> bm_block sb b < 2 ^ 64 \<and>
        (\<not> block_used sb v b \<longrightarrow> b \<notin> log_area sb \<and> (\<forall>c<num_blocks sb. b \<noteq> bm_block sb c)))"

definition same_store :: "cache_sys \<Rightarrow> cache_sys \<Rightarrow> bool" where
  "same_store s s' \<longleftrightarrow> sblock s' = sblock s \<and> store s' = store s \<and> wlog s' = wlog s \<and>
     outstanding s' = outstanding s \<and> log_sem s' = log_sem s"

lemma same_store_disk: "same_disk s s' \<Longrightarrow> same_store s s'"
  by (simp add: same_disk_def same_store_def)

lemma same_store_trans: "same_store s t \<Longrightarrow> same_store t u \<Longrightarrow> same_store s u"
  by (simp add: same_store_def)

lemma op_ok_bitlock [simp]: "op_ok c (s\<lparr>bitlock := l\<rparr>) = op_ok c s"
  by (simp add: op_ok_def log_ok_def)

lemma op_view_length: "op_ok c s \<Longrightarrow> length (aview (abs_cache s) n) = BLOCK_SIZE"
  by (simp add: op_ok_def log_ok_def view_length)

text \<open>Change the data of a held block, sync it and release it: the common tail of every update.\<close>

lemma op_update:
  assumes ok: "op_ok c s" and h: "n \<in> aheld (abs_cache s)" and l: "length bs = BLOCK_SIZE"
    and n: "n \<notin> log_area (sblock s)" "n < 2 ^ 64" and r: "n \<in> set (logged (header s)) \<or> 0 < rm c"
  shows "\<exists>c' s1 s'. cache_sync (Some c) n (set_block_data n bs s) = Ok (Some c', s1) \<and>
    cache_release n s1 = Ok s' \<and> op_ok c' s' \<and> same_disk s s' \<and>
    aview (abs_cache s') = (aview (abs_cache s))(n := bs) \<and>
    aheld (abs_cache s') = aheld (abs_cache s) - {n} \<and>
    set (logged (header s')) = insert n (set (logged (header s))) \<and>
    rm c' = (if n \<in> set (logged (header s)) then rm c else rm c - 1)"
proof -
  let ?s0 = "set_block_data n bs s"
  note 0 = op_set_data [OF ok h l]
  have sb0: "sblock ?s0 = sblock s" using 0 by (simp add: same_disk_def)
  obtain c' s1 where 1: "cache_sync (Some c) n ?s0 = Ok (Some c', s1)" "op_ok c' s1" "same_disk ?s0 s1"
    "aview (abs_cache s1) = aview (abs_cache ?s0)" "aheld (abs_cache s1) = aheld (abs_cache ?s0)"
    "apin (abs_cache s1) = insert n (apin (abs_cache ?s0))"
    "set (logged (header s1)) = insert n (set (logged (header ?s0)))"
    "rm c' = (if n \<in> set (logged (header ?s0)) then rm c else rm c - 1)"
    using op_sync [of c ?s0 n] 0 h n r sb0 by auto
  have "n \<in> aheld (abs_cache s1)" "n \<in> apin (abs_cache s1)" using 1 0 h by auto
  then obtain s' where 2: "cache_release n s1 = Ok s'" "op_ok c' s'" "same_disk s1 s'"
    "header s' = header s1" "aview (abs_cache s') = aview (abs_cache s1)"
    "aheld (abs_cache s') = aheld (abs_cache s1) - {n}"
    using op_release [OF 1(2)] by blast
  have "same_disk s s'" using 0 1(3) 2(3) same_disk_trans by blast
  with 1 2 0 show ?thesis by (intro exI [of _ c'] exI [of _ s1] exI [of _ s']) simp
qed

lemma take_block_spec:
  assumes ok: "op_ok c s" and rm: "2 \<le> rm c" and m: "m \<in> aheld (abs_cache s)"
    and geo: "m = bm_block (sblock s) b" "m \<notin> log_area (sblock s)" "m < 2 ^ 64"
      "b \<notin> log_area (sblock s)" "b < 2 ^ 64" "b \<noteq> m" "b \<notin> aheld (abs_cache s)"
    and b: "b = bc + idx * 8 + off" "bm_idx b = idx" "bm_off b = off"
  shows "\<exists>c' s'. take_block (Some c) m bc idx off s = Ok (b, Some c', s') \<and> op_ok c' s' \<and> same_store s s' \<and>
    \<not> bitlock s' \<and>
    aview (abs_cache s') = (mark_used (sblock s) (aview (abs_cache s)) b)(b := zero_block) \<and>
    aheld (abs_cache s') = aheld (abs_cache s) - {m} \<and> rm c \<le> rm c' + 2 \<and>
    set (logged (header s')) = insert b (insert m (set (logged (header s))))"
proof -
  have bd: "block_data m s = aview (abs_cache s) m" using abs_view_held [OF m] by simp
  let ?bs = "(block_data m s)[idx := block_data m s ! idx OR push_bit off 1]"
  have "length ?bs = BLOCK_SIZE" using op_view_length [OF ok] bd by simp
  from op_update [OF ok m this geo(2,3)] rm obtain c1 s1 s2 where
    1: "cache_sync (Some c) m (set_block_data m ?bs s) = Ok (Some c1, s1)" "cache_release m s1 = Ok s2"
      "op_ok c1 s2" "same_disk s s2" "aview (abs_cache s2) = (aview (abs_cache s))(m := ?bs)"
      "aheld (abs_cache s2) = aheld (abs_cache s) - {m}"
      "set (logged (header s2)) = insert m (set (logged (header s)))"
      "rm c1 = (if m \<in> set (logged (header s)) then rm c else rm c - 1)"
    by auto
  have sb2: "sblock s2 = sblock s" using 1(4) by (simp add: same_disk_def)
  have "b \<notin> aheld (abs_cache s2)" "b \<notin> log_area (sblock s2)" using geo 1(6) sb2 by auto
  from op_acquire [OF 1(3) this] obtain s3 where
    3: "cache_acquire b s2 = Ok s3" "op_ok c1 s3" "same_disk s2 s3" "header s3 = header s2"
      "aview (abs_cache s3) = aview (abs_cache s2)" "aheld (abs_cache s3) = insert b (aheld (abs_cache s2))"
    by blast
  have b3: "b \<in> aheld (abs_cache s3)" "b \<notin> log_area (sblock s3)"
    using 3(3,6) geo sb2 by (auto simp: same_disk_def)
  have "0 < rm c1" using 1(8) rm by (simp split: if_splits)
  with op_update [OF 3(2) b3(1) length_zero_block b3(2) geo(5)] obtain c2 s4 s5 where
    4: "cache_sync (Some c1) b (set_block_data b zero_block s3) = Ok (Some c2, s4)" "cache_release b s4 = Ok s5"
      "op_ok c2 s5" "same_disk s3 s5" "aview (abs_cache s5) = (aview (abs_cache s3))(b := zero_block)"
      "aheld (abs_cache s5) = aheld (abs_cache s3) - {b}"
      "set (logged (header s5)) = insert b (set (logged (header s3)))"
      "rm c2 = (if b \<in> set (logged (header s3)) then rm c1 else rm c1 - 1)"
    by auto
  have run: "take_block (Some c) m bc idx off s = Ok (b, Some c2, s5\<lparr>bitlock := False\<rparr>)"
    using 1(1,2) 3(1) 4(1,2) by (simp add: take_block_def Let_def b(1) unlock_bitmap_def)
  have "same_disk s s5" using 1(4) 3(3) 4(4) same_disk_trans by blast
  then have ss: "same_store s (s5\<lparr>bitlock := False\<rparr>)" by (simp add: same_disk_def same_store_def)
  have v: "aview (abs_cache s5) = (mark_used (sblock s) (aview (abs_cache s)) b)(b := zero_block)"
    by (simp add: 4(5) 3(5) 1(5) mark_used_def geo(1) [symmetric] b(2,3) bd)
  have hd: "aheld (abs_cache s5) = aheld (abs_cache s) - {m}" using 4(6) 3(6) 1(6) geo by auto
  have "rm c \<le> rm c2 + 2" using 4(8) 1(8) by (simp split: if_splits)
  with run ss v hd 4(3,7) 3(4) 1(7) show ?thesis
    by (intro exI [of _ c2] exI [of _ "s5\<lparr>bitlock := False\<rparr>"]) simp
qed

text \<open>The first free block from \<open>bc\<close> on.\<close>

definition least_free :: "super_block \<Rightarrow> (nat \<Rightarrow> u8 list) \<Rightarrow> nat \<Rightarrow> bool" where
  "least_free sb v b \<longleftrightarrow> b < num_blocks sb \<and> \<not> block_used sb v b \<and> (\<forall>c<b. block_used sb v c)"

lemma alloc_loop_spec:
  assumes "op_ok c s" and "2 \<le> rm c" and "bitmap_ok (sblock s) (aview (abs_cache s))"
    and "\<forall>d<num_blocks (sblock s). bm_block (sblock s) d \<notin> aheld (abs_cache s)" and "b \<notin> aheld (abs_cache s)"
    and "least_free (sblock s) (aview (abs_cache s)) b"
    and "BIT_PER_BLOCK dvd bc" and "bc \<le> b"
  shows "\<exists>c' s'. alloc_loop (Some c) bc s (num_blocks (sblock s)) = Ok (b, Some c', s') \<and> op_ok c' s' \<and>
    same_store s s' \<and> \<not> bitlock s' \<and>
    aview (abs_cache s') = (mark_used (sblock s) (aview (abs_cache s)) b)(b := zero_block) \<and>
    aheld (abs_cache s') = aheld (abs_cache s) \<and> rm c \<le> rm c' + 2 \<and>
    set (logged (header s')) = insert b (insert (bm_block (sblock s) b) (set (logged (header s))))"
  using assms
proof (induction "num_blocks (sblock s) - bc" arbitrary: bc s rule: less_induct)
  case less
  note ok = less.prems(1)
  let ?sb = "sblock s" and ?v = "aview (abs_cache s)"
  let ?m = "bitmap_start ?sb + bc div BIT_PER_BLOCK"
  have b: "b < num_blocks ?sb" "\<not> block_used ?sb ?v b" "\<forall>c<b. block_used ?sb ?v c"
    using less.prems(6) by (auto simp: least_free_def)
  have bc: "bc < num_blocks ?sb" using b(1) less.prems(8) by simp
  have bmb: "bm_block ?sb bc = ?m" by (simp add: bm_block_def)
  have mheld: "?m \<notin> aheld (abs_cache s)" using less.prems(4) bc bmb by metis
  have mlog: "?m \<notin> log_area ?sb" "?m < 2 ^ 64"
    using less.prems(3) bc bmb unfolding bitmap_ok_def by metis+
  obtain s1 where 1: "cache_acquire ?m s = Ok s1" "op_ok c s1" "same_disk s s1" "header s1 = header s"
    "aview (abs_cache s1) = ?v" "aheld (abs_cache s1) = insert ?m (aheld (abs_cache s))" "block_data ?m s1 = ?v ?m"
    using op_acquire [OF ok mheld mlog(1)] by auto
  have sb1: "sblock s1 = ?sb" using 1(3) by (simp add: same_disk_def)
  have unfold: "alloc_loop (Some c) bc s (num_blocks ?sb) =
      (case scan_bytes BLOCK_SIZE 0 (?v ?m) bc (num_blocks ?sb) of
         Some (idx, off) \<Rightarrow> take_block (Some c) ?m bc idx off s1
       | None \<Rightarrow> andthen (cache_release ?m s1) (\<lambda>s. alloc_loop (Some c) (bc + BIT_PER_BLOCK) s (num_blocks ?sb)))"
    using bc 1(1,7) by (subst alloc_loop.simps) (simp add: Let_def)
  note scan = scan_finds_least [OF less.prems(7) refl, of ?v ?sb "num_blocks ?sb"]
  show ?case
  proof (cases "scan_bytes BLOCK_SIZE 0 (?v ?m) bc (num_blocks ?sb)")
    case (Some ip)
    obtain idx off where ip: "ip = (idx, off)" by fastforce
    note S = scan(1) [OF Some [unfolded ip]]
    have eq: "b = bc + idx * 8 + off"
    proof (rule antisym)
      show "b \<le> bc + idx * 8 + off" using b(3) S by (meson not_less)
      show "bc + idx * 8 + off \<le> b" using b(2) S less.prems(8) by (meson not_less)
    qed
    note bs = block_split [OF less.prems(7), of idx off, folded eq]
    have blk: "bm_block ?sb b = ?m" "bm_idx b = idx" "bm_off b = off" using bs S by auto
    have g: "b \<notin> log_area ?sb" "b < 2 ^ 64" "b \<noteq> ?m"
    proof -
      show "b \<notin> log_area ?sb" "b < 2 ^ 64" using less.prems(3) b(1,2) by (auto simp: bitmap_ok_def)
      show "b \<noteq> ?m" using less.prems(3) b(1,2) bc bmb unfolding bitmap_ok_def by metis
    qed
    have "\<exists>c' s'. take_block (Some c) ?m bc idx off s1 = Ok (b, Some c', s') \<and> op_ok c' s' \<and> same_store s1 s' \<and>
      \<not> bitlock s' \<and> aview (abs_cache s') = (mark_used (sblock s1) (aview (abs_cache s1)) b)(b := zero_block) \<and>
      aheld (abs_cache s') = aheld (abs_cache s1) - {?m} \<and> rm c \<le> rm c' + 2 \<and>
      set (logged (header s')) = insert b (insert ?m (set (logged (header s1))))"
      by (rule take_block_spec [OF 1(2) less.prems(2)]) (use g mlog blk sb1 1(6) eq less.prems(5) in auto)
    then show ?thesis
      using unfold Some ip 1(4,5,6) sb1 mheld blk(1) same_store_trans [OF same_store_disk [OF 1(3)]] by auto
  next
    case None
    have far: "bc + BIT_PER_BLOCK \<le> b"
      using scan(2) [OF None less.prems(8)] b(1,2) by (meson not_less)
    have "?m \<in> aheld (abs_cache s1)" using 1(6) by simp
    moreover have "?m \<in> apin (abs_cache s1) \<or> aview (abs_cache s1) ?m = store s1 ?m"
    proof (cases "?m \<in> apin (abs_cache s)")
      case True
      have "apin (abs_cache s1) = set (logged (header s1))" "apin (abs_cache s) = set (logged (header s))"
        using 1(2) ok by (simp_all add: op_ok_def log_ok_def)
      with True 1(4) show ?thesis by simp
    next
      case False
      have "?v ?m = store s ?m"
        using view_clean [of s ?m] ok False mheld by (simp add: op_ok_def log_ok_def)
      then show ?thesis using 1(3,5) by (simp add: same_disk_def)
    qed
    ultimately obtain s2 where 2: "cache_release ?m s1 = Ok s2" "op_ok c s2" "same_disk s1 s2"
      "header s2 = header s1" "aview (abs_cache s2) = aview (abs_cache s1)"
      "aheld (abs_cache s2) = aheld (abs_cache s1) - {?m}"
      using op_release [OF 1(2)] by blast
    have sb2: "sblock s2 = ?sb" "aview (abs_cache s2) = ?v" "aheld (abs_cache s2) = aheld (abs_cache s)"
      using 2 sb1 1(5,6) mheld by (auto simp: same_disk_def)
    have "num_blocks (sblock s2) - (bc + BIT_PER_BLOCK) < num_blocks ?sb - bc"
      using bc by (simp add: sb2 fs_sizes)
    moreover have "BIT_PER_BLOCK dvd bc + BIT_PER_BLOCK" using less.prems(7) by simp
    ultimately have "\<exists>c' s'. alloc_loop (Some c) (bc + BIT_PER_BLOCK) s2 (num_blocks (sblock s2)) = Ok (b, Some c', s') \<and>
      op_ok c' s' \<and> same_store s2 s' \<and> \<not> bitlock s' \<and>
      aview (abs_cache s') = (mark_used (sblock s2) (aview (abs_cache s2)) b)(b := zero_block) \<and>
      aheld (abs_cache s') = aheld (abs_cache s2) \<and> rm c \<le> rm c' + 2 \<and>
      set (logged (header s')) = insert b (insert (bm_block (sblock s2) b) (set (logged (header s2))))"
      using less.hyps [of s2 "bc + BIT_PER_BLOCK"] 2(2) less.prems(2,3,4,5,6) sb2 far by simp
    then show ?thesis
      using unfold None 2(1,4) 1(4) sb2
        same_store_trans [OF same_store_trans [OF same_store_disk [OF 1(3)] same_store_disk [OF 2(3)]]]
      by auto
  qed
qed

lemma alloc_spec:
  assumes "op_ok c s" and "2 \<le> rm c" and "bitmap_ok (sblock s) (aview (abs_cache s))" and "\<not> bitlock s"
    and "\<forall>d<num_blocks (sblock s). bm_block (sblock s) d \<notin> aheld (abs_cache s)" and "b \<notin> aheld (abs_cache s)"
    and "least_free (sblock s) (aview (abs_cache s)) b"
  shows "\<exists>c' s'. cache_alloc (Some c) s = Ok (b, Some c', s') \<and> op_ok c' s' \<and> same_disk s s' \<and>
    aview (abs_cache s') = (mark_used (sblock s) (aview (abs_cache s)) b)(b := zero_block) \<and>
    aheld (abs_cache s') = aheld (abs_cache s) \<and> rm c \<le> rm c' + 2 \<and>
    set (logged (header s')) = insert b (insert (bm_block (sblock s) b) (set (logged (header s))))"
proof -
  let ?s = "s\<lparr>bitlock := True\<rparr>"
  have "\<exists>c' s'. alloc_loop (Some c) 0 ?s (num_blocks (sblock ?s)) = Ok (b, Some c', s') \<and> op_ok c' s' \<and>
    same_store ?s s' \<and> \<not> bitlock s' \<and>
    aview (abs_cache s') = (mark_used (sblock ?s) (aview (abs_cache ?s)) b)(b := zero_block) \<and>
    aheld (abs_cache s') = aheld (abs_cache ?s) \<and> rm c \<le> rm c' + 2 \<and>
    set (logged (header s')) = insert b (insert (bm_block (sblock ?s) b) (set (logged (header ?s))))"
    by (rule alloc_loop_spec) (use assms in simp_all)
  with assms(4) show ?thesis
    by (auto simp: cache_alloc_def lock_bitmap_def same_store_def same_disk_def)
qed

lemma free_spec:
  assumes ok: "op_ok c s" and rm: "1 \<le> rm c" and nb: "\<not> bitlock s"
    and m: "bm_block (sblock s) b \<notin> log_area (sblock s)" "bm_block (sblock s) b < 2 ^ 64"
      "bm_block (sblock s) b \<notin> aheld (abs_cache s)"
  shows "\<exists>c' s'. cache_free (Some c) b s = Ok (Some c', s') \<and> op_ok c' s' \<and> same_disk s s' \<and>
    aview (abs_cache s') = mark_free (sblock s) (aview (abs_cache s)) b \<and>
    aheld (abs_cache s') = aheld (abs_cache s) \<and> rm c \<le> rm c' + 1 \<and>
    set (logged (header s')) = insert (bm_block (sblock s) b) (set (logged (header s)))"
proof -
  let ?s = "s\<lparr>bitlock := True\<rparr>" and ?m = "bm_block (sblock s) b" and ?v = "aview (abs_cache s)"
  have "op_ok c ?s" "?m \<notin> aheld (abs_cache ?s)" "?m \<notin> log_area (sblock ?s)" using ok m by simp_all
  from op_acquire [OF this] obtain s1 where 1: "cache_acquire ?m ?s = Ok s1" "op_ok c s1" "same_disk ?s s1"
    "header s1 = header s" "aview (abs_cache s1) = ?v" "aheld (abs_cache s1) = insert ?m (aheld (abs_cache s))"
    "block_data ?m s1 = ?v ?m" by auto
  let ?bs = "(?v ?m)[bm_idx b := ?v ?m ! bm_idx b AND NOT (push_bit (bm_off b) 1)]"
  have "length ?bs = BLOCK_SIZE" using op_view_length [OF ok] by simp
  moreover have "?m \<in> aheld (abs_cache s1)" "?m \<notin> log_area (sblock s1)" using 1(3,6) m by (simp_all add: same_disk_def)
  ultimately obtain c' s2 s3 where
    2: "cache_sync (Some c) ?m (set_block_data ?m ?bs s1) = Ok (Some c', s2)" "cache_release ?m s2 = Ok s3"
      "op_ok c' s3" "same_disk s1 s3" "aview (abs_cache s3) = ?v(?m := ?bs)"
      "aheld (abs_cache s3) = aheld (abs_cache s1) - {?m}"
      "set (logged (header s3)) = insert ?m (set (logged (header s)))"
      "rm c' = (if ?m \<in> set (logged (header s)) then rm c else rm c - 1)"
    using op_update [OF 1(2), of ?m ?bs] m(2) rm 1(4,5) by auto
  have run: "cache_free (Some c) b s = Ok (Some c', s3\<lparr>bitlock := False\<rparr>)"
    using nb 1(1,7) 2(1,2)
    by (simp add: cache_free_def lock_bitmap_def unlock_bitmap_def Let_def bm_block_def bm_idx_def bm_off_def)
  have "same_disk s (s3\<lparr>bitlock := False\<rparr>)" using nb 1(3) 2(4) by (simp add: same_disk_def)
  moreover have "aheld (abs_cache s3) = aheld (abs_cache s)" using 2(6) 1(6) m(3) by auto
  moreover have "aview (abs_cache s3) = mark_free (sblock s) ?v b" by (simp add: 2(5) mark_free_def)
  moreover have "rm c \<le> rm c' + 1" using 2(8) by (simp split: if_splits)
  ultimately show ?thesis using run 2(3,7)
    by (intro exI [of _ c'] exI [of _ "s3\<lparr>bitlock := False\<rparr>"]) simp
qed

lemma alloc_loop_full:
  assumes "op_ok c s" and "bitmap_ok (sblock s) (aview (abs_cache s))" and "aheld (abs_cache s) = {}"
    and "\<forall>b<num_blocks (sblock s). block_used (sblock s) (aview (abs_cache s)) b" and "BIT_PER_BLOCK dvd bc"
  shows "alloc_loop (Some c) bc s (num_blocks (sblock s)) = Panic"
  using assms
proof (induction "num_blocks (sblock s) - bc" arbitrary: bc s rule: less_induct)
  case less
  note ok = less.prems(1)
  let ?sb = "sblock s" and ?v = "aview (abs_cache s)"
  let ?m = "bitmap_start ?sb + bc div BIT_PER_BLOCK"
  show ?case
  proof (cases "bc < num_blocks ?sb")
    case False
    then show ?thesis by (subst alloc_loop.simps) simp
  next
    case bc: True
    have "?m \<notin> log_area ?sb" using less.prems(2) bc by (auto simp: bitmap_ok_def bm_block_def)
    then obtain s1 where 1: "cache_acquire ?m s = Ok s1" "op_ok c s1" "same_disk s s1" "header s1 = header s"
      "aview (abs_cache s1) = ?v" "aheld (abs_cache s1) = {?m}" "block_data ?m s1 = ?v ?m"
      "apin (abs_cache s1) = apin (abs_cache s)"
      using op_acquire [OF ok, of ?m] less.prems(3) by auto
    have none: "scan_bytes BLOCK_SIZE 0 (?v ?m) bc (num_blocks ?sb) = None"
    proof (rule ccontr)
      assume "scan_bytes BLOCK_SIZE 0 (?v ?m) bc (num_blocks ?sb) \<noteq> None"
      then obtain i p where "scan_bytes BLOCK_SIZE 0 (?v ?m) bc (num_blocks ?sb) = Some (i, p)" by auto
      from scan_finds_least(1) [OF less.prems(5) _ this, of ?v ?sb] less.prems(4) show False by blast
    qed
    have "?m \<in> apin (abs_cache s1) \<or> aview (abs_cache s1) ?m = store s1 ?m"
      using view_clean [of s ?m] ok 1(3,5,8) less.prems(3) by (auto simp: op_ok_def log_ok_def same_disk_def)
    then obtain s2 where 2: "cache_release ?m s1 = Ok s2" "op_ok c s2" "same_disk s1 s2"
      "aview (abs_cache s2) = aview (abs_cache s1)" "aheld (abs_cache s2) = aheld (abs_cache s1) - {?m}"
      using op_release [OF 1(2), of ?m] 1(6) by auto
    have sb2: "sblock s2 = ?sb" "aview (abs_cache s2) = ?v" "aheld (abs_cache s2) = {}"
      using 1(3,5,6) 2(3,4,5) by (auto simp: same_disk_def)
    have "alloc_loop (Some c) (bc + BIT_PER_BLOCK) s2 (num_blocks (sblock s2)) = Panic"
      using less.hyps [of s2 "bc + BIT_PER_BLOCK"] 2(2) less.prems(2,4,5) bc
      by (simp add: sb2 fs_sizes)
    then show ?thesis using bc 1(1,7) none 2(1) sb2(1)
      by (subst alloc_loop.simps) (simp add: Let_def andthen_eq_Panic)
  qed
qed

section \<open>Room in the log\<close>

lemma sem_ok_wait: "wait_sem m = Ok m' \<Longrightarrow> sem_ok m \<Longrightarrow> sem_ok m'"
  by (auto simp: wait_sem_eq_Ok sem_ok_def)

lemma begin_op_loop_Ok:
  assumes "begin_op_loop s = Ok s'" and "loglock s"
  shows "\<exists>m. s' = s\<lparr>log_sem := m, outstanding := outstanding s + 1\<rparr> \<and> \<not> log_full s \<and>
    (sem_ok (log_sem s) \<longrightarrow> sem_ok m)"
  using assms
proof (induction s rule: begin_op_loop.induct)
  case (1 s)
  show ?case
  proof (cases "log_full s")
    case False
    with 1(2) have "s' = s\<lparr>outstanding := outstanding s + 1\<rparr>" by (simp add: begin_op_loop.simps)
    then have "s' = s\<lparr>log_sem := log_sem s, outstanding := outstanding s + 1\<rparr>" by (cases s) simp
    with False show ?thesis by blast
  next
    case True
    with 1(2) obtain m t where t: "wait_sem (log_sem (unlock_log s)) = Ok m"
      "lock_log ((unlock_log s)\<lparr>log_sem := m\<rparr>) = Ok t" "begin_op_loop t = Ok s'"
      by (subst (asm) begin_op_loop.simps) auto
    have tt: "t = s\<lparr>log_sem := m\<rparr>" using t(2) 1(3) by (cases s) (auto simp: lock_log_def unlock_log_def)
    have "loglock t" using tt 1(3) by simp
    from 1(1) [OF True t this] obtain m' where
      "s' = t\<lparr>log_sem := m', outstanding := outstanding t + 1\<rparr>" "\<not> log_full t" by blast
    then have False using tt True by (simp add: log_full_def)
    then show ?thesis ..
  qed
qed

text \<open>
  An operation starts only when its ten blocks fit into the log, and from then on the log
  is never the reason for a panic: the room for all running operations is reserved.
\<close>

definition ops_room :: "cache_sys \<Rightarrow> op_context list \<Rightarrow> bool" where
  "ops_room s cs \<longleftrightarrow> int (length cs) = outstanding s \<and> (\<forall>c\<in>set cs. rm c \<le> OP_MAX_NUM_BLOCKS) \<and>
     hnum (header s) + sum_list (map rm cs) \<le> LOG_MAX_SIZE"

lemma begin_op_spec:
  assumes "log_ok s" and "cache_begin_op s = Ok (c, s')"
  shows "log_ok s' \<and> rm c = OP_MAX_NUM_BLOCKS \<and> outstanding s' = outstanding s + 1 \<and>
    abs_cache s' = (abs_cache s)\<lparr>aout := outstanding s + 1, asem := log_sem s'\<rparr> \<and>
    int (hnum (header s)) + (outstanding s + 1) * int OP_MAX_NUM_BLOCKS \<le> int LOG_MAX_SIZE"
proof -
  have nl: "\<not> loglock s" using assms(1) by (simp add: log_ok_def)
  let ?s = "s\<lparr>loglock := True\<rparr>"
  obtain t where t: "begin_op_loop ?s = Ok t" "c = \<lparr>rm = OP_MAX_NUM_BLOCKS\<rparr>" "s' = unlock_log t"
    using assms(2) nl by (auto simp: cache_begin_op_def lock_log_def)
  from begin_op_loop_Ok [OF t(1)] obtain m where
    m: "t = ?s\<lparr>log_sem := m, outstanding := outstanding s + 1\<rparr>" "\<not> log_full ?s"
      "sem_ok (log_sem s) \<longrightarrow> sem_ok m" by auto
  have s': "s' = s\<lparr>log_sem := m, outstanding := outstanding s + 1\<rparr>"
    using nl by (cases s) (simp add: t(3) m(1) unlock_log_def)
  have "log_ok s'" using assms(1) m(3) by (simp add: s' log_ok_def)
  with m(2) t(2) s' show ?thesis by (simp add: log_full_def)
qed

lemma sum_rm_bound: "\<forall>c\<in>set cs. rm c \<le> k \<Longrightarrow> sum_list (map rm cs) \<le> length cs * k"
  by (induction cs) auto

lemma begin_op_room:
  assumes "log_ok s" and "ops_room s cs" and "cache_begin_op s = Ok (c, s')"
  shows "ops_room s' (c # cs)"
proof -
  note b = begin_op_spec [OF assms(1,3)]
  have h: "header s' = header s" using arg_cong [OF b [THEN conjunct2, THEN conjunct2, THEN conjunct2, THEN conjunct1], of ahdr] by simp
  have "sum_list (map rm cs) \<le> length cs * OP_MAX_NUM_BLOCKS"
    using assms(2) sum_rm_bound unfolding ops_room_def by blast
  moreover have "int (hnum (header s)) + (int (length cs) + 1) * int OP_MAX_NUM_BLOCKS \<le> int LOG_MAX_SIZE"
    using b assms(2) by (simp add: ops_room_def)
  then have "hnum (header s) + (length cs + 1) * OP_MAX_NUM_BLOCKS \<le> LOG_MAX_SIZE"
    by (metis (mono_tags) of_nat_1 of_nat_add of_nat_le_iff of_nat_mult)
  ultimately show ?thesis using assms(2) b h by (simp add: ops_room_def)
qed

lemma ops_room_op_ok: "log_ok s \<Longrightarrow> ops_room s cs \<Longrightarrow> c \<in> set cs \<Longrightarrow> op_ok c s"
  using member_le_sum_list [of "rm c" "map rm cs"] by (auto simp: op_ok_def ops_room_def)

lemma begin_op_returns:
  assumes "log_ok s" and "int (hnum (header s)) + (outstanding s + 1) * int OP_MAX_NUM_BLOCKS \<le> int LOG_MAX_SIZE"
  shows "\<exists>s'. cache_begin_op s = Ok (\<lparr>rm = OP_MAX_NUM_BLOCKS\<rparr>, s')"
proof -
  have "\<not> log_full (s\<lparr>loglock := True\<rparr>)" using assms by (simp add: log_full_def log_ok_def)
  then have "begin_op_loop (s\<lparr>loglock := True\<rparr>) = Ok (s\<lparr>loglock := True, outstanding := outstanding s + 1\<rparr>)"
    by (subst begin_op_loop.simps) simp
  then show ?thesis using assms(1) by (simp add: cache_begin_op_def lock_log_def log_ok_def)
qed

text \<open>When other operations are still running, \<^verbatim>\<open>cache_end_op\<close> takes back the unit it has just posted.\<close>

lemma end_op_not_last:
  assumes "log_ok s" and "1 < outstanding s" and "0 \<le> sval (log_sem s)"
  shows "\<exists>s'. cache_end_op s = Ok s' \<and> log_sem s' = log_sem s \<and> store s' = store s \<and> wlog s' = wlog s \<and>
    outstanding s' = outstanding s - 1 \<and> header s' = header s"
proof -
  let ?m = "log_sem s"
  have p: "post_sem ?m = Ok (?m\<lparr>sval := sval ?m + 1\<rparr>)" using assms(3) by (rule post_sem_idle)
  have w: "wait_sem (?m\<lparr>sval := sval ?m + 1\<rparr>) = Ok (?m\<lparr>sval := sval ?m\<rparr>)"
    using assms(3) by (simp add: wait_sem_simps)
  have "?m\<lparr>sval := sval ?m\<rparr> = ?m" by (cases ?m) simp
  with p w assms(1,2) show ?thesis
    by (simp add: cache_end_op_def lock_log_def unlock_log_def log_ok_def Let_def)
qed

end
