(* ===== verification/Sched.thy ===== *)
theory Sched
  imports Sem
begin

text \<open>
  \<^verbatim>\<open>src/kernel/sched.c\<close> and the per-CPU timers it uses (\<^verbatim>\<open>src/kernel/cpu.c\<close>).  A process
  is named by a number; the scheduler sees its state, its waiting time and its killed flag.
  The run queue \<open>rq\<close> is the list behind the sentinel \<^verbatim>\<open>rq\<close> in list order.  The loop of
  \<^verbatim>\<open>pick_next\<close> does not skip the sentinel (\<open>for_in_list_ring\<close> of theory \<open>ListNode\<close>), so it
  also reads the memory around it as if it were a process: that pseudo process has the
  number \<open>RQ_SHADOW\<close>.
\<close>

section \<open>Data\<close>

datatype procstate = UNUSED | RUNNABLE | RUNNING | SLEEPING | DEEPSLEEPING | ZOMBIE

record sproc =
  state :: procstate
  wait_time :: int
  killed :: bool

record ktimer =
  triggered :: bool
  elapse :: u64
  tkey :: u64
  queued :: bool

type_synonym cpuid = nat

record sched_sys =
  procs :: "tid \<Rightarrow> sproc"
  rq :: "tid list"
  rqlock :: spinlock
  thisproc :: "cpuid \<Rightarrow> tid"
  idle :: "cpuid \<Rightarrow> tid"
  sched_timer :: "cpuid \<Rightarrow> ktimer"

definition RQ_SHADOW :: tid where
  "RQ_SHADOW = 0"

definition NCPU :: nat where
  "NCPU = 4"

definition upd_proc :: "tid \<Rightarrow> (sproc \<Rightarrow> sproc) \<Rightarrow> sched_sys \<Rightarrow> sched_sys" where
  "upd_proc p f s = s\<lparr>procs := (procs s)(p := f (procs s p))\<rparr>"

lemma upd_proc_simps [simp]:
  "procs (upd_proc p f s) = (procs s)(p := f (procs s p))"
  "rq (upd_proc p f s) = rq s" "rqlock (upd_proc p f s) = rqlock s"
  "thisproc (upd_proc p f s) = thisproc s" "idle (upd_proc p f s) = idle s"
  "sched_timer (upd_proc p f s) = sched_timer s"
  by (simp_all add: upd_proc_def)

section \<open>Timers (cpu.c)\<close>

text \<open>
  Membership in the CPU's timer tree is the flag \<open>queued\<close>; \<open>now\<close> is the reading of
  \<^verbatim>\<open>get_timestamp_ms\<close>.  Inserting a timer that is still in the tree is the failed
  \<^verbatim>\<open>ASSERT(0 == _rb_insert(...))\<close>.
\<close>

definition set_cpu_timer :: "u64 \<Rightarrow> ktimer \<Rightarrow> ktimer outcome" where
  "set_cpu_timer now t =
     (let t = t\<lparr>triggered := False, tkey := now + elapse t\<rparr>
      in andthen (assert_that (\<not> queued t)) (\<lambda>_. Ok (t\<lparr>queued := True\<rparr>)))"

definition cancel_cpu_timer :: "ktimer \<Rightarrow> ktimer outcome" where
  "cancel_cpu_timer t = andthen (assert_that (\<not> triggered t)) (\<lambda>_. Ok (t\<lparr>queued := False\<rparr>))"

section \<open>The scheduler\<close>

definition acquire_sched_lock :: "sched_sys \<Rightarrow> sched_sys outcome" where
  "acquire_sched_lock s = andthen (acquire_spinlock (rqlock s)) (\<lambda>l. Ok (s\<lparr>rqlock := l\<rparr>))"

definition release_sched_lock :: "sched_sys \<Rightarrow> sched_sys" where
  "release_sched_lock s = s\<lparr>rqlock := release_spinlock (rqlock s)\<rparr>"

definition is_zombie :: "tid \<Rightarrow> sched_sys \<Rightarrow> (bool \<times> sched_sys) outcome" where
  "is_zombie p s = andthen (acquire_sched_lock s) (\<lambda>s.
     let r = (state (procs s p) = ZOMBIE) in Ok (r, release_sched_lock s))"

definition is_unused :: "tid \<Rightarrow> sched_sys \<Rightarrow> (bool \<times> sched_sys) outcome" where
  "is_unused p s = andthen (acquire_sched_lock s) (\<lambda>s.
     let r = (state (procs s p) = UNUSED) in Ok (r, release_sched_lock s))"

definition activate_proc :: "tid \<Rightarrow> bool \<Rightarrow> sched_sys \<Rightarrow> (bool \<times> sched_sys) outcome" where
  "activate_proc p onalert s = andthen (acquire_sched_lock s) (\<lambda>s.
     let st = state (procs s p)
     in if st = RUNNING \<or> st = RUNNABLE \<or> st = ZOMBIE \<or> (st = DEEPSLEEPING \<and> onalert)
        then Ok (False, release_sched_lock s)
        else if st = SLEEPING \<or> st = UNUSED \<or> (st = DEEPSLEEPING \<and> \<not> onalert)
        then let s = upd_proc p (\<lambda>q. q\<lparr>state := RUNNABLE, wait_time := 0\<rparr>) s;
                 s = s\<lparr>rq := p # rq s\<rparr>
             in Ok (True, release_sched_lock s)
        else Panic)"

definition requeue :: "cpuid \<Rightarrow> procstate \<Rightarrow> sched_sys \<Rightarrow> sched_sys" where
  "requeue c new_state s =
     (let p = thisproc s c;
          s = (if p \<noteq> idle s c \<and> (state (procs s p) = RUNNING \<or> state (procs s p) = RUNNABLE)
               then s\<lparr>rq := remove1 p (rq s)\<rparr> else s);
          s = upd_proc p (\<lambda>q. q\<lparr>state := new_state\<rparr>) s
      in if p \<noteq> idle s c \<and> (new_state = RUNNING \<or> new_state = RUNNABLE)
         then (let s = upd_proc p (\<lambda>q. q\<lparr>wait_time := 0\<rparr>) s in s\<lparr>rq := p # rq s\<rparr>)
         else s)"

definition update_this_state :: "cpuid \<Rightarrow> u64 \<Rightarrow> procstate \<Rightarrow> sched_sys \<Rightarrow> sched_sys outcome" where
  "update_this_state c now new_state s =
     (let s = requeue c new_state s
      in andthen (if \<not> triggered (sched_timer s c) then cancel_cpu_timer (sched_timer s c)
                  else Ok (sched_timer s c)) (\<lambda>t.
         andthen (set_cpu_timer now t) (\<lambda>t. Ok (s\<lparr>sched_timer := (sched_timer s)(c := t)\<rparr>))))"

text \<open>
  The loop of \<^verbatim>\<open>pick_next\<close>: the processes as seen with their new waiting times, the largest
  waiting time so far and the process that has it.
\<close>

fun pick_loop :: "tid list \<Rightarrow> (tid \<Rightarrow> sproc) \<Rightarrow> int \<Rightarrow> tid option \<Rightarrow> (tid \<Rightarrow> sproc) \<times> tid option" where
  "pick_loop [] ps max_wait_time chosen = (ps, chosen)"
| "pick_loop (p # qs) ps max_wait_time chosen =
     (if state (ps p) = RUNNABLE
      then let ps = ps(p := (ps p)\<lparr>wait_time := wait_time (ps p) + 1\<rparr>)
           in if wait_time (ps p) > max_wait_time
              then pick_loop qs ps (wait_time (ps p)) (Some p)
              else pick_loop qs ps max_wait_time chosen
      else pick_loop qs ps max_wait_time chosen)"

definition pick_next :: "cpuid \<Rightarrow> sched_sys \<Rightarrow> tid \<times> sched_sys" where
  "pick_next c s =
     (case pick_loop (rq s @ [RQ_SHADOW]) (procs s) (- 1) None of (ps, chosen) \<Rightarrow>
        ((case chosen of Some p \<Rightarrow> p | None \<Rightarrow> idle s c), s\<lparr>procs := ps\<rparr>))"

definition update_this_proc :: "cpuid \<Rightarrow> tid \<Rightarrow> sched_sys \<Rightarrow> sched_sys" where
  "update_this_proc c p s = s\<lparr>thisproc := (thisproc s)(c := p)\<rparr>"

text \<open>
  \<^verbatim>\<open>sched\<close>, called with the scheduler lock held: the state in which the chosen process goes
  on (after \<^verbatim>\<open>swtch\<close>, which the model performs by the change of \<open>thisproc\<close>), with the lock
  released.
\<close>

definition sched :: "cpuid \<Rightarrow> u64 \<Rightarrow> procstate \<Rightarrow> sched_sys \<Rightarrow> sched_sys outcome" where
  "sched c now new_state s =
     (let this = thisproc s c
      in andthen (assert_that (state (procs s this) = RUNNING)) (\<lambda>_.
         if killed (procs s this) \<and> new_state \<noteq> ZOMBIE then Ok (release_sched_lock s)
         else andthen (update_this_state c now new_state s) (\<lambda>s.
           case pick_next c s of (nx, s) \<Rightarrow>
             let s = update_this_proc c nx s
             in andthen (assert_that (state (procs s nx) = RUNNABLE)) (\<lambda>_.
                let s = upd_proc nx (\<lambda>q. q\<lparr>state := RUNNING\<rparr>) s
                in Ok (release_sched_lock s)))))"

definition yield :: "cpuid \<Rightarrow> u64 \<Rightarrow> sched_sys \<Rightarrow> sched_sys outcome" where
  "yield c now s = andthen (acquire_sched_lock s) (\<lambda>s. sched c now RUNNABLE s)"

definition sched_timer_handler :: "cpuid \<Rightarrow> u64 \<Rightarrow> sched_sys \<Rightarrow> sched_sys outcome" where
  "sched_timer_handler c now s =
     (let s = s\<lparr>sched_timer := (sched_timer s)(c := (sched_timer s c)\<lparr>triggered := False\<rparr>)\<rparr>
      in andthen (acquire_sched_lock s) (\<lambda>s. sched c now RUNNABLE s))"

section \<open>The choice of the next process\<close>

lemma pick_loop_procs:
  "distinct qs \<Longrightarrow> fst (pick_loop qs ps m ch) =
    (\<lambda>p. if p \<in> set qs \<and> state (ps p) = RUNNABLE
         then (ps p)\<lparr>wait_time := wait_time (ps p) + 1\<rparr> else ps p)"
  by (induction qs ps m ch rule: pick_loop.induct) (auto simp: Let_def fun_eq_iff)

text \<open>What the loop chooses: a runnable member whose waiting time is maximal.\<close>

lemma pick_loop_chosen:
  assumes "distinct qs" and "pick_loop qs ps m ch = (ps', ch')"
  shows "(ch' = ch \<and> (\<forall>p\<in>set qs. state (ps p) = RUNNABLE \<longrightarrow> wait_time (ps p) + 1 \<le> m)) \<or>
    (\<exists>p\<in>set qs. ch' = Some p \<and> state (ps p) = RUNNABLE \<and> m < wait_time (ps p) + 1 \<and>
      (\<forall>q\<in>set qs. state (ps q) = RUNNABLE \<longrightarrow> wait_time (ps q) \<le> wait_time (ps p)))"
  using assms
proof (induction qs arbitrary: ps m ch)
  case Nil
  then show ?case by simp
next
  case (Cons p qs)
  define ps1 where "ps1 = ps(p := (ps p)\<lparr>wait_time := wait_time (ps p) + 1\<rparr>)"
  have d: "distinct qs" and pn: "p \<notin> set qs" using Cons.prems(1) by auto
  have same: "state (ps1 q) = state (ps q)" "wait_time (ps1 q) = wait_time (ps q)"
    if "q \<in> set qs" for q
    using that pn by (auto simp: ps1_def)
  consider (other) "state (ps p) \<noteq> RUNNABLE"
    | (better) "state (ps p) = RUNNABLE" "m < wait_time (ps p) + 1"
    | (worse) "state (ps p) = RUNNABLE" "wait_time (ps p) + 1 \<le> m" by linarith
  then show ?case
  proof cases
    case other
    then have "pick_loop qs ps m ch = (ps', ch')" using Cons.prems(2) by simp
    from Cons.IH [OF d this] other show ?thesis by auto
  next
    case better
    then have "pick_loop qs ps1 (wait_time (ps p) + 1) (Some p) = (ps', ch')"
      using Cons.prems(2) by (simp add: Let_def ps1_def)
    from Cons.IH [OF d this] show ?thesis
    proof
      assume "ch' = Some p \<and> (\<forall>q\<in>set qs. state (ps1 q) = RUNNABLE \<longrightarrow>
        wait_time (ps1 q) + 1 \<le> wait_time (ps p) + 1)"
      with better same show ?thesis by simp
    next
      assume "\<exists>q\<in>set qs. ch' = Some q \<and> state (ps1 q) = RUNNABLE \<and>
        wait_time (ps p) + 1 < wait_time (ps1 q) + 1 \<and>
        (\<forall>r\<in>set qs. state (ps1 r) = RUNNABLE \<longrightarrow> wait_time (ps1 r) \<le> wait_time (ps1 q))"
      then obtain q where "q \<in> set qs" "ch' = Some q" "state (ps q) = RUNNABLE"
        "wait_time (ps p) < wait_time (ps q)"
        "\<forall>r\<in>set qs. state (ps r) = RUNNABLE \<longrightarrow> wait_time (ps r) \<le> wait_time (ps q)"
        using same by auto
      with better show ?thesis by (intro disjI2 bexI [of _ q]) auto
    qed
  next
    case worse
    then have "pick_loop qs ps1 m ch = (ps', ch')"
      using Cons.prems(2) by (simp add: Let_def ps1_def)
    from Cons.IH [OF d this] show ?thesis
    proof
      assume "ch' = ch \<and> (\<forall>q\<in>set qs. state (ps1 q) = RUNNABLE \<longrightarrow> wait_time (ps1 q) + 1 \<le> m)"
      with worse same show ?thesis by simp
    next
      assume "\<exists>q\<in>set qs. ch' = Some q \<and> state (ps1 q) = RUNNABLE \<and> m < wait_time (ps1 q) + 1 \<and>
        (\<forall>r\<in>set qs. state (ps1 r) = RUNNABLE \<longrightarrow> wait_time (ps1 r) \<le> wait_time (ps1 q))"
      then obtain q where "q \<in> set qs" "ch' = Some q" "state (ps q) = RUNNABLE"
        "m < wait_time (ps q) + 1"
        "\<forall>r\<in>set qs. state (ps r) = RUNNABLE \<longrightarrow> wait_time (ps r) \<le> wait_time (ps q)"
        using same by auto
      with worse show ?thesis by (intro disjI2 bexI [of _ q]) auto
    qed
  qed
qed

section \<open>The invariant of the scheduler\<close>

definition idles :: "sched_sys \<Rightarrow> tid set" where
  "idles s = idle s ` {..<NCPU}"

text \<open>
  The run queue holds the processes that are runnable or running and are not an idle
  process, each once; every CPU runs one process, no two CPUs the same one, and nothing
  else is marked running; an idle process never sleeps and runs on its own CPU only; a
  timer that has fired is in no tree; the memory before the sentinel of the run queue does
  not look like a runnable process.
\<close>

definition sched_inv :: "sched_sys \<Rightarrow> bool" where
  "sched_inv s \<longleftrightarrow>
     distinct (rq s) \<and>
     (\<forall>p. p \<in> set (rq s) \<longleftrightarrow> p \<notin> idles s \<and> (state (procs s p) = RUNNABLE \<or> state (procs s p) = RUNNING)) \<and>
     (\<forall>p. state (procs s p) = RUNNING \<longleftrightarrow> (\<exists>c<NCPU. thisproc s c = p)) \<and>
     inj_on (thisproc s) {..<NCPU} \<and> inj_on (idle s) {..<NCPU} \<and>
     (\<forall>c<NCPU. state (procs s (idle s c)) = RUNNING \<or> state (procs s (idle s c)) = RUNNABLE) \<and>
     (\<forall>c<NCPU. \<forall>d<NCPU. thisproc s c = idle s d \<longrightarrow> c = d) \<and>
     (\<forall>p. 0 \<le> wait_time (procs s p)) \<and>
     (\<forall>c<NCPU. triggered (sched_timer s c) \<longrightarrow> \<not> queued (sched_timer s c)) \<and>
     state (procs s RQ_SHADOW) \<noteq> RUNNABLE \<and> state (procs s RQ_SHADOW) \<noteq> RUNNING \<and> RQ_SHADOW \<notin> idles s"

lemma sched_invD:
  assumes "sched_inv s"
  shows "distinct (rq s)"
    and "p \<in> set (rq s) \<longleftrightarrow> p \<notin> idles s \<and> (state (procs s p) = RUNNABLE \<or> state (procs s p) = RUNNING)"
    and "state (procs s p) = RUNNING \<longleftrightarrow> (\<exists>c<NCPU. thisproc s c = p)"
    and "inj_on (thisproc s) {..<NCPU}" and "inj_on (idle s) {..<NCPU}"
    and "c < NCPU \<Longrightarrow> state (procs s (idle s c)) = RUNNING \<or> state (procs s (idle s c)) = RUNNABLE"
    and "c < NCPU \<Longrightarrow> d < NCPU \<Longrightarrow> thisproc s c = idle s d \<Longrightarrow> c = d"
    and "0 \<le> wait_time (procs s p)"
    and "c < NCPU \<Longrightarrow> triggered (sched_timer s c) \<Longrightarrow> \<not> queued (sched_timer s c)"
    and "state (procs s RQ_SHADOW) \<noteq> RUNNABLE" and "state (procs s RQ_SHADOW) \<noteq> RUNNING"
    and "RQ_SHADOW \<notin> idles s"
  using assms unfolding sched_inv_def by blast+

definition aged :: "tid list \<Rightarrow> (tid \<Rightarrow> sproc) \<Rightarrow> tid \<Rightarrow> sproc" where
  "aged qs ps = (\<lambda>p. if p \<in> set qs \<and> state (ps p) = RUNNABLE
                     then (ps p)\<lparr>wait_time := wait_time (ps p) + 1\<rparr> else ps p)"

lemma aged_simps [simp]:
  "state (aged qs ps p) = state (ps p)" "killed (aged qs ps p) = killed (ps p)"
  "wait_time (aged qs ps p) =
     (if p \<in> set qs \<and> state (ps p) = RUNNABLE then wait_time (ps p) + 1 else wait_time (ps p))"
  by (simp_all add: aged_def)

lemma pick_next_spec:
  assumes d: "distinct (rq s)" and sh: "RQ_SHADOW \<notin> set (rq s)"
    and nr: "state (procs s RQ_SHADOW) \<noteq> RUNNABLE"
    and nn: "\<And>p. 0 \<le> wait_time (procs s p)"
    and pick: "pick_next c s = (nx, s')"
  shows "s' = s\<lparr>procs := aged (rq s) (procs s)\<rparr>"
    and "(nx \<in> set (rq s) \<and> state (procs s nx) = RUNNABLE \<and>
        (\<forall>q\<in>set (rq s). state (procs s q) = RUNNABLE \<longrightarrow> wait_time (procs s q) \<le> wait_time (procs s nx))) \<or>
      (nx = idle s c \<and> (\<forall>q\<in>set (rq s). state (procs s q) \<noteq> RUNNABLE))"
proof -
  let ?qs = "rq s @ [RQ_SHADOW]"
  obtain ps ch where lp: "pick_loop ?qs (procs s) (- 1) None = (ps, ch)" by fastforce
  have dq: "distinct ?qs" using d sh by simp
  have "ps = aged ?qs (procs s)"
    using pick_loop_procs [OF dq, of "procs s" "- 1" None] lp by (simp add: aged_def fun_eq_iff)
  then have ps: "ps = aged (rq s) (procs s)" using nr by (auto simp: aged_def fun_eq_iff)
  from pick lp ps show "s' = s\<lparr>procs := aged (rq s) (procs s)\<rparr>"
    by (auto simp: pick_next_def)
  have nx: "nx = (case ch of Some p \<Rightarrow> p | None \<Rightarrow> idle s c)"
    using pick lp by (simp add: pick_next_def)
  from pick_loop_chosen [OF dq lp] show
    "(nx \<in> set (rq s) \<and> state (procs s nx) = RUNNABLE \<and>
        (\<forall>q\<in>set (rq s). state (procs s q) = RUNNABLE \<longrightarrow> wait_time (procs s q) \<le> wait_time (procs s nx))) \<or>
      (nx = idle s c \<and> (\<forall>q\<in>set (rq s). state (procs s q) \<noteq> RUNNABLE))"
  proof
    assume n: "ch = None \<and> (\<forall>p\<in>set ?qs. state (procs s p) = RUNNABLE \<longrightarrow> wait_time (procs s p) + 1 \<le> - 1)"
    have "state (procs s q) \<noteq> RUNNABLE" if "q \<in> set (rq s)" for q
    proof
      assume "state (procs s q) = RUNNABLE"
      with n that have "wait_time (procs s q) + 1 \<le> - 1" by auto
      with nn [of q] show False by simp
    qed
    with n nx show ?thesis by simp
  qed (use nx nr in auto)
qed

lemma idles_simp: "p \<in> idles s \<longleftrightarrow> (\<exists>c<NCPU. idle s c = p)"
  by (auto simp: idles_def)

lemma this_idle:
  assumes "sched_inv s" and "c < NCPU"
  shows "thisproc s c \<in> idles s \<longleftrightarrow> thisproc s c = idle s c"
  using sched_invD(7) [OF assms] assms(2) by (metis idles_simp)

lemma update_this_state_Ok:
  assumes "sched_inv s" and "c < NCPU"
  shows "\<exists>t. update_this_state c now st s =
      Ok ((requeue c st s)\<lparr>sched_timer := (sched_timer s)(c := t)\<rparr>) \<and> queued t \<and> \<not> triggered t"
proof -
  have "sched_timer (requeue c st s) = sched_timer s" by (simp add: requeue_def Let_def)
  with sched_invD(9) [OF assms] show ?thesis
    by (auto simp: update_this_state_def Let_def cancel_cpu_timer_def set_cpu_timer_def)
qed

lemma requeue_simps:
  assumes "st \<noteq> RUNNING"
  shows "procs (requeue c st s) = (procs s)(thisproc s c := (procs s (thisproc s c))\<lparr>state := st,
      wait_time := (if thisproc s c \<noteq> idle s c \<and> st = RUNNABLE then 0
                    else wait_time (procs s (thisproc s c)))\<rparr>)"
    and "rqlock (requeue c st s) = rqlock s" and "thisproc (requeue c st s) = thisproc s"
    and "idle (requeue c st s) = idle s"
  using assms by (simp_all add: requeue_def Let_def fun_eq_iff)

lemma requeue_rq:
  assumes "sched_inv s" and "c < NCPU" and "st \<noteq> RUNNING"
  shows "distinct (rq (requeue c st s))"
    and "p \<in> set (rq (requeue c st s)) \<longleftrightarrow>
      (p \<in> set (rq s) \<and> p \<noteq> thisproc s c) \<or> (p = thisproc s c \<and> p \<noteq> idle s c \<and> st = RUNNABLE)"
proof -
  have d: "distinct (rq s)" by (rule sched_invD(1) [OF assms(1)])
  have run: "state (procs s (thisproc s c)) = RUNNING"
    using sched_invD(3) [OF assms(1)] assms(2) by blast
  have "thisproc s c = idle s c \<Longrightarrow> thisproc s c \<notin> set (rq s)"
    using sched_invD(2) [OF assms(1)] this_idle [OF assms(1,2)] by blast
  with d run assms(3) show "distinct (rq (requeue c st s))"
    and "p \<in> set (rq (requeue c st s)) \<longleftrightarrow>
      (p \<in> set (rq s) \<and> p \<noteq> thisproc s c) \<or> (p = thisproc s c \<and> p \<noteq> idle s c \<and> st = RUNNABLE)"
    by (auto simp: requeue_def Let_def)
qed

section \<open>sched never fails an assertion and keeps the invariant\<close>

text \<open>The calls the kernel makes: the idle process only ever yields.\<close>

definition sched_call_ok :: "cpuid \<Rightarrow> procstate \<Rightarrow> sched_sys \<Rightarrow> bool" where
  "sched_call_ok c st s \<longleftrightarrow> c < NCPU \<and> st \<noteq> RUNNING \<and> st \<noteq> UNUSED \<and>
     (thisproc s c = idle s c \<longrightarrow> st = RUNNABLE)"

definition sched_returns_early :: "cpuid \<Rightarrow> procstate \<Rightarrow> sched_sys \<Rightarrow> bool" where
  "sched_returns_early c st s \<longleftrightarrow> killed (procs s (thisproc s c)) \<and> st \<noteq> ZOMBIE"

lemma sched_switch:
  assumes inv: "sched_inv s" and ok: "sched_call_ok c st s" and sw: "\<not> sched_returns_early c st s"
  obtains nx t where
    "sched c now st s = Ok (release_sched_lock ((requeue c st s)\<lparr>
       sched_timer := (sched_timer s)(c := t),
       thisproc := (thisproc s)(c := nx),
       procs := (aged (rq (requeue c st s)) (procs (requeue c st s)))
         (nx := (aged (rq (requeue c st s)) (procs (requeue c st s)) nx)\<lparr>state := RUNNING\<rparr>)\<rparr>))"
    and "queued t" and "\<not> triggered t"
    and "state (procs (requeue c st s) nx) = RUNNABLE"
    and "(nx \<in> set (rq (requeue c st s)) \<and>
        (\<forall>q\<in>set (rq (requeue c st s)). state (procs (requeue c st s) q) = RUNNABLE \<longrightarrow>
          wait_time (procs (requeue c st s) q) \<le> wait_time (procs (requeue c st s) nx))) \<or>
      (nx = idle s c \<and> (\<forall>q\<in>set (rq (requeue c st s)). state (procs (requeue c st s) q) \<noteq> RUNNABLE))"
proof -
  have c: "c < NCPU" and st: "st \<noteq> RUNNING" "st \<noteq> UNUSED"
    and id: "thisproc s c = idle s c \<Longrightarrow> st = RUNNABLE" using ok by (auto simp: sched_call_ok_def)
  let ?r = "requeue c st s"
  have run: "state (procs s (thisproc s c)) = RUNNING" using sched_invD(3) [OF inv] c by blast
  obtain t where t: "update_this_state c now st s = Ok (?r\<lparr>sched_timer := (sched_timer s)(c := t)\<rparr>)"
    "queued t" "\<not> triggered t" using update_this_state_Ok [OF inv c] by blast
  let ?m = "?r\<lparr>sched_timer := (sched_timer s)(c := t)\<rparr>"
  obtain nx s2 where pk: "pick_next c ?m = (nx, s2)" by fastforce
  have shadow: "RQ_SHADOW \<noteq> thisproc s c" using run sched_invD(11) [OF inv] by auto
  have s2: "s2 = ?m\<lparr>procs := aged (rq ?m) (procs ?m)\<rparr>"
    and ch: "(nx \<in> set (rq ?m) \<and> state (procs ?m nx) = RUNNABLE \<and>
        (\<forall>q\<in>set (rq ?m). state (procs ?m q) = RUNNABLE \<longrightarrow> wait_time (procs ?m q) \<le> wait_time (procs ?m nx))) \<or>
      (nx = idle ?m c \<and> (\<forall>q\<in>set (rq ?m). state (procs ?m q) \<noteq> RUNNABLE))"
  proof -
    have d: "distinct (rq ?m)" using requeue_rq(1) [OF inv c st(1)] by simp
    have sh: "RQ_SHADOW \<notin> set (rq ?m)"
      using requeue_rq(2) [OF inv c st(1), of RQ_SHADOW] sched_invD(2) [OF inv, of RQ_SHADOW]
        sched_invD(10,11) [OF inv] shadow by simp
    have nr: "state (procs ?m RQ_SHADOW) \<noteq> RUNNABLE"
      using sched_invD(10) [OF inv] shadow by (simp add: requeue_simps [OF st(1)])
    have nn: "0 \<le> wait_time (procs ?m p)" for p
      using sched_invD(8) [OF inv] by (simp add: requeue_simps [OF st(1)])
    show "s2 = ?m\<lparr>procs := aged (rq ?m) (procs ?m)\<rparr>"
      by (rule pick_next_spec(1) [OF d sh nr nn pk])
    show "(nx \<in> set (rq ?m) \<and> state (procs ?m nx) = RUNNABLE \<and>
        (\<forall>q\<in>set (rq ?m). state (procs ?m q) = RUNNABLE \<longrightarrow> wait_time (procs ?m q) \<le> wait_time (procs ?m nx))) \<or>
      (nx = idle ?m c \<and> (\<forall>q\<in>set (rq ?m). state (procs ?m q) \<noteq> RUNNABLE))"
      by (rule pick_next_spec(2) [OF d sh nr nn pk])
  qed
  have nxr: "state (procs ?r nx) = RUNNABLE"
  proof (cases "nx = idle s c \<and> (\<forall>q\<in>set (rq ?m). state (procs ?m q) \<noteq> RUNNABLE)")
    case True
    have "state (procs s (idle s c)) = RUNNABLE" if "idle s c \<noteq> thisproc s c"
    proof -
      have "state (procs s (idle s c)) \<noteq> RUNNING"
        using that sched_invD(3) [OF inv, of "idle s c"] sched_invD(7) [OF inv _ c] by metis
      then show ?thesis using sched_invD(6) [OF inv c] by simp
    qed
    with True id st(1) show ?thesis
      by (cases "idle s c = thisproc s c") (simp_all add: requeue_simps)
  qed (use ch in \<open>auto simp: requeue_simps [OF st(1)]\<close>)
  have "sched c now st s = Ok (release_sched_lock (?r\<lparr>
       sched_timer := (sched_timer s)(c := t),
       thisproc := (thisproc s)(c := nx),
       procs := (aged (rq ?r) (procs ?r))(nx := (aged (rq ?r) (procs ?r) nx)\<lparr>state := RUNNING\<rparr>)\<rparr>))"
  proof -
    have early: "(killed (procs s (thisproc s c)) \<and> st \<noteq> ZOMBIE) = False"
      using sw by (simp add: sched_returns_early_def)
    show ?thesis
      unfolding sched_def Let_def early using run t(1) pk s2 nxr
      by (simp add: update_this_proc_def upd_proc_def requeue_simps(3) [OF st(1)])
  qed
  moreover have "(nx \<in> set (rq ?r) \<and>
        (\<forall>q\<in>set (rq ?r). state (procs ?r q) = RUNNABLE \<longrightarrow>
          wait_time (procs ?r q) \<le> wait_time (procs ?r nx))) \<or>
      (nx = idle s c \<and> (\<forall>q\<in>set (rq ?r). state (procs ?r q) \<noteq> RUNNABLE))"
    using ch by (auto simp: requeue_simps(4) [OF st(1)])
  ultimately show thesis using that t(2,3) nxr by blast
qed

lemma sched_inv_switch:
  assumes inv: "sched_inv s" and ok: "sched_call_ok c st s"
    and t: "queued t" "\<not> triggered t"
    and nxr: "state (procs (requeue c st s) nx) = RUNNABLE"
    and ch: "nx \<in> set (rq (requeue c st s)) \<or> nx = idle s c"
  shows "sched_inv (release_sched_lock ((requeue c st s)\<lparr>
       sched_timer := (sched_timer s)(c := t),
       thisproc := (thisproc s)(c := nx),
       procs := (aged (rq (requeue c st s)) (procs (requeue c st s)))
         (nx := (aged (rq (requeue c st s)) (procs (requeue c st s)) nx)\<lparr>state := RUNNING\<rparr>)\<rparr>))" (is "sched_inv ?s")
proof -
  have c: "c < NCPU" and st: "st \<noteq> RUNNING" "st \<noteq> UNUSED"
    and id: "thisproc s c = idle s c \<Longrightarrow> st = RUNNABLE" using ok by (auto simp: sched_call_ok_def)
  note I = sched_invD [OF inv]
  note rs = requeue_simps [OF st(1), of c s] and rqs = requeue_rq [OF inv c st(1)]
  let ?cur = "thisproc s c" and ?rq = "rq (requeue c st s)"
  have state1: "state (procs (requeue c st s) p) = (if p = ?cur then st else state (procs s p))" for p
    by (simp add: rs)
  have fin: "state (procs ?s p) = (if p = nx then RUNNING else if p = ?cur then st else state (procs s p))" for p
    by (simp add: release_sched_lock_def state1)
  have flds: "rq ?s = ?rq" "thisproc ?s = (thisproc s)(c := nx)" "idle ?s = idle s"
    "sched_timer ?s = (sched_timer s)(c := t)" "idles ?s = idles s"
    by (simp_all add: release_sched_lock_def rs idles_def)
  have nx1: "(if nx = ?cur then st else state (procs s nx)) = RUNNABLE" using nxr state1 by simp
  have thisrun: "state (procs s ?cur) = RUNNING" using I(3) c by blast
  have nx_other: "thisproc s d \<noteq> nx" if "d < NCPU" "d \<noteq> c" for d
  proof
    assume e: "thisproc s d = nx"
    then have "state (procs s nx) = RUNNING" using I(3) that by blast
    moreover have "nx \<noteq> ?cur" using inj_onD [OF I(4)] that c e by blast
    ultimately show False using nx1 by simp
  qed
  have nx_rq: "nx \<in> set ?rq \<longleftrightarrow> nx \<notin> idles s"
  proof (cases "nx = ?cur")
    case True
    with rqs(2) [of nx] nx1 this_idle [OF inv c] show ?thesis by simp
  next
    case False
    with rqs(2) [of nx] nx1 I(2) [of nx] show ?thesis by simp
  qed
  have 1: "distinct (rq ?s)" using rqs(1) flds by simp
  have 2: "p \<in> set (rq ?s) \<longleftrightarrow> p \<notin> idles ?s \<and> (state (procs ?s p) = RUNNABLE \<or> state (procs ?s p) = RUNNING)" for p
    using rqs(2) [of p] I(2) [of p] this_idle [OF inv c] nx_rq st id
    unfolding fin flds by (auto split: if_splits)
  have 3: "state (procs ?s p) = RUNNING \<longleftrightarrow> (\<exists>d<NCPU. thisproc ?s d = p)" for p
  proof (cases "p = nx")
    case False
    then have "state (procs ?s p) = RUNNING \<longleftrightarrow> p \<noteq> ?cur \<and> (\<exists>d<NCPU. thisproc s d = p)"
      using st I(3) [of p] unfolding fin by simp
    also have "\<dots> \<longleftrightarrow> (\<exists>d<NCPU. d \<noteq> c \<and> thisproc s d = p)"
      using inj_onD [OF I(4)] c by (metis lessThan_iff)
    finally show ?thesis using False unfolding flds by auto
  qed (use c in \<open>auto simp: fin flds\<close>)
  have 4: "inj_on (thisproc ?s) {..<NCPU}"
    using I(4) nx_other unfolding flds by (auto simp: inj_on_def)
  have 5: "inj_on (idle ?s) {..<NCPU}" using I(5) flds by simp
  have 6: "state (procs ?s (idle ?s d)) = RUNNING \<or> state (procs ?s (idle ?s d)) = RUNNABLE" if "d < NCPU" for d
  proof -
    have "idle s d = ?cur \<Longrightarrow> st = RUNNABLE" using I(7) [OF c that] id by metis
    then show ?thesis using I(6) [OF that] unfolding fin flds by simp
  qed
  have 7: "d = e" if "d < NCPU" "e < NCPU" "thisproc ?s d = idle ?s e" for d e
  proof (cases "d = c")
    case True
    with that have e: "nx = idle s e" unfolding flds by simp
    then have "nx \<in> idles s" using that by (auto simp: idles_simp)
    with nx_rq ch have "nx = idle s c" by blast
    with e that c I(5) True show ?thesis by (auto dest: inj_onD)
  next
    case False
    with that show ?thesis using I(7) [of d e] unfolding flds by simp
  qed
  have "0 \<le> wait_time (procs (requeue c st s) p)" for p by (simp add: rs I(8))
  then have 8: "0 \<le> wait_time (procs ?s p)" for p
    by (simp add: release_sched_lock_def aged_def add_nonneg_nonneg)
  have 9: "triggered (sched_timer ?s d) \<Longrightarrow> \<not> queued (sched_timer ?s d)" if "d < NCPU" for d
    using I(9) [OF that] t unfolding flds by (simp split: if_splits)
  have sh: "RQ_SHADOW \<noteq> ?cur" using thisrun I(11) by auto
  moreover have "RQ_SHADOW \<noteq> nx" using nx1 I(10) sh by auto
  ultimately have 10: "state (procs ?s RQ_SHADOW) \<noteq> RUNNABLE \<and> state (procs ?s RQ_SHADOW) \<noteq> RUNNING \<and>
      RQ_SHADOW \<notin> idles ?s"
    using I(10,11,12) unfolding fin flds by simp
  show ?thesis unfolding sched_inv_def using 1 2 3 4 5 6 7 8 9 10 by blast
qed

lemma sched_inv_lock: "sched_inv (s\<lparr>rqlock := l\<rparr>) = sched_inv s"
  by (simp add: sched_inv_def idles_def)

lemma sched_preserves:
  assumes inv: "sched_inv s" and ok: "sched_call_ok c st s"
  shows "\<exists>s'. sched c now st s = Ok s' \<and> sched_inv s' \<and> \<not> rqlock s'"
proof (cases "sched_returns_early c st s")
  case True
  have "state (procs s (thisproc s c)) = RUNNING"
    using sched_invD(3) [OF inv] ok unfolding sched_call_ok_def by blast
  with True have "sched c now st s = Ok (release_sched_lock s)"
    by (simp add: sched_def Let_def sched_returns_early_def)
  then show ?thesis using inv by (simp add: release_sched_lock_def sched_inv_lock)
next
  case False
  show ?thesis
  proof (rule sched_switch [OF inv ok False, of now])
    fix nx t
    let ?s = "release_sched_lock ((requeue c st s)\<lparr>
       sched_timer := (sched_timer s)(c := t),
       thisproc := (thisproc s)(c := nx),
       procs := (aged (rq (requeue c st s)) (procs (requeue c st s)))
         (nx := (aged (rq (requeue c st s)) (procs (requeue c st s)) nx)\<lparr>state := RUNNING\<rparr>)\<rparr>)"
    assume r: "sched c now st s = Ok ?s" and t: "queued t" "\<not> triggered t"
      and n: "state (procs (requeue c st s) nx) = RUNNABLE"
      and ch: "(nx \<in> set (rq (requeue c st s)) \<and>
        (\<forall>q\<in>set (rq (requeue c st s)). state (procs (requeue c st s) q) = RUNNABLE \<longrightarrow>
          wait_time (procs (requeue c st s) q) \<le> wait_time (procs (requeue c st s) nx))) \<or>
      (nx = idle s c \<and> (\<forall>q\<in>set (rq (requeue c st s)). state (procs (requeue c st s) q) \<noteq> RUNNABLE))"
    have "sched_inv ?s" by (rule sched_inv_switch [OF inv ok t n]) (use ch in blast)
    moreover have "\<not> rqlock ?s" by (simp add: release_sched_lock_def)
    ultimately show ?thesis using r by blast
  qed
qed

lemma activate_preserves:
  assumes inv: "sched_inv s" and l: "\<not> rqlock s" and p: "p \<notin> idles s" "p \<noteq> RQ_SHADOW"
  shows "\<exists>b s'. activate_proc p onalert s = Ok (b, s') \<and> sched_inv s' \<and> \<not> rqlock s' \<and>
    b = (state (procs s p) = SLEEPING \<or> state (procs s p) = UNUSED \<or>
         (state (procs s p) = DEEPSLEEPING \<and> \<not> onalert))"
proof (cases "state (procs s p) = SLEEPING \<or> state (procs s p) = UNUSED \<or>
         (state (procs s p) = DEEPSLEEPING \<and> \<not> onalert)")
  case True
  let ?s = "s\<lparr>procs := (procs s)(p := (procs s p)\<lparr>state := RUNNABLE, wait_time := 0\<rparr>), rq := p # rq s, rqlock := False\<rparr>"
  have a: "activate_proc p onalert s = Ok (True, ?s)"
    using True l by (auto simp: activate_proc_def acquire_sched_lock_def release_sched_lock_def
        upd_proc_def Let_def)
  note I = sched_invD [OF inv]
  have nr: "state (procs s p) \<noteq> RUNNING" "state (procs s p) \<noteq> RUNNABLE" using True by auto
  have "sched_inv ?s"
    unfolding sched_inv_def
  proof (intro conjI allI impI)
    show "distinct (rq ?s)" using I(1) I(2) [of p] nr by simp
    show "(q \<in> set (rq ?s)) = (q \<notin> idles ?s \<and> (state (procs ?s q) = RUNNABLE \<or> state (procs ?s q) = RUNNING))" for q
      using I(2) [of q] p(1) by (simp add: idles_def)
    show "(state (procs ?s q) = RUNNING) = (\<exists>c<NCPU. thisproc ?s c = q)" for q
      using I(3) [of q] nr by auto
    show "state (procs ?s (idle ?s c)) = RUNNING \<or> state (procs ?s (idle ?s c)) = RUNNABLE" if "c < NCPU" for c
      using I(6) [OF that] by simp
    show "state (procs ?s RQ_SHADOW) \<noteq> RUNNABLE" "state (procs ?s RQ_SHADOW) \<noteq> RUNNING"
      using I(10,11) p(2) by simp_all
  qed (use I(4,5,7,8,9,12) in \<open>auto simp: idles_def\<close>)
  with a True show ?thesis by auto
next
  case False
  then have "activate_proc p onalert s = Ok (False, s\<lparr>rqlock := False\<rparr>)"
    using l by (cases "state (procs s p)")
      (auto simp: activate_proc_def acquire_sched_lock_def release_sched_lock_def Let_def)
  with False inv show ?thesis by (auto simp: sched_inv_lock)
qed

section \<open>No runnable process is passed over for ever\<close>

text \<open>
  The processes that can still be preferred to \<open>p\<close>: those in the queue that have waited at
  least as long.  A switch that does not choose \<open>p\<close> removes one of them and adds none, because
  whoever joins the queue starts with waiting time zero.
\<close>

definition rivals :: "tid \<Rightarrow> sched_sys \<Rightarrow> tid set" where
  "rivals p s = {q \<in> set (rq s). q \<noteq> p \<and> state (procs s q) = RUNNABLE \<and>
     wait_time (procs s p) \<le> wait_time (procs s q)}"

definition waiting :: "tid \<Rightarrow> sched_sys \<Rightarrow> bool" where
  "waiting p s \<longleftrightarrow> p \<in> set (rq s) \<and> state (procs s p) = RUNNABLE \<and> 1 \<le> wait_time (procs s p)"

lemma finite_rivals [simp]: "finite (rivals p s)"
  by (simp add: rivals_def)

lemma sched_rivals:
  assumes inv: "sched_inv s" and ok: "sched_call_ok c st s" and sw: "\<not> sched_returns_early c st s"
    and w: "waiting p s" and r: "sched c now st s = Ok s'" and np: "state (procs s' p) \<noteq> RUNNING"
  shows "waiting p s'" and "rivals p s' \<subset> rivals p s"
proof -
  have c: "c < NCPU" and st: "st \<noteq> RUNNING" using ok by (auto simp: sched_call_ok_def)
  note rs = requeue_simps [OF st, of c s] and rqs = requeue_rq [OF inv c st]
  let ?cur = "thisproc s c"
  have run: "state (procs s ?cur) = RUNNING" using sched_invD(3) [OF inv] c by blast
  have pc: "p \<noteq> ?cur" using w run by (auto simp: waiting_def)
  have pin: "p \<in> set (rq (requeue c st s))" using w pc rqs(2) by (simp add: waiting_def)
  obtain nx t where s': "s' = release_sched_lock ((requeue c st s)\<lparr>
       sched_timer := (sched_timer s)(c := t), thisproc := (thisproc s)(c := nx),
       procs := (aged (rq (requeue c st s)) (procs (requeue c st s)))
         (nx := (aged (rq (requeue c st s)) (procs (requeue c st s)) nx)\<lparr>state := RUNNING\<rparr>)\<rparr>)"
    and nxr: "state (procs (requeue c st s) nx) = RUNNABLE"
    and ch: "(nx \<in> set (rq (requeue c st s)) \<and>
        (\<forall>q\<in>set (rq (requeue c st s)). state (procs (requeue c st s) q) = RUNNABLE \<longrightarrow>
          wait_time (procs (requeue c st s) q) \<le> wait_time (procs (requeue c st s) nx))) \<or>
      (nx = idle s c \<and> (\<forall>q\<in>set (rq (requeue c st s)). state (procs (requeue c st s) q) \<noteq> RUNNABLE))"
    by (rule sched_switch [OF inv ok sw, of now], rule that) (use r in simp, assumption+)
  have rq': "rq s' = rq (requeue c st s)" by (simp add: s' release_sched_lock_def)
  have st': "state (procs s' q) = (if q = nx then RUNNING else if q = ?cur then st else state (procs s q))" for q
    by (simp add: s' release_sched_lock_def rs)
  have nxp: "nx \<noteq> p" using np st' by auto
  have wt: "wait_time (procs s' q) = wait_time (procs s q) + 1"
    if "q \<noteq> ?cur" "q \<in> set (rq s)" "state (procs s q) = RUNNABLE" for q
    using that rqs(2) [of q] by (auto simp: s' release_sched_lock_def rs)
  have p': "p \<in> set (rq s)" "state (procs s p) = RUNNABLE" "1 \<le> wait_time (procs s p)"
    using w by (simp_all add: waiting_def)
  show "waiting p s'"
    using p' pc nxp pin by (simp add: waiting_def rq' st' wt)
  have top: "nx \<in> set (rq (requeue c st s)) \<and>
      wait_time (procs (requeue c st s) p) \<le> wait_time (procs (requeue c st s) nx)"
    using ch pin p'(2) pc by (auto simp: rs)
  have "nx \<noteq> ?cur"
  proof
    assume e: "nx = ?cur"
    with nxr have "st = RUNNABLE" by (simp add: rs)
    moreover have "?cur \<noteq> idle s c" using top e rqs(2) [of ?cur] by simp
    ultimately have "wait_time (procs (requeue c st s) ?cur) = 0" by (subst rs(1)) simp
    moreover have "wait_time (procs (requeue c st s) p) = wait_time (procs s p)"
      using pc by (simp add: rs)
    ultimately show False using top e p'(3) by simp
  qed
  with top nxr rqs(2) [of nx] pc nxp have nxin: "nx \<in> rivals p s"
    by (simp add: rivals_def rs)
  have "rivals p s' \<subseteq> rivals p s - {nx}"
  proof
    fix q assume q: "q \<in> rivals p s'"
    then have qn: "q \<noteq> nx" using st' by (auto simp: rivals_def)
    have "q \<noteq> ?cur"
    proof
      assume e: "q = ?cur"
      with q qn have "st = RUNNABLE" "?cur \<in> set (rq s')" by (auto simp: rivals_def st')
      moreover have "?cur \<noteq> idle s c"
        using calculation rqs(2) [of ?cur] by (auto simp: rq')
      ultimately have "wait_time (procs (requeue c st s) ?cur) = 0" by (subst rs(1)) simp
      then have "wait_time (procs s' ?cur) \<le> 1"
        using e qn by (simp add: s' release_sched_lock_def)
      with q e wt [OF pc p'(1,2)] p'(3) show False by (simp add: rivals_def)
    qed
    with q qn rqs(2) [of q] have "q \<in> set (rq s)" "state (procs s q) = RUNNABLE"
      by (auto simp: rivals_def rq' st')
    with q qn wt [OF pc p'(1,2)] wt [OF \<open>q \<noteq> ?cur\<close>] show "q \<in> rivals p s - {nx}"
      by (simp add: rivals_def)
  qed
  with nxin show "rivals p s' \<subset> rivals p s" by blast
qed

lemma activate_rivals:
  assumes inv: "sched_inv s" and l: "\<not> rqlock s" and w: "waiting p s"
    and a: "activate_proc q onalert s = Ok (b, s')"
  shows "waiting p s'" and "rivals p s' = rivals p s" and "procs s' p = procs s p"
proof -
  have qp: "q = p \<Longrightarrow> \<not> b"
    using a w l by (auto simp: activate_proc_def acquire_sched_lock_def Let_def waiting_def split: if_splits)
  have s': "s' = (if b then s\<lparr>procs := (procs s)(q := (procs s q)\<lparr>state := RUNNABLE, wait_time := 0\<rparr>), rq := q # rq s, rqlock := False\<rparr> else s\<lparr>rqlock := False\<rparr>)"
    using a l by (auto simp: activate_proc_def acquire_sched_lock_def release_sched_lock_def upd_proc_def Let_def split: if_splits)
  have nq: "q \<notin> rivals p s" if b
    using a l that by (auto simp: activate_proc_def acquire_sched_lock_def Let_def rivals_def split: if_splits)
  show "procs s' p = procs s p" using s' qp by auto
  show "waiting p s'" using w qp by (auto simp: s' waiting_def)
  show "rivals p s' = rivals p s"
    using nq qp w by (auto simp: s' rivals_def waiting_def)
qed

text \<open>What happens at the scheduler: a CPU calls it, or somebody wakes a process.\<close>

datatype sched_event = Reschedule cpuid u64 procstate | Wake tid bool

fun sched_event_ok :: "sched_event \<Rightarrow> sched_sys \<Rightarrow> bool" where
  "sched_event_ok (Reschedule c now st) s = sched_call_ok c st s"
| "sched_event_ok (Wake p b) s = (p \<notin> idles s \<and> p \<noteq> RQ_SHADOW)"

fun do_sched_event :: "sched_event \<Rightarrow> sched_sys \<Rightarrow> sched_sys outcome" where
  "do_sched_event (Reschedule c now st) s = andthen (acquire_sched_lock s) (\<lambda>s. sched c now st s)"
| "do_sched_event (Wake p b) s = andthen (activate_proc p b s) (\<lambda>(_, s). Ok s)"

fun is_switch :: "sched_event \<Rightarrow> sched_sys \<Rightarrow> bool" where
  "is_switch (Reschedule c now st) s = (\<not> sched_returns_early c st s)"
| "is_switch (Wake p b) s = False"

text \<open>The number of switches until \<open>p\<close> runs (the one that chooses it included).\<close>

fun switches_until :: "tid \<Rightarrow> sched_event list \<Rightarrow> sched_sys \<Rightarrow> nat" where
  "switches_until p [] s = 0"
| "switches_until p (e # es) s =
     (if state (procs s p) = RUNNING \<or> \<not> sched_event_ok e s then 0
      else case do_sched_event e s of
             Ok s' \<Rightarrow> (if is_switch e s then 1 else 0) + switches_until p es s'
           | _ \<Rightarrow> 0)"

lemma acquire_sched_lock_free: "\<not> rqlock s \<Longrightarrow> acquire_sched_lock s = Ok (s\<lparr>rqlock := True\<rparr>)"
  by (simp add: acquire_sched_lock_def)

lemma sched_event_preserves:
  assumes "sched_inv s" and "\<not> rqlock s" and "sched_event_ok e s"
  shows "\<exists>s'. do_sched_event e s = Ok s' \<and> sched_inv s' \<and> \<not> rqlock s'"
proof (cases e)
  case (Reschedule c now st)
  then have "sched_call_ok c st (s\<lparr>rqlock := True\<rparr>)" using assms by (simp add: sched_call_ok_def)
  then show ?thesis
    using sched_preserves [of "s\<lparr>rqlock := True\<rparr>" c st now] assms Reschedule
    by (simp add: acquire_sched_lock_free sched_inv_lock)
next
  case (Wake p b)
  then show ?thesis using activate_preserves [of s p b] assms by auto
qed

lemma switches_until_running: "state (procs s p) = RUNNING \<Longrightarrow> switches_until p es s = 0"
  by (cases es) simp_all

lemma switches_until_step:
  assumes "do_sched_event e s = Ok s'"
  shows "switches_until p (e # es) s \<le> (if is_switch e s then 1 else 0) + switches_until p es s'"
  using assms by simp

declare switches_until.simps(2) [simp del]

lemma switches_until_rivals:
  assumes "sched_inv s" and "\<not> rqlock s" and "waiting p s"
  shows "switches_until p es s \<le> card (rivals p s) + 1"
  using assms
proof (induction es arbitrary: s)
  case (Cons e es)
  show ?case
  proof (cases "sched_event_ok e s")
    case True
    obtain s' where s': "do_sched_event e s = Ok s'" "sched_inv s'" "\<not> rqlock s'"
      using sched_event_preserves [OF Cons.prems(1,2) True] by blast
    show ?thesis
    proof (cases e)
      case (Wake q b)
      then obtain r where "activate_proc q b s = Ok (r, s')" using s' by auto
      note a = activate_rivals [OF Cons.prems this]
      from Cons.IH [OF s'(2,3) a(1)] a(2) switches_until_step [OF s'(1), of p es] Wake show ?thesis by simp
    next
      case (Reschedule c now st)
      let ?s = "s\<lparr>rqlock := True\<rparr>"
      have L: "sched_inv ?s" "sched_call_ok c st ?s" "waiting p ?s" "rivals p ?s = rivals p s"
        using Cons.prems True Reschedule by (simp_all add: sched_inv_lock sched_call_ok_def waiting_def rivals_def)
      have r: "sched c now st ?s = Ok s'" using s' Reschedule Cons.prems by (simp add: acquire_sched_lock_free)
      show ?thesis
      proof (cases "sched_returns_early c st s")
        case early: True
        have "state (procs s (thisproc s c)) = RUNNING"
          using sched_invD(3) [OF Cons.prems(1)] True Reschedule by (auto simp: sched_call_ok_def)
        with r early have "s' = s\<lparr>rqlock := False\<rparr>"
          by (simp add: sched_def Let_def sched_returns_early_def release_sched_lock_def)
        then have "waiting p s'" "rivals p s' = rivals p s"
          using Cons.prems by (simp_all add: waiting_def rivals_def)
        with Cons.IH [OF s'(2,3)] switches_until_step [OF s'(1), of p es] Reschedule early show ?thesis by simp
      next
        case False
        then have sw: "\<not> sched_returns_early c st ?s" by (simp add: sched_returns_early_def)
        show ?thesis
        proof (cases "state (procs s' p) = RUNNING")
          case True
          with switches_until_step [OF s'(1), of p es] show ?thesis
            by (simp add: switches_until_running split: if_splits)
        next
          case np: False
          note sr = sched_rivals [OF L(1,2) sw L(3) r np]
          then have "card (rivals p s') < card (rivals p s)" using L(4) by (simp add: psubset_card_mono)
          with Cons.IH [OF s'(2,3) sr(1)] switches_until_step [OF s'(1), of p es]
          show ?thesis by (simp split: if_splits)
        qed
      qed
    qed
  qed (simp add: switches_until.simps)
qed simp

end
