(* ===== verification/ListNode.thy ===== *)
theory ListNode
  imports Prelude
begin

text \<open>
  \<^verbatim>\<open>src/common/list.c\<close> at the level of pointers.  The store \<open>links\<close> gives the \<^verbatim>\<open>next\<close> and
  \<^verbatim>\<open>prev\<close> field of the \<^verbatim>\<open>ListNode\<close> at every address; address \<open>0\<close> is \<^verbatim>\<open>NULL\<close>.  The
  abstraction \<open>ring h xs\<close> says that the nodes \<open>xs\<close>, in this order, form a circular list.
  The other components use these lists through the facts proved here: the members of the
  list with sentinel \<open>hd\<close> are a HOL list \<open>xs\<close> with \<open>ring h (hd # xs)\<close>, insertion is
  \<open>n # xs\<close>, \<^verbatim>\<open>hd.prev\<close> is \<open>last xs\<close> and detaching is \<open>remove1\<close>.
\<close>

section \<open>The code\<close>

type_synonym addr = nat

record links =
  nxt :: "addr \<Rightarrow> addr"
  prv :: "addr \<Rightarrow> addr"

definition set_nxt :: "addr \<Rightarrow> addr \<Rightarrow> links \<Rightarrow> links" where
  "set_nxt a b h = h\<lparr>nxt := (nxt h)(a := b)\<rparr>"

definition set_prv :: "addr \<Rightarrow> addr \<Rightarrow> links \<Rightarrow> links" where
  "set_prv a b h = h\<lparr>prv := (prv h)(a := b)\<rparr>"

lemma links_upd_simps [simp]:
  "nxt (set_nxt a b h) = (nxt h)(a := b)"
  "prv (set_nxt a b h) = prv h"
  "nxt (set_prv a b h) = nxt h"
  "prv (set_prv a b h) = (prv h)(a := b)"
  by (simp_all add: set_nxt_def set_prv_def)

definition init_list_node :: "addr \<Rightarrow> links \<Rightarrow> links" where
  "init_list_node node h = set_nxt node node (set_prv node node h)"

definition merge_list :: "addr \<Rightarrow> addr \<Rightarrow> links \<Rightarrow> addr \<times> links" where
  "merge_list node1 node2 h =
     (if node1 = 0 then (node2, h)
      else if node2 = 0 then (node1, h)
      else let node3 = nxt h node1;
               node4 = prv h node2;
               h = set_nxt node1 node2 h;
               h = set_prv node2 node1 h;
               h = set_nxt node4 node3 h;
               h = set_prv node3 node4 h
           in (node1, h))"

definition insert_into_list :: "addr \<Rightarrow> addr \<Rightarrow> links \<Rightarrow> addr \<times> links" where
  "insert_into_list l node h = merge_list l node (init_list_node node h)"

definition detach_from_list :: "addr \<Rightarrow> links \<Rightarrow> addr \<times> links" where
  "detach_from_list node h =
     (let prev = prv h node;
          h = set_nxt (prv h node) (nxt h node) h;
          h = set_prv (nxt h node) (prv h node) h;
          h = init_list_node node h
      in if prev = node then (0, h) else (prev, h))"

definition empty_list :: "addr \<Rightarrow> links \<Rightarrow> bool" where
  "empty_list l h = (nxt h l = l)"

text \<open>
  The macro \<^verbatim>\<open>_for_in_list(valptr, list)\<close>: the successive values of \<^verbatim>\<open>valptr\<close> in the loop.
  \<open>None\<close> is a walk that does not end.
\<close>

partial_function (option) for_in_list_from :: "links \<Rightarrow> addr \<Rightarrow> addr \<Rightarrow> addr list option" where
  "for_in_list_from h flag valptr =
     (if valptr = 0 then Some []
      else Option.bind (for_in_list_from h flag (if valptr = flag then 0 else nxt h valptr))
             (\<lambda>vs. Some (valptr # vs)))"

definition for_in_list :: "links \<Rightarrow> addr \<Rightarrow> addr list option" where
  "for_in_list h l = for_in_list_from h l (nxt h l)"

text \<open>The \<^verbatim>\<open>Queue\<close> of the same file.\<close>

record queue =
  qbegin :: addr
  qend :: addr
  qsz :: int

definition queue_init :: queue where
  "queue_init = \<lparr>qbegin = 0, qend = 0, qsz = 0\<rparr>"

definition queue_push :: "addr \<Rightarrow> queue \<times> links \<Rightarrow> queue \<times> links" where
  "queue_push item = (\<lambda>(x, h).
     (let h = init_list_node item h;
          (x, h) = (if qsz x = 0 then (x\<lparr>qend := item, qbegin := item\<rparr>, h)
                    else (case merge_list (qend x) item h of (_, h) \<Rightarrow> (x\<lparr>qend := item\<rparr>, h)))
      in (x\<lparr>qsz := qsz x + 1\<rparr>, h)))"

definition queue_pop :: "queue \<times> links \<Rightarrow> (queue \<times> links) outcome" where
  "queue_pop = (\<lambda>(x, h).
     if qsz x = 0 then Panic
     else let (x, h) = (if qsz x = 1 then (x\<lparr>qend := 0, qbegin := 0\<rparr>, h)
                        else let t = qbegin x;
                                 x = x\<lparr>qbegin := nxt h (qbegin x)\<rparr>
                             in (x, snd (detach_from_list t h)))
          in Ok (x\<lparr>qsz := qsz x - 1\<rparr>, h))"

definition queue_front :: "queue \<Rightarrow> addr outcome" where
  "queue_front x = (if qbegin x = 0 then Panic else Ok (qbegin x))"

definition queue_empty :: "queue \<Rightarrow> bool" where
  "queue_empty x = (qsz x = 0)"

section \<open>Circular lists\<close>

text \<open>\<open>chain h a xs b\<close>: following \<^verbatim>\<open>next\<close> from \<open>a\<close> visits \<open>xs\<close> and then \<open>b\<close>, and \<^verbatim>\<open>prev\<close> goes back.\<close>

fun chain :: "links \<Rightarrow> addr \<Rightarrow> addr list \<Rightarrow> addr \<Rightarrow> bool" where
  "chain h a [] b = (nxt h a = b \<and> prv h b = a)"
| "chain h a (x # xs) b = (nxt h a = x \<and> prv h x = a \<and> chain h x xs b)"

fun ring :: "links \<Rightarrow> addr list \<Rightarrow> bool" where
  "ring h [] = False"
| "ring h (x # xs) = (distinct (x # xs) \<and> 0 \<notin> set (x # xs) \<and> chain h x xs x)"

lemma chain_append:
  "chain h a (xs @ y # ys) b \<longleftrightarrow> chain h a xs y \<and> chain h y ys b"
  by (induction xs arbitrary: a) auto

lemma chain_nxt: "chain h a xs b \<Longrightarrow> nxt h a = hd (xs @ [b])"
  by (cases xs) auto

lemma chain_prv: "chain h a xs b \<Longrightarrow> prv h b = last (a # xs)"
  by (induction xs arbitrary: a) auto

text \<open>Frame rule: a chain depends only on the links along it.\<close>

lemma chain_cong:
  assumes "chain h a xs b"
    and "\<And>x. x \<in> insert a (set xs) \<Longrightarrow> nxt h' x = nxt h x"
    and "\<And>x. x \<in> insert b (set xs) \<Longrightarrow> prv h' x = prv h x"
  shows "chain h' a xs b"
  using assms by (induction xs arbitrary: a) auto

text \<open>The same chain with its last link redirected from \<open>b\<close> to \<open>c\<close>.\<close>

lemma chain_redirect_end:
  assumes "chain h a xs b" and "distinct (a # xs)"
    and "\<And>x. x \<in> set (butlast (a # xs)) \<Longrightarrow> nxt h' x = nxt h x"
    and "\<And>x. x \<in> set xs \<Longrightarrow> prv h' x = prv h x"
    and "nxt h' (last (a # xs)) = c" and "prv h' c = last (a # xs)"
  shows "chain h' a xs c"
  using assms by (induction xs arbitrary: a) (auto split: if_splits)

lemma ring_frame:
  assumes "ring h xs" and "\<And>x. x \<in> set xs \<Longrightarrow> nxt h' x = nxt h x \<and> prv h' x = prv h x"
  shows "ring h' xs"
  using assms by (cases xs) (auto intro!: chain_cong [of h])

lemma ring_singleton: "n \<noteq> 0 \<Longrightarrow> ring (init_list_node n h) [n]"
  by (simp add: init_list_node_def)

lemma ring_prv_hd: "ring h (x # xs) \<Longrightarrow> prv h x = last (x # xs)"
  using chain_prv by auto

lemma ring_nxt_hd: "ring h (x # xs) \<Longrightarrow> nxt h x = hd (xs @ [x])"
  using chain_nxt by auto

lemma ring_rotate:
  assumes "ring h (x # xs)" and "xs \<noteq> []"
  shows "ring h (xs @ [x])"
proof -
  obtain y ys where "xs = y # ys" using \<open>xs \<noteq> []\<close> by (cases xs) auto
  then show ?thesis using \<open>ring h (x # xs)\<close> by (auto simp: chain_append)
qed

lemma ring_rotate_to:
  "ring h (xs @ ys) \<Longrightarrow> ys \<noteq> [] \<Longrightarrow> ring h (ys @ xs)"
proof (induction xs arbitrary: ys)
  case Nil
  then show ?case by simp
next
  case (Cons x xs)
  then have "ring h ((xs @ ys) @ [x])"
    using ring_rotate [of h x "xs @ ys"] by simp
  then have "ring h (xs @ (ys @ [x]))" by simp
  then have "ring h ((ys @ [x]) @ xs)" by (rule Cons.IH) simp
  then show ?case by simp
qed

section \<open>The operations on circular lists\<close>

lemma chain_upd_frame:
  assumes "chain h a xs b" and "c \<notin> insert a (set xs)" and "d \<notin> insert b (set xs)"
  shows "chain (set_nxt c c' (set_prv d d' h)) a xs b"
  using assms by (auto intro: chain_cong [OF assms(1)])

theorem merge_list_ring:
  assumes a: "ring h (a # xs)" and b: "ring h (b # ys)"
    and disj: "set (a # xs) \<inter> set (b # ys) = {}"
  shows "fst (merge_list a b h) = a"
    and "ring (snd (merge_list a b h)) (a # b # ys @ xs)"
proof -
  define h' where "h' = snd (merge_list a b h)"
  have ca: "chain h a xs a" and cb: "chain h b ys b" and d: "distinct (a # xs)" "distinct (b # ys)"
    and nz: "a \<noteq> 0" "b \<noteq> 0" "0 \<notin> set xs" "0 \<notin> set ys"
    using a b by auto
  have n3: "nxt h a = hd (xs @ [a])" using ca by (rule chain_nxt)
  have n4: "prv h b = last (b # ys)" using cb by (rule chain_prv)
  show "fst (merge_list a b h) = a"
    using nz by (simp add: merge_list_def Let_def)
  have hn: "nxt h' = (nxt h)(a := b, last (b # ys) := hd (xs @ [a]))"
    and hp: "prv h' = (prv h)(b := a, hd (xs @ [a]) := last (b # ys))"
    using nz n3 n4 unfolding h'_def merge_list_def Let_def by simp_all
  have la: "last (b # ys) \<in> set (b # ys)" by (rule last_in_set) simp
  have ha: "hd (xs @ [a]) \<in> insert a (set xs)" by (cases xs) auto
  have link: "nxt h' a = b" "prv h' b = a"
    using la ha disj d by (auto simp: hn hp)
  have cyc: "chain h' b ys (hd (xs @ [a]))"
  proof (rule chain_redirect_end [OF cb d(2)])
    fix x assume "x \<in> set (butlast (b # ys))"
    moreover have "last (b # ys) \<notin> set (butlast (b # ys))"
      using d(2) by (metis append_butlast_last_id distinct_append list.set_intros(1)
          disjoint_iff list.distinct(1))
    ultimately show "nxt h' x = nxt h x"
      using disj in_set_butlastD [of x "b # ys"] by (auto simp: hn)
  next
    fix x assume "x \<in> set ys"
    then show "prv h' x = prv h x" using disj ha d by (auto simp: hp)
  next
    show "nxt h' (last (b # ys)) = hd (xs @ [a])" by (simp add: hn)
    show "prv h' (hd (xs @ [a])) = last (b # ys)" using ha disj by (auto simp: hp)
  qed
  have "chain h' a (b # ys @ xs) a"
  proof (cases xs)
    case Nil
    with cyc link show ?thesis by simp
  next
    case (Cons x xs')
    with ca have cx: "chain h x xs' a" by simp
    have "chain h' x xs' a"
    proof (rule chain_cong [OF cx])
      fix z
      have l: "last (b # ys) \<notin> set (a # xs)" using la disj by blast
      then show "nxt h' z = nxt h z" if "z \<in> insert x (set xs')"
        using that d Cons l by (auto simp: hn)
      show "prv h' z = prv h z" if "z \<in> insert a (set xs')"
        using that d disj Cons by (auto simp: hp)
    qed
    with cyc link Cons show ?thesis by (simp add: chain_append)
  qed
  then show "ring (snd (merge_list a b h)) (a # b # ys @ xs)"
    using a b disj by (auto simp: h'_def)
qed

text \<open>Inserting a node that is in no list puts it right behind the sentinel.\<close>

lemma insert_into_list_ring:
  assumes "ring h (l # xs)" and "n \<notin> set (l # xs)" and "n \<noteq> 0"
  shows "fst (insert_into_list l n h) = l"
    and "ring (snd (insert_into_list l n h)) (l # n # xs)"
proof -
  let ?h = "init_list_node n h"
  have "ring ?h (l # xs)"
    by (rule ring_frame [OF assms(1)]) (use assms(2) in \<open>auto simp: init_list_node_def\<close>)
  moreover have "ring ?h [n]" by (rule ring_singleton) fact
  ultimately show "fst (insert_into_list l n h) = l"
    and "ring (snd (insert_into_list l n h)) (l # n # xs)"
    using merge_list_ring [of ?h l xs n "[]"] assms(2) by (auto simp: insert_into_list_def)
qed

theorem detach_from_list_ring:
  assumes r: "ring h (n # xs)"
  shows "fst (detach_from_list n h) = (if xs = [] then 0 else last xs)"
    and "ring (snd (detach_from_list n h)) [n]"
    and "xs \<noteq> [] \<Longrightarrow> ring (snd (detach_from_list n h)) xs"
proof -
  have prv: "prv h n = last (n # xs)" and nxt: "nxt h n = hd (xs @ [n])"
    using r by (auto dest: chain_prv chain_nxt)
  have nn: "n \<noteq> 0" "n \<notin> set xs" using r by auto
  show "fst (detach_from_list n h) = (if xs = [] then 0 else last xs)"
  proof (cases "xs = []")
    case False
    then have "last xs \<noteq> n" using nn last_in_set [of xs] by auto
    with False prv show ?thesis by (simp add: detach_from_list_def Let_def)
  qed (use prv in \<open>simp add: detach_from_list_def Let_def\<close>)
  show "ring (snd (detach_from_list n h)) [n]"
    using nn by (simp add: detach_from_list_def Let_def init_list_node_def)
  show "ring (snd (detach_from_list n h)) xs" if "xs \<noteq> []"
  proof -
    obtain y ys where xs: "xs = y # ys" using \<open>xs \<noteq> []\<close> by (cases xs) auto
    define h' where "h' = snd (detach_from_list n h)"
    let ?l = "last (y # ys)"
    have l: "?l \<in> set (y # ys)" by (rule last_in_set) simp
    have p: "prv h n = ?l" "nxt h n = y" using prv nxt xs by simp_all
    have "?l \<noteq> n" using nn l xs by auto
    then have hn: "nxt h' = (nxt h)(?l := y, n := n)"
      and hp: "prv h' = (prv h)(y := ?l, n := n)"
      using p unfolding h'_def detach_from_list_def Let_def init_list_node_def by auto
    have d: "distinct (y # ys)" and c: "chain h y ys n" using r xs by auto
    have "chain h' y ys y"
    proof (rule chain_redirect_end [OF c d])
      fix x assume "x \<in> set (butlast (y # ys))"
      moreover have "?l \<notin> set (butlast (y # ys))"
        using d by (metis append_butlast_last_id distinct_append list.set_intros(1)
            disjoint_iff list.distinct(1))
      ultimately show "nxt h' x = nxt h x"
        using nn xs in_set_butlastD [of x "y # ys"] by (auto simp: hn)
    qed (use d nn xs l in \<open>auto simp: hn hp\<close>)
    then show ?thesis using r xs by (auto simp: h'_def)
  qed
qed

text \<open>Any member of a list can be detached; the others keep their order.\<close>

lemma detach_member_ring:
  assumes "ring h (l # xs)" and "n \<in> set xs"
  shows "ring (snd (detach_from_list n h)) (l # remove1 n xs)"
    and "fst (detach_from_list n h) \<noteq> 0"
proof -
  from \<open>n \<in> set xs\<close> obtain as bs where xs: "xs = as @ n # bs" and n: "n \<notin> set as"
    by (meson split_list_first)
  have "ring h ((l # as) @ (n # bs))" using assms(1) xs by simp
  then have r: "ring h (n # bs @ l # as)" using ring_rotate_to [of h "l # as" "n # bs"] by simp
  have "ring (snd (detach_from_list n h)) (bs @ l # as)"
    using detach_from_list_ring(3) [OF r] by simp
  then have "ring (snd (detach_from_list n h)) ((l # as) @ bs)"
    by (rule ring_rotate_to) simp
  then show "ring (snd (detach_from_list n h)) (l # remove1 n xs)"
    using xs n by (simp add: remove1_append)
  show "fst (detach_from_list n h) \<noteq> 0"
  proof -
    have "last (bs @ l # as) \<in> set (bs @ l # as)" by (rule last_in_set) simp
    then show ?thesis using detach_from_list_ring(1) [OF r] r
      by (metis append_is_Nil_conv list.distinct(1) list.set_intros(2) ring.simps(2))
  qed
qed

lemma empty_list_ring: "ring h (l # xs) \<Longrightarrow> empty_list l h = (xs = [])"
  by (cases xs) (auto simp: empty_list_def)

lemma for_in_list_from_chain:
  "chain h y ys l \<Longrightarrow> 0 \<notin> set (y # ys) \<Longrightarrow> l \<noteq> 0 \<Longrightarrow> l \<notin> set (y # ys) \<Longrightarrow>
    for_in_list_from h l y = Some (y # ys @ [l])"
proof (induction ys arbitrary: y)
  case Nil
  then have last: "for_in_list_from h l l = Some [l]"
    by (subst for_in_list_from.simps) (subst for_in_list_from.simps, simp)
  from Nil show ?case by (subst for_in_list_from.simps) (simp add: last)
next
  case (Cons z zs)
  then have "for_in_list_from h l z = Some (z # zs @ [l])"
    by (intro Cons.IH) auto
  with Cons.prems show ?case by (subst for_in_list_from.simps) simp
qed

text \<open>The walk ends, and it hands the loop body the sentinel as the last "member".\<close>

theorem for_in_list_ring:
  assumes "ring h (l # xs)"
  shows "for_in_list h l = Some (xs @ [l])"
proof (cases xs)
  case Nil
  then have "nxt h l = l" and "l \<noteq> 0" using assms by auto
  then have "for_in_list_from h l l = Some [l]"
    by (subst for_in_list_from.simps) (subst for_in_list_from.simps, simp)
  with Nil \<open>nxt h l = l\<close> show ?thesis by (simp add: for_in_list_def)
next
  case (Cons y ys)
  with assms have "chain h y ys l" and "nxt h l = y" and "l \<noteq> 0" and "0 \<notin> set (y # ys)"
    and "l \<notin> set (y # ys)" by auto
  with Cons show ?thesis by (simp add: for_in_list_def for_in_list_from_chain)
qed

section \<open>The queue is a FIFO\<close>

text \<open>
  The contract of a FIFO container, and what a client gets from it: elements come out in
  the order in which they went in.
\<close>

locale fifo =
  fixes holds :: "'q \<Rightarrow> 'a list \<Rightarrow> bool"
    and push :: "'a \<Rightarrow> 'q \<Rightarrow> 'q"
    and pop :: "'q \<Rightarrow> 'q outcome"
    and front :: "'q \<Rightarrow> 'a outcome"
    and is_empty :: "'q \<Rightarrow> bool"
    and valid :: "'a \<Rightarrow> bool"
  assumes holds_push: "holds q xs \<Longrightarrow> valid x \<Longrightarrow> x \<notin> set xs \<Longrightarrow> holds (push x q) (xs @ [x])"
    and holds_pop: "holds q (x # xs) \<Longrightarrow> \<exists>q'. pop q = Ok q' \<and> holds q' xs"
    and pop_empty: "holds q [] \<Longrightarrow> pop q = Panic"
    and front_hd: "holds q (x # xs) \<Longrightarrow> front q = Ok x"
    and is_empty_iff: "holds q xs \<Longrightarrow> is_empty q = (xs = [])"
begin

primrec take_out :: "nat \<Rightarrow> 'q \<Rightarrow> ('a list \<times> 'q) outcome" where
  "take_out 0 q = Ok ([], q)"
| "take_out (Suc n) q = andthen (front q) (\<lambda>x. andthen (pop q) (\<lambda>q'.
     andthen (take_out n q') (\<lambda>(xs, q''). Ok (x # xs, q''))))"

lemma holds_fold_push:
  "holds q xs \<Longrightarrow> distinct (xs @ ys) \<Longrightarrow> (\<forall>y\<in>set ys. valid y) \<Longrightarrow> holds (fold push ys q) (xs @ ys)"
proof (induction ys arbitrary: q xs)
  case Nil
  then show ?case by simp
next
  case (Cons y ys)
  then have "holds (push y q) (xs @ [y])" by (intro holds_push) auto
  then have "holds (fold push ys (push y q)) ((xs @ [y]) @ ys)"
    using Cons.prems by (intro Cons.IH) auto
  then show ?case by simp
qed

lemma take_out_holds:
  "holds q (xs @ ys) \<Longrightarrow> \<exists>q'. take_out (length xs) q = Ok (xs, q') \<and> holds q' ys"
proof (induction xs arbitrary: q)
  case Nil
  then show ?case by simp
next
  case (Cons x xs)
  then have h: "holds q (x # (xs @ ys))" by simp
  then obtain q1 where q1: "pop q = Ok q1" "holds q1 (xs @ ys)" using holds_pop by blast
  then obtain q2 where "take_out (length xs) q1 = Ok (xs, q2)" "holds q2 ys" using Cons.IH by blast
  with q1 front_hd [OF h] show ?case by auto
qed

lemma fifo_order:
  assumes "holds q []" and "distinct xs" and "\<forall>x\<in>set xs. valid x"
  shows "\<exists>q'. take_out (length xs) (fold push xs q) = Ok (xs, q') \<and> holds q' []"
  using holds_fold_push [of q "[]" xs] take_out_holds [of "fold push xs q" xs "[]"] assms by simp

end

definition queue_holds :: "queue \<times> links \<Rightarrow> addr list \<Rightarrow> bool" where
  "queue_holds = (\<lambda>(x, h) xs.
     if xs = [] then qbegin x = 0 \<and> qend x = 0 \<and> qsz x = 0
     else ring h xs \<and> qbegin x = hd xs \<and> qend x = last xs \<and> qsz x = int (length xs))"

lemma queue_holds_push:
  assumes "queue_holds q xs" and "x \<noteq> 0" and "x \<notin> set xs"
  shows "queue_holds (queue_push x q) (xs @ [x])"
proof -
  obtain c h where q: "q = (c, h)" by (cases q)
  let ?h = "init_list_node x h"
  have r1: "ring ?h [x]" by (rule ring_singleton) fact
  show ?thesis
  proof (cases "xs = []")
    case True
    with assms q r1 show ?thesis by (simp add: queue_holds_def queue_push_def Let_def)
  next
    case False
    then obtain ys z where xs: "xs = ys @ [z]" by (metis rev_exhaust)
    have "ring h xs" using assms(1) q False by (simp add: queue_holds_def)
    then have "ring ?h (ys @ [z])" unfolding xs [symmetric]
      by (rule ring_frame) (use assms(3) in \<open>auto simp: init_list_node_def\<close>)
    then have "ring ?h (z # ys)" using ring_rotate_to [of ?h ys "[z]"] by simp
    then have "ring (snd (merge_list z x ?h)) (z # x # ys)"
      using merge_list_ring(2) [of ?h z ys x "[]"] r1 assms(3) xs by auto
    then have "ring (snd (merge_list z x ?h)) (ys @ [z, x])"
      using ring_rotate_to [of _ "[z, x]" ys] by (cases "ys = []") auto
    with assms q False xs show ?thesis
      by (cases "merge_list z x ?h") (auto simp: queue_holds_def queue_push_def Let_def hd_append)
  qed
qed

lemma queue_holds_pop:
  assumes "queue_holds q (x # xs)"
  shows "\<exists>q'. queue_pop q = Ok q' \<and> queue_holds q' xs"
proof -
  obtain c h where q: "q = (c, h)" by (cases q)
  have r: "ring h (x # xs)" and c: "qbegin c = x" "qend c = last (x # xs)" "qsz c = 1 + int (length xs)"
    using assms q by (auto simp: queue_holds_def)
  show ?thesis
  proof (cases "xs = []")
    case True
    with c q show ?thesis by (simp add: queue_pop_def queue_holds_def)
  next
    case False
    have "ring (snd (detach_from_list x h)) xs" using detach_from_list_ring(3) [OF r False] .
    moreover have "nxt h x = hd xs" using ring_nxt_hd [OF r] False by simp
    ultimately show ?thesis using c q False by (auto simp: queue_pop_def queue_holds_def Let_def)
  qed
qed

interpretation kq: fifo queue_holds queue_push queue_pop "\<lambda>q. queue_front (fst q)"
  "\<lambda>q. queue_empty (fst q)" "\<lambda>x. x \<noteq> 0"
proof unfold_locales
  fix q :: "queue \<times> links" and x :: addr and xs :: "addr list"
  show "queue_holds q xs \<Longrightarrow> x \<noteq> 0 \<Longrightarrow> x \<notin> set xs \<Longrightarrow> queue_holds (queue_push x q) (xs @ [x])"
    by (rule queue_holds_push)
  show "queue_holds q (x # xs) \<Longrightarrow> \<exists>q'. queue_pop q = Ok q' \<and> queue_holds q' xs"
    by (rule queue_holds_pop)
  show "queue_holds q [] \<Longrightarrow> queue_pop q = Panic"
    by (cases q) (simp add: queue_holds_def queue_pop_def)
  show "queue_holds q (x # xs) \<Longrightarrow> queue_front (fst q) = Ok x"
    by (cases q) (auto simp: queue_holds_def queue_front_def)
  show "queue_holds q xs \<Longrightarrow> queue_empty (fst q) = (xs = [])"
    by (cases q) (auto simp: queue_holds_def queue_empty_def split: if_splits)
qed

end
