(* ===== verification/CString.thy ===== *)
theory CString
  imports Basics
begin

text \<open>
  \<^verbatim>\<open>src/common/string.c\<close>: the memory and string routines.  An object is the list of its bytes
  and a pointer into it is an index; an access outside of the object is undefined behaviour.
  The routines with \<^verbatim>\<open>restrict\<close> parameters have two objects, \<open>memmove\<close> has one.  A plain
  \<^verbatim>\<open>char\<close> is an unsigned byte on this processor.
\<close>

section \<open>Access to an object\<close>

definition ld :: "u8 list \<Rightarrow> nat \<Rightarrow> u8 outcome" where
  "ld bs i = (if i < length bs then Ok (bs ! i) else Undef)"

definition st8 :: "nat \<Rightarrow> u8 \<Rightarrow> u8 list \<Rightarrow> u8 list outcome" where
  "st8 i b bs = (if i < length bs then Ok (bs[i := b]) else Undef)"

definition splice :: "nat \<Rightarrow> 'a list \<Rightarrow> 'a list \<Rightarrow> 'a list" where
  "splice i xs bs = take i bs @ xs @ drop (i + length xs) bs"

lemma ld_Ok [simp]: "i < length bs \<Longrightarrow> ld bs i = Ok (bs ! i)"
  by (simp add: ld_def)

lemma st_Ok [simp]: "i < length bs \<Longrightarrow> st8 i b bs = Ok (bs[i := b])"
  by (simp add: st8_def)

lemma length_splice [simp]: "i + length xs \<le> length bs \<Longrightarrow> length (splice i xs bs) = length bs"
  by (simp add: splice_def)

lemma nth_splice:
  "i + length xs \<le> length bs \<Longrightarrow> j < length bs \<Longrightarrow>
    splice i xs bs ! j = (if i \<le> j \<and> j < i + length xs then xs ! (j - i) else bs ! j)"
  by (auto simp: splice_def nth_append)

section \<open>Memory routines\<close>

definition memset :: "nat \<Rightarrow> u8 \<Rightarrow> nat \<Rightarrow> u8 list \<Rightarrow> u8 list outcome" where
  "memset s c n bs = for_each (\<lambda>i bs. st8 (s + i) c bs) [0..<n] bs"

definition memcpy :: "nat \<Rightarrow> u8 list \<Rightarrow> nat \<Rightarrow> nat \<Rightarrow> u8 list \<Rightarrow> u8 list outcome" where
  "memcpy d src s n dest =
     for_each (\<lambda>i dest. andthen (ld src (s + i)) (\<lambda>b. st8 (d + i) b dest)) [0..<n] dest"

fun memcmp_loop :: "nat \<Rightarrow> nat \<Rightarrow> u8 list \<Rightarrow> u8 list \<Rightarrow> int outcome" where
  "memcmp_loop 0 i s1 s2 = Ok 0"
| "memcmp_loop (Suc k) i s1 s2 =
     andthen (ld s1 i) (\<lambda>c1. andthen (ld s2 i) (\<lambda>c2.
     if c1 \<noteq> c2 then Ok (uint c1 - uint c2) else memcmp_loop k (i + 1) s1 s2))"

definition memcmp :: "u8 list \<Rightarrow> u8 list \<Rightarrow> nat \<Rightarrow> int outcome" where
  "memcmp s1 s2 n = memcmp_loop n 0 s1 s2"

definition copy_byte :: "nat \<Rightarrow> nat \<Rightarrow> nat \<Rightarrow> u8 list \<Rightarrow> u8 list outcome" where
  "copy_byte d s i bs = andthen (ld bs (s + i)) (\<lambda>b. st8 (d + i) b bs)"

text \<open>\<^verbatim>\<open>memmove\<close> copies from the top when the destination starts inside the source.\<close>

definition memmove :: "nat \<Rightarrow> nat \<Rightarrow> nat \<Rightarrow> u8 list \<Rightarrow> u8 list outcome" where
  "memmove d s n bs =
     (if s < d \<and> d - s < n
      then for_each (copy_byte d s) (rev [0..<n]) bs
      else for_each (copy_byte d s) [0..<n] bs)"

section \<open>String routines\<close>

fun strncpy_loop :: "nat \<Rightarrow> nat \<Rightarrow> u8 list \<Rightarrow> u8 list \<Rightarrow> (nat \<times> u8 list) outcome" where
  "strncpy_loop 0 i src dest = Ok (i, dest)"
| "strncpy_loop (Suc k) i src dest =
     andthen (ld src i) (\<lambda>c.
     if c \<noteq> 0 then andthen (st8 i c dest) (strncpy_loop k (i + 1) src) else Ok (i, dest))"

definition strncpy :: "u8 list \<Rightarrow> nat \<Rightarrow> u8 list \<Rightarrow> u8 list outcome" where
  "strncpy src n dest =
     andthen (strncpy_loop n 0 src dest) (\<lambda>(i, dest). for_each (\<lambda>j dest. st8 j 0 dest) [i..<n] dest)"

definition strncpy_fast :: "u8 list \<Rightarrow> nat \<Rightarrow> u8 list \<Rightarrow> u8 list outcome" where
  "strncpy_fast src n dest =
     andthen (strncpy_loop n 0 src dest) (\<lambda>(i, dest). if i < n then st8 i 0 dest else Ok dest)"

fun strncmp_loop :: "nat \<Rightarrow> nat \<Rightarrow> u8 list \<Rightarrow> u8 list \<Rightarrow> int outcome" where
  "strncmp_loop 0 i s1 s2 = Ok 0"
| "strncmp_loop (Suc k) i s1 s2 =
     andthen (ld s1 i) (\<lambda>c1. andthen (ld s2 i) (\<lambda>c2.
     if c1 \<noteq> c2 then Ok (uint c1 - uint c2)
     else if c1 = 0 \<or> c2 = 0 then Ok 0
     else strncmp_loop k (i + 1) s1 s2))"

definition strncmp :: "u8 list \<Rightarrow> u8 list \<Rightarrow> nat \<Rightarrow> int outcome" where
  "strncmp s1 s2 n = strncmp_loop n 0 s1 s2"

function strlen_loop :: "nat \<Rightarrow> u8 list \<Rightarrow> nat outcome" where
  "strlen_loop i s =
     (if i < length s then (if s ! i \<noteq> 0 then strlen_loop (i + 1) s else Ok i) else Undef)"
  by pat_completeness auto
termination
  by (relation "measure (\<lambda>(i, s). length s - i)") auto

declare strlen_loop.simps [simp del]

definition strlen :: "u8 list \<Rightarrow> nat outcome" where
  "strlen s = strlen_loop 0 s"

section \<open>What the memory routines do\<close>

lemma splice_snoc:
  assumes "i + length xs < length bs"
  shows "(splice i xs bs)[i + length xs := x] = splice i (xs @ [x]) bs"
  using assms by (auto simp: nth_splice nth_list_update nth_append intro!: nth_equalityI)

lemma splice_Nil [simp]: "splice i [] bs = bs"
  by (simp add: splice_def)

text \<open>Filling an object from the front with any bytes.\<close>

lemma fill_upwards:
  assumes "\<And>i bs. i < n \<Longrightarrow> length bs = l \<Longrightarrow> f i bs = st8 (d + i) (g i) bs" and "d + n \<le> l" and "length bs = l"
  shows "for_each f [0..<n] bs = Ok (splice d (map g [0..<n]) bs)"
  using assms
proof (induction n)
  case (Suc n)
  have "for_each f [0..<n] bs = Ok (splice d (map g [0..<n]) bs)"
    by (rule Suc.IH) (use Suc.prems in simp_all)
  then show ?case using Suc.prems splice_snoc [of d "map g [0..<n]" bs "g n"]
    by (simp add: for_each_append)
qed simp

lemma memset_fills:
  "s + n \<le> length bs \<Longrightarrow> memset s c n bs = Ok (splice s (replicate n c) bs)"
  using fill_upwards [of n "length bs" "\<lambda>i bs. st8 (s + i) c bs" s "\<lambda>_. c" bs]
  by (simp add: memset_def map_replicate_trivial)

lemma map_nth_slice:
  "s + n \<le> length bs \<Longrightarrow> map (\<lambda>i. bs ! (s + i)) [0..<n] = take n (drop s bs)"
  by (rule nth_equalityI) auto

lemma memcpy_copies:
  assumes "s + n \<le> length src" and "d + n \<le> length dest"
  shows "memcpy d src s n dest = Ok (splice d (take n (drop s src)) dest)"
  using fill_upwards [of n "length dest" "\<lambda>i dest. andthen (ld src (s + i)) (\<lambda>b. st8 (d + i) b dest)" d
      "\<lambda>i. src ! (s + i)" dest] assms
  by (simp add: memcpy_def map_nth_slice)

text \<open>One pass of \<^verbatim>\<open>memmove\<close>: the bytes in \<open>done\<close> are copied, the source of the others is still intact.\<close>

lemma copy_bytes:
  assumes "s + n \<le> length bs" and "d + n \<le> length bs" and "set js \<subseteq> {..<n}" and "distinct js"
    and "\<forall>k<length js. \<forall>l<length js. k < l \<longrightarrow> d + js ! k \<noteq> s + js ! l"
  shows "\<exists>bs'. for_each (copy_byte d s) js bs = Ok bs' \<and> length bs' = length bs \<and>
    (\<forall>i<length bs. bs' ! i = (if i \<in> (+) d ` set js then bs ! (s + (i - d)) else bs ! i))"
  using assms
proof (induction js arbitrary: bs)
  case (Cons j js)
  let ?bs = "bs[d + j := bs ! (s + j)]"
  have j: "j < n" using Cons.prems(3) by simp
  have step: "copy_byte d s j bs = Ok ?bs" using Cons.prems(1,2) j by (simp add: copy_byte_def)
  have intact: "d + j \<noteq> s + k" if k: "k \<in> set js" for k
  proof -
    obtain l where "l < length js" "js ! l = k" using k by (auto simp: in_set_conv_nth)
    then show ?thesis using Cons.prems(5) [rule_format, of 0 "Suc l"] by simp
  qed
  have "\<exists>bs'. for_each (copy_byte d s) js ?bs = Ok bs' \<and> length bs' = length ?bs \<and>
    (\<forall>i<length ?bs. bs' ! i = (if i \<in> (+) d ` set js then ?bs ! (s + (i - d)) else ?bs ! i))"
  proof (rule Cons.IH)
    show "\<forall>k<length js. \<forall>l<length js. k < l \<longrightarrow> d + js ! k \<noteq> s + js ! l"
      using Cons.prems(5) by (metis Suc_less_eq length_Cons nth_Cons_Suc)
  qed (use Cons.prems(1-4) in simp_all)
  then obtain bs' where bs': "for_each (copy_byte d s) js ?bs = Ok bs'" "length bs' = length bs"
    "\<forall>i<length bs. bs' ! i = (if i \<in> (+) d ` set js then ?bs ! (s + (i - d)) else ?bs ! i)" by auto
  have "bs' ! i = (if i \<in> (+) d ` set (j # js) then bs ! (s + (i - d)) else bs ! i)" if i: "i < length bs" for i
    using bs'(3) [rule_format, OF i] intact Cons.prems(4) i by (auto simp: nth_list_update)
  then show ?case using step bs'(1,2) by simp
qed simp

lemma memmove_moves:
  assumes s: "s + n \<le> length bs" and d: "d + n \<le> length bs"
  shows "memmove d s n bs = Ok (splice d (take n (drop s bs)) bs)"
proof -
  have eq: "bs' = splice d (take n (drop s bs)) bs"
    if "length bs' = length bs" "\<forall>i<length bs. bs' ! i = (if i \<in> (+) d ` set js then bs ! (s + (i - d)) else bs ! i)"
      "set js = {..<n}" for bs' js
  proof (rule nth_equalityI)
    fix i assume "i < length bs'"
    then have "i < length bs" using that(1) by simp
    moreover have "i \<in> (+) d ` {..<n} \<longleftrightarrow> d \<le> i \<and> i < d + n"
      by (auto simp: image_iff) (metis add_diff_inverse_nat less_diff_conv2 not_less add.commute lessThan_iff nat_add_left_cancel_less)
    ultimately show "bs' ! i = splice d (take n (drop s bs)) bs ! i"
      using that(2,3) s d by (auto simp: nth_splice min_absorb2)
  qed (use that s d in \<open>simp add: min_absorb2\<close>)
  show ?thesis
  proof (cases "s < d \<and> d - s < n")
    case True
    have "\<exists>bs'. for_each (copy_byte d s) (rev [0..<n]) bs = Ok bs' \<and> length bs' = length bs \<and>
      (\<forall>i<length bs. bs' ! i = (if i \<in> (+) d ` set (rev [0..<n]) then bs ! (s + (i - d)) else bs ! i))"
      by (rule copy_bytes) (use True s d in \<open>auto simp: rev_nth\<close>)
    then show ?thesis using True eq [of _ "rev [0..<n]"] by (auto simp: memmove_def atLeast0LessThan)
  next
    case False
    have "\<exists>bs'. for_each (copy_byte d s) [0..<n] bs = Ok bs' \<and> length bs' = length bs \<and>
      (\<forall>i<length bs. bs' ! i = (if i \<in> (+) d ` set [0..<n] then bs ! (s + (i - d)) else bs ! i))"
      by (rule copy_bytes) (use False s d in auto)
    then show ?thesis using False eq [of _ "[0..<n]"] by (auto simp: memmove_def atLeast0LessThan)
  qed
qed

section \<open>What the string routines do\<close>

text \<open>A C string is its characters, none of them zero, then a zero byte.\<close>

lemma strlen_loop_string:
  "0 \<notin> set (drop i cs) \<Longrightarrow> i \<le> length cs \<Longrightarrow> strlen_loop i (cs @ 0 # r) = Ok (length cs)"
proof (induction i "cs @ 0 # r" rule: strlen_loop.induct)
  case (1 i)
  show ?case
  proof (cases "i = length cs")
    case False
    then have i: "i < length cs" using 1(3) by simp
    then have "drop i cs = cs ! i # drop (Suc i) cs" by (simp add: Cons_nth_drop_Suc)
    with 1(2) have "cs ! i \<noteq> 0" "0 \<notin> set (drop (i + 1) cs)" by auto
    with i 1(1) show ?thesis by (subst strlen_loop.simps) (simp add: nth_append)
  qed (simp add: strlen_loop.simps)
qed

lemma strlen_string: "0 \<notin> set cs \<Longrightarrow> strlen (cs @ 0 # r) = Ok (length cs)"
  by (simp add: strlen_def strlen_loop_string)

lemma strlen_loop_runs_off: "0 \<notin> set (drop i s) \<Longrightarrow> strlen_loop i s = Undef"
proof (induction i s rule: strlen_loop.induct)
  case (1 i s)
  show ?case
  proof (cases "i < length s")
    case True
    then have "drop i s = s ! i # drop (Suc i) s" by (simp add: Cons_nth_drop_Suc)
    with 1(2) have "s ! i \<noteq> 0" "0 \<notin> set (drop (i + 1) s)" by auto
    with True 1(1) show ?thesis by (subst strlen_loop.simps) simp
  qed (simp add: strlen_loop.simps)
qed

lemma strlen_runs_off: "0 \<notin> set s \<Longrightarrow> strlen s = Undef"
  by (simp add: strlen_def strlen_loop_runs_off)

lemma compare_loops_shift:
  "memcmp_loop k (Suc i) (a # s1) (b # s2) = memcmp_loop k i s1 s2"
  "strncmp_loop k (Suc i) (a # s1) (b # s2) = strncmp_loop k i s1 s2"
  by (induction k arbitrary: i) (simp_all add: ld_def)

lemma strncpy_loop_shift:
  "strncpy_loop k (Suc i) (a # src) (b # dest) =
     andthen (strncpy_loop k i src dest) (\<lambda>(j, d). Ok (Suc j, b # d))"
proof (induction k arbitrary: i dest)
  case (Suc k)
  show ?case
  proof (cases "i < length src \<and> src ! i \<noteq> 0")
    case True
    then show ?thesis using Suc [of "i + 1" "dest[i := src ! i]"] by (cases "i < length dest") (simp_all add: ld_def st8_def)
  qed (auto simp: ld_def)
qed simp

lemma memcmp_strings:
  assumes "0 \<notin> set a" and "0 \<notin> set b" and "n = max (length a) (length b)"
  shows "\<exists>v. memcmp (a @ 0 # r) (b @ 0 # r') n = Ok v \<and> (v = 0 \<longleftrightarrow> a = b)"
  using assms
proof (induction a arbitrary: b n)
  case Nil
  then show ?case by (cases b) (simp_all add: memcmp_def ld_def uint_0_iff)
next
  case (Cons x a)
  then have x: "x \<noteq> 0" by auto
  have "n \<noteq> 0" using Cons.prems(3) by simp
  then obtain k where n: "n = Suc k" by (metis not0_implies_Suc)
  show ?case
  proof (cases b)
    case Nil
    then show ?thesis using x n by (simp add: memcmp_def ld_def uint_0_iff)
  next
    case (Cons y b')
    with Cons.prems n have "0 \<notin> set a" "0 \<notin> set b'" "k = max (length a) (length b')" by simp_all
    from Cons.IH [OF this] show ?thesis
      using Cons n compare_loops_shift(1) [of k 0] by (auto simp: memcmp_def word_uint_eq_iff)
  qed
qed

lemma strncmp_strings:
  assumes "0 \<notin> set a" and "0 \<notin> set b"
  shows "\<exists>v. strncmp (a @ 0 # r) (b @ 0 # r') n = Ok v \<and> (v = 0 \<longleftrightarrow> take n a = take n b)"
  using assms
proof (induction n arbitrary: a b)
  case (Suc n)
  show ?case
  proof (cases "a = [] \<or> b = []")
    case True
    then show ?thesis using Suc.prems by (cases a; cases b) (auto simp: strncmp_def uint_0_iff)
  next
    case False
    then obtain x a' y b' where ab: "a = x # a'" "b = y # b'" by (metis neq_Nil_conv)
    with Suc.prems have z: "x \<noteq> 0" "y \<noteq> 0" "0 \<notin> set a'" "0 \<notin> set b'" by auto
    from Suc.IH [OF z(3,4)] show ?thesis
      using ab z(1,2) compare_loops_shift(2) [of n 0] by (auto simp: strncmp_def word_uint_eq_iff)
  qed
qed (simp add: strncmp_def)

lemma strncpy_loop_string:
  assumes "0 \<notin> set cs" and "k \<le> length dest"
  shows "strncpy_loop k 0 (cs @ 0 # r) dest =
    Ok (min k (length cs), splice 0 (take k cs) dest)"
  using assms
proof (induction k arbitrary: cs dest)
  case (Suc k)
  obtain b d where dest: "dest = b # d" using Suc.prems(2) by (cases dest) simp_all
  show ?case
  proof (cases cs)
    case (Cons c cs')
    with Suc.prems dest have "strncpy_loop k 0 (cs' @ 0 # r) d = Ok (min k (length cs'), splice 0 (take k cs') d)"
      by (intro Suc.IH) simp_all
    then show ?thesis using Cons Suc.prems dest strncpy_loop_shift [of k 0 c "cs' @ 0 # r" c d]
      by (auto simp: splice_def)
  qed simp
qed simp

lemma strncpy_string:
  assumes "0 \<notin> set cs" and "n \<le> length dest"
  shows "strncpy (cs @ 0 # r) n dest = Ok (splice 0 (take n cs @ replicate (n - length cs) 0) dest)"
proof -
  let ?i = "min n (length cs)" and ?d = "splice 0 (take n cs) dest"
  have len: "length ?d = length dest" using assms(2) by simp
  have "map ((+) ?i) [0..<n - ?i] = [?i..<n]" by (rule nth_equalityI) simp_all
  then have "for_each (\<lambda>j dest. st8 j 0 dest) [?i..<n] ?d = for_each (\<lambda>j. st8 (?i + j) 0) [0..<n - ?i] ?d"
    using for_each_map [of "\<lambda>j. st8 j 0" "(+) ?i" "[0..<n - ?i]" ?d] by simp
  also have "\<dots> = Ok (splice ?i (map (\<lambda>_. 0) [0..<n - ?i]) ?d)"
    by (rule fill_upwards [where l = "length dest"]) (use assms len in simp_all)
  also have "splice ?i (map (\<lambda>_. 0) [0..<n - ?i]) ?d = splice 0 (take n cs @ replicate (n - length cs) 0) dest"
    using assms(2) by (auto simp: splice_def map_replicate_trivial min_def)
  finally show ?thesis using strncpy_loop_string [OF assms] by (simp add: strncpy_def)
qed

end
