(* ===== verification/Format.thy ===== *)
theory Format
  imports CString
begin

text \<open>
  \<^verbatim>\<open>src/common/format.c\<close>: formatted output, as the list of characters passed to the \<^verbatim>\<open>put_char\<close>
  callback.  The variadic arguments are a list; reading an argument at another type than it was
  passed with is undefined behaviour.
\<close>

section \<open>Numbers\<close>

definition digit :: "nat \<Rightarrow> u8" where
  "digit d = (if d < 10 then word_of_nat (48 + d) else word_of_nat (87 + d))"

text \<open>The first \<^verbatim>\<open>do ... while\<close> loop: the digits in \<^verbatim>\<open>buf\<close>, the least significant first.\<close>

function int_digits :: "nat \<Rightarrow> nat \<Rightarrow> u8 list" where
  "int_digits v base =
     (if v div base = 0 \<or> base < 2 then [digit (v mod base)]
      else digit (v mod base) # int_digits (v div base) base)"
  by pat_completeness auto
termination
  by (relation "measure fst") (auto simp: div_greater_zero_iff intro: div_less_dividend)

declare int_digits.simps [simp del]

definition print_int :: "u64 \<Rightarrow> nat \<Rightarrow> bool \<Rightarrow> u8 list" where
  "print_int u base is_signed =
     (let negative = is_signed \<and> u <s 0;
          v = (if negative then - u else u)
      in (if negative then [45] else []) @ rev (int_digits (unat v) base))"

section \<open>Conversion specifications\<close>

datatype farg = A_int u32 | A_long u64 | A_str "u8 list option"

definition chars :: "string \<Rightarrow> u8 list" where
  "chars s = map of_char s"

text \<open>The cases of \<^verbatim>\<open>_INT_CASE\<close>, in the order of the source: identifier, width, base, signedness.\<close>

definition int_cases :: "(u8 list \<times> bool \<times> nat \<times> bool) list" where
  "int_cases = [(chars ''u'', False, 10, False), (chars ''llu'', True, 10, False),
     (chars ''d'', False, 10, True), (chars ''lld'', True, 10, True),
     (chars ''x'', False, 16, False), (chars ''llx'', True, 16, False),
     (chars ''p'', True, 16, False), (chars ''zu'', True, 10, False), (chars ''zd'', True, 10, True)]"

definition int_arg :: "bool \<Rightarrow> bool \<Rightarrow> farg list \<Rightarrow> (u64 \<times> farg list) outcome" where
  "int_arg long is_signed args =
     (case args of
        A_int w # as \<Rightarrow> if long then Undef else Ok (if is_signed then scast w else ucast w, as)
      | A_long w # as \<Rightarrow> if long then Ok (w, as) else Undef
      | _ \<Rightarrow> Undef)"

text \<open>\<^verbatim>\<open>pos\<close> is the rest of the format without its terminating zero; reading at its end reads that zero.\<close>

fun match_case :: "(u8 list \<times> bool \<times> nat \<times> bool) list \<Rightarrow> u8 list \<Rightarrow> (u8 list \<times> bool \<times> nat \<times> bool) option outcome" where
  "match_case [] pos = Ok None"
| "match_case ((ident, k) # cs) pos =
     andthen (strncmp (pos @ [0]) (ident @ [0]) (length ident)) (\<lambda>r.
     if r = 0 then Ok (Some (ident, k)) else match_case cs pos)"

function vformat :: "u8 list \<Rightarrow> farg list \<Rightarrow> u8 list outcome" where
  "vformat [] args = Ok []"
| "vformat (c # pos) args =
     (if c = 37 then
        (if take 1 pos = chars ''%'' then andthen (vformat (drop 1 pos) args) (\<lambda>r. Ok (37 # r))
         else if take 1 pos = chars ''c'' then
           (case args of A_int w # as \<Rightarrow> andthen (vformat (drop 1 pos) as) (\<lambda>r. Ok (ucast w # r)) | _ \<Rightarrow> Undef)
         else if take 1 pos = chars ''s'' then
           (case args of
              A_str str # as \<Rightarrow>
                (let cs = (case str of None \<Rightarrow> chars ''(null)'' | Some cs \<Rightarrow> cs)
                 in andthen (vformat (drop 1 pos) as) (\<lambda>r. Ok (cs @ r)))
            | _ \<Rightarrow> Undef)
         else andthen (match_case int_cases pos) (\<lambda>m.
           case m of
             Some (ident, long, base, is_signed) \<Rightarrow>
               andthen (int_arg long is_signed args) (\<lambda>(u, as).
               andthen (vformat (drop (length ident) pos) as) (\<lambda>r. Ok (print_int u base is_signed @ r)))
           | None \<Rightarrow> andthen (vformat pos args) (\<lambda>r. Ok (c # r))))
      else andthen (vformat pos args) (\<lambda>r. Ok (c # r)))"
  by pat_completeness auto
termination
  by (relation "measure (\<lambda>(pos, args). length pos)") auto

section \<open>Reading the digits back\<close>

definition digit_value :: "u8 \<Rightarrow> nat" where
  "digit_value c = (if unat c < 58 then unat c - 48 else unat c - 87)"

fun digits_value :: "nat \<Rightarrow> u8 list \<Rightarrow> nat" where
  "digits_value base [] = 0"
| "digits_value base (c # cs) = digit_value c + base * digits_value base cs"

definition parse_int :: "nat \<Rightarrow> u8 list \<Rightarrow> int" where
  "parse_int base cs =
     (case cs of [] \<Rightarrow> 0
      | c # ds \<Rightarrow> if c = 45 then - int (digits_value base (rev ds)) else int (digits_value base (rev cs)))"

lemma unat_digit: "d < 16 \<Longrightarrow> unat (digit d) = (if d < 10 then 48 + d else 87 + d)"
  by (auto simp: digit_def unat_byte_of_nat simp del: of_nat_add)

lemma digit_value_digit: "d < 16 \<Longrightarrow> digit_value (digit d) = d"
  by (auto simp: digit_value_def unat_digit)

lemma digit_not_minus: "d < 16 \<Longrightarrow> digit d \<noteq> 45"
  using unat_digit [of d] by (auto split: if_splits)

lemma mod_base_less: "2 \<le> base \<Longrightarrow> base \<le> 16 \<Longrightarrow> v mod base < (16::nat)"
  using mod_less_divisor [of base v] by linarith

lemma digits_value_int_digits:
  "2 \<le> base \<Longrightarrow> base \<le> 16 \<Longrightarrow> digits_value base (int_digits v base) = v"
proof (induction v base rule: int_digits.induct)
  case (1 v base)
  have d: "v mod base < 16" using 1(2,3) by (rule mod_base_less)
  show ?case
  proof (cases "v div base = 0 \<or> base < 2")
    case True
    then have "v mod base = v" using 1(2) by (auto simp: div_eq_0_iff)
    with True d show ?thesis by (simp add: int_digits.simps digit_value_digit)
  next
    case False
    then show ?thesis using 1 d by (subst int_digits.simps) (simp add: digit_value_digit mult.commute)
  qed
qed

lemma int_digits_ne: "int_digits v base \<noteq> []"
  by (subst int_digits.simps) simp

lemma int_digits_no_minus: "2 \<le> base \<Longrightarrow> base \<le> 16 \<Longrightarrow> 45 \<notin> set (int_digits v base)"
proof (induction v base rule: int_digits.induct)
  case (1 v base)
  have d: "v mod base < 16" using 1(2,3) by (rule mod_base_less)
  show ?case
    using 1 digit_not_minus [OF d] by (subst int_digits.simps) auto
qed

text \<open>At most one digit for each factor of the base below the value: 64 bytes of \<^verbatim>\<open>buf\<close> are enough.\<close>

lemma length_int_digits: "2 \<le> base \<Longrightarrow> v < base ^ Suc k \<Longrightarrow> length (int_digits v base) \<le> Suc k"
proof (induction k arbitrary: v)
  case 0
  then show ?case by (subst int_digits.simps) simp
next
  case (Suc k)
  show ?case
  proof (cases "v div base = 0 \<or> base < 2")
    case False
    have "v div base < base ^ Suc k"
      using Suc.prems by (simp add: less_mult_imp_div_less mult.commute mult.left_commute)
    from Suc.IH [OF Suc.prems(1) this] False show ?thesis by (subst int_digits.simps) simp
  qed (simp add: int_digits.simps)
qed

lemma sint_u64: "sint (u :: u64) = (if uint u < 2 ^ 63 then uint u else uint u - 2 ^ 64)"
proof -
  have ub: "0 \<le> uint u" "uint u < 2 ^ 64" using uint_lt2p [of u] by simp_all
  have "sint u = (uint u + 2 ^ 63) mod 2 ^ 64 - 2 ^ 63"
    by (simp add: sint_uint signed_take_bit_eq_take_bit_shift take_bit_eq_mod)
  moreover have "(uint u + 2 ^ 63) mod 2 ^ 64 = uint u + 2 ^ 63" if "uint u < 2 ^ 63"
    using that ub by (intro mod_pos_pos_trivial) simp_all
  moreover have "(uint u + 2 ^ 63) mod 2 ^ 64 = uint u - 2 ^ 63" if "\<not> uint u < 2 ^ 63"
    using that ub mod_pos_pos_trivial [of "uint u - 2 ^ 63" "2 ^ 64"] mod_add_self2 [of "uint u - 2 ^ 63" "2 ^ 64"]
    by (simp add: add.commute)
  ultimately show ?thesis by simp
qed

lemma parse_print_int:
  assumes "2 \<le> base" and "base \<le> 16"
  shows "parse_int base (print_int u base is_signed) = (if is_signed then sint u else uint u)"
proof -
  let ?neg = "is_signed \<and> u <s 0"
  have readback: "digits_value base (int_digits (unat v) base) = unat v" for v :: u64
    using digits_value_int_digits assms by blast
  obtain c ds where r: "rev (int_digits (unat u) base) = c # ds"
    using int_digits_ne [of "unat u" base] by (metis neq_Nil_conv rev_is_Nil_conv)
  then have "c \<in> set (int_digits (unat u) base)" by (metis list.set_intros(1) set_rev)
  then have c: "c \<noteq> 45" using int_digits_no_minus assms by metis
  have rr: "rev ds @ [c] = int_digits (unat u) base" using r by (metis rev.simps(2) rev_rev_ident)
  have pos: "parse_int base (rev (int_digits (unat u) base)) = uint u"
    using c readback [of u] rr by (simp add: parse_int_def r)
  show ?thesis
  proof (cases ?neg)
    case True
    have s: "sint u < 0" using True by (simp add: word_sless_alt)
    have ub: "0 \<le> uint u" "uint u < 2 ^ 64" using uint_lt2p [of u] by simp_all
    then have m: "uint u = sint u + 2 ^ 64" "2 ^ 63 \<le> uint u"
      using s unfolding sint_u64 by (simp_all split: if_splits)
    have "uint (- u) = (- uint u) mod 2 ^ 64" by (simp add: uint_word_ariths)
    also have "\<dots> = (2 ^ 64 - uint u) mod 2 ^ 64"
      using mod_add_self1 [of "2 ^ 64" "- uint u"] by simp
    also have "\<dots> = 2 ^ 64 - uint u" using s m ub by (intro mod_pos_pos_trivial) simp_all
    finally have "int (unat (- u)) = - sint u" using m by simp
    with True readback [of "- u"] show ?thesis by (simp add: print_int_def parse_int_def)
  next
    case False
    have "is_signed \<Longrightarrow> sint u = uint u"
      using False uint_lt2p [of u] by (simp add: word_sless_alt sint_u64 split: if_splits)
    with False pos show ?thesis by (auto simp: print_int_def)
  qed
qed

end
