(* ===== verification/BlockCache.thy ===== *)
theory BlockCache
  imports CacheAlloc
begin

text \<open>
  The interface between the inode layer and the block cache: \<^verbatim>\<open>struct BlockCache\<close> of
  \<^verbatim>\<open>src/fs/cache.h\<close> as a record of operations, the laws its clients rely on, and the proof
  that the table \<^verbatim>\<open>bcache\<close> at the end of \<^verbatim>\<open>src/fs/cache.c\<close> obeys them.
\<close>

section \<open>The table of operations\<close>

record 'c block_cache =
  bc_num :: "'c \<Rightarrow> nat"
  bc_acquire :: "nat \<Rightarrow> 'c \<Rightarrow> 'c outcome"
  bc_release :: "nat \<Rightarrow> 'c \<Rightarrow> 'c outcome"
  bc_begin_op :: "'c \<Rightarrow> (op_context \<times> 'c) outcome"
  bc_sync :: "op_context option \<Rightarrow> nat \<Rightarrow> 'c \<Rightarrow> (op_context option \<times> 'c) outcome"
  bc_end_op :: "'c \<Rightarrow> 'c outcome"
  bc_alloc :: "op_context option \<Rightarrow> 'c \<Rightarrow> (nat \<times> op_context option \<times> 'c) outcome"
  bc_free :: "op_context option \<Rightarrow> nat \<Rightarrow> 'c \<Rightarrow> (op_context option \<times> 'c) outcome"
  bc_data :: "nat \<Rightarrow> 'c \<Rightarrow> u8 list"
  bc_set :: "nat \<Rightarrow> u8 list \<Rightarrow> 'c \<Rightarrow> 'c"

definition bcache :: "cache_sys block_cache" where
  "bcache = \<lparr>bc_num = get_num_cached_blocks, bc_acquire = cache_acquire, bc_release = cache_release,
     bc_begin_op = cache_begin_op, bc_sync = cache_sync, bc_end_op = cache_end_op,
     bc_alloc = cache_alloc, bc_free = cache_free, bc_data = block_data, bc_set = set_block_data\<rparr>"

section \<open>The laws\<close>

text \<open>
  \<open>ok c s\<close>: the cache is well formed and the operation with context \<open>c\<close> can still sync
  \<open>rm c\<close> new blocks; \<open>view\<close> is the content of every block as the callers see it; \<open>held\<close> are
  the acquired blocks; \<open>clean\<close> are the blocks whose changes have been synced; \<open>fit\<close> are the
  block numbers that a caller may use (the log is not among them).
\<close>

locale cache_client =
  fixes bc :: "'c block_cache"
    and ok :: "op_context \<Rightarrow> 'c \<Rightarrow> bool"
    and view :: "'c \<Rightarrow> nat \<Rightarrow> u8 list"
    and held :: "'c \<Rightarrow> nat set"
    and clean :: "'c \<Rightarrow> nat set"
    and fit :: "'c \<Rightarrow> nat set"
  assumes acquire: "ok c s \<Longrightarrow> n \<notin> held s \<Longrightarrow> n \<in> fit s \<Longrightarrow>
      \<exists>s'. bc_acquire bc n s = Ok s' \<and> ok c s' \<and> view s' = view s \<and> held s' = insert n (held s) \<and>
        clean s' = clean s \<and> fit s' = fit s"
    and release: "ok c s \<Longrightarrow> n \<in> held s \<Longrightarrow> n \<in> clean s \<Longrightarrow>
      \<exists>s'. bc_release bc n s = Ok s' \<and> ok c s' \<and> view s' = view s \<and> held s' = held s - {n} \<and>
        clean s' = clean s \<and> fit s' = fit s"
    and data_held: "ok c s \<Longrightarrow> n \<in> held s \<Longrightarrow> bc_data bc n s = view s n"
    and set_held: "ok c s \<Longrightarrow> n \<in> held s \<Longrightarrow> length bs = BLOCK_SIZE \<Longrightarrow>
      ok c (bc_set bc n bs s) \<and> view (bc_set bc n bs s) = (view s)(n := bs) \<and>
        held (bc_set bc n bs s) = held s \<and> clean s - {n} \<subseteq> clean (bc_set bc n bs s) \<and> fit (bc_set bc n bs s) = fit s"
    and sync: "ok c s \<Longrightarrow> n \<in> held s \<Longrightarrow> n \<in> fit s \<Longrightarrow> 0 < rm c \<Longrightarrow>
      \<exists>c' s'. bc_sync bc (Some c) n s = Ok (Some c', s') \<and> ok c' s' \<and> view s' = view s \<and> held s' = held s \<and>
        clean s' = insert n (clean s) \<and> fit s' = fit s \<and> rm c \<le> rm c' + 1"
    and clean_unheld: "ok c s \<Longrightarrow> n \<notin> held s \<Longrightarrow> n \<in> clean s"
    and length_view: "ok c s \<Longrightarrow> length (view s n) = BLOCK_SIZE"
begin

text \<open>Reading a block: acquire, look, release.\<close>

lemma look:
  assumes "ok c s" and "n \<notin> held s" and "n \<in> fit s"
  obtains s1 s2 where "bc_acquire bc n s = Ok s1" and "bc_data bc n s1 = view s n" and "bc_release bc n s1 = Ok s2"
    and "ok c s2" and "view s2 = view s" and "held s2 = held s" and "clean s2 = clean s" and "fit s2 = fit s"
proof -
  obtain s1 where 1: "bc_acquire bc n s = Ok s1" "ok c s1" "view s1 = view s" "held s1 = insert n (held s)"
    "clean s1 = clean s" "fit s1 = fit s"
    using acquire [OF assms] by auto
  have "n \<in> clean s1" using clean_unheld [OF assms(1,2)] 1 by simp
  with 1(2,4) obtain s2 where 2: "bc_release bc n s1 = Ok s2" "ok c s2" "view s2 = view s1" "held s2 = held s1 - {n}"
    "clean s2 = clean s1" "fit s2 = fit s1"
    using release [of c s1 n] by auto
  show thesis
    by (rule that [OF 1(1) _ 2(1)]) (use 1 2 data_held [OF 1(2)] assms(2) in simp_all)
qed

text \<open>Changing a block: acquire, set, sync, release.\<close>

lemma change:
  assumes "ok c s" and "n \<notin> held s" and "n \<in> fit s" and "0 < rm c" and "length bs = BLOCK_SIZE"
  obtains s1 c' s2 s3 where "bc_acquire bc n s = Ok s1" and "bc_data bc n s1 = view s n"
    and "bc_sync bc (Some c) n (bc_set bc n bs s1) = Ok (Some c', s2)" and "bc_release bc n s2 = Ok s3"
    and "ok c' s3" and "view s3 = (view s)(n := bs)" and "held s3 = held s" and "fit s3 = fit s" and "rm c \<le> rm c' + 1"
proof -
  obtain s1 where 1: "bc_acquire bc n s = Ok s1" "ok c s1" "view s1 = view s" "held s1 = insert n (held s)"
    "clean s1 = clean s" "fit s1 = fit s"
    using acquire [OF assms(1-3)] by auto
  let ?t = "bc_set bc n bs s1"
  have n: "n \<in> held s1" using 1(4) by simp
  note t = set_held [OF 1(2) n assms(5)]
  obtain c' s2 where 2: "bc_sync bc (Some c) n ?t = Ok (Some c', s2)" "ok c' s2" "view s2 = view ?t" "held s2 = held ?t"
    "clean s2 = insert n (clean ?t)" "fit s2 = fit ?t" "rm c \<le> rm c' + 1"
    using sync [of c ?t n] t n 1(6) assms(3,4) by auto
  obtain s3 where 3: "bc_release bc n s2 = Ok s3" "ok c' s3" "view s3 = view s2" "held s3 = held s2 - {n}"
    "fit s3 = fit s2"
    using release [OF 2(2), of n] 2(4,5) t n by auto
  show thesis
    by (rule that [OF 1(1) _ 2(1) 3(1) 3(2)]) (use 1 2 3 t data_held [OF 1(2) n] assms(2) in auto)
qed

end

section \<open>The global cache obeys the laws\<close>

definition synced :: "cache_sys \<Rightarrow> nat set" where
  "synced s = apin (abs_cache s) \<union> {n. aview (abs_cache s) n = store s n}"

definition usable :: "cache_sys \<Rightarrow> nat set" where
  "usable s = {n. n \<notin> log_area (sblock s) \<and> n < 2 ^ 64}"

interpretation bc: cache_client bcache op_ok "\<lambda>s. aview (abs_cache s)" "\<lambda>s. aheld (abs_cache s)" synced usable
proof unfold_locales
  fix c s n
  assume ok: "op_ok c s" and "n \<notin> aheld (abs_cache s)" and "n \<in> usable s"
  then obtain s' where "cache_acquire n s = Ok s'" "op_ok c s'" "same_disk s s'"
    "aview (abs_cache s') = aview (abs_cache s)" "aheld (abs_cache s') = insert n (aheld (abs_cache s))"
    "apin (abs_cache s') = apin (abs_cache s)"
    using op_acquire [of c s n] by (auto simp: usable_def)
  then show "\<exists>s'. bc_acquire bcache n s = Ok s' \<and> op_ok c s' \<and> aview (abs_cache s') = aview (abs_cache s) \<and>
      aheld (abs_cache s') = insert n (aheld (abs_cache s)) \<and> synced s' = synced s \<and> usable s' = usable s"
    by (auto simp: bcache_def synced_def usable_def same_disk_def)
next
  fix c s n
  assume ok: "op_ok c s" and "n \<in> aheld (abs_cache s)" and "n \<in> synced s"
  then obtain s' where "cache_release n s = Ok s'" "op_ok c s'" "same_disk s s'"
    "aview (abs_cache s') = aview (abs_cache s)" "aheld (abs_cache s') = aheld (abs_cache s) - {n}"
    "apin (abs_cache s') = apin (abs_cache s)"
    using op_release [of c s n] by (auto simp: synced_def)
  then show "\<exists>s'. bc_release bcache n s = Ok s' \<and> op_ok c s' \<and> aview (abs_cache s') = aview (abs_cache s) \<and>
      aheld (abs_cache s') = aheld (abs_cache s) - {n} \<and> synced s' = synced s \<and> usable s' = usable s"
    by (auto simp: bcache_def synced_def usable_def same_disk_def)
next
  fix c s n
  assume "op_ok c s" and "n \<in> aheld (abs_cache s)"
  then show "bc_data bcache n s = aview (abs_cache s) n"
    using abs_view_held [of n s] by (simp add: bcache_def)
next
  fix c s n and bs :: "u8 list"
  assume "op_ok c s" and "n \<in> aheld (abs_cache s)" and "length bs = BLOCK_SIZE"
  from op_set_data [OF this]
  show "op_ok c (bc_set bcache n bs s) \<and> aview (abs_cache (bc_set bcache n bs s)) = (aview (abs_cache s))(n := bs) \<and>
      aheld (abs_cache (bc_set bcache n bs s)) = aheld (abs_cache s) \<and> synced s - {n} \<subseteq> synced (bc_set bcache n bs s) \<and>
      usable (bc_set bcache n bs s) = usable s"
    by (auto simp: bcache_def synced_def usable_def same_disk_def)
next
  fix c s n
  assume "op_ok c s" and "n \<in> aheld (abs_cache s)" and "n \<in> usable s" and "0 < rm c"
  then obtain c' s' where "cache_sync (Some c) n s = Ok (Some c', s')" "op_ok c' s'" "same_disk s s'"
    "aview (abs_cache s') = aview (abs_cache s)" "aheld (abs_cache s') = aheld (abs_cache s)"
    "apin (abs_cache s') = insert n (apin (abs_cache s))"
    "rm c' = (if n \<in> set (logged (header s)) then rm c else rm c - 1)"
    using op_sync [of c s n] by (auto simp: usable_def)
  then show "\<exists>c' s'. bc_sync bcache (Some c) n s = Ok (Some c', s') \<and> op_ok c' s' \<and>
      aview (abs_cache s') = aview (abs_cache s) \<and> aheld (abs_cache s') = aheld (abs_cache s) \<and>
      synced s' = insert n (synced s) \<and> usable s' = usable s \<and> rm c \<le> rm c' + 1"
    by (intro exI [of _ c'] exI [of _ s']) (auto simp: bcache_def synced_def usable_def same_disk_def)
next
  fix c s n
  assume "op_ok c s" and "n \<notin> aheld (abs_cache s)"
  then show "n \<in> synced s"
    using view_clean [of s n] by (auto simp: synced_def op_ok_def log_ok_def)
next
  fix c s n
  assume "op_ok c s"
  then show "length (aview (abs_cache s) n) = BLOCK_SIZE" by (rule op_view_length)
qed

end
