(* ===== verification/Console.thy ===== *)
theory Console
  imports CString Sem
begin

text \<open>
  \<^verbatim>\<open>src/kernel/console.c\<close>: the line-editing console.  \<open>tty\<close> is what has been passed to
  \<^verbatim>\<open>uart_put_char\<close>.  The three indices are \<^verbatim>\<open>usize\<close> and run through the ring of 128 bytes.
  The unlock and lock of the inode around \<^verbatim>\<open>console_read\<close> and \<^verbatim>\<open>console_write\<close> are at
  the call sites in the inode layer.
\<close>

section \<open>State and operations\<close>

definition IBUF_SIZE :: nat where "IBUF_SIZE = 128"

record console =
  conslock :: spinlock
  consem :: semaphore
  cbuf :: "u8 list"
  read_idx :: u64
  write_idx :: u64
  edit_idx :: u64
  tty :: "u8 list"

definition console_init :: "console \<Rightarrow> console" where
  "console_init s = s\<lparr>conslock := init_spinlock, consem := init_sem 0\<rparr>"

definition uart_put_char :: "u8 \<Rightarrow> console \<Rightarrow> console" where
  "uart_put_char c s = s\<lparr>tty := tty s @ [c]\<rparr>"

definition BACKSPACE :: int where "BACKSPACE = 256"

definition consputc :: "int \<Rightarrow> console \<Rightarrow> console" where
  "consputc c s =
     (if c = BACKSPACE then uart_put_char 8 (uart_put_char 32 (uart_put_char 8 s))
      else uart_put_char (word_of_int c) s)"

definition lock_console :: "console \<Rightarrow> console outcome" where
  "lock_console s = andthen (acquire_spinlock (conslock s)) (\<lambda>l. Ok (s\<lparr>conslock := l\<rparr>))"

definition unlock_console :: "console \<Rightarrow> console" where
  "unlock_console s = s\<lparr>conslock := release_spinlock (conslock s)\<rparr>"

definition console_write :: "u8 list \<Rightarrow> int \<Rightarrow> console \<Rightarrow> (int \<times> console) outcome" where
  "console_write buf n s =
     andthen (lock_console s) (\<lambda>s.
     andthen (for_each (\<lambda>i s. andthen (ld buf i) (\<lambda>c. Ok (consputc (uint c) s))) [0..<nat n] s) (\<lambda>s.
       Ok (n, unlock_console s)))"

definition slot :: "u64 \<Rightarrow> nat" where
  "slot i = unat i mod IBUF_SIZE"

text \<open>
  The inner loop of \<^verbatim>\<open>console_read\<close>; \<open>None\<close> is its return for a killed process.  The lock is
  not taken again after the sleep.
\<close>

function console_wait :: "bool \<Rightarrow> console \<Rightarrow> console option outcome" where
  "console_wait killed s =
     (if read_idx s = write_idx s
      then if killed then Ok None
           else andthen (wait_sem (consem s)) (\<lambda>m. console_wait killed ((unlock_console s)\<lparr>consem := m\<rparr>))
      else Ok (Some s))"
  by pat_completeness auto
termination
  by (relation "measure (\<lambda>(killed, s). nat (sval (consem s)))")
    (auto simp: unlock_console_def wait_sem_eq_Ok)

declare console_wait.simps [simp del]

definition CTRL_D :: u8 where "CTRL_D = 4"

function console_read_loop :: "bool \<Rightarrow> int \<Rightarrow> int \<Rightarrow> u8 list \<Rightarrow> console \<Rightarrow> (int option \<times> u8 list \<times> console) outcome" where
  "console_read_loop killed target n dst s =
     (if n > 0 then
        andthen (console_wait killed s) (\<lambda>r.
        case r of
          None \<Rightarrow> Ok (None, dst, s)
        | Some s \<Rightarrow>
            (let c = cbuf s ! slot (read_idx s);
                 s = s\<lparr>read_idx := read_idx s + 1\<rparr>
             in if c = CTRL_D
                then Ok (Some n, dst, if n < target then s\<lparr>read_idx := read_idx s - 1\<rparr> else s)
                else if c = 10 then Ok (Some (n - 1), dst @ [c], s)
                else console_read_loop killed target (n - 1) (dst @ [c]) s))
      else Ok (Some n, dst, s))"
  by pat_completeness auto
termination
  by (relation "measure (\<lambda>(killed, target, n, dst, s). nat n)") auto

declare console_read_loop.simps [simp del]

definition console_read :: "bool \<Rightarrow> int \<Rightarrow> console \<Rightarrow> (int \<times> u8 list \<times> console) outcome" where
  "console_read killed n s =
     andthen (lock_console s) (\<lambda>s.
     let target = signed_take_bit 31 n
     in andthen (console_read_loop killed target n [] s) (\<lambda>(r, dst, s).
        Ok (case r of None \<Rightarrow> - 1 | Some n \<Rightarrow> target - n, dst, unlock_console s)))"

text \<open>
  \<^verbatim>\<open>console_intr\<close>: \<open>pid\<close> is the current process; \<^verbatim>\<open>kill\<close> and \<^verbatim>\<open>procdump\<close> work on the state
  \<open>w\<close> of the process table.
\<close>

function kill_line :: "console \<Rightarrow> console" where
  "kill_line s =
     (if edit_idx s \<noteq> write_idx s \<and> cbuf s ! slot (edit_idx s - 1) \<noteq> 10
      then kill_line (consputc BACKSPACE (s\<lparr>edit_idx := edit_idx s - 1\<rparr>)) else s)"
  by pat_completeness auto
termination
proof (relation "measure (\<lambda>s. unat (edit_idx s - write_idx s))")
  fix s :: console
  assume "edit_idx s \<noteq> write_idx s \<and> cbuf s ! slot (edit_idx s - 1) \<noteq> 10"
  then have "edit_idx s - write_idx s \<noteq> 0" by simp
  then have "unat (edit_idx s - write_idx s - 1) < unat (edit_idx s - write_idx s)"
    by (metis measure_unat)
  then have "unat (edit_idx s - 1 - write_idx s) < unat (edit_idx s - write_idx s)" by (simp add: diff_right_commute)
  then show "(consputc BACKSPACE (s\<lparr>edit_idx := edit_idx s - 1\<rparr>), s) \<in> measure (\<lambda>s. unat (edit_idx s - write_idx s))"
    by (simp add: consputc_def uart_put_char_def)
qed simp

declare kill_line.simps [simp del]

definition type_char :: "u8 \<Rightarrow> console \<Rightarrow> console outcome" where
  "type_char c s =
     (if c \<noteq> 0 \<and> edit_idx s - read_idx s < of_nat IBUF_SIZE
      then let c = (if c = 13 then 10 else c);
               s = consputc (uint c) s;
               s = s\<lparr>cbuf := (cbuf s)[slot (edit_idx s) := c], edit_idx := edit_idx s + 1\<rparr>
           in if c = 10 \<or> c = CTRL_D \<or> edit_idx s - read_idx s = of_nat IBUF_SIZE
              then let s = s\<lparr>write_idx := edit_idx s\<rparr>
                   in andthen (post_all_sem (consem s)) (\<lambda>(_, _, m). Ok (s\<lparr>consem := m\<rparr>))
              else Ok s
      else Ok s)"

definition console_intr ::
    "(int \<Rightarrow> 'w \<Rightarrow> (int \<times> 'w) outcome) \<Rightarrow> ('w \<Rightarrow> 'w) \<Rightarrow> int \<Rightarrow> u8 \<Rightarrow> console \<times> 'w \<Rightarrow> (console \<times> 'w) outcome" where
  "console_intr kill procdump pid c sw =
     (case sw of (s, w) \<Rightarrow>
     andthen (lock_console s) (\<lambda>s.
     andthen
       (if c = 21 then Ok (kill_line s, w)
        else if c = 8 \<or> c = 127 then
          Ok (if edit_idx s \<noteq> write_idx s
              then consputc BACKSPACE (s\<lparr>edit_idx := edit_idx s - 1\<rparr>) else s, w)
        else if c = 3 then
          andthen (if pid > 2 then andthen (kill pid w) (\<lambda>(r, w). if r = 0 then Ok w else Panic) else Ok w) (\<lambda>w.
          let s = uart_put_char 36 (uart_put_char 10 (uart_put_char 67 (uart_put_char 94 s)))
          in andthen (memset 0 0 IBUF_SIZE (cbuf s)) (\<lambda>b.
             Ok (s\<lparr>cbuf := b, edit_idx := 0, write_idx := 0, read_idx := 0\<rparr>, w)))
        else if c = 24 then Ok (s, procdump w)
        else andthen (type_char c s) (\<lambda>s. Ok (s, w)))
       (\<lambda>(s, w). Ok (unlock_console s, w))))"

section \<open>The ring\<close>

definition typed_len :: "console \<Rightarrow> nat" where
  "typed_len s = unat (edit_idx s - read_idx s)"

definition ready_len :: "console \<Rightarrow> nat" where
  "ready_len s = unat (write_idx s - read_idx s)"

definition console_ok :: "console \<Rightarrow> bool" where
  "console_ok s \<longleftrightarrow> length (cbuf s) = IBUF_SIZE \<and> ready_len s \<le> typed_len s \<and> typed_len s \<le> IBUF_SIZE \<and> sem_ok (consem s)"

text \<open>The characters typed and not yet read, and those of them that a reader may take.\<close>

definition typed :: "console \<Rightarrow> u8 list" where
  "typed s = map (\<lambda>i. cbuf s ! ((unat (read_idx s) + i) mod IBUF_SIZE)) [0..<typed_len s]"

definition ready :: "console \<Rightarrow> u8 list" where
  "ready s = take (ready_len s) (typed s)"

lemma unat_diff_succ: "unat ((x :: u64) - y) < IBUF_SIZE \<Longrightarrow> unat (x + 1 - y) = Suc (unat (x - y))"
proof -
  assume l: "unat (x - y) < IBUF_SIZE"
  have eq: "x + 1 - y = 1 + (x - y)" by simp
  have "unat (1 + (x - y)) = 1 + unat (x - y)"
    using l by (subst unat_add_lem [THEN iffD1]) (simp_all add: IBUF_SIZE_def)
  then show ?thesis by (simp only: eq)
qed

lemma unat_diff_pred: "x \<noteq> y \<Longrightarrow> unat ((x :: u64) - 1 - y) = unat (x - y) - 1"
proof -
  assume "x \<noteq> y"
  then have "x - y \<noteq> 0" by simp
  then have "1 \<le> x - y" by (simp add: word_le_nat_alt unat_gt_0 Suc_leI)
  moreover have "x - 1 - y = (x - y) - 1" by simp
  ultimately show ?thesis by (simp only: unat_sub) simp
qed

lemma unat_diff_pred': "x \<noteq> y \<Longrightarrow> unat ((x :: u64) - (y + 1)) = unat (x - y) - 1"
  using unat_diff_pred [of x y] by (simp add: algebra_simps)

lemma slot_add: "slot (x + of_nat i) = (unat x + i) mod IBUF_SIZE"
proof -
  have "unat (x + of_nat i) = (unat x + i mod 2 ^ 64) mod 2 ^ 64"
    by (simp add: unat_word_ariths unat_of_nat take_bit_eq_mod)
  also have "\<dots> = (unat x + i) mod 2 ^ 64" by (simp add: mod_simps)
  finally have "slot (x + of_nat i) = (unat x + i) mod 2 ^ 64 mod 128" by (simp add: slot_def IBUF_SIZE_def)
  also have "\<dots> = (unat x + i) mod 128" by (rule mod_mod_cancel) simp
  finally show ?thesis by (simp add: IBUF_SIZE_def)
qed

lemma slot_edit: "slot (edit_idx s) = (unat (read_idx s) + typed_len s) mod IBUF_SIZE"
  using slot_add [of "read_idx s" "typed_len s"] by (simp add: typed_len_def)

lemma slot_edit_pred:
  "edit_idx s \<noteq> read_idx s \<Longrightarrow> slot (edit_idx s - 1) = (unat (read_idx s) + (typed_len s - 1)) mod IBUF_SIZE"
proof -
  assume ne: "edit_idx s \<noteq> read_idx s"
  have "of_nat (typed_len s - 1) = edit_idx s - 1 - read_idx s"
    using unat_diff_pred [OF ne] by (metis of_nat_unat typed_len_def ucast_id)
  then show ?thesis using slot_add [of "read_idx s" "typed_len s - 1"] by simp
qed

lemma slot_less: "slot i < IBUF_SIZE"
  by (simp add: slot_def IBUF_SIZE_def)

lemma slots_differ: "i < k \<Longrightarrow> k < IBUF_SIZE \<Longrightarrow> (r + i) mod IBUF_SIZE \<noteq> (r + k) mod IBUF_SIZE"
proof
  assume "i < k" "k < IBUF_SIZE" and eq: "(r + i) mod IBUF_SIZE = (r + k) mod IBUF_SIZE"
  from eq [symmetric] have "IBUF_SIZE dvd (r + k) - (r + i)" by (rule mod_eq_dvd_iff_nat [THEN iffD1, rotated]) (use \<open>i < k\<close> in simp)
  then have "IBUF_SIZE dvd k - i" by simp
  with \<open>i < k\<close> \<open>k < IBUF_SIZE\<close> show False by (auto dest: dvd_imp_le)
qed

lemma length_typed [simp]: "length (typed s) = typed_len s"
  by (simp add: typed_def)

lemma consputc_fields [simp]:
  "cbuf (consputc c s) = cbuf s" "read_idx (consputc c s) = read_idx s" "write_idx (consputc c s) = write_idx s"
  "edit_idx (consputc c s) = edit_idx s" "consem (consputc c s) = consem s" "conslock (consputc c s) = conslock s"
  by (simp_all add: consputc_def uart_put_char_def)

lemma consputc_lens [simp]: "typed_len (consputc c s) = typed_len s" "ready_len (consputc c s) = ready_len s"
  "typed (consputc c s) = typed s" "console_ok (consputc c s) = console_ok s"
  by (simp_all add: typed_len_def ready_len_def typed_def console_ok_def)

section \<open>Typing\<close>

lemma type_char_spec:
  assumes ok: "console_ok s" and c: "c \<noteq> 0"
  defines "c' \<equiv> if c = 13 then 10 else c"
  shows "\<exists>s'. type_char c s = Ok s' \<and> console_ok s' \<and> conslock s' = conslock s \<and>
    (if typed_len s < IBUF_SIZE
     then typed s' = typed s @ [c'] \<and>
       ready s' = (if c' = 10 \<or> c' = CTRL_D \<or> typed_len s' = IBUF_SIZE then typed s' else ready s)
     else s' = s)"
proof (cases "typed_len s < IBUF_SIZE")
  case False
  then have "\<not> edit_idx s - read_idx s < of_nat IBUF_SIZE"
    by (simp add: word_less_nat_alt typed_len_def IBUF_SIZE_def)
  then have "type_char c s = Ok s" by (simp add: type_char_def)
  with False ok show ?thesis by simp
next
  case True
  let ?e = "edit_idx s" and ?r = "read_idx s"
  let ?s1 = "consputc (uint c') s"
  let ?s2 = "?s1\<lparr>cbuf := (cbuf s)[slot ?e := c'], edit_idx := ?e + 1\<rparr>"
  have room: "?e - ?r < of_nat IBUF_SIZE" using True by (simp add: word_less_nat_alt typed_len_def IBUF_SIZE_def)
  have len: "unat (?e + 1 - ?r) = Suc (typed_len s)"
    using True unat_diff_succ [of ?e ?r] by (simp add: typed_len_def)
  have t2: "typed_len ?s2 = Suc (typed_len s)" by (simp add: typed_len_def len [unfolded typed_len_def])
  have bl: "length (cbuf s) = IBUF_SIZE" using ok by (simp add: console_ok_def)
  have tq: "typed ?s2 = typed s @ [c']"
  proof (rule nth_equalityI)
    show "length (typed ?s2) = length (typed s @ [c'])" by (simp add: t2)
    fix i assume "i < length (typed ?s2)"
    then have i: "i \<le> typed_len s" by (simp add: t2)
    show "typed ?s2 ! i = (typed s @ [c']) ! i"
    proof (cases "i = typed_len s")
      case True
      then show ?thesis using bl slot_less [of ?e] t2
        by (simp add: typed_def nth_append slot_edit [symmetric] del: upt_Suc)
    next
      case False
      then have "i < typed_len s" using i by simp
      then show ?thesis using slots_differ [of i "typed_len s" "unat ?r"] True t2
        by (simp add: typed_def nth_append slot_edit del: upt_Suc)
    qed
  qed
  have full: "?e + 1 - ?r = of_nat IBUF_SIZE \<longleftrightarrow> typed_len ?s2 = IBUF_SIZE"
    by (simp add: word_unat_eq_iff typed_len_def IBUF_SIZE_def)
  have ok2: "length (cbuf ?s2) = IBUF_SIZE" "typed_len ?s2 \<le> IBUF_SIZE" "sem_ok (consem ?s2)" "ready_len ?s2 = ready_len s"
    "ready_len s \<le> typed_len s"
    using ok True t2 by (simp_all add: console_ok_def ready_len_def)
  show ?thesis
  proof (cases "c' = 10 \<or> c' = CTRL_D \<or> typed_len ?s2 = IBUF_SIZE")
    case False
    then have "type_char c s = Ok ?s2" using room c full by (simp add: type_char_def c'_def Let_def)
    moreover have "console_ok ?s2" using ok2 t2 by (simp add: console_ok_def)
    moreover have "ready ?s2 = ready s" using ok2(4,5) by (simp add: ready_def tq)
    ultimately show ?thesis using False True tq by simp
  next
    case enter: True
    let ?m = "(consem s)\<lparr>sval := max 0 (sval (consem s)), sleeplist := []\<rparr>"
    let ?s3 = "?s2\<lparr>write_idx := ?e + 1, consem := ?m\<rparr>"
    have "sem_ok (consem s)" using ok by (simp add: console_ok_def)
    then have "type_char c s = Ok ?s3" using room c full enter post_all_sem_sleepers [of "consem s"]
      by (simp add: type_char_def c'_def Let_def)
    moreover have lens: "ready_len ?s3 = typed_len ?s2" "typed_len ?s3 = typed_len ?s2" "typed ?s3 = typed ?s2"
      by (simp_all add: ready_len_def typed_len_def typed_def)
    moreover have "console_ok ?s3" using ok2 lens by (simp add: console_ok_def) (simp add: sem_ok_def)
    moreover have "ready ?s3 = typed ?s3" by (simp add: ready_def lens)
    ultimately show ?thesis using enter True tq by simp
  qed
qed

section \<open>Editing\<close>

lemma ready_eq_typed: "ready_len s = typed_len s \<longleftrightarrow> write_idx s = edit_idx s"
  by (simp add: ready_len_def typed_len_def word_unat_eq_iff [symmetric])

definition erase_char :: "console \<Rightarrow> console" where
  "erase_char s = consputc BACKSPACE (s\<lparr>edit_idx := edit_idx s - 1\<rparr>)"

lemma erase_char_spec:
  assumes "console_ok s" and "edit_idx s \<noteq> write_idx s"
  shows "console_ok (erase_char s) \<and> typed (erase_char s) = butlast (typed s) \<and> ready (erase_char s) = ready s \<and>
    write_idx (erase_char s) = write_idx s \<and> conslock (erase_char s) = conslock s"
proof -
  let ?s = "s\<lparr>edit_idx := edit_idx s - 1\<rparr>"
  have lt: "ready_len s < typed_len s" using assms ready_eq_typed [of s] by (force simp: console_ok_def)
  then have "edit_idx s \<noteq> read_idx s" by (auto simp: typed_len_def)
  then have t: "typed_len ?s = typed_len s - 1" by (simp add: typed_len_def unat_diff_pred)
  have r: "ready_len ?s = ready_len s" by (simp add: ready_len_def)
  have "typed ?s = take (typed_len s - 1) (typed s)"
    using t by (simp add: typed_def take_map)
  then have b: "typed ?s = butlast (typed s)" by (simp add: butlast_conv_take)
  have "min (ready_len s) (typed_len s - 1) = ready_len s" using lt by simp
  then have "ready ?s = ready s" unfolding ready_def b r by (simp add: butlast_conv_take)
  moreover have "console_ok ?s" using assms(1) lt t r by (auto simp: console_ok_def)
  ultimately show ?thesis using b by (simp add: erase_char_def ready_def)
qed

lemma kill_line_spec:
  "console_ok s \<Longrightarrow> console_ok (kill_line s) \<and> (\<exists>k. typed (kill_line s) = take k (typed s)) \<and>
    ready (kill_line s) = ready s \<and> conslock (kill_line s) = conslock s"
proof (induction s rule: kill_line.induct)
  case (1 s)
  show ?case
  proof (cases "edit_idx s \<noteq> write_idx s \<and> cbuf s ! slot (edit_idx s - 1) \<noteq> 10")
    case True
    note e = erase_char_spec [OF 1(2) True [THEN conjunct1]]
    from 1(1) [OF True, folded erase_char_def] e
    have "console_ok (kill_line (erase_char s))" "\<exists>k. typed (kill_line (erase_char s)) = take k (butlast (typed s))"
      "ready (kill_line (erase_char s)) = ready s" "conslock (kill_line (erase_char s)) = conslock s" by auto
    moreover have "kill_line s = kill_line (erase_char s)"
      using True by (subst kill_line.simps) (simp add: erase_char_def)
    ultimately show ?thesis by (auto simp: butlast_conv_take)
  next
    case False
    then show ?thesis using 1(2) by (subst (1 2 3 4) kill_line.simps) (auto intro: exI [of _ "typed_len s"])
  qed
qed

section \<open>Reading\<close>

lemma consume_char:
  assumes ok: "console_ok s" and ne: "read_idx s \<noteq> write_idx s"
  defines "s' \<equiv> s\<lparr>read_idx := read_idx s + 1\<rparr>"
  shows "console_ok s' \<and> ready s = cbuf s ! slot (read_idx s) # ready s' \<and>
    typed s = cbuf s ! slot (read_idx s) # typed s'"
proof -
  have r: "ready_len s' = ready_len s - 1" "0 < ready_len s"
    using ne unat_diff_pred' [of "write_idx s" "read_idx s"]
    by (auto simp: s'_def ready_len_def unat_gt_0 simp del: unat_diff_pred')
  have le: "ready_len s \<le> typed_len s" "typed_len s \<le> IBUF_SIZE" using ok by (simp_all add: console_ok_def)
  then have "edit_idx s \<noteq> read_idx s" using r(2) by (auto simp: typed_len_def)
  then have t: "typed_len s = Suc (typed_len s')"
    using unat_diff_pred' [of "edit_idx s" "read_idx s"] le r(2) by (simp add: s'_def typed_len_def)
  have u: "(unat (read_idx s + 1) + i) mod IBUF_SIZE = (unat (read_idx s) + Suc i) mod IBUF_SIZE" for i
    using slot_add [of "read_idx s" "Suc i"] slot_add [of "read_idx s + 1" i] by (simp add: algebra_simps)
  have "typed s = cbuf s ! slot (read_idx s) # typed s'"
  proof (rule nth_equalityI)
    fix i assume "i < length (typed s)"
    then show "typed s ! i = (cbuf s ! slot (read_idx s) # typed s') ! i"
      using u by (cases i) (simp_all add: typed_def t slot_def s'_def del: upt_Suc)
  qed (simp add: t)
  moreover from this have "ready s = cbuf s ! slot (read_idx s) # ready s'"
    using r by (cases "ready_len s") (simp_all add: ready_def)
  moreover have "console_ok s'" using ok r le t by (simp add: console_ok_def) (simp add: s'_def)
  ultimately show ?thesis by simp
qed

text \<open>The line a reader gets: up to and with a newline, up to an end-of-file mark, at most \<open>n\<close> characters.\<close>

fun take_line :: "bool \<Rightarrow> nat \<Rightarrow> u8 list \<Rightarrow> (u8 list \<times> nat) option" where
  "take_line first 0 xs = Some ([], 0)"
| "take_line first (Suc n) [] = None"
| "take_line first (Suc n) (x # xs) =
     (if x = CTRL_D then Some ([], if first then 1 else 0)
      else if x = 10 then Some ([x], 1)
      else map_option (\<lambda>(l, k). (x # l, Suc k)) (take_line False n xs))"

lemma read_loop_spec:
  assumes "console_ok s" and "take_line (int n = target) n (ready s) = Some (l, k)" and "int n \<le> target"
  shows "\<exists>s'. console_read_loop killed target (int n) dst s = Ok (Some (int n - int (length l)), dst @ l, s') \<and>
    console_ok s' \<and> ready s' = drop k (ready s) \<and> typed s' = drop k (typed s) \<and> consem s' = consem s \<and>
    tty s' = tty s"
  using assms
proof (induction n arbitrary: s dst l k)
  case 0
  then show ?case by (subst console_read_loop.simps) simp
next
  case (Suc n)
  from Suc.prems(2) have "ready s \<noteq> []" by (cases "ready s") auto
  then have ne: "read_idx s \<noteq> write_idx s" by (auto simp: ready_def ready_len_def)
  let ?c = "cbuf s ! slot (read_idx s)" and ?s = "s\<lparr>read_idx := read_idx s + 1\<rparr>"
  note c = consume_char [OF Suc.prems(1) ne]
  have step: "console_read_loop killed target (int (Suc n)) dst s =
     (if ?c = CTRL_D then Ok (Some (int (Suc n)), dst, if int (Suc n) < target then s else ?s)
      else if ?c = 10 then Ok (Some (int n), dst @ [?c], ?s)
      else console_read_loop killed target (int n) (dst @ [?c]) ?s)"
    using ne by (subst console_read_loop.simps, subst console_wait.simps) (simp add: Let_def)
  show ?case
  proof (cases "?c = CTRL_D \<or> ?c = 10")
    case True
    with Suc.prems c step show ?thesis by (auto split: if_splits)
  next
    case False
    obtain l' where l': "take_line False n (ready ?s) = Some (l', k - 1)" "l = ?c # l'" "0 < k"
      using Suc.prems(2) c False by (auto split: prod.splits)
    have "(int n = target) = False" using Suc.prems(3) by simp
    then have "\<exists>s'. console_read_loop killed target (int n) (dst @ [?c]) ?s =
        Ok (Some (int n - int (length l')), (dst @ [?c]) @ l', s') \<and> console_ok s' \<and>
        ready s' = drop (k - 1) (ready ?s) \<and> typed s' = drop (k - 1) (typed ?s) \<and> consem s' = consem ?s \<and> tty s' = tty ?s"
      using Suc.IH [of ?s l' "k - 1" "dst @ [?c]"] c l' Suc.prems(3) by simp
    moreover have "drop k (ready s) = drop (k - 1) (ready ?s)" "drop k (typed s) = drop (k - 1) (typed ?s)"
      using c l'(3) by (cases k; simp)+
    ultimately show ?thesis using False step l'(2) by simp
  qed
qed

end
