(* ===== verification/Inode.thy ===== *)
theory Inode
  imports BlockCache Console
begin

text \<open>
  \<^verbatim>\<open>src/fs/inode.c\<close>: the inode layer, on any block cache \<open>bc\<close> (the \<^verbatim>\<open>cache\<close> pointer that
  \<^verbatim>\<open>init_inodes\<close> stores).  An \<^verbatim>\<open>Inode *\<close> is named by its inode number, \<open>imem\<close> holds the
  in-memory inodes and \<open>ihead\<close> is the list of allocated ones.  A context parameter says whether
  the \<^verbatim>\<open>OpContext *\<close> is given or \<^verbatim>\<open>NULL\<close>; the context it points to is \<open>opctx\<close>.
\<close>

section \<open>State\<close>

record inode =
  ilock :: semaphore
  irc :: refcount
  ivalid :: bool
  entry :: inode_entry

record 'c isys =
  isb :: super_block
  cst :: 'c
  opctx :: op_context
  islock :: spinlock
  ihead :: "nat list"
  imem :: "nat \<Rightarrow> inode"
  iroot :: "nat option"
  icons :: console
  cur_cwd :: nat
  cur_killed :: bool

definition upd_inode :: "nat \<Rightarrow> (inode \<Rightarrow> inode) \<Rightarrow> 'c isys \<Rightarrow> 'c isys" where
  "upd_inode i f s = s\<lparr>imem := (imem s)(i := f (imem s i))\<rparr>"

definition ent :: "nat \<Rightarrow> 'c isys \<Rightarrow> inode_entry" where
  "ent i s = entry (imem s i)"

definition upd_ent :: "nat \<Rightarrow> (inode_entry \<Rightarrow> inode_entry) \<Rightarrow> 'c isys \<Rightarrow> 'c isys" where
  "upd_ent i f s = upd_inode i (\<lambda>m. m\<lparr>entry := f (entry m)\<rparr>) s"

text \<open>The calls through the \<^verbatim>\<open>cache\<close> pointer.\<close>

definition b_acquire :: "'c block_cache \<Rightarrow> nat \<Rightarrow> 'c isys \<Rightarrow> 'c isys outcome" where
  "b_acquire bc n s = andthen (bc_acquire bc n (cst s)) (\<lambda>c. Ok (s\<lparr>cst := c\<rparr>))"

definition b_release :: "'c block_cache \<Rightarrow> nat \<Rightarrow> 'c isys \<Rightarrow> 'c isys outcome" where
  "b_release bc n s = andthen (bc_release bc n (cst s)) (\<lambda>c. Ok (s\<lparr>cst := c\<rparr>))"

definition b_data :: "'c block_cache \<Rightarrow> nat \<Rightarrow> 'c isys \<Rightarrow> u8 list" where
  "b_data bc n s = bc_data bc n (cst s)"

definition b_set :: "'c block_cache \<Rightarrow> nat \<Rightarrow> u8 list \<Rightarrow> 'c isys \<Rightarrow> 'c isys" where
  "b_set bc n bs s = s\<lparr>cst := bc_set bc n bs (cst s)\<rparr>"

definition given :: "bool \<Rightarrow> 'c isys \<Rightarrow> op_context option" where
  "given ctx s = (if ctx then Some (opctx s) else None)"

definition put_ctx :: "op_context option \<Rightarrow> 'c isys \<Rightarrow> 'c isys" where
  "put_ctx c s = (case c of Some c \<Rightarrow> s\<lparr>opctx := c\<rparr> | None \<Rightarrow> s)"

definition b_sync :: "'c block_cache \<Rightarrow> bool \<Rightarrow> nat \<Rightarrow> 'c isys \<Rightarrow> 'c isys outcome" where
  "b_sync bc ctx n s =
     andthen (bc_sync bc (given ctx s) n (cst s)) (\<lambda>(c, t). Ok (put_ctx c (s\<lparr>cst := t\<rparr>)))"

definition b_alloc :: "'c block_cache \<Rightarrow> bool \<Rightarrow> 'c isys \<Rightarrow> (nat \<times> 'c isys) outcome" where
  "b_alloc bc ctx s =
     andthen (bc_alloc bc (given ctx s) (cst s)) (\<lambda>(n, c, t). Ok (n, put_ctx c (s\<lparr>cst := t\<rparr>)))"

definition b_free :: "'c block_cache \<Rightarrow> bool \<Rightarrow> nat \<Rightarrow> 'c isys \<Rightarrow> 'c isys outcome" where
  "b_free bc ctx n s =
     andthen (bc_free bc (given ctx s) n (cst s)) (\<lambda>(c, t). Ok (put_ctx c (s\<lparr>cst := t\<rparr>)))"

section \<open>Where things are\<close>

definition to_block_no :: "nat \<Rightarrow> 'c isys \<Rightarrow> nat" where
  "to_block_no ino s = inode_start (isb s) + ino div INODE_PER_BLOCK"

definition get_entry :: "u8 list \<Rightarrow> nat \<Rightarrow> inode_entry" where
  "get_entry bs ino = get_inode_entry (ino mod INODE_PER_BLOCK) bs"

definition put_entry :: "nat \<Rightarrow> inode_entry \<Rightarrow> u8 list \<Rightarrow> u8 list" where
  "put_entry ino e bs = put_inode_entry (ino mod INODE_PER_BLOCK) e bs"

definition get_addrs :: "u8 list \<Rightarrow> nat \<Rightarrow> u32 outcome" where
  "get_addrs bs i = (if i < INODE_NUM_INDIRECT then Ok (get_indirect i bs) else Undef)"

section \<open>Locks, references and the on-disk copy\<close>

definition zero_entry :: inode_entry where
  "zero_entry = \<lparr>itype = 0, major = 0, minor = 0, num_links = 0, num_bytes = 0,
     addrs = replicate INODE_NUM_DIRECT 0, indirect = 0\<rparr>"

definition init_inode :: "inode \<Rightarrow> inode" where
  "init_inode m = m\<lparr>ilock := init_sleeplock, irc := init_rc, ivalid := False\<rparr>"

definition lock_inodes :: "'c isys \<Rightarrow> 'c isys outcome" where
  "lock_inodes s = andthen (acquire_spinlock (islock s)) (\<lambda>l. Ok (s\<lparr>islock := l\<rparr>))"

definition unlock_inodes :: "'c isys \<Rightarrow> 'c isys" where
  "unlock_inodes s = s\<lparr>islock := release_spinlock (islock s)\<rparr>"

definition take_inode_lock :: "nat \<Rightarrow> 'c isys \<Rightarrow> 'c isys outcome" where
  "take_inode_lock i s =
     andthen (acquire_sleeplock (ilock (imem s i))) (\<lambda>l. Ok (upd_inode i (\<lambda>m. m\<lparr>ilock := l\<rparr>) s))"

definition post_inode_lock :: "nat \<Rightarrow> 'c isys \<Rightarrow> 'c isys outcome" where
  "post_inode_lock i s =
     andthen (post_sem (ilock (imem s i))) (\<lambda>l. Ok (upd_inode i (\<lambda>m. m\<lparr>ilock := l\<rparr>) s))"

definition inode_lock :: "nat \<Rightarrow> 'c isys \<Rightarrow> 'c isys outcome" where
  "inode_lock i s = andthen (assert_that (irc (imem s i) > 0)) (\<lambda>_. take_inode_lock i s)"

definition inode_unlock :: "nat \<Rightarrow> 'c isys \<Rightarrow> 'c isys outcome" where
  "inode_unlock i s = andthen (assert_that (irc (imem s i) > 0)) (\<lambda>_. post_inode_lock i s)"

definition inode_sync :: "'c block_cache \<Rightarrow> bool \<Rightarrow> nat \<Rightarrow> bool \<Rightarrow> 'c isys \<Rightarrow> 'c isys outcome" where
  "inode_sync bc ctx i do_write s =
     (let block_no = to_block_no i s
      in andthen (b_acquire bc block_no s) (\<lambda>s.
         andthen
           (if ivalid (imem s i) \<and> do_write
            then b_sync bc ctx block_no (b_set bc block_no (put_entry i (ent i s) (b_data bc block_no s)) s)
            else Ok s) (\<lambda>s.
         let s = (if \<not> ivalid (imem s i)
                  then upd_inode i (\<lambda>m. m\<lparr>entry := get_entry (b_data bc block_no s) i, ivalid := True\<rparr>) s
                  else s)
         in b_release bc block_no s)))"

text \<open>\<^verbatim>\<open>inode_alloc\<close>: the first free inode from number 1 on.\<close>

function inode_alloc_loop :: "'c block_cache \<Rightarrow> bool \<Rightarrow> u16 \<Rightarrow> nat \<Rightarrow> nat \<Rightarrow> 'c isys \<Rightarrow> (nat \<times> 'c isys) outcome" where
  "inode_alloc_loop bc ctx type ino n s =
     (if ino < n
      then let bno = to_block_no ino s
           in andthen (b_acquire bc bno s) (\<lambda>s.
              if itype (get_entry (b_data bc bno s) ino) = INODE_INVALID
              then let s = b_set bc bno (put_entry ino (zero_entry\<lparr>itype := type\<rparr>) (b_data bc bno s)) s
                   in andthen (b_sync bc ctx bno s) (\<lambda>s.
                      andthen (b_release bc bno s) (\<lambda>s. Ok (ino, s)))
              else andthen (b_release bc bno s) (inode_alloc_loop bc ctx type (ino + 1) n))
      else Panic)"
  by pat_completeness auto
termination
  by (relation "measure (\<lambda>(bc, ctx, type, ino, n, s). n - ino)") auto

declare inode_alloc_loop.simps [simp del]

definition inode_alloc :: "'c block_cache \<Rightarrow> bool \<Rightarrow> u16 \<Rightarrow> 'c isys \<Rightarrow> (nat \<times> 'c isys) outcome" where
  "inode_alloc bc ctx type s =
     andthen (assert_that (type \<noteq> INODE_INVALID)) (\<lambda>_.
       inode_alloc_loop bc ctx type 1 (num_inodes (isb s)) s)"

text \<open>\<^verbatim>\<open>inode_get\<close>: the in-memory inode, allocated and loaded if it is not in the list.\<close>

definition inode_get :: "'c block_cache \<Rightarrow> nat \<Rightarrow> 'c isys \<Rightarrow> (nat option \<times> 'c isys) outcome" where
  "inode_get bc ino s =
     (if ino = 0 then Ok (None, s)
      else andthen (assert_that (ino < num_inodes (isb s))) (\<lambda>_.
           andthen (lock_inodes s) (\<lambda>s.
           if ino \<in> set (ihead s)
           then let s = upd_inode ino (\<lambda>m. m\<lparr>irc := increment_rc (irc m)\<rparr>) s
                in Ok (Some ino, unlock_inodes s)
           else let s = upd_inode ino (\<lambda>m. let m = init_inode m in m\<lparr>irc := increment_rc (irc m)\<rparr>) s
                in andthen (inode_lock ino s) (\<lambda>s.
                   andthen (inode_sync bc False ino False s) (\<lambda>s.
                   andthen (inode_unlock ino s) (\<lambda>s.
                   let s = s\<lparr>ihead := ino # ihead s\<rparr>
                   in Ok (Some ino, unlock_inodes s)))))))"

definition init_inodes :: "'c block_cache \<Rightarrow> super_block \<Rightarrow> 'c isys \<Rightarrow> 'c isys outcome" where
  "init_inodes bc sb s =
     (let s = s\<lparr>islock := init_spinlock, ihead := [], isb := sb\<rparr>
      in if ROOT_INODE_NO < num_inodes (isb s)
         then andthen (inode_get bc ROOT_INODE_NO s) (\<lambda>(r, s). Ok (s\<lparr>iroot := r\<rparr>))
         else Ok s)"

text \<open>\<^verbatim>\<open>inode_clear\<close>: free the blocks behind the indirect block, that block, and the direct blocks.\<close>

definition clear_indirect :: "'c block_cache \<Rightarrow> bool \<Rightarrow> nat \<Rightarrow> nat \<Rightarrow> 'c isys \<Rightarrow> 'c isys outcome" where
  "clear_indirect bc ctx ind k s =
     (let a = get_indirect k (b_data bc ind s) in if a \<noteq> 0 then b_free bc ctx (unat a) s else Ok s)"

definition clear_direct :: "'c block_cache \<Rightarrow> bool \<Rightarrow> nat \<Rightarrow> nat \<Rightarrow> 'c isys \<Rightarrow> 'c isys outcome" where
  "clear_direct bc ctx i k s =
     (let a = addrs (ent i s) ! k
      in if a \<noteq> 0
         then andthen (b_free bc ctx (unat a) s) (\<lambda>s. Ok (upd_ent i (\<lambda>e. e\<lparr>addrs := (addrs e)[k := 0]\<rparr>) s))
         else Ok s)"

definition inode_clear :: "'c block_cache \<Rightarrow> bool \<Rightarrow> nat \<Rightarrow> 'c isys \<Rightarrow> 'c isys outcome" where
  "inode_clear bc ctx i s =
     andthen
       (if indirect (ent i s) \<noteq> 0
        then let ind = unat (indirect (ent i s))
             in andthen (b_acquire bc ind s) (\<lambda>s.
                andthen (for_each (clear_indirect bc ctx ind) [0..<INODE_NUM_INDIRECT] s) (\<lambda>s.
                andthen (b_release bc ind s) (\<lambda>s.
                andthen (b_free bc ctx (unat (indirect (ent i s))) s) (\<lambda>s.
                Ok (upd_ent i (\<lambda>e. e\<lparr>indirect := 0\<rparr>) s)))))
        else Ok s) (\<lambda>s.
     andthen (for_each (clear_direct bc ctx i) [0..<INODE_NUM_DIRECT] s) (\<lambda>s.
     inode_sync bc ctx i True (upd_ent i (\<lambda>e. e\<lparr>num_bytes := 0\<rparr>) s)))"

definition inode_share :: "nat \<Rightarrow> 'c isys \<Rightarrow> 'c isys" where
  "inode_share i s = upd_inode i (\<lambda>m. m\<lparr>irc := increment_rc (irc m)\<rparr>) s"

definition inode_put :: "'c block_cache \<Rightarrow> bool \<Rightarrow> nat \<Rightarrow> 'c isys \<Rightarrow> 'c isys outcome" where
  "inode_put bc ctx i s =
     andthen (take_inode_lock i s) (\<lambda>s.
     let s = upd_inode i (\<lambda>m. m\<lparr>irc := snd (decrement_rc (irc m))\<rparr>) s
     in if irc (imem s i) = 0 \<and> num_links (ent i s) = 0
        then let s = upd_ent i (\<lambda>e. e\<lparr>itype := INODE_INVALID\<rparr>) s
             in andthen (inode_clear bc ctx i s) (\<lambda>s.
                andthen (inode_sync bc ctx i True s) (\<lambda>s.
                andthen (lock_inodes s) (\<lambda>s.
                let s = unlock_inodes (s\<lparr>ihead := remove1 i (ihead s)\<rparr>)
                in post_inode_lock i s)))
        else post_inode_lock i s)"

end
