(* ===== verification/InodeFile.thy ===== *)
theory InodeFile
  imports Inode
begin

text \<open>
  \<^verbatim>\<open>src/fs/inode.c\<close>, second part: the content of files, directories and paths.
\<close>

section \<open>The blocks of a file\<close>

text \<open>\<^verbatim>\<open>inode_map\<close>: the second component of the result is \<^verbatim>\<open>*modified\<close>.\<close>

definition inode_map :: "'c block_cache \<Rightarrow> bool \<Rightarrow> nat \<Rightarrow> nat \<Rightarrow> bool \<Rightarrow> 'c isys \<Rightarrow> (nat \<times> bool \<times> 'c isys) outcome" where
  "inode_map bc ctx i offset modified s =
     (if offset < INODE_NUM_DIRECT then
        (let a = addrs (ent i s) ! offset
         in if a \<noteq> 0 then Ok (unat a, modified, s)
            else if \<not> ctx then Ok (0, modified, s)
            else andthen (b_alloc bc ctx s) (\<lambda>(b, s).
                 let s = upd_ent i (\<lambda>e. e\<lparr>addrs := (addrs e)[offset := of_nat b]\<rparr>) s
                 in andthen (inode_sync bc ctx i True s) (\<lambda>s.
                    Ok (unat (addrs (ent i s) ! offset), True, s))))
      else
        (let offset = offset - INODE_NUM_DIRECT
         in if indirect (ent i s) = 0 \<and> \<not> ctx then Ok (0, modified, s)
            else andthen
              (if indirect (ent i s) = 0
               then andthen (b_alloc bc ctx s) (\<lambda>(b, s).
                    inode_sync bc ctx i True (upd_ent i (\<lambda>e. e\<lparr>indirect := of_nat b\<rparr>) s))
               else Ok s) (\<lambda>s.
            let ind = unat (indirect (ent i s))
            in andthen (b_acquire bc ind s) (\<lambda>s.
               andthen (get_addrs (b_data bc ind s) offset) (\<lambda>a.
               if a = 0 \<and> \<not> ctx then Ok (0, modified, s)
               else andthen
                 (if a = 0
                  then andthen (b_alloc bc ctx s) (\<lambda>(b, s).
                       let s = b_set bc ind (put_indirect offset (of_nat b) (b_data bc ind s)) s
                       in andthen (b_sync bc ctx ind s) (\<lambda>s. Ok (True, s)))
                  else Ok (modified, s)) (\<lambda>(modified, s).
               andthen (get_addrs (b_data bc ind s) offset) (\<lambda>blockno.
               andthen (b_release bc ind s) (\<lambda>s. Ok (unat blockno, modified, s)))))))))"

section \<open>Reading and writing\<close>

definition dev_read :: "nat \<Rightarrow> u64 \<Rightarrow> 'c isys \<Rightarrow> (u64 \<times> u8 list \<times> 'c isys) outcome" where
  "dev_read i amount s =
     andthen (inode_unlock i s) (\<lambda>s.
     andthen (console_read (cur_killed s) (sint amount) (icons s)) (\<lambda>(r, bs, con).
     andthen (inode_lock i (s\<lparr>icons := con\<rparr>)) (\<lambda>s. Ok (word_of_int r, bs, s))))"

definition dev_write :: "nat \<Rightarrow> u8 list \<Rightarrow> u64 \<Rightarrow> 'c isys \<Rightarrow> (u64 \<times> 'c isys) outcome" where
  "dev_write i src amount s =
     andthen (inode_unlock i s) (\<lambda>s.
     andthen (console_write src (sint amount) (icons s)) (\<lambda>(r, con).
     andthen (inode_lock i (s\<lparr>icons := con\<rparr>)) (\<lambda>s. Ok (word_of_int r, s))))"

definition file_size :: "nat \<Rightarrow> 'c isys \<Rightarrow> u64" where
  "file_size i s = ucast (num_bytes (ent i s))"

text \<open>The loop of \<^verbatim>\<open>inode_read\<close>; \<open>dest\<close> is what has been copied so far.\<close>

function read_loop :: "'c block_cache \<Rightarrow> nat \<Rightarrow> nat \<Rightarrow> nat \<Rightarrow> u8 list \<Rightarrow> 'c isys \<Rightarrow> (u8 list \<times> 'c isys) outcome" where
  "read_loop bc i p endp dest s =
     (if p < endp then
        andthen (inode_map bc False i (p div BLOCK_SIZE) False s) (\<lambda>(block_no, _, s).
        andthen (b_acquire bc block_no s) (\<lambda>s.
        let len = min (BLOCK_SIZE - p mod BLOCK_SIZE) (endp - p);
            dest = dest @ take len (drop (p mod BLOCK_SIZE) (b_data bc block_no s))
        in andthen (b_release bc block_no s) (\<lambda>s.
           read_loop bc i ((p div BLOCK_SIZE + 1) * BLOCK_SIZE) endp dest s)))
      else Ok (dest, s))"
  by pat_completeness auto
termination
proof (relation "measure (\<lambda>(bc, i, p, endp, dest, s). endp - p)")
  have up: "p < (p div BLOCK_SIZE + 1) * BLOCK_SIZE" for p
    using div_mult_mod_eq [of p BLOCK_SIZE] mod_less_divisor [of BLOCK_SIZE p]
    by (simp add: BLOCK_SIZE_def)
  show "((bc, i, (p div BLOCK_SIZE + 1) * BLOCK_SIZE, endp, d, t), (bc, i, p, endp, dest, s))
      \<in> measure (\<lambda>(bc, i, p, endp, dest, s). endp - p)" if "p < endp"
    for bc :: "'c block_cache" and i p endp dest s and d :: "u8 list" and t :: "'c isys"
    using up [of p] that by simp
qed simp

declare read_loop.simps [simp del]

definition inode_read :: "'c block_cache \<Rightarrow> nat \<Rightarrow> u64 \<Rightarrow> u64 \<Rightarrow> 'c isys \<Rightarrow> (u64 \<times> u8 list \<times> 'c isys) outcome" where
  "inode_read bc i offset amount s =
     (if itype (ent i s) = INODE_DEVICE then dev_read i amount s
      else let amount = (if amount + offset > file_size i s then file_size i s - offset else amount);
               endp = offset + amount
           in andthen (assert_that (offset \<le> file_size i s)) (\<lambda>_.
              andthen (assert_that (endp \<le> file_size i s)) (\<lambda>_.
              andthen (assert_that (offset \<le> endp)) (\<lambda>_.
              andthen (read_loop bc i (unat offset) (unat endp) [] s) (\<lambda>(dest, s). Ok (amount, dest, s))))))"

text \<open>The loop of \<^verbatim>\<open>inode_write\<close>: \<open>k\<close> bytes are written, \<open>offset\<close> is the place of the next one.\<close>

function write_loop :: "'c block_cache \<Rightarrow> bool \<Rightarrow> nat \<Rightarrow> u8 list \<Rightarrow> nat \<Rightarrow> nat \<Rightarrow> nat \<Rightarrow> bool \<Rightarrow> 'c isys \<Rightarrow> 'c isys outcome" where
  "write_loop bc ctx i src offset k amount modified s =
     (if k < amount then
        andthen (inode_map bc ctx i (offset div BLOCK_SIZE) modified s) (\<lambda>(block_no, modified, s).
        andthen (b_acquire bc block_no s) (\<lambda>s.
        let cnt = (if k = 0 then min (BLOCK_SIZE - offset mod BLOCK_SIZE) amount else min BLOCK_SIZE (amount - k));
            d = (if k = 0 then offset mod BLOCK_SIZE else 0)
        in andthen (memcpy d src k cnt (b_data bc block_no s)) (\<lambda>bs.
           andthen (b_sync bc ctx block_no (b_set bc block_no bs s)) (\<lambda>s.
           andthen (b_release bc block_no s) (\<lambda>s.
           write_loop bc ctx i src (offset + cnt) (k + cnt) amount modified s)))))
      else Ok s)"
  by pat_completeness auto
termination
  by (relation "measure (\<lambda>(bc, ctx, i, src, offset, k, amount, modified, s). amount - k)")
    (auto simp: BLOCK_SIZE_def)

declare write_loop.simps [simp del]

definition grow :: "'c block_cache \<Rightarrow> bool \<Rightarrow> nat \<Rightarrow> u64 \<Rightarrow> 'c isys \<Rightarrow> 'c isys outcome" where
  "grow bc ctx i endp s =
     (if file_size i s < endp
      then inode_sync bc ctx i True (upd_ent i (\<lambda>e. e\<lparr>num_bytes := ucast endp\<rparr>) s)
      else Ok s)"

definition inode_write :: "'c block_cache \<Rightarrow> bool \<Rightarrow> nat \<Rightarrow> u8 list \<Rightarrow> u64 \<Rightarrow> u64 \<Rightarrow> 'c isys \<Rightarrow> (u64 \<times> 'c isys) outcome" where
  "inode_write bc ctx i src offset amount s =
     (let endp = offset + amount
      in if itype (ent i s) = INODE_DEVICE then dev_write i src amount s
         else andthen (assert_that (offset \<le> file_size i s)) (\<lambda>_.
              andthen (assert_that (endp \<le> of_nat INODE_MAX_BYTES)) (\<lambda>_.
              andthen (assert_that (offset \<le> endp)) (\<lambda>_.
              andthen (grow bc ctx i endp s) (\<lambda>s.
              andthen (write_loop bc ctx i src (unat offset) 0 (unat amount) False s) (\<lambda>s.
              andthen (grow bc ctx i endp s) (\<lambda>s. Ok (amount, s))))))))"

section \<open>Directories\<close>

text \<open>
  \<^verbatim>\<open>DirEntry cur\<close>: a short read leaves the rest of it as it was, and before the first full
  read (\<open>[]\<close>) the rest is uninitialised.
\<close>

definition fill_dirent :: "u8 list \<Rightarrow> u8 list \<Rightarrow> u8 list outcome" where
  "fill_dirent bs cur =
     (if length bs = sizeof_DirEntry then Ok bs
      else if cur = [] then Undef
      else Ok (splice 0 bs cur))"

text \<open>\<^verbatim>\<open>memcmp(cur.name, name, MAX(strlen(name), strlen(cur.name))) == 0\<close>\<close>

definition same_name :: "u8 list \<Rightarrow> u8 list \<Rightarrow> bool outcome" where
  "same_name a name =
     andthen (strlen name) (\<lambda>n. andthen (strlen a) (\<lambda>m. andthen (memcmp a name (max n m)) (\<lambda>r. Ok (r = 0))))"

text \<open>
  The loop of \<^verbatim>\<open>inode_lookup\<close> and \<^verbatim>\<open>lookup\<close>; its result is the entry found and its place.
  The size of the directory does not change during the loop.
\<close>

function lookup_loop :: "'c block_cache \<Rightarrow> nat \<Rightarrow> u8 list \<Rightarrow> nat \<Rightarrow> nat \<Rightarrow> u8 list \<Rightarrow> 'c isys \<Rightarrow> ((nat \<times> nat) option \<times> 'c isys) outcome" where
  "lookup_loop bc i name p sz cur s =
     (if p < sz then
        andthen (inode_read bc i (of_nat p) (of_nat sizeof_DirEntry) s) (\<lambda>(_, bs, s).
        andthen (fill_dirent bs cur) (\<lambda>cur.
        let d = decode_dirent cur
        in andthen (if dinode d \<noteq> 0 then same_name (dname d) name else Ok False) (\<lambda>found.
           if found then Ok (Some (unat (dinode d), p), s)
           else lookup_loop bc i name (p + sizeof_DirEntry) sz cur s)))
      else Ok (None, s))"
  by pat_completeness auto
termination
  by (relation "measure (\<lambda>(bc, i, name, p, sz, cur, s). sz - p)") (auto simp: sizeof_DirEntry_def)

declare lookup_loop.simps [simp del]

text \<open>The second component of the result is what is stored through \<^verbatim>\<open>index\<close>, if anything.\<close>

definition inode_lookup :: "'c block_cache \<Rightarrow> nat \<Rightarrow> u8 list \<Rightarrow> 'c isys \<Rightarrow> (nat \<times> nat option \<times> 'c isys) outcome" where
  "inode_lookup bc i name s =
     andthen (assert_that (itype (ent i s) = INODE_DIRECTORY)) (\<lambda>_.
     andthen (lookup_loop bc i name 0 (unat (num_bytes (ent i s))) [] s) (\<lambda>(r, s).
     case r of Some (n, p) \<Rightarrow> Ok (n, Some p, s) | None \<Rightarrow> Ok (0, None, s)))"

definition lookup :: "'c block_cache \<Rightarrow> nat \<Rightarrow> u8 list \<Rightarrow> 'c isys \<Rightarrow> (nat \<times> nat \<times> 'c isys) outcome" where
  "lookup bc i name s =
     andthen (assert_that (itype (ent i s) = INODE_DIRECTORY)) (\<lambda>_.
     andthen (lookup_loop bc i name 0 (unat (num_bytes (ent i s))) [] s) (\<lambda>(r, s).
     case r of Some (n, p) \<Rightarrow> Ok (n, p, s) | None \<Rightarrow> Ok (0, unat (num_bytes (ent i s)), s)))"

definition inode_insert :: "'c block_cache \<Rightarrow> bool \<Rightarrow> nat \<Rightarrow> u8 list \<Rightarrow> nat \<Rightarrow> 'c isys \<Rightarrow> (int \<times> 'c isys) outcome" where
  "inode_insert bc ctx i name inode_no s =
     andthen (assert_that (itype (ent i s) = INODE_DIRECTORY)) (\<lambda>_.
     andthen (lookup bc i name s) (\<lambda>(n, index, s).
     if n \<noteq> 0 then Ok (- 1, s)
     else andthen (strncpy name FILE_NAME_MAX_LENGTH (replicate FILE_NAME_MAX_LENGTH 0)) (\<lambda>nm.
          let new = encode_dirent \<lparr>dinode = of_nat inode_no, dname = nm\<rparr>
          in andthen (inode_write bc ctx i new (of_nat index) (of_nat sizeof_DirEntry) s) (\<lambda>(_, s).
             Ok (0, s)))))"

definition inode_remove :: "'c block_cache \<Rightarrow> bool \<Rightarrow> nat \<Rightarrow> u64 \<Rightarrow> 'c isys \<Rightarrow> 'c isys outcome" where
  "inode_remove bc ctx i index s =
     andthen (inode_read bc i index (of_nat sizeof_DirEntry) s) (\<lambda>(_, bs, s).
     andthen (fill_dirent bs []) (\<lambda>cur.
     let now = (decode_dirent cur)\<lparr>dinode := 0\<rparr>
     in andthen (inode_write bc ctx i (encode_dirent now) index (of_nat sizeof_DirEntry) s) (\<lambda>(_, s). Ok s)))"

section \<open>Paths\<close>

text \<open>
  \<^verbatim>\<open>skipelem\<close> on a path without its terminating zero; \<open>name\<close> is the buffer of
  \<^verbatim>\<open>FILE_NAME_MAX_LENGTH\<close> bytes.
\<close>

definition SLASH :: u8 where "SLASH = 47"

definition skipelem :: "u8 list \<Rightarrow> u8 list \<Rightarrow> (u8 list \<times> u8 list) option" where
  "skipelem path name =
     (let path = dropWhile (\<lambda>c. c = SLASH) path
      in if path = [] then None
         else let elem = takeWhile (\<lambda>c. c \<noteq> SLASH) path;
                  len = length elem;
                  name = (if len \<ge> FILE_NAME_MAX_LENGTH then splice 0 (take FILE_NAME_MAX_LENGTH elem) name
                          else (splice 0 elem name)[len := 0])
              in Some (dropWhile (\<lambda>c. c = SLASH) (dropWhile (\<lambda>c. c \<noteq> SLASH) path), name))"

lemma skipelem_shorter: "skipelem path name = Some (p, n) \<Longrightarrow> length p < length path"
proof -
  assume a: "skipelem path name = Some (p, n)"
  let ?q = "dropWhile (\<lambda>c. c = SLASH) path"
  from a have ne: "?q \<noteq> []" and p: "p = dropWhile (\<lambda>c. c = SLASH) (dropWhile (\<lambda>c. c \<noteq> SLASH) ?q)"
    by (auto simp: skipelem_def Let_def split: if_splits)
  obtain x q where q: "?q = x # q" using ne by (cases ?q) auto
  then have "x \<noteq> SLASH" using hd_dropWhile [OF ne] by simp
  then have "dropWhile (\<lambda>c. c \<noteq> SLASH) ?q = dropWhile (\<lambda>c. c \<noteq> SLASH) q" by (simp add: q)
  then have "length p \<le> length q" by (metis p length_dropWhile_le le_trans)
  moreover have "Suc (length q) \<le> length path" using length_dropWhile_le [of "\<lambda>c. c = SLASH" path] q by simp
  ultimately show ?thesis by simp
qed

function namex_loop :: "'c block_cache \<Rightarrow> bool \<Rightarrow> bool \<Rightarrow> nat \<Rightarrow> (u8 list \<times> u8 list) option \<Rightarrow> u8 list \<Rightarrow> 'c isys \<Rightarrow> (nat option \<times> u8 list \<times> 'c isys) outcome" where
  "namex_loop bc ctx parent cur None name s =
     (if parent then andthen (inode_put bc ctx cur s) (\<lambda>s. Ok (None, name, s)) else Ok (Some cur, name, s))"
| "namex_loop bc ctx parent cur (Some (path, name)) old s =
     andthen (inode_lock cur s) (\<lambda>s.
     if itype (ent cur s) \<noteq> INODE_DIRECTORY
     then andthen (inode_unlock cur s) (\<lambda>s. andthen (inode_put bc ctx cur s) (\<lambda>s. Ok (None, name, s)))
     else if parent \<and> path = [] then andthen (inode_unlock cur s) (\<lambda>s. Ok (Some cur, name, s))
     else andthen (inode_lookup bc cur name s) (\<lambda>(next_no, _, s).
          andthen (inode_get bc next_no s) (\<lambda>(next, s).
          case next of
            None \<Rightarrow> andthen (inode_unlock cur s) (\<lambda>s. andthen (inode_put bc ctx cur s) (\<lambda>s. Ok (None, name, s)))
          | Some nxt \<Rightarrow>
              andthen (inode_unlock cur s) (\<lambda>s.
              andthen (inode_put bc ctx cur s) (\<lambda>s.
              namex_loop bc ctx parent nxt (skipelem path name) name s)))))"
  by pat_completeness auto
termination
  by (relation "measure (\<lambda>(bc, ctx, parent, cur, p, old, s). case p of None \<Rightarrow> 0 | Some (path, _) \<Rightarrow> Suc (length path))")
    (auto split: option.splits dest: skipelem_shorter)

declare namex_loop.simps [simp del]

definition namex :: "'c block_cache \<Rightarrow> u8 list \<Rightarrow> bool \<Rightarrow> u8 list \<Rightarrow> bool \<Rightarrow> 'c isys \<Rightarrow> (nat option \<times> u8 list \<times> 'c isys) outcome" where
  "namex bc path parent name ctx s =
     andthen
       (if take 1 path = [SLASH] then inode_get bc ROOT_INODE_NO s
        else Ok (Some (cur_cwd s), inode_share (cur_cwd s) s)) (\<lambda>(r, s).
     case r of None \<Rightarrow> Undef
     | Some cur \<Rightarrow> namex_loop bc ctx parent cur (skipelem path name) name s)"

text \<open>The buffer on the stack of \<^verbatim>\<open>namei\<close> is written before it is read: its first content does not matter.\<close>

definition namei :: "'c block_cache \<Rightarrow> u8 list \<Rightarrow> bool \<Rightarrow> 'c isys \<Rightarrow> (nat option \<times> 'c isys) outcome" where
  "namei bc path ctx s =
     andthen (namex bc path False (replicate FILE_NAME_MAX_LENGTH 0) ctx s) (\<lambda>(r, _, s). Ok (r, s))"

definition nameiparent :: "'c block_cache \<Rightarrow> u8 list \<Rightarrow> u8 list \<Rightarrow> bool \<Rightarrow> 'c isys \<Rightarrow> (nat option \<times> u8 list \<times> 'c isys) outcome" where
  "nameiparent bc path name ctx s = namex bc path True name ctx s"

section \<open>Status of an inode\<close>

record kstat =
  st_dev :: nat
  st_ino :: nat
  st_nlink :: nat
  st_size :: nat
  st_mode :: nat

definition S_IFREG :: nat where "S_IFREG = 32768"
definition S_IFDIR :: nat where "S_IFDIR = 16384"

definition stati :: "nat \<Rightarrow> 'c isys \<Rightarrow> kstat outcome" where
  "stati i s =
     (let e = ent i s;
          kst = (\<lambda>m. \<lparr>st_dev = 1, st_ino = i, st_nlink = unat (num_links e), st_size = unat (num_bytes e), st_mode = m\<rparr>)
      in if itype e = INODE_REGULAR then Ok (kst S_IFREG)
         else if itype e = INODE_DIRECTORY then Ok (kst S_IFDIR)
         else if itype e = INODE_DEVICE then Ok (kst 0)
         else Panic)"

section \<open>The table of operations\<close>

text \<open>\<^verbatim>\<open>InodeTree\<close> of \<^verbatim>\<open>inode.h\<close> and the global \<^verbatim>\<open>inodes\<close>; the member \<^verbatim>\<open>root\<close> is \<open>iroot\<close> of the state.\<close>

record 'c inode_tree =
  it_alloc :: "bool \<Rightarrow> u16 \<Rightarrow> 'c isys \<Rightarrow> (nat \<times> 'c isys) outcome"
  it_lock :: "nat \<Rightarrow> 'c isys \<Rightarrow> 'c isys outcome"
  it_unlock :: "nat \<Rightarrow> 'c isys \<Rightarrow> 'c isys outcome"
  it_sync :: "bool \<Rightarrow> nat \<Rightarrow> bool \<Rightarrow> 'c isys \<Rightarrow> 'c isys outcome"
  it_get :: "nat \<Rightarrow> 'c isys \<Rightarrow> (nat option \<times> 'c isys) outcome"
  it_clear :: "bool \<Rightarrow> nat \<Rightarrow> 'c isys \<Rightarrow> 'c isys outcome"
  it_share :: "nat \<Rightarrow> 'c isys \<Rightarrow> 'c isys"
  it_put :: "bool \<Rightarrow> nat \<Rightarrow> 'c isys \<Rightarrow> 'c isys outcome"
  it_read :: "nat \<Rightarrow> u64 \<Rightarrow> u64 \<Rightarrow> 'c isys \<Rightarrow> (u64 \<times> u8 list \<times> 'c isys) outcome"
  it_write :: "bool \<Rightarrow> nat \<Rightarrow> u8 list \<Rightarrow> u64 \<Rightarrow> u64 \<Rightarrow> 'c isys \<Rightarrow> (u64 \<times> 'c isys) outcome"
  it_lookup :: "nat \<Rightarrow> u8 list \<Rightarrow> 'c isys \<Rightarrow> (nat \<times> nat option \<times> 'c isys) outcome"
  it_insert :: "bool \<Rightarrow> nat \<Rightarrow> u8 list \<Rightarrow> nat \<Rightarrow> 'c isys \<Rightarrow> (int \<times> 'c isys) outcome"
  it_remove :: "bool \<Rightarrow> nat \<Rightarrow> u64 \<Rightarrow> 'c isys \<Rightarrow> 'c isys outcome"

definition inodes :: "'c block_cache \<Rightarrow> 'c inode_tree" where
  "inodes bc = \<lparr>it_alloc = inode_alloc bc, it_lock = inode_lock, it_unlock = inode_unlock, it_sync = inode_sync bc,
     it_get = inode_get bc, it_clear = inode_clear bc, it_share = inode_share, it_put = inode_put bc,
     it_read = inode_read bc, it_write = inode_write bc, it_lookup = inode_lookup bc, it_insert = inode_insert bc,
     it_remove = inode_remove bc\<rparr>"

end
