(* ===== verification/InodeSpec.thy ===== *)
theory InodeSpec
  imports InodeFile
begin

text \<open>
  What the inode layer promises about the content of a file, on any cache that obeys the laws
  of \<open>cache_client\<close>: a file is the bytes of its blocks in order, cut at its size; reading
  returns them, overwriting changes them in place and nothing else.
\<close>

section \<open>The content of a file\<close>

definition block_of :: "inode_entry \<Rightarrow> (nat \<Rightarrow> u8 list) \<Rightarrow> nat \<Rightarrow> nat" where
  "block_of e v k =
     (if k < INODE_NUM_DIRECT then unat (addrs e ! k)
      else unat (get_indirect (k - INODE_NUM_DIRECT) (v (unat (indirect e)))))"

definition num_file_blocks :: "inode_entry \<Rightarrow> nat" where
  "num_file_blocks e = (unat (num_bytes e) + (BLOCK_SIZE - 1)) div BLOCK_SIZE"

definition block_bytes :: "inode_entry \<Rightarrow> (nat \<Rightarrow> u8 list) \<Rightarrow> nat \<Rightarrow> u8 list" where
  "block_bytes e v nb = concat (map (\<lambda>k. v (block_of e v k)) [0..<nb])"

definition file_bytes :: "inode_entry \<Rightarrow> (nat \<Rightarrow> u8 list) \<Rightarrow> u8 list" where
  "file_bytes e v = take (unat (num_bytes e)) (block_bytes e v (num_file_blocks e))"

text \<open>The blocks a read of the first \<open>nb\<close> blocks goes through are allocated, usable and free.\<close>

definition mapped :: "nat set \<Rightarrow> nat set \<Rightarrow> inode_entry \<Rightarrow> (nat \<Rightarrow> u8 list) \<Rightarrow> nat \<Rightarrow> bool" where
  "mapped fit held e v nb \<longleftrightarrow> nb \<le> INODE_MAX_BLOCKS \<and>
     (\<forall>k<nb. block_of e v k \<noteq> 0 \<and> block_of e v k \<in> fit - held) \<and>
     (INODE_NUM_DIRECT < nb \<longrightarrow> indirect e \<noteq> 0 \<and> unat (indirect e) \<in> fit - held)"

lemma num_file_blocks_covers: "unat (num_bytes e) \<le> BLOCK_SIZE * num_file_blocks e"
  by (simp add: num_file_blocks_def BLOCK_SIZE_def)

lemma num_file_blocks_last: "p < unat (num_bytes e) \<Longrightarrow> p div BLOCK_SIZE < num_file_blocks e"
  by (simp add: num_file_blocks_def BLOCK_SIZE_def)

lemma length_block_bytes:
  "\<forall>n. length (v n) = BLOCK_SIZE \<Longrightarrow> length (block_bytes e v nb) = BLOCK_SIZE * nb"
  using length_concat_const [of "map (\<lambda>k. v (block_of e v k)) [0..<nb]" BLOCK_SIZE] by (simp add: block_bytes_def)

lemma chunk_block_bytes:
  "\<forall>n. length (v n) = BLOCK_SIZE \<Longrightarrow> k < nb \<Longrightarrow> chunk BLOCK_SIZE k (block_bytes e v nb) = v (block_of e v k)"
  using chunk_concat [of "map (\<lambda>k. v (block_of e v k)) [0..<nb]" BLOCK_SIZE k "[]"] by (simp add: block_bytes_def)

lemma take_chunk_at:
  assumes "k = p div b" and "p mod b + n \<le> b"
  shows "take n (drop (p mod b) (chunk b k xs)) = take n (drop p xs)"
proof -
  have "take n (drop (p mod b) (chunk b k xs)) = take n (take (b - p mod b) (drop (p mod b) (drop (b * k) xs)))"
    by (simp add: chunk_def drop_take)
  also have "\<dots> = take n (drop (p mod b) (drop (b * k) xs))" using assms(2) by simp
  also have "drop (p mod b) (drop (b * k) xs) = drop p xs" using assms(1) by (simp add: add.commute)
  finally show ?thesis .
qed

text \<open>The first position of the next block.\<close>

lemma next_block: "(p div BLOCK_SIZE + 1) * BLOCK_SIZE = p + (BLOCK_SIZE - p mod BLOCK_SIZE)" "p mod BLOCK_SIZE < BLOCK_SIZE"
proof -
  show m: "p mod BLOCK_SIZE < BLOCK_SIZE" by (simp add: BLOCK_SIZE_def)
  show "(p div BLOCK_SIZE + 1) * BLOCK_SIZE = p + (BLOCK_SIZE - p mod BLOCK_SIZE)"
    using m div_mult_mod_eq [of p BLOCK_SIZE] unfolding add_mult_distrib by linarith
qed

lemma take_add_drop: "take n (drop p xs) @ take m (drop (p + n) xs) = take (n + m) (drop p xs)"
  unfolding take_add drop_drop by (simp add: add.commute [of p n])

lemma isys_same_cst [simp]: "(s :: 'c isys)\<lparr>cst := cst s\<rparr> = s"
  by simp

section \<open>Reading\<close>

context cache_client
begin

text \<open>What only looking at the cache leaves alone.\<close>

definition kept :: "op_context \<Rightarrow> 'c \<Rightarrow> 'c \<Rightarrow> bool" where
  "kept c s t \<longleftrightarrow> ok c t \<and> view t = view s \<and> held t = held s \<and> fit t = fit s"

lemma kept_refl: "ok c s \<Longrightarrow> kept c s s"
  by (simp add: kept_def)

lemma kept_trans: "kept c s t \<Longrightarrow> kept c t u \<Longrightarrow> kept c s u"
  by (simp add: kept_def)

lemma map_mapped:
  assumes ok: "ok c (cst s)" and m: "mapped (fit (cst s)) (held (cst s)) (ent i s) (view (cst s)) nb" and k: "k < nb"
  shows "\<exists>t. inode_map bc ctx i k modified s = Ok (block_of (ent i s) (view (cst s)) k, modified, s\<lparr>cst := t\<rparr>) \<and>
    kept c (cst s) t"
proof (cases "k < INODE_NUM_DIRECT")
  case True
  have "block_of (ent i s) (view (cst s)) k \<noteq> 0" using m k by (auto simp: mapped_def)
  with True have "addrs (ent i s) ! k \<noteq> 0" by (auto simp: block_of_def)
  with True ok show ?thesis
    by (intro exI [of _ "cst s"]) (simp add: inode_map_def block_of_def kept_refl)
next
  case False
  let ?ind = "unat (indirect (ent i s))" and ?b = "get_indirect (k - INODE_NUM_DIRECT) (view (cst s) (unat (indirect (ent i s))))"
  have ind: "indirect (ent i s) \<noteq> 0" "?ind \<in> fit (cst s)" "?ind \<notin> held (cst s)" using m k False by (auto simp: mapped_def)
  have "block_of (ent i s) (view (cst s)) k \<noteq> 0" using m k by (auto simp: mapped_def)
  with False have b: "?b \<noteq> 0" by (auto simp: block_of_def)
  have r: "k - INODE_NUM_DIRECT < INODE_NUM_INDIRECT" using m k False by (auto simp: mapped_def INODE_MAX_BLOCKS_def)
  obtain s1 s2 where "bc_acquire bc ?ind (cst s) = Ok s1" "bc_data bc ?ind s1 = view (cst s) ?ind"
    "bc_release bc ?ind s1 = Ok s2" "kept c (cst s) s2"
    using look [OF ok ind(3,2)] unfolding kept_def by metis
  with False ind(1) b r show ?thesis
    by (intro exI [of _ s2]) (simp add: inode_map_def Let_def b_acquire_def b_release_def b_data_def get_addrs_def block_of_def ent_def)
qed

lemma read_loop_content:
  assumes "ok c (cst s)" and "mapped (fit (cst s)) (held (cst s)) (ent i s) (view (cst s)) nb"
    and "endp \<le> BLOCK_SIZE * nb" and "p \<le> endp"
  shows "\<exists>t. read_loop bc i p endp dest s =
      Ok (dest @ take (endp - p) (drop p (block_bytes (ent i s) (view (cst s)) nb)), s\<lparr>cst := t\<rparr>) \<and> kept c (cst s) t"
  using assms
proof (induction "endp - p" arbitrary: p dest s rule: less_induct)
  case less
  let ?v = "view (cst s)" and ?e = "ent i s" and ?k = "p div BLOCK_SIZE"
  let ?F = "block_bytes ?e ?v nb"
  show ?case
  proof (cases "p < endp")
    case False
    then show ?thesis using less.prems(1) kept_refl
      by (intro exI [of _ "cst s"]) (simp add: read_loop.simps)
  next
    case p: True
    let ?len = "min (BLOCK_SIZE - p mod BLOCK_SIZE) (endp - p)" and ?next = "(?k + 1) * BLOCK_SIZE"
    have k: "?k < nb" using p less.prems(3) by (simp add: BLOCK_SIZE_def)
    let ?n = "block_of ?e ?v ?k"
    from map_mapped [OF less.prems(1,2) k] obtain t where
      t: "inode_map bc False i ?k False s = Ok (?n, False, s\<lparr>cst := t\<rparr>)" "kept c (cst s) t" by blast
    have n: "?n \<in> fit t" "?n \<notin> held t" using less.prems(2) k t(2) by (auto simp: mapped_def kept_def)
    obtain t1 t2 where t12: "bc_acquire bc ?n t = Ok t1" "bc_data bc ?n t1 = ?v ?n" "bc_release bc ?n t1 = Ok t2"
      "kept c (cst s) t2"
      using look [of c t ?n] n t(2) unfolding kept_def by metis
    have len: "\<forall>n. length (?v n) = BLOCK_SIZE" using length_view [OF less.prems(1)] by simp
    have piece: "take ?len (drop (p mod BLOCK_SIZE) (?v ?n)) = take ?len (drop p ?F)"
    proof -
      have "p mod BLOCK_SIZE + ?len \<le> BLOCK_SIZE" using next_block(2) [of p] by simp
      from take_chunk_at [OF refl this, of ?F] show ?thesis
        by (simp only: chunk_block_bytes [OF len k])
    qed
    let ?d = "dest @ take ?len (drop p ?F)"
    have step: "read_loop bc i p endp dest s = read_loop bc i ?next endp ?d (s\<lparr>cst := t2\<rparr>)"
      using p t t12 piece
      by (subst read_loop.simps) (simp add: b_acquire_def b_release_def b_data_def Let_def del: mult_Suc)
    have same: "ent i (s\<lparr>cst := t2\<rparr>) = ?e" "view t2 = ?v" using t12(4) by (simp_all add: ent_def kept_def)
    show ?thesis
    proof (cases "?next \<le> endp")
      case True
      have "?len = BLOCK_SIZE - p mod BLOCK_SIZE" using True next_block(1) [of p] by simp
      then have nx: "?next = p + ?len" using next_block(1) [of p] by simp
      have "endp - ?next < endp - p" using p next_block [of p] by simp
      then obtain u where u: "read_loop bc i ?next endp ?d (s\<lparr>cst := t2\<rparr>) =
          Ok (?d @ take (endp - ?next) (drop ?next ?F), s\<lparr>cst := u\<rparr>)" "kept c t2 u"
        using less.hyps [of ?next "s\<lparr>cst := t2\<rparr>" ?d] less.prems(2,3) t12(4) same True by (auto simp: kept_def)
      have "?d @ take (endp - ?next) (drop ?next ?F) = dest @ take (endp - p) (drop p ?F)"
        unfolding nx using take_add_drop [of ?len p ?F "endp - (p + ?len)"] p by simp
      then show ?thesis using step u(1) kept_trans [OF t12(4) u(2)] by (intro exI [of _ u]) simp
    next
      case False
      then have "?len = endp - p" using next_block(1) [of p] by simp
      moreover have "read_loop bc i ?next endp ?d (s\<lparr>cst := t2\<rparr>) = Ok (?d, s\<lparr>cst := t2\<rparr>)"
        using False by (simp add: read_loop.simps)
      ultimately show ?thesis using step t12(4) by (intro exI [of _ t2]) simp
    qed
  qed
qed

lemma unat_file_size: "unat (file_size i s) = unat (num_bytes (ent i s))"
proof -
  have "unat (num_bytes (ent i s)) < 2 ^ 64" using unat_u32_less [of "num_bytes (ent i s)"] by simp
  then show ?thesis by (simp add: file_size_def unsigned_ucast_eq take_bit_eq_mod)
qed

lemma read_content:
  assumes ok: "ok c (cst s)" and e: "itype (ent i s) \<noteq> INODE_DEVICE"
    and m: "mapped (fit (cst s)) (held (cst s)) (ent i s) (view (cst s)) (num_file_blocks (ent i s))"
    and o: "unat offset \<le> unat (num_bytes (ent i s))" and a: "unat offset + unat amount < 2 ^ 64"
  defines "n \<equiv> min (unat amount) (unat (num_bytes (ent i s)) - unat offset)"
  shows "\<exists>t. inode_read bc i offset amount s =
      Ok (of_nat n, take n (drop (unat offset) (file_bytes (ent i s) (view (cst s)))), s\<lparr>cst := t\<rparr>) \<and> kept c (cst s) t"
proof -
  let ?fs = "file_size i s" and ?e = "ent i s" and ?v = "view (cst s)"
  let ?amount = "if amount + offset > ?fs then ?fs - offset else amount"
  have sum: "unat (amount + offset) = unat amount + unat offset" using a by (simp add: unat_word_ariths)
  have le: "offset \<le> ?fs" using o by (simp add: word_le_nat_alt unat_file_size)
  have am: "unat ?amount = n"
  proof (cases "amount + offset > ?fs")
    case True
    then have "unat (num_bytes ?e) < unat amount + unat offset" by (simp only: word_less_nat_alt sum unat_file_size)
    with True unat_sub [OF le] show ?thesis by (simp add: n_def unat_file_size)
  next
    case False
    then have "unat amount + unat offset \<le> unat (num_bytes ?e)" by (simp only: word_less_nat_alt sum unat_file_size not_less)
    with False show ?thesis by (simp add: n_def)
  qed
  have word: "w = of_nat n" if "unat w = n" for w :: u64 using that by auto
  have am': "?amount = of_nat n" using am by (rule word)
  have n: "n \<le> unat (num_bytes ?e) - unat offset" by (simp add: n_def)
  have un: "unat (of_nat n :: u64) = n" using am unfolding am' .
  have endp: "unat (offset + of_nat n) = unat offset + n"
    using un n o unat_u32_less [of "num_bytes ?e"] by (simp add: unat_word_ariths)
  have le2: "offset + of_nat n \<le> ?fs" "offset \<le> offset + of_nat n"
    using n o by (simp_all add: word_le_nat_alt endp unat_file_size)
  have "unat offset + n \<le> BLOCK_SIZE * num_file_blocks ?e" using n o num_file_blocks_covers [of ?e] by simp
  from read_loop_content [OF ok m this, of "unat offset" "[]"] obtain t where
    t: "read_loop bc i (unat offset) (unat offset + n) [] s =
      Ok (take n (drop (unat offset) (block_bytes ?e ?v (num_file_blocks ?e))), s\<lparr>cst := t\<rparr>)" "kept c (cst s) t" by auto
  have "inode_read bc i offset amount s =
      Ok (of_nat n, take n (drop (unat offset) (block_bytes ?e ?v (num_file_blocks ?e))), s\<lparr>cst := t\<rparr>)"
    unfolding inode_read_def Let_def am' using e le le2 endp t(1) by simp
  moreover have "take n (drop (unat offset) (block_bytes ?e ?v (num_file_blocks ?e))) = take n (drop (unat offset) (file_bytes ?e ?v))"
    using n by (simp add: file_bytes_def drop_take min_absorb1)
  ultimately show ?thesis using t(2) by auto
qed

end

end
