(* ===== verification/InodeWrite.thy ===== *)
theory InodeWrite
  imports InodeSpec
begin

text \<open>
  Writing into a file whose blocks exist: the bytes change in place, no other block of the disk
  changes, and the operation is charged one block for each block it touches.
\<close>

section \<open>Changing one block of a file\<close>

text \<open>The blocks of a file are different from each other and from its indirect block.\<close>

definition own_blocks :: "inode_entry \<Rightarrow> (nat \<Rightarrow> u8 list) \<Rightarrow> nat \<Rightarrow> bool" where
  "own_blocks e v nb \<longleftrightarrow> inj_on (block_of e v) {..<nb} \<and>
     (INODE_NUM_DIRECT < nb \<longrightarrow> unat (indirect e) \<notin> block_of e v ` {..<nb})"

lemma block_of_upd:
  assumes "own_blocks e v nb" and "k < nb" and "j < nb"
  shows "block_of e (v(block_of e v k := bs)) j = block_of e v j"
  using assms by (auto simp: own_blocks_def block_of_def split: if_splits)

lemma own_blocks_upd:
  assumes "own_blocks e v nb" and "k < nb"
  shows "own_blocks e (v(block_of e v k := bs)) nb"
proof -
  have eq: "\<forall>j\<in>{..<nb}. block_of e (v(block_of e v k := bs)) j = block_of e v j"
    using block_of_upd [OF assms] by simp
  have img: "block_of e (v(block_of e v k := bs)) ` {..<nb} = block_of e v ` {..<nb}"
    using eq by (intro image_cong) auto
  have inj: "inj_on (block_of e (v(block_of e v k := bs))) {..<nb} = inj_on (block_of e v) {..<nb}"
    using eq by (intro inj_on_cong) auto
  show ?thesis using assms(1) unfolding own_blocks_def img inj .
qed

lemma mapped_upd:
  assumes "own_blocks e v nb" and "k < nb" and "mapped F H e v nb"
  shows "mapped F H e (v(block_of e v k := bs)) nb"
  using assms(3) block_of_upd [OF assms(1,2)] by (simp add: mapped_def)

lemma splice_at_chunk:
  assumes "length xs = b" and "length F = b * nb" and "k < nb" and "d + length ys \<le> b" and "chunk b k F = xs"
  shows "put_chunk b k (splice d ys xs) F = splice (b * k + d) ys F"
proof -
  have le: "b * k + b \<le> b * nb" using assms(3) by (metis Suc_leI add.commute mult_Suc_right mult_le_mono2)
  have x: "take d xs = take d (drop (b * k) F)" "drop (d + length ys) xs = drop (d + length ys) (take b (drop (b * k) F))"
    using assms(4,5) by (auto simp: chunk_def)
  have "drop (d + length ys) (take b (drop (b * k) F)) @ drop (b * k + b) F = drop (b * k + (d + length ys)) F"
  proof -
    have "drop (d + length ys) (drop (b * k) F) = drop (d + length ys) (take b (drop (b * k) F) @ drop b (drop (b * k) F))"
      by (simp only: append_take_drop_id)
    also have "\<dots> = drop (d + length ys) (take b (drop (b * k) F)) @ drop (b * k + b) F"
    proof -
      have lt: "length (take b (drop (b * k) F)) = b" using assms(2) le by simp
      show ?thesis using assms(4) unfolding drop_append lt by (simp add: add.commute)
    qed
    finally show ?thesis by (simp add: add.commute)
  qed
  then show ?thesis
    by (simp add: put_chunk_def splice_def x take_add [symmetric] add.assoc)
qed

lemma block_bytes_upd:
  assumes own: "own_blocks e v nb" and k: "k < nb" and len: "\<forall>n. length (v n) = BLOCK_SIZE"
    and d: "d + length ys \<le> BLOCK_SIZE"
  defines "v' \<equiv> v(block_of e v k := splice d ys (v (block_of e v k)))"
  shows "block_bytes e v' nb = splice (BLOCK_SIZE * k + d) ys (block_bytes e v nb)"
proof -
  let ?F = "block_bytes e v nb" and ?n = "block_of e v k"
  let ?x = "splice d ys (v ?n)"
  have lx: "length ?x = BLOCK_SIZE" using len d by simp
  have len': "\<forall>n. length (v' n) = BLOCK_SIZE" using len lx by (simp add: v'_def)
  have le: "BLOCK_SIZE * k + BLOCK_SIZE \<le> length ?F"
    using k length_block_bytes [OF len, of e nb] by (metis Suc_leI add.commute mult_Suc_right mult_le_mono2)
  have "block_bytes e v' nb = put_chunk BLOCK_SIZE k ?x ?F"
  proof (rule chunks_ext)
    show "length (block_bytes e v' nb) = BLOCK_SIZE * nb" by (rule length_block_bytes [OF len'])
    show "length (put_chunk BLOCK_SIZE k ?x ?F) = BLOCK_SIZE * nb"
      using length_put_chunk [OF lx le] length_block_bytes [OF len] by simp
    fix j assume j: "j < nb"
    have "block_of e v' j = block_of e v j" unfolding v'_def by (rule block_of_upd [OF own k j])
    then have "chunk BLOCK_SIZE j (block_bytes e v' nb) = v' (block_of e v j)"
      using chunk_block_bytes [OF len' j, of e] by simp
    moreover have "block_of e v j = ?n \<longleftrightarrow> j = k"
      using own j k by (auto simp: own_blocks_def inj_on_def)
    ultimately show "chunk BLOCK_SIZE j (block_bytes e v' nb) = chunk BLOCK_SIZE j (put_chunk BLOCK_SIZE k ?x ?F)"
      using chunk_put_chunk_same [OF lx le] chunk_put_chunk_other [OF lx le, of j] chunk_block_bytes [OF len j, of e]
      by (cases "j = k") (simp_all add: v'_def)
  qed
  then show ?thesis
    using splice_at_chunk [of "v ?n" BLOCK_SIZE ?F nb k d ys] len k d length_block_bytes [OF len] chunk_block_bytes [OF len k]
    by simp
qed

lemma splice_splice:
  "p + length xs + length ys \<le> length F \<Longrightarrow>
    splice (p + length xs) ys (splice p xs F) = splice p (xs @ ys) F"
  by (auto simp: nth_splice nth_append intro!: nth_equalityI)

section \<open>The loop\<close>

text \<open>The number of blocks that \<open>n\<close> bytes from position \<open>p\<close> on touch.\<close>

definition touched :: "nat \<Rightarrow> nat \<Rightarrow> nat" where
  "touched p n = (if n = 0 then 0 else (p + n - 1) div BLOCK_SIZE - p div BLOCK_SIZE + 1)"

lemma touched_within:
  "0 < n \<Longrightarrow> n \<le> BLOCK_SIZE - p mod BLOCK_SIZE \<Longrightarrow> touched p n = 1"
proof -
  assume n: "0 < n" "n \<le> BLOCK_SIZE - p mod BLOCK_SIZE"
  have "(p + n - 1) div BLOCK_SIZE = p div BLOCK_SIZE"
  proof (rule div_nat_eqI)
    show "BLOCK_SIZE * (p div BLOCK_SIZE) \<le> p + n - 1" using mult_div_mod_eq [of BLOCK_SIZE p] n by linarith
    show "p + n - 1 < BLOCK_SIZE * Suc (p div BLOCK_SIZE)"
      using mult_div_mod_eq [of BLOCK_SIZE p] n next_block(2) [of p] by (simp; linarith)
  qed
  then show ?thesis using n by (simp add: touched_def)
qed

lemma touched_step:
  assumes "BLOCK_SIZE - p mod BLOCK_SIZE < n"
  shows "touched p n = Suc (touched (p + (BLOCK_SIZE - p mod BLOCK_SIZE)) (n - (BLOCK_SIZE - p mod BLOCK_SIZE)))"
proof -
  let ?c = "BLOCK_SIZE - p mod BLOCK_SIZE"
  have c: "0 < ?c" using next_block(2) [of p] by simp
  have q: "p + ?c = (p div BLOCK_SIZE + 1) * BLOCK_SIZE" using next_block(1) [of p] by simp
  have d: "(p + ?c) div BLOCK_SIZE = p div BLOCK_SIZE + 1" unfolding q by (simp add: BLOCK_SIZE_def)
  have "(p + ?c) div BLOCK_SIZE \<le> (p + n - 1) div BLOCK_SIZE" using assms by (intro div_le_mono) simp
  moreover have "p + ?c + (n - ?c) - 1 = p + n - 1" using assms by simp
  ultimately have "touched (p + ?c) (n - ?c) = (p + n - 1) div BLOCK_SIZE - (p div BLOCK_SIZE + 1) + 1"
    "p div BLOCK_SIZE + 1 \<le> (p + n - 1) div BLOCK_SIZE"
    using assms d by (simp_all add: touched_def)
  then have "(p + n - 1) div BLOCK_SIZE - p div BLOCK_SIZE = touched (p + ?c) (n - ?c)" by linarith
  then show ?thesis using assms c by (simp add: touched_def [of p n])
qed

context cache_client
begin

lemma write_block:
  assumes ok: "ok c (cst s)" and c: "c = opctx s" "0 < rm c" and n: "n \<in> fit (cst s)" "n \<notin> held (cst s)"
    and d: "d + cnt \<le> BLOCK_SIZE" and k: "k + cnt \<le> length src"
  defines "bs \<equiv> splice d (take cnt (drop k src)) (view (cst s) n)"
  shows "\<exists>c' t t1 t2. b_acquire bc n s = Ok (s\<lparr>cst := t1\<rparr>) \<and> memcpy d src k cnt (b_data bc n (s\<lparr>cst := t1\<rparr>)) = Ok bs \<and>
    b_sync bc True n (b_set bc n bs (s\<lparr>cst := t1\<rparr>)) = Ok (s\<lparr>cst := t2, opctx := c'\<rparr>) \<and>
    b_release bc n (s\<lparr>cst := t2, opctx := c'\<rparr>) = Ok (s\<lparr>cst := t, opctx := c'\<rparr>) \<and>
    ok c' t \<and> view t = (view (cst s))(n := bs) \<and> held t = held (cst s) \<and> fit t = fit (cst s) \<and> rm c \<le> rm c' + 1"
proof -
  have lv: "length (view (cst s) n) = BLOCK_SIZE" by (rule length_view [OF ok])
  have lb: "length bs = BLOCK_SIZE" using lv d k by (simp add: bs_def)
  obtain s1 c' s2 s3 where 1: "bc_acquire bc n (cst s) = Ok s1" "bc_data bc n s1 = view (cst s) n"
    "bc_sync bc (Some c) n (bc_set bc n bs s1) = Ok (Some c', s2)" "bc_release bc n s2 = Ok s3" "ok c' s3"
    "view s3 = (view (cst s))(n := bs)" "held s3 = held (cst s)" "fit s3 = fit (cst s)" "rm c \<le> rm c' + 1"
    using change [OF ok n(2,1) c(2) lb] .
  have m: "memcpy d src k cnt (view (cst s) n) = Ok bs" using memcpy_copies [OF k] d lv by (simp add: bs_def)
  show ?thesis
    by (rule exI [of _ c'], rule exI [of _ s3], rule exI [of _ s1], rule exI [of _ s2])
      (use 1 m c(1) in \<open>simp add: b_acquire_def b_data_def b_sync_def b_set_def b_release_def given_def put_ctx_def\<close>)
qed

text \<open>What writing \<open>xs\<close> at position \<open>p\<close> of the file does to the cache.\<close>

definition wrote :: "inode_entry \<Rightarrow> nat \<Rightarrow> nat \<Rightarrow> u8 list \<Rightarrow> op_context \<Rightarrow> 'c \<Rightarrow> op_context \<Rightarrow> 'c \<Rightarrow> bool" where
  "wrote e nb p xs c s c' t \<longleftrightarrow> ok c' t \<and> held t = held s \<and> fit t = fit s \<and>
     rm c \<le> rm c' + touched p (length xs) \<and> own_blocks e (view t) nb \<and>
     (\<forall>j<nb. block_of e (view t) j = block_of e (view s) j) \<and>
     block_bytes e (view t) nb = splice p xs (block_bytes e (view s) nb) \<and>
     (\<forall>n. n \<notin> block_of e (view s) ` {..<nb} \<longrightarrow> view t n = view s n)"

lemma wrote_Nil: "ok c s \<Longrightarrow> own_blocks e (view s) nb \<Longrightarrow> wrote e nb p [] c s c s"
  by (simp add: wrote_def)

lemma wrote_mapped:
  "wrote e nb p xs c s c' t \<Longrightarrow> mapped (fit s) (held s) e (view s) nb \<Longrightarrow> mapped (fit t) (held t) e (view t) nb"
  by (simp add: wrote_def mapped_def)

lemma wrote_trans:
  assumes "wrote e nb p xs c s c1 t" and "wrote e nb (p + length xs) ys c1 t c2 u"
    and "touched p (length (xs @ ys)) = touched p (length xs) + touched (p + length xs) (length ys)"
    and "p + length xs + length ys \<le> length (block_bytes e (view s) nb)"
  shows "wrote e nb p (xs @ ys) c s c2 u"
proof -
  have "block_of e (view t) ` {..<nb} = block_of e (view s) ` {..<nb}"
    using assms(1) by (intro image_cong) (auto simp: wrote_def)
  moreover have "splice (p + length xs) ys (splice p xs (block_bytes e (view s) nb)) = splice p (xs @ ys) (block_bytes e (view s) nb)"
    by (rule splice_splice [OF assms(4)])
  ultimately show ?thesis using assms(1,2) unfolding wrote_def assms(3) by simp
qed

lemma write_step:
  assumes ok: "ok c (cst s)" "c = opctx s" "0 < rm c"
    and m: "mapped (fit (cst s)) (held (cst s)) (ent i s) (view (cst s)) nb"
    and own: "own_blocks (ent i s) (view (cst s)) nb"
    and n: "0 < n" "p mod BLOCK_SIZE + n \<le> BLOCK_SIZE" "p + n \<le> BLOCK_SIZE * nb" "k + n \<le> length src"
  shows "\<exists>b bs c' t0 t1 t2 t. inode_map bc True i (p div BLOCK_SIZE) modified s = Ok (b, modified, s\<lparr>cst := t0\<rparr>) \<and>
    b_acquire bc b (s\<lparr>cst := t0\<rparr>) = Ok (s\<lparr>cst := t1\<rparr>) \<and>
    memcpy (p mod BLOCK_SIZE) src k n (b_data bc b (s\<lparr>cst := t1\<rparr>)) = Ok bs \<and>
    b_sync bc True b (b_set bc b bs (s\<lparr>cst := t1\<rparr>)) = Ok (s\<lparr>cst := t2, opctx := c'\<rparr>) \<and>
    b_release bc b (s\<lparr>cst := t2, opctx := c'\<rparr>) = Ok (s\<lparr>cst := t, opctx := c'\<rparr>) \<and>
    wrote (ent i s) nb p (take n (drop k src)) c (cst s) c' t"
proof -
  let ?v = "view (cst s)" and ?e = "ent i s" and ?B = "p div BLOCK_SIZE" and ?d = "p mod BLOCK_SIZE"
  have B: "?B < nb" using n(1,3) by (simp add: BLOCK_SIZE_def)
  let ?b = "block_of ?e ?v ?B" and ?x = "take n (drop k src)"
  let ?bs = "splice ?d ?x (?v ?b)"
  obtain t0 where t0: "inode_map bc True i ?B modified s = Ok (?b, modified, s\<lparr>cst := t0\<rparr>)" "kept c (cst s) t0"
    using map_mapped [OF ok(1) m B] by blast
  then have v0: "view t0 = ?v" "fit t0 = fit (cst s)" "held t0 = held (cst s)" "ok c t0" by (simp_all add: kept_def)
  have b: "?b \<in> fit t0" "?b \<notin> held t0" using m B v0 by (auto simp: mapped_def)
  have ok0: "ok c (cst (s\<lparr>cst := t0\<rparr>))" using v0(4) by simp
  have lx: "length ?x = n" using n(4) by simp
  obtain c' t t1 t2 where w: "b_acquire bc ?b (s\<lparr>cst := t0\<rparr>) = Ok (s\<lparr>cst := t1\<rparr>)"
    "memcpy ?d src k n (b_data bc ?b (s\<lparr>cst := t1\<rparr>)) = Ok ?bs"
    "b_sync bc True ?b (b_set bc ?b ?bs (s\<lparr>cst := t1\<rparr>)) = Ok (s\<lparr>cst := t2, opctx := c'\<rparr>)"
    "b_release bc ?b (s\<lparr>cst := t2, opctx := c'\<rparr>) = Ok (s\<lparr>cst := t, opctx := c'\<rparr>)"
    and t: "ok c' t" "view t = ?v(?b := ?bs)" "held t = held (cst s)" "fit t = fit (cst s)" "rm c \<le> rm c' + 1"
    using write_block [OF ok0, of ?b ?d n k src] ok(2,3) b n(2,4) v0 by auto
  have len: "\<forall>n. length (?v n) = BLOCK_SIZE" using length_view [OF ok(1)] by simp
  have "?d + length ?x \<le> BLOCK_SIZE" using lx n(2) by simp
  from block_bytes_upd [OF own B len this] have F: "block_bytes ?e (view t) nb = splice p ?x (block_bytes ?e ?v nb)"
    unfolding t(2) by simp
  have "touched p n = 1" by (rule touched_within) (use n(1,2) in simp_all)
  then have "wrote ?e nb p ?x c (cst s) c' t"
    unfolding wrote_def F lx using t own_blocks_upd [OF own B] block_of_upd [OF own B] B by auto
  with t0(1) w show ?thesis by blast
qed

lemma write_loop_content:
  assumes "ok (opctx s) (cst s)" and "mapped (fit (cst s)) (held (cst s)) (ent i s) (view (cst s)) nb"
    and "own_blocks (ent i s) (view (cst s)) nb" and "k = 0 \<or> p mod BLOCK_SIZE = 0" and "k \<le> amount"
    and "p + (amount - k) \<le> BLOCK_SIZE * nb" and "amount \<le> length src" and "touched p (amount - k) \<le> rm (opctx s)"
  shows "\<exists>c' t. write_loop bc True i src p k amount modified s = Ok (s\<lparr>cst := t, opctx := c'\<rparr>) \<and>
    wrote (ent i s) nb p (take (amount - k) (drop k src)) (opctx s) (cst s) c' t"
  using assms
proof (induction "amount - k" arbitrary: p k s modified rule: less_induct)
  case less
  let ?e = "ent i s"
  show ?case
  proof (cases "k < amount")
    case False
    then have "write_loop bc True i src p k amount modified s = Ok s" by (simp add: write_loop.simps)
    with False less.prems(1,3,5) wrote_Nil show ?thesis
      by (intro exI [of _ "opctx s"] exI [of _ "cst s"]) simp
  next
    case k: True
    obtain n where n_def: "n = min (BLOCK_SIZE - p mod BLOCK_SIZE) (amount - k)" by blast
    note nxt = next_block [of p]
    have n: "0 < n" "p mod BLOCK_SIZE + n \<le> BLOCK_SIZE" "n \<le> amount - k" using k nxt(2) by (simp_all add: n_def)
    have tc: "0 < rm (opctx s)" using k less.prems(8) by (simp add: touched_def split: if_splits)
    have code: "(if k = 0 then min (BLOCK_SIZE - p mod BLOCK_SIZE) amount else min BLOCK_SIZE (amount - k)) = n"
      "(if k = 0 then p mod BLOCK_SIZE else 0) = p mod BLOCK_SIZE"
      using less.prems(4) by (auto simp: n_def)
    have pn: "p + n \<le> BLOCK_SIZE * nb" "k + n \<le> length src" using n(3) less.prems(6,7) k by simp_all
    obtain b bs c' t0 t1 t2 t where w: "inode_map bc True i (p div BLOCK_SIZE) modified s = Ok (b, modified, s\<lparr>cst := t0\<rparr>)"
      "b_acquire bc b (s\<lparr>cst := t0\<rparr>) = Ok (s\<lparr>cst := t1\<rparr>)"
      "memcpy (p mod BLOCK_SIZE) src k n (b_data bc b (s\<lparr>cst := t1\<rparr>)) = Ok bs"
      "b_sync bc True b (b_set bc b bs (s\<lparr>cst := t1\<rparr>)) = Ok (s\<lparr>cst := t2, opctx := c'\<rparr>)"
      "b_release bc b (s\<lparr>cst := t2, opctx := c'\<rparr>) = Ok (s\<lparr>cst := t, opctx := c'\<rparr>)"
      and wr: "wrote ?e nb p (take n (drop k src)) (opctx s) (cst s) c' t"
      using write_step [OF less.prems(1) refl tc less.prems(2,3) n(1,2) pn, of modified] by blast
    let ?s = "s\<lparr>cst := t, opctx := c'\<rparr>" and ?x = "take n (drop k src)" and ?y = "take (amount - (k + n)) (drop (k + n) src)"
    have step: "write_loop bc True i src p k amount modified s =
        write_loop bc True i src (p + n) (k + n) amount modified ?s"
      using k w by (subst write_loop.simps) (simp only: code if_True andthen_simps prod.case Let_def)
    have lx: "length ?x = n" using pn(2) by simp
    have rest: "amount - (k + n) < amount - k" using k n(1) by simp
    have part: "?x @ ?y = take (amount - k) (drop k src)"
      using take_add_drop [of n k src "amount - (k + n)"] n(3)
      by (metis add_diff_inverse_nat diff_diff_left not_less)
    have touch: "touched p (amount - k) = touched p n + touched (p + n) (amount - (k + n)) \<and>
        (k + n < amount \<longrightarrow> (p + n) mod BLOCK_SIZE = 0)"
    proof (cases "BLOCK_SIZE - p mod BLOCK_SIZE < amount - k")
      case True
      then have c: "n = BLOCK_SIZE - p mod BLOCK_SIZE" by (simp add: n_def)
      have "p + n = (p div BLOCK_SIZE + 1) * BLOCK_SIZE" unfolding c using nxt(1) by simp
      then have "(p + n) mod BLOCK_SIZE = 0" by simp
      moreover have "touched p n = 1" by (rule touched_within) (use n(1) c in simp_all)
      ultimately show ?thesis using touched_step [OF True] by (simp add: c)
    next
      case False
      then have "n = amount - k" by (simp add: n_def)
      then show ?thesis using k by (simp add: touched_def)
    qed
    have e: "ent i ?s = ?e" by (simp add: ent_def)
    have pre: "ok (opctx ?s) (cst ?s)" "mapped (fit (cst ?s)) (held (cst ?s)) (ent i ?s) (view (cst ?s)) nb"
      "own_blocks (ent i ?s) (view (cst ?s)) nb"
      using wr wrote_mapped [OF wr less.prems(2)] unfolding e by (simp_all add: wrote_def)
    have "touched (p + n) (amount - (k + n)) \<le> rm (opctx ?s)"
      using wr touch less.prems(8) lx by (simp add: wrote_def)
    moreover have "k + n = 0 \<or> (p + n) mod BLOCK_SIZE = 0 \<or> k + n = amount" using touch n(3) k by linarith
    ultimately have "\<exists>c'' u. write_loop bc True i src (p + n) (k + n) amount modified ?s = Ok (s\<lparr>cst := u, opctx := c''\<rparr>) \<and>
        wrote ?e nb (p + n) ?y c' t c'' u"
    proof (elim disjE)
      assume a: "k + n = amount"
      then have "write_loop bc True i src (p + n) (k + n) amount modified ?s = Ok ?s" by (simp add: write_loop.simps)
      with a pre(1,3) wrote_Nil [of c' t ?e nb] show ?thesis unfolding e
        by (intro exI [of _ c'] exI [of _ t]) simp
    qed (use less.hyps [OF rest, of ?s "p + n" modified] pre n(3) k less.prems(6,7) e in simp_all)
    then obtain c'' u where u: "write_loop bc True i src (p + n) (k + n) amount modified ?s = Ok (s\<lparr>cst := u, opctx := c''\<rparr>)"
      "wrote ?e nb (p + n) ?y c' t c'' u" by blast
    have "wrote ?e nb p (?x @ ?y) (opctx s) (cst s) c'' u"
    proof (rule wrote_trans [OF wr])
      show "wrote ?e nb (p + length ?x) ?y c' t c'' u" using u(2) by (simp only: lx)
      have ly: "length ?y = amount - (k + n)" using less.prems(7) by simp
      have "length (?x @ ?y) = amount - k" using lx ly n(3) by simp
      then show "touched p (length (?x @ ?y)) = touched p (length ?x) + touched (p + length ?x) (length ?y)"
        using touch by (simp only: lx ly)
      have "\<forall>n. length (view (cst s) n) = BLOCK_SIZE" using length_view [OF less.prems(1)] by simp
      from length_block_bytes [OF this, of ?e nb]
      show "p + length ?x + length ?y \<le> length (block_bytes ?e (view (cst s)) nb)"
        using less.prems(6) n(3) k by (simp only: lx ly)
    qed
    then show ?thesis using step u(1) unfolding part by auto
  qed
qed

end

end
