(* ===== verification/InodeDir.thy ===== *)
theory InodeDir
  imports InodeWrite
begin

text \<open>
  The on-disk copy of an inode, whole calls of \<^verbatim>\<open>inode_read\<close> and \<^verbatim>\<open>inode_write\<close>, and
  directories: a lookup finds the first entry of that name, and an insertion is found again.
\<close>

section \<open>Inode entries in their block\<close>

lemma get_put_entry:
  assumes "length bs = BLOCK_SIZE" and "length (addrs e) = INODE_NUM_DIRECT"
  shows "get_entry (put_entry i e bs) i = e"
    and "j mod INODE_PER_BLOCK \<noteq> i mod INODE_PER_BLOCK \<Longrightarrow> get_entry (put_entry i e bs) j = get_entry bs j"
    and "length (put_entry i e bs) = BLOCK_SIZE"
proof -
  have "i mod INODE_PER_BLOCK < INODE_PER_BLOCK" by (simp add: fs_sizes)
  from inode_entry_rw [OF assms(1) this assms(2)]
  show "get_entry (put_entry i e bs) i = e"
    and "j mod INODE_PER_BLOCK \<noteq> i mod INODE_PER_BLOCK \<Longrightarrow> get_entry (put_entry i e bs) j = get_entry bs j"
    and "length (put_entry i e bs) = BLOCK_SIZE"
    by (simp_all add: get_entry_def put_entry_def)
qed

text \<open>Two inodes are never at the same place.\<close>

lemma inode_place_inj:
  "to_block_no i s = to_block_no j s \<Longrightarrow> i mod INODE_PER_BLOCK = j mod INODE_PER_BLOCK \<Longrightarrow> i = j"
  unfolding to_block_no_def by (metis add_left_cancel div_mult_mod_eq)

lemma block_of_size [simp]: "block_of (e\<lparr>num_bytes := n\<rparr>) v k = block_of e v k"
  by (simp add: block_of_def)

lemma block_of_meta: "n \<noteq> unat (indirect e) \<Longrightarrow> block_of e (v(n := x)) k = block_of e v k"
  by (simp add: block_of_def)

section \<open>Names in a directory\<close>

definition terminated :: "dir_entry \<Rightarrow> bool" where
  "terminated d \<longleftrightarrow> 0 \<in> set (dname d)"

definition name_of :: "dir_entry \<Rightarrow> u8 list" where
  "name_of d = takeWhile (\<lambda>c. c \<noteq> 0) (dname d)"

definition dir_entries :: "u8 list \<Rightarrow> dir_entry list" where
  "dir_entries bs = map (\<lambda>k. decode_dirent (chunk sizeof_DirEntry k bs)) [0..<length bs div sizeof_DirEntry]"

text \<open>The first used entry of the given name: its inode number and its position in the file.\<close>

fun find_entry :: "u8 list \<Rightarrow> dir_entry list \<Rightarrow> nat \<Rightarrow> (nat \<times> nat) option" where
  "find_entry nm [] p = None"
| "find_entry nm (d # ds) p =
     (if dinode d \<noteq> 0 \<and> name_of d = nm then Some (unat (dinode d), p)
      else find_entry nm ds (p + sizeof_DirEntry))"

lemma same_name_strings:
  assumes "terminated d" and "0 \<notin> set nm"
  shows "same_name (dname d) (nm @ 0 # r) = Ok (name_of d = nm)"
proof -
  have nz: "0 \<notin> set (name_of d)" using set_takeWhileD by (fastforce simp: name_of_def)
  obtain r' where d: "dname d = name_of d @ 0 # r'"
    using assms(1) takeWhile_dropWhile_id [of "\<lambda>c. c \<noteq> 0" "dname d"]
      hd_dropWhile [of "\<lambda>c. c \<noteq> 0" "dname d"] unfolding terminated_def name_of_def
    by (metis (mono_tags, lifting) dropWhile_eq_Nil_conv list.collapse)
  have "\<exists>v. memcmp (name_of d @ 0 # r') (nm @ 0 # r) (max (length nm) (length (name_of d))) = Ok v \<and> (v = 0 \<longleftrightarrow> name_of d = nm)"
    by (rule memcmp_strings [OF nz assms(2)]) simp
  then show ?thesis
    unfolding same_name_def d using strlen_string [OF nz, of r'] strlen_string [OF assms(2), of r] by auto
qed

context cache_client
begin

text \<open>Writing the in-memory inode to its block, and loading it from there.\<close>

lemma inode_sync_writes:
  assumes ok: "ok (opctx s) (cst s)" and b: "to_block_no i s \<in> fit (cst s)" "to_block_no i s \<notin> held (cst s)"
    and r: "0 < rm (opctx s)" and m: "ivalid (imem s i)" "length (addrs (ent i s)) = INODE_NUM_DIRECT"
  shows "\<exists>c' t. inode_sync bc True i True s = Ok (s\<lparr>cst := t, opctx := c'\<rparr>) \<and> ok c' t \<and>
    view t = (view (cst s))(to_block_no i s := put_entry i (ent i s) (view (cst s) (to_block_no i s))) \<and>
    held t = held (cst s) \<and> fit t = fit (cst s) \<and> rm (opctx s) \<le> rm c' + 1"
proof -
  let ?b = "to_block_no i s"
  let ?bs = "put_entry i (ent i s) (view (cst s) ?b)"
  have "length ?bs = BLOCK_SIZE" by (rule get_put_entry(3) [OF length_view [OF ok] m(2)])
  from change [OF ok b(2,1) r this] obtain s1 c' s2 s3 where
    1: "bc_acquire bc ?b (cst s) = Ok s1" "bc_data bc ?b s1 = view (cst s) ?b"
    "bc_sync bc (Some (opctx s)) ?b (bc_set bc ?b ?bs s1) = Ok (Some c', s2)" "bc_release bc ?b s2 = Ok s3" "ok c' s3"
    "view s3 = (view (cst s))(?b := ?bs)" "held s3 = held (cst s)" "fit s3 = fit (cst s)" "rm (opctx s) \<le> rm c' + 1" .
  have "inode_sync bc True i True s = Ok (s\<lparr>cst := s3, opctx := c'\<rparr>)"
    using 1(1-4) m(1)
    by (simp add: inode_sync_def Let_def b_acquire_def b_data_def b_set_def b_sync_def b_release_def given_def put_ctx_def ent_def)
  with 1(5-9) show ?thesis by blast
qed

lemma inode_sync_loads:
  assumes ok: "ok c (cst s)" and b: "to_block_no i s \<in> fit (cst s)" "to_block_no i s \<notin> held (cst s)"
    and m: "\<not> ivalid (imem s i)"
  shows "\<exists>t. inode_sync bc ctx i w s =
      Ok (upd_inode i (\<lambda>m. m\<lparr>entry := get_entry (view (cst s) (to_block_no i s)) i, ivalid := True\<rparr>) (s\<lparr>cst := t\<rparr>)) \<and>
    kept c (cst s) t"
proof -
  obtain s1 s2 where "bc_acquire bc (to_block_no i s) (cst s) = Ok s1"
    "bc_data bc (to_block_no i s) s1 = view (cst s) (to_block_no i s)" "bc_release bc (to_block_no i s) s1 = Ok s2" "kept c (cst s) s2"
    using look [OF ok b(2,1)] unfolding kept_def by metis
  with m show ?thesis
    by (intro exI [of _ s2]) (simp add: inode_sync_def Let_def b_acquire_def b_data_def b_release_def upd_inode_def)
qed

text \<open>\<^verbatim>\<open>inode_get\<close> on an inode that is not in memory, and on one that is.\<close>

lemma inode_get_fresh:
  assumes ok: "ok c (cst s)" and b: "to_block_no i s \<in> fit (cst s)" "to_block_no i s \<notin> held (cst s)"
    and i: "0 < i" "i < num_inodes (isb s)" "i \<notin> set (ihead s)" and l: "\<not> islock s"
  shows "\<exists>t. inode_get bc i s = Ok (Some i, s\<lparr>cst := t, ihead := i # ihead s,
      imem := (imem s)(i := \<lparr>ilock = init_sleeplock, irc = 1, ivalid = True,
        entry = get_entry (view (cst s) (to_block_no i s)) i\<rparr>)\<rparr>) \<and> kept c (cst s) t"
proof -
  let ?m = "\<lparr>ilock = (init_sleeplock)\<lparr>sval := 0\<rparr>, irc = 1, ivalid = False, entry = entry (imem s i)\<rparr>"
  let ?s = "s\<lparr>islock := True, imem := (imem s)(i := ?m)\<rparr>"
  have lk: "acquire_sleeplock init_sleeplock = Ok (init_sleeplock\<lparr>sval := 0\<rparr>)"
    "post_sem (init_sleeplock\<lparr>sval := 0\<rparr>) = Ok init_sleeplock"
    by (simp_all add: acquire_sleeplock_def init_sleeplock_def init_sem_def wait_sem_simps post_sem_idle)
  have "ok c (cst ?s)" "to_block_no i ?s \<in> fit (cst ?s)" "to_block_no i ?s \<notin> held (cst ?s)" "\<not> ivalid (imem ?s i)"
    using ok b by (simp_all add: to_block_no_def)
  from inode_sync_loads [OF this, of False False] obtain t where t: "inode_sync bc False i False ?s =
      Ok (upd_inode i (\<lambda>m. m\<lparr>entry := get_entry (view (cst s) (to_block_no i s)) i, ivalid := True\<rparr>) (?s\<lparr>cst := t\<rparr>))"
    "kept c (cst s) t" by (auto simp: to_block_no_def)
  have lock: "inode_lock i (upd_inode i (\<lambda>m. let m = init_inode m in m\<lparr>irc := increment_rc (irc m)\<rparr>) (s\<lparr>islock := True\<rparr>)) = Ok ?s"
    using lk(1) by (cases "imem s i")
      (simp add: inode_lock_def take_inode_lock_def upd_inode_def init_inode_def init_rc_def increment_rc_def Let_def)
  show ?thesis
  proof (intro exI [of _ t] conjI)
    show "inode_get bc i s = Ok (Some i, s\<lparr>cst := t, ihead := i # ihead s,
      imem := (imem s)(i := \<lparr>ilock = init_sleeplock, irc = 1, ivalid = True,
        entry = get_entry (view (cst s) (to_block_no i s)) i\<rparr>)\<rparr>)"
      using i l lock t(1) lk(2)
      by (simp add: inode_get_def lock_inodes_def unlock_inodes_def inode_unlock_def post_inode_lock_def upd_inode_def)
  qed (rule t(2))
qed

lemma inode_get_cached:
  assumes "0 < i" and "i < num_inodes (isb s)" and "i \<in> set (ihead s)" and "\<not> islock s"
  shows "inode_get bc i s = Ok (Some i, upd_inode i (\<lambda>m. m\<lparr>irc := irc m + 1\<rparr>) s)"
  using assms by (cases s) (simp add: inode_get_def lock_inodes_def unlock_inodes_def upd_inode_def increment_rc_def)

section \<open>A whole write\<close>

lemma write_content:
  assumes ok: "ok (opctx s) (cst s)" and e: "itype (ent i s) \<noteq> INODE_DEVICE"
    and m: "mapped (fit (cst s)) (held (cst s)) (ent i s) (view (cst s)) nb"
    and own: "own_blocks (ent i s) (view (cst s)) nb"
    and off: "unat off \<le> unat (num_bytes (ent i s))" and sz: "unat off + unat n \<le> unat (num_bytes (ent i s))"
    and nb: "unat (num_bytes (ent i s)) \<le> BLOCK_SIZE * nb" and src: "length src = unat n"
    and r: "touched (unat off) (unat n) \<le> rm (opctx s)"
  shows "\<exists>c' t. inode_write bc True i src off n s = Ok (n, s\<lparr>cst := t, opctx := c'\<rparr>) \<and>
    wrote (ent i s) nb (unat off) src (opctx s) (cst s) c' t"
proof -
  have max: "BLOCK_SIZE * nb \<le> INODE_MAX_BYTES" using m by (simp add: mapped_def fs_sizes)
  have sum: "unat (off + n) = unat off + unat n"
    using sz unat_u32_less [of "num_bytes (ent i s)"] by (simp add: unat_word_ariths)
  have a: "off \<le> file_size i s" "off + n \<le> of_nat INODE_MAX_BYTES" "off \<le> off + n" "\<not> file_size i s < off + n"
    using off sz nb max by (simp_all add: word_le_nat_alt word_less_nat_alt unat_file_size sum) (simp_all add: fs_sizes)
  have "\<exists>c' t. write_loop bc True i src (unat off) 0 (unat n) False s = Ok (s\<lparr>cst := t, opctx := c'\<rparr>) \<and>
    wrote (ent i s) nb (unat off) (take (unat n - 0) (drop 0 src)) (opctx s) (cst s) c' t"
    by (rule write_loop_content [OF ok m own]) (use sz nb src r in simp_all)
  then obtain c' t where w: "write_loop bc True i src (unat off) 0 (unat n) False s = Ok (s\<lparr>cst := t, opctx := c'\<rparr>)"
    "wrote (ent i s) nb (unat off) src (opctx s) (cst s) c' t" using src by auto
  have "file_size i (s\<lparr>cst := t, opctx := c'\<rparr>) = file_size i s" by (simp add: file_size_def ent_def)
  with e a w show ?thesis
    by (intro exI [of _ c'] exI [of _ t]) (simp add: inode_write_def grow_def Let_def)
qed

text \<open>A write that makes the file longer, into blocks that are already there: the size goes to the disk first.\<close>

lemma write_grows:
  assumes ok: "ok (opctx s) (cst s)" and e: "itype (ent i s) \<noteq> INODE_DEVICE"
    and m: "mapped (fit (cst s)) (held (cst s)) (ent i s) (view (cst s)) nb"
    and own: "own_blocks (ent i s) (view (cst s)) nb"
    and off: "unat off \<le> unat (num_bytes (ent i s))" and sz: "unat (num_bytes (ent i s)) < unat off + unat n"
    and nb: "unat off + unat n \<le> BLOCK_SIZE * nb" and src: "length src = unat n"
    and r: "touched (unat off) (unat n) + 1 \<le> rm (opctx s)"
    and b: "to_block_no i s \<in> fit (cst s)" "to_block_no i s \<notin> held (cst s)"
      "to_block_no i s \<noteq> unat (indirect (ent i s))" "to_block_no i s \<notin> block_of (ent i s) (view (cst s)) ` {..<nb}"
    and v: "ivalid (imem s i)" "length (addrs (ent i s)) = INODE_NUM_DIRECT"
  defines "e' \<equiv> (ent i s)\<lparr>num_bytes := of_nat (unat off + unat n)\<rparr>"
  shows "\<exists>c' t. inode_write bc True i src off n s = Ok (n, (upd_ent i (\<lambda>_. e') s)\<lparr>cst := t, opctx := c'\<rparr>) \<and>
    ok c' t \<and> held t = held (cst s) \<and> fit t = fit (cst s) \<and> rm (opctx s) \<le> rm c' + touched (unat off) (unat n) + 1 \<and>
    (\<forall>j<nb. block_of e' (view t) j = block_of (ent i s) (view (cst s)) j) \<and> own_blocks e' (view t) nb \<and>
    block_bytes e' (view t) nb = splice (unat off) src (block_bytes (ent i s) (view (cst s)) nb) \<and>
    view t (to_block_no i s) = put_entry i e' (view (cst s) (to_block_no i s)) \<and>
    (\<forall>k. k \<noteq> to_block_no i s \<longrightarrow> k \<notin> block_of (ent i s) (view (cst s)) ` {..<nb} \<longrightarrow> view t k = view (cst s) k)"
proof -
  let ?b = "to_block_no i s" and ?e = "ent i s" and ?v = "view (cst s)"
  have max: "BLOCK_SIZE * nb \<le> INODE_MAX_BYTES" using m by (simp add: mapped_def fs_sizes)
  have len32: "unat off + unat n < 2 ^ 32" using nb max by (simp add: fs_sizes)
  have sum: "unat (off + n) = unat off + unat n" using len32 by (simp add: unat_word_ariths)
  have cast: "(ucast (off + n) :: u32) = of_nat (unat off + unat n)"
    unfolding sum [symmetric] by simp
  have ne: "unat (num_bytes e') = unat off + unat n" using u32_of_nat [OF len32] by (simp add: e'_def del: of_nat_add)
  have a: "off \<le> file_size i s" "off + n \<le> of_nat INODE_MAX_BYTES" "off \<le> off + n" "file_size i s < off + n"
    using off sz nb max by (simp_all add: word_le_nat_alt word_less_nat_alt unat_file_size sum) (simp_all add: fs_sizes)
  let ?s1 = "upd_ent i (\<lambda>_. e') s"
  have s1: "ent i ?s1 = e'" "opctx ?s1 = opctx s" "cst ?s1 = cst s" "to_block_no i ?s1 = ?b" "ivalid (imem ?s1 i)"
    using v(1) by (simp_all add: ent_def upd_ent_def upd_inode_def to_block_no_def)
  have upd: "upd_ent i (\<lambda>e. e\<lparr>num_bytes := ucast (off + n)\<rparr>) s = ?s1"
    by (simp only: cast) (simp add: upd_ent_def upd_inode_def e'_def ent_def)
  have "\<exists>c' t. inode_sync bc True i True ?s1 = Ok (?s1\<lparr>cst := t, opctx := c'\<rparr>) \<and> ok c' t \<and>
    view t = ?v(?b := put_entry i e' (?v ?b)) \<and> held t = held (cst s) \<and> fit t = fit (cst s) \<and> rm (opctx s) \<le> rm c' + 1"
    using inode_sync_writes [of ?s1 i] s1 ok b(1,2) r v(2) by (simp add: e'_def)
  then obtain c1 t1 where g: "inode_sync bc True i True ?s1 = Ok (?s1\<lparr>cst := t1, opctx := c1\<rparr>)" "ok c1 t1"
    "view t1 = ?v(?b := put_entry i e' (?v ?b))" "held t1 = held (cst s)" "fit t1 = fit (cst s)" "rm (opctx s) \<le> rm c1 + 1" by blast
  let ?s2 = "?s1\<lparr>cst := t1, opctx := c1\<rparr>"
  have e2: "ent i ?s2 = e'" using s1(1) by (simp add: ent_def)
  have bo: "block_of e' (view t1) k = block_of ?e ?v k" for k
    using block_of_meta [OF b(3), of ?v _ k] by (simp add: e'_def g(3))
  have m2: "mapped (fit t1) (held t1) e' (view t1) nb" using m by (simp add: mapped_def bo g(4,5)) (simp add: e'_def)
  have own2: "own_blocks e' (view t1) nb" 
  proof -
    have eq: "block_of e' (view t1) = block_of ?e ?v" "indirect e' = indirect ?e" by (rule ext, rule bo) (simp add: e'_def)
    show ?thesis using own unfolding own_blocks_def eq .
  qed
  have bb: "block_bytes e' (view t1) nb = block_bytes ?e ?v nb"
  proof -
    have "view t1 (block_of ?e ?v k) = ?v (block_of ?e ?v k)" if "k < nb" for k
    proof -
      have "block_of ?e ?v k \<noteq> ?b" using b(4) that by force
      then show ?thesis by (simp add: g(3))
    qed
    then show ?thesis unfolding block_bytes_def bo by (intro arg_cong [where f = concat] map_cong) simp_all
  qed
  have "\<exists>c' t. write_loop bc True i src (unat off) 0 (unat n) False ?s2 = Ok (?s2\<lparr>cst := t, opctx := c'\<rparr>) \<and>
    wrote (ent i ?s2) nb (unat off) (take (unat n - 0) (drop 0 src)) (opctx ?s2) (cst ?s2) c' t"
    by (rule write_loop_content) (use g(2,6) m2 own2 e2 nb src r in simp_all)
  then obtain c' t where w: "write_loop bc True i src (unat off) 0 (unat n) False ?s2 = Ok (?s1\<lparr>cst := t, opctx := c'\<rparr>)"
    "wrote e' nb (unat off) src c1 t1 c' t" using src unfolding e2 by auto
  have fs: "file_size i (?s1\<lparr>cst := t, opctx := c'\<rparr>) = off + n"
    using s1(1) len32 by (simp add: file_size_def ent_def word_unat_eq_iff ne sum unsigned_ucast_eq take_bit_eq_mod)
  have "inode_write bc True i src off n s = Ok (n, ?s1\<lparr>cst := t, opctx := c'\<rparr>)"
    using e a w(1) g(1) fs by (simp add: inode_write_def grow_def Let_def upd)
  moreover have img: "block_of e' (view t1) ` {..<nb} = block_of ?e ?v ` {..<nb}" by (rule image_cong [OF refl bo])
  have t1: "view t1 ?b = put_entry i e' (?v ?b)" "k \<noteq> ?b \<Longrightarrow> view t1 k = ?v k" for k by (simp_all add: g(3))
  note wr = w(2) [unfolded wrote_def bb bo img]
  have "view t ?b = put_entry i e' (?v ?b)" using wr b(4) t1(1) by simp
  moreover have "\<forall>k. k \<noteq> ?b \<longrightarrow> k \<notin> block_of ?e ?v ` {..<nb} \<longrightarrow> view t k = ?v k" using wr t1(2) by auto
  ultimately show ?thesis using wr g(4-6) src
    by (intro exI [of _ c'] exI [of _ t]) auto
qed

section \<open>Lookup and insertion\<close>

lemma length_file_bytes: "ok c s \<Longrightarrow> length (file_bytes e (view s)) = unat (num_bytes e)"
  using length_block_bytes [of "view s" e "num_file_blocks e"] length_view [of c s] num_file_blocks_covers [of e]
  by (simp add: file_bytes_def)

lemma lookup_loop_finds:
  assumes "ok c (cst s)" and "itype (ent i s) = INODE_DIRECTORY"
    and "mapped (fit (cst s)) (held (cst s)) (ent i s) (view (cst s)) (num_file_blocks (ent i s))"
    and "sizeof_DirEntry dvd unat (num_bytes (ent i s))" and "0 \<notin> set nm"
    and "\<forall>d\<in>set (dir_entries (file_bytes (ent i s) (view (cst s)))). dinode d \<noteq> 0 \<longrightarrow> terminated d"
    and "p = sizeof_DirEntry * k" and "p \<le> unat (num_bytes (ent i s))"
  shows "\<exists>t. lookup_loop bc i (nm @ 0 # r) p (unat (num_bytes (ent i s))) cur s =
      Ok (find_entry nm (drop k (dir_entries (file_bytes (ent i s) (view (cst s))))) p, s\<lparr>cst := t\<rparr>) \<and> kept c (cst s) t"
  using assms
proof (induction "unat (num_bytes (ent i s)) - p" arbitrary: p k s cur rule: less_induct)
  case less
  let ?e = "ent i s" and ?F = "file_bytes (ent i s) (view (cst s))" and ?sz = "unat (num_bytes (ent i s))"
  let ?D = "dir_entries ?F"
  have lF: "length ?F = ?sz" by (rule length_file_bytes [OF less.prems(1)])
  show ?case
  proof (cases "p < ?sz")
    case False
    then have "?sz div sizeof_DirEntry \<le> k" using less.prems(7) by (simp add: sizeof_DirEntry_def)
    then have "drop k ?D = []" by (simp add: dir_entries_def lF)
    with False kept_refl [OF less.prems(1)] show ?thesis
      by (intro exI [of _ "cst s"]) (simp add: lookup_loop.simps)
  next
    case True
    obtain q where q: "?sz = sizeof_DirEntry * q" using less.prems(4) by auto
    then have kq: "k < q" using True less.prems(7) by (simp add: sizeof_DirEntry_def)
    then have p16: "p + sizeof_DirEntry \<le> ?sz" using q less.prems(7) by (simp add: sizeof_DirEntry_def)
    have small: "p < 2 ^ 64" "?sz < 2 ^ 32" using True unat_u32_less [of "num_bytes ?e"] by simp_all
    have up: "unat (of_nat p :: u64) = p" "unat (of_nat sizeof_DirEntry :: u64) = sizeof_DirEntry"
      using small(1) by (simp_all add: unat_of_nat take_bit_eq_mod sizeof_DirEntry_def)
    have nd: "itype ?e \<noteq> INODE_DEVICE" using less.prems(2) by (simp add: INODE_DIRECTORY_def INODE_DEVICE_def)
    have "unat (of_nat p :: u64) + unat (of_nat sizeof_DirEntry :: u64) < 2 ^ 64" using p16 small(2) unfolding up by simp
    from read_content [OF less.prems(1) nd less.prems(3) _ this] obtain t where
      t: "inode_read bc i (of_nat p) (of_nat sizeof_DirEntry) s =
        Ok (of_nat sizeof_DirEntry, take sizeof_DirEntry (drop p ?F), s\<lparr>cst := t\<rparr>)" "kept c (cst s) t"
      using True p16 unfolding up by (auto simp: min_absorb1)
    let ?bs = "take sizeof_DirEntry (drop p ?F)"
    have "length ?bs = sizeof_DirEntry" using p16 lF by simp
    then have fill: "fill_dirent ?bs cur = Ok ?bs" by (simp add: fill_dirent_def)
    have kD: "k < length ?D" using kq q by (simp add: dir_entries_def lF sizeof_DirEntry_def)
    have dk: "decode_dirent ?bs = ?D ! k" using kD by (simp add: dir_entries_def chunk_def less.prems(7))
    have drop: "drop k ?D = ?D ! k # drop (k + 1) ?D" using kD by (simp add: Cons_nth_drop_Suc)
    have fin: "dinode (?D ! k) \<noteq> 0 \<longrightarrow> terminated (?D ! k)" using less.prems(6) kD by auto
    let ?f = "dinode (?D ! k) \<noteq> 0 \<and> name_of (?D ! k) = nm"
    have cmp: "(if dinode (?D ! k) \<noteq> 0 then same_name (dname (?D ! k)) (nm @ 0 # r) else Ok False) = Ok ?f"
      using fin same_name_strings [of "?D ! k" nm r] less.prems(5) by simp
    have step: "lookup_loop bc i (nm @ 0 # r) p ?sz cur s =
        (if ?f then Ok (Some (unat (dinode (?D ! k)), p), s\<lparr>cst := t\<rparr>)
         else lookup_loop bc i (nm @ 0 # r) (p + sizeof_DirEntry) ?sz ?bs (s\<lparr>cst := t\<rparr>))"
      using True by (subst lookup_loop.simps) (simp only: if_True t(1) andthen_simps prod.case fill dk Let_def cmp)
    show ?thesis
    proof (cases ?f)
      case True
      then show ?thesis using step t(2) drop by (intro exI [of _ t]) simp
    next
      case False
      let ?s = "s\<lparr>cst := t\<rparr>"
      have e: "ent i ?s = ?e" by (simp add: ent_def)
      have k: "ok c t" "view t = view (cst s)" "held t = held (cst s)" "fit t = fit (cst s)" using t(2) by (simp_all add: kept_def)
      have "\<exists>u. lookup_loop bc i (nm @ 0 # r) (p + sizeof_DirEntry) (unat (num_bytes (ent i ?s))) ?bs ?s =
          Ok (find_entry nm (drop (k + 1) (dir_entries (file_bytes (ent i ?s) (view (cst ?s))))) (p + sizeof_DirEntry), ?s\<lparr>cst := u\<rparr>) \<and>
          kept c (cst ?s) u"
        by (rule less.hyps) (use less.prems p16 k e in \<open>simp_all add: sizeof_DirEntry_def\<close>)
      then obtain u where u: "lookup_loop bc i (nm @ 0 # r) (p + sizeof_DirEntry) ?sz ?bs ?s =
          Ok (find_entry nm (drop (k + 1) ?D) (p + sizeof_DirEntry), s\<lparr>cst := u\<rparr>)" "kept c t u"
        unfolding e by (auto simp: k)
      have "find_entry nm (drop k ?D) p = find_entry nm (drop (k + 1) ?D) (p + sizeof_DirEntry)"
        unfolding drop find_entry.simps using False by auto
      then show ?thesis using step u False kept_trans [OF t(2)] by auto
    qed
  qed
qed

lemma inode_lookup_finds:
  assumes "ok c (cst s)" and "itype (ent i s) = INODE_DIRECTORY"
    and "mapped (fit (cst s)) (held (cst s)) (ent i s) (view (cst s)) (num_file_blocks (ent i s))"
    and "sizeof_DirEntry dvd unat (num_bytes (ent i s))" and "0 \<notin> set nm"
    and "\<forall>d\<in>set (dir_entries (file_bytes (ent i s) (view (cst s)))). dinode d \<noteq> 0 \<longrightarrow> terminated d"
  defines "r \<equiv> find_entry nm (dir_entries (file_bytes (ent i s) (view (cst s)))) 0"
  shows "\<exists>t. inode_lookup bc i (nm @ 0 # x) s =
      Ok (case r of None \<Rightarrow> 0 | Some (n, p) \<Rightarrow> n, map_option snd r, s\<lparr>cst := t\<rparr>) \<and>
    lookup bc i (nm @ 0 # x) s =
      Ok (case r of None \<Rightarrow> 0 | Some (n, p) \<Rightarrow> n, case r of None \<Rightarrow> unat (num_bytes (ent i s)) | Some (n, p) \<Rightarrow> p, s\<lparr>cst := t\<rparr>) \<and>
    kept c (cst s) t"
proof -
  obtain t where t: "lookup_loop bc i (nm @ 0 # x) 0 (unat (num_bytes (ent i s))) [] s = Ok (r, s\<lparr>cst := t\<rparr>)" "kept c (cst s) t"
    using lookup_loop_finds [OF assms(1-6), of 0 0 x "[]"] by (auto simp: r_def)
  show ?thesis
    by (rule exI [of _ t]) (use assms(2) t in \<open>simp add: inode_lookup_def lookup_def ent_def split: option.split prod.split\<close>)
qed

end

text \<open>A name is found where it was entered, and a new entry at the end hides no other.\<close>

lemma find_entry_append:
  "find_entry nm (ds @ es) p =
    (case find_entry nm ds p of Some r \<Rightarrow> Some r | None \<Rightarrow> find_entry nm es (p + sizeof_DirEntry * length ds))"
  by (induction ds arbitrary: p) (simp_all add: algebra_simps split: option.split)

lemma find_entry_used: "find_entry nm ds p = Some (n, q) \<Longrightarrow> n \<noteq> 0"
  by (induction nm ds p rule: find_entry.induct) (auto split: if_splits simp: unat_gt_0)

text \<open>The entry that \<^verbatim>\<open>inode_insert\<close> writes for a name that fits with its terminating zero.\<close>

definition new_dirent :: "u8 list \<Rightarrow> nat \<Rightarrow> dir_entry" where
  "new_dirent nm ino = \<lparr>dinode = of_nat ino, dname = nm @ replicate (FILE_NAME_MAX_LENGTH - length nm) 0\<rparr>"

lemma new_dirent_ok:
  assumes "0 \<notin> set nm" and "length nm < FILE_NAME_MAX_LENGTH"
  shows "length (dname (new_dirent nm ino)) = FILE_NAME_MAX_LENGTH" "terminated (new_dirent nm ino)"
    "name_of (new_dirent nm ino) = nm"
    "strncpy (nm @ 0 # r) FILE_NAME_MAX_LENGTH (replicate FILE_NAME_MAX_LENGTH 0) = Ok (dname (new_dirent nm ino))"
proof -
  have p: "0 < FILE_NAME_MAX_LENGTH - length nm" using assms(2) by simp
  show "length (dname (new_dirent nm ino)) = FILE_NAME_MAX_LENGTH" using assms(2) by (simp add: new_dirent_def)
  show "terminated (new_dirent nm ino)" using p by (simp add: terminated_def new_dirent_def)
  have "takeWhile (\<lambda>c. c \<noteq> 0) (nm @ replicate (FILE_NAME_MAX_LENGTH - length nm) 0) = nm"
    using assms(1) p by (subst takeWhile_append2) (auto simp: takeWhile_replicate)
  then show "name_of (new_dirent nm ino) = nm" by (simp add: name_of_def new_dirent_def)
  show "strncpy (nm @ 0 # r) FILE_NAME_MAX_LENGTH (replicate FILE_NAME_MAX_LENGTH 0) = Ok (dname (new_dirent nm ino))"
    using strncpy_string [OF assms(1), of FILE_NAME_MAX_LENGTH "replicate FILE_NAME_MAX_LENGTH 0" r] assms(2)
    by (simp add: splice_def new_dirent_def)
qed

lemma dir_entries_append:
  assumes "sizeof_DirEntry dvd length bs" and "length (dname d) = FILE_NAME_MAX_LENGTH"
  shows "dir_entries (bs @ encode_dirent d) = dir_entries bs @ [d]"
proof -
  obtain q where q: "length bs = sizeof_DirEntry * q" using assms(1) by auto
  have l: "length (encode_dirent d) = sizeof_DirEntry" by (rule length_encode_dirent [OF assms(2)])
  have n: "length (bs @ encode_dirent d) div sizeof_DirEntry = Suc q" "length bs div sizeof_DirEntry = q"
    using q l by (simp_all add: sizeof_DirEntry_def)
  have "chunk sizeof_DirEntry k (bs @ encode_dirent d) = chunk sizeof_DirEntry k bs" if "k < q" for k
  proof -
    have "sizeof_DirEntry * k + sizeof_DirEntry \<le> length bs" using that q by (simp add: sizeof_DirEntry_def)
    then show ?thesis by (simp add: chunk_def)
  qed
  moreover have "chunk sizeof_DirEntry q (bs @ encode_dirent d) = encode_dirent d" using q l by (simp add: chunk_def)
  ultimately show ?thesis using decode_encode_dirent [OF assms(2)] unfolding dir_entries_def n by simp
qed

context cache_client
begin

lemma inode_insert_appends:
  assumes ok: "ok (opctx s) (cst s)" and dir: "itype (ent i s) = INODE_DIRECTORY"
    and m: "mapped (fit (cst s)) (held (cst s)) (ent i s) (view (cst s)) nb"
    and own: "own_blocks (ent i s) (view (cst s)) nb"
    and sz: "sizeof_DirEntry dvd unat (num_bytes (ent i s))" "unat (num_bytes (ent i s)) + sizeof_DirEntry \<le> BLOCK_SIZE * nb"
    and nm: "0 \<notin> set nm" "length nm < FILE_NAME_MAX_LENGTH"
    and used: "\<forall>d\<in>set (dir_entries (file_bytes (ent i s) (view (cst s)))). dinode d \<noteq> 0 \<longrightarrow> terminated d"
    and new: "find_entry nm (dir_entries (file_bytes (ent i s) (view (cst s)))) 0 = None"
    and r: "2 \<le> rm (opctx s)"
    and b: "to_block_no i s \<in> fit (cst s)" "to_block_no i s \<notin> held (cst s)"
      "to_block_no i s \<noteq> unat (indirect (ent i s))" "to_block_no i s \<notin> block_of (ent i s) (view (cst s)) ` {..<nb}"
    and v: "ivalid (imem s i)" "length (addrs (ent i s)) = INODE_NUM_DIRECT"
  defines "e' \<equiv> (ent i s)\<lparr>num_bytes := of_nat (unat (num_bytes (ent i s)) + sizeof_DirEntry)\<rparr>"
  shows "\<exists>c' t. inode_insert bc True i (nm @ 0 # x) ino s = Ok (0, (upd_ent i (\<lambda>_. e') s)\<lparr>cst := t, opctx := c'\<rparr>) \<and>
    ok c' t \<and> held t = held (cst s) \<and> fit t = fit (cst s) \<and> rm (opctx s) \<le> rm c' + 2 \<and>
    mapped (fit t) (held t) e' (view t) nb \<and>
    dir_entries (file_bytes e' (view t)) = dir_entries (file_bytes (ent i s) (view (cst s))) @ [new_dirent nm ino]"
proof -
  let ?e = "ent i s" and ?sz = "unat (num_bytes (ent i s))" and ?d = "new_dirent nm ino"
  let ?off = "of_nat ?sz :: u64" and ?n = "of_nat sizeof_DirEntry :: u64"
  have nbs: "num_file_blocks ?e \<le> nb" using sz(2) by (simp add: num_file_blocks_def sizeof_DirEntry_def BLOCK_SIZE_def)
  then have m': "mapped (fit (cst s)) (held (cst s)) ?e (view (cst s)) (num_file_blocks ?e)" using m by (auto simp: mapped_def)
  have s32: "?sz < 2 ^ 32" using unat_u32_less [of "num_bytes ?e"] by simp
  have us: "unat ?off = ?sz" "unat ?n = sizeof_DirEntry"
    by (rule u64_of_nat, use s32 in simp) (simp add: sizeof_DirEntry_def)
  note d = new_dirent_ok [OF nm, where ino = ino]
  obtain t where t: "lookup bc i (nm @ 0 # x) s = Ok (0, ?sz, s\<lparr>cst := t\<rparr>)" "kept (opctx s) (cst s) t"
    using inode_lookup_finds [OF ok dir m' sz(1) nm(1) used, of x] new by auto
  let ?s = "s\<lparr>cst := t\<rparr>"
  have k: "ok (opctx s) t" "view t = view (cst s)" "held t = held (cst s)" "fit t = fit (cst s)" using t(2) by (simp_all add: kept_def)
  have es: "ent i ?s = ?e" "to_block_no i ?s = to_block_no i s" by (simp_all add: ent_def to_block_no_def)
  have len: "length (encode_dirent ?d) = sizeof_DirEntry" by (rule length_encode_dirent [OF d(1)])
  have lF: "length (file_bytes ?e (view (cst s))) = ?sz" by (rule length_file_bytes [OF ok])
  have t1: "touched ?sz sizeof_DirEntry = 1"
  proof (rule touched_within)
    obtain q where q: "?sz = sizeof_DirEntry * q" using sz(1) by auto
    have "?sz mod BLOCK_SIZE = 16 * (q mod 32)"
      using mod_mult_mult1 [of 16 q 32] by (simp add: q sizeof_DirEntry_def BLOCK_SIZE_def)
    moreover have "q mod 32 < 32" by simp
    ultimately show "sizeof_DirEntry \<le> BLOCK_SIZE - ?sz mod BLOCK_SIZE"
      unfolding sizeof_DirEntry_def BLOCK_SIZE_def by linarith
  qed (simp add: sizeof_DirEntry_def)
  have nd: "itype ?e \<noteq> INODE_DEVICE" using dir by (simp add: INODE_DIRECTORY_def INODE_DEVICE_def)
  have h: "ok (opctx ?s) (cst ?s)" "itype (ent i ?s) \<noteq> INODE_DEVICE"
    "mapped (fit (cst ?s)) (held (cst ?s)) (ent i ?s) (view (cst ?s)) nb"
    "own_blocks (ent i ?s) (view (cst ?s)) nb" "to_block_no i ?s \<in> fit (cst ?s)" "to_block_no i ?s \<notin> held (cst ?s)"
    "to_block_no i ?s \<noteq> unat (indirect (ent i ?s))" "to_block_no i ?s \<notin> block_of (ent i ?s) (view (cst ?s)) ` {..<nb}"
    "ivalid (imem ?s i)" "length (addrs (ent i ?s)) = INODE_NUM_DIRECT"
    unfolding es isys.select_convs isys.update_convs using k nd m own b v by simp_all
  have h2: "unat ?off \<le> unat (num_bytes (ent i ?s))" "unat (num_bytes (ent i ?s)) < unat ?off + unat ?n"
    "unat ?off + unat ?n \<le> BLOCK_SIZE * nb" "length (encode_dirent ?d) = unat ?n"
    "touched (unat ?off) (unat ?n) + 1 \<le> rm (opctx ?s)"
    unfolding es us t1 using sz(2) len r by (simp_all add: sizeof_DirEntry_def)
  note wg = write_grows [OF h(1-4) h2 h(5-10)]
  obtain c' u where w: "inode_write bc True i (encode_dirent ?d) ?off ?n ?s = Ok (?n, (upd_ent i (\<lambda>_. e') ?s)\<lparr>cst := u, opctx := c'\<rparr>)"
    "ok c' u" "held u = held (cst s)" "fit u = fit (cst s)" "rm (opctx s) \<le> rm c' + 2"
    "\<forall>j<nb. block_of e' (view u) j = block_of ?e (view (cst s)) j"
    "block_bytes e' (view u) nb = splice ?sz (encode_dirent ?d) (block_bytes ?e (view (cst s)) nb)"
    using wg unfolding es us t1 e'_def [symmetric] by (auto simp: k)
  have same: "(upd_ent i (\<lambda>_. e') ?s)\<lparr>cst := u, opctx := c'\<rparr> = (upd_ent i (\<lambda>_. e') s)\<lparr>cst := u, opctx := c'\<rparr>"
    by (simp add: upd_ent_def upd_inode_def)
  have run: "inode_insert bc True i (nm @ 0 # x) ino s = Ok (0, (upd_ent i (\<lambda>_. e') s)\<lparr>cst := u, opctx := c'\<rparr>)"
    using dir t(1) d(4) [of x] w(1) same by (simp add: inode_insert_def Let_def) (simp add: new_dirent_def)
  have map: "mapped (fit u) (held u) e' (view u) nb" using m w(3,4,6) by (simp add: mapped_def) (simp add: e'_def)
  have ns: "unat (num_bytes e') = ?sz + sizeof_DirEntry"
  proof -
    have "BLOCK_SIZE * nb \<le> INODE_MAX_BYTES" using m by (simp add: mapped_def fs_sizes)
    then have "?sz + sizeof_DirEntry < 2 ^ 32" using sz(2) by (simp add: fs_sizes)
    from u32_of_nat [OF this] show ?thesis by (simp add: e'_def del: of_nat_add)
  qed
  have bb: "take (unat (num_bytes e0)) (block_bytes e0 v (num_file_blocks e0)) = take (unat (num_bytes e0)) (block_bytes e0 v nb)"
    if "\<forall>n. length (v n) = BLOCK_SIZE" "num_file_blocks e0 \<le> nb" for e0 v
  proof -
    have "[0..<nb] = [0..<num_file_blocks e0] @ [num_file_blocks e0..<nb]"
      using upt_add_eq_append [of 0 "num_file_blocks e0" "nb - num_file_blocks e0"] that(2) by simp
    then have "block_bytes e0 v nb = block_bytes e0 v (num_file_blocks e0) @ concat (map (\<lambda>k. v (block_of e0 v k)) [num_file_blocks e0..<nb])"
      by (simp add: block_bytes_def)
    then show ?thesis using length_block_bytes [OF that(1), of e0 "num_file_blocks e0"] num_file_blocks_covers [of e0] by simp
  qed
  have nb': "num_file_blocks e' \<le> nb" using sz(2) by (simp add: num_file_blocks_def ns BLOCK_SIZE_def)
  have "length (block_bytes ?e (view (cst s)) nb) = BLOCK_SIZE * nb"
    using length_block_bytes length_view [OF ok] by blast
  then have "file_bytes e' (view u) = file_bytes ?e (view (cst s)) @ encode_dirent ?d"
    unfolding file_bytes_def using bb [of "view u" e'] bb [of "view (cst s)" ?e] length_view [OF w(2)] length_view [OF ok] nbs nb' sz(2)
    by (simp add: ns w(7) splice_def len)
  then have "dir_entries (file_bytes e' (view u)) = dir_entries (file_bytes ?e (view (cst s))) @ [?d]"
    using dir_entries_append [of "file_bytes ?e (view (cst s))" ?d] sz(1) lF d(1) by simp
  with run w(2-5) map show ?thesis by blast
qed

end

end
