(* ===== verification/PathSpec.thy ===== *)
theory PathSpec
  imports InodeFile
begin

text \<open>
  The elements of a path by a reference definition, the list of the nonempty pieces between
  slashes, and the proof that \<^verbatim>\<open>skipelem\<close> walks through exactly these.
\<close>

fun split_slash :: "u8 list \<Rightarrow> u8 list list" where
  "split_slash [] = [[]]"
| "split_slash (c # cs) =
     (if c = SLASH then [] # split_slash cs else (c # hd (split_slash cs)) # tl (split_slash cs))"

definition path_elems :: "u8 list \<Rightarrow> u8 list list" where
  "path_elems p = filter (\<lambda>e. e \<noteq> []) (split_slash p)"

lemma split_slash_ne [simp]: "split_slash p \<noteq> []"
  by (cases p) simp_all

lemma path_elems_slash [simp]: "path_elems (SLASH # p) = path_elems p"
  by (simp add: path_elems_def)

lemma path_elems_drop: "path_elems (dropWhile (\<lambda>c. c = SLASH) p) = path_elems p"
  by (induction p) auto

lemma split_slash_takeWhile:
  "split_slash p = takeWhile (\<lambda>c. c \<noteq> SLASH) p #
     (case dropWhile (\<lambda>c. c \<noteq> SLASH) p of [] \<Rightarrow> [] | _ # q \<Rightarrow> split_slash q)"
  by (induction p) (auto split: list.split)

lemma path_elems_takeWhile:
  "p \<noteq> [] \<Longrightarrow> hd p \<noteq> SLASH \<Longrightarrow>
     path_elems p = takeWhile (\<lambda>c. c \<noteq> SLASH) p # path_elems (dropWhile (\<lambda>c. c \<noteq> SLASH) p)"
proof -
  assume p: "p \<noteq> []" "hd p \<noteq> SLASH"
  let ?d = "dropWhile (\<lambda>c. c \<noteq> SLASH) p"
  have t: "takeWhile (\<lambda>c. c \<noteq> SLASH) p \<noteq> []" using p by (cases p) auto
  have d: "path_elems ?d = filter (\<lambda>e. e \<noteq> []) (case ?d of [] \<Rightarrow> [] | _ # q \<Rightarrow> split_slash q)"
  proof (cases ?d)
    case Nil
    then show ?thesis unfolding Nil by (simp add: path_elems_def)
  next
    case (Cons x q)
    then have "x = SLASH" using hd_dropWhile [of "\<lambda>c. c \<noteq> SLASH" p] by simp
    with Cons show ?thesis by (simp add: path_elems_def)
  qed
  show ?thesis unfolding d using t by (subst path_elems_def, subst split_slash_takeWhile) simp
qed

lemma path_elems_Nil [simp]: "path_elems [] = []"
  by (simp add: path_elems_def)

lemma path_elems_empty: "path_elems p = [] \<longleftrightarrow> dropWhile (\<lambda>c. c = SLASH) p = []"
proof -
  let ?q = "dropWhile (\<lambda>c. c = SLASH) p"
  have "path_elems ?q = [] \<longleftrightarrow> ?q = []"
  proof (cases "?q = []")
    case False
    then have "hd ?q \<noteq> SLASH" using hd_dropWhile by blast
    with False show ?thesis by (simp add: path_elems_takeWhile)
  next
    case True
    show ?thesis unfolding True by simp
  qed
  then show ?thesis by (simp only: path_elems_drop)
qed

text \<open>What is left in the buffer of a name: the element, cut at the length of a name.\<close>

lemma skipelem_elems:
  "skipelem path name =
     (case path_elems path of
        [] \<Rightarrow> None
      | e # es \<Rightarrow>
          Some (dropWhile (\<lambda>c. c = SLASH) (dropWhile (\<lambda>c. c \<noteq> SLASH) (dropWhile (\<lambda>c. c = SLASH) path)),
                if FILE_NAME_MAX_LENGTH \<le> length e then splice 0 (take FILE_NAME_MAX_LENGTH e) name
                else (splice 0 e name)[length e := 0]))"
  and skipelem_rest:
  "skipelem path name = Some (rest, name') \<Longrightarrow> path_elems path = e # es \<Longrightarrow>
     path_elems rest = es \<and> (rest = [] \<longleftrightarrow> es = [])"
proof -
  let ?q = "dropWhile (\<lambda>c. c = SLASH) path"
  let ?r = "dropWhile (\<lambda>c. c = SLASH) (dropWhile (\<lambda>c. c \<noteq> SLASH) ?q)"
  have e: "path_elems path = takeWhile (\<lambda>c. c \<noteq> SLASH) ?q # path_elems (dropWhile (\<lambda>c. c \<noteq> SLASH) ?q)" if "?q \<noteq> []"
  proof -
    have "hd ?q \<noteq> SLASH" using hd_dropWhile [OF that] .
    then have "path_elems ?q = takeWhile (\<lambda>c. c \<noteq> SLASH) ?q # path_elems (dropWhile (\<lambda>c. c \<noteq> SLASH) ?q)"
      by (rule path_elems_takeWhile [OF that])
    then show ?thesis by (simp only: path_elems_drop)
  qed
  show "skipelem path name =
     (case path_elems path of
        [] \<Rightarrow> None
      | e # es \<Rightarrow>
          Some (?r, if FILE_NAME_MAX_LENGTH \<le> length e then splice 0 (take FILE_NAME_MAX_LENGTH e) name
                else (splice 0 e name)[length e := 0]))"
  proof (cases "?q = []")
    case True
    then have "path_elems path = []" by (simp add: path_elems_empty)
    with True show ?thesis by (simp add: skipelem_def)
  next
    case False
    with e [OF False] show ?thesis by (simp add: skipelem_def Let_def)
  qed
  assume s: "skipelem path name = Some (rest, name')" and p: "path_elems path = e # es"
  then have q: "?q \<noteq> []" using path_elems_empty [of path] by auto
  have r: "rest = ?r" using s unfolding skipelem_def Let_def if_not_P [OF q] by simp
  have "es = path_elems (dropWhile (\<lambda>c. c \<noteq> SLASH) ?q)" using e [OF q] p by simp
  then show "path_elems rest = es \<and> (rest = [] \<longleftrightarrow> es = [])"
    unfolding r path_elems_drop using path_elems_empty by auto
qed

lemma skipelem_name:
  assumes "skipelem path name = Some (rest, name')" and "path_elems path = e # es" and "length name = FILE_NAME_MAX_LENGTH"
  shows "length name' = FILE_NAME_MAX_LENGTH \<and> take (length e) name' = take FILE_NAME_MAX_LENGTH e \<and>
    (length e < FILE_NAME_MAX_LENGTH \<longrightarrow> name' ! length e = 0)"
proof -
  have n: "name' = (if FILE_NAME_MAX_LENGTH \<le> length e then splice 0 (take FILE_NAME_MAX_LENGTH e) name
                else (splice 0 e name)[length e := 0])"
    using assms(1,2) skipelem_elems [of path name] by simp
  show ?thesis
  proof (cases "FILE_NAME_MAX_LENGTH \<le> length e")
    case True
    then show ?thesis using n assms(3) by (simp add: splice_def)
  next
    case False
    then show ?thesis using n assms(3) by (simp add: splice_def)
  qed
qed

text \<open>All the names that \<^verbatim>\<open>namex\<close> goes through.\<close>

function names_of :: "u8 list \<Rightarrow> u8 list \<Rightarrow> u8 list list" where
  "names_of path name = (case skipelem path name of None \<Rightarrow> [] | Some (rest, name') \<Rightarrow> name' # names_of rest name')"
  by pat_completeness auto
termination
  by (relation "measure (\<lambda>(path, name). length path)") (auto dest: skipelem_shorter)

declare names_of.simps [simp del]

lemma names_of_elems:
  "length name = FILE_NAME_MAX_LENGTH \<Longrightarrow> \<forall>e\<in>set (path_elems path). length e < FILE_NAME_MAX_LENGTH \<and> 0 \<notin> set e \<Longrightarrow>
     map (takeWhile (\<lambda>c. c \<noteq> 0)) (names_of path name) = path_elems path"
proof (induction path name rule: names_of.induct)
  case (1 path name)
  show ?case
  proof (cases "path_elems path")
    case Nil
    then show ?thesis using skipelem_elems [of path name] by (simp add: names_of.simps)
  next
    case (Cons e es)
    then obtain rest name' where s: "skipelem path name = Some (rest, name')" using skipelem_elems [of path name] by auto
    note n = skipelem_name [OF s Cons "1.prems"(1)] and r = skipelem_rest [OF s Cons]
    have e: "length e < FILE_NAME_MAX_LENGTH" "0 \<notin> set e" using "1.prems"(2) Cons by auto
    have "name' = take (length e) name' @ name' ! length e # drop (Suc (length e)) name'"
      using n e(1) by (intro id_take_nth_drop) simp
    moreover have "take (length e) name' = e" "name' ! length e = 0" using n e(1) by simp_all
    ultimately have "name' = e @ 0 # drop (Suc (length e)) name'" by metis
    then obtain r where nr: "name' = e @ 0 # r" by blast
    have "takeWhile (\<lambda>c. c \<noteq> 0) name' = e" unfolding nr using e(2) by (subst takeWhile_append2) auto
    moreover have "map (takeWhile (\<lambda>c. c \<noteq> 0)) (names_of rest name') = path_elems rest"
      using "1.IH" [OF s refl] n r "1.prems"(2) Cons by simp
    ultimately show ?thesis unfolding names_of.simps [of path name] s by (simp add: r Cons)
  qed
qed

end
