(* ===== verification/Pipe.thy ===== *)
theory Pipe
  imports CString Sem
begin

text \<open>
  \<^verbatim>\<open>src/fs/pipe.c\<close>: the ring buffer of a pipe.  The counters are 32 bits wide and wrap, the
  buffer position is the counter modulo \<^verbatim>\<open>PIPE_SIZE\<close>.  A call runs until it returns or until
  its thread goes to sleep on one of the two semaphores; \<open>t\<close> names the thread and \<open>killed\<close> is
  its flag.  After the sleep the loop goes on without taking the spinlock again.
\<close>

section \<open>State\<close>

definition PIPE_SIZE :: nat where "PIPE_SIZE = 1024"

record pipe =
  plock :: spinlock
  pwlock :: semaphore
  prlock :: semaphore
  pdata :: "u8 list"
  nread :: u32
  nwrite :: u32
  readopen :: bool
  writeopen :: bool

definition init_pipe :: "pipe \<Rightarrow> pipe" where
  "init_pipe pi = pi\<lparr>plock := init_spinlock, pwlock := init_sem 0, prlock := init_sem 0,
     pdata := replicate PIPE_SIZE 0, nread := 0, nwrite := 0, readopen := True, writeopen := True\<rparr>"

definition lock_pipe :: "pipe \<Rightarrow> pipe outcome" where
  "lock_pipe pi = andthen (acquire_spinlock (plock pi)) (\<lambda>l. Ok (pi\<lparr>plock := l\<rparr>))"

definition unlock_pipe :: "pipe \<Rightarrow> pipe" where
  "unlock_pipe pi = pi\<lparr>plock := release_spinlock (plock pi)\<rparr>"

text \<open>\<^verbatim>\<open>pipe_close\<close>; the flag of the result says that the pipe goes to \<^verbatim>\<open>kfree\<close>.\<close>

definition post_everyone :: "semaphore \<Rightarrow> semaphore outcome" where
  "post_everyone m = andthen (post_all_sem m) (\<lambda>(_, _, m). Ok m)"

definition pipe_close :: "pipe \<Rightarrow> bool \<Rightarrow> (bool \<times> pipe) outcome" where
  "pipe_close pi writable =
     andthen (lock_pipe pi) (\<lambda>pi.
     andthen (if writable
              then andthen (post_everyone (prlock pi)) (\<lambda>m. Ok (pi\<lparr>writeopen := False, prlock := m\<rparr>))
              else andthen (post_everyone (pwlock pi)) (\<lambda>m. Ok (pi\<lparr>readopen := False, pwlock := m\<rparr>))) (\<lambda>pi.
     Ok (\<not> readopen pi \<and> \<not> writeopen pi, unlock_pipe pi)))"

section \<open>Writing and reading\<close>

definition pslot :: "u32 \<Rightarrow> nat" where
  "pslot k = unat k mod PIPE_SIZE"

definition full :: "pipe \<Rightarrow> bool" where
  "full pi \<longleftrightarrow> nwrite pi = nread pi + of_nat PIPE_SIZE"

text \<open>How a call ends: it returns a value, or its thread sleeps after \<open>i\<close> bytes.\<close>

datatype progress = Returned int | Asleep nat

definition put_byte :: "u8 \<Rightarrow> pipe \<Rightarrow> pipe" where
  "put_byte c pi = pi\<lparr>pdata := (pdata pi)[pslot (nwrite pi) := c], nwrite := nwrite pi + 1\<rparr>"

lemma wait_begin_decreases: "wait_begin t m = (True, m') \<Longrightarrow> nat (sval m') < nat (sval m)"
  by (auto simp: wait_begin_def Let_def split: if_splits)

function pipe_write_loop :: "tid \<Rightarrow> bool \<Rightarrow> u8 list \<Rightarrow> int \<Rightarrow> nat \<Rightarrow> pipe \<Rightarrow> (progress \<times> pipe) outcome" where
  "pipe_write_loop t killed src n i pi =
     (if int i < n then
        if full pi then
          if \<not> readopen pi \<or> killed then Ok (Returned (- 1), unlock_pipe pi)
          else andthen (post_sem (prlock pi)) (\<lambda>m.
               case wait_begin t (pwlock pi) of (now, w) \<Rightarrow>
                 let pi = (unlock_pipe (pi\<lparr>prlock := m\<rparr>))\<lparr>pwlock := w\<rparr>
                 in if now then pipe_write_loop t killed src n i pi else Ok (Asleep i, pi))
        else andthen (ld src i) (\<lambda>c. pipe_write_loop t killed src n (i + 1) (put_byte c pi))
      else andthen (post_everyone (prlock pi)) (\<lambda>m. Ok (Returned (int i), unlock_pipe (pi\<lparr>prlock := m\<rparr>))))"
  by pat_completeness auto
termination
  by (relation "measures [\<lambda>(t, killed, src, n, i, pi). nat (n - int i), \<lambda>(t, killed, src, n, i, pi). nat (sval (pwlock pi))]")
    (auto simp: unlock_pipe_def dest!: wait_begin_decreases [OF sym])

declare pipe_write_loop.simps [simp del]

definition pipe_write :: "tid \<Rightarrow> bool \<Rightarrow> u8 list \<Rightarrow> int \<Rightarrow> pipe \<Rightarrow> (progress \<times> pipe) outcome" where
  "pipe_write t killed src n pi = andthen (lock_pipe pi) (pipe_write_loop t killed src n 0)"

text \<open>The loop of \<^verbatim>\<open>pipe_read\<close> that waits for a byte: \<open>Some None\<close> when it ends.\<close>

function pipe_read_wait :: "tid \<Rightarrow> bool \<Rightarrow> pipe \<Rightarrow> progress option \<times> pipe" where
  "pipe_read_wait t killed pi =
     (if nread pi = nwrite pi \<and> writeopen pi then
        if killed then (Some (Returned (- 1)), unlock_pipe pi)
        else case wait_begin t (prlock pi) of (now, m) \<Rightarrow>
             let pi = (unlock_pipe pi)\<lparr>prlock := m\<rparr>
             in if now then pipe_read_wait t killed pi else (Some (Asleep 0), pi)
      else (None, pi))"
  by pat_completeness auto
termination
  by (relation "measure (\<lambda>(t, killed, pi). nat (sval (prlock pi)))")
    (auto simp: unlock_pipe_def dest!: wait_begin_decreases [OF sym])

declare pipe_read_wait.simps [simp del]

function pipe_copy :: "int \<Rightarrow> u8 list \<Rightarrow> pipe \<Rightarrow> u8 list \<times> pipe" where
  "pipe_copy n dst pi =
     (if int (length dst) < n \<and> nread pi \<noteq> nwrite pi
      then pipe_copy n (dst @ [pdata pi ! pslot (nread pi)]) (pi\<lparr>nread := nread pi + 1\<rparr>)
      else (dst, pi))"
  by pat_completeness auto
termination
  by (relation "measure (\<lambda>(n, dst, pi). nat (n - int (length dst)))") auto

declare pipe_copy.simps [simp del]

text \<open>\<^verbatim>\<open>pipe_read\<close> from the first test of its loop on; the list holds the bytes stored at \<^verbatim>\<open>addr\<close>.\<close>

definition pipe_read_loop :: "tid \<Rightarrow> bool \<Rightarrow> int \<Rightarrow> pipe \<Rightarrow> (progress \<times> u8 list \<times> pipe) outcome" where
  "pipe_read_loop t killed n pi =
     (case pipe_read_wait t killed pi of
        (Some r, pi) \<Rightarrow> Ok (r, [], pi)
      | (None, pi) \<Rightarrow>
          let (dst, pi) = pipe_copy n [] pi; pi = unlock_pipe pi
          in andthen (post_everyone (pwlock pi)) (\<lambda>m. Ok (Returned (int (length dst)), dst, pi\<lparr>pwlock := m\<rparr>)))"

definition pipe_read :: "tid \<Rightarrow> bool \<Rightarrow> int \<Rightarrow> pipe \<Rightarrow> (progress \<times> u8 list \<times> pipe) outcome" where
  "pipe_read t killed n pi = andthen (lock_pipe pi) (pipe_read_loop t killed n)"

section \<open>The bytes in transit\<close>

definition in_transit :: "pipe \<Rightarrow> nat" where
  "in_transit pi = unat (nwrite pi - nread pi)"

definition contents :: "pipe \<Rightarrow> u8 list" where
  "contents pi = ring_list (pdata pi) (unat (nread pi)) (in_transit pi)"

definition pipe_ok :: "pipe \<Rightarrow> bool" where
  "pipe_ok pi \<longleftrightarrow> length (pdata pi) = PIPE_SIZE \<and> in_transit pi \<le> PIPE_SIZE \<and> sem_ok (pwlock pi) \<and> sem_ok (prlock pi)"

lemma length_contents [simp]: "length (contents pi) = in_transit pi"
  by (simp add: contents_def)

lemma full_iff: "full pi \<longleftrightarrow> in_transit pi = PIPE_SIZE"
proof -
  have "full pi \<longleftrightarrow> nwrite pi - nread pi = of_nat PIPE_SIZE" by (auto simp: full_def algebra_simps)
  also have "\<dots> \<longleftrightarrow> in_transit pi = PIPE_SIZE" by (simp add: word_unat_eq_iff in_transit_def PIPE_SIZE_def)
  finally show ?thesis .
qed

lemma empty_iff: "nread pi = nwrite pi \<longleftrightarrow> in_transit pi = 0"
  by (auto simp: in_transit_def unat_eq_0)

lemma pslot_add: "pslot (r + of_nat i) = (unat r + i) mod PIPE_SIZE"
proof -
  have "unat (r + of_nat i) = (unat r + i mod 2 ^ 32) mod 2 ^ 32"
    by (simp add: unat_word_ariths unat_of_nat take_bit_eq_mod)
  also have "\<dots> = (unat r + i) mod 2 ^ 32" by (simp add: mod_simps)
  finally have "pslot (r + of_nat i) = (unat r + i) mod 2 ^ 32 mod 1024" by (simp add: pslot_def PIPE_SIZE_def)
  also have "\<dots> = (unat r + i) mod 1024" by (rule mod_mod_cancel) simp
  finally show ?thesis by (simp add: PIPE_SIZE_def)
qed

lemma pslot_nwrite: "pslot (nwrite pi) = (unat (nread pi) + in_transit pi) mod PIPE_SIZE"
  using pslot_add [of "nread pi" "in_transit pi"] by (simp add: in_transit_def)

lemma put_byte_spec:
  assumes "pipe_ok pi" and "\<not> full pi"
  shows "pipe_ok (put_byte c pi) \<and> contents (put_byte c pi) = contents pi @ [c]"
proof -
  have lt: "in_transit pi < PIPE_SIZE" using assms by (auto simp: full_iff pipe_ok_def)
  have "unat (1 + (nwrite pi - nread pi)) = 1 + unat (nwrite pi - nread pi)"
    using lt by (subst unat_add_lem [THEN iffD1]) (simp_all add: in_transit_def PIPE_SIZE_def)
  then have t: "in_transit (put_byte c pi) = Suc (in_transit pi)" by (simp add: in_transit_def put_byte_def algebra_simps)
  have l: "length (pdata pi) = PIPE_SIZE" using assms(1) by (simp add: pipe_ok_def)
  have "contents (put_byte c pi) = ring_list ((pdata pi)[(unat (nread pi) + in_transit pi) mod length (pdata pi) := c]) (unat (nread pi)) (Suc (in_transit pi))"
    by (simp only: contents_def t) (simp add: put_byte_def pslot_nwrite l)
  also have "\<dots> = contents pi @ [c]" unfolding contents_def by (rule ring_put) (use lt l in simp)
  finally show ?thesis using assms(1) lt t by (simp add: pipe_ok_def) (simp add: put_byte_def)
qed

lemma take_byte_spec:
  assumes "pipe_ok pi" and "nread pi \<noteq> nwrite pi"
  shows "pipe_ok (pi\<lparr>nread := nread pi + 1\<rparr>) \<and>
    contents pi = pdata pi ! pslot (nread pi) # contents (pi\<lparr>nread := nread pi + 1\<rparr>)"
proof -
  let ?pi = "pi\<lparr>nread := nread pi + 1\<rparr>"
  have "nwrite pi - nread pi \<noteq> 0" using assms(2) by auto
  then have "1 \<le> nwrite pi - nread pi" by (simp add: word_le_nat_alt unat_gt_0 Suc_leI)
  then have "unat (nwrite pi - nread pi - 1) = unat (nwrite pi - nread pi) - 1" by (simp add: unat_sub)
  then have "in_transit ?pi = in_transit pi - 1" by (simp add: in_transit_def algebra_simps)
  moreover have "0 < in_transit pi" using assms(2) empty_iff by blast
  ultimately have t: "in_transit pi = Suc (in_transit ?pi)" by simp
  have l: "length (pdata pi) = PIPE_SIZE" using assms(1) by (simp add: pipe_ok_def)
  have "unat (nread pi + 1) mod length (pdata pi) = Suc (unat (nread pi)) mod length (pdata pi)"
    using pslot_add [of "nread pi" 1] by (simp add: pslot_def l)
  then have "ring_list (pdata pi) (unat (nread pi + 1)) (in_transit ?pi) = ring_list (pdata pi) (Suc (unat (nread pi))) (in_transit ?pi)"
    by (rule ring_mod)
  then have "contents pi = pdata pi ! pslot (nread pi) # contents ?pi"
    by (simp add: contents_def t ring_take pslot_def l)
  then show ?thesis using assms(1) t by (simp add: pipe_ok_def)
qed

section \<open>What a call does\<close>

lemma unlock_pipe_facts [simp]:
  "pipe_ok (unlock_pipe pi) = pipe_ok pi" "contents (unlock_pipe pi) = contents pi" "full (unlock_pipe pi) = full pi"
  "in_transit (unlock_pipe pi) = in_transit pi" "pwlock (unlock_pipe pi) = pwlock pi" "prlock (unlock_pipe pi) = prlock pi"
  "readopen (unlock_pipe pi) = readopen pi" "writeopen (unlock_pipe pi) = writeopen pi" "nread (unlock_pipe pi) = nread pi"
  "nwrite (unlock_pipe pi) = nwrite pi" "plock (unlock_pipe pi) = False"
  "pdata (unlock_pipe pi) = pdata pi"
  by (simp_all add: unlock_pipe_def pipe_ok_def contents_def full_def in_transit_def release_spinlock_def)

lemma pipe_semaphores [simp]:
  "contents (pi\<lparr>prlock := m\<rparr>) = contents pi" "contents (pi\<lparr>pwlock := m\<rparr>) = contents pi"
  "in_transit (pi\<lparr>prlock := m\<rparr>) = in_transit pi" "in_transit (pi\<lparr>pwlock := m\<rparr>) = in_transit pi"
  "full (pi\<lparr>prlock := m\<rparr>) = full pi" "full (pi\<lparr>pwlock := m\<rparr>) = full pi"
  "contents (pi\<lparr>plock := l\<rparr>) = contents pi" "in_transit (pi\<lparr>plock := l\<rparr>) = in_transit pi"
  "pipe_ok (pi\<lparr>plock := l\<rparr>) = pipe_ok pi"
  by (simp_all add: contents_def in_transit_def full_def pipe_ok_def)

lemma pipe_ok_semaphores [simp]:
  "pipe_ok pi \<Longrightarrow> sem_ok m \<Longrightarrow> pipe_ok (pi\<lparr>prlock := m\<rparr>)"
  "pipe_ok pi \<Longrightarrow> sem_ok m \<Longrightarrow> pipe_ok (pi\<lparr>pwlock := m\<rparr>)"
  by (simp_all add: pipe_ok_def)

lemma post_everyone_spec: "sem_ok m \<Longrightarrow> post_everyone m = Ok (m\<lparr>sval := max 0 (sval m), sleeplist := []\<rparr>)"
  by (simp add: post_everyone_def post_all_sem_sleepers)

lemma sem_ok_woken [simp]: "sem_ok (m\<lparr>sval := max 0 v, sleeplist := []\<rparr>)"
  by (simp add: sem_ok_def)

lemma sem_ok_post_sem: "sem_ok m \<Longrightarrow> \<exists>m'. post_sem m = Ok m' \<and> sem_ok m'"
  using sem_ok_post [of m] by (auto simp: post_sem_def)

lemma wait_begin_cases:
  assumes "sem_ok m" and "t \<notin> set (sleeplist m)" and "wait_begin t m = (now, m')"
  shows "sem_ok m' \<and> (now \<longrightarrow> sleeplist m' = sleeplist m) \<and> (\<not> now \<longrightarrow> sleeplist m' = t # sleeplist m)"
  using sem_ok_wait_begin [OF assms(1,2)] assms(3) by (auto simp: wait_begin_def Let_def split: if_splits)

text \<open>How a writer can end: everything is in the pipe and the readers are awake, it sleeps because the pipe is full, or it gives up.\<close>

definition write_end :: "tid \<Rightarrow> bool \<Rightarrow> int \<Rightarrow> nat \<Rightarrow> progress \<Rightarrow> pipe \<Rightarrow> bool" where
  "write_end t killed n k r pi \<longleftrightarrow>
     r = Returned (int k) \<and> n \<le> int k \<and> sleeplist (prlock pi) = [] \<or>
     r = Asleep k \<and> int k < n \<and> full pi \<and> t \<in> set (sleeplist (pwlock pi)) \<or>
     r = Returned (- 1) \<and> int k < n \<and> full pi \<and> (\<not> readopen pi \<or> killed)"

lemma pipe_write_loop_spec:
  assumes "pipe_ok pi" and "n \<le> int (length src)" and "t \<notin> set (sleeplist (pwlock pi))"
  shows "\<exists>r pi' k. pipe_write_loop t killed src n i pi = Ok (r, pi') \<and> pipe_ok pi' \<and> nread pi' = nread pi \<and> i \<le> k \<and> (k = i \<or> int k \<le> n) \<and>
    contents pi' = contents pi @ take (k - i) (drop i src) \<and> \<not> plock pi' \<and> write_end t killed n k r pi'"
  using assms
proof (induction t killed src n i pi rule: pipe_write_loop.induct)
  case (1 t killed src n i pi)
  show ?case
  proof (cases "int i < n")
    case False
    then show ?thesis using "1.prems"(1)
      by (subst pipe_write_loop.simps) (auto simp: pipe_ok_def post_everyone_spec write_end_def intro!: exI [of _ i])
  next
    case more: True
    show ?thesis
    proof (cases "full pi")
      case False
      have i: "i < length src" using more "1.prems"(2) by linarith
      then have c: "ld src i = Ok (src ! i)" by (simp add: ld_def)
      note p = put_byte_spec [OF "1.prems"(1) False, of "src ! i"]
      have w: "pwlock (put_byte (src ! i) pi) = pwlock pi" "nread (put_byte (src ! i) pi) = nread pi" by (simp_all add: put_byte_def)
      obtain r pi' k where k: "pipe_write_loop t killed src n (i + 1) (put_byte (src ! i) pi) = Ok (r, pi')" "pipe_ok pi'" "nread pi' = nread pi"
        "i + 1 \<le> k" "k = i + 1 \<or> int k \<le> n" "contents pi' = contents (put_byte (src ! i) pi) @ take (k - (i + 1)) (drop (i + 1) src)"
        "\<not> plock pi'" "write_end t killed n k r pi'"
        using "1.IH"(2) [OF more False c] "1.prems" p w by auto
      have "take (k - i) (drop i src) = src ! i # take (k - (i + 1)) (drop (i + 1) src)"
        using i k(4) by (metis Cons_nth_drop_Suc Suc_diff_le Suc_eq_plus1 diff_Suc_Suc take_Suc_Cons)
      moreover have "pipe_write_loop t killed src n i pi = Ok (r, pi')"
        using more False c k(1) by (subst pipe_write_loop.simps) simp
      ultimately show ?thesis using k p more by (intro exI [of _ r] exI [of _ pi'] exI [of _ k]) auto
    next
      case True
      show ?thesis
      proof (cases "\<not> readopen pi \<or> killed")
        case quit: True
        then have "pipe_write_loop t killed src n i pi = Ok (Returned (- 1), unlock_pipe pi)"
          using more True by (subst pipe_write_loop.simps) simp
        then show ?thesis using quit more True "1.prems"(1) by (auto simp: write_end_def intro!: exI [of _ i])
      next
        case False
        obtain m where m: "post_sem (prlock pi) = Ok m" "sem_ok m" using sem_ok_post_sem "1.prems"(1) by (auto simp: pipe_ok_def)
        obtain now m' where w: "wait_begin t (pwlock pi) = (now, m')" by (cases "wait_begin t (pwlock pi)") auto
        have sw: "sem_ok (pwlock pi)" using "1.prems"(1) by (simp add: pipe_ok_def)
        note m' = wait_begin_cases [OF sw "1.prems"(3) w]
        let ?pi = "(unlock_pipe (pi\<lparr>prlock := m\<rparr>))\<lparr>pwlock := m'\<rparr>"
        have ok: "pipe_ok ?pi" using "1.prems"(1) m(2) m' by simp
        show ?thesis
        proof (cases now)
          case n: True
          have "pipe_write_loop t killed src n i pi = pipe_write_loop t killed src n i ?pi"
            using more True False m w n by (subst pipe_write_loop.simps) simp
          moreover have "t \<notin> set (sleeplist (pwlock ?pi))" using m' n "1.prems"(3) by simp
          ultimately show ?thesis
            using "1.IH"(1) [OF more True False m(1) w [symmetric] refl n] ok "1.prems" by auto
        next
          case s: False
          then have "pipe_write_loop t killed src n i pi = Ok (Asleep i, ?pi)"
            using more True False m w by (subst pipe_write_loop.simps) simp
          moreover have "\<not> plock ?pi" by (simp add: unlock_pipe_def release_spinlock_def)
          ultimately show ?thesis using ok more True m' s
            by (intro exI [of _ "Asleep i"] exI [of _ ?pi] exI [of _ i]) (simp add: write_end_def)
        qed
      qed
    qed
  qed
qed

lemma pipe_read_wait_spec:
  assumes "pipe_ok pi" and "t \<notin> set (sleeplist (prlock pi))"
  shows "\<exists>r pi'. pipe_read_wait t killed pi = (r, pi') \<and> pipe_ok pi' \<and> contents pi' = contents pi \<and> nread pi' = nread pi \<and>
    nwrite pi' = nwrite pi \<and> (r = None \<or> \<not> plock pi') \<and>
    (r = None \<longleftrightarrow> contents pi \<noteq> [] \<or> \<not> writeopen pi) \<and>
    (r = None \<or> r = Some (Returned (- 1)) \<and> killed \<or> r = Some (Asleep 0) \<and> t \<in> set (sleeplist (prlock pi')))"
  using assms
proof (induction t killed pi rule: pipe_read_wait.induct)
  case (1 t killed pi)
  have e: "nread pi = nwrite pi \<longleftrightarrow> contents pi = []" by (metis empty_iff length_0_conv length_contents)
  show ?case
  proof (cases "nread pi = nwrite pi \<and> writeopen pi \<and> \<not> killed")
    case False
    then show ?thesis using "1.prems"(1) e by (subst pipe_read_wait.simps) auto
  next
    case True
    obtain now m' where w: "wait_begin t (prlock pi) = (now, m')" by (cases "wait_begin t (prlock pi)") auto
    have sr: "sem_ok (prlock pi)" using "1.prems"(1) by (simp add: pipe_ok_def)
    note m' = wait_begin_cases [OF sr "1.prems"(2) w]
    let ?pi = "(unlock_pipe pi)\<lparr>prlock := m'\<rparr>"
    have ok: "pipe_ok ?pi" using "1.prems"(1) m' by simp
    show ?thesis
    proof (cases now)
      case n: True
      have "pipe_read_wait t killed pi = pipe_read_wait t killed ?pi"
        using True w n by (subst pipe_read_wait.simps) simp
      moreover have "t \<notin> set (sleeplist (prlock ?pi))" using m' n "1.prems"(2) by simp
      ultimately show ?thesis using "1.IH" [OF _ _ w [symmetric] refl n] True ok by auto
    next
      case False
      then show ?thesis using True w ok m' e by (subst pipe_read_wait.simps) auto
    qed
  qed
qed

lemma pipe_copy_spec:
  assumes "pipe_ok pi" and "pipe_copy n dst pi = (dst', pi')"
  shows "pipe_ok pi' \<and> dst' @ contents pi' = dst @ contents pi \<and>
    length dst' = length dst + min (nat (n - int (length dst))) (in_transit pi) \<and>
    pwlock pi' = pwlock pi \<and> prlock pi' = prlock pi \<and> nwrite pi' = nwrite pi \<and> plock pi' = plock pi"
  using assms
proof (induction n dst pi rule: pipe_copy.induct)
  case (1 n dst pi)
  show ?case
  proof (cases "int (length dst) < n \<and> nread pi \<noteq> nwrite pi")
    case False
    then have "pipe_copy n dst pi = (dst, pi)" by (subst pipe_copy.simps) auto
    moreover have "min (nat (n - int (length dst))) (in_transit pi) = 0" using False empty_iff [of pi] by auto
    ultimately show ?thesis using "1.prems" by simp
  next
    case True
    let ?pi = "pi\<lparr>nread := nread pi + 1\<rparr>" and ?c = "pdata pi ! pslot (nread pi)"
    note t = take_byte_spec [OF "1.prems"(1)] True
    then have "length (contents pi) = Suc (length (contents ?pi))" by simp
    then have "in_transit pi = Suc (in_transit ?pi)" by simp
    moreover have "pipe_copy n (dst @ [?c]) ?pi = (dst', pi')" using "1.prems"(2) True by (subst (asm) pipe_copy.simps) simp
    moreover have "nat (n - int (length dst)) = Suc (nat (n - int (length (dst @ [?c]))))" using True by auto
    ultimately show ?thesis using "1.IH" [OF True] t by simp
  qed
qed

text \<open>How a reader can end: with the oldest bytes, asleep on an empty pipe, or killed.\<close>

lemma pipe_read_loop_spec:
  assumes "pipe_ok pi" and "t \<notin> set (sleeplist (prlock pi))"
  shows "\<exists>r dst pi'. pipe_read_loop t killed n pi = Ok (r, dst, pi') \<and> pipe_ok pi' \<and> dst @ contents pi' = contents pi \<and> \<not> plock pi' \<and>
    (if contents pi \<noteq> [] \<or> \<not> writeopen pi
     then length dst = min (nat n) (in_transit pi) \<and> r = Returned (int (length dst))
     else dst = [] \<and> (r = Returned (- 1) \<and> killed \<or> r = Asleep 0 \<and> t \<in> set (sleeplist (prlock pi'))))"
proof -
  obtain r pi1 where 1: "pipe_read_wait t killed pi = (r, pi1)" "pipe_ok pi1" "contents pi1 = contents pi" "r = None \<or> \<not> plock pi1"
    "r = None \<longleftrightarrow> contents pi \<noteq> [] \<or> \<not> writeopen pi"
    "r = None \<or> r = Some (Returned (- 1)) \<and> killed \<or> r = Some (Asleep 0) \<and> t \<in> set (sleeplist (prlock pi1))"
    using pipe_read_wait_spec [OF assms] by blast
  show ?thesis
  proof (cases "r = None")
    case False
    then show ?thesis using 1 by (auto simp: pipe_read_loop_def)
  next
    case True
    obtain dst pi2 where c: "pipe_copy n [] pi1 = (dst, pi2)" by (cases "pipe_copy n [] pi1") auto
    note s = pipe_copy_spec [OF 1(2) c]
    have "length (contents pi1) = length (contents pi)" by (simp only: 1(3))
    then have "in_transit pi1 = in_transit pi" by simp
    moreover have "sem_ok (pwlock pi1)" using 1(2) by (simp add: pipe_ok_def)
    ultimately show ?thesis using 1 True c s
      by (simp add: pipe_read_loop_def post_everyone_spec)
  qed
qed

lemma lock_pipe_eq: "lock_pipe pi = (if plock pi then Blocked else Ok (pi\<lparr>plock := True\<rparr>))"
  by (simp add: lock_pipe_def)

section \<open>Any number of readers and writers\<close>

text \<open>
  \<open>pipe_run pi W R\<close>: after some sequence of calls on a new pipe, and of sleeping calls that go
  on, the writers have put the bytes \<open>W\<close> into it and the readers have got the bytes \<open>R\<close>.
\<close>

inductive pipe_run :: "pipe \<Rightarrow> u8 list \<Rightarrow> u8 list \<Rightarrow> bool" where
  new: "pipe_run (init_pipe pi) [] []"
| call_write: "pipe_run pi W R \<Longrightarrow> t \<notin> set (sleeplist (pwlock pi)) \<Longrightarrow> n \<le> int (length src) \<Longrightarrow>
    pipe_write t killed src n pi = Ok (r, pi') \<Longrightarrow>
    pipe_run pi' (W @ take (unat (nwrite pi' - nwrite pi)) src) R"
| resume_write: "pipe_run pi W R \<Longrightarrow> t \<notin> set (sleeplist (pwlock pi)) \<Longrightarrow> n \<le> int (length src) \<Longrightarrow>
    pipe_write_loop t killed src n i pi = Ok (r, pi') \<Longrightarrow>
    pipe_run pi' (W @ take (unat (nwrite pi' - nwrite pi)) (drop i src)) R"
| call_read: "pipe_run pi W R \<Longrightarrow> t \<notin> set (sleeplist (prlock pi)) \<Longrightarrow> pipe_read t killed n pi = Ok (r, dst, pi') \<Longrightarrow>
    pipe_run pi' W (R @ dst)"
| resume_read: "pipe_run pi W R \<Longrightarrow> t \<notin> set (sleeplist (prlock pi)) \<Longrightarrow> pipe_read_loop t killed n pi = Ok (r, dst, pi') \<Longrightarrow>
    pipe_run pi' W (R @ dst)"
| close: "pipe_run pi W R \<Longrightarrow> pipe_close pi writable = Ok (gone, pi') \<Longrightarrow> pipe_run pi' W R"

lemma nwrite_moved: "unat (nwrite pi - nread pi) + k < 2 ^ 32 \<Longrightarrow> nread pi' = nread pi \<Longrightarrow>
    in_transit pi' = in_transit pi + k \<Longrightarrow> unat (nwrite pi' - nwrite pi) = k"
proof -
  assume "unat (nwrite pi - nread pi) + k < 2 ^ 32" "nread pi' = nread pi" "in_transit pi' = in_transit pi + k"
  moreover have "nwrite pi' - nwrite pi = (nwrite pi' - nread pi) - (nwrite pi - nread pi)" by simp
  moreover have "nwrite pi - nread pi \<le> nwrite pi' - nread pi" using calculation by (simp add: in_transit_def word_le_nat_alt)
  ultimately have "unat (nwrite pi' - nwrite pi) = in_transit pi' - in_transit pi" by (simp only: unat_sub in_transit_def)
  then show ?thesis using \<open>in_transit pi' = in_transit pi + k\<close> by simp
qed

lemma pipe_write_loop_moves:
  assumes "pipe_ok pi" and "t \<notin> set (sleeplist (pwlock pi))" and "n \<le> int (length src)"
    and "pipe_write_loop t killed src n i pi = Ok (r, pi')"
  shows "pipe_ok pi' \<and> contents pi' = contents pi @ take (unat (nwrite pi' - nwrite pi)) (drop i src)"
proof -
  obtain k where k: "pipe_ok pi'" "contents pi' = contents pi @ take (k - i) (drop i src)" "nread pi' = nread pi"
    using pipe_write_loop_spec [of pi n src t killed i] assms by auto
  have "length (contents pi') = length (contents pi @ take (k - i) (drop i src))" by (simp only: k(2))
  then have "in_transit pi' = in_transit pi + length (take (k - i) (drop i src))" by simp
  moreover have "in_transit pi' \<le> PIPE_SIZE" using k(1) by (simp add: pipe_ok_def)
  ultimately have "unat (nwrite pi' - nwrite pi) = length (take (k - i) (drop i src))"
    using k(3) by (intro nwrite_moved) (simp_all add: in_transit_def PIPE_SIZE_def)
  then have "take (unat (nwrite pi' - nwrite pi)) (drop i src) = take (k - i) (drop i src)" by (simp add: min_def)
  then show ?thesis using k by simp
qed

lemma pipe_run_invariant: "pipe_run pi W R \<Longrightarrow> pipe_ok pi \<and> W = R @ contents pi"
proof (induction rule: pipe_run.induct)
  case (new pi)
  show ?case by (simp add: init_pipe_def pipe_ok_def contents_def in_transit_def sem_ok_init)
next
  case (resume_write pi W R t n src killed i r pi')
  then show ?case using pipe_write_loop_moves [of pi t n src killed i r pi'] by simp
next
  case (call_write pi W R t n src killed r pi')
  then have "pipe_write_loop t killed src n 0 (pi\<lparr>plock := True\<rparr>) = Ok (r, pi')"
    by (auto simp: pipe_write_def lock_pipe_eq split: if_splits)
  then show ?case using pipe_write_loop_moves [of "pi\<lparr>plock := True\<rparr>" t n src killed 0 r pi'] call_write by simp
next
  case (call_read pi W R t killed n r dst pi')
  then have "pipe_read_loop t killed n (pi\<lparr>plock := True\<rparr>) = Ok (r, dst, pi')"
    by (auto simp: pipe_read_def lock_pipe_eq split: if_splits)
  then show ?case using pipe_read_loop_spec [of "pi\<lparr>plock := True\<rparr>" t killed n] call_read by auto
next
  case (resume_read pi W R t killed n r dst pi')
  then show ?case using pipe_read_loop_spec [of pi t killed n] by auto
next
  case (close pi W R writable gone pi')
  show ?case
  proof (cases writable)
    case True
    with close show ?thesis
      by (auto simp: pipe_close_def lock_pipe_eq pipe_ok_def post_everyone_spec contents_def in_transit_def split: if_splits)
  next
    case False
    with close show ?thesis
      by (auto simp: pipe_close_def lock_pipe_eq pipe_ok_def post_everyone_spec contents_def in_transit_def split: if_splits)
  qed
qed

end
