(* ===== verification/Mem.thy ===== *)
theory Mem
  imports Basics
begin

text \<open>
  \<^verbatim>\<open>src/kernel/mem.c\<close>: the page allocator and the block allocator on top of it.  An address is
  the number of a byte in the kernel address space.  A free list threaded through the memory it
  describes is the list of its addresses, and the \<^verbatim>\<open>Header\<close> at the start of a page is
  \<open>headers\<close> at the address of the page.
\<close>

section \<open>State\<close>

definition PAGE_SIZE :: nat where "PAGE_SIZE = 4096"

definition NUM_ALLOCATORS :: nat where "NUM_ALLOCATORS = 31"

record page_header =
  block_size :: u16
  block_count :: u16

record allocator =
  asize :: nat
  free_list :: "nat list"
  ahead :: bool

record mem_sys =
  allocators :: "allocator list"
  mem_lock :: spinlock
  page_lock :: spinlock
  free_lock :: spinlock
  free_pages :: "nat list"
  headers :: "nat \<Rightarrow> page_header"
  page_cnt :: "nat \<Rightarrow> refcount"
  page_counter :: int
  kalloc_page_cnt :: refcount

definition sizes :: "nat list" where
  "sizes = [8, 16, 24, 32, 40, 48, 56, 64, 72, 80, 88, 96, 104, 112, 120, 128, 136, 144, 152, 160, 168,
     200, 224, 256, 312, 384, 448, 512, 1016, 2040, 4080]"

definition KSPACE_MASK :: nat where "KSPACE_MASK = 0xFFFF000000000000"

definition K2P :: "nat \<Rightarrow> nat" where "K2P a = (a + 2 ^ 64 - KSPACE_MASK) mod 2 ^ 64"

definition P2K :: "nat \<Rightarrow> nat" where "P2K a = (a + KSPACE_MASK) mod 2 ^ 64"

definition page_base :: "nat \<Rightarrow> nat" where "page_base a = a - a mod PAGE_SIZE"

section \<open>Start\<close>

definition init_allocators :: "mem_sys \<Rightarrow> mem_sys" where
  "init_allocators m = m\<lparr>allocators := map (\<lambda>i. \<lparr>asize = sizes ! i, free_list = [], ahead = False\<rparr>) [0..<NUM_ALLOCATORS]\<rparr>"

definition inc_page_cnt :: "nat \<Rightarrow> mem_sys \<Rightarrow> mem_sys" where
  "inc_page_cnt ka m =
     (let idx = K2P ka div PAGE_SIZE in m\<lparr>page_cnt := (page_cnt m)(idx := increment_rc (page_cnt m idx))\<rparr>)"

text \<open>The two loops of \<^verbatim>\<open>kinit\<close>: the pages of the kernel image, and the free pages behind it.\<close>

function count_kernel_pages :: "nat \<Rightarrow> nat \<Rightarrow> mem_sys \<Rightarrow> mem_sys" where
  "count_kernel_pages p limit m =
     (if p < limit then count_kernel_pages (p + PAGE_SIZE) limit (inc_page_cnt p m) else m)"
  by pat_completeness auto
termination
  by (relation "measure (\<lambda>(p, limit, m). limit - p)") (auto simp: PAGE_SIZE_def)

declare count_kernel_pages.simps [simp del]

function add_free_pages :: "nat \<Rightarrow> nat \<Rightarrow> mem_sys \<Rightarrow> mem_sys" where
  "add_free_pages current limit m =
     (if current + PAGE_SIZE \<le> limit
      then add_free_pages (current + PAGE_SIZE) limit
             (m\<lparr>free_pages := current # free_pages m, page_counter := page_counter m + 1\<rparr>)
      else m)"
  by pat_completeness auto
termination
  by (relation "measure (\<lambda>(current, limit, m). limit - current)") (auto simp: PAGE_SIZE_def)

declare add_free_pages.simps [simp del]

text \<open>\<open>kend\<close> is the linker symbol \<^verbatim>\<open>end\<close>, \<open>phystop\<close> the size of the physical memory.\<close>

definition kinit :: "nat \<Rightarrow> nat \<Rightarrow> mem_sys \<Rightarrow> mem_sys" where
  "kinit kend phystop m =
     (let m = m\<lparr>kalloc_page_cnt := init_rc, mem_lock := init_spinlock, page_lock := init_spinlock,
                free_lock := init_spinlock\<rparr>;
          m = (init_allocators m)\<lparr>free_pages := []\<rparr>;
          m = count_kernel_pages (P2K 0) (page_base kend + PAGE_SIZE) m
      in add_free_pages (page_base (kend + PAGE_SIZE - 1)) (P2K phystop) m)"

section \<open>Pages\<close>

definition lock_pages :: "mem_sys \<Rightarrow> mem_sys outcome" where
  "lock_pages m = andthen (acquire_spinlock (page_lock m)) (\<lambda>l. Ok (m\<lparr>page_lock := l\<rparr>))"

definition unlock_pages :: "mem_sys \<Rightarrow> mem_sys" where
  "unlock_pages m = m\<lparr>page_lock := release_spinlock (page_lock m)\<rparr>"

definition lock_mem :: "mem_sys \<Rightarrow> mem_sys outcome" where
  "lock_mem m = andthen (acquire_spinlock (mem_lock m)) (\<lambda>l. Ok (m\<lparr>mem_lock := l\<rparr>))"

definition unlock_mem :: "mem_sys \<Rightarrow> mem_sys" where
  "unlock_mem m = m\<lparr>mem_lock := release_spinlock (mem_lock m)\<rparr>"

definition kalloc_page :: "mem_sys \<Rightarrow> (nat option \<times> mem_sys) outcome" where
  "kalloc_page m =
     andthen (lock_pages (m\<lparr>kalloc_page_cnt := increment_rc (kalloc_page_cnt m)\<rparr>)) (\<lambda>m.
     case free_pages m of
       [] \<Rightarrow> Ok (None, unlock_mem m)
     | page # ps \<Rightarrow>
         (let m = m\<lparr>free_pages := ps, page_cnt := (page_cnt m)(K2P page div PAGE_SIZE := init_rc)\<rparr>
          in Ok (Some page, unlock_pages m)))"

definition kfree_page :: "nat \<Rightarrow> mem_sys \<Rightarrow> mem_sys outcome" where
  "kfree_page p m =
     andthen (lock_pages m) (\<lambda>m.
     let m = m\<lparr>free_pages := p # free_pages m, kalloc_page_cnt := snd (decrement_rc (kalloc_page_cnt m))\<rparr>
     in Ok (unlock_pages m))"

definition left_page_cnt :: "mem_sys \<Rightarrow> int" where
  "left_page_cnt m = page_counter m - kalloc_page_cnt m"

section \<open>Blocks\<close>

fun index_loop :: "nat \<Rightarrow> nat \<Rightarrow> nat \<Rightarrow> mem_sys \<Rightarrow> nat" where
  "index_loop 0 index sz m = index"
| "index_loop (Suc k) index sz m =
     (if asize (allocators m ! index) < sz \<and> index < NUM_ALLOCATORS - 1 then index_loop k (index + 1) sz m else index)"

text \<open>The loop makes at most \<^verbatim>\<open>NUM_ALLOCATORS\<close> rounds, by its second condition.\<close>

definition get_allocator_index :: "nat \<Rightarrow> mem_sys \<Rightarrow> nat" where
  "get_allocator_index sz m = index_loop NUM_ALLOCATORS 0 sz m"

definition set_list :: "nat \<Rightarrow> nat list \<Rightarrow> mem_sys \<Rightarrow> mem_sys" where
  "set_list i l m = m\<lparr>allocators := (allocators m)[i := (allocators m ! i)\<lparr>free_list := l\<rparr>]\<rparr>"

definition set_head :: "nat \<Rightarrow> bool \<Rightarrow> mem_sys \<Rightarrow> mem_sys" where
  "set_head i b m = m\<lparr>allocators := (allocators m)[i := (allocators m ! i)\<lparr>ahead := b\<rparr>]\<rparr>"

definition add_count :: "nat \<Rightarrow> u16 \<Rightarrow> mem_sys \<Rightarrow> mem_sys" where
  "add_count p d m = m\<lparr>headers := (headers m)(p := (headers m p)\<lparr>block_count := block_count (headers m p) + d\<rparr>)\<rparr>"

definition kalloc :: "nat \<Rightarrow> mem_sys \<Rightarrow> (nat option \<times> mem_sys) outcome" where
  "kalloc sz m =
     andthen (lock_mem m) (\<lambda>m.
     let i = get_allocator_index sz m; a = allocators m ! i
     in case free_list a of
          block # last_block # rest \<Rightarrow>
            Ok (Some last_block, unlock_mem (add_count (page_base last_block) (- 1) (set_list i (block # rest) m)))
        | [block] \<Rightarrow>
            if ahead a
            then let next = block + asize a;
                     page = page_base block;
                     l = (if block_count (headers m page) > 1 \<and> next mod PAGE_SIZE + asize a \<le> PAGE_SIZE
                          then [next] else [])
                 in Ok (Some block, unlock_mem (add_count page (- 1) (set_list i l m)))
            else Ok (Some block, unlock_mem (add_count (page_base block) (- 1) (set_list i [] m)))
        | [] \<Rightarrow>
            andthen (kalloc_page m) (\<lambda>(r, m).
            case r of
              None \<Rightarrow> Ok (None, unlock_mem m)
            | Some new \<Rightarrow>
                (let h = \<lparr>block_size = of_nat (asize a), block_count = of_nat ((PAGE_SIZE - 4) div asize a - 1)\<rparr>;
                     first = (new + 4 + 7) - (new + 4 + 7) mod 8
                 in Ok (Some first, unlock_mem
                      (set_head i True (set_list i [first + asize a] (m\<lparr>headers := (headers m)(new := h)\<rparr>)))))))"

text \<open>\<^verbatim>\<open>kfree\<close>; the loop at its end takes the blocks of the page off the list.\<close>

definition kfree :: "nat option \<Rightarrow> mem_sys \<Rightarrow> mem_sys outcome" where
  "kfree r m =
     (case r of
        None \<Rightarrow> Ok m
      | Some ptr \<Rightarrow>
          andthen (lock_mem m) (\<lambda>m.
          let page = page_base ptr; bs = unat (block_size (headers m page))
          in if bs > 2040 then Ok (unlock_mem m)
             else let i = get_allocator_index bs m;
                      l = free_list (allocators m ! i);
                      m = (case l of
                             b # rest \<Rightarrow> set_list i (b # ptr # rest) m
                           | [] \<Rightarrow> set_list i [ptr] (set_head i False m));
                      m = add_count page 1 m
                  in if bs = 0 then Undef else if unat (block_count (headers m page)) = (PAGE_SIZE - 4) div bs
                     then andthen
                       (kfree_page page (set_list i (filter (\<lambda>b. page_base b \<noteq> page) (free_list (allocators m ! i))) m))
                       (\<lambda>m. Ok (unlock_mem m))
                     else Ok (unlock_mem m)))"

end
