(* ===== verification/File.thy ===== *)
theory File
  imports Pipe InodeFile Mem
begin

text \<open>
  \<^verbatim>\<open>src/fs/file.c\<close> and the parts of \<^verbatim>\<open>src/fs/pipe.c\<close> that work on files: the global file table
  over the inode layer, the pipes and the allocator.  A \<^verbatim>\<open>File *\<close> is an index of the table, a
  \<^verbatim>\<open>Pipe *\<close> its address; the union of the two pointers in a file is \<open>fobj\<close>, zero for \<^verbatim>\<open>NULL\<close>.
\<close>

section \<open>State\<close>

definition NFILE :: nat where "NFILE = 65536"

definition OPENFILE :: nat where "OPENFILE = 16"

datatype file_type = FD_NONE | FD_PIPE | FD_INODE

record open_file =
  ftype :: file_type
  fref :: int
  freadable :: bool
  fwritable :: bool
  fobj :: nat
  foff :: u64

record 'c fsys =
  ftlock :: spinlock
  ffiles :: "nat \<Rightarrow> open_file"
  fpipes :: "nat \<Rightarrow> pipe"
  fmem :: mem_sys
  fis :: "'c isys"
  cur_tid :: tid

definition zero_file :: open_file where
  "zero_file = \<lparr>ftype = FD_NONE, fref = 0, freadable = False, fwritable = False, fobj = 0, foff = 0\<rparr>"

definition upd_file :: "nat \<Rightarrow> (open_file \<Rightarrow> open_file) \<Rightarrow> 'c fsys \<Rightarrow> 'c fsys" where
  "upd_file f g s = s\<lparr>ffiles := (ffiles s)(f := g (ffiles s f))\<rparr>"

definition lock_ftable :: "'c fsys \<Rightarrow> 'c fsys outcome" where
  "lock_ftable s = andthen (acquire_spinlock (ftlock s)) (\<lambda>l. Ok (s\<lparr>ftlock := l\<rparr>))"

definition unlock_ftable :: "'c fsys \<Rightarrow> 'c fsys" where
  "unlock_ftable s = s\<lparr>ftlock := release_spinlock (ftlock s)\<rparr>"

text \<open>A call of the inode layer, of an operation of the log and of a pipe.\<close>

definition on_inodes :: "('c isys \<Rightarrow> 'c isys outcome) \<Rightarrow> 'c fsys \<Rightarrow> 'c fsys outcome" where
  "on_inodes g s = andthen (g (fis s)) (\<lambda>t. Ok (s\<lparr>fis := t\<rparr>))"

definition op_begin :: "'c block_cache \<Rightarrow> 'c isys \<Rightarrow> 'c isys outcome" where
  "op_begin bc s = andthen (bc_begin_op bc (cst s)) (\<lambda>(c, k). Ok (s\<lparr>cst := k, opctx := c\<rparr>))"

definition op_end :: "'c block_cache \<Rightarrow> 'c isys \<Rightarrow> 'c isys outcome" where
  "op_end bc s = andthen (bc_end_op bc (cst s)) (\<lambda>k. Ok (s\<lparr>cst := k\<rparr>))"

definition returned :: "progress \<Rightarrow> int outcome" where
  "returned r = (case r of Returned v \<Rightarrow> Ok v | Asleep _ \<Rightarrow> Blocked)"

section \<open>The table\<close>

definition init_ftable :: "'c fsys \<Rightarrow> 'c fsys" where
  "init_ftable s = s\<lparr>ftlock := init_spinlock\<rparr>"

definition init_oftable :: "nat option list" where
  "init_oftable = replicate OPENFILE None"

function find_file :: "nat \<Rightarrow> (nat \<Rightarrow> open_file) \<Rightarrow> nat option" where
  "find_file i files = (if i < NFILE then if fref (files i) = 0 then Some i else find_file (i + 1) files else None)"
  by pat_completeness auto
termination
  by (relation "measure (\<lambda>(i, files). NFILE - i)") auto

declare find_file.simps [simp del]

definition file_alloc :: "'c fsys \<Rightarrow> (nat option \<times> 'c fsys) outcome" where
  "file_alloc s =
     andthen (lock_ftable s) (\<lambda>s.
     case find_file 0 (ffiles s) of
       Some i \<Rightarrow> Ok (Some i, unlock_ftable (upd_file i (\<lambda>f. f\<lparr>fref := 1\<rparr>) s))
     | None \<Rightarrow> Ok (None, unlock_ftable s))"

definition file_dup :: "nat \<Rightarrow> 'c fsys \<Rightarrow> 'c fsys outcome" where
  "file_dup f s =
     andthen (lock_ftable s) (\<lambda>s.
     if fref (ffiles s f) < 1 then Ok (unlock_ftable s)
     else Ok (unlock_ftable (upd_file f (\<lambda>f. f\<lparr>fref := fref f + 1\<rparr>) s)))"

definition close_pipe :: "nat \<Rightarrow> bool \<Rightarrow> 'c fsys \<Rightarrow> 'c fsys outcome" where
  "close_pipe a writable s =
     andthen (pipe_close (fpipes s a) writable) (\<lambda>(gone, pi).
     let s = s\<lparr>fpipes := (fpipes s)(a := pi)\<rparr>
     in if gone then andthen (kfree (Some a) (fmem s)) (\<lambda>m. Ok (s\<lparr>fmem := m\<rparr>)) else Ok s)"

definition put_inode :: "'c block_cache \<Rightarrow> nat \<Rightarrow> 'c isys \<Rightarrow> 'c isys outcome" where
  "put_inode bc ip s =
     andthen (op_begin bc s) (\<lambda>s. andthen (it_put (inodes bc) True ip s) (\<lambda>s. op_end bc s))"

text \<open>The last two lines of \<^verbatim>\<open>file_close\<close> release the lock of the table a second time.\<close>

definition file_close :: "'c block_cache \<Rightarrow> nat option \<Rightarrow> 'c fsys \<Rightarrow> 'c fsys outcome" where
  "file_close bc fo s =
     (case fo of
        None \<Rightarrow> Ok s
      | Some f \<Rightarrow>
          andthen (lock_ftable s) (\<lambda>s.
          let s = upd_file f (\<lambda>f. f\<lparr>fref := fref f - 1\<rparr>) s
          in andthen
            (if fref (ffiles s f) = 0
             then let temp = ffiles s f;
                      s = unlock_ftable (upd_file f (\<lambda>_. zero_file) s)
                  in andthen (if ftype temp = FD_PIPE then close_pipe (fobj temp) (fwritable temp) s else Ok s) (\<lambda>s.
                     if ftype temp = FD_INODE then on_inodes (put_inode bc (fobj temp)) s else Ok s)
             else Ok s) (\<lambda>s.
          Ok (unlock_ftable s))))"

definition file_stat :: "nat option \<Rightarrow> 'c fsys \<Rightarrow> (int \<times> kstat option \<times> 'c fsys) outcome" where
  "file_stat fo s =
     (case fo of
        None \<Rightarrow> Ok (- 1, None, s)
      | Some f \<Rightarrow>
          let ip = fobj (ffiles s f)
          in if ip = 0 then Ok (- 1, None, s)
             else if ftype (ffiles s f) = FD_INODE
             then andthen (on_inodes (inode_lock ip) s) (\<lambda>s.
                  andthen (stati ip (fis s)) (\<lambda>st.
                  andthen (on_inodes (inode_unlock ip) s) (\<lambda>s. Ok (0, Some st, s))))
             else Ok (0, None, s))"

section \<open>Reading and writing\<close>

text \<open>\<^verbatim>\<open>file_read\<close>: the list holds the bytes stored at \<^verbatim>\<open>addr\<close>.\<close>

definition file_read :: "'c block_cache \<Rightarrow> nat \<Rightarrow> int \<Rightarrow> 'c fsys \<Rightarrow> (int \<times> u8 list \<times> 'c fsys) outcome" where
  "file_read bc f n s =
     (let fl = ffiles s f
      in if \<not> freadable fl then Ok (- 1, [], s)
         else if ftype fl = FD_PIPE
         then andthen (pipe_read (cur_tid s) (cur_killed (fis s)) (signed_take_bit 31 n) (fpipes s (fobj fl))) (\<lambda>(r, dst, pi).
              andthen (returned r) (\<lambda>v. Ok (v, dst, s\<lparr>fpipes := (fpipes s)(fobj fl := pi)\<rparr>)))
         else if ftype fl = FD_INODE
         then let ip = fobj fl
              in andthen (on_inodes (it_lock (inodes bc) ip) s) (\<lambda>s.
                 andthen (it_read (inodes bc) ip (foff (ffiles s f)) (word_of_int n) (fis s)) (\<lambda>(buf, dst, t).
                 let s = s\<lparr>fis := t\<rparr>;
                     s = (if 0 <s buf then upd_file f (\<lambda>f. f\<lparr>foff := foff f + buf\<rparr>) s else s)
                 in andthen (on_inodes (it_unlock (inodes bc) ip) s) (\<lambda>s. Ok (sint buf, dst, s))))
         else Ok (- 1, [], s))"

definition write_chunk :: int where
  "write_chunk = (int OP_MAX_NUM_BLOCKS - 4) div 2 * int BLOCK_SIZE"

text \<open>One round of the loop of \<^verbatim>\<open>file_write\<close>; the result is \<^verbatim>\<open>wlen\<close>.\<close>

definition file_write_step :: "'c block_cache \<Rightarrow> nat \<Rightarrow> nat \<Rightarrow> u8 list \<Rightarrow> int \<Rightarrow> int \<Rightarrow> 'c fsys \<Rightarrow> (int \<times> 'c fsys) outcome" where
  "file_write_step bc f ip addr cur len s =
     andthen (on_inodes (op_begin bc) s) (\<lambda>s.
     andthen (on_inodes (it_lock (inodes bc) ip) s) (\<lambda>s.
     andthen (it_write (inodes bc) True ip (drop (nat cur) addr) (foff (ffiles s f)) (word_of_int len) (fis s)) (\<lambda>(wlen, t).
     let s = s\<lparr>fis := t\<rparr>;
         s = (if 0 <s wlen then upd_file f (\<lambda>f. f\<lparr>foff := foff f + wlen\<rparr>) s else s)
     in andthen (on_inodes (it_unlock (inodes bc) ip) s) (\<lambda>s.
        andthen (on_inodes (op_end bc) s) (\<lambda>s. Ok (sint wlen, s))))))"

lemma inode_write_returns: "inode_write bc ctx i src off w s = Ok (r, s') \<Longrightarrow> r = w"
  by (auto simp: inode_write_def dev_write_def console_write_def Let_def split: if_splits)

lemma file_write_step_len:
  assumes "file_write_step bc f ip addr cur len s = Ok (w, s')" and "0 < len" and "len \<le> write_chunk"
  shows "w = len"
proof -
  obtain t off u r where "inode_write bc True ip (drop (nat cur) addr) off (word_of_int len) t = Ok (r, u)" "w = sint r"
    using assms(1) by (auto simp: file_write_step_def inodes_def Let_def)
  then have "w = sint (word_of_int len :: u64)" by (auto dest: inode_write_returns)
  also have "\<dots> = len"
    using assms(2,3) by (subst sint_sbintrunc', intro signed_take_bit_int_eq_self)
      (simp_all add: write_chunk_def OP_MAX_NUM_BLOCKS_def BLOCK_SIZE_def)
  finally show ?thesis .
qed

function file_write_loop :: "'c block_cache \<Rightarrow> nat \<Rightarrow> nat \<Rightarrow> u8 list \<Rightarrow> int \<Rightarrow> int \<Rightarrow> 'c fsys \<Rightarrow> (int \<times> 'c fsys) outcome" where
  "file_write_loop bc f ip addr n cur s =
     (if cur < n then
        let len = min (n - cur) write_chunk
        in andthen (file_write_step bc f ip addr cur len s) (\<lambda>(wlen, s).
           if len < 0 then Ok (cur, s) else file_write_loop bc f ip addr n (cur + wlen) s)
      else Ok (cur, s))"
  by pat_completeness auto
termination
proof (relation "measure (\<lambda>(bc, f, ip, addr, n, cur, s). nat (n - cur))")
  fix bc :: "'c block_cache" and f ip addr n cur s len x w s'
  assume a: "cur < n" "len = min (n - cur) write_chunk" "file_write_step bc f ip addr cur len s = Ok x" "(w, s') = x"
  have "0 < write_chunk" by (simp add: write_chunk_def OP_MAX_NUM_BLOCKS_def BLOCK_SIZE_def)
  then have "0 < len" "len \<le> write_chunk" using a by simp_all
  with a have "w = len" using file_write_step_len by metis
  with a \<open>0 < len\<close> show "((bc, f, ip, addr, n, cur + w, s'), bc, f, ip, addr, n, cur, s) \<in> measure (\<lambda>(bc, f, ip, addr, n, cur, s). nat (n - cur))"
    by simp
qed simp

declare file_write_loop.simps [simp del]

definition file_write :: "'c block_cache \<Rightarrow> nat \<Rightarrow> u8 list \<Rightarrow> int \<Rightarrow> 'c fsys \<Rightarrow> (int \<times> 'c fsys) outcome" where
  "file_write bc f addr n s =
     (let fl = ffiles s f
      in if \<not> fwritable fl then Ok (- 1, s)
         else if ftype fl = FD_PIPE
         then andthen (pipe_write (cur_tid s) (cur_killed (fis s)) addr (signed_take_bit 31 n) (fpipes s (fobj fl))) (\<lambda>(r, pi).
              andthen (returned r) (\<lambda>v. Ok (v, s\<lparr>fpipes := (fpipes s)(fobj fl := pi)\<rparr>)))
         else if ftype fl = FD_INODE
         then andthen (file_write_loop bc f (fobj fl) addr n 0 s) (\<lambda>(cur, s).
              Ok (if cur = n then n else - 1, s))
         else Ok (0, s))"

section \<open>Pipes as files\<close>

definition init_read_pipe :: "nat \<Rightarrow> nat \<Rightarrow> 'c fsys \<Rightarrow> 'c fsys" where
  "init_read_pipe f a = upd_file f (\<lambda>f. f\<lparr>ftype := FD_PIPE, freadable := True, fwritable := False, fobj := a\<rparr>)"

definition init_write_pipe :: "nat \<Rightarrow> nat \<Rightarrow> 'c fsys \<Rightarrow> 'c fsys" where
  "init_write_pipe f a = upd_file f (\<lambda>f. f\<lparr>ftype := FD_PIPE, freadable := False, fwritable := True, fobj := a\<rparr>)"

text \<open>\<^verbatim>\<open>sizeof(Pipe)\<close>: the spinlock padded to a word, two semaphores of 24 bytes, the data and four words of 4 bytes.\<close>

definition sizeof_pipe :: nat where
  "sizeof_pipe = 8 + 24 + 24 + PIPE_SIZE + 16"

definition pipe_alloc :: "'c block_cache \<Rightarrow> 'c fsys \<Rightarrow> (int \<times> nat option \<times> nat option \<times> 'c fsys) outcome" where
  "pipe_alloc bc s =
     (let bad = (\<lambda>f0 f1 s. andthen (file_close bc f0 s) (\<lambda>s. andthen (file_close bc f1 s) (\<lambda>s. Ok (- 1, f0, f1, s))))
      in andthen (file_alloc s) (\<lambda>(f0, s).
         case f0 of
           None \<Rightarrow> bad None None s
         | Some a \<Rightarrow> andthen (file_alloc s) (\<lambda>(f1, s).
             case f1 of
               None \<Rightarrow> bad f0 None s
             | Some b \<Rightarrow> andthen (kalloc sizeof_pipe (fmem s)) (\<lambda>(p, m).
                 let s = s\<lparr>fmem := m\<rparr>
                 in case p of
                      None \<Rightarrow> bad f0 f1 s
                    | Some p \<Rightarrow>
                        let s = s\<lparr>fpipes := (fpipes s)(p := init_pipe (fpipes s p))\<rparr>
                        in Ok (0, f0, f1, init_write_pipe b p (init_read_pipe a p s))))))"

end
