(* ===== verification/MemSpec.thy ===== *)
theory MemSpec
  imports Mem
begin

text \<open>
  The block allocator never hands out a block that overlaps another live block.  A page of a
  size class is cut into \<open>nslots\<close> slots behind its header; \<open>vg p\<close> counts the slots at the end of page
  \<open>p\<close> that have never been handed out nor put on a list, \<open>live\<close> are the blocks in use.
\<close>

section \<open>The size classes\<close>

lemma length_sizes [simp]: "length sizes = 31"
  by (simp add: sizes_def)

lemma sizes_mono: "i < j \<Longrightarrow> j < 31 \<Longrightarrow> sizes ! i < sizes ! j"
proof -
  have "sorted_wrt (<) sizes" by (simp add: sizes_def)
  then show "i < j \<Longrightarrow> j < 31 \<Longrightarrow> sizes ! i < sizes ! j" by (simp add: sorted_wrt_nth_less)
qed

lemma class_sizes: "\<forall>x\<in>set (take 30 sizes). Q x \<Longrightarrow> i < 30 \<Longrightarrow> Q (sizes ! i)"
proof -
  assume "\<forall>x\<in>set (take 30 sizes). Q x" and i: "i < 30"
  moreover have "take 30 sizes ! i \<in> set (take 30 sizes)" using i by (intro nth_mem) simp
  ultimately show "Q (sizes ! i)" using i by simp
qed

lemma sizes_bounds: "i < 30 \<Longrightarrow> 8 \<le> sizes ! i \<and> sizes ! i \<le> 2040 \<and> 8 dvd sizes ! i"
  by (rule class_sizes) (simp_all add: sizes_def)

definition sizes_ok :: "mem_sys \<Rightarrow> bool" where
  "sizes_ok m \<longleftrightarrow> length (allocators m) = NUM_ALLOCATORS \<and> (\<forall>i<NUM_ALLOCATORS. asize (allocators m ! i) = sizes ! i)"

lemma index_loop_least:
  assumes "sizes_ok m" and "j < NUM_ALLOCATORS" and "sz \<le> sizes ! j" and "index \<le> j" and "j - index < k"
    and "\<forall>i. index \<le> i \<longrightarrow> i < j \<longrightarrow> sizes ! i < sz"
  shows "index_loop k index sz m = j"
  using assms
proof (induction k arbitrary: index)
  case (Suc k)
  show ?case
  proof (cases "index = j")
    case True
    with Suc.prems show ?thesis by (simp add: sizes_ok_def)
  next
    case False
    then have "index_loop (Suc k) index sz m = index_loop k (index + 1) sz m"
      using Suc.prems by (simp add: sizes_ok_def NUM_ALLOCATORS_def)
    also have "\<dots> = j" using Suc.prems False by (intro Suc.IH) auto
    finally show ?thesis .
  qed
qed simp

lemma index_cong: "allocators m = allocators m' \<Longrightarrow> get_allocator_index sz m = get_allocator_index sz m'"
proof -
  assume "allocators m = allocators m'"
  then have "index_loop k i sz m = index_loop k i sz m'" for k i by (induction k arbitrary: i) simp_all
  then show ?thesis by (simp add: get_allocator_index_def)
qed

lemma index_of_class: "sizes_ok m \<Longrightarrow> j < NUM_ALLOCATORS \<Longrightarrow> get_allocator_index (sizes ! j) m = j"
  unfolding get_allocator_index_def
  by (rule index_loop_least) (auto simp: NUM_ALLOCATORS_def intro: sizes_mono)

lemma index_fits:
  assumes "sizes_ok m" and "sz \<le> 2040"
  obtains j where "get_allocator_index sz m = j" and "j < 30" and "sz \<le> sizes ! j"
proof -
  let ?j = "LEAST j. sz \<le> sizes ! j"
  have e: "sz \<le> sizes ! 29" using assms(2) by (simp add: sizes_def)
  then have j: "sz \<le> sizes ! ?j" by (rule LeastI)
  have "?j \<le> 29" using e by (rule Least_le)
  moreover have "\<forall>i<?j. sizes ! i < sz" using not_less_Least by (metis not_le)
  ultimately have "get_allocator_index sz m = ?j"
    unfolding get_allocator_index_def using assms(1) j by (intro index_loop_least) (auto simp: NUM_ALLOCATORS_def)
  with j \<open>?j \<le> 29\<close> that show thesis by force
qed

section \<open>Slots\<close>

definition nslots :: "nat \<Rightarrow> nat" where "nslots bs = (PAGE_SIZE - 8) div bs"

definition slot :: "nat \<Rightarrow> nat \<Rightarrow> nat \<Rightarrow> nat" where "slot bs p k = p + 8 + k * bs"

lemma slot_inj: "0 < bs \<Longrightarrow> slot bs p j = slot bs p k \<longleftrightarrow> j = k"
  by (simp add: slot_def)

lemma slot_end: "k < nslots bs \<Longrightarrow> 8 + k * bs + bs \<le> PAGE_SIZE"
proof -
  assume "k < nslots bs"
  then have "(k + 1) * bs \<le> nslots bs * bs" by (intro mult_le_mono1) simp
  also have "\<dots> \<le> PAGE_SIZE - 8" by (simp add: nslots_def)
  finally show ?thesis by (simp add: PAGE_SIZE_def)
qed

lemma page_base_slot: "PAGE_SIZE dvd p \<Longrightarrow> 0 < bs \<Longrightarrow> k < nslots bs \<Longrightarrow> page_base (slot bs p k) = p"
proof -
  assume "PAGE_SIZE dvd p" "0 < bs" "k < nslots bs"
  then have "8 + k * bs < PAGE_SIZE" using slot_end [of k bs] by simp
  moreover obtain q where "p = PAGE_SIZE * q" using \<open>PAGE_SIZE dvd p\<close> by auto
  ultimately show ?thesis by (simp add: page_base_def slot_def add.assoc)
qed

text \<open>The count that \<^verbatim>\<open>kalloc\<close> and \<^verbatim>\<open>kfree\<close> compute is the number of slots.\<close>

lemma nslots_code: "i < 30 \<Longrightarrow> (PAGE_SIZE - 4) div (sizes ! i) = nslots (sizes ! i)"
  by (rule class_sizes) (simp_all add: sizes_def nslots_def PAGE_SIZE_def)

lemma nslots_bounds: "i < 30 \<Longrightarrow> 2 \<le> nslots (sizes ! i) \<and> nslots (sizes ! i) \<le> 511"
  by (rule class_sizes) (simp_all add: sizes_def nslots_def PAGE_SIZE_def)

section \<open>The invariant\<close>

definition here :: "nat set \<Rightarrow> nat \<Rightarrow> nat set" where
  "here X p = {b \<in> X. page_base b = p}"

text \<open>One page of a size class, \<open>l\<close> being the free list of the class and \<open>h\<close> its \<^verbatim>\<open>head\<close> flag.\<close>

definition page_ok :: "nat \<Rightarrow> nat list \<Rightarrow> bool \<Rightarrow> (nat \<Rightarrow> page_header) \<Rightarrow> (nat \<Rightarrow> nat) \<Rightarrow> nat set \<Rightarrow> nat \<Rightarrow> bool" where
  "page_ok bs l h hs vg live p \<longleftrightarrow> PAGE_SIZE dvd p \<and> block_size (hs p) = of_nat bs \<and> vg p \<le> nslots bs \<and>
     here (set l \<union> live) p = slot bs p ` {..<nslots bs - vg p} \<and>
     unat (block_count (hs p)) = card (here (set l) p) + vg p \<and>
     (0 < vg p \<longrightarrow> h \<and> l \<noteq> [] \<and> hd l = slot bs p (nslots bs - vg p - 1) \<and> vg p < nslots bs)"

definition class_ok :: "nat \<Rightarrow> nat list \<Rightarrow> bool \<Rightarrow> (nat \<Rightarrow> page_header) \<Rightarrow> (nat \<Rightarrow> nat) \<Rightarrow> nat set \<Rightarrow> nat set \<Rightarrow> bool" where
  "class_ok bs l h hs vg live P \<longleftrightarrow> distinct l \<and> set l \<inter> live = {} \<and> (\<forall>b\<in>set l. page_base b \<in> P) \<and>
     (\<forall>p\<in>P. page_ok bs l h hs vg live p)"

definition mem_ok :: "mem_sys \<Rightarrow> (nat \<Rightarrow> nat set) \<Rightarrow> (nat \<Rightarrow> nat) \<Rightarrow> nat set \<Rightarrow> bool" where
  "mem_ok m P vg live \<longleftrightarrow> sizes_ok m \<and> \<not> mem_lock m \<and> \<not> page_lock m \<and>
     (\<forall>i<30. class_ok (sizes ! i) (free_list (allocators m ! i)) (ahead (allocators m ! i)) (headers m) vg live (P i)) \<and>
     (\<forall>i<30. \<forall>j<30. i \<noteq> j \<longrightarrow> P i \<inter> P j = {}) \<and> (\<forall>i<30. P i \<inter> set (free_pages m) = {}) \<and>
     distinct (free_pages m) \<and> (\<forall>p\<in>set (free_pages m). PAGE_SIZE dvd p) \<and> (\<forall>b\<in>live. \<exists>i<30. page_base b \<in> P i)"

lemma here_Un: "here (X \<union> Y) p = here X p \<union> here Y p"
  by (auto simp: here_def)

lemma here_insert: "here (insert b X) p = (if page_base b = p then insert b (here X p) else here X p)"
  by (auto simp: here_def)

lemma here_Diff: "here (X - {b}) p = here X p - {b}"
  by (auto simp: here_def)

lemma here_empty [simp]: "here {} p = {}"
  by (simp add: here_def)

lemma finite_here [simp]: "finite X \<Longrightarrow> finite (here X p)"
  by (simp add: here_def)

lemma page_ok_cong:
  "page_ok bs l h hs vg live p \<Longrightarrow> here live' p = here live p \<Longrightarrow> hs' p = hs p \<Longrightarrow> vg' p = vg p \<Longrightarrow>
    page_ok bs l h hs' vg' live' p"
  by (simp add: page_ok_def here_Un)

lemma class_ok_other:
  assumes "class_ok bs l h hs vg live P" and "\<And>p. p \<in> P \<Longrightarrow> here live' p = here live p \<and> hs' p = hs p \<and> vg' p = vg p"
    and "set l \<inter> live' = {}"
  shows "class_ok bs l h hs' vg' live' P"
proof -
  have "page_ok bs l h hs' vg' live' p" if p: "p \<in> P" for p
    by (rule page_ok_cong [of bs l h hs vg live]) (use assms(1,2) p in \<open>auto simp: class_ok_def\<close>)
  then show ?thesis using assms(1,3) by (simp add: class_ok_def)
qed

section \<open>Taking a block\<close>

lemma unat_pred_count: "0 < unat (c :: u16) \<Longrightarrow> unat (c + - 1) = unat c - 1"
  using unat_sub [of 1 c] by (simp add: word_le_nat_alt)

definition dec_header :: "nat \<Rightarrow> (nat \<Rightarrow> page_header) \<Rightarrow> nat \<Rightarrow> page_header" where
  "dec_header p hs = hs(p := (hs p)\<lparr>block_count := block_count (hs p) + - 1\<rparr>)"

lemma card_here_pos: "b \<in> set l \<Longrightarrow> 0 < card (here (set l) (page_base b))"
  by (auto simp: here_def card_gt_0_iff)

text \<open>A block that is not at the front of the list.\<close>

lemma take_second:
  assumes c: "class_ok bs (a # b # r) h hs vg live P"
  shows "class_ok bs (a # r) h (dec_header (page_base b) hs) vg (insert b live) P"
proof -
  have d: "distinct (a # b # r)" "set (a # b # r) \<inter> live = {}" "\<forall>x\<in>set (a # b # r). page_base x \<in> P"
    "\<forall>p\<in>P. page_ok bs (a # b # r) h hs vg live p" using c by (simp_all add: class_ok_def)
  have "page_ok bs (a # r) h (dec_header (page_base b) hs) vg (insert b live) p" if p: "p \<in> P" for p
  proof -
    have ok: "page_ok bs (a # b # r) h hs vg live p" using d(4) p by blast
    have s: "set (a # r) \<union> insert b live = set (a # b # r) \<union> live" by auto
    have cd: "card (here (set (a # r)) p) = card (here (set (a # b # r)) p) - (if page_base b = p then 1 else 0)"
    proof -
      have "set (a # b # r) = insert b (set (a # r))" "b \<notin> set (a # r)" using d(1) by auto
      then show ?thesis by (simp only: here_insert) (auto simp: here_def)
    qed
    have "0 < unat (block_count (hs p))" if "page_base b = p"
      using ok card_here_pos [of b "a # b # r"] that by (auto simp: page_ok_def)
    then have "unat (block_count (dec_header (page_base b) hs p)) = unat (block_count (hs p)) - (if page_base b = p then 1 else 0)"
      using unat_pred_count by (simp add: dec_header_def)
    moreover have "(if page_base b = p then 1 else 0) \<le> card (here (set (a # b # r)) p)"
      using card_here_pos [of b "a # b # r"] by auto
    ultimately show ?thesis using ok unfolding page_ok_def s cd by (auto simp: dec_header_def)
  qed
  with d show ?thesis by (auto simp: class_ok_def)
qed

text \<open>The only block of the list, when no slot behind it is left.\<close>

lemma take_last:
  assumes c: "class_ok bs [b] h hs vg live P" and v: "\<forall>p\<in>P. vg p = 0"
  shows "class_ok bs [] h (dec_header (page_base b) hs) vg (insert b live) P"
proof -
  have d: "b \<notin> live" "\<forall>p\<in>P. page_ok bs [b] h hs vg live p" using c by (simp_all add: class_ok_def)
  have "page_ok bs [] h (dec_header (page_base b) hs) vg (insert b live) p" if p: "p \<in> P" for p
  proof -
    have ok: "page_ok bs [b] h hs vg live p" "vg p = 0" using d(2) v p by blast+
    have s: "set [] \<union> insert b live = set [b] \<union> live" by auto
    have cb: "card (here (set [b]) p) = (if page_base b = p then 1 else 0)" by (simp add: here_insert)
    then have "unat (block_count (dec_header (page_base b) hs p)) = 0"
      using ok unat_pred_count [of "block_count (hs p)"] unfolding page_ok_def cb
      by (cases "page_base b = p") (auto simp: dec_header_def)
    with ok show ?thesis unfolding page_ok_def s by (auto simp: dec_header_def)
  qed
  then show ?thesis by (simp add: class_ok_def)
qed

text \<open>The only block of the list, when it is the frontier of its page: the next slot takes its place.\<close>

lemma take_frontier:
  assumes c: "class_ok bs [b] h hs vg live P" and bs: "0 < bs" and v: "0 < vg (page_base b)"
  shows "class_ok bs [b + bs] h (dec_header (page_base b) hs) (vg(page_base b := vg (page_base b) - 1)) (insert b live) P"
proof -
  let ?q = "page_base b" and ?N = "nslots bs"
  let ?vg = "vg(?q := vg ?q - 1)" and ?hs = "dec_header ?q hs"
  have q: "?q \<in> P" and bl: "b \<notin> live" and okq: "page_ok bs [b] h hs vg live ?q" using c by (simp_all add: class_ok_def)
  have b: "b = slot bs ?q (?N - vg ?q - 1)" "vg ?q < ?N" "PAGE_SIZE dvd ?q" "h" using okq v by (auto simp: page_ok_def)
  obtain k where k: "?N - vg ?q = Suc k" using b(2) by (metis Suc_diff_Suc)
  have "b = slot bs ?q k" using b(1) k by simp
  then have nxt: "b + bs = slot bs ?q (?N - vg ?q)" unfolding k by (simp add: slot_def)
  have kN: "?N - vg ?q < ?N" using v b(2) by simp
  have pb: "page_base (b + bs) = ?q" unfolding nxt by (rule page_base_slot [OF b(3) bs kN])
  have used: "here (set [b] \<union> live) ?q = slot bs ?q ` {..<?N - vg ?q}" using okq by (simp add: page_ok_def)
  have fresh: "b + bs \<notin> set [b] \<union> live"
  proof
    assume "b + bs \<in> set [b] \<union> live"
    then have "b + bs \<in> here (set [b] \<union> live) ?q" using pb by (simp add: here_def)
    then show False unfolding used nxt using slot_inj [OF bs] by auto
  qed
  have "page_ok bs [b + bs] h ?hs ?vg (insert b live) p" if p: "p \<in> P" for p
  proof (cases "p = ?q")
    case False
    have ok: "page_ok bs [b] h hs vg live p" using c p by (simp add: class_ok_def)
    have "vg p = 0"
    proof (rule ccontr)
      assume "vg p \<noteq> 0"
      then have "b = slot bs p (?N - vg p - 1)" "?N - vg p - 1 < ?N" "PAGE_SIZE dvd p" using ok by (auto simp: page_ok_def)
      then have "page_base b = p" using page_base_slot [OF _ bs] by blast
      with False show False by simp
    qed
    moreover have "here (set [b + bs] \<union> insert b live) p = here (set [b] \<union> live) p"
      "here (set [b + bs]) p = here (set [b]) p"
      using False pb by (auto simp: here_def)
    ultimately show ?thesis using ok False unfolding page_ok_def by (simp add: dec_header_def)
  next
    case True
    have "here (set [b + bs] \<union> insert b live) ?q = insert (b + bs) (here (set [b] \<union> live) ?q)"
      using pb by (auto simp: here_def)
    also have "\<dots> = slot bs ?q ` {..<?N - (vg ?q - 1)}"
    proof -
      have "{..<?N - (vg ?q - 1)} = insert (?N - vg ?q) {..<?N - vg ?q}" using v b(2) by auto
      then show ?thesis unfolding used nxt by simp
    qed
    finally have set: "here (set [b + bs] \<union> insert b live) ?q = slot bs ?q ` {..<?N - (vg ?q - 1)}" .
    have "card (here (set [b]) ?q) = 1" "card (here (set [b + bs]) ?q) = 1" using pb by (simp_all add: here_insert)
    moreover from this have "unat (block_count (?hs ?q)) = vg ?q"
      using okq unat_pred_count [of "block_count (hs ?q)"] by (simp add: page_ok_def dec_header_def)
    moreover have "?N - (vg ?q - 1) - 1 = ?N - vg ?q" using v by simp
    ultimately show ?thesis using okq set v b(2,4) nxt unfolding True page_ok_def by (auto simp: dec_header_def)
  qed
  then show "class_ok bs [b + bs] h ?hs ?vg (insert b live) P" using fresh q pb by (simp add: class_ok_def)
qed

text \<open>A page of its own for the class.\<close>

lemma take_new_page:
  assumes c: "class_ok bs [] h hs vg live P" and q: "q \<notin> P" "here live q = {}" "PAGE_SIZE dvd q"
    and n: "0 < bs" "2 \<le> nslots bs" "nslots bs \<le> 511"
  shows "class_ok bs [slot bs q 0 + bs] True
    (hs(q := \<lparr>block_size = of_nat bs, block_count = of_nat (nslots bs - 1)\<rparr>)) (vg(q := nslots bs - 2))
    (insert (slot bs q 0) live) (insert q P)"
proof -
  let ?N = "nslots bs" and ?b = "slot bs q 0" and ?l = "[slot bs q 0 + bs]"
  let ?hs = "hs(q := \<lparr>block_size = of_nat bs, block_count = of_nat (?N - 1)\<rparr>)" and ?vg = "vg(q := ?N - 2)"
  have s1: "?b + bs = slot bs q 1" by (simp add: slot_def)
  have pb: "page_base ?b = q" "page_base (slot bs q 1) = q"
    using page_base_slot [OF q(3) n(1)] n(2) by simp_all
  have ne: "slot bs q 1 \<noteq> ?b" using n(1) by (simp add: slot_def)
  have nl: "slot bs q 1 \<notin> live" using q(2) pb by (auto simp: here_def)
  have two: "{..<2} = {0, 1::nat}" by auto
  have "page_ok bs ?l True ?hs ?vg (insert ?b live) p" if p: "p \<in> insert q P" for p
  proof (cases "p = q")
    case True
    have "unat (of_nat (?N - 1) :: u16) = ?N - 1" using n(3) by (simp add: unat_of_nat take_bit_eq_mod)
    moreover have "here (set ?l \<union> insert ?b live) q = slot bs q ` {..<?N - (?N - 2)}"
      using q(2) pb n(2) unfolding s1 by (auto simp: here_Un here_insert two)
    moreover have "card (here (set ?l) q) = 1" using pb unfolding s1 by (simp add: here_insert)
    moreover have "?N - (?N - 2) - 1 = 1" using n(2) by simp
    ultimately show ?thesis using n q(3) unfolding True page_ok_def s1 by simp
  next
    case False
    then have ok: "page_ok bs [] h hs vg live p" using c p by (simp add: class_ok_def)
    then have v: "vg p = 0" by (auto simp: page_ok_def)
    have "here (set ?l \<union> insert ?b live) p = here (set [] \<union> live) p" "here (set ?l) p = here (set []) p"
      using False pb unfolding s1 by (auto simp: here_insert)
    then show ?thesis using ok v False unfolding page_ok_def by simp
  qed
  then show ?thesis using nl ne pb unfolding class_ok_def s1 by simp
qed

section \<open>Giving a block back\<close>

definition inc_header :: "nat \<Rightarrow> (nat \<Rightarrow> page_header) \<Rightarrow> nat \<Rightarrow> page_header" where
  "inc_header p hs = hs(p := (hs p)\<lparr>block_count := block_count (hs p) + 1\<rparr>)"

text \<open>The list after the insertion of \<^verbatim>\<open>kfree\<close>: behind the front, or as its only element.\<close>

definition put_second :: "nat \<Rightarrow> nat list \<Rightarrow> nat list" where
  "put_second b l = (case l of [] \<Rightarrow> [b] | a # r \<Rightarrow> a # b # r)"

lemma put_second_set [simp]: "set (put_second b l) = insert b (set l)"
  by (auto simp: put_second_def split: list.split)

lemma give_back:
  assumes c: "class_ok bs l h hs vg live P" and b: "b \<in> live" "page_base b \<in> P" and n: "nslots bs \<le> 511"
    and bs: "0 < bs" and h': "h' = (if l = [] then False else h)"
  shows "class_ok bs (put_second b l) h' (inc_header (page_base b) hs) vg (live - {b}) P"
proof -
  have d: "distinct l" "set l \<inter> live = {}" "\<forall>x\<in>set l. page_base x \<in> P" "\<forall>p\<in>P. page_ok bs l h hs vg live p"
    using c by (simp_all add: class_ok_def)
  have bl: "b \<notin> set l" using d(2) b(1) by auto
  have "page_ok bs (put_second b l) h' (inc_header (page_base b) hs) vg (live - {b}) p" if p: "p \<in> P" for p
  proof -
    have ok: "page_ok bs l h hs vg live p" using d(4) p by blast
    have v: "0 < vg p \<longrightarrow> h' \<and> hd (put_second b l) = hd l \<and> l \<noteq> []"
      using ok by (auto simp: page_ok_def h' put_second_def split: list.split)
    have s: "here (set (put_second b l) \<union> (live - {b})) p = here (set l \<union> live) p" using b(1) by (auto simp: here_def)
    have cd: "card (here (set (put_second b l)) p) = card (here (set l) p) + (if page_base b = p then 1 else 0)"
      using bl by (auto simp: here_insert) (simp add: here_def)
    have "card (here (set l \<union> live) p) + vg p \<le> nslots bs"
    proof -
      have "card (slot bs p ` {..<nslots bs - vg p}) \<le> nslots bs - vg p" by (metis card_image_le card_lessThan finite_lessThan)
      moreover have "here (set l \<union> live) p = slot bs p ` {..<nslots bs - vg p}" "vg p \<le> nslots bs" using ok by (simp_all add: page_ok_def)
      ultimately show ?thesis by simp
    qed
    moreover have "card (here (set l) p) \<le> card (here (set l \<union> live) p)"
    proof (rule card_mono)
      show "finite (here (set l \<union> live) p)" using ok by (simp add: page_ok_def)
    qed (auto simp: here_def)
    ultimately have "unat (block_count (hs p)) \<le> 511" using ok n by (simp add: page_ok_def)
    then have "unat (block_count (inc_header (page_base b) hs p)) = unat (block_count (hs p)) + (if page_base b = p then 1 else 0)"
      by (auto simp: inc_header_def unat_word_ariths)
    with ok v show ?thesis unfolding page_ok_def s cd by (auto simp: inc_header_def put_second_def split: list.splits)
  qed
  moreover have "distinct (put_second b l)" using d(1) bl by (auto simp: put_second_def split: list.split)
  ultimately show ?thesis using d b bl by (auto simp: class_ok_def)
qed

text \<open>When the count says that every block of the page is free, none of them is in use, and the page can go.\<close>

lemma full_count_not_live:
  assumes ok: "page_ok bs l h hs vg live p" and d: "set l \<inter> live = {}" and bs: "0 < bs"
    and full: "unat (block_count (hs p)) = nslots bs"
  shows "here live p = {}"
proof -
  have fin: "finite (here (set l \<union> live) p)" using ok by (simp add: page_ok_def)
  have "card (slot bs p ` {..<nslots bs - vg p}) = nslots bs - vg p"
    using slot_inj [OF bs] by (subst card_image) (auto simp: inj_on_def)
  then have "card (here (set l \<union> live) p) = nslots bs - vg p" using ok by (simp add: page_ok_def)
  moreover have "finite (here live p)" using fin by (simp add: here_Un)
  then have "card (here (set l \<union> live) p) = card (here (set l) p) + card (here live p)"
    unfolding here_Un by (intro card_Un_disjoint) (use d in \<open>auto simp: here_def\<close>)
  moreover have "card (here (set l) p) + vg p = nslots bs" using ok full by (simp add: page_ok_def)
  ultimately have "card (here live p) = 0" by simp
  moreover have "finite (here live p)" using fin by (simp add: here_Un)
  ultimately show ?thesis by simp
qed

lemma drop_page:
  assumes c: "class_ok bs l h hs vg live P" and bs: "0 < bs"
  shows "class_ok bs (filter (\<lambda>b. page_base b \<noteq> p) l) h hs vg live (P - {p})"
proof -
  let ?l = "filter (\<lambda>b. page_base b \<noteq> p) l"
  have "page_ok bs ?l h hs vg live q" if q: "q \<in> P - {p}" for q
  proof -
    have ok: "page_ok bs l h hs vg live q" using c q by (simp add: class_ok_def)
    have e: "here (set ?l \<union> live) q = here (set l \<union> live) q" "here (set ?l) q = here (set l) q" using q by (auto simp: here_def)
    have "?l \<noteq> [] \<and> hd ?l = hd l" if v: "0 < vg q"
    proof -
      have f: "l \<noteq> []" "hd l = slot bs q (nslots bs - vg q - 1)" "nslots bs - vg q - 1 < nslots bs" "PAGE_SIZE dvd q"
        using ok v by (auto simp: page_ok_def)
      then have "page_base (hd l) = q" using page_base_slot [OF _ bs] by simp
      with f(1) q show ?thesis by (cases l) auto
    qed
    with ok show ?thesis unfolding page_ok_def e by auto
  qed
  with c show ?thesis by (auto simp: class_ok_def)
qed

section \<open>The whole allocator\<close>

text \<open>A live block lies in a slot of its page, so live blocks of the same or of different classes are disjoint.\<close>

lemma live_slot:
  assumes "mem_ok m P vg live" and "b \<in> live"
  obtains i k where "i < 30" and "page_base b \<in> P i" and "PAGE_SIZE dvd page_base b"
    and "b = slot (sizes ! i) (page_base b) k" and "k < nslots (sizes ! i)"
proof -
  obtain i where i: "i < 30" "page_base b \<in> P i" using assms by (auto simp: mem_ok_def)
  then have ok: "page_ok (sizes ! i) (free_list (allocators m ! i)) (ahead (allocators m ! i)) (headers m) vg live (page_base b)"
    using assms(1) by (auto simp: mem_ok_def class_ok_def)
  have "b \<in> here (set (free_list (allocators m ! i)) \<union> live) (page_base b)" using assms(2) by (simp add: here_def)
  then obtain k where "b = slot (sizes ! i) (page_base b) k" "k < nslots (sizes ! i) - vg (page_base b)"
    using ok by (auto simp: page_ok_def)
  with i ok that show thesis by (auto simp: page_ok_def)
qed

definition block_range :: "nat \<Rightarrow> nat \<Rightarrow> nat set" where
  "block_range b n = {b..<b + n}"

lemma page_base_in_page: "PAGE_SIZE dvd p \<Longrightarrow> p \<le> x \<Longrightarrow> x < p + PAGE_SIZE \<Longrightarrow> page_base x = p"
proof -
  assume "PAGE_SIZE dvd p" "p \<le> x" "x < p + PAGE_SIZE"
  then obtain q r where "p = PAGE_SIZE * q" "x = p + r" "r < PAGE_SIZE" by (metis add_less_cancel_left dvdE le_iff_add)
  then show ?thesis by (simp add: page_base_def)
qed

text \<open>The bytes of a block: behind the header of its page and inside the page.\<close>

lemma live_in_page:
  assumes "mem_ok m P vg live" and "b \<in> live" and "i < 30" and "page_base b \<in> P i"
  shows "page_base b + 8 \<le> b" and "b + sizes ! i \<le> page_base b + PAGE_SIZE"
    and "x \<in> block_range b (sizes ! i) \<Longrightarrow> page_base x = page_base b"
    and "\<exists>k<nslots (sizes ! i). b = slot (sizes ! i) (page_base b) k"
proof -
  obtain j k where j: "j < 30" "page_base b \<in> P j" "PAGE_SIZE dvd page_base b"
    "b = slot (sizes ! j) (page_base b) k" "k < nslots (sizes ! j)"
    using live_slot [OF assms(1,2)] by metis
  have "j = i" using j(1,2) assms by (auto simp: mem_ok_def)
  with j slot_end [of k "sizes ! j"]
  show 1: "page_base b + 8 \<le> b" "b + sizes ! i \<le> page_base b + PAGE_SIZE"
    "\<exists>k<nslots (sizes ! i). b = slot (sizes ! i) (page_base b) k"
    unfolding slot_def by (simp_all add: slot_def) (metis add.assoc)+
  then show "x \<in> block_range b (sizes ! i) \<Longrightarrow> page_base x = page_base b"
    using page_base_in_page [OF j(3), of x] by (simp add: block_range_def)
qed

lemma live_disjoint:
  assumes ok: "mem_ok m P vg live" and "b \<in> live" "c \<in> live" "b \<noteq> c"
    and "i < 30" "page_base b \<in> P i" "j < 30" "page_base c \<in> P j"
  shows "block_range b (sizes ! i) \<inter> block_range c (sizes ! j) = {}"
proof (rule ccontr)
  assume "block_range b (sizes ! i) \<inter> block_range c (sizes ! j) \<noteq> {}"
  then obtain x where x: "x \<in> block_range b (sizes ! i)" "x \<in> block_range c (sizes ! j)" by auto
  then have p: "page_base b = page_base c"
    using live_in_page(3) [OF ok assms(2,5,6)] live_in_page(3) [OF ok assms(3,7,8)] by metis
  then have ij: "i = j" using ok assms(5-8) by (auto simp: mem_ok_def)
  obtain k l where k: "b = slot (sizes ! i) (page_base b) k" "c = slot (sizes ! i) (page_base b) l"
    using live_in_page(4) [OF ok assms(2,5,6)] live_in_page(4) [OF ok assms(3,7,8)] p ij by metis
  then have "k \<noteq> l" using assms(4) by auto
  then have "(k + 1) * sizes ! i \<le> l * sizes ! i \<or> (l + 1) * sizes ! i \<le> k * sizes ! i"
    by (metis Suc_eq_plus1 Suc_leI linorder_neqE_nat mult_le_mono1)
  moreover have "x \<in> block_range (slot (sizes ! i) (page_base b) k) (sizes ! i)" "x \<in> block_range (slot (sizes ! i) (page_base b) l) (sizes ! i)"
    using x k ij by simp_all
  ultimately show False by (auto simp: block_range_def slot_def)
qed

text \<open>One class changes, the others only see a different set of live blocks on pages that are not theirs.\<close>

lemma mem_ok_step:
  assumes ok: "mem_ok m P vg live" and i: "i < 30"
    and cls: "class_ok (sizes ! i) l h hs vg' live' Pi"
    and oth: "\<And>p. p \<notin> Pi \<union> P i \<Longrightarrow> here live' p = here live p \<and> hs p = headers m p \<and> vg' p = vg p"
    and pg: "\<forall>j<30. j \<noteq> i \<longrightarrow> Pi \<inter> P j = {}" "Pi \<inter> set fp = {}" "distinct fp" "\<forall>p\<in>set fp. PAGE_SIZE dvd p"
      "\<forall>j<30. j \<noteq> i \<longrightarrow> P j \<inter> set fp = {}"
    and lv: "\<forall>b\<in>live'. \<exists>j<30. page_base b \<in> (P(i := Pi)) j" and new: "\<forall>b\<in>live' - live. page_base b \<in> P i \<union> Pi"
    and m': "allocators m' = (allocators m)[i := \<lparr>asize = sizes ! i, free_list = l, ahead = h\<rparr>]" "headers m' = hs"
      "free_pages m' = fp" "mem_lock m' = False" "page_lock m' = False"
  shows "mem_ok m' (P(i := Pi)) vg' live'"
proof -
  have sz: "sizes_ok m" and len: "length (allocators m) = 31" using ok by (simp_all add: mem_ok_def sizes_ok_def NUM_ALLOCATORS_def)
  have dj: "P a \<inter> P b = {}" if "a < 30" "b < 30" "a \<noteq> b" for a b using ok that by (simp add: mem_ok_def)
  have "class_ok (sizes ! j) (free_list (allocators m' ! j)) (ahead (allocators m' ! j)) (headers m') vg' live' ((P(i := Pi)) j)"
    if j: "j < 30" for j
  proof (cases "j = i")
    case True
    then show ?thesis using cls m'(1,2) i len by simp
  next
    case False
    have c: "class_ok (sizes ! j) (free_list (allocators m ! j)) (ahead (allocators m ! j)) (headers m) vg live (P j)"
      using ok j by (simp add: mem_ok_def)
    have np: "p \<notin> Pi \<union> P i" if "p \<in> P j" for p using that False j i pg(1) dj [OF j i False] by auto
    have "class_ok (sizes ! j) (free_list (allocators m ! j)) (ahead (allocators m ! j)) hs vg' live' (P j)"
    proof (rule class_ok_other [OF c])
      show "here live' p = here live p \<and> hs p = headers m p \<and> vg' p = vg p" if "p \<in> P j" for p using oth [OF np [OF that]] .
      show "set (free_list (allocators m ! j)) \<inter> live' = {}" using c np new by (auto simp: class_ok_def)
    qed
    then show ?thesis using False m'(1,2) by simp
  qed
  moreover have "sizes_ok m'" using sz i m'(1) by (auto simp: sizes_ok_def NUM_ALLOCATORS_def nth_list_update)
  moreover have "\<forall>a<30. \<forall>b<30. a \<noteq> b \<longrightarrow> (P(i := Pi)) a \<inter> (P(i := Pi)) b = {}" using dj pg(1) by auto
  moreover have "\<forall>a<30. (P(i := Pi)) a \<inter> set fp = {}" using pg(2,5) by auto
  ultimately show ?thesis using pg(3,4) lv m'(3-5) by (simp add: mem_ok_def)
qed

section \<open>kalloc and kfree\<close>

lemma add_count_simps [simp]:
  "allocators (add_count p d m) = allocators m" "free_pages (add_count p d m) = free_pages m"
  "page_lock (add_count p d m) = page_lock m" "mem_lock (add_count p d m) = mem_lock m"
  by (simp_all add: add_count_def)

lemma headers_add_count:
  "headers (add_count p (- 1) m) = dec_header p (headers m)" "headers (add_count p 1 m) = inc_header p (headers m)"
  by (simp_all add: add_count_def dec_header_def inc_header_def)

lemma set_list_simps [simp]:
  "headers (set_list i l m) = headers m" "free_pages (set_list i l m) = free_pages m" "headers (set_head i h m) = headers m"
  "free_pages (set_head i h m) = free_pages m" "page_lock (set_list i l m) = page_lock m" "mem_lock (set_list i l m) = mem_lock m"
  "page_lock (set_head i h m) = page_lock m" "mem_lock (set_head i h m) = mem_lock m"
  by (simp_all add: set_list_def set_head_def)

lemma header_other: "p \<noteq> q \<Longrightarrow> dec_header q hs p = hs p" "p \<noteq> q \<Longrightarrow> inc_header q hs p = hs p"
  by (simp_all add: dec_header_def inc_header_def)

text \<open>
  The pages that the allocator manages, and what an allocation promises about the block \<open>b\<close> for
  a request of \<open>sz\<close> bytes.
\<close>

definition pages_of :: "mem_sys \<Rightarrow> (nat \<Rightarrow> nat set) \<Rightarrow> nat set" where
  "pages_of m P = set (free_pages m) \<union> (\<Union>i<30. P i)"

definition handed_out :: "nat \<Rightarrow> nat \<Rightarrow> mem_sys \<Rightarrow> nat set \<Rightarrow> nat set \<Rightarrow> bool" where
  "handed_out b sz m' live X \<longleftrightarrow> b \<notin> live \<and>
     (\<exists>P vg i. mem_ok m' P vg (insert b live) \<and> pages_of m' P = X \<and> i < 30 \<and> page_base b \<in> P i \<and> sz \<le> sizes ! i)"

lemma no_frontier:
  assumes "class_ok bs [b] h hs vg live P" and "0 < bs" and "page_base b \<in> P \<Longrightarrow> vg (page_base b) = 0"
  shows "\<forall>p\<in>P. vg p = 0"
proof
  fix p assume p: "p \<in> P"
  then have ok: "page_ok bs [b] h hs vg live p" using assms(1) by (simp add: class_ok_def)
  show "vg p = 0"
  proof (rule ccontr)
    assume "vg p \<noteq> 0"
    then have "b = slot bs p (nslots bs - vg p - 1)" "nslots bs - vg p - 1 < nslots bs" "PAGE_SIZE dvd p" using ok by (auto simp: page_ok_def)
    then have "page_base b = p" using page_base_slot [OF _ assms(2)] by blast
    with assms(3) p \<open>vg p \<noteq> 0\<close> show False by simp
  qed
qed

lemma kalloc_from_list:
  assumes ok: "mem_ok m P vg live" and sz: "sz \<le> 2040" and i: "get_allocator_index sz m = i"
    and ne: "free_list (allocators m ! i) \<noteq> []"
  shows "\<exists>b m'. kalloc sz m = Ok (Some b, m') \<and> handed_out b sz m' live (pages_of m P) \<and> free_pages m' = free_pages m"
proof -
  have so: "sizes_ok m" and nl: "\<not> mem_lock m" "\<not> page_lock m" using ok by (simp_all add: mem_ok_def)
  have i30: "i < 30" "sz \<le> sizes ! i" using index_fits [OF so sz] i by metis+
  let ?a = "allocators m ! i" and ?bs = "sizes ! i"
  have bs: "0 < ?bs" "asize ?a = ?bs" using sizes_bounds [OF i30(1)] so i30(1) by (auto simp: sizes_ok_def NUM_ALLOCATORS_def)
  have len: "length (allocators m) = 31" using so by (simp add: sizes_ok_def NUM_ALLOCATORS_def)
  have cls: "class_ok ?bs (free_list ?a) (ahead ?a) (headers m) vg live (P i)" using ok i30(1) by (simp add: mem_ok_def)
  have i': "get_allocator_index sz (m\<lparr>mem_lock := True\<rparr>) = i"
    using i index_cong [of "m\<lparr>mem_lock := True\<rparr>" m sz] by simp
  have unch: "unlock_mem (add_count q d (set_list i l (m\<lparr>mem_lock := True\<rparr>))) = (add_count q d (set_list i l m))" for q d l
    using nl(1) by (simp add: unlock_mem_def add_count_def set_list_def)
  have fin: "handed_out b sz (add_count (page_base b) (- 1) (set_list i l m)) live (pages_of m P)"
    if b: "b \<in> set (free_list ?a)" and c: "class_ok ?bs l (ahead ?a) (dec_header (page_base b) (headers m)) vg' (insert b live) (P i)"
      and v: "\<forall>p. p \<noteq> page_base b \<longrightarrow> vg' p = vg p" for b l vg'
  proof -
    have bP: "page_base b \<in> P i" "b \<notin> live" using cls b by (auto simp: class_ok_def)
    have "mem_ok (add_count (page_base b) (- 1) (set_list i l m)) (P(i := P i)) vg' (insert b live)"
    proof (rule mem_ok_step [OF ok i30(1) c])
      show "here (insert b live) p = here live p \<and> dec_header (page_base b) (headers m) p = headers m p \<and> vg' p = vg p"
        if "p \<notin> P i \<union> P i" for p
        using that bP(1) v by (auto simp: here_insert header_other)
      show "allocators (add_count (page_base b) (- 1) (set_list i l m)) =
          (allocators m)[i := \<lparr>asize = ?bs, free_list = l, ahead = ahead ?a\<rparr>]"
        using bs(2) by (cases ?a) (simp add: set_list_def)
    qed (use ok i30(1) bP nl in \<open>auto simp: mem_ok_def headers_add_count\<close>)
    then show ?thesis using bP i30 unfolding handed_out_def by (auto simp: fun_upd_triv pages_of_def)
  qed
  show ?thesis
  proof (cases "free_list ?a")
    case (Cons a r)
    show ?thesis
    proof (cases r)
      case (Cons b r')
      with \<open>free_list ?a = a # r\<close> have l: "free_list ?a = a # b # r'" by simp
      have "kalloc sz m = Ok (Some b, add_count (page_base b) (- 1) (set_list i (a # r') m))"
        using nl l i' unch by (simp add: kalloc_def lock_mem_def Let_def)
      moreover have "handed_out b sz (add_count (page_base b) (- 1) (set_list i (a # r') m)) live (pages_of m P)"
      proof (rule fin)
        show "class_ok ?bs (a # r') (ahead ?a) (dec_header (page_base b) (headers m)) vg (insert b live) (P i)"
          by (rule take_second) (use cls l in simp)
      qed (simp_all add: l)
      ultimately show ?thesis by simp
    next
      case Nil
      with \<open>free_list ?a = a # r\<close> have l: "free_list ?a = [a]" by simp
      let ?p = "page_base a" and ?c = "block_count (headers m (page_base a))"
      have c1: "class_ok ?bs [a] (ahead ?a) (headers m) vg live (P i)" using cls l by simp
      have p: "page_ok ?bs [a] (ahead ?a) (headers m) vg live ?p" "?p \<in> P i" using c1 by (simp_all add: class_ok_def)
      have cnt: "unat ?c = 1 + vg ?p" using p(1) by (simp add: page_ok_def here_insert)
      have gt: "?c > 1 \<longleftrightarrow> 0 < vg ?p" using cnt by (simp add: word_less_nat_alt)
      let ?ext = "ahead ?a \<and> ?c > 1 \<and> (a + ?bs) mod PAGE_SIZE + ?bs \<le> PAGE_SIZE"
      have run: "kalloc sz m = Ok (Some a, add_count ?p (- 1) (set_list i (if ?ext then [a + ?bs] else []) m))"
        using nl l i' unch bs(2) by (simp add: kalloc_def lock_mem_def Let_def)
      have ext: "?ext \<longleftrightarrow> 0 < vg ?p"
      proof
        assume v: "0 < vg ?p"
        then have f: "ahead ?a" "a = slot ?bs ?p (nslots ?bs - vg ?p - 1)" "vg ?p < nslots ?bs" "PAGE_SIZE dvd ?p"
          using p(1) by (auto simp: page_ok_def)
        obtain k where k: "nslots ?bs - vg ?p = Suc k" using f(3) by (metis Suc_diff_Suc)
        then have "Suc k < nslots ?bs" using v by simp
        then have e: "8 + Suc k * ?bs + ?bs \<le> PAGE_SIZE" by (rule slot_end)
        have "a + ?bs = ?p + (8 + Suc k * ?bs)" using f(2) k by (simp add: slot_def)
        then have "(a + ?bs) mod PAGE_SIZE = (8 + Suc k * ?bs) mod PAGE_SIZE"
          using f(4) by (metis add.left_neutral dvd_imp_mod_0 mod_add_left_eq)
        also have "\<dots> = 8 + Suc k * ?bs" using e bs(1) by simp
        finally show ?ext using f(1) gt v e by simp
      qed (use gt in blast)
      have "handed_out a sz (add_count ?p (- 1) (set_list i (if ?ext then [a + ?bs] else []) m)) live (pages_of m P)"
      proof (cases "0 < vg ?p")
        case True
        have "handed_out a sz (add_count ?p (- 1) (set_list i [a + ?bs] m)) live (pages_of m P)"
          by (rule fin [OF _ take_frontier [OF c1 bs(1) True]]) (simp_all add: l)
        then show ?thesis using True ext by simp
      next
        case False
        have "handed_out a sz (add_count ?p (- 1) (set_list i [] m)) live (pages_of m P)"
          by (rule fin [OF _ take_last [OF c1 no_frontier [OF c1 bs(1)]]]) (use False l in simp_all)
        moreover have "\<not> ?ext" unfolding ext by (rule False)
        ultimately show ?thesis by (simp only: if_False)
      qed
      with run show ?thesis by simp
    qed
  qed (use ne in simp)
qed

lemma align_header: "PAGE_SIZE dvd q \<Longrightarrow> q + 4 + 7 - (q + 4 + 7) mod 8 = q + 8"
proof -
  assume "PAGE_SIZE dvd q"
  then have "8 dvd q" by (auto simp: PAGE_SIZE_def elim: dvd_trans [rotated])
  then obtain k where "q = 8 * k" by auto
  moreover have "(8 * k + 11) mod 8 = (3::nat)" by presburger
  ultimately show ?thesis by simp
qed

lemma kalloc_from_page:
  assumes ok: "mem_ok m P vg live" and sz: "sz \<le> 2040" and i: "get_allocator_index sz m = i"
    and l: "free_list (allocators m ! i) = []" and fp: "free_pages m = q # ps"
  shows "\<exists>b m'. kalloc sz m = Ok (Some b, m') \<and> handed_out b sz m' live (pages_of m P) \<and> free_pages m' = ps"
proof -
  have so: "sizes_ok m" and nl: "\<not> mem_lock m" "\<not> page_lock m" using ok by (simp_all add: mem_ok_def)
  have i30: "i < 30" "sz \<le> sizes ! i" using index_fits [OF so sz] i by metis+
  let ?a = "allocators m ! i" and ?bs = "sizes ! i"
  have bs: "0 < ?bs" "asize ?a = ?bs" using sizes_bounds [OF i30(1)] so i30(1) by (auto simp: sizes_ok_def NUM_ALLOCATORS_def)
  have "class_ok ?bs (free_list ?a) (ahead ?a) (headers m) vg live (P i)" using ok i30(1) by (simp add: mem_ok_def)
  then have cls: "class_ok ?bs [] (ahead ?a) (headers m) vg live (P i)" by (simp only: l)
  have q: "PAGE_SIZE dvd q" "\<forall>j<30. q \<notin> P j" "q \<notin> set ps" "distinct ps" using ok fp by (auto simp: mem_ok_def)
  have lq: "here live q = {}" using ok q(2) by (auto simp: mem_ok_def here_def)
  let ?b = "slot ?bs q 0" and ?N = "nslots ?bs"
  let ?h = "\<lparr>block_size = of_nat ?bs, block_count = of_nat (?N - 1)\<rparr>"
  have b8: "?b = q + 8" by (simp add: slot_def)
  have pb: "page_base ?b = q" using page_base_slot [OF q(1) bs(1)] nslots_bounds [OF i30(1)] by simp
  let ?m1 = "m\<lparr>kalloc_page_cnt := kalloc_page_cnt m + 1, page_cnt := (page_cnt m)(K2P q div PAGE_SIZE := 0), free_pages := ps,
      headers := (headers m)(q := ?h)\<rparr>"
  let ?m' = "set_head i True (set_list i [?b + ?bs] ?m1)"
  have i': "get_allocator_index sz (m\<lparr>mem_lock := True\<rparr>) = i"
    using i index_cong [of "m\<lparr>mem_lock := True\<rparr>" m sz] by simp
  have b8: "?b = q + 8" by (simp add: slot_def)
  have run: "kalloc sz m = Ok (Some ?b, ?m')"
    using nl l i' fp bs(2) align_header [OF q(1)] nslots_code [OF i30(1)]
    by (simp add: kalloc_def lock_mem_def Let_def kalloc_page_def lock_pages_def unlock_pages_def unlock_mem_def set_list_def
        set_head_def increment_rc_def init_rc_def b8)
  have c: "class_ok ?bs [?b + ?bs] True ((headers m)(q := ?h)) (vg(q := ?N - 2)) (insert ?b live) (insert q (P i))"
    by (rule take_new_page [OF cls]) (use q(1,2) lq i30(1) bs(1) nslots_bounds [OF i30(1)] in simp_all)
  have "mem_ok ?m' (P(i := insert q (P i))) (vg(q := ?N - 2)) (insert ?b live)"
  proof (rule mem_ok_step [OF ok i30(1) c])
    show "here (insert ?b live) p = here live p \<and> ((headers m)(q := ?h)) p = headers m p \<and> (vg(q := ?N - 2)) p = vg p"
      if "p \<notin> insert q (P i) \<union> P i" for p
      using that pb by (auto simp: here_insert)
    show "allocators ?m' = (allocators m)[i := \<lparr>asize = ?bs, free_list = [?b + ?bs], ahead = True\<rparr>]"
      using bs(2) i30(1) so by (cases ?a) (simp add: set_list_def set_head_def sizes_ok_def NUM_ALLOCATORS_def)
    show "\<forall>j<30. j \<noteq> i \<longrightarrow> insert q (P i) \<inter> P j = {}" using ok i30(1) q(2) by (auto simp: mem_ok_def)
    show "insert q (P i) \<inter> set ps = {}" using ok i30(1) fp q(3) by (auto simp: mem_ok_def)
    show "\<forall>j<30. j \<noteq> i \<longrightarrow> P j \<inter> set ps = {}" using ok fp by (auto simp: mem_ok_def)
    show "\<forall>p\<in>set ps. PAGE_SIZE dvd p" using ok fp by (auto simp: mem_ok_def)
    show "\<forall>b\<in>insert ?b live. \<exists>j<30. page_base b \<in> (P(i := insert q (P i))) j"
      using ok i30(1) pb by (auto simp: mem_ok_def)
    show "\<forall>b\<in>insert ?b live - live. page_base b \<in> P i \<union> insert q (P i)" using pb by auto
  qed (use q(4) nl in simp_all)
  moreover have "?b \<notin> live" using lq pb by (auto simp: here_def)
  moreover have "page_base ?b \<in> (P(i := insert q (P i))) i" using pb by simp
  moreover have "pages_of ?m' (P(i := insert q (P i))) = pages_of m P" using i30 fp by (auto simp: pages_of_def split: if_splits)
  ultimately have "handed_out ?b sz ?m' live (pages_of m P)" using i30 unfolding handed_out_def by blast
  with run show ?thesis by simp
qed

text \<open>When no page is left, \<^verbatim>\<open>kalloc\<close> returns \<^verbatim>\<open>NULL\<close> and the lock of the page allocator stays taken.\<close>

lemma kalloc_out_of_pages:
  assumes ok: "mem_ok m P vg live" and "free_list (allocators m ! get_allocator_index sz m) = []" and "free_pages m = []"
  shows "\<exists>m'. kalloc sz m = Ok (None, m') \<and> page_lock m' \<and> \<not> mem_lock m' \<and> kalloc_page m' = Blocked \<and> (\<forall>p. kfree_page p m' = Blocked)"
proof -
  have nl: "\<not> mem_lock m" "\<not> page_lock m" using ok by (simp_all add: mem_ok_def)
  have i': "get_allocator_index sz (m\<lparr>mem_lock := True\<rparr>) = get_allocator_index sz m" by (rule index_cong) simp
  show ?thesis using nl assms(2,3) i'
    by (simp add: kalloc_def lock_mem_def Let_def kalloc_page_def lock_pages_def unlock_mem_def kfree_page_def)
qed

lemma kfree_keeps:
  assumes ok: "mem_ok m P vg live" and b: "b \<in> live"
  shows "\<exists>m' P'. kfree (Some b) m = Ok m' \<and> mem_ok m' P' vg (live - {b}) \<and> pages_of m' P' = pages_of m P \<and> set (free_pages m) \<subseteq> set (free_pages m')"
proof -
  have so: "sizes_ok m" and nl: "\<not> mem_lock m" "\<not> page_lock m" using ok by (simp_all add: mem_ok_def)
  obtain i k where i: "i < 30" "page_base b \<in> P i" "PAGE_SIZE dvd page_base b" using live_slot [OF ok b] by metis
  let ?a = "allocators m ! i" and ?bs = "sizes ! i" and ?p = "page_base b"
  let ?l = "free_list ?a"
  let ?h = "if ?l = [] then False else ahead ?a"
  have sb: "8 \<le> ?bs" "?bs \<le> 2040" and nb: "nslots ?bs \<le> 511" using sizes_bounds [OF i(1)] nslots_bounds [OF i(1)] by simp_all
  have cls: "class_ok ?bs ?l (ahead ?a) (headers m) vg live (P i)" using ok i(1) by (simp add: mem_ok_def)
  then have ph: "block_size (headers m ?p) = of_nat ?bs" using i(2) by (auto simp: class_ok_def page_ok_def)
  have ubs: "unat (of_nat ?bs :: u16) = ?bs" using sb by (simp add: unat_of_nat take_bit_eq_mod)
  have idx: "get_allocator_index ?bs m' = i" if "allocators m' = allocators m" for m'
    using index_of_class [OF so, of i] i(1) index_cong [OF that, of ?bs] by (simp add: NUM_ALLOCATORS_def)
  let ?l1 = "put_second b ?l" and ?hs = "inc_header ?p (headers m)"
  define m1 where "m1 = add_count ?p 1 (set_list i ?l1 (set_head i ?h (m\<lparr>mem_lock := True\<rparr>)))"
  have il: "i < length (allocators m)" using so i(1) by (simp add: sizes_ok_def NUM_ALLOCATORS_def)
  have m1: "allocators m1 = (allocators m)[i := \<lparr>asize = ?bs, free_list = ?l1, ahead = ?h\<rparr>]" "headers m1 = ?hs"
    "free_pages m1 = free_pages m" "page_lock m1 = False" "mem_lock m1"
  proof -
    have "asize ?a = ?bs" using so i(1) by (simp add: sizes_ok_def NUM_ALLOCATORS_def)
    then show "allocators m1 = (allocators m)[i := \<lparr>asize = ?bs, free_list = ?l1, ahead = ?h\<rparr>]"
      using il by (cases ?a) (simp add: m1_def set_list_def set_head_def)
  qed (use nl in \<open>simp_all add: m1_def headers_add_count\<close>)
  have code_list: "(case ?l of b' # rest \<Rightarrow> set_list i (b' # b # rest) (m\<lparr>mem_lock := True\<rparr>)
      | [] \<Rightarrow> set_list i [b] (set_head i False (m\<lparr>mem_lock := True\<rparr>))) = set_list i ?l1 (set_head i ?h (m\<lparr>mem_lock := True\<rparr>))"
    using il by (cases ?l) (simp_all add: put_second_def set_list_def set_head_def)
  have run: "kfree (Some b) m = (if unat (block_count (?hs ?p)) = nslots ?bs
      then andthen (kfree_page ?p (set_list i (filter (\<lambda>b. page_base b \<noteq> ?p) ?l1) m1)) (\<lambda>m. Ok (unlock_mem m))
      else Ok (unlock_mem m1))"
    using nl ph ubs sb idx code_list m1(1,2) il nslots_code [OF i(1)]
    by (simp add: kfree_def lock_mem_def Let_def m1_def [symmetric] del: not_less)
  have c1: "class_ok ?bs ?l1 ?h ?hs vg (live - {b}) (P i)"
    by (rule give_back [OF cls b i(2) nb]) (use sb in simp_all)
  have oth: "here (live - {b}) p = here live p \<and> ?hs p = headers m p \<and> vg p = vg p" if "p \<notin> P i" for p
  proof -
    have "p \<noteq> ?p" using that i(2) by auto
    then show ?thesis by (auto simp: header_other here_def)
  qed
  show ?thesis
  proof (cases "unat (block_count (?hs ?p)) = nslots ?bs")
    case False
    have "mem_ok (unlock_mem m1) (P(i := P i)) vg (live - {b})"
      by (rule mem_ok_step [OF ok i(1) c1]) (use oth ok m1 i(1) in \<open>auto simp: mem_ok_def unlock_mem_def\<close>)
    with run False m1(3) show ?thesis by (auto simp: fun_upd_triv unlock_mem_def pages_of_def)
  next
    case True
    let ?l2 = "filter (\<lambda>b. page_base b \<noteq> ?p) ?l1"
    have pok: "page_ok ?bs ?l1 ?h ?hs vg (live - {b}) ?p" "set ?l1 \<inter> (live - {b}) = {}" using c1 i(2) by (simp_all only: class_ok_def)
    have none: "here (live - {b}) ?p = {}" by (rule full_count_not_live [OF pok]) (use sb True in simp_all)
    have c2: "class_ok ?bs ?l2 ?h ?hs vg (live - {b}) (P i - {?p})" by (rule drop_page [OF c1]) (use sb in simp)
    let ?m2 = "set_list i ?l2 m1"
    have kp: "kfree_page ?p ?m2 = Ok (?m2\<lparr>free_pages := ?p # free_pages m, kalloc_page_cnt := kalloc_page_cnt m1 - 1\<rparr>)"
      using m1(3,4) by (simp add: kfree_page_def lock_pages_def unlock_pages_def decrement_rc_def set_list_def Let_def)
    let ?m3 = "unlock_mem (?m2\<lparr>free_pages := ?p # free_pages m, kalloc_page_cnt := kalloc_page_cnt m1 - 1\<rparr>)"
    have "mem_ok ?m3 (P(i := P i - {?p})) vg (live - {b})"
    proof (rule mem_ok_step [OF ok i(1) c2])
      show "here (live - {b}) p = here live p \<and> ?hs p = headers m p \<and> vg p = vg p" if "p \<notin> P i - {?p} \<union> P i" for p
        using oth [of p] that by blast
      show "allocators ?m3 = (allocators m)[i := \<lparr>asize = ?bs, free_list = ?l2, ahead = ?h\<rparr>]"
        using m1(1) il by (simp add: set_list_def unlock_mem_def)
      show "\<forall>j<30. j \<noteq> i \<longrightarrow> (P i - {?p}) \<inter> P j = {}" using ok i(1) by (auto simp: mem_ok_def)
      show "(P i - {?p}) \<inter> set (?p # free_pages m) = {}" using ok i(1) by (auto simp: mem_ok_def)
      show "distinct (?p # free_pages m)" using ok i(1,2) by (auto simp: mem_ok_def)
      show "\<forall>p\<in>set (?p # free_pages m). PAGE_SIZE dvd p" using ok i(3) by (auto simp: mem_ok_def)
      show "\<forall>j<30. j \<noteq> i \<longrightarrow> P j \<inter> set (?p # free_pages m) = {}" using ok i(1,2) by (auto simp: mem_ok_def)
      show "\<forall>b'\<in>live - {b}. \<exists>j<30. page_base b' \<in> (P(i := P i - {?p})) j"
      proof
        fix b' assume b': "b' \<in> live - {b}"
        then obtain j where j: "j < 30" "page_base b' \<in> P j" using ok by (auto simp: mem_ok_def)
        moreover have "page_base b' \<noteq> ?p" using none b' by (auto simp: here_def)
        ultimately show "\<exists>j<30. page_base b' \<in> (P(i := P i - {?p})) j" by (intro exI [of _ j]) auto
      qed
    qed (use m1 in \<open>auto simp: unlock_mem_def\<close>)
    moreover have "pages_of ?m3 (P(i := P i - {?p})) = pages_of m P" using i(1,2) by (auto simp: pages_of_def unlock_mem_def split: if_splits)
    moreover have "set (free_pages m) \<subseteq> set (free_pages ?m3)" by (auto simp: unlock_mem_def)
    ultimately show ?thesis using run True kp by (auto simp: unlock_mem_def)
  qed
qed

section \<open>The allocator as its clients see it\<close>

text \<open>The bytes of a block that is in use, by the header of its page.\<close>

definition extent :: "mem_sys \<Rightarrow> nat \<Rightarrow> nat set" where
  "extent m b = block_range b (unat (block_size (headers m (page_base b))))"

lemma extent_class:
  assumes "mem_ok m P vg live" and "i < 30" and "page_base b \<in> P i"
  shows "extent m b = block_range b (sizes ! i)"
proof -
  have "block_size (headers m (page_base b)) = of_nat (sizes ! i)"
    using assms by (simp add: mem_ok_def class_ok_def page_ok_def)
  moreover have "sizes ! i < 2 ^ 16" using sizes_bounds [OF assms(2)] by simp
  ultimately show ?thesis by (simp add: extent_def unat_of_nat take_bit_eq_mod)
qed

lemma extents_disjoint:
  assumes ok: "mem_ok m P vg live" and b: "b \<in> live" "c \<in> live" "b \<noteq> c"
  shows "extent m b \<inter> extent m c = {}"
proof -
  obtain i where "i < 30" "page_base b \<in> P i" using ok b(1) by (auto simp: mem_ok_def)
  moreover obtain j where "j < 30" "page_base c \<in> P j" using ok b(2) by (auto simp: mem_ok_def)
  ultimately show ?thesis using live_disjoint [OF ok b] extent_class [OF ok] by simp
qed

text \<open>
  \<open>mem_pages m live X\<close>: the allocator is consistent, has given out exactly the blocks \<open>live\<close> and
  manages the pages \<open>X\<close>; the other pages belong to those who called \<^verbatim>\<open>kalloc_page\<close>.
\<close>

definition mem_pages :: "mem_sys \<Rightarrow> nat set \<Rightarrow> nat set \<Rightarrow> bool" where
  "mem_pages m live X \<longleftrightarrow> (\<exists>P vg. mem_ok m P vg live \<and> pages_of m P = X)"

definition mem_inv :: "mem_sys \<Rightarrow> nat set \<Rightarrow> bool" where
  "mem_inv m live \<longleftrightarrow> (\<exists>P vg. mem_ok m P vg live)"

lemma mem_pages_inv: "mem_pages m live X \<Longrightarrow> mem_inv m live"
  by (auto simp: mem_pages_def mem_inv_def)

lemma mem_inv_pages: "mem_inv m live \<Longrightarrow> \<exists>X. mem_pages m live X"
  by (auto simp: mem_pages_def mem_inv_def)

lemma mem_pages_distinct: "mem_pages m live X \<Longrightarrow> distinct (free_pages m)"
  by (auto simp: mem_pages_def mem_ok_def)

lemma kalloc_pages:
  assumes inv: "mem_pages m live X" and sz: "sz \<le> 2040"
  shows "\<exists>r m'. kalloc sz m = Ok (r, m') \<and>
    (case r of
       None \<Rightarrow> free_pages m = []
     | Some b \<Rightarrow> b \<notin> live \<and> page_base b \<in> X \<and> mem_pages m' (insert b live) X \<and> block_range b sz \<subseteq> extent m' b \<and>
         (\<forall>c\<in>live. extent m' c \<inter> extent m' b = {}) \<and> length (free_pages m) \<le> length (free_pages m') + 1)"
proof -
  obtain P vg where ok: "mem_ok m P vg live" and X: "pages_of m P = X" using inv by (auto simp: mem_pages_def)
  have got: "b \<notin> live \<and> page_base b \<in> X \<and> mem_pages m' (insert b live) X \<and> block_range b sz \<subseteq> extent m' b \<and>
      (\<forall>c\<in>live. extent m' c \<inter> extent m' b = {})"
    if out: "handed_out b sz m' live (pages_of m P)" for b m'
  proof -
    obtain P' vg' i where h: "b \<notin> live" "mem_ok m' P' vg' (insert b live)" "i < 30" "page_base b \<in> P' i" "sz \<le> sizes ! i"
      "pages_of m' P' = X" using out X unfolding handed_out_def by blast
    then have "page_base b \<in> X" by (auto simp: pages_of_def)
    with h show ?thesis using extents_disjoint [OF h(2)] extent_class [OF h(2-4)] by (auto simp: mem_pages_def block_range_def)
  qed
  show ?thesis
  proof (cases "free_list (allocators m ! get_allocator_index sz m) = []")
    case False
    then show ?thesis using kalloc_from_list [OF ok sz refl] got by fastforce
  next
    case True
    show ?thesis
    proof (cases "free_pages m")
      case Nil
      then show ?thesis using kalloc_out_of_pages [OF ok True] by auto
    next
      case (Cons q ps)
      then show ?thesis using kalloc_from_page [OF ok sz refl True Cons] got by fastforce
    qed
  qed
qed

lemma kalloc_spec:
  assumes "mem_inv m live" and "sz \<le> 2040"
  shows "\<exists>r m'. kalloc sz m = Ok (r, m') \<and>
    (case r of
       None \<Rightarrow> free_pages m = []
     | Some b \<Rightarrow> b \<notin> live \<and> mem_inv m' (insert b live) \<and> block_range b sz \<subseteq> extent m' b \<and>
         (\<forall>c\<in>live. extent m' c \<inter> extent m' b = {}))"
proof -
  obtain X where "mem_pages m live X" using mem_inv_pages [OF assms(1)] ..
  from kalloc_pages [OF this assms(2)] obtain r m' where k: "kalloc sz m = Ok (r, m')"
    "case r of None \<Rightarrow> free_pages m = []
     | Some b \<Rightarrow> b \<notin> live \<and> page_base b \<in> X \<and> mem_pages m' (insert b live) X \<and> block_range b sz \<subseteq> extent m' b \<and>
         (\<forall>c\<in>live. extent m' c \<inter> extent m' b = {}) \<and> length (free_pages m) \<le> length (free_pages m') + 1" by blast
  then show ?thesis using mem_pages_inv by (cases r) auto
qed

lemma kfree_pages:
  assumes "mem_pages m live X" and "b \<in> live"
  shows "\<exists>m'. kfree (Some b) m = Ok m' \<and> mem_pages m' (live - {b}) X \<and> set (free_pages m) \<subseteq> set (free_pages m')"
proof -
  obtain P vg where "mem_ok m P vg live" "pages_of m P = X" using assms(1) by (auto simp: mem_pages_def)
  with kfree_keeps [OF this(1) assms(2)] show ?thesis unfolding mem_pages_def by metis
qed

lemma kfree_pages_length:
  assumes "mem_pages m live X" and "mem_pages m' live' X'" and "set (free_pages m) \<subseteq> set (free_pages m')"
  shows "length (free_pages m) \<le> length (free_pages m')"
  using assms(3) mem_pages_distinct [OF assms(1)] mem_pages_distinct [OF assms(2)]
  by (metis card_mono distinct_card finite_set)

lemma kfree_spec: "mem_inv m live \<Longrightarrow> b \<in> live \<Longrightarrow> \<exists>m'. kfree (Some b) m = Ok m' \<and> mem_inv m' (live - {b})"
  using kfree_keeps unfolding mem_inv_def by metis

text \<open>A page that is handed out leaves the allocator, and comes back with \<^verbatim>\<open>kfree_page\<close>.\<close>

lemma kalloc_page_pages:
  assumes "mem_pages m live X" and "free_pages m = p # ps"
  shows "\<exists>m'. kalloc_page m = Ok (Some p, m') \<and> p \<in> X \<and> PAGE_SIZE dvd p \<and> mem_pages m' live (X - {p}) \<and> free_pages m' = ps"
proof -
  obtain P vg where ok: "mem_ok m P vg live" "pages_of m P = X" using assms(1) by (auto simp: mem_pages_def)
  have nl: "\<not> page_lock m" and p: "PAGE_SIZE dvd p" "p \<notin> set ps" "\<forall>j<30. p \<notin> P j" using ok(1) assms(2) by (auto simp: mem_ok_def)
  let ?m = "m\<lparr>kalloc_page_cnt := kalloc_page_cnt m + 1, free_pages := ps, page_cnt := (page_cnt m)(K2P p div PAGE_SIZE := 0)\<rparr>"
  have "kalloc_page m = Ok (Some p, ?m)"
    using nl assms(2) by (simp add: kalloc_page_def lock_pages_def unlock_pages_def Let_def increment_rc_def init_rc_def)
  moreover have "mem_ok ?m P vg live" using ok(1) assms(2) by (auto simp: mem_ok_def sizes_ok_def)
  moreover have "pages_of ?m P = X - {p}" using ok(2) assms(2) p(2,3) by (auto simp: pages_of_def)
  moreover have "p \<in> X" using ok(2) assms(2) by (auto simp: pages_of_def)
  ultimately show ?thesis using p(1) by (auto simp: mem_pages_def)
qed

lemma kfree_page_pages:
  assumes "mem_pages m live X" and "PAGE_SIZE dvd p" and "p \<notin> X"
  shows "\<exists>m'. kfree_page p m = Ok m' \<and> mem_pages m' live (insert p X) \<and> free_pages m' = p # free_pages m"
proof -
  obtain P vg where ok: "mem_ok m P vg live" "pages_of m P = X" using assms(1) by (auto simp: mem_pages_def)
  have nl: "\<not> page_lock m" and p: "p \<notin> set (free_pages m)" "\<forall>j<30. p \<notin> P j" using ok assms(3) by (auto simp: mem_ok_def pages_of_def)
  let ?m = "m\<lparr>free_pages := p # free_pages m, kalloc_page_cnt := kalloc_page_cnt m - 1\<rparr>"
  have "kfree_page p m = Ok ?m"
    using nl by (simp add: kfree_page_def lock_pages_def unlock_pages_def Let_def decrement_rc_def)
  moreover have "mem_ok ?m P vg live" using ok(1) p assms(2) by (auto simp: mem_ok_def sizes_ok_def)
  moreover have "pages_of ?m P = insert p X" using ok(2) by (auto simp: pages_of_def)
  ultimately show ?thesis by (auto simp: mem_pages_def)
qed

section \<open>Start\<close>

lemma count_kernel_pages_fields:
  "allocators (count_kernel_pages p l m) = allocators m \<and> mem_lock (count_kernel_pages p l m) = mem_lock m \<and>
   page_lock (count_kernel_pages p l m) = page_lock m \<and> free_pages (count_kernel_pages p l m) = free_pages m"
  by (induction p l m rule: count_kernel_pages.induct)
    (subst (1 2 3 4) count_kernel_pages.simps, simp add: inc_page_cnt_def Let_def)

lemma add_free_pages_fields:
  assumes "PAGE_SIZE dvd c" and "distinct (free_pages m)" and "\<forall>p\<in>set (free_pages m). PAGE_SIZE dvd p \<and> p < c"
  shows "allocators (add_free_pages c l m) = allocators m \<and> mem_lock (add_free_pages c l m) = mem_lock m \<and>
   page_lock (add_free_pages c l m) = page_lock m \<and> distinct (free_pages (add_free_pages c l m)) \<and>
   (\<forall>p\<in>set (free_pages (add_free_pages c l m)). PAGE_SIZE dvd p)"
  using assms
proof (induction c l m rule: add_free_pages.induct)
  case (1 c l m)
  show ?case
  proof (cases "c + PAGE_SIZE \<le> l")
    case True
    let ?m = "m\<lparr>free_pages := c # free_pages m, page_counter := page_counter m + 1\<rparr>"
    have "\<forall>p\<in>set (free_pages ?m). PAGE_SIZE dvd p \<and> p < c + PAGE_SIZE"
      using "1.prems" by (auto simp: PAGE_SIZE_def)
    moreover have "distinct (free_pages ?m)" using "1.prems" by auto
    moreover have "PAGE_SIZE dvd c + PAGE_SIZE" using "1.prems" by simp
    ultimately show ?thesis using "1.IH" [OF True] True by (subst (1 2 3 4 5) add_free_pages.simps) simp
  next
    case False
    then show ?thesis using "1.prems" by (subst (1 2 3 4 5) add_free_pages.simps) simp
  qed
qed

lemma page_base_dvd: "PAGE_SIZE dvd page_base a"
  unfolding page_base_def by (rule dvd_minus_mod)

lemma kinit_pages: "mem_pages (kinit kend phystop m) {} (set (free_pages (kinit kend phystop m)))"
proof -
  let ?m0 = "(init_allocators (m\<lparr>kalloc_page_cnt := init_rc, mem_lock := init_spinlock, page_lock := init_spinlock,
                free_lock := init_spinlock\<rparr>))\<lparr>free_pages := []\<rparr>"
  let ?m1 = "count_kernel_pages (P2K 0) (page_base kend + PAGE_SIZE) ?m0"
  have k: "kinit kend phystop m = add_free_pages (page_base (kend + PAGE_SIZE - 1)) (P2K phystop) ?m1"
    by (simp only: kinit_def Let_def)
  note f = count_kernel_pages_fields [of "P2K 0" "page_base kend + PAGE_SIZE" ?m0]
  note g = add_free_pages_fields [of "page_base (kend + PAGE_SIZE - 1)" ?m1 "P2K phystop", OF page_base_dvd]
  have "class_ok (sizes ! i) (free_list (allocators ?m0 ! i)) (ahead (allocators ?m0 ! i)) hs vg {} {}" if "i < 30" for i hs vg
    using that by (simp add: class_ok_def init_allocators_def NUM_ALLOCATORS_def)
  moreover have "sizes_ok ?m0" by (simp add: sizes_ok_def init_allocators_def)
  ultimately have "mem_ok (kinit kend phystop m) (\<lambda>_. {}) (\<lambda>_. 0) {}"
    unfolding k using f g by (simp add: mem_ok_def sizes_ok_def init_allocators_def init_spinlock_def)
  moreover have "pages_of (kinit kend phystop m) (\<lambda>_. {}) = set (free_pages (kinit kend phystop m))" by (simp add: pages_of_def)
  ultimately show ?thesis unfolding mem_pages_def by blast
qed

lemma kinit_inv: "mem_inv (kinit kend phystop m) {}"
  by (rule mem_pages_inv [OF kinit_pages])

section \<open>Runs\<close>

text \<open>\<open>mem_run m live\<close>: some sequence of allocations and releases after \<^verbatim>\<open>kinit\<close> has led to \<open>m\<close>, where the blocks \<open>live\<close> are in use.\<close>

inductive mem_run :: "mem_sys \<Rightarrow> nat set \<Rightarrow> bool" where
  start: "mem_run (kinit kend phystop m) {}"
| alloc: "mem_run m live \<Longrightarrow> sz \<le> 2040 \<Longrightarrow> kalloc sz m = Ok (Some b, m') \<Longrightarrow> mem_run m' (insert b live)"
| free: "mem_run m live \<Longrightarrow> b \<in> live \<Longrightarrow> kfree (Some b) m = Ok m' \<Longrightarrow> mem_run m' (live - {b})"

lemma mem_run_inv: "mem_run m live \<Longrightarrow> mem_inv m live"
proof (induction rule: mem_run.induct)
  case start
  show ?case by (rule kinit_inv)
next
  case (alloc m live sz b m')
  then show ?case using kalloc_spec [OF alloc.IH alloc.hyps(2)] by auto
next
  case (free m live b m')
  then show ?case using kfree_spec [OF free.IH free.hyps(2)] by auto
qed

lemma mem_inv_extents: "mem_inv m live \<Longrightarrow> b \<in> live \<Longrightarrow> c \<in> live \<Longrightarrow> b \<noteq> c \<Longrightarrow> extent m b \<inter> extent m c = {}"
  unfolding mem_inv_def using extents_disjoint by blast

section \<open>The search for a size class\<close>

lemma index_loop_bound: "index < NUM_ALLOCATORS \<Longrightarrow> index_loop k index sz m < NUM_ALLOCATORS"
  by (induction k arbitrary: index) auto

lemma index_loop_stops: "NUM_ALLOCATORS \<le> k + index \<Longrightarrow> index < NUM_ALLOCATORS \<Longrightarrow> index_loop (k + j) index sz m = index_loop k index sz m"
proof (induction k arbitrary: index)
  case (Suc k)
  then show ?case by (auto simp: NUM_ALLOCATORS_def)
qed simp

end
