(* ===== verification/FileSpec.thy ===== *)
theory FileSpec
  imports File MemSpec
begin

text \<open>
  What the file table promises: the counter of a file is the number of its holders, a new file
  has none, and the two files of a new pipe are the two ends of one queue of bytes.
\<close>

section \<open>Reference counts\<close>

lemma find_file_Some:
  "find_file i files = Some j \<Longrightarrow> i \<le> j \<and> j < NFILE \<and> fref (files j) = 0 \<and> (\<forall>k. i \<le> k \<and> k < j \<longrightarrow> fref (files k) \<noteq> 0)"
proof (induction i files rule: find_file.induct)
  case (1 i files)
  show ?case
  proof (cases "i < NFILE \<and> fref (files i) \<noteq> 0")
    case True
    then have "find_file (i + 1) files = Some j" using "1.prems" by (subst (asm) find_file.simps) simp
    with True "1.IH" show ?thesis by (metis Suc_eq_plus1 Suc_leD le_antisym not_less_eq_eq)
  qed (use "1.prems" in \<open>subst (asm) find_file.simps, auto split: if_splits\<close>)
qed

lemma find_file_None: "find_file i files = None \<Longrightarrow> i \<le> k \<Longrightarrow> k < NFILE \<Longrightarrow> fref (files k) \<noteq> 0"
proof (induction i files rule: find_file.induct)
  case (1 i files)
  have i: "i < NFILE" using "1.prems" by simp
  then have "fref (files i) \<noteq> 0" "find_file (i + 1) files = None"
    using "1.prems"(1) by (subst (asm) find_file.simps; simp split: if_splits)+
  then show ?case using "1.IH" i "1.prems"(2,3) by (cases "k = i") auto
qed

text \<open>\<open>H f\<close> is the number of holders of file \<open>f\<close>.\<close>

definition files_ok :: "(nat \<Rightarrow> nat) \<Rightarrow> 'c fsys \<Rightarrow> bool" where
  "files_ok H s \<longleftrightarrow> (\<forall>f<NFILE. fref (ffiles s f) = int (H f)) \<and> \<not> ftlock s"

lemma ftable_locks [simp]:
  "ffiles (unlock_ftable s) = ffiles s" "ftlock (unlock_ftable s) = False" "fpipes (unlock_ftable s) = fpipes s"
  "fis (unlock_ftable s) = fis s" "fmem (unlock_ftable s) = fmem s" "cur_tid (unlock_ftable s) = cur_tid s"
  by (simp_all add: unlock_ftable_def release_spinlock_def)

lemma lock_ftable_eq: "lock_ftable s = (if ftlock s then Blocked else Ok (s\<lparr>ftlock := True\<rparr>))"
  by (simp add: lock_ftable_def)

lemma upd_file_simps [simp]:
  "ffiles (upd_file f g s) = (ffiles s)(f := g (ffiles s f))" "ftlock (upd_file f g s) = ftlock s"
  "fpipes (upd_file f g s) = fpipes s" "fis (upd_file f g s) = fis s" "fmem (upd_file f g s) = fmem s"
  "cur_tid (upd_file f g s) = cur_tid s"
  by (simp_all add: upd_file_def)

lemma file_alloc_spec:
  assumes "files_ok H s"
  shows "\<exists>r s'. file_alloc s = Ok (r, s') \<and>
    (case r of
       Some f \<Rightarrow> f < NFILE \<and> H f = 0 \<and> (\<forall>g<f. 0 < H g) \<and> files_ok (H(f := 1)) s' \<and>
         ffiles s' = (ffiles s)(f := (ffiles s f)\<lparr>fref := 1\<rparr>)
     | None \<Rightarrow> (\<forall>f<NFILE. 0 < H f) \<and> files_ok H s') \<and>
    fpipes s' = fpipes s \<and> fis s' = fis s \<and> fmem s' = fmem s \<and> cur_tid s' = cur_tid s"
proof (cases "find_file 0 (ffiles s)")
  case None
  have pos: "0 < H f" if "f < NFILE" for f
    using find_file_None [OF None _ that] assms that by (fastforce simp: files_ok_def)
  from None assms pos show ?thesis by (auto simp: file_alloc_def lock_ftable_eq files_ok_def)
next
  case (Some f)
  note f = find_file_Some [OF Some]
  have "0 < H g" if "g < f" for g using f that assms by (fastforce simp: files_ok_def)
  with Some f assms show ?thesis by (auto simp: file_alloc_def lock_ftable_eq files_ok_def)
qed

lemma file_dup_spec:
  assumes "files_ok H s" and "f < NFILE"
  shows "\<exists>s'. file_dup f s = Ok s' \<and> files_ok (if H f = 0 then H else H(f := H f + 1)) s'"
  using assms by (auto simp: file_dup_def lock_ftable_eq files_ok_def)

lemma file_close_shared:
  assumes "files_ok H s" and "f < NFILE" and "1 < H f"
  shows "\<exists>s'. file_close bc (Some f) s = Ok s' \<and> files_ok (H(f := H f - 1)) s' \<and>
    ffiles s' = (ffiles s)(f := (ffiles s f)\<lparr>fref := fref (ffiles s f) - 1\<rparr>) \<and> fpipes s' = fpipes s \<and> fis s' = fis s \<and> fmem s' = fmem s"
  using assms by (auto simp: file_close_def lock_ftable_eq files_ok_def Let_def of_nat_diff)

lemma on_inodes_files: "on_inodes g s = Ok s' \<Longrightarrow> ffiles s' = ffiles s \<and> ftlock s' = ftlock s \<and> fpipes s' = fpipes s \<and> fmem s' = fmem s"
  by (auto simp: on_inodes_def)

lemma close_pipe_files: "close_pipe a w s = Ok s' \<Longrightarrow> ffiles s' = ffiles s \<and> ftlock s' = ftlock s \<and> fis s' = fis s"
  by (auto simp: close_pipe_def Let_def split: if_splits)

lemma file_close_keeps:
  assumes "files_ok H s" and "f < NFILE" and "0 < H f" and "file_close bc (Some f) s = Ok s'"
  shows "files_ok (H(f := H f - 1)) s'"
proof (cases "1 < H f")
  case True
  then show ?thesis using file_close_shared [OF assms(1,2) True, of bc] assms(4) by auto
next
  case False
  then have h: "H f = 1" using assms(3) by simp
  have "ffiles s' = (ffiles s)(f := zero_file) \<and> \<not> ftlock s'"
    using assms h by (auto simp: file_close_def lock_ftable_eq files_ok_def Let_def split: if_splits
        dest!: close_pipe_files on_inodes_files)
  then show ?thesis using assms(1) h by (auto simp: files_ok_def zero_file_def)
qed

text \<open>\<open>table_run s H\<close>: after some calls on the table, each file \<open>f\<close> has \<open>H f\<close> holders; the other fields of the files may change in between.\<close>

inductive table_run :: "'c block_cache \<Rightarrow> 'c fsys \<Rightarrow> (nat \<Rightarrow> nat) \<Rightarrow> bool" for bc where
  start: "\<forall>f<NFILE. ffiles s f = zero_file \<Longrightarrow> table_run bc (init_ftable s) (\<lambda>f. 0)"
| alloc: "table_run bc s H \<Longrightarrow> file_alloc s = Ok (Some f, s') \<Longrightarrow> table_run bc s' (H(f := 1))"
| dup: "table_run bc s H \<Longrightarrow> f < NFILE \<Longrightarrow> 0 < H f \<Longrightarrow> file_dup f s = Ok s' \<Longrightarrow> table_run bc s' (H(f := H f + 1))"
| close: "table_run bc s H \<Longrightarrow> f < NFILE \<Longrightarrow> 0 < H f \<Longrightarrow> file_close bc (Some f) s = Ok s' \<Longrightarrow> table_run bc s' (H(f := H f - 1))"
| other: "table_run bc s H \<Longrightarrow> \<forall>f<NFILE. fref (ffiles s' f) = fref (ffiles s f) \<Longrightarrow> ftlock s' = ftlock s \<Longrightarrow> table_run bc s' H"

lemma table_run_ok: "table_run bc s H \<Longrightarrow> files_ok H s"
proof (induction rule: table_run.induct)
  case (start s)
  then show ?case by (simp add: files_ok_def init_ftable_def zero_file_def init_spinlock_def)
next
  case (alloc s H f s')
  then show ?case using file_alloc_spec [OF alloc.IH] by (auto simp: fun_upd_def)
next
  case (dup s H f s')
  then show ?case using file_dup_spec [OF dup.IH dup.hyps(2)] by (auto simp: fun_upd_def)
next
  case (close s H f s')
  then show ?case using file_close_keeps [OF close.IH] by blast
next
  case (other s H s')
  then show ?case by (simp add: files_ok_def)
qed

section \<open>A pipe as two files\<close>

definition pipe_ends :: "nat \<Rightarrow> nat \<Rightarrow> nat \<Rightarrow> 'c fsys \<Rightarrow> bool" where
  "pipe_ends a b p s \<longleftrightarrow> a \<noteq> b \<and> (\<exists>r off. ffiles s a = \<lparr>ftype = FD_PIPE, fref = r, freadable = True, fwritable = False, fobj = p, foff = off\<rparr>) \<and>
     (\<exists>r off. ffiles s b = \<lparr>ftype = FD_PIPE, fref = r, freadable = False, fwritable = True, fobj = p, foff = off\<rparr>) \<and> pipe_ok (fpipes s p)"

lemma init_pipe_spec: "pipe_ok (init_pipe pi)" "contents (init_pipe pi) = []" "plock (init_pipe pi) = False" "in_transit (init_pipe pi) = 0"
  "pwlock (init_pipe pi) = init_sem 0" "prlock (init_pipe pi) = init_sem 0" "readopen (init_pipe pi)" "writeopen (init_pipe pi)"
  by (simp_all add: init_pipe_def pipe_ok_def contents_def in_transit_def sem_ok_init init_spinlock_def)

lemma pipe_alloc_ends:
  assumes ok: "files_ok H s" and r: "pipe_alloc bc s = Ok (0, f0, f1, s')"
  obtains a b p m where "f0 = Some a" and "f1 = Some b" and "pipe_ends a b p s'" and "H a = 0" and "H b = 0" and "a < NFILE" and "b < NFILE"
    and "files_ok (H(a := 1, b := 1)) s'" and "kalloc sizeof_pipe (fmem s) = Ok (Some p, m)" and "fmem s' = m"
    and "\<exists>pi. fpipes s' p = init_pipe pi"
proof -
  obtain r0 s0 where 0: "file_alloc s = Ok (r0, s0)" using file_alloc_spec [OF ok] by auto
  with r obtain a where a: "r0 = Some a" by (cases r0) (auto simp: pipe_alloc_def Let_def)
  have a': "a < NFILE" "H a = 0" "files_ok (H(a := 1)) s0" "fmem s0 = fmem s" "ffiles s0 = (ffiles s)(a := (ffiles s a)\<lparr>fref := 1\<rparr>)"
    using file_alloc_spec [OF ok] 0 a by auto
  obtain r1 s1 where 1: "file_alloc s0 = Ok (r1, s1)" using file_alloc_spec [OF a'(3)] by auto
  with r 0 a obtain b where b: "r1 = Some b" by (cases r1) (auto simp: pipe_alloc_def Let_def)
  have b': "b < NFILE" "(H(a := 1)) b = 0" "files_ok (H(a := 1, b := 1)) s1" "fmem s1 = fmem s0" "ffiles s1 = (ffiles s0)(b := (ffiles s0 b)\<lparr>fref := 1\<rparr>)"
    using file_alloc_spec [OF a'(3)] 1 b by auto
  then have ab: "a \<noteq> b" "H b = 0" by (auto split: if_splits)
  from r 0 a 1 b obtain k m where k: "kalloc sizeof_pipe (fmem s1) = Ok (k, m)" by (auto simp: pipe_alloc_def Let_def)
  with r 0 a 1 b obtain p where p: "k = Some p" by (cases k) (auto simp: pipe_alloc_def Let_def)
  let ?t = "s1\<lparr>fmem := m, fpipes := (fpipes s1)(p := init_pipe (fpipes s1 p))\<rparr>"
  have s': "f0 = Some a" "f1 = Some b" "s' = init_write_pipe b p (init_read_pipe a p ?t)"
    using r 0 a 1 b k p by (auto simp: pipe_alloc_def Let_def)
  show thesis
  proof (rule that [OF s'(1,2) _ a'(2) ab(2) a'(1) b'(1)])
    show "pipe_ends a b p s'" using ab(1) s'(3) init_pipe_spec(1)
      by (cases "ffiles s1 a"; cases "ffiles s1 b") (auto simp: pipe_ends_def init_write_pipe_def init_read_pipe_def)
    show "files_ok (H(a := 1, b := 1)) s'" using b'(3) s'(3) by (auto simp: files_ok_def init_write_pipe_def init_read_pipe_def)
    show "kalloc sizeof_pipe (fmem s) = Ok (Some p, m)" using k p a'(4) b'(4) by simp
    show "fmem s' = m" "\<exists>pi. fpipes s' p = init_pipe pi" using s'(3) by (auto simp: init_write_pipe_def init_read_pipe_def)
  qed
qed

text \<open>What is written to one end is read from the other.\<close>

lemma small_int: "n \<le> PIPE_SIZE \<Longrightarrow> signed_take_bit 31 (int n) = int n"
  by (rule signed_take_bit_int_eq_self) (simp_all add: PIPE_SIZE_def)

lemma pipe_write_empty:
  assumes "pipe_ok pi" and "\<not> plock pi" and "contents pi = []" and "length src \<le> PIPE_SIZE" and "t \<notin> set (sleeplist (pwlock pi))"
  shows "\<exists>pi'. pipe_write t killed src (int (length src)) pi = Ok (Returned (int (length src)), pi') \<and> pipe_ok pi' \<and> contents pi' = src \<and> \<not> plock pi' \<and>
    sleeplist (prlock pi') = []"
proof -
  obtain r pi' k where k: "pipe_write_loop t killed src (int (length src)) 0 (pi\<lparr>plock := True\<rparr>) = Ok (r, pi')" "pipe_ok pi'"
    "k = 0 \<or> int k \<le> int (length src)" "contents pi' = contents pi @ take (k - 0) (drop 0 src)" "\<not> plock pi'"
    "write_end t killed (int (length src)) k r pi'"
    using pipe_write_loop_spec [of "pi\<lparr>plock := True\<rparr>" "int (length src)" src t killed 0] assms by auto
  have c: "contents pi' = take k src" using k(4) assms(3) by simp
  have "\<not> (full pi' \<and> int k < int (length src))"
  proof
    assume f: "full pi' \<and> int k < int (length src)"
    then have "length (contents pi') = PIPE_SIZE" by (simp add: full_iff)
    then show False using c f assms(4) by simp
  qed
  then have "r = Returned (int k)" "int (length src) \<le> int k" "sleeplist (prlock pi') = []" using k(6) by (auto simp: write_end_def)
  moreover have "k = length src" using k(3) calculation by auto
  ultimately show ?thesis using k c assms(2) by (auto simp: pipe_write_def lock_pipe_eq)
qed

lemma pipe_read_all:
  assumes "pipe_ok pi" and "\<not> plock pi" and "contents pi \<noteq> []" and "t \<notin> set (sleeplist (prlock pi))" and "n = int (in_transit pi)"
  shows "\<exists>pi'. pipe_read t killed n pi = Ok (Returned n, contents pi, pi') \<and> pipe_ok pi' \<and> contents pi' = [] \<and> \<not> plock pi'"
proof -
  obtain r dst pi' where 1: "pipe_read_loop t killed n (pi\<lparr>plock := True\<rparr>) = Ok (r, dst, pi')" "pipe_ok pi'" "dst @ contents pi' = contents pi"
    "\<not> plock pi'" "length dst = min (nat n) (in_transit pi)" "r = Returned (int (length dst))"
    using pipe_read_loop_spec [of "pi\<lparr>plock := True\<rparr>" t killed n] assms by auto
  then have "length dst = length (contents pi)" using assms(5) by simp
  moreover have "length dst + length (contents pi') = length (contents pi)" using 1(3) by (metis length_append)
  ultimately have "length (contents pi') = 0" by simp
  then have "contents pi' = []" "dst = contents pi" using 1(3) by (simp_all only: length_0_conv) auto
  with 1 assms show ?thesis by (auto simp: pipe_read_def lock_pipe_eq)
qed

lemma pipe_files_roundtrip:
  assumes ends: "pipe_ends a b p s" and pi: "\<not> plock (fpipes s p)" "contents (fpipes s p) = []"
    and t: "cur_tid s \<notin> set (sleeplist (pwlock (fpipes s p)))" and len: "length src \<le> PIPE_SIZE" "src \<noteq> []"
  shows "\<exists>s' s''. file_write bc b src (int (length src)) s = Ok (int (length src), s') \<and>
    file_read bc a (int (length src)) s' = Ok (int (length src), src, s'') \<and> pipe_ends a b p s'' \<and> contents (fpipes s'' p) = []"
proof -
  obtain ra oa rb ob where f: "ffiles s a = \<lparr>ftype = FD_PIPE, fref = ra, freadable = True, fwritable = False, fobj = p, foff = oa\<rparr>"
    "ffiles s b = \<lparr>ftype = FD_PIPE, fref = rb, freadable = False, fwritable = True, fobj = p, foff = ob\<rparr>"
    "pipe_ok (fpipes s p)" "a \<noteq> b" using ends by (auto simp: pipe_ends_def)
  obtain pi' where w: "pipe_write (cur_tid s) (cur_killed (fis s)) src (int (length src)) (fpipes s p) = Ok (Returned (int (length src)), pi')"
    "pipe_ok pi'" "contents pi' = src" "\<not> plock pi'" "sleeplist (prlock pi') = []"
    using pipe_write_empty [OF f(3) pi len(1) t] by blast
  let ?s = "s\<lparr>fpipes := (fpipes s)(p := pi')\<rparr>"
  have n: "int (length src) = int (in_transit pi')" using w(3) length_contents by metis
  obtain pi'' where r: "pipe_read (cur_tid s) (cur_killed (fis s)) (int (length src)) pi' = Ok (Returned (int (length src)), src, pi'')"
    "pipe_ok pi''" "contents pi'' = []"
    using pipe_read_all [OF w(2,4) _ _ n, of "cur_tid s" "cur_killed (fis s)"] w(3,5) len(2) by auto
  have "file_write bc b src (int (length src)) s = Ok (int (length src), ?s)"
    using f w small_int [OF len(1)] by (simp add: file_write_def Let_def returned_def)
  moreover have "file_read bc a (int (length src)) ?s = Ok (int (length src), src, ?s\<lparr>fpipes := (fpipes ?s)(p := pi'')\<rparr>)"
    using f r small_int [OF len(1)] by (simp add: file_read_def Let_def returned_def)
  ultimately show ?thesis using f r by (auto simp: pipe_ends_def)
qed

lemma pipe_alloc_succeeds:
  assumes ok: "files_ok H s" and inv: "mem_inv (fmem s) live" and pages: "free_pages (fmem s) \<noteq> []"
    and free: "x < NFILE" "y < NFILE" "x \<noteq> y" "H x = 0" "H y = 0"
  shows "\<exists>f0 f1 s'. pipe_alloc bc s = Ok (0, f0, f1, s') \<and> cur_tid s' = cur_tid s"
proof -
  obtain r0 s0 where 0: "file_alloc s = Ok (r0, s0)"
    "case r0 of Some f \<Rightarrow> f < NFILE \<and> H f = 0 \<and> (\<forall>g<f. 0 < H g) \<and> files_ok (H(f := 1)) s0 \<and>
         ffiles s0 = (ffiles s)(f := (ffiles s f)\<lparr>fref := 1\<rparr>) | None \<Rightarrow> (\<forall>f<NFILE. 0 < H f) \<and> files_ok H s0"
    "fmem s0 = fmem s" "cur_tid s0 = cur_tid s"
    using file_alloc_spec [OF ok] by blast
  from 0(2) free obtain a where a: "r0 = Some a" "files_ok (H(a := 1)) s0" by (cases r0) auto
  obtain r1 s1 where 1: "file_alloc s0 = Ok (r1, s1)"
    "case r1 of Some f \<Rightarrow> f < NFILE \<and> (H(a := 1)) f = 0 \<and> (\<forall>g<f. 0 < (H(a := 1)) g) \<and> files_ok (H(a := 1, f := 1)) s1 \<and>
         ffiles s1 = (ffiles s0)(f := (ffiles s0 f)\<lparr>fref := 1\<rparr>) | None \<Rightarrow> (\<forall>f<NFILE. 0 < (H(a := 1)) f) \<and> files_ok (H(a := 1)) s1"
    "fmem s1 = fmem s0" "cur_tid s1 = cur_tid s0"
    using file_alloc_spec [OF a(2)] by blast
  have "r1 \<noteq> None"
  proof
    assume "r1 = None"
    then have "0 < (H(a := 1)) x" "0 < (H(a := 1)) y" using 1(2) free by auto
    then show False using free by (auto split: if_splits)
  qed
  then obtain b where b: "r1 = Some b" by auto
  have "sizeof_pipe \<le> 2040" by (simp add: sizeof_pipe_def PIPE_SIZE_def)
  from kalloc_spec [OF inv this] pages obtain p m where k: "kalloc sizeof_pipe (fmem s1) = Ok (Some p, m)"
    using 0(3) 1(3) by (auto split: option.splits)
  show ?thesis using 0(1,4) 1(1,4) a(1) b k by (simp add: pipe_alloc_def Let_def init_write_pipe_def init_read_pipe_def)
qed

end
