(* ===== verification/PageTable.thy ===== *)
theory PageTable
  imports Mem CString
begin

unbundle bit_operations_syntax

text \<open>
  \<^verbatim>\<open>src/aarch64/mmu.h\<close>, \<^verbatim>\<open>src/kernel/pt.c\<close> and \<^verbatim>\<open>init_sections\<close> of \<^verbatim>\<open>src/kernel/paging.c\<close>: page table
  entries and the four-level tables.  \<open>tables\<close> is the memory seen as tables of entries and
  \<open>pbytes\<close> the memory seen as pages of bytes, both by the kernel address of the page; a page is
  used in one way at a time.  A pointer to an entry is the address of its table and an index.
\<close>

section \<open>Entries and addresses\<close>

definition PTE_VALID :: u64 where "PTE_VALID = 0x1"
definition PTE_TABLE :: u64 where "PTE_TABLE = 0x3"
definition PTE_BLOCK :: u64 where "PTE_BLOCK = 0x1"
definition PTE_PAGE :: u64 where "PTE_PAGE = 0x3"
definition PTE_KERNEL :: u64 where "PTE_KERNEL = push_bit 6 0"
definition PTE_USER :: u64 where "PTE_USER = push_bit 6 1"
definition PTE_RO :: u64 where "PTE_RO = push_bit 7 1"
definition PTE_RW :: u64 where "PTE_RW = push_bit 7 0"
definition AF_USED :: u64 where "AF_USED = push_bit 10 1"
definition SH_OUTER :: u64 where "SH_OUTER = push_bit 8 2"
definition MT_DEVICE_nGnRnE :: u64 where "MT_DEVICE_nGnRnE = 0x0"
definition MT_NORMAL :: u64 where "MT_NORMAL = 0x1"
definition PTE_NORMAL :: u64 where "PTE_NORMAL = push_bit 2 MT_NORMAL OR AF_USED OR SH_OUTER"
definition PTE_DEVICE :: u64 where "PTE_DEVICE = push_bit 2 MT_DEVICE_nGnRnE OR AF_USED"
definition PTE_KERNEL_DATA :: u64 where "PTE_KERNEL_DATA = PTE_KERNEL OR PTE_NORMAL OR PTE_BLOCK"
definition PTE_KERNEL_DEVICE :: u64 where "PTE_KERNEL_DEVICE = PTE_KERNEL OR PTE_DEVICE OR PTE_BLOCK"
definition PTE_USER_DATA :: u64 where "PTE_USER_DATA = PTE_USER OR PTE_NORMAL OR PTE_PAGE"
definition N_PTE_PER_TABLE :: nat where "N_PTE_PER_TABLE = 512"

definition PTE_ADDRESS :: "u64 \<Rightarrow> u64" where "PTE_ADDRESS pte = pte AND NOT 0xFFFF000000000FFF"
definition PTE_FLAGS :: "u64 \<Rightarrow> u64" where "PTE_FLAGS pte = pte AND 0xFFFF000000000FFF"
definition VA_OFFSET :: "u64 \<Rightarrow> u64" where "VA_OFFSET va = va AND 0xFFF"
definition VA_PART0 :: "u64 \<Rightarrow> nat" where "VA_PART0 va = unat (drop_bit 39 (va AND 0xFF8000000000))"
definition VA_PART1 :: "u64 \<Rightarrow> nat" where "VA_PART1 va = unat (drop_bit 30 (va AND 0x7FC0000000))"
definition VA_PART2 :: "u64 \<Rightarrow> nat" where "VA_PART2 va = unat (drop_bit 21 (va AND 0x3FE00000))"
definition VA_PART3 :: "u64 \<Rightarrow> nat" where "VA_PART3 va = unat (drop_bit 12 (va AND 0x1FF000))"

definition USERTOP :: nat where "USERTOP = 0x0001000000000000"

definition pte_valid :: "u64 \<Rightarrow> bool" where
  "pte_valid pte \<longleftrightarrow> pte AND PTE_VALID \<noteq> 0"

definition target :: "u64 \<Rightarrow> nat" where
  "target pte = P2K (unat (PTE_ADDRESS pte))"

section \<open>State\<close>

record section_info =
  sec_flags :: u64
  sec_begin :: u64
  sec_end :: u64
  sec_fp :: "nat option"
  sec_offset :: u64
  sec_length :: u64

record pgdir =
  pt :: nat
  pglock :: spinlock
  sections :: "(nat \<times> section_info) list"

record vm_sys =
  vmem :: mem_sys
  tables :: "nat \<Rightarrow> u64 list"
  pbytes :: "nat \<Rightarrow> u8 list"
  ttbr0 :: nat

definition set_pte :: "nat \<times> nat \<Rightarrow> u64 \<Rightarrow> vm_sys \<Rightarrow> vm_sys" where
  "set_pte p v s = s\<lparr>tables := (tables s)(fst p := (tables s (fst p))[snd p := v])\<rparr>"

definition get_pte_at :: "nat \<times> nat \<Rightarrow> vm_sys \<Rightarrow> u64" where
  "get_pte_at p s = tables s (fst p) ! snd p"

text \<open>\<^verbatim>\<open>kalloc_page\<close> and the \<^verbatim>\<open>memset\<close> that follows it; on \<^verbatim>\<open>NULL\<close> the \<^verbatim>\<open>memset\<close> is undefined.\<close>

definition page_alloc :: "vm_sys \<Rightarrow> (nat option \<times> vm_sys) outcome" where
  "page_alloc s = andthen (kalloc_page (vmem s)) (\<lambda>(p, m). Ok (p, s\<lparr>vmem := m\<rparr>))"

definition page_free :: "nat \<Rightarrow> vm_sys \<Rightarrow> vm_sys outcome" where
  "page_free p s = andthen (kfree_page p (vmem s)) (\<lambda>m. Ok (s\<lparr>vmem := m\<rparr>))"

definition zero_table :: "nat \<Rightarrow> vm_sys \<Rightarrow> vm_sys" where
  "zero_table p s = s\<lparr>tables := (tables s)(p := replicate N_PTE_PER_TABLE 0), pbytes := (pbytes s)(p := replicate PAGE_SIZE 0)\<rparr>"

definition new_table :: "vm_sys \<Rightarrow> (nat \<times> vm_sys) outcome" where
  "new_table s = andthen (page_alloc s) (\<lambda>(p, s). case p of None \<Rightarrow> Undef | Some p \<Rightarrow> Ok (p, zero_table p s))"

section \<open>Walking the tables\<close>

fun walk :: "bool \<Rightarrow> nat \<Rightarrow> nat list \<Rightarrow> vm_sys \<Rightarrow> (nat option \<times> vm_sys) outcome" where
  "walk alloc pgtbl [] s = Ok (Some pgtbl, s)"
| "walk alloc pgtbl (i # is) s =
     (if \<not> pte_valid (get_pte_at (pgtbl, i) s)
      then if \<not> alloc then Ok (None, s)
           else andthen (new_table s) (\<lambda>(new, s).
                let s = set_pte (pgtbl, i) (of_nat (K2P new) OR PTE_TABLE) s
                in walk alloc (target (get_pte_at (pgtbl, i) s)) is s)
      else walk alloc (target (get_pte_at (pgtbl, i) s)) is s)"

definition get_pte :: "pgdir \<Rightarrow> u64 \<Rightarrow> bool \<Rightarrow> vm_sys \<Rightarrow> ((nat \<times> nat) option \<times> pgdir \<times> vm_sys) outcome" where
  "get_pte pd va alloc s =
     andthen (if pt pd = 0 \<and> alloc then andthen (new_table s) (\<lambda>(p, s). Ok (pd\<lparr>pt := p\<rparr>, s)) else Ok (pd, s)) (\<lambda>(pd, s).
     if pt pd = 0 then Ok (None, pd, s)
     else andthen (walk alloc (pt pd) [VA_PART0 va, VA_PART1 va, VA_PART2 va] s) (\<lambda>(r, s).
          Ok (map_option (\<lambda>t. (t, VA_PART3 va)) r, pd, s)))"

text \<open>\<^verbatim>\<open>get_pte(pgdir, va, true)\<close> where the pointer is used without a test.\<close>

definition the_pte :: "pgdir \<Rightarrow> u64 \<Rightarrow> vm_sys \<Rightarrow> ((nat \<times> nat) \<times> pgdir \<times> vm_sys) outcome" where
  "the_pte pd va s = andthen (get_pte pd va True s) (\<lambda>(p, pd, s). case p of None \<Rightarrow> Undef | Some p \<Rightarrow> Ok (p, pd, s))"

section \<open>Making and freeing page directories\<close>

definition ST_HEAP :: u64 where "ST_HEAP = push_bit 3 1"

definition sizeof_section :: nat where "sizeof_section = 3 * 8 + 16 + 3 * 8"

definition init_sections :: "(nat \<times> section_info) list \<Rightarrow> section_info \<Rightarrow> vm_sys \<Rightarrow> ((nat \<times> section_info) list \<times> vm_sys) outcome" where
  "init_sections secs raw s =
     andthen (kalloc sizeof_section (vmem s)) (\<lambda>(a, m).
     case a of
       None \<Rightarrow> Undef
     | Some a \<Rightarrow> Ok ((a, raw\<lparr>sec_flags := ST_HEAP, sec_begin := 0, sec_end := 0\<rparr>) # secs, s\<lparr>vmem := m\<rparr>))"

text \<open>The fields that \<^verbatim>\<open>init_sections\<close> does not set keep what the memory holds: \<open>raw\<close>.\<close>

definition init_pgdir :: "section_info \<Rightarrow> vm_sys \<Rightarrow> (pgdir \<times> vm_sys) outcome" where
  "init_pgdir raw s =
     andthen (new_table s) (\<lambda>(p, s).
     andthen (init_sections [] raw s) (\<lambda>(secs, s).
     Ok (\<lparr>pt = p, pglock = init_spinlock, sections = secs\<rparr>, s)))"

text \<open>\<^verbatim>\<open>free_pagetable(pt, level)\<close>; the first argument is \<^verbatim>\<open>4 - level\<close>.\<close>

fun free_pagetable :: "nat \<Rightarrow> nat \<Rightarrow> vm_sys \<Rightarrow> vm_sys outcome" where
  "free_pagetable 0 table s = Ok s"
| "free_pagetable (Suc k) table s =
     for_each (\<lambda>i s.
       let pte = get_pte_at (table, i) s
       in if pte_valid pte \<and> pte AND PTE_TABLE = PTE_TABLE
          then andthen (free_pagetable k (target pte) s) (\<lambda>s.
               if 4 - Suc k \<le> 2 then page_free (target pte) s else Ok s)
          else Ok s) [0..<N_PTE_PER_TABLE] s"

definition free_pgdir :: "pgdir \<Rightarrow> vm_sys \<Rightarrow> (pgdir \<times> vm_sys) outcome" where
  "free_pgdir pd s =
     (if pt pd = 0 then Ok (pd, s)
      else andthen (free_pagetable 4 (pt pd) s) (\<lambda>s.
           andthen (page_free (pt pd) s) (\<lambda>s. Ok (pd\<lparr>pt := 0\<rparr>, s))))"

definition attach_pgdir :: "nat \<Rightarrow> pgdir \<Rightarrow> vm_sys \<Rightarrow> vm_sys" where
  "attach_pgdir invalid_pt pd s = (if pt pd \<noteq> 0 then s\<lparr>ttbr0 := K2P (pt pd)\<rparr> else s\<lparr>ttbr0 := K2P invalid_pt\<rparr>)"

section \<open>Mapping and copying\<close>

definition vmmap :: "pgdir \<Rightarrow> u64 \<Rightarrow> nat \<Rightarrow> u64 \<Rightarrow> vm_sys \<Rightarrow> (pgdir \<times> vm_sys) outcome" where
  "vmmap pd va ka flags s =
     andthen (the_pte pd va s) (\<lambda>(p, pd, s).
     let s = set_pte p (of_nat (K2P ka) OR flags) s
     in Ok (pd, s\<lparr>vmem := inc_page_cnt ka (vmem s)\<rparr>))"

text \<open>One round of \<^verbatim>\<open>copyout\<close>: \<open>None\<close> when it returns \<open>-1\<close>, otherwise the number of bytes done.\<close>

definition copyout_round :: "pgdir \<Rightarrow> nat \<Rightarrow> u8 list option \<Rightarrow> nat \<Rightarrow> vm_sys \<Rightarrow> (nat option \<times> pgdir \<times> vm_sys) outcome" where
  "copyout_round pd va p len s =
     (let offset = va mod PAGE_SIZE
      in andthen (get_pte pd (of_nat va) True s) (\<lambda>(r, pd, s).
         case r of
           None \<Rightarrow> Ok (None, pd, s)
         | Some e \<Rightarrow>
             andthen
               (if pte_valid (get_pte_at e s) then Ok (Some (target (get_pte_at e s)), s)
                else andthen (page_alloc s) (\<lambda>(a, s).
                     case a of
                       None \<Rightarrow> Ok (None, s)
                     | Some page \<Rightarrow> Ok (Some page, set_pte e (of_nat (K2P page) OR PTE_USER_DATA) s))) (\<lambda>(a, s).
             case a of
               None \<Rightarrow> Ok (None, pd, s)
             | Some page \<Rightarrow>
                 let n = min (PAGE_SIZE - offset) len
                 in andthen (case p of
                      Some src \<Rightarrow> memcpy offset src 0 n (pbytes s page)
                    | None \<Rightarrow> memset offset 0 n (pbytes s page)) (\<lambda>bs.
                    Ok (Some n, pd, s\<lparr>pbytes := (pbytes s)(page := bs)\<rparr>)))))"

lemma copyout_round_progress: "copyout_round pd va p len s = Ok (Some n, r) \<Longrightarrow> n = min (PAGE_SIZE - va mod PAGE_SIZE) len"
  by (auto simp: copyout_round_def Let_def split: option.splits if_splits)

function copyout_loop :: "pgdir \<Rightarrow> nat \<Rightarrow> u8 list option \<Rightarrow> nat \<Rightarrow> vm_sys \<Rightarrow> (int \<times> pgdir \<times> vm_sys) outcome" where
  "copyout_loop pd va p len s =
     (if len > 0
      then andthen (copyout_round pd va p len s) (\<lambda>(r, pd, s).
           case r of
             None \<Rightarrow> Ok (- 1, pd, s)
           | Some n \<Rightarrow> copyout_loop pd (va + n) (map_option (drop n) p) (len - n) s)
      else Ok (0, pd, s))"
  by pat_completeness auto
termination
  by (relation "measure (\<lambda>(pd, va, p, len, s). len)")
    (auto dest: copyout_round_progress simp: PAGE_SIZE_def)

declare copyout_loop.simps [simp del]

definition copyout :: "pgdir \<Rightarrow> nat \<Rightarrow> u8 list option \<Rightarrow> nat \<Rightarrow> vm_sys \<Rightarrow> (int \<times> pgdir \<times> vm_sys) outcome" where
  "copyout pd va p len s =
     (if (va + len) mod 2 ^ 64 > USERTOP then Ok (- 1, pd, s) else copyout_loop pd va p len s)"

section \<open>Copying an address space\<close>

definition join_va :: "nat \<Rightarrow> nat \<Rightarrow> nat \<Rightarrow> nat \<Rightarrow> u64" where
  "join_va i i1 i2 i3 = push_bit 39 (of_nat i) OR push_bit 30 (of_nat i1) OR push_bit 21 (of_nat i2) OR push_bit 12 (of_nat i3)"

text \<open>The body of the innermost loop of \<^verbatim>\<open>uvmcopy\<close>.\<close>

definition copy_leaf :: "u64 \<Rightarrow> u64 \<Rightarrow> pgdir \<times> vm_sys \<Rightarrow> (pgdir \<times> vm_sys) outcome" where
  "copy_leaf pte va ps =
     (case ps of (newpgdir, s) \<Rightarrow>
      andthen (page_alloc s) (\<lambda>(np, s).
      case np of
        None \<Rightarrow> Undef
      | Some np \<Rightarrow>
          let s = s\<lparr>pbytes := (pbytes s)(np := pbytes s (target pte))\<rparr>
          in andthen (the_pte newpgdir va s) (\<lambda>(p, newpgdir, s).
             Ok (newpgdir, set_pte p (of_nat (K2P np) OR PTE_USER_DATA) s))))"

definition each_valid :: "nat \<Rightarrow> (nat \<Rightarrow> u64 \<Rightarrow> pgdir \<times> vm_sys \<Rightarrow> (pgdir \<times> vm_sys) outcome) \<Rightarrow> pgdir \<times> vm_sys \<Rightarrow> (pgdir \<times> vm_sys) outcome" where
  "each_valid table f =
     for_each (\<lambda>i ps. let pte = get_pte_at (table, i) (snd ps) in if pte_valid pte then f i pte ps else Ok ps) [0..<N_PTE_PER_TABLE]"

definition sizeof_pgdir :: nat where "sizeof_pgdir = 8 + 8 + 16"

definition uvmcopy :: "section_info \<Rightarrow> pgdir \<Rightarrow> vm_sys \<Rightarrow> (pgdir option \<times> vm_sys) outcome" where
  "uvmcopy raw pd s =
     andthen (kalloc sizeof_pgdir (vmem s)) (\<lambda>(a, m).
     let s = s\<lparr>vmem := m\<rparr>
     in case a of
          None \<Rightarrow> Ok (None, s)
        | Some _ \<Rightarrow>
            andthen (init_pgdir raw s) (\<lambda>ps.
            if pt pd = 0 then Undef
            else andthen
              (each_valid (pt pd) (\<lambda>i pte0. each_valid (target pte0) (\<lambda>i1 pte1. each_valid (target pte1) (\<lambda>i2 pte2.
                 each_valid (target pte2) (\<lambda>i3 pte3. copy_leaf pte3 (join_va i i1 i2 i3))))) ps) (\<lambda>(newpgdir, s).
              Ok (Some newpgdir, s))))"

section \<open>Growing and unmapping\<close>

function uvmalloc_loop :: "pgdir \<Rightarrow> nat \<Rightarrow> nat \<Rightarrow> vm_sys \<Rightarrow> (pgdir \<times> vm_sys) outcome" where
  "uvmalloc_loop pd addr newsz s =
     (if addr < newsz
      then andthen (page_alloc s) (\<lambda>(p, s).
           case p of
             None \<Rightarrow> Panic
           | Some p \<Rightarrow> andthen (the_pte pd (of_nat addr) s) (\<lambda>(e, pd, s).
               uvmalloc_loop pd (addr + PAGE_SIZE) newsz (set_pte e (of_nat (K2P p) OR PTE_USER_DATA) s)))
      else Ok (pd, s))"
  by pat_completeness auto
termination
  by (relation "measure (\<lambda>(pd, addr, newsz, s). newsz - addr)") (auto simp: PAGE_SIZE_def)

declare uvmalloc_loop.simps [simp del]

definition uvmalloc :: "pgdir \<Rightarrow> nat \<Rightarrow> nat \<Rightarrow> vm_sys \<Rightarrow> (nat \<times> pgdir \<times> vm_sys) outcome" where
  "uvmalloc pd oldsz newsz s =
     (if newsz < oldsz then Ok (oldsz, pd, s)
      else andthen (uvmalloc_loop pd ((oldsz + PAGE_SIZE - 1) mod 2 ^ 64 div PAGE_SIZE * PAGE_SIZE) newsz s) (\<lambda>(pd, s).
           Ok (newsz, pd, s)))"

definition unmap_page :: "pgdir \<Rightarrow> bool \<Rightarrow> nat \<Rightarrow> vm_sys \<Rightarrow> vm_sys outcome" where
  "unmap_page pd do_free a s =
     andthen (get_pte pd (of_nat a) False s) (\<lambda>(r, _, s).
     case r of
       None \<Rightarrow> Panic
     | Some p \<Rightarrow>
         let pte = get_pte_at p s
         in if \<not> pte_valid pte then Panic
            else if PTE_FLAGS pte = PTE_VALID then Panic
            else andthen (if do_free then andthen (kfree (if pte = 0 then None else Some (unat pte)) (vmem s)) (\<lambda>m. Ok (s\<lparr>vmem := m\<rparr>)) else Ok s) (\<lambda>s.
                 Ok (set_pte p 0 s)))"

definition uvmunmap :: "pgdir \<Rightarrow> nat \<Rightarrow> nat \<Rightarrow> bool \<Rightarrow> vm_sys \<Rightarrow> vm_sys outcome" where
  "uvmunmap pd va npages do_free s =
     (if va mod PAGE_SIZE \<noteq> 0 then Panic
      else for_each (\<lambda>i. unmap_page pd do_free (va + i * PAGE_SIZE)) [0..<npages] s)"

text \<open>\<^verbatim>\<open>uvmunmap\<close> is modelled for a range inside the address space (\<^verbatim>\<open>va + npages * PAGE_SIZE\<close> does not wrap).\<close>

end
