(* ===== verification/PageSpec.thy ===== *)
theory PageSpec
  imports PageTable "HOL-Library.Sublist"
begin

unbundle bit_operations_syntax

text \<open>
  What the page tables promise: under the invariant that the tables form a tree of distinct
  pages, a page directory is a map from virtual pages to entries, and mapping a page changes
  that page only.
\<close>

section \<open>Entries and addresses\<close>

lemma part_mask: "unat (drop_bit n ((w :: u64) AND push_bit n (mask 9))) = unat w div 2 ^ n mod 512"
proof -
  have "drop_bit n (w AND push_bit n (mask 9)) = take_bit 9 (drop_bit n w)"
    by (rule bit_eqI) (auto simp: bit_simps dest: bit_imp_le_length)
  then have "unat (drop_bit n (w AND push_bit n (mask 9))) = take_bit 9 (drop_bit n (unat w))"
    by (simp only: unsigned_take_bit_eq unat_drop_bit_eq)
  then show ?thesis by (simp add: drop_bit_eq_div take_bit_eq_mod)
qed

lemma part_eq:
  "VA_PART0 va = unat va div 2 ^ 39 mod 512" "VA_PART1 va = unat va div 2 ^ 30 mod 512"
  "VA_PART2 va = unat va div 2 ^ 21 mod 512" "VA_PART3 va = unat va div 2 ^ 12 mod 512"
proof -
  have m: "(0xFF8000000000 :: u64) = push_bit 39 (mask 9)" "(0x7FC0000000 :: u64) = push_bit 30 (mask 9)"
    "(0x3FE00000 :: u64) = push_bit 21 (mask 9)" "(0x1FF000 :: u64) = push_bit 12 (mask 9)"
    by (simp_all add: mask_eq_exp_minus_1)
  show "VA_PART0 va = unat va div 2 ^ 39 mod 512" "VA_PART1 va = unat va div 2 ^ 30 mod 512"
    "VA_PART2 va = unat va div 2 ^ 21 mod 512" "VA_PART3 va = unat va div 2 ^ 12 mod 512"
    by (simp_all only: VA_PART0_def VA_PART1_def VA_PART2_def VA_PART3_def m part_mask)
qed

lemma part_less [simp]: "VA_PART0 va < 512" "VA_PART1 va < 512" "VA_PART2 va < 512" "VA_PART3 va < 512"
  by (simp_all add: part_eq)

text \<open>The indices of the four tables.\<close>

definition parts :: "u64 \<Rightarrow> nat list" where
  "parts va = [VA_PART0 va, VA_PART1 va, VA_PART2 va, VA_PART3 va]"

lemma unat_join_va:
  assumes "i < 512" "i1 < 512" "i2 < 512" "i3 < 512"
  shows "unat (join_va i i1 i2 i3) = ((i * 512 + i1) * 512 + i2) * 512 * 4096 + i3 * 4096"
proof -
  have small: "unat (of_nat k :: u64) = k" if "k < 512" for k using that by (simp add: unat_of_nat take_bit_eq_mod)
  have b: "\<not> bit (of_nat k :: u64) n" if "k < 512" "9 \<le> n" for k n
  proof -
    have "take_bit 9 (of_nat k :: u64) = of_nat k"
      using that by (intro word_unat_eq_iff [THEN iffD2]) (simp only: unsigned_take_bit_eq small, simp add: take_bit_eq_mod)
    then show ?thesis using that(2) by (metis bit_take_bit_iff not_less)
  qed
  have add: "push_bit n (of_nat k) OR y = push_bit n (of_nat k) + y" if "\<And>j. n \<le> j \<Longrightarrow> \<not> bit y j" for n k and y :: u64
    by (rule disjunctive_add [symmetric]) (use that in \<open>auto simp: bit_simps\<close>)
  have "join_va i i1 i2 i3 = push_bit 39 (of_nat i) OR (push_bit 30 (of_nat i1) OR (push_bit 21 (of_nat i2) OR push_bit 12 (of_nat i3)))"
    by (simp add: join_va_def ac_simps)
  also have "\<dots> = push_bit 39 (of_nat i) + (push_bit 30 (of_nat i1) + (push_bit 21 (of_nat i2) + push_bit 12 (of_nat i3)))"
  proof -
    have 1: "push_bit 21 (of_nat i2) OR push_bit 12 (of_nat i3) = (push_bit 21 (of_nat i2) + push_bit 12 (of_nat i3) :: u64)"
      by (rule add) (use b assms in \<open>auto simp: bit_simps\<close>)
    have 2: "push_bit 30 (of_nat i1) OR (push_bit 21 (of_nat i2) OR push_bit 12 (of_nat i3)) =
        (push_bit 30 (of_nat i1) + (push_bit 21 (of_nat i2) OR push_bit 12 (of_nat i3)) :: u64)"
      by (rule add) (use b assms in \<open>auto simp: bit_simps\<close>)
    have 3: "push_bit 39 (of_nat i) OR (push_bit 30 (of_nat i1) OR (push_bit 21 (of_nat i2) OR push_bit 12 (of_nat i3))) =
        (push_bit 39 (of_nat i) + (push_bit 30 (of_nat i1) OR (push_bit 21 (of_nat i2) OR push_bit 12 (of_nat i3))) :: u64)"
      by (rule add) (use b assms in \<open>auto simp: bit_simps\<close>)
    show ?thesis by (subst 3, subst 2, subst 1, rule refl)
  qed
  also have "\<dots> = of_nat (i * 2 ^ 39 + (i1 * 2 ^ 30 + (i2 * 2 ^ 21 + i3 * 2 ^ 12)))" by (simp add: push_bit_eq_mult)
  finally have "unat (join_va i i1 i2 i3) = (i * 2 ^ 39 + (i1 * 2 ^ 30 + (i2 * 2 ^ 21 + i3 * 2 ^ 12))) mod 2 ^ 64"
    by (simp only: unat_of_nat) simp
  also have "\<dots> = i * 2 ^ 39 + (i1 * 2 ^ 30 + (i2 * 2 ^ 21 + i3 * 2 ^ 12))" by (rule mod_less) (use assms in simp)
  finally show ?thesis by (simp add: algebra_simps)
qed

lemma parts_join: "i < 512 \<Longrightarrow> i1 < 512 \<Longrightarrow> i2 < 512 \<Longrightarrow> i3 < 512 \<Longrightarrow> parts (join_va i i1 i2 i3) = [i, i1, i2, i3]"
proof -
  assume a: "i < 512" "i1 < 512" "i2 < 512" "i3 < 512"
  let ?N = "((i * 512 + i1) * 512 + i2) * 512 + i3"
  have u: "unat (join_va i i1 i2 i3) = ?N * 4096" using a by (simp add: unat_join_va)
  have d: "?N * 4096 div 2 ^ 12 = ?N" "?N * 4096 div 2 ^ 21 = ?N div 512" "?N * 4096 div 2 ^ 30 = ?N div 512 div 512"
    "?N * 4096 div 2 ^ 39 = ?N div 512 div 512 div 512"
    using div_mult2_eq [of "?N * 4096" 4096 512] div_mult2_eq [of "?N * 4096" 4096 "512 * 512"]
      div_mult2_eq [of "?N * 4096" 4096 "512 * 512 * 512"] by (simp_all add: div_mult2_eq [symmetric] del: div_mult_self1_is_m)
  have digit: "(x * 512 + y) div 512 = x" "(x * 512 + y) mod 512 = y" if "y < 512" for x y :: nat using that by simp_all
  show ?thesis by (simp only: parts_def part_eq u d digit a mod_less)
qed

lemma join_parts: "unat va < USERTOP \<Longrightarrow> join_va (VA_PART0 va) (VA_PART1 va) (VA_PART2 va) (VA_PART3 va) + VA_OFFSET va = va"
proof -
  assume va: "unat va < USERTOP"
  have off: "unat (VA_OFFSET va) = unat va mod 4096"
  proof -
    have "(0xFFF :: u64) = mask 12" by (simp add: mask_eq_exp_minus_1)
    then have "VA_OFFSET va = take_bit 12 va" by (simp add: VA_OFFSET_def take_bit_eq_mask)
    then have "unat (VA_OFFSET va) = take_bit 12 (unat va)" by (simp only: unsigned_take_bit_eq)
    then show ?thesis by (simp add: take_bit_eq_mod)
  qed
  have "unat (join_va (VA_PART0 va) (VA_PART1 va) (VA_PART2 va) (VA_PART3 va)) + unat (VA_OFFSET va) = unat va"
  proof -
    define q where "q = unat va div 4096"
    have p: "VA_PART3 va = q mod 512" "VA_PART2 va = q div 512 mod 512" "VA_PART1 va = q div 512 div 512 mod 512"
      "VA_PART0 va = q div 512 div 512 div 512 mod 512"
      by (simp_all add: part_eq q_def div_mult2_eq [symmetric])
    have "q div 512 div 512 div 512 = unat va div (4096 * 512 * 512 * 512)" unfolding q_def by (simp only: div_mult2_eq)
    also have "\<dots> < 512" by (rule less_mult_imp_div_less) (use va in \<open>simp add: USERTOP_def\<close>)
    finally have "q div 512 div 512 div 512 < 512" .
    then have top: "q div 512 div 512 div 512 mod 512 = q div 512 div 512 div 512" by simp
    note d = div_mult_mod_eq [of q 512] div_mult_mod_eq [of "q div 512" 512] div_mult_mod_eq [of "q div 512 div 512" 512]
      div_mult_mod_eq [of "unat va" 4096, folded q_def]
    have "unat (join_va (VA_PART0 va) (VA_PART1 va) (VA_PART2 va) (VA_PART3 va)) =
        ((q div 512 div 512 div 512 * 512 + q div 512 div 512 mod 512) * 512 + q div 512 mod 512) * 512 * 4096 + q mod 512 * 4096"
      by (subst unat_join_va [OF part_less]) (simp only: p top)
    also have "\<dots> = q * 4096" using d(1-3) by (simp only: add_mult_distrib [symmetric] mult.assoc [symmetric])
    finally show ?thesis using d(4) off by simp
  qed
  then show ?thesis by (metis of_nat_add of_nat_unat ucast_id)
qed

section \<open>Entries that point to a page\<close>

definition good_page :: "nat \<Rightarrow> bool" where
  "good_page p \<longleftrightarrow> PAGE_SIZE dvd p \<and> KSPACE_MASK \<le> p \<and> p < 2 ^ 64"

lemma mask_bits: "(0xFFFF000000000FFF :: u64) = NOT (mask 48) OR mask 12"
  by (simp add: mask_eq_exp_minus_1)

lemma unat_K2P_good: "good_page p \<Longrightarrow> unat (of_nat (K2P p) :: u64) = p - KSPACE_MASK"
proof -
  assume g: "good_page p"
  then have "K2P p = (p - KSPACE_MASK + 2 ^ 64) mod 2 ^ 64" by (simp add: K2P_def good_page_def)
  also have "\<dots> = p - KSPACE_MASK" using g by (simp only: mod_add_self2) (auto simp: good_page_def KSPACE_MASK_def)
  finally have eq: "K2P p = p - KSPACE_MASK" .
  have "p - KSPACE_MASK < 2 ^ 64" using g by (auto simp: good_page_def)
  then show ?thesis unfolding eq by (rule u64_of_nat)
qed

lemma address_or:
  assumes lo: "take_bit 12 (w :: u64) = 0" and hi: "take_bit 48 w = w" and f: "f AND NOT 0xFFFF000000000FFF = 0"
  shows "PTE_ADDRESS (w OR f) = w"
proof -
  have b: "12 \<le> j \<and> j < 48" if "bit w j" for j
    using lo hi that by (metis bit_0_eq bit_take_bit_iff bot_apply bot_bool_def not_le)
  have "w AND NOT 0xFFFF000000000FFF = w"
    unfolding mask_bits by (rule bit_eqI) (auto simp: bit_simps dest: b bit_imp_le_length)
  then show ?thesis unfolding PTE_ADDRESS_def by (simp only: bit.conj_disj_distrib2 f or.right_neutral)
qed

lemma entry_target:
  assumes g: "good_page p" and f: "f AND NOT 0xFFFF000000000FFF = 0"
  shows "target (of_nat (K2P p) OR f) = p"
proof -
  let ?w = "of_nat (K2P p) :: u64"
  have u: "unat ?w = p - KSPACE_MASK" by (rule unat_K2P_good [OF g])
  obtain k where k: "p = 4096 * k" using g by (auto simp: good_page_def PAGE_SIZE_def)
  obtain k' where k': "p - KSPACE_MASK = 4096 * k'" using k by (auto simp: KSPACE_MASK_def intro!: that [of "k - 0xFFFF000000000"])
  have lo: "take_bit 12 ?w = 0"
    by (rule word_unat_eq_iff [THEN iffD2]) (simp only: unsigned_take_bit_eq u k', simp add: take_bit_eq_mod)
  have "p - KSPACE_MASK < 2 ^ 48" using g by (auto simp: good_page_def KSPACE_MASK_def)
  then have "take_bit 48 ?w = ?w"
    by (intro word_unat_eq_iff [THEN iffD2]) (simp only: unsigned_take_bit_eq u, simp add: take_bit_eq_mod)
  then have "PTE_ADDRESS (?w OR f) = ?w" by (rule address_or [OF lo _ f])
  then have "target (?w OR f) = (p - KSPACE_MASK + KSPACE_MASK) mod 2 ^ 64" by (simp only: target_def u P2K_def)
  then show ?thesis using g by (simp add: good_page_def)
qed

lemma flags_ok:
  "PTE_TABLE AND NOT 0xFFFF000000000FFF = 0" "PTE_USER_DATA AND NOT 0xFFFF000000000FFF = 0"
  by (simp_all add: PTE_TABLE_def PTE_USER_DATA_def PTE_USER_def PTE_NORMAL_def MT_NORMAL_def AF_USED_def SH_OUTER_def PTE_PAGE_def)

lemmas table_target [simp] = entry_target [OF _ flags_ok(1)]
lemmas data_target [simp] = entry_target [OF _ flags_ok(2)]

lemma valid_or: "f AND 1 \<noteq> 0 \<Longrightarrow> pte_valid (w OR f)"
  unfolding pte_valid_def PTE_VALID_def
  using and_one_bit [of 0 f, unfolded drop_bit_0 id_apply] and_one_bit [of 0 "w OR f", unfolded drop_bit_0 id_apply]
  by (metis bit_or_iff)

lemma entry_valid [simp]: "pte_valid (w OR PTE_TABLE)" "pte_valid (w OR PTE_USER_DATA)"
  by (rule valid_or, simp add: PTE_TABLE_def PTE_USER_DATA_def PTE_USER_def PTE_NORMAL_def MT_NORMAL_def AF_USED_def SH_OUTER_def PTE_PAGE_def)+

lemma zero_invalid [simp]: "\<not> pte_valid 0"
  by (simp add: pte_valid_def)

section \<open>The tree of tables\<close>

text \<open>The table at the end of a path of indices.\<close>

fun node :: "vm_sys \<Rightarrow> nat \<Rightarrow> nat list \<Rightarrow> nat option" where
  "node s a [] = Some a"
| "node s a (i # is) = (if pte_valid (tables s a ! i) then node s (target (tables s a ! i)) is else None)"

lemma node_snoc: "node s a (p @ [i]) =
    (case node s a p of None \<Rightarrow> None | Some b \<Rightarrow> if pte_valid (tables s b ! i) then Some (target (tables s b ! i)) else None)"
  by (induction s a p rule: node.induct) auto

definition tpath :: "nat list \<Rightarrow> bool" where
  "tpath p \<longleftrightarrow> length p \<le> 3 \<and> set p \<subseteq> {..<N_PTE_PER_TABLE}"

definition frees_ok :: "vm_sys \<Rightarrow> bool" where
  "frees_ok s \<longleftrightarrow> distinct (free_pages (vmem s)) \<and> (\<forall>p\<in>set (free_pages (vmem s)). good_page p) \<and> \<not> page_lock (vmem s)"

definition tree_ok :: "vm_sys \<Rightarrow> nat \<Rightarrow> bool" where
  "tree_ok s root \<longleftrightarrow>
     (\<forall>p q a. tpath p \<longrightarrow> tpath q \<longrightarrow> node s root p = Some a \<longrightarrow> node s root q = Some a \<longrightarrow> p = q) \<and>
     (\<forall>p a. tpath p \<longrightarrow> node s root p = Some a \<longrightarrow> length (tables s a) = N_PTE_PER_TABLE \<and> a \<notin> set (free_pages (vmem s)))"

definition pd_ok :: "vm_sys \<Rightarrow> pgdir \<Rightarrow> bool" where
  "pd_ok s pd \<longleftrightarrow> frees_ok s \<and> (pt pd \<noteq> 0 \<longrightarrow> tree_ok s (pt pd))"

text \<open>The entry that a virtual address has, zero where there is none.\<close>

definition leaf :: "vm_sys \<Rightarrow> nat \<Rightarrow> nat list \<Rightarrow> nat \<Rightarrow> u64" where
  "leaf s root p k = (case node s root p of None \<Rightarrow> 0 | Some a \<Rightarrow> tables s a ! k)"

definition entry_of :: "vm_sys \<Rightarrow> pgdir \<Rightarrow> u64 \<Rightarrow> u64" where
  "entry_of s pd va = (if pt pd = 0 then 0 else leaf s (pt pd) [VA_PART0 va, VA_PART1 va, VA_PART2 va] (VA_PART3 va))"

lemma tpath_parts [simp]: "tpath [VA_PART0 va, VA_PART1 va, VA_PART2 va]"
  by (simp add: tpath_def N_PTE_PER_TABLE_def)

lemma new_table_spec:
  assumes "frees_ok s" and "free_pages (vmem s) = n # ps"
  shows "\<exists>m. new_table s = Ok (n, zero_table n (s\<lparr>vmem := m\<rparr>)) \<and> free_pages m = ps \<and> \<not> page_lock m"
  using assms by (auto simp: new_table_def page_alloc_def kalloc_page_def lock_pages_def frees_ok_def unlock_pages_def Let_def)

text \<open>A new table behind an invalid entry.\<close>

lemma grow_tree:
  assumes tree: "tree_ok s root" and free: "frees_ok s" "free_pages (vmem s) = n # ps"
    and p: "tpath (p @ [i])" "node s root p = Some a" "\<not> pte_valid (tables s a ! i)"
    and m: "free_pages m = ps" "\<not> page_lock m"
  defines "s' \<equiv> set_pte (a, i) (of_nat (K2P n) OR PTE_TABLE) (zero_table n (s\<lparr>vmem := m\<rparr>))"
  shows "tree_ok s' root \<and> frees_ok s' \<and> node s' root (p @ [i]) = Some n \<and>
    (\<forall>q k. tpath q \<longrightarrow> k < N_PTE_PER_TABLE \<longrightarrow> length q = 3 \<longrightarrow> leaf s' root q k = leaf s root q k)"
proof -
  have n: "good_page n" "n \<notin> set ps" using free by (auto simp: frees_ok_def)
  have pp: "tpath p" using p(1) by (auto simp: tpath_def)
  have i: "i < N_PTE_PER_TABLE" using p(1) by (simp add: tpath_def)
  have inj: "q = r" if "tpath q" "tpath r" "node s root q = Some b" "node s root r = Some b" for q r b
    using tree that by (auto simp: tree_ok_def)
  have len: "length (tables s b) = N_PTE_PER_TABLE" and nn: "b \<noteq> n" if "tpath q" "node s root q = Some b" for q b
    using tree that free(2) by (auto simp: tree_ok_def)
  have an: "a \<noteq> n" "length (tables s a) = N_PTE_PER_TABLE" using nn [OF pp p(2)] len [OF pp p(2)] .
  have t: "tables s' n = replicate N_PTE_PER_TABLE 0" "tables s' a = (tables s a)[i := of_nat (K2P n) OR PTE_TABLE]"
    "b \<noteq> n \<Longrightarrow> b \<noteq> a \<Longrightarrow> tables s' b = tables s b" for b
    using an by (auto simp: s'_def set_pte_def zero_table_def)
  have new: "node s' root q = (if prefix (p @ [i]) q then if q = p @ [i] then Some n else None else node s root q)" if "tpath q" for q
    using that
  proof (induction q rule: rev_induct)
    case (snoc j q)
    have q: "tpath q" "j < N_PTE_PER_TABLE" using snoc.prems by (auto simp: tpath_def)
    note IH = snoc.IH [OF q(1)]
    show ?case
    proof (cases "prefix (p @ [i]) q")
      case True
      then have "\<not> q @ [j] = p @ [i]" by (auto dest: prefix_length_le)
      moreover have "node s' root (q @ [j]) = None"
        using t(1) q(2) by (simp add: node_snoc [of s' root q j] IH True del: append_assoc)
      ultimately show ?thesis using True by auto
    next
      case False
      show ?thesis
      proof (cases "q @ [j] = p @ [i]")
        case True
        then have "node s' root q = Some a" "j = i" using IH False p(2) by auto
        then show ?thesis using True t(2) an i n(1) by (auto simp: node_snoc)
      next
        case ne: False
        have "node s' root (q @ [j]) = node s root (q @ [j])"
        proof (cases "node s root q")
          case None
          then show ?thesis using IH False by (simp add: node_snoc)
        next
          case (Some b)
          have "tables s' b ! j = tables s b ! j"
          proof (cases "b = a")
            case True
            then have "q = p" using inj [OF q(1) pp Some] p(2) by simp
            then have "j \<noteq> i" using ne by simp
            then show ?thesis using True t(2) by simp
          qed (use t(3) nn [OF q(1) Some] in simp)
          then show ?thesis using IH False Some by (simp add: node_snoc)
        qed
        then show ?thesis using False ne by (auto simp: prefix_snoc)
      qed
    qed
  qed simp
  have old: "node s' root q = Some b \<Longrightarrow> tpath q \<Longrightarrow> q = p @ [i] \<and> b = n \<or> node s root q = Some b" for q b
    using new [of q] by (auto split: if_splits)
  have tl: "length (tables s' b) = N_PTE_PER_TABLE" if "node s root q = Some b" "tpath q" for q b
    using len [OF that(2,1)] nn [OF that(2,1)] t by (cases "b = a") simp_all
  have "tree_ok s' root" unfolding tree_ok_def
  proof (intro conjI allI impI)
    fix q r b assume a: "tpath q" "tpath r" "node s' root q = Some b" "node s' root r = Some b"
    from old [OF a(3,1)] old [OF a(4,2)] show "q = r" using inj nn a(1,2) by metis
  next
    fix q b assume q: "tpath q" "node s' root q = Some b"
    from old [OF q(2,1)] show "length (tables s' b) = N_PTE_PER_TABLE" using tl q(1) t(1) by auto
    have "set (free_pages (vmem s')) = set ps" using m by (simp add: s'_def set_pte_def zero_table_def)
    then show "b \<notin> set (free_pages (vmem s'))" using old [OF q(2,1)] n(2) tree q(1) free(2) by (auto simp: tree_ok_def)
  qed
  moreover have "frees_ok s'" using free m by (simp add: frees_ok_def s'_def set_pte_def zero_table_def)
  moreover have "node s' root (p @ [i]) = Some n" using new [OF p(1)] by simp
  moreover have "leaf s' root q k = leaf s root q k" if q: "tpath q" "k < N_PTE_PER_TABLE" "length q = 3" for q k
  proof (cases "prefix (p @ [i]) q")
    case True
    have "node s root (p @ [i]) = None" using p(2,3) by (simp add: node_snoc)
    moreover have "node s root (q' @ r) = None" if "node s root q' = None" for q' r
      using that by (induction r rule: rev_induct) (simp_all add: node_snoc flip: append_assoc)
    ultimately have "leaf s root q k = 0" using True by (auto simp: leaf_def elim!: prefixE simp del: append_assoc)
    moreover have "leaf s' root q k = 0" using new [OF q(1)] True t(1) q(2) by (simp add: leaf_def)
    ultimately show ?thesis by simp
  next
    case False
    then have eq: "node s' root q = node s root q" using new [OF q(1)] by simp
    show ?thesis
    proof (cases "node s root q")
      case (Some b)
      have "b \<noteq> a" using inj [OF q(1) pp Some] p q(3) by (auto simp: tpath_def)
      then show ?thesis using t(3) nn [OF q(1) Some] Some eq by (simp add: leaf_def)
    qed (simp add: leaf_def eq)
  qed
  ultimately show ?thesis by blast
qed

section \<open>Finding an entry\<close>

lemma walk_alloc:
  assumes "tree_ok s root" and "frees_ok s" and "tpath p" and "node s root p = Some a"
    and "length p + length is = 3" and "set is \<subseteq> {..<N_PTE_PER_TABLE}" and "length is \<le> length (free_pages (vmem s))"
  shows "\<exists>b s'. walk True a is s = Ok (Some b, s') \<and> tree_ok s' root \<and> frees_ok s' \<and> node s' root (p @ is) = Some b \<and>
    (\<forall>q k. tpath q \<longrightarrow> k < N_PTE_PER_TABLE \<longrightarrow> length q = 3 \<longrightarrow> leaf s' root q k = leaf s root q k)"
  using assms
proof (induction "is" arbitrary: s a p)
  case (Cons i "is")
  have pi: "tpath (p @ [i])" using Cons.prems(3,5,6) by (simp add: tpath_def)
  show ?case
  proof (cases "pte_valid (tables s a ! i)")
    case True
    then have "node s root (p @ [i]) = Some (target (tables s a ! i))" using Cons.prems(4) by (simp add: node_snoc)
    then show ?thesis using Cons.IH [of s "p @ [i]" "target (tables s a ! i)"] Cons.prems pi True by (auto simp: get_pte_at_def)
  next
    case False
    obtain n ps where f: "free_pages (vmem s) = n # ps" using Cons.prems(7) by (cases "free_pages (vmem s)") auto
    obtain m where m: "new_table s = Ok (n, zero_table n (s\<lparr>vmem := m\<rparr>))" "free_pages m = ps" "\<not> page_lock m"
      using new_table_spec [OF Cons.prems(2) f] by auto
    let ?s = "set_pte (a, i) (of_nat (K2P n) OR PTE_TABLE) (zero_table n (s\<lparr>vmem := m\<rparr>))"
    note g = grow_tree [OF Cons.prems(1,2) f pi Cons.prems(4) False m(2,3)]
    have len: "length (tables s a) = N_PTE_PER_TABLE" "a \<noteq> n" using Cons.prems(1,3,4) f by (auto simp: tree_ok_def)
    have "good_page n" using Cons.prems(2) f by (simp add: frees_ok_def)
    then have t: "target (get_pte_at (a, i) ?s) = n"
      using len Cons.prems(6) by (simp add: get_pte_at_def set_pte_def zero_table_def)
    have fr: "free_pages (vmem ?s) = ps" using m(2) by (simp add: set_pte_def zero_table_def)
    obtain b s' where b: "walk True n is ?s = Ok (Some b, s')" "tree_ok s' root" "frees_ok s'" "node s' root ((p @ [i]) @ is) = Some b"
      "\<forall>q k. tpath q \<longrightarrow> k < N_PTE_PER_TABLE \<longrightarrow> length q = 3 \<longrightarrow> leaf s' root q k = leaf ?s root q k"
      using Cons.IH [of ?s "p @ [i]" n] g pi Cons.prems(5,6,7) f fr by auto
    have "walk True a (i # is) s = Ok (Some b, s')" using False m(1) t b(1) by (simp add: get_pte_at_def)
    then show ?thesis using b g by (intro exI [of _ b] exI [of _ s']) simp
  qed
qed (simp add: exI)

lemma walk_find: "walk False a is s = Ok (node s a is, s)"
  by (induction "is" arbitrary: a) (simp_all add: get_pte_at_def)

lemma get_pte_find:
  "get_pte pd va False s =
     Ok (if pt pd = 0 then None
         else map_option (\<lambda>t. (t, VA_PART3 va)) (node s (pt pd) [VA_PART0 va, VA_PART1 va, VA_PART2 va]), pd, s)"
  by (simp add: get_pte_def walk_find del: walk.simps node.simps)

lemma new_root:
  assumes "frees_ok s" and "free_pages (vmem s) = n # ps" and "free_pages m = ps" and "\<not> page_lock m"
  shows "n \<noteq> 0 \<and> tree_ok (zero_table n (s\<lparr>vmem := m\<rparr>)) n \<and> frees_ok (zero_table n (s\<lparr>vmem := m\<rparr>)) \<and>
    (tpath q \<longrightarrow> k < N_PTE_PER_TABLE \<longrightarrow> leaf (zero_table n (s\<lparr>vmem := m\<rparr>)) n q k = 0)"
proof -
  let ?s = "zero_table n (s\<lparr>vmem := m\<rparr>)"
  have t: "tables ?s n = replicate N_PTE_PER_TABLE 0" "free_pages (vmem ?s) = ps" "\<not> page_lock (vmem ?s)"
    using assms(3,4) by (simp_all add: zero_table_def)
  have nd: "node ?s n q = (if q = [] then Some n else None)" if "tpath q" for q
    using that t(1) by (cases q) (simp_all add: tpath_def)
  have "KSPACE_MASK \<le> n" "n \<notin> set ps" using assms(1,2) by (auto simp: frees_ok_def good_page_def)
  then show ?thesis using assms(1,2) t nd
    by (auto simp: tree_ok_def frees_ok_def KSPACE_MASK_def leaf_def split: if_splits)
qed

lemma the_pte_spec:
  assumes ok: "pd_ok s pd" and free: "4 \<le> length (free_pages (vmem s))"
  obtains t pd' s' where "the_pte pd va s = Ok ((t, VA_PART3 va), pd', s')" and "pt pd' \<noteq> 0" and "pd_ok s' pd'"
    and "node s' (pt pd') [VA_PART0 va, VA_PART1 va, VA_PART2 va] = Some t" and "\<And>va'. entry_of s' pd' va' = entry_of s pd va'"
proof -
  let ?is = "[VA_PART0 va, VA_PART1 va, VA_PART2 va]"
  have ix: "set ?is \<subseteq> {..<N_PTE_PER_TABLE}" by (simp add: N_PTE_PER_TABLE_def)
  obtain pd1 s1 where 1: "(if pt pd = 0 \<and> True then andthen (new_table s) (\<lambda>(p, s). Ok (pd\<lparr>pt := p\<rparr>, s)) else Ok (pd, s)) = Ok (pd1, s1)"
    "pt pd1 \<noteq> 0" "tree_ok s1 (pt pd1)" "frees_ok s1" "3 \<le> length (free_pages (vmem s1))" "\<And>va'. entry_of s1 pd1 va' = entry_of s pd va'"
  proof (cases "pt pd = 0")
    case False
    with ok free that [of pd s] show thesis by (simp add: pd_ok_def)
  next
    case True
    obtain n ps where f: "free_pages (vmem s) = n # ps" using free by (cases "free_pages (vmem s)") auto
    have fo: "frees_ok s" using ok by (simp add: pd_ok_def)
    obtain m where m: "new_table s = Ok (n, zero_table n (s\<lparr>vmem := m\<rparr>))" "free_pages m = ps" "\<not> page_lock m"
      using new_table_spec [OF fo f] by auto
    note r = new_root [OF fo f m(2,3)]
    show thesis
      by (rule that [of "pd\<lparr>pt := n\<rparr>" "zero_table n (s\<lparr>vmem := m\<rparr>)"])
        (use True m r f free in \<open>auto simp: entry_of_def N_PTE_PER_TABLE_def zero_table_def\<close>)
  qed
  obtain b s' where b: "walk True (pt pd1) ?is s1 = Ok (Some b, s')" "tree_ok s' (pt pd1)" "frees_ok s'" "node s' (pt pd1) ([] @ ?is) = Some b"
    "\<forall>q k. tpath q \<longrightarrow> k < N_PTE_PER_TABLE \<longrightarrow> length q = 3 \<longrightarrow> leaf s' (pt pd1) q k = leaf s1 (pt pd1) q k"
    using walk_alloc [of s1 "pt pd1" "[]" "pt pd1" ?is] 1 ix by (auto simp: tpath_def simp del: walk.simps)
  have "the_pte pd va s = Ok ((b, VA_PART3 va), pd1, s')" using 1(1,2) b(1) by (simp add: the_pte_def get_pte_def del: walk.simps)
  moreover have "entry_of s' pd1 va' = entry_of s pd va'" for va'
    using 1(2) b(5) 1(6) [of va'] by (simp add: entry_of_def N_PTE_PER_TABLE_def)
  ultimately show thesis using that [of b pd1 s'] 1(2) b by (simp add: pd_ok_def)
qed

section \<open>Changing an entry\<close>

lemma set_leaf:
  assumes tree: "tree_ok s root" and q: "tpath q" "length q = 3" "node s root q = Some t" and k: "k < N_PTE_PER_TABLE"
  shows "tree_ok (set_pte (t, k) v s) root \<and> (\<forall>r. tpath r \<longrightarrow> node (set_pte (t, k) v s) root r = node s root r) \<and>
    (\<forall>r j. tpath r \<longrightarrow> length r = 3 \<longrightarrow> leaf (set_pte (t, k) v s) root r j = (if r = q \<and> j = k then v else leaf s root r j))"
proof -
  let ?s = "set_pte (t, k) v s"
  have tb: "tables ?s b = (if b = t then (tables s t)[k := v] else tables s b)" for b by (simp add: set_pte_def)
  have uniq: "b = t \<Longrightarrow> r = q" if "tpath r" "node s root r = Some b" for r b
    using tree that q(1,3) by (auto simp: tree_ok_def)
  have nd: "node ?s root r = node s root r" if "tpath r" for r
    using that
  proof (induction r rule: rev_induct)
    case (snoc j r)
    have r: "tpath r" "length r < 3" using snoc.prems by (auto simp: tpath_def)
    then have "node s root r = Some b \<Longrightarrow> b \<noteq> t" for b using uniq [OF r(1)] q(2) by auto
    then show ?case using snoc.IH [OF r(1)] tb by (auto simp: node_snoc split: option.splits)
  qed simp
  have "tree_ok ?s root"
    using tree nd unfolding tree_ok_def by (auto simp: tb set_pte_def)
  moreover have "leaf ?s root r j = (if r = q \<and> j = k then v else leaf s root r j)" if r: "tpath r" "length r = 3" for r j
  proof -
    have "length (tables s t) = N_PTE_PER_TABLE" using tree q(1,3) by (auto simp: tree_ok_def)
    then have at: "tables ?s b ! j = (if b = t \<and> j = k then v else tables s b ! j)" for b
      unfolding tb using k by simp
    show ?thesis
    proof (cases "node s root r")
      case None
      then have "r \<noteq> q" using q(3) by auto
      then show ?thesis using None nd [OF r(1)] by (simp add: leaf_def)
    next
      case (Some b)
      have "b = t \<longleftrightarrow> r = q" using uniq [OF r(1) Some] Some q(3) by auto
      then show ?thesis using Some nd [OF r(1)] at [of b] by (simp add: leaf_def)
    qed
  qed
  ultimately show ?thesis using nd by blast
qed

lemma entry_set_leaf:
  assumes "pd_ok s pd" and "pt pd \<noteq> 0" and "node s (pt pd) [VA_PART0 va, VA_PART1 va, VA_PART2 va] = Some t"
  shows "pd_ok (set_pte (t, VA_PART3 va) v s) pd \<and>
    (\<forall>va'. entry_of (set_pte (t, VA_PART3 va) v s) pd va' = (if parts va' = parts va then v else entry_of s pd va'))"
proof -
  let ?q = "[VA_PART0 va, VA_PART1 va, VA_PART2 va]" and ?s = "set_pte (t, VA_PART3 va) v s"
  have t: "tree_ok s (pt pd)" "frees_ok s" using assms(1,2) by (simp_all add: pd_ok_def)
  have "length ?q = 3" "VA_PART3 va < N_PTE_PER_TABLE" by (simp_all add: N_PTE_PER_TABLE_def)
  note l = set_leaf [OF t(1) tpath_parts this(1) assms(3) this(2), of v]
  have "frees_ok ?s" using t(2) by (simp add: frees_ok_def set_pte_def)
  then have "pd_ok ?s pd" using l by (simp add: pd_ok_def)
  moreover have "entry_of ?s pd va' = (if parts va' = parts va then v else entry_of s pd va')" for va'
  proof -
    have "leaf ?s (pt pd) [VA_PART0 va', VA_PART1 va', VA_PART2 va'] (VA_PART3 va') =
        (if [VA_PART0 va', VA_PART1 va', VA_PART2 va'] = ?q \<and> VA_PART3 va' = VA_PART3 va then v
         else leaf s (pt pd) [VA_PART0 va', VA_PART1 va', VA_PART2 va'] (VA_PART3 va'))"
      using l tpath_parts [of va'] by simp
    then show ?thesis using assms(2) by (simp add: entry_of_def parts_def)
  qed
  ultimately show ?thesis by blast
qed

lemma frees_ok_count [simp]: "pd_ok (s\<lparr>vmem := inc_page_cnt ka (vmem s)\<rparr>) pd = pd_ok s pd"
proof -
  have n: "node (s\<lparr>vmem := m\<rparr>) a p = node s a p" for a p m by (induction s a p rule: node.induct) simp_all
  show ?thesis by (simp add: pd_ok_def frees_ok_def tree_ok_def n inc_page_cnt_def Let_def)
qed

lemma entry_of_vmem [simp]: "entry_of (s\<lparr>vmem := m\<rparr>) pd va = entry_of s pd va"
proof -
  have n: "node (s\<lparr>vmem := m\<rparr>) a p = node s a p" for a p m by (induction s a p rule: node.induct) simp_all
  show ?thesis by (simp add: entry_of_def leaf_def n)
qed

lemma vmmap_spec:
  assumes "pd_ok s pd" and "4 \<le> length (free_pages (vmem s))"
  shows "\<exists>pd' s'. vmmap pd va ka flags s = Ok (pd', s') \<and> pd_ok s' pd' \<and>
    (\<forall>va'. entry_of s' pd' va' = (if parts va' = parts va then of_nat (K2P ka) OR flags else entry_of s pd va'))"
proof -
  obtain t pd' s' where 1: "the_pte pd va s = Ok ((t, VA_PART3 va), pd', s')" "pt pd' \<noteq> 0" "pd_ok s' pd'"
    "node s' (pt pd') [VA_PART0 va, VA_PART1 va, VA_PART2 va] = Some t" "\<And>va'. entry_of s' pd' va' = entry_of s pd va'"
    using the_pte_spec [OF assms] by metis
  note e = entry_set_leaf [OF 1(3,2,4), of "of_nat (K2P ka) OR flags"]
  show ?thesis using 1(1,5) e by (simp add: vmmap_def Let_def)
qed

end
