(* ===== verification/BootPt.thy ===== *)
theory BootPt
  imports PageSpec
begin

unbundle bit_operations_syntax

text \<open>
  \<^verbatim>\<open>src/aarch64/kernel_pt.c\<close>: the tables that the kernel runs on.  Their addresses are chosen by
  the linker; entries that the initialisers leave out are zero.
\<close>

definition BLOCK_SPAN :: nat where "BLOCK_SPAN = 0x200000"

definition kernel_pt_lv2_dev :: "u64 list" where
  "kernel_pt_lv2_dev =
     map (\<lambda>i. of_nat (i * BLOCK_SPAN) AND NOT PTE_VALID) [0..<64] @
     map (\<lambda>i. of_nat (i * BLOCK_SPAN) OR PTE_KERNEL_DEVICE) [64..<88] @ replicate (N_PTE_PER_TABLE - 88) 0"

definition kernel_pt_lv2_ram :: "u64 list" where
  "kernel_pt_lv2_ram = map (\<lambda>i. of_nat (0x40000000 + i * BLOCK_SPAN) OR PTE_KERNEL_DATA) [0..<512]"

definition kernel_pt_level1 :: "nat \<Rightarrow> nat \<Rightarrow> u64 list" where
  "kernel_pt_level1 dev ram = [of_nat (K2P dev) + PTE_TABLE, of_nat (K2P ram) + PTE_TABLE] @ replicate (N_PTE_PER_TABLE - 2) 0"

definition kernel_pt_level0 :: "nat \<Rightarrow> u64 list" where
  "kernel_pt_level0 l1 = [of_nat (K2P l1) + PTE_TABLE] @ replicate (N_PTE_PER_TABLE - 1) 0"

definition invalid_tables :: "u64 list" where
  "invalid_tables = replicate N_PTE_PER_TABLE 0"

text \<open>
  What the tables mean to the processor: the third level holds blocks of two megabytes.  The
  result is the physical address and the attributes.
\<close>

definition kernel_lookup :: "(nat \<Rightarrow> u64 list) \<Rightarrow> nat \<Rightarrow> u64 \<Rightarrow> (nat \<times> u64) option" where
  "kernel_lookup tabs l0 va =
     (let e0 = tabs l0 ! VA_PART0 va in
      if \<not> pte_valid e0 then None
      else let e1 = tabs (target e0) ! VA_PART1 va in
        if \<not> pte_valid e1 then None
        else let e2 = tabs (target e1) ! VA_PART2 va in
          if \<not> pte_valid e2 then None
          else Some (unat (PTE_ADDRESS e2) + unat va mod BLOCK_SPAN, PTE_FLAGS e2))"

definition boot_tables :: "nat \<Rightarrow> nat \<Rightarrow> nat \<Rightarrow> nat \<Rightarrow> nat \<Rightarrow> u64 list" where
  "boot_tables l0 l1 dev ram a =
     (if a = l0 then kernel_pt_level0 l1 else if a = l1 then kernel_pt_level1 dev ram
      else if a = dev then kernel_pt_lv2_dev else if a = ram then kernel_pt_lv2_ram else invalid_tables)"

section \<open>What the tables map\<close>

lemma aligned_bits:
  assumes "k * 4096 < 2 ^ 48"
  shows "take_bit 12 (of_nat (k * 4096) :: u64) = 0" "take_bit 48 (of_nat (k * 4096) :: u64) = of_nat (k * 4096)"
    "unat (of_nat (k * 4096) :: u64) = k * 4096"
proof -
  show u: "unat (of_nat (k * 4096) :: u64) = k * 4096" using assms by (intro u64_of_nat) simp
  show "take_bit 12 (of_nat (k * 4096) :: u64) = 0"
    by (rule word_unat_eq_iff [THEN iffD2]) (simp only: unsigned_take_bit_eq u, simp add: take_bit_eq_mod)
  show "take_bit 48 (of_nat (k * 4096) :: u64) = of_nat (k * 4096)"
    using assms by (intro word_unat_eq_iff [THEN iffD2]) (simp only: unsigned_take_bit_eq u, simp add: take_bit_eq_mod)
qed

lemma flags_or:
  assumes lo: "take_bit 12 (w :: u64) = 0" and hi: "take_bit 48 w = w" and f: "f AND NOT 0xFFFF000000000FFF = 0"
  shows "PTE_FLAGS (w OR f) = f"
proof -
  have b: "12 \<le> j \<and> j < 48" if "bit w j" for j
    using lo hi that by (metis bit_0_eq bit_take_bit_iff bot_apply bot_bool_def not_le)
  have "w AND 0xFFFF000000000FFF = 0"
    unfolding mask_bits by (rule bit_eqI) (auto simp: bit_simps dest: b)
  moreover have "f AND 0xFFFF000000000FFF = f"
  proof -
    have "(f AND 0xFFFF000000000FFF) OR (f AND NOT 0xFFFF000000000FFF) = f"
      by (simp only: bit.conj_disj_distrib [symmetric] bit.disj_cancel_right and.right_neutral)
    then show ?thesis by (simp only: f or.right_neutral)
  qed
  ultimately show ?thesis unfolding PTE_FLAGS_def by (simp only: bit.conj_disj_distrib2 or.left_neutral)
qed

lemma table_entry:
  assumes "good_page p"
  shows "of_nat (K2P p) + PTE_TABLE = of_nat (K2P p) OR PTE_TABLE"
proof (rule disjunctive_add)
  fix n
  obtain k where k: "p = 4096 * k" using assms by (auto simp: good_page_def PAGE_SIZE_def)
  obtain k' where k': "p - KSPACE_MASK = k' * 4096" using k by (auto simp: KSPACE_MASK_def intro!: that [of "k - 0xFFFF000000000"])
  have "p - KSPACE_MASK < 2 ^ 48" using assms by (auto simp: good_page_def KSPACE_MASK_def)
  moreover have "(of_nat (K2P p) :: u64) = of_nat (k' * 4096)"
  proof -
    have "(of_nat (unat (of_nat (K2P p) :: u64)) :: u64) = of_nat (k' * 4096)" by (simp only: unat_K2P_good [OF assms] k')
    then show ?thesis by simp
  qed
  ultimately have lo: "take_bit 12 (of_nat (K2P p) :: u64) = 0" using aligned_bits(1) [of k'] k' by simp
  have "\<not> bit (of_nat (K2P p) :: u64) n" if "n < 12" using lo that by (metis bit_0_eq bit_take_bit_iff bot_apply bot_bool_def)
  moreover have "\<not> bit PTE_TABLE n" if "12 \<le> n"
  proof -
    have m: "PTE_TABLE = mask 2" by (simp add: PTE_TABLE_def mask_eq_exp_minus_1)
    have "\<not> n < 2" using that by simp
    then show ?thesis unfolding m bit_mask_iff by blast
  qed
  ultimately show "\<not> bit (of_nat (K2P p) :: u64) n \<or> \<not> bit PTE_TABLE n" using linorder_le_less_linear [of 12 n] by auto
qed

lemma device_flags:
  "PTE_KERNEL_DEVICE AND NOT 0xFFFF000000000FFF = 0" "PTE_KERNEL_DATA AND NOT 0xFFFF000000000FFF = 0"
  "PTE_KERNEL_DEVICE AND 1 \<noteq> 0" "PTE_KERNEL_DATA AND 1 \<noteq> 0"
  by (simp_all add: PTE_KERNEL_DEVICE_def PTE_KERNEL_DATA_def PTE_KERNEL_def PTE_DEVICE_def MT_DEVICE_nGnRnE_def PTE_NORMAL_def
      MT_NORMAL_def AF_USED_def SH_OUTER_def PTE_BLOCK_def)

lemma block_entry:
  assumes "k * 4096 < 2 ^ 48" and "f = PTE_KERNEL_DEVICE \<or> f = PTE_KERNEL_DATA"
  shows "pte_valid (of_nat (k * 4096) OR f)" "unat (PTE_ADDRESS (of_nat (k * 4096) OR f)) = k * 4096" "PTE_FLAGS (of_nat (k * 4096) OR f) = f"
proof -
  have f: "f AND NOT 0xFFFF000000000FFF = 0" "f AND 1 \<noteq> 0" using assms(2) device_flags by auto
  note w = aligned_bits [OF assms(1)]
  show "pte_valid (of_nat (k * 4096) OR f)" by (rule valid_or [OF f(2)])
  show "unat (PTE_ADDRESS (of_nat (k * 4096) OR f)) = k * 4096" using address_or [OF w(1,2) f(1)] w(3) by simp
  show "PTE_FLAGS (of_nat (k * 4096) OR f) = f" by (rule flags_or [OF w(1,2) f(1)])
qed

lemma dev_entry:
  assumes "i < 512"
  shows "kernel_pt_lv2_dev ! i = (if i < 64 then of_nat (i * BLOCK_SPAN) AND NOT PTE_VALID
     else if i < 88 then of_nat (i * BLOCK_SPAN) OR PTE_KERNEL_DEVICE else 0)"
proof -
  consider "i < 64" | "64 \<le> i" "i < 88" | "88 \<le> i" by linarith
  then show ?thesis using assms
    by cases (simp_all add: kernel_pt_lv2_dev_def nth_append N_PTE_PER_TABLE_def less_diff_conv2 del: upt_rec_numeral)
qed

lemma boot_rom_invalid: "\<not> pte_valid (w AND NOT PTE_VALID)"
  by (simp add: pte_valid_def and.assoc)

lemma kernel_lookup_low:
  assumes g: "good_page l1" "good_page dev" "good_page ram" and d: "distinct [l0, l1, dev, ram]" and pa: "pa < 2 ^ 48"
  shows "kernel_lookup (boot_tables l0 l1 dev ram) l0 (of_nat (KSPACE_MASK + pa)) =
    (if 0x8000000 \<le> pa \<and> pa < 0xb000000 then Some (pa, PTE_KERNEL_DEVICE)
     else if 0x40000000 \<le> pa \<and> pa < 0x80000000 then Some (pa, PTE_KERNEL_DATA) else None)"
proof -
  let ?va = "of_nat (KSPACE_MASK + pa) :: u64" and ?T = "boot_tables l0 l1 dev ram"
  have u: "unat ?va = KSPACE_MASK + pa" by (rule u64_of_nat) (use pa in \<open>simp add: KSPACE_MASK_def\<close>)
  have parts: "VA_PART0 ?va = pa div 2 ^ 39" "VA_PART1 ?va = pa div 2 ^ 30 mod 512" "VA_PART2 ?va = pa div 2 ^ 21 mod 512"
  proof -
    have d: "(33553920 + x) mod 512 = x mod 512" "(17179607040 + x) mod 512 = x mod 512" "(8795958804480 + x) mod 512 = x mod 512" for x :: nat
      using mod_add_left_eq [of 33553920 512 x] mod_add_left_eq [of 17179607040 512 x] mod_add_left_eq [of 8795958804480 512 x] by simp_all
    have "pa div 2 ^ 39 < 512" using pa by (simp add: less_mult_imp_div_less)
    then show "VA_PART0 ?va = pa div 2 ^ 39" "VA_PART1 ?va = pa div 2 ^ 30 mod 512" "VA_PART2 ?va = pa div 2 ^ 21 mod 512"
      unfolding part_eq u by (simp_all add: KSPACE_MASK_def div_add1_eq [of "0xFFFF000000000000" pa] d)
  qed
  have off: "unat ?va mod BLOCK_SPAN = pa mod BLOCK_SPAN" unfolding u by (simp add: KSPACE_MASK_def BLOCK_SPAN_def mod_add_eq [symmetric])
  note T = boot_tables_def kernel_pt_level0_def kernel_pt_level1_def table_entry [OF g(1)] table_entry [OF g(2)] table_entry [OF g(3)]
  show ?thesis
  proof (cases "pa < 2 ^ 39")
    case False
    then have "VA_PART0 ?va = Suc (pa div 2 ^ 39 - 1)" "pa div 2 ^ 39 - 1 < 511" using pa unfolding parts by (simp_all add: div_greater_zero_iff less_mult_imp_div_less)
    then have "?T l0 ! VA_PART0 ?va = 0" by (simp add: T N_PTE_PER_TABLE_def)
    then show ?thesis using False by (simp add: kernel_lookup_def)
  next
    case True
    then have "VA_PART0 ?va = 0" unfolding parts by simp
    then have e0: "?T l0 ! VA_PART0 ?va = of_nat (K2P l1) OR PTE_TABLE" by (simp add: T)
    have t1: "?T l1 = kernel_pt_level1 dev ram" "?T dev = kernel_pt_lv2_dev" "?T ram = kernel_pt_lv2_ram" using d by (auto simp: boot_tables_def)
    have p1: "VA_PART1 ?va = pa div 2 ^ 30" using True unfolding parts by (simp add: less_mult_imp_div_less)
    have sub: "kernel_lookup ?T l0 ?va = (let e1 = kernel_pt_level1 dev ram ! (pa div 2 ^ 30) in
        if \<not> pte_valid e1 then None else let e2 = ?T (target e1) ! (pa div 2 ^ 21 mod 512) in
          if \<not> pte_valid e2 then None else Some (unat (PTE_ADDRESS e2) + pa mod BLOCK_SPAN, PTE_FLAGS e2))"
      unfolding kernel_lookup_def e0 off p1 parts(3) by (simp add: g t1 Let_def)
    consider "pa < 2 ^ 30" | "2 ^ 30 \<le> pa" "pa < 2 ^ 31" | "2 ^ 31 \<le> pa" by linarith
    then show ?thesis
    proof cases
      case 1
      define i where "i = pa div 2 ^ 21"
      have i: "i < 512" "i * BLOCK_SPAN + pa mod BLOCK_SPAN = pa" using 1 by (simp_all add: i_def BLOCK_SPAN_def less_mult_imp_div_less)
      have k: "i * BLOCK_SPAN = (i * 512) * 4096" "i * 512 * 4096 < 2 ^ 48" using i(1) by (simp_all add: BLOCK_SPAN_def)
      have c: "i < 64 \<longleftrightarrow> pa < 0x8000000" "i < 88 \<longleftrightarrow> pa < 0xb000000" by (auto simp: i_def)
      have "kernel_lookup ?T l0 ?va = (let e2 = kernel_pt_lv2_dev ! i in if \<not> pte_valid e2 then None else Some (unat (PTE_ADDRESS e2) + pa mod BLOCK_SPAN, PTE_FLAGS e2))"
        unfolding sub using 1 i(1) by (simp add: kernel_pt_level1_def table_entry g t1 i_def Let_def)
      then show ?thesis using 1 i c block_entry [OF k(2), of PTE_KERNEL_DEVICE] unfolding dev_entry [OF i(1)] k(1) [symmetric]
        by (auto simp: boot_rom_invalid)
    next
      case 2
      define i where "i = pa div 2 ^ 21 mod 512"
      have q: "pa div 2 ^ 30 = 1" using 2 by (simp add: div_nat_eqI)
      have i: "i < 512" "0x40000000 + i * BLOCK_SPAN + pa mod BLOCK_SPAN = pa" 
      proof -
        show "i < 512" by (simp add: i_def)
        have "pa div 2 ^ 21 div 512 = 1" using q by (simp add: div_mult2_eq [symmetric])
        then have "pa div 2 ^ 21 = 512 + i" using div_mult_mod_eq [of "pa div 2 ^ 21" 512] by (simp add: i_def)
        then show "0x40000000 + i * BLOCK_SPAN + pa mod BLOCK_SPAN = pa" using div_mult_mod_eq [of pa "2 ^ 21"] by (simp add: BLOCK_SPAN_def)
      qed
      have k: "0x40000000 + i * BLOCK_SPAN = (0x40000 + i * 512) * 4096" "(0x40000 + i * 512) * 4096 < 2 ^ 48" using i(1) by (simp_all add: BLOCK_SPAN_def)
      have "kernel_pt_lv2_ram ! i = of_nat (0x40000000 + i * BLOCK_SPAN) OR PTE_KERNEL_DATA" using i(1) by (simp add: kernel_pt_lv2_ram_def)
      moreover have "kernel_lookup ?T l0 ?va = (let e2 = kernel_pt_lv2_ram ! i in if \<not> pte_valid e2 then None else Some (unat (PTE_ADDRESS e2) + pa mod BLOCK_SPAN, PTE_FLAGS e2))"
        unfolding sub q by (simp add: kernel_pt_level1_def table_entry g t1 i_def Let_def)
      ultimately show ?thesis using 2 i block_entry [OF k(2), of PTE_KERNEL_DATA] unfolding k(1) [symmetric] by (simp add: Let_def)
    next
      case 3
      then have "2 \<le> pa div 2 ^ 30" by (simp add: less_eq_div_iff_mult_less_eq)
      moreover have "pa div 2 ^ 30 < 512" using True by (simp add: less_mult_imp_div_less)
      ultimately have "kernel_pt_level1 dev ram ! (pa div 2 ^ 30) = 0" by (simp add: kernel_pt_level1_def nth_append N_PTE_PER_TABLE_def nth_Cons')
      then have "kernel_lookup ?T l0 ?va = None" unfolding sub by simp
      then show ?thesis using 3 by simp
    qed
  qed
qed

end
