(* ===== verification/SysPath.thy ===== *)
theory SysPath
  imports InodeFile File
begin

unbundle bit_operations_syntax

text \<open>
  The file system part of \<^verbatim>\<open>src/kernel/sysfile.c\<close>: what \<^verbatim>\<open>newfstatat\<close>, \<^verbatim>\<open>unlinkat\<close>, \<^verbatim>\<open>create\<close>,
  \<^verbatim>\<open>mkdirat\<close>, \<^verbatim>\<open>mknodat\<close> and \<^verbatim>\<open>chdir\<close> do with a path once it has been read from user memory.
  Every one of them is one operation of the log; \<^verbatim>\<open>-1\<close> is the error result.
\<close>

section \<open>Status and directories\<close>

definition DOT :: "u8 list" where "DOT = [46, 0]"

definition DOTDOT :: "u8 list" where "DOTDOT = [46, 46, 0]"

definition name_buffer :: "u8 list" where
  "name_buffer = replicate FILE_NAME_MAX_LENGTH 0"

text \<open>The buffer \<^verbatim>\<open>name\<close> is written before it is read: its first content does not matter.\<close>

text \<open>\<^verbatim>\<open>inodes.unlock(ip); inodes.put(&ctx, ip);\<close>\<close>

definition unlock_put :: "'c block_cache \<Rightarrow> nat \<Rightarrow> 'c isys \<Rightarrow> 'c isys outcome" where
  "unlock_put bc ip s = andthen (it_unlock (inodes bc) ip s) (it_put (inodes bc) True ip)"

definition stat_path :: "'c block_cache \<Rightarrow> u8 list \<Rightarrow> 'c isys \<Rightarrow> (int \<times> kstat option \<times> 'c isys) outcome" where
  "stat_path bc path s =
     andthen (op_begin bc s) (\<lambda>s.
     andthen (namei bc path True s) (\<lambda>(r, s).
     case r of
       None \<Rightarrow> andthen (op_end bc s) (\<lambda>s. Ok (- 1, None, s))
     | Some ip \<Rightarrow>
         andthen (it_lock (inodes bc) ip s) (\<lambda>s.
         andthen (stati ip s) (\<lambda>st.
         andthen (unlock_put bc ip s) (\<lambda>s.
         andthen (op_end bc s) (\<lambda>s. Ok (0, Some st, s)))))))"

text \<open>The size of the directory does not change during the loop of \<^verbatim>\<open>isdirempty\<close>.\<close>

function isdirempty_from :: "'c block_cache \<Rightarrow> nat \<Rightarrow> nat \<Rightarrow> nat \<Rightarrow> 'c isys \<Rightarrow> (bool \<times> 'c isys) outcome" where
  "isdirempty_from bc dp off sz s =
     (if off < sz
      then andthen (it_read (inodes bc) dp (of_nat off) (of_nat sizeof_DirEntry) s) (\<lambda>(n, de, s).
           if n \<noteq> of_nat sizeof_DirEntry then Panic
           else if dinode (decode_dirent de) \<noteq> 0 then Ok (False, s)
           else isdirempty_from bc dp (off + sizeof_DirEntry) sz s)
      else Ok (True, s))"
  by pat_completeness auto
termination
  by (relation "measure (\<lambda>(bc, dp, off, sz, s). sz - off)") (auto simp: sizeof_DirEntry_def)

declare isdirempty_from.simps [simp del]

definition isdirempty :: "'c block_cache \<Rightarrow> nat \<Rightarrow> 'c isys \<Rightarrow> (bool \<times> 'c isys) outcome" where
  "isdirempty bc dp s = isdirempty_from bc dp (2 * sizeof_DirEntry) (unat (num_bytes (ent dp s))) s"

section \<open>unlinkat\<close>

text \<open>\<open>unlink_bad\<close> is the label \<^verbatim>\<open>bad\<close>, \<open>unlink_entry\<close> what happens to an entry that may go.\<close>

definition unlink_bad :: "'c block_cache \<Rightarrow> nat \<Rightarrow> 'c isys \<Rightarrow> (int \<times> 'c isys) outcome" where
  "unlink_bad bc dp s = andthen (unlock_put bc dp s) (\<lambda>s. andthen (op_end bc s) (\<lambda>s. Ok (- 1, s)))"

definition drop_link :: "'c block_cache \<Rightarrow> nat \<Rightarrow> 'c isys \<Rightarrow> 'c isys outcome" where
  "drop_link bc i s = it_sync (inodes bc) True i True (upd_ent i (\<lambda>e. e\<lparr>num_links := num_links e - 1\<rparr>) s)"

definition unlink_entry :: "'c block_cache \<Rightarrow> nat \<Rightarrow> nat \<Rightarrow> nat \<Rightarrow> 'c isys \<Rightarrow> (int \<times> 'c isys) outcome" where
  "unlink_entry bc dp ip off s =
     andthen (it_write (inodes bc) True dp (replicate sizeof_DirEntry 0) (of_nat off) (of_nat sizeof_DirEntry) s) (\<lambda>(n, s).
     if n \<noteq> of_nat sizeof_DirEntry then Panic
     else andthen (if itype (ent ip s) = INODE_DIRECTORY then drop_link bc dp s else Ok s) (\<lambda>s.
          andthen (unlock_put bc dp s) (\<lambda>s.
          andthen (drop_link bc ip s) (\<lambda>s.
          andthen (unlock_put bc ip s) (\<lambda>s.
          andthen (op_end bc s) (\<lambda>s. Ok (0, s)))))))"

definition unlink_found :: "'c block_cache \<Rightarrow> nat \<Rightarrow> nat \<Rightarrow> nat \<Rightarrow> 'c isys \<Rightarrow> (int \<times> 'c isys) outcome" where
  "unlink_found bc dp inumber off s =
     andthen (it_get (inodes bc) inumber s) (\<lambda>(r, s).
     case r of
       None \<Rightarrow> Undef
     | Some ip \<Rightarrow>
         andthen (it_lock (inodes bc) ip s) (\<lambda>s.
         if num_links (ent ip s) < 1 then Panic
         else andthen (if itype (ent ip s) = INODE_DIRECTORY then isdirempty bc ip s else Ok (True, s)) (\<lambda>(empty, s).
              if \<not> empty then andthen (unlock_put bc ip s) (unlink_bad bc dp)
              else unlink_entry bc dp ip off s)))"

definition unlink_path :: "'c block_cache \<Rightarrow> u8 list \<Rightarrow> 'c isys \<Rightarrow> (int \<times> 'c isys) outcome" where
  "unlink_path bc path s =
     andthen (op_begin bc s) (\<lambda>s.
     andthen (nameiparent bc path name_buffer True s) (\<lambda>(r, name, s).
     case r of
       None \<Rightarrow> andthen (op_end bc s) (\<lambda>s. Ok (- 1, s))
     | Some dp \<Rightarrow>
         andthen (it_lock (inodes bc) dp s) (\<lambda>s.
         andthen (strncmp name DOT FILE_NAME_MAX_LENGTH) (\<lambda>c1.
         andthen (if c1 = 0 then Ok 0 else strncmp name DOTDOT FILE_NAME_MAX_LENGTH) (\<lambda>c2.
         if c1 = 0 \<or> c2 = 0 then unlink_bad bc dp s
         else andthen (it_lookup (inodes bc) dp name s) (\<lambda>(inumber, off, s).
              case off of
                None \<Rightarrow> unlink_bad bc dp s
              | Some off \<Rightarrow> if inumber = 0 then unlink_bad bc dp s else unlink_found bc dp inumber off s))))))"

section \<open>create\<close>

text \<open>The parent is never locked, but it is unlocked, as the code has it.\<close>

definition create_existing :: "'c block_cache \<Rightarrow> nat \<Rightarrow> nat \<Rightarrow> u16 \<Rightarrow> 'c isys \<Rightarrow> (nat option \<times> 'c isys) outcome" where
  "create_existing bc parent ip type s =
     andthen (unlock_put bc parent s) (\<lambda>s.
     andthen (it_lock (inodes bc) ip s) (\<lambda>s.
     if type = INODE_REGULAR \<and> itype (ent ip s) = INODE_REGULAR then Ok (Some ip, s)
     else andthen (unlock_put bc ip s) (\<lambda>s. Ok (None, s))))"

definition create_dots :: "'c block_cache \<Rightarrow> nat \<Rightarrow> nat \<Rightarrow> 'c isys \<Rightarrow> 'c isys outcome" where
  "create_dots bc parent ip s =
     andthen (it_sync (inodes bc) True parent True (upd_ent parent (\<lambda>e. e\<lparr>num_links := num_links e + 1\<rparr>) s)) (\<lambda>s.
     andthen (it_insert (inodes bc) True ip DOT ip s) (\<lambda>(_, s).
     andthen (it_insert (inodes bc) True ip DOTDOT parent s) (\<lambda>(_, s). Ok s)))"

definition create_new :: "'c block_cache \<Rightarrow> nat \<Rightarrow> u8 list \<Rightarrow> u16 \<Rightarrow> u16 \<Rightarrow> u16 \<Rightarrow> 'c isys \<Rightarrow> (nat option \<times> 'c isys) outcome" where
  "create_new bc parent name type mj mn s =
     andthen (it_alloc (inodes bc) True type s) (\<lambda>(ino, s).
     andthen (it_get (inodes bc) ino s) (\<lambda>(r, s).
     case r of
       None \<Rightarrow> andthen (it_put (inodes bc) True parent s) (\<lambda>s. Ok (None, s))
     | Some ip \<Rightarrow>
         andthen (it_lock (inodes bc) ip s) (\<lambda>s.
         andthen (it_sync (inodes bc) True ip True (upd_ent ip (\<lambda>e. e\<lparr>major := mj, minor := mn, num_links := 1\<rparr>) s)) (\<lambda>s.
         andthen (if itype (ent ip s) = INODE_DIRECTORY then create_dots bc parent ip s else Ok s) (\<lambda>s.
         andthen (it_insert (inodes bc) True parent name ip s) (\<lambda>(_, s).
         andthen (unlock_put bc parent s) (\<lambda>s. Ok (Some ip, s))))))))"

definition create :: "'c block_cache \<Rightarrow> u8 list \<Rightarrow> u16 \<Rightarrow> u16 \<Rightarrow> u16 \<Rightarrow> 'c isys \<Rightarrow> (nat option \<times> 'c isys) outcome" where
  "create bc path type mj mn s =
     andthen (nameiparent bc path name_buffer True s) (\<lambda>(r, name, s).
     case r of
       None \<Rightarrow> Ok (None, s)
     | Some parent \<Rightarrow>
         andthen (it_lookup (inodes bc) parent name s) (\<lambda>(dentry, _, s).
         andthen (it_get (inodes bc) dentry s) (\<lambda>(r, s).
         case r of
           Some ip \<Rightarrow> create_existing bc parent ip type s
         | None \<Rightarrow> create_new bc parent name type mj mn s)))"

text \<open>\<^verbatim>\<open>mkdirat\<close> and \<^verbatim>\<open>mknodat\<close> drop the new inode again.\<close>

definition make_node :: "'c block_cache \<Rightarrow> u8 list \<Rightarrow> u16 \<Rightarrow> u16 \<Rightarrow> u16 \<Rightarrow> 'c isys \<Rightarrow> (int \<times> 'c isys) outcome" where
  "make_node bc path type mj mn s =
     andthen (op_begin bc s) (\<lambda>s.
     andthen (create bc path type mj mn s) (\<lambda>(r, s).
     case r of
       None \<Rightarrow> andthen (op_end bc s) (\<lambda>s. Ok (- 1, s))
     | Some ip \<Rightarrow> andthen (unlock_put bc ip s) (\<lambda>s. andthen (op_end bc s) (\<lambda>s. Ok (0, s)))))"

text \<open>The inode that \<^verbatim>\<open>openat\<close> works on, locked; the operation is open.\<close>

definition O_CREAT :: u32 where "O_CREAT = 64"

definition open_inode :: "'c block_cache \<Rightarrow> u8 list \<Rightarrow> u32 \<Rightarrow> 'c isys \<Rightarrow> (nat option \<times> 'c isys) outcome" where
  "open_inode bc path omode s =
     (if omode AND O_CREAT \<noteq> 0 then create bc path INODE_REGULAR 0 0 s
      else andthen (namei bc path True s) (\<lambda>(r, s).
           case r of
             None \<Rightarrow> Ok (None, s)
           | Some ip \<Rightarrow> andthen (it_lock (inodes bc) ip s) (\<lambda>s. Ok (Some ip, s))))"

text \<open>The search of \<^verbatim>\<open>chdir\<close>; the reference to the directory is gone when it returns.\<close>

definition chdir_path :: "'c block_cache \<Rightarrow> u8 list \<Rightarrow> 'c isys \<Rightarrow> (nat option \<times> 'c isys) outcome" where
  "chdir_path bc path s =
     andthen (op_begin bc s) (\<lambda>s.
     andthen (namei bc path True s) (\<lambda>(r, s).
     case r of
       None \<Rightarrow> andthen (op_end bc s) (\<lambda>s. Ok (None, s))
     | Some ip \<Rightarrow>
         andthen (it_lock (inodes bc) ip s) (\<lambda>s.
         let dir = (itype (ent ip s) = INODE_DIRECTORY)
         in andthen (unlock_put bc ip s) (\<lambda>s.
            andthen (op_end bc s) (\<lambda>s. Ok (if dir then Some ip else None, s))))))"

end
