(* ===== verification/ProcDefs.thy ===== *)
theory ProcDefs
  imports Sched File PageTable
begin

text \<open>
  The data of \<^verbatim>\<open>src/kernel/proc.h\<close> and the state that the process layer works on: the scheduler
  (its \<^verbatim>\<open>state\<close>, \<^verbatim>\<open>wait_time\<close> and \<^verbatim>\<open>killed\<close> of every process), the files, the memory and the
  rest of every process.  A \<^verbatim>\<open>Proc *\<close> is its address, \<open>0\<close> is \<^verbatim>\<open>NULL\<close>; the list behind the
  sentinel \<^verbatim>\<open>children\<close> is a list of processes in list order.
\<close>

section \<open>Data\<close>

definition NVMA :: nat where "NVMA = 16"

definition MAXVA :: nat where "MAXVA = push_bit (9 + 9 + 9 + 1 - 1) 1"

definition VMA_START :: nat where "VMA_START = drop_bit 4 MAXVA"

record user_context =
  q0_0 :: u64
  q0_1 :: u64
  uelr :: u64
  utpidr :: u64
  usp :: u64
  uspsr :: u64
  ux :: "u64 list"

text \<open>The code that a fresh process starts in, by name.\<close>

datatype code = proc_entry | kernel_entry | trap_return | idle_entry | code_at u64

record kernel_context =
  klr :: code
  kx0 :: code
  kx1 :: u64

record vma =
  vstart :: nat
  vend :: nat
  vlength :: nat
  voff :: nat
  vperm :: u64
  vflags :: u32
  vfile :: nat
  vnext :: "nat option"
  vlock :: spinlock

text \<open>
  A pointer to a \<^verbatim>\<open>Vma\<close> is a position in \<^verbatim>\<open>vma_list\<close> or \<^verbatim>\<open>NULL\<close>; the chain of a process starts at
  \<open>pvma\<close> and goes on with \<open>vnext\<close>.
\<close>

record uproc =
  pidno :: int
  exitcode :: int
  childexit :: semaphore
  proclock :: spinlock
  children :: "tid list"
  parent :: tid
  pgd :: pgdir
  kstack :: nat
  ucontext :: user_context
  kcontext :: kernel_context
  oftable :: "nat option list"
  cwd :: "nat option"
  pvma :: "nat option"

record 'c psys =
  sch :: sched_sys
  pfs :: "'c fsys"
  pvm :: vm_sys
  uprocs :: "tid \<Rightarrow> uproc"
  on_cpu :: cpuid
  now_ms :: u64
  root_proc :: tid
  invalid_pt :: nat
  last_pid :: int
  pid_list :: "(nat \<times> int) list"
  pidlock :: spinlock
  elock :: spinlock
  klock :: spinlock
  vma_list :: "nat \<Rightarrow> vma"
  raw_section :: section_info
  raw_ucontext :: user_context
  raw_kcontext :: kernel_context

text \<open>
  The last three fields are what the fields of a fresh object hold that the code does not set;
  \<open>now_ms\<close> is the reading of the clock and \<open>invalid_pt\<close> the address of the empty table.
\<close>

section \<open>Access\<close>

definition this_proc :: "'c psys \<Rightarrow> tid" where
  "this_proc s = thisproc (sch s) (on_cpu s)"

definition upd_uproc :: "tid \<Rightarrow> (uproc \<Rightarrow> uproc) \<Rightarrow> 'c psys \<Rightarrow> 'c psys" where
  "upd_uproc p f s = s\<lparr>uprocs := (uprocs s)(p := f (uprocs s p))\<rparr>"

lemma upd_uproc_simps [simp]:
  "sch (upd_uproc p f s) = sch s" "pfs (upd_uproc p f s) = pfs s" "pvm (upd_uproc p f s) = pvm s"
  "uprocs (upd_uproc p f s) = (uprocs s)(p := f (uprocs s p))" "on_cpu (upd_uproc p f s) = on_cpu s"
  "now_ms (upd_uproc p f s) = now_ms s" "invalid_pt (upd_uproc p f s) = invalid_pt s" "root_proc (upd_uproc p f s) = root_proc s"
  "last_pid (upd_uproc p f s) = last_pid s" "pid_list (upd_uproc p f s) = pid_list s"
  "pidlock (upd_uproc p f s) = pidlock s" "elock (upd_uproc p f s) = elock s" "klock (upd_uproc p f s) = klock s"
  "vma_list (upd_uproc p f s) = vma_list s" "raw_section (upd_uproc p f s) = raw_section s"
  "raw_ucontext (upd_uproc p f s) = raw_ucontext s" "raw_kcontext (upd_uproc p f s) = raw_kcontext s" "this_proc (upd_uproc p f s) = this_proc s"
  by (simp_all add: upd_uproc_def this_proc_def)

definition lock_proc :: "tid \<Rightarrow> 'c psys \<Rightarrow> 'c psys outcome" where
  "lock_proc p s = andthen (acquire_spinlock (proclock (uprocs s p))) (\<lambda>l. Ok (upd_uproc p (\<lambda>q. q\<lparr>proclock := l\<rparr>) s))"

definition unlock_proc :: "tid \<Rightarrow> 'c psys \<Rightarrow> 'c psys" where
  "unlock_proc p = upd_uproc p (\<lambda>q. q\<lparr>proclock := release_spinlock (proclock q)\<rparr>)"

text \<open>
  Calls into the other layers.  The memory is the one of the file layer; the running process is
  the thread, and its working directory and its killed flag are what the file layer sees.
\<close>

definition with_sched :: "(sched_sys \<Rightarrow> ('a \<times> sched_sys) outcome) \<Rightarrow> 'c psys \<Rightarrow> ('a \<times> 'c psys) outcome" where
  "with_sched g s = andthen (g (sch s)) (\<lambda>(x, t). Ok (x, s\<lparr>sch := t\<rparr>))"

definition with_mem :: "(mem_sys \<Rightarrow> ('a \<times> mem_sys) outcome) \<Rightarrow> 'c psys \<Rightarrow> ('a \<times> 'c psys) outcome" where
  "with_mem g s = andthen (g (fmem (pfs s))) (\<lambda>(x, m). Ok (x, s\<lparr>pfs := (pfs s)\<lparr>fmem := m\<rparr>\<rparr>))"

definition do_mem :: "(mem_sys \<Rightarrow> mem_sys outcome) \<Rightarrow> 'c psys \<Rightarrow> 'c psys outcome" where
  "do_mem g s = andthen (g (fmem (pfs s))) (\<lambda>m. Ok (s\<lparr>pfs := (pfs s)\<lparr>fmem := m\<rparr>\<rparr>))"

definition with_vm :: "(vm_sys \<Rightarrow> ('a \<times> vm_sys) outcome) \<Rightarrow> 'c psys \<Rightarrow> ('a \<times> 'c psys) outcome" where
  "with_vm g s =
     andthen (g ((pvm s)\<lparr>vmem := fmem (pfs s)\<rparr>)) (\<lambda>(x, v).
     Ok (x, s\<lparr>pvm := v, pfs := (pfs s)\<lparr>fmem := vmem v\<rparr>\<rparr>))"

definition as_thread :: "'c psys \<Rightarrow> 'c fsys" where
  "as_thread s =
     (let p = this_proc s
      in (pfs s)\<lparr>cur_tid := p, fis := (fis (pfs s))\<lparr>cur_cwd := (case cwd (uprocs s p) of Some i \<Rightarrow> i | None \<Rightarrow> 0),
           cur_killed := killed (procs (sch s) p)\<rparr>\<rparr>)"

definition with_files :: "('c fsys \<Rightarrow> ('a \<times> 'c fsys) outcome) \<Rightarrow> 'c psys \<Rightarrow> ('a \<times> 'c psys) outcome" where
  "with_files g s = andthen (g (as_thread s)) (\<lambda>(x, t). Ok (x, s\<lparr>pfs := t\<rparr>))"

definition do_files :: "('c fsys \<Rightarrow> 'c fsys outcome) \<Rightarrow> 'c psys \<Rightarrow> 'c psys outcome" where
  "do_files g s = andthen (g (as_thread s)) (\<lambda>t. Ok (s\<lparr>pfs := t\<rparr>))"

definition do_inodes :: "('c isys \<Rightarrow> 'c isys outcome) \<Rightarrow> 'c psys \<Rightarrow> 'c psys outcome" where
  "do_inodes g = do_files (on_inodes g)"

text \<open>An operation on the page directory of a process.\<close>

definition with_pgd :: "tid \<Rightarrow> (pgdir \<Rightarrow> vm_sys \<Rightarrow> ('a \<times> pgdir \<times> vm_sys) outcome) \<Rightarrow> 'c psys \<Rightarrow> ('a \<times> 'c psys) outcome" where
  "with_pgd p g s =
     andthen (with_vm (\<lambda>v. andthen (g (pgd (uprocs s p)) v) (\<lambda>(x, pd, v). Ok ((x, pd), v))) s) (\<lambda>((x, pd), s).
     Ok (x, upd_uproc p (\<lambda>q. q\<lparr>pgd := pd\<rparr>) s))"

text \<open>\<^verbatim>\<open>post_sem\<close> on the semaphore of a process, with the activation of the thread it wakes.\<close>

definition post_childexit :: "tid \<Rightarrow> 'c psys \<Rightarrow> 'c psys outcome" where
  "post_childexit p s =
     andthen (post_sem_locked (childexit (uprocs s p))) (\<lambda>(w, m).
     let s = upd_uproc p (\<lambda>q. q\<lparr>childexit := m\<rparr>) s
     in case w of
          None \<Rightarrow> Ok s
        | Some t \<Rightarrow> andthen (with_sched (activate_proc t False) s) (\<lambda>(_, s). Ok s))"

end
