(* ===== verification/Paging.thy ===== *)
theory Paging
  imports ProcDefs
begin

unbundle bit_operations_syntax

text \<open>
  \<^verbatim>\<open>src/kernel/paging.c\<close>: the sections of an address space, the heap, the mapping of pages and the
  page fault handler, and what the kernel sees when it reads the memory of the running process.
  \<open>shadow\<close> is what the memory around the sentinel of the section list reads as when the code
  takes the sentinel for a section, and \<open>raw\<close> is what a fresh block of memory holds.
\<close>

section \<open>Sections\<close>

definition is_heap :: "section_info \<Rightarrow> bool" where
  "is_heap sec \<longleftrightarrow> sec_flags sec AND ST_HEAP \<noteq> 0"

text \<open>The loop over the pages of a section; the address does not wrap.\<close>

function free_pages_loop :: "pgdir \<Rightarrow> nat \<Rightarrow> nat \<Rightarrow> vm_sys \<Rightarrow> vm_sys outcome" where
  "free_pages_loop pd i endp s =
     (if i < endp
      then andthen (get_pte pd (of_nat i) False s) (\<lambda>(r, _, s).
           andthen (case r of
              None \<Rightarrow> Ok s
            | Some e \<Rightarrow> if pte_valid (get_pte_at e s) then page_free (target (get_pte_at e s)) s else Ok s) (\<lambda>s.
           free_pages_loop pd (i + PAGE_SIZE) endp s))
      else Ok s)"
  by pat_completeness auto
termination
  by (relation "measure (\<lambda>(pd, i, endp, s). endp - i)") (auto simp: PAGE_SIZE_def)

declare free_pages_loop.simps [simp del]

definition free_section :: "pgdir \<Rightarrow> nat \<times> section_info \<Rightarrow> vm_sys \<Rightarrow> vm_sys outcome" where
  "free_section pd sec s =
     andthen (free_pages_loop pd (page_base (unat (sec_begin (snd sec)))) (unat (sec_end (snd sec))) s) (\<lambda>s.
     andthen (kfree (Some (fst sec)) (vmem s)) (\<lambda>m. Ok (s\<lparr>vmem := m\<rparr>)))"

definition free_sections :: "pgdir \<Rightarrow> vm_sys \<Rightarrow> (pgdir \<times> vm_sys) outcome" where
  "free_sections pd s =
     andthen (for_each (free_section pd) (sections pd) s) (\<lambda>s. Ok (pd\<lparr>sections := []\<rparr>, s))"

text \<open>\<^verbatim>\<open>copy_sections\<close>: \<open>fdup\<close> is \<^verbatim>\<open>file_dup\<close> on the file table \<open>t\<close>.\<close>

definition copy_section :: "(nat \<Rightarrow> 'f \<Rightarrow> 'f outcome) \<Rightarrow> section_info \<Rightarrow> nat \<times> section_info \<Rightarrow>
    (nat \<times> section_info) list \<times> vm_sys \<times> 'f \<Rightarrow> ((nat \<times> section_info) list \<times> vm_sys \<times> 'f) outcome" where
  "copy_section fdup raw sec r =
     (case r of (done, s, t) \<Rightarrow>
      andthen (kalloc sizeof_section (vmem s)) (\<lambda>(a, m).
      let s = s\<lparr>vmem := m\<rparr>; old = snd sec
      in case a of
           None \<Rightarrow> Undef
         | Some a \<Rightarrow>
             let new = raw\<lparr>sec_flags := sec_flags old, sec_begin := sec_begin old, sec_end := sec_end old,
                        sec_length := sec_length old, sec_offset := sec_offset old\<rparr>
             in case sec_fp old of
                  None \<Rightarrow> Ok (done @ [(a, new)], s, t)
                | Some f \<Rightarrow> andthen (fdup f t) (\<lambda>t. Ok (done @ [(a, new\<lparr>sec_fp := Some f\<rparr>)], s, t))))"

definition copy_sections :: "(nat \<Rightarrow> 'f \<Rightarrow> 'f outcome) \<Rightarrow> section_info \<Rightarrow> (nat \<times> section_info) list \<Rightarrow> (nat \<times> section_info) list \<Rightarrow>
    vm_sys \<Rightarrow> 'f \<Rightarrow> ((nat \<times> section_info) list \<times> vm_sys \<times> 'f) outcome" where
  "copy_sections fdup raw from_secs to_secs s t =
     andthen (for_each (copy_section fdup raw) from_secs ([], s, t)) (\<lambda>(new, s, t). Ok (new @ to_secs, s, t))"

section \<open>The heap\<close>

text \<open>The search of \<^verbatim>\<open>sbrk\<close>: the position of the heap section, and \<^verbatim>\<open>begin\<close> at the end of the loop.\<close>

fun heap_from :: "section_info \<Rightarrow> nat \<Rightarrow> u64 \<Rightarrow> (nat \<times> section_info) list \<Rightarrow> nat option \<times> u64" where
  "heap_from shadow k begin [] = (None, begin)"
| "heap_from shadow k begin (sec # secs) =
     (if is_heap (snd sec) then (Some k, begin)
      else heap_from shadow (k + 1) (max begin (sec_end (case secs of [] \<Rightarrow> shadow | next # _ \<Rightarrow> snd next))) secs)"

definition find_heap :: "section_info \<Rightarrow> (nat \<times> section_info) list \<Rightarrow> nat option \<times> u64" where
  "find_heap shadow secs =
     (if secs = [] then (None, if is_heap shadow then 0 else sec_end shadow) else heap_from shadow 0 0 secs)"

definition shrink_page :: "pgdir \<Rightarrow> u64 \<Rightarrow> nat \<Rightarrow> vm_sys \<Rightarrow> vm_sys outcome" where
  "shrink_page pd old_end i s =
     andthen (get_pte pd (old_end + of_nat (i * PAGE_SIZE)) False s) (\<lambda>(r, _, s).
     case r of
       None \<Rightarrow> Ok s
     | Some e \<Rightarrow> if pte_valid (get_pte_at e s)
                 then andthen (page_free (target (get_pte_at e s)) s) (\<lambda>s. Ok (set_pte e 0 s))
                 else Ok s)"

definition heap_section :: "section_info \<Rightarrow> section_info \<Rightarrow> pgdir \<Rightarrow> vm_sys \<Rightarrow> (nat \<times> pgdir \<times> vm_sys) outcome" where
  "heap_section shadow raw pd s =
     (case find_heap shadow (sections pd) of
        (Some k, _) \<Rightarrow> Ok (k, pd, s)
      | (None, begin) \<Rightarrow>
          andthen (kalloc sizeof_section (vmem s)) (\<lambda>(a, m).
          case a of
            None \<Rightarrow> Undef
          | Some a \<Rightarrow> Ok (0, pd\<lparr>sections := (a, raw\<lparr>sec_flags := ST_HEAP, sec_begin := begin, sec_end := begin\<rparr>) # sections pd\<rparr>,
                        s\<lparr>vmem := m\<rparr>)))"

definition sbrk :: "section_info \<Rightarrow> section_info \<Rightarrow> nat \<Rightarrow> int \<Rightarrow> pgdir \<Rightarrow> vm_sys \<Rightarrow> (u64 \<times> pgdir \<times> vm_sys) outcome" where
  "sbrk shadow raw ipt sz pd s =
     andthen (heap_section shadow raw pd s) (\<lambda>(k, pd, s).
     let sec = sections pd ! k;
         old_end = sec_end (snd sec);
         pd = pd\<lparr>sections := (sections pd)[k := (fst sec, (snd sec)\<lparr>sec_end := old_end + word_of_int sz * of_nat PAGE_SIZE\<rparr>)]\<rparr>
     in andthen (if sz < 0 then for_each (shrink_page pd old_end) [0..<nat (- sz)] s else Ok s) (\<lambda>s.
        Ok (old_end, pd, attach_pgdir ipt pd s)))"

section \<open>Mapping\<close>

fun map_loop :: "nat \<Rightarrow> u64 \<Rightarrow> u64 \<Rightarrow> u64 \<Rightarrow> pgdir \<Rightarrow> vm_sys \<Rightarrow> (int \<times> pgdir \<times> vm_sys) outcome" where
  "map_loop 0 a pa perm pd s = Ok (0, pd, s)"
| "map_loop (Suc k) a pa perm pd s =
     andthen (get_pte pd a True s) (\<lambda>(r, pd, s).
     case r of
       None \<Rightarrow> Ok (- 1, pd, s)
     | Some e \<Rightarrow> map_loop k (a + of_nat PAGE_SIZE) (pa + of_nat PAGE_SIZE) perm pd (set_pte e (pa OR perm OR PTE_VALID) s))"

definition mappages :: "pgdir \<Rightarrow> u64 \<Rightarrow> nat \<Rightarrow> u64 \<Rightarrow> u64 \<Rightarrow> vm_sys \<Rightarrow> (int \<times> pgdir \<times> vm_sys) outcome" where
  "mappages pd va sz pa perm s =
     andthen (assert_that (unat va mod PAGE_SIZE = 0)) (\<lambda>_.
     andthen (assert_that (sz mod PAGE_SIZE = 0)) (\<lambda>_.
     andthen (assert_that (sz \<noteq> 0)) (\<lambda>_.
     map_loop (sz div PAGE_SIZE) va pa perm pd s)))"

section \<open>Page faults\<close>

text \<open>The address of a fresh page; \<^verbatim>\<open>NULL\<close> when there is none.\<close>

definition fresh_page :: "vm_sys \<Rightarrow> (nat \<times> vm_sys) outcome" where
  "fresh_page s = andthen (page_alloc s) (\<lambda>(p, s). Ok (case p of None \<Rightarrow> 0 | Some a \<Rightarrow> a, s))"

text \<open>The walk along the chain of regions: a chain of more than \<^verbatim>\<open>NVMA\<close> regions is a circle, and the walk does not end.\<close>

fun find_vma_from :: "nat \<Rightarrow> 'c psys \<Rightarrow> nat option \<Rightarrow> nat \<Rightarrow> nat option outcome" where
  "find_vma_from 0 s v addr = Blocked"
| "find_vma_from (Suc n) s v addr =
     (case v of
        None \<Rightarrow> Ok None
      | Some r \<Rightarrow> if vstart (vma_list s r) \<le> addr \<and> addr < vend (vma_list s r) then Ok (Some r)
                 else find_vma_from n s (vnext (vma_list s r)) addr)"

definition find_vma :: "'c psys \<Rightarrow> tid \<Rightarrow> nat \<Rightarrow> nat option outcome" where
  "find_vma s p addr = find_vma_from (Suc NVMA) s (pvma (uprocs s p)) addr"

text \<open>A fault inside a mapped file: a new page with the content of the file.\<close>

definition fault_in_file :: "'c block_cache \<Rightarrow> tid \<Rightarrow> nat \<Rightarrow> vma \<Rightarrow> 'c psys \<Rightarrow> (int \<times> 'c psys) outcome" where
  "fault_in_file bc p addr v s =
     (let addr = page_base addr
      in andthen (with_vm page_alloc s) (\<lambda>(mem, s).
         case mem of
           None \<Rightarrow> Ok (- 4, s)
         | Some mem \<Rightarrow>
             let s = s\<lparr>pvm := (pvm s)\<lparr>pbytes := (pbytes (pvm s))(mem := replicate PAGE_SIZE 0)\<rparr>\<rparr>
             in andthen (with_pgd p (\<lambda>pd. mappages pd (of_nat addr) PAGE_SIZE (of_nat mem) (vperm v)) s) (\<lambda>(r, s).
                if r \<noteq> 0 then andthen (do_mem (kfree (Some mem)) s) (\<lambda>s. Ok (- 5, s))
                else let ip = fobj (ffiles (pfs s) (vfile v))
                     in andthen (do_inodes (it_lock (inodes bc) ip) s) (\<lambda>s.
                        andthen (with_files (\<lambda>f.
                          andthen (it_read (inodes bc) ip (of_nat (voff v) + of_nat addr - of_nat (vstart v)) (of_nat PAGE_SIZE) (fis f)) (\<lambda>(_, bs, t).
                          Ok (bs, f\<lparr>fis := t\<rparr>))) s) (\<lambda>(bs, s).
                        let s = s\<lparr>pvm := (pvm s)\<lparr>pbytes := (pbytes (pvm s))(mem := splice 0 bs (pbytes (pvm s) mem))\<rparr>\<rparr>
                        in andthen (do_inodes (it_unlock (inodes bc) ip) s) (\<lambda>s. Ok (0, s)))))))"

text \<open>
  Every other fault.  On a page marked \<^verbatim>\<open>PTE_RO\<close> the code copies the page over the \<^verbatim>\<open>Proc\<close> of
  the running process: \<^verbatim>\<open>p\<close> is again the process behind the loop.  That object is smaller than a page.
\<close>

definition fault_anonymous :: "nat \<Rightarrow> u64 \<Rightarrow> pgdir \<Rightarrow> vm_sys \<Rightarrow> (unit \<times> pgdir \<times> vm_sys) outcome" where
  "fault_anonymous ipt addr pd s =
     andthen (the_pte pd addr s) (\<lambda>(e, pd, s).
     let new = (\<lambda>s. andthen (fresh_page s) (\<lambda>(p, s). Ok ((), pd, attach_pgdir ipt pd (set_pte e (of_nat (K2P p) OR PTE_USER_DATA) s))))
     in if get_pte_at e s = 0 then new s
        else if get_pte_at e s AND PTE_RO \<noteq> 0 then Undef
        else new s)"

definition pgfault_handler :: "'c block_cache \<Rightarrow> nat \<Rightarrow> int \<Rightarrow> 'c psys \<Rightarrow> (int \<times> 'c psys) outcome" where
  "pgfault_handler bc addr iss s =
     (let p = this_proc s
      in andthen (find_vma s p addr) (\<lambda>r.
         case r of
           Some v \<Rightarrow> fault_in_file bc p addr (vma_list s v) s
         | None \<Rightarrow> andthen (with_pgd p (fault_anonymous (invalid_pt s) (of_nat addr)) s) (\<lambda>(_, s). Ok (iss, s))))"

section \<open>The memory of the running process\<close>

text \<open>
  The page behind an address: an access to a page that is not mapped faults, also in the kernel,
  and is tried again when the handler returns; a handler that maps nothing is called for ever.
\<close>

definition mapped_page :: "nat \<Rightarrow> 'c psys \<Rightarrow> nat option outcome" where
  "mapped_page addr s =
     andthen (get_pte (pgd (uprocs s (this_proc s))) (of_nat addr) False (pvm s)) (\<lambda>(r, _, _).
     Ok (case r of None \<Rightarrow> None
         | Some e \<Rightarrow> if pte_valid (get_pte_at e (pvm s)) then Some (target (get_pte_at e (pvm s))) else None))"

definition user_page :: "'c block_cache \<Rightarrow> nat \<Rightarrow> 'c psys \<Rightarrow> (nat \<times> 'c psys) outcome" where
  "user_page bc addr s =
     andthen (mapped_page addr s) (\<lambda>r.
     case r of
       Some a \<Rightarrow> Ok (a, s)
     | None \<Rightarrow>
         andthen (pgfault_handler bc addr 0 s) (\<lambda>(_, s).
         andthen (mapped_page addr s) (\<lambda>r.
         case r of Some a \<Rightarrow> Ok (a, s) | None \<Rightarrow> Blocked)))"

text \<open>The \<open>n\<close> bytes at \<open>addr\<close>, page by page.\<close>

function user_load :: "'c block_cache \<Rightarrow> nat \<Rightarrow> nat \<Rightarrow> 'c psys \<Rightarrow> (u8 list \<times> 'c psys) outcome" where
  "user_load bc addr n s =
     (if n = 0 then Ok ([], s)
      else let k = min n (PAGE_SIZE - addr mod PAGE_SIZE)
           in andthen (user_page bc addr s) (\<lambda>(a, s).
              let bs = take k (drop (addr mod PAGE_SIZE) (pbytes (pvm s) a))
              in andthen (user_load bc (addr + k) (n - k) s) (\<lambda>(rest, s). Ok (bs @ rest, s))))"
  by pat_completeness auto
termination
  by (relation "measure (\<lambda>(bc, addr, n, s). n)") (auto simp: PAGE_SIZE_def)

declare user_load.simps [simp del]

end
