(* ===== verification/Proc.thy ===== *)
theory Proc
  imports Paging
begin

unbundle bit_operations_syntax

text \<open>
  \<^verbatim>\<open>src/kernel/proc.c\<close>: process numbers, creation, the tree of processes, \<^verbatim>\<open>wait\<close>, \<^verbatim>\<open>exit\<close>,
  \<^verbatim>\<open>kill\<close>, \<^verbatim>\<open>fork\<close> and the table of mapped regions.  Every routine runs on its own up to the
  point where its thread goes to sleep or ends; the switch of the processor is part of it.
\<close>

section \<open>Process numbers\<close>

definition lock_pid :: "'c psys \<Rightarrow> 'c psys outcome" where
  "lock_pid s = andthen (acquire_spinlock (pidlock s)) (\<lambda>l. Ok (s\<lparr>pidlock := l\<rparr>))"

definition unlock_pid :: "'c psys \<Rightarrow> 'c psys" where
  "unlock_pid s = s\<lparr>pidlock := release_spinlock (pidlock s)\<rparr>"

definition sizeof_PidNode :: nat where "sizeof_PidNode = 16"

definition recycle_pid :: "int \<Rightarrow> 'c psys \<Rightarrow> 'c psys outcome" where
  "recycle_pid i s =
     andthen (with_mem (kalloc sizeof_PidNode) s) (\<lambda>(node, s).
     andthen (lock_pid s) (\<lambda>s.
     case node of
       None \<Rightarrow> Undef
     | Some node \<Rightarrow> Ok (unlock_pid (s\<lparr>pid_list := (node, i) # pid_list s\<rparr>))))"

definition get_pid :: "'c psys \<Rightarrow> (int \<times> 'c psys) outcome" where
  "get_pid s =
     (case pid_list s of
        (node, i) # rest \<Rightarrow>
          andthen (lock_pid s) (\<lambda>s.
          andthen (do_mem (kfree (Some node)) (s\<lparr>pid_list := rest\<rparr>)) (\<lambda>s.
          Ok (i, unlock_pid s)))
      | [] \<Rightarrow> Ok (last_pid s + 1, s\<lparr>last_pid := last_pid s + 1\<rparr>))"

section \<open>Creation\<close>

definition sizeof_Proc :: nat where "sizeof_Proc = 168 + 8 * OPENFILE + 8 + 8"

definition new_sproc :: sproc where
  "new_sproc = \<lparr>state = UNUSED, wait_time = 0, killed = False\<rparr>"

text \<open>\<^verbatim>\<open>init_proc\<close>: everything but the page directory, the number and the kernel stack.\<close>

definition zero_uproc :: "'c psys \<Rightarrow> uproc" where
  "zero_uproc s = \<lparr>pidno = 0, exitcode = 0, childexit = init_sem 0, proclock = True, children = [], parent = 0,
     pgd = \<lparr>pt = 0, pglock = False, sections = []\<rparr>, kstack = 0, ucontext = raw_ucontext s, kcontext = raw_kcontext s,
     oftable = init_oftable, cwd = None, pvma = None\<rparr>"

definition init_proc :: "tid \<Rightarrow> 'c psys \<Rightarrow> 'c psys outcome" where
  "init_proc p s =
     (let s = upd_uproc p (\<lambda>_. zero_uproc s) (s\<lparr>sch := upd_proc p (\<lambda>_. new_sproc) (sch s)\<rparr>)
      in andthen (get_pid s) (\<lambda>(i, s).
         let s = upd_uproc p (\<lambda>q. q\<lparr>pidno := i\<rparr>) s
         in andthen (with_vm (init_pgdir (raw_section s)) s) (\<lambda>(pd, s).
            let s = upd_uproc p (\<lambda>q. q\<lparr>pgd := pd\<rparr>) s
            in andthen (with_mem kalloc_page s) (\<lambda>(k, s).
               let s = upd_uproc p (\<lambda>q. q\<lparr>kstack := (case k of None \<Rightarrow> 0 | Some a \<Rightarrow> a)\<rparr>) s
               in Ok (unlock_proc p s)))))"

definition create_proc :: "'c psys \<Rightarrow> (tid \<times> 'c psys) outcome" where
  "create_proc s =
     andthen (with_mem (kalloc sizeof_Proc) s) (\<lambda>(r, s).
     case r of None \<Rightarrow> Undef | Some p \<Rightarrow> andthen (init_proc p s) (\<lambda>s. Ok (p, s)))"

definition insert_child :: "tid \<Rightarrow> tid \<Rightarrow> 'c psys \<Rightarrow> 'c psys outcome" where
  "insert_child q p s =
     andthen (lock_proc q s) (\<lambda>s. Ok (unlock_proc q (upd_uproc q (\<lambda>u. u\<lparr>children := p # children u\<rparr>) s)))"

definition set_parent_to_this :: "tid \<Rightarrow> 'c psys \<Rightarrow> 'c psys outcome" where
  "set_parent_to_this p s =
     (let this = this_proc s
      in andthen (lock_proc p s) (\<lambda>s.
         if parent (uprocs s p) = 0
         then insert_child this p (unlock_proc p (upd_uproc p (\<lambda>u. u\<lparr>parent := this\<rparr>) s))
         else Panic))"

definition start_proc :: "tid \<Rightarrow> code \<Rightarrow> u64 \<Rightarrow> 'c psys \<Rightarrow> (int \<times> 'c psys) outcome" where
  "start_proc p code arg s =
     andthen (if parent (uprocs s p) = 0
              then insert_child (root_proc s) p (upd_uproc p (\<lambda>u. u\<lparr>parent := root_proc s\<rparr>) s)
              else Ok s) (\<lambda>s.
     if kstack (uprocs s p) = 0 then Undef
     else let s = upd_uproc p (\<lambda>u. u\<lparr>kcontext := (kcontext u)\<lparr>klr := proc_entry, kx0 := code, kx1 := arg\<rparr>\<rparr>) s;
              i = pidno (uprocs s p)
          in andthen (with_sched (activate_proc p False) s) (\<lambda>(_, s). Ok (i, s)))"

definition init_kproc :: "'c psys \<Rightarrow> (int \<times> 'c psys) outcome" where
  "init_kproc s =
     (let s = s\<lparr>pidlock := init_spinlock, elock := init_spinlock, klock := init_spinlock\<rparr>;
          root = root_proc s
      in andthen (init_proc root s) (\<lambda>s.
         start_proc root kernel_entry 123456 (upd_uproc root (\<lambda>u. u\<lparr>parent := root\<rparr>) s)))"

section \<open>wait\<close>

definition release_proc :: "tid \<Rightarrow> 'c psys \<Rightarrow> 'c psys outcome" where
  "release_proc x s =
     andthen (do_mem (kfree_page (kstack (uprocs s x))) s) (do_mem (kfree (Some x)))"

text \<open>The loop over the children, with the lock of \<open>this\<close> held: the result and what goes to \<^verbatim>\<open>*exitcode\<close>.\<close>

fun reap :: "tid \<Rightarrow> tid list \<Rightarrow> 'c psys \<Rightarrow> (int \<times> int option \<times> 'c psys) outcome" where
  "reap this [] s = Ok (- 1, None, unlock_proc this s)"
| "reap this (x # xs) s =
     andthen (lock_proc x s) (\<lambda>s.
     if state (procs (sch s) x) = ZOMBIE
     then andthen (recycle_pid (pidno (uprocs s x)) s) (\<lambda>s.
          let s = unlock_proc this (upd_uproc this (\<lambda>u. u\<lparr>children := remove1 x (children u)\<rparr>) s);
              i = pidno (uprocs s x);
              code = exitcode (uprocs s x);
              s = unlock_proc x s
          in andthen (acquire_sched_lock (sch s)) (\<lambda>t.
             andthen (release_proc x (s\<lparr>sch := release_sched_lock (t\<lparr>rq := remove1 x (rq t)\<rparr>)\<rparr>)) (\<lambda>s.
             Ok (i, Some code, s))))
     else reap this xs (unlock_proc x s))"

text \<open>How a call of \<^verbatim>\<open>wait\<close> ends: it returns, or its process sleeps and another one runs.\<close>

datatype waited = Reaped int "int option" | Sleeps

definition reap_children :: "tid \<Rightarrow> 'c psys \<Rightarrow> (waited \<times> 'c psys) outcome" where
  "reap_children this s =
     andthen (lock_proc this s) (\<lambda>s.
     andthen (reap this (children (uprocs s this)) s) (\<lambda>(i, c, s). Ok (Reaped i c, s)))"

text \<open>\<^verbatim>\<open>wait\<close> from the point where \<^verbatim>\<open>sched\<close> comes back; \<open>up\<close> says that a post woke it.\<close>

definition wait_resume :: "tid \<Rightarrow> bool \<Rightarrow> 'c psys \<Rightarrow> (waited \<times> 'c psys) outcome" where
  "wait_resume this up s =
     andthen (wait_finish this up (childexit (uprocs s this))) (\<lambda>(x, m).
     let s = upd_uproc this (\<lambda>u. u\<lparr>childexit := m\<rparr>) s
     in if \<not> x then Ok (Reaped (- 1) None, s) else reap_children this s)"

definition wait_child :: "'c psys \<Rightarrow> (waited \<times> 'c psys) outcome" where
  "wait_child s =
     (let this = this_proc s
      in andthen (lock_proc this s) (\<lambda>s.
         if children (uprocs s this) = [] then Ok (Reaped (- 1) None, unlock_proc this s)
         else let s = unlock_proc this s
              in case wait_begin this (childexit (uprocs s this)) of (now, m) \<Rightarrow>
                   let s = upd_uproc this (\<lambda>u. u\<lparr>childexit := m\<rparr>) s
                   in if now then reap_children this s
                      else andthen (acquire_sched_lock (sch s)) (\<lambda>t.
                           andthen (sched (on_cpu s) (now_ms s) SLEEPING t) (\<lambda>t.
                           if killed (procs (sch s) this) then wait_resume this False (s\<lparr>sch := t\<rparr>)
                           else Ok (Sleeps, s\<lparr>sch := t\<rparr>)))))"

section \<open>Mapped regions\<close>

definition lock_vma :: "nat \<Rightarrow> 'c psys \<Rightarrow> 'c psys outcome" where
  "lock_vma v s = andthen (acquire_spinlock (vlock (vma_list s v))) (\<lambda>l. Ok (s\<lparr>vma_list := (vma_list s)(v := (vma_list s v)\<lparr>vlock := l\<rparr>)\<rparr>))"

definition unlock_vma :: "nat \<Rightarrow> 'c psys \<Rightarrow> 'c psys" where
  "unlock_vma v s = s\<lparr>vma_list := (vma_list s)(v := (vma_list s v)\<lparr>vlock := release_spinlock (vlock (vma_list s v))\<rparr>)\<rparr>"

definition upd_vma :: "nat \<Rightarrow> (vma \<Rightarrow> vma) \<Rightarrow> 'c psys \<Rightarrow> 'c psys" where
  "upd_vma v f s = s\<lparr>vma_list := (vma_list s)(v := f (vma_list s v))\<rparr>"

text \<open>\<^verbatim>\<open>vma_alloc\<close> returns with the lock of the region taken.\<close>

fun vma_alloc_from :: "nat list \<Rightarrow> 'c psys \<Rightarrow> (nat \<times> 'c psys) outcome" where
  "vma_alloc_from [] s = Panic"
| "vma_alloc_from (i # is) s =
     andthen (lock_vma i s) (\<lambda>s. if vlength (vma_list s i) = 0 then Ok (i, s) else vma_alloc_from is (unlock_vma i s))"

definition vma_alloc :: "'c psys \<Rightarrow> (nat \<times> 'c psys) outcome" where
  "vma_alloc = vma_alloc_from [0..<NVMA]"

text \<open>\<^verbatim>\<open>writeback\<close> of \<^verbatim>\<open>src/kernel/sysfile.c\<close>: a region goes back to its file in chunks, one operation each.\<close>

definition MAP_PRIVATE :: u32 where "MAP_PRIVATE = 2"

definition writeback_chunk :: nat where
  "writeback_chunk = (OP_MAX_NUM_BLOCKS - 1 - 1 - 2) div 2 * BLOCK_SIZE"

definition writeback_step :: "'c block_cache \<Rightarrow> vma \<Rightarrow> nat \<Rightarrow> nat \<Rightarrow> nat \<Rightarrow> 'c psys \<Rightarrow> (nat \<times> 'c psys) outcome" where
  "writeback_step bc v addr i n1 s =
     (let ip = fobj (ffiles (pfs s) (vfile v))
      in andthen (do_inodes (op_begin bc) s) (\<lambda>s.
         andthen (do_inodes (it_lock (inodes bc) ip) s) (\<lambda>s.
         andthen (user_load bc (addr + i) n1 s) (\<lambda>(bs, s).
         andthen (with_files (\<lambda>f.
           andthen (it_write (inodes bc) True ip bs (of_nat (voff v) + of_nat (vstart v) - of_nat addr + of_nat i) (of_nat n1) (fis f)) (\<lambda>(r, t).
           Ok (r, f\<lparr>fis := t\<rparr>))) s) (\<lambda>(r, s).
         andthen (do_inodes (it_unlock (inodes bc) ip) s) (\<lambda>s.
         andthen (do_inodes (op_end bc) s) (\<lambda>s. Ok (unat r, s))))))))"

lemma writeback_step_len:
  assumes "writeback_step bc v addr i n1 s = Ok (r, s')" and "n1 \<le> writeback_chunk"
  shows "r = n1"
proof -
  obtain ip bs off t w u where "inode_write bc True ip bs off (of_nat n1) t = Ok (w, u)" "r = unat w"
    using assms(1) by (auto simp: writeback_step_def with_files_def inodes_def Let_def)
  then have "r = unat (of_nat n1 :: u64)" by (auto dest: inode_write_returns)
  then show ?thesis using assms(2)
    by (simp add: unat_of_nat take_bit_nat_eq_self writeback_chunk_def OP_MAX_NUM_BLOCKS_def BLOCK_SIZE_def)
qed

function writeback_loop :: "'c block_cache \<Rightarrow> vma \<Rightarrow> nat \<Rightarrow> nat \<Rightarrow> nat \<Rightarrow> 'c psys \<Rightarrow> 'c psys outcome" where
  "writeback_loop bc v addr n i s =
     (if i < n
      then andthen (writeback_step bc v addr i (min (n - i) writeback_chunk) s) (\<lambda>(r, s). writeback_loop bc v addr n (i + r) s)
      else Ok s)"
  by pat_completeness auto
termination
proof (relation "measure (\<lambda>(bc, v, addr, n, i, s). n - i)")
  fix bc :: "'c block_cache" and v addr n i s x r s'
  assume a: "i < n" "writeback_step bc v addr i (min (n - i) writeback_chunk) s = Ok x" "(r, s') = x"
  have "0 < writeback_chunk" by (simp add: writeback_chunk_def OP_MAX_NUM_BLOCKS_def BLOCK_SIZE_def)
  moreover have "r = min (n - i) writeback_chunk" using writeback_step_len [of bc v addr i _ s r s'] a(2,3) by simp
  ultimately show "((bc, v, addr, n, i + r, s'), bc, v, addr, n, i, s) \<in> measure (\<lambda>(bc, v, addr, n, i, s). n - i)"
    using a(1) by simp
qed simp

declare writeback_loop.simps [simp del]

definition writeback :: "'c block_cache \<Rightarrow> vma \<Rightarrow> nat \<Rightarrow> nat \<Rightarrow> 'c psys \<Rightarrow> 'c psys outcome" where
  "writeback bc v addr n s =
     (if vperm v AND PTE_RO \<noteq> 0 \<or> vflags v AND MAP_PRIVATE \<noteq> 0 then Ok s
      else if addr mod PAGE_SIZE \<noteq> 0 then Panic
      else writeback_loop bc v addr n 0 s)"

definition pg_round_up :: "nat \<Rightarrow> nat" where
  "pg_round_up sz = page_base (sz + PAGE_SIZE - 1)"

end
