(* ===== verification/Lifecycle.thy ===== *)
theory Lifecycle
  imports Proc
begin

unbundle bit_operations_syntax

text \<open>
  The second half of \<^verbatim>\<open>src/kernel/proc.c\<close>: \<^verbatim>\<open>reparent\<close>, \<^verbatim>\<open>exit\<close>, \<^verbatim>\<open>kill\<close>, \<^verbatim>\<open>fork\<close> and the dump
  of the process tree.  The walks over the tree carry a bound on their depth.
\<close>

section \<open>exit\<close>

text \<open>One round of the loop of \<^verbatim>\<open>reparent\<close>.\<close>

definition reparent_child :: "tid \<Rightarrow> tid \<Rightarrow> 'c psys \<Rightarrow> 'c psys outcome" where
  "reparent_child this x s =
     andthen (lock_proc x s) (\<lambda>s.
     let s = unlock_proc x (upd_uproc x (\<lambda>u. u\<lparr>parent := root_proc s\<rparr>) s);
         s = upd_uproc this (\<lambda>u. u\<lparr>children := remove1 x (children u)\<rparr>) s
     in andthen (insert_child (root_proc s) x s) (\<lambda>s.
        andthen (with_sched (is_zombie x) s) (\<lambda>(z, s).
        if z then post_childexit (root_proc s) s else Ok s)))"

definition reparent :: "tid \<Rightarrow> 'c psys \<Rightarrow> 'c psys outcome" where
  "reparent this s =
     (if children (uprocs s this) = [] then Ok s
      else for_each (reparent_child this) (children (uprocs s this)) s)"

definition lock_exit :: "'c psys \<Rightarrow> 'c psys outcome" where
  "lock_exit s = andthen (acquire_spinlock (elock s)) (\<lambda>l. Ok (s\<lparr>elock := l\<rparr>))"

definition unlock_exit :: "'c psys \<Rightarrow> 'c psys" where
  "unlock_exit s = s\<lparr>elock := release_spinlock (elock s)\<rparr>"

definition close_slot :: "'c block_cache \<Rightarrow> tid \<Rightarrow> nat \<Rightarrow> 'c psys \<Rightarrow> 'c psys outcome" where
  "close_slot bc this i s =
     (case oftable (uprocs s this) ! i of
        None \<Rightarrow> Ok s
      | Some f \<Rightarrow>
          andthen (do_files (file_close bc (Some f)) (unlock_proc this s)) (\<lambda>s.
          andthen (lock_proc this s) (\<lambda>s.
          Ok (upd_uproc this (\<lambda>u. u\<lparr>oftable := (oftable u)[i := None]\<rparr>) s))))"

text \<open>One round of the loop over the regions; the result is the region after this one.\<close>

definition unmap_region :: "'c block_cache \<Rightarrow> tid \<Rightarrow> nat \<Rightarrow> 'c psys \<Rightarrow> (nat option \<times> 'c psys) outcome" where
  "unmap_region bc this v s =
     andthen (writeback bc (vma_list s v) (vstart (vma_list s v)) (vlength (vma_list s v)) s) (\<lambda>s.
     andthen (with_vm (\<lambda>m. andthen (uvmunmap (pgd (uprocs s this)) (vstart (vma_list s v))
         (pg_round_up (vlength (vma_list s v)) div PAGE_SIZE) True m) (\<lambda>m. Ok ((), m))) s) (\<lambda>(_, s).
     andthen (do_files (file_close bc (Some (vfile (vma_list s v)))) s) (\<lambda>s.
     let next = vnext (vma_list s v)
     in andthen (lock_vma v s) (\<lambda>s.
        Ok (next, unlock_vma v (upd_vma v (\<lambda>r. r\<lparr>vnext := None, vlength := 0\<rparr>) s))))))"

text \<open>Every round cuts the chain behind it, so that even a circle comes to its end within the bound that is used below.\<close>

fun exit_regions :: "nat \<Rightarrow> 'c block_cache \<Rightarrow> tid \<Rightarrow> nat option \<Rightarrow> 'c psys \<Rightarrow> 'c psys outcome" where
  "exit_regions 0 bc this v s = Blocked"
| "exit_regions (Suc n) bc this v s =
     (case v of None \<Rightarrow> Ok s | Some r \<Rightarrow> andthen (unmap_region bc this r s) (\<lambda>(next, s). exit_regions n bc this next s))"

declare exit_regions.simps [simp del]

text \<open>What \<^verbatim>\<open>exit\<close> releases: the open files, the mapped regions, the working directory and the page tables.\<close>

definition exit_files :: "'c block_cache \<Rightarrow> tid \<Rightarrow> 'c psys \<Rightarrow> 'c psys outcome" where
  "exit_files bc this = for_each (close_slot bc this) [0..<OPENFILE]"

definition exit_memory :: "'c block_cache \<Rightarrow> tid \<Rightarrow> 'c psys \<Rightarrow> 'c psys outcome" where
  "exit_memory bc this s =
     andthen (exit_regions (NVMA + 2) bc this (pvma (uprocs s this)) (unlock_exit s)) (\<lambda>s.
     andthen (lock_exit s) (\<lambda>s.
     andthen (case cwd (uprocs s this) of None \<Rightarrow> Ok s | Some i \<Rightarrow> do_inodes (it_put (inodes bc) False i) s) (\<lambda>s.
     let s = upd_uproc this (\<lambda>u. u\<lparr>cwd := None\<rparr>) s
     in andthen (with_pgd this (\<lambda>pd v. andthen (free_pgdir pd v) (\<lambda>(pd, v). Ok ((), pd, v))) s) (\<lambda>(_, s). Ok s))))"

definition exit_proc :: "'c block_cache \<Rightarrow> int \<Rightarrow> 'c psys \<Rightarrow> 'c psys outcome" where
  "exit_proc bc code s =
     andthen (lock_exit s) (\<lambda>s.
     let this = this_proc s
     in andthen (lock_proc this s) (\<lambda>s.
        andthen (reparent this s) (\<lambda>s.
        andthen (exit_files bc this (upd_uproc this (\<lambda>u. u\<lparr>exitcode := code\<rparr>) s)) (\<lambda>s.
        andthen (exit_memory bc this s) (\<lambda>s.
        andthen (if parent (uprocs s this) \<noteq> 0 then post_childexit (parent (uprocs s this)) s else Ok s) (\<lambda>s.
        andthen (acquire_sched_lock (sch s)) (\<lambda>t.
        let s = unlock_exit (unlock_proc this (s\<lparr>sch := t\<rparr>))
        in andthen (sched (on_cpu s) (now_ms s) ZOMBIE (sch s)) (\<lambda>t. Ok (s\<lparr>sch := t\<rparr>)))))))))"

section \<open>kill\<close>

text \<open>The first result that the calls for the elements of a list give.\<close>

fun first_found :: "('a \<Rightarrow> 's \<Rightarrow> ('b option \<times> 's) outcome) \<Rightarrow> 'a list \<Rightarrow> 's \<Rightarrow> ('b option \<times> 's) outcome" where
  "first_found f [] s = Ok (None, s)"
| "first_found f (x # xs) s =
     andthen (f x s) (\<lambda>(r, s). case r of None \<Rightarrow> first_found f xs s | Some k \<Rightarrow> Ok (Some k, s))"

text \<open>A walk that is deeper than its bound does not end: \<open>Blocked\<close>.\<close>

fun dfs_kill :: "nat \<Rightarrow> tid \<Rightarrow> int \<Rightarrow> 'c psys \<Rightarrow> (tid option \<times> 'c psys) outcome" where
  "dfs_kill 0 p i s = Blocked"
| "dfs_kill (Suc n) p i s =
     andthen (if pidno (uprocs s p) = i then with_sched (is_unused p) s else Ok (True, s)) (\<lambda>(unused, s).
     if pidno (uprocs s p) = i \<and> \<not> unused
     then Ok (Some p, s\<lparr>sch := upd_proc p (\<lambda>q. q\<lparr>killed := True\<rparr>) (sch s)\<rparr>)
     else first_found (\<lambda>c s. dfs_kill n c i s) (children (uprocs s p)) s)"

definition kill :: "nat \<Rightarrow> int \<Rightarrow> 'c psys \<Rightarrow> (int \<times> 'c psys) outcome" where
  "kill n i s =
     andthen (acquire_spinlock (klock s)) (\<lambda>l.
     andthen (dfs_kill n (root_proc s) i (s\<lparr>klock := l\<rparr>)) (\<lambda>(k, s).
     case k of
       Some k \<Rightarrow>
         if drop_bit 48 (uelr (ucontext (uprocs s k))) = 0
         then andthen (with_sched (activate_proc k True) s) (\<lambda>(_, s). Ok (0, s))
         else Ok (- 1, s)
     | None \<Rightarrow> Ok (- 1, s\<lparr>klock := release_spinlock (klock s)\<rparr>)))"

section \<open>fork\<close>

definition dup_slot :: "tid \<Rightarrow> tid \<Rightarrow> nat \<Rightarrow> 'c psys \<Rightarrow> 'c psys outcome" where
  "dup_slot cur new i s =
     (case oftable (uprocs s cur) ! i of
        None \<Rightarrow> Ok s
      | Some f \<Rightarrow> andthen (do_files (file_dup f) s) (\<lambda>s.
          Ok (upd_uproc new (\<lambda>u. u\<lparr>oftable := (oftable u)[i := Some f]\<rparr>) s)))"

definition copy_region :: "tid \<Rightarrow> nat option \<Rightarrow> nat \<Rightarrow> 'c psys \<Rightarrow> (nat \<times> 'c psys) outcome" where
  "copy_region new pre v s =
     andthen (vma_alloc s) (\<lambda>(w, s).
     let s = upd_vma w (\<lambda>r. (vma_list s v)\<lparr>vnext := vnext r, vlock := vlock r\<rparr>) s
     in andthen (do_files (file_dup (vfile (vma_list s w))) s) (\<lambda>s.
        let s = upd_vma w (\<lambda>r. r\<lparr>vnext := None\<rparr>) s;
            s = (case pre of None \<Rightarrow> upd_uproc new (\<lambda>u. u\<lparr>pvma := Some w\<rparr>) s | Some q \<Rightarrow> upd_vma q (\<lambda>r. r\<lparr>vnext := Some w\<rparr>) s)
        in Ok (w, unlock_vma w s)))"

text \<open>The loop over the regions; each round takes a free region, so that it ends, with a panic if need be, within \<^verbatim>\<open>NVMA\<close> rounds.\<close>

fun copy_regions :: "nat \<Rightarrow> tid \<Rightarrow> nat option \<Rightarrow> nat option \<Rightarrow> 'c psys \<Rightarrow> 'c psys outcome" where
  "copy_regions 0 new pre v s = Blocked"
| "copy_regions (Suc n) new pre v s =
     (case v of
        None \<Rightarrow> Ok s
      | Some r \<Rightarrow> andthen (copy_region new pre r s) (\<lambda>(w, s). copy_regions n new (Some w) (vnext (vma_list s r)) s))"

declare copy_regions.simps [simp del]

text \<open>The part after the page tables: the new process gets everything else and starts.\<close>

definition fork_child :: "'c block_cache \<Rightarrow> tid \<Rightarrow> tid \<Rightarrow> pgdir \<Rightarrow> 'c psys \<Rightarrow> (int \<times> 'c psys) outcome" where
  "fork_child bc cur new npd s =
     andthen (insert_child cur new (upd_uproc new (\<lambda>u. u\<lparr>pgd := npd, parent := cur\<rparr>) s)) (\<lambda>s.
     if kstack (uprocs s new) = 0 then Undef
     else let uc = ucontext (uprocs s cur);
              s = upd_uproc new (\<lambda>u. u\<lparr>ucontext := uc\<lparr>ux := (ux uc)[0 := 0]\<rparr>\<rparr>) s
          in case cwd (uprocs s cur) of
               None \<Rightarrow> Undef
             | Some ip \<Rightarrow>
                 andthen (do_inodes (\<lambda>t. Ok (it_share (inodes bc) ip t)) s) (\<lambda>s.
                 andthen (for_each (dup_slot cur new) [0..<OPENFILE] (upd_uproc new (\<lambda>u. u\<lparr>cwd := Some ip\<rparr>) s)) (\<lambda>s.
                 let i = pidno (uprocs s new)
                 in andthen (copy_regions (NVMA + 2) new None (pvma (uprocs s cur)) (upd_uproc new (\<lambda>u. u\<lparr>pvma := None\<rparr>) s)) (\<lambda>s.
                    andthen (start_proc new trap_return 0 s) (\<lambda>(_, s). Ok (i, s))))))"

definition fork :: "'c block_cache \<Rightarrow> 'c psys \<Rightarrow> (int \<times> 'c psys) outcome" where
  "fork bc s =
     (let cur = this_proc s
      in andthen (create_proc s) (\<lambda>(new, s).
         andthen (with_vm (uvmcopy (raw_section s) (pgd (uprocs s cur))) s) (\<lambda>(npd, s).
         case npd of
           None \<Rightarrow>
             andthen (lock_proc new s) (\<lambda>s.
             andthen (do_mem (kfree (if kstack (uprocs s new) = 0 then None else Some (kstack (uprocs s new)))) s) (\<lambda>s.
             Ok (- 1, unlock_proc new (s\<lparr>sch := upd_proc new (\<lambda>q. q\<lparr>state := UNUSED\<rparr>) (sch s)\<rparr>))))
         | Some npd \<Rightarrow> fork_child bc cur new npd s)))"

section \<open>The dump of the tree\<close>

text \<open>The lines that \<^verbatim>\<open>dfs\<close> prints: number and state.\<close>

fun dfs :: "nat \<Rightarrow> tid \<Rightarrow> 'c psys \<Rightarrow> (int \<times> procstate) list outcome" where
  "dfs 0 p s = Blocked"
| "dfs (Suc n) p s =
     andthen (for_each (\<lambda>c out. andthen (dfs n c s) (\<lambda>l. Ok (out @ l))) (children (uprocs s p)) []) (\<lambda>l.
     Ok ((pidno (uprocs s p), state (procs (sch s) p)) # l))"

definition procdump :: "nat \<Rightarrow> 'c psys \<Rightarrow> (int \<times> procstate) list outcome" where
  "procdump n s = dfs n (root_proc s) s"

end
