(* ===== verification/SysFile.thy ===== *)
theory SysFile
  imports SysPath Lifecycle
begin

unbundle bit_operations_syntax

text \<open>
  \<^verbatim>\<open>src/kernel/sysfile.c\<close> and the checks on user memory of \<^verbatim>\<open>src/kernel/syscall.c\<close>: the system calls
  on files, over the processes, their page tables, the file table and the file system.  The
  result is the integer that the code returns.  The kernel reads and writes user memory through
  the page tables of the running process; the pages of a buffer are brought in before the call
  that reads it and after the call that fills it.  Addresses of user memory lie below \<open>2 ^ 48\<close>.
\<close>

section \<open>User memory\<close>

function user_store :: "'c block_cache \<Rightarrow> nat \<Rightarrow> u8 list \<Rightarrow> 'c psys \<Rightarrow> 'c psys outcome" where
  "user_store bc addr bs s =
     (if bs = [] then Ok s
      else let k = min (length bs) (PAGE_SIZE - addr mod PAGE_SIZE)
           in andthen (user_page bc addr s) (\<lambda>(a, s).
              let page = splice (addr mod PAGE_SIZE) (take k bs) (pbytes (pvm s) a)
              in user_store bc (addr + k) (drop k bs) (s\<lparr>pvm := (pvm s)\<lparr>pbytes := (pbytes (pvm s))(a := page)\<rparr>\<rparr>)))"
  by pat_completeness auto
termination
  by (relation "measure (\<lambda>(bc, addr, bs, s). length bs)") (auto simp: PAGE_SIZE_def)

declare user_store.simps [simp del]

definition user_readable :: "nat \<Rightarrow> nat \<Rightarrow> bool" where
  "user_readable start n = True"

text \<open>
  The loop of \<^verbatim>\<open>user_writeable\<close> goes on in steps of a block.  When the range ends in the last
  block of the address space the counter wraps around and the loop starts again at address 0;
  a second wrap means that it never ends.
\<close>

function writeable_from :: "bool \<Rightarrow> nat \<Rightarrow> nat \<Rightarrow> pgdir \<Rightarrow> vm_sys \<Rightarrow> bool outcome" where
  "writeable_from again i endp pd s =
     (if i < endp
      then andthen (get_pte pd (of_nat i) False s) (\<lambda>(r, _, _).
           case r of
             None \<Rightarrow> Ok False
           | Some e \<Rightarrow>
               if get_pte_at e s AND PTE_RO \<noteq> 0 then Ok False
               else let i = (i div BLOCK_SIZE + 1) * BLOCK_SIZE
                    in if i < 2 ^ 64 then writeable_from again i endp pd s
                       else if again then Blocked else writeable_from True 0 endp pd s)
      else Ok True)"
  by pat_completeness auto
termination
proof (relation "measures [\<lambda>(again, i, endp, pd, s). if again then 0 else 1, \<lambda>(again, i, endp, pd, s). endp - i]")
  have up: "i < (i div BLOCK_SIZE + 1) * BLOCK_SIZE" for i
    using div_mult_mod_eq [of i BLOCK_SIZE] mod_less_divisor [of BLOCK_SIZE i] by (simp add: BLOCK_SIZE_def)
  show "((again, j, endp, pd, s), again, i, endp, pd, s)
      \<in> measures [\<lambda>(again, i, endp, pd, s). if again then 0 else 1, \<lambda>(again, i, endp, pd, s). endp - i]"
    if "i < endp" "j = (i div BLOCK_SIZE + 1) * BLOCK_SIZE" for again i endp pd s j
    using that up [of i] by simp
qed simp_all

declare writeable_from.simps [simp del]

definition user_writeable :: "nat \<Rightarrow> nat \<Rightarrow> 'c psys \<Rightarrow> bool outcome" where
  "user_writeable start n s =
     writeable_from False start ((start + n) mod 2 ^ 64) (pgd (uprocs s (this_proc s))) (pvm s)"

text \<open>\<^verbatim>\<open>user_strlen\<close>: the length of the string at \<open>str\<close> with its zero, or 0.\<close>

function user_strlen_from :: "'c block_cache \<Rightarrow> nat \<Rightarrow> nat \<Rightarrow> nat \<Rightarrow> 'c psys \<Rightarrow> (nat \<times> 'c psys) outcome" where
  "user_strlen_from bc str i maxlen s =
     (if i < maxlen
      then if user_readable (str + i) 1
           then andthen (user_load bc (str + i) 1 s) (\<lambda>(bs, s).
                if hd bs = 0 then Ok (i + 1, s) else user_strlen_from bc str (i + 1) maxlen s)
           else Ok (0, s)
      else Ok (0, s))"
  by pat_completeness auto
termination
  by (relation "measure (\<lambda>(bc, str, i, maxlen, s). maxlen - i)") auto

declare user_strlen_from.simps [simp del]

definition user_strlen :: "'c block_cache \<Rightarrow> nat \<Rightarrow> nat \<Rightarrow> 'c psys \<Rightarrow> (nat \<times> 'c psys) outcome" where
  "user_strlen bc str maxlen s = user_strlen_from bc str 0 maxlen s"

text \<open>A path argument: \<open>None\<close> when \<^verbatim>\<open>user_strlen(path, 256)\<close> is 0, else its bytes without the zero.\<close>

definition path_arg :: "'c block_cache \<Rightarrow> nat \<Rightarrow> nat \<Rightarrow> 'c psys \<Rightarrow> (u8 list option \<times> 'c psys) outcome" where
  "path_arg bc str maxlen s =
     andthen (user_strlen bc str maxlen s) (\<lambda>(n, s).
     if n = 0 then Ok (None, s) else andthen (user_load bc str (n - 1) s) (\<lambda>(bs, s). Ok (Some bs, s)))"

section \<open>Descriptors\<close>

definition fd2file :: "int \<Rightarrow> 'c psys \<Rightarrow> nat option" where
  "fd2file fd s = (if fd < 0 \<or> fd \<ge> int OPENFILE then None else oftable (uprocs s (this_proc s)) ! nat fd)"

definition set_fd :: "nat \<Rightarrow> nat option \<Rightarrow> 'c psys \<Rightarrow> 'c psys" where
  "set_fd fd f s = upd_uproc (this_proc s) (\<lambda>u. u\<lparr>oftable := (oftable u)[fd := f]\<rparr>) s"

definition fdalloc :: "nat \<Rightarrow> 'c psys \<Rightarrow> int \<times> 'c psys" where
  "fdalloc f s =
     (case find (\<lambda>fd. oftable (uprocs s (this_proc s)) ! fd = None) [0..<OPENFILE] of
        Some fd \<Rightarrow> (int fd, set_fd fd (Some f) s)
      | None \<Rightarrow> (- 1, s))"

definition sys_dup :: "int \<Rightarrow> 'c psys \<Rightarrow> (int \<times> 'c psys) outcome" where
  "sys_dup fd s =
     (case fd2file fd s of
        None \<Rightarrow> Ok (- 1, s)
      | Some f \<Rightarrow>
          case fdalloc f s of (fd, s) \<Rightarrow>
            if fd < 0 then Ok (- 1, s) else andthen (do_files (file_dup f) s) (\<lambda>s. Ok (fd, s)))"

definition sys_close :: "'c block_cache \<Rightarrow> int \<Rightarrow> 'c psys \<Rightarrow> (int \<times> 'c psys) outcome" where
  "sys_close bc fd s =
     (case fd2file fd s of
        None \<Rightarrow> Ok (- 1, s)
      | Some f \<Rightarrow> andthen (do_files (file_close bc (Some f)) (set_fd (nat fd) None s)) (\<lambda>s. Ok (0, s)))"

definition sys_ioctl :: "int \<Rightarrow> u64 \<Rightarrow> 'c psys \<Rightarrow> (int \<times> 'c psys) outcome" where
  "sys_ioctl fd request s = andthen (assert_that (request = 0x5413)) (\<lambda>_. Ok (0, s))"

section \<open>Reading and writing\<close>

definition sys_read :: "'c block_cache \<Rightarrow> int \<Rightarrow> nat \<Rightarrow> int \<Rightarrow> 'c psys \<Rightarrow> (int \<times> 'c psys) outcome" where
  "sys_read bc fd buffer n s =
     (case fd2file fd s of
        None \<Rightarrow> Ok (- 1, s)
      | Some f \<Rightarrow>
          if n \<le> 0 then Ok (- 1, s)
          else andthen (user_writeable buffer (nat n) s) (\<lambda>w.
               if \<not> w then Ok (- 1, s)
               else andthen (with_files (\<lambda>t. andthen (file_read bc f n t) (\<lambda>(r, dst, t). Ok ((r, dst), t))) s) (\<lambda>((r, dst), s).
                    andthen (user_store bc buffer dst s) (\<lambda>s. Ok (r, s)))))"

definition sys_write :: "'c block_cache \<Rightarrow> int \<Rightarrow> nat \<Rightarrow> int \<Rightarrow> 'c psys \<Rightarrow> (int \<times> 'c psys) outcome" where
  "sys_write bc fd buffer n s =
     (case fd2file fd s of
        None \<Rightarrow> Ok (- 1, s)
      | Some f \<Rightarrow>
          if n \<le> 0 \<or> \<not> user_readable buffer (nat n) then Ok (- 1, s)
          else andthen (user_load bc buffer (nat n) s) (\<lambda>(bs, s). with_files (file_write bc f bs n) s))"

text \<open>One entry of the vector: \<^verbatim>\<open>iov_base\<close> and \<^verbatim>\<open>iov_len\<close>, eight bytes each.\<close>

definition sizeof_iovec :: nat where "sizeof_iovec = 16"

definition load_iovec :: "'c block_cache \<Rightarrow> nat \<Rightarrow> 'c psys \<Rightarrow> (nat \<times> nat \<times> 'c psys) outcome" where
  "load_iovec bc p s =
     andthen (user_load bc p sizeof_iovec s) (\<lambda>(bs, s). Ok (le_value (take 8 bs), le_value (drop 8 bs), s))"

fun writev_loop :: "'c block_cache \<Rightarrow> nat \<Rightarrow> nat \<Rightarrow> nat \<Rightarrow> u64 \<Rightarrow> 'c psys \<Rightarrow> (int \<times> 'c psys) outcome" where
  "writev_loop bc f p 0 tot s = Ok (sint tot, s)"
| "writev_loop bc f p (Suc k) tot s =
     andthen (load_iovec bc p s) (\<lambda>(base, len, s).
     if \<not> user_readable base len then Ok (- 1, s)
     else let n = sint (of_nat len :: u64)
          in andthen (user_load bc base (nat n) s) (\<lambda>(bs, s).
             andthen (with_files (file_write bc f bs n) s) (\<lambda>(r, s).
             writev_loop bc f (p + sizeof_iovec) k (tot + word_of_int r) s)))"

definition sys_writev :: "'c block_cache \<Rightarrow> int \<Rightarrow> nat \<Rightarrow> int \<Rightarrow> 'c psys \<Rightarrow> (int \<times> 'c psys) outcome" where
  "sys_writev bc fd iov iovcnt s =
     (case fd2file fd s of
        None \<Rightarrow> Ok (- 1, s)
      | Some f \<Rightarrow>
          if iovcnt \<le> 0 \<or> \<not> user_readable iov (sizeof_iovec * nat iovcnt) then Ok (- 1, s)
          else writev_loop bc f iov (nat iovcnt) 0 s)"

text \<open>
  The status goes through the pointer \<^verbatim>\<open>st\<close>: it is the second component of the result.  The size
  of \<^verbatim>\<open>struct stat\<close> is the C library's: \<open>stat_size\<close>.
\<close>

definition sys_fstat :: "nat \<Rightarrow> int \<Rightarrow> nat \<Rightarrow> 'c psys \<Rightarrow> (int \<times> kstat option \<times> 'c psys) outcome" where
  "sys_fstat stat_size fd st s =
     (case fd2file fd s of
        None \<Rightarrow> Ok (- 1, None, s)
      | Some f \<Rightarrow>
          andthen (user_writeable st stat_size s) (\<lambda>w.
          if \<not> w then Ok (- 1, None, s)
          else andthen (with_files (\<lambda>t. andthen (file_stat (Some f) t) (\<lambda>(r, k, t). Ok ((r, k), t))) s) (\<lambda>((r, k), s). Ok (r, k, s))))"

section \<open>Paths\<close>

definition AT_FDCWD :: int where "AT_FDCWD = - 100"

definition on_path :: "('c isys \<Rightarrow> ('a \<times> 'c isys) outcome) \<Rightarrow> 'c psys \<Rightarrow> ('a \<times> 'c psys) outcome" where
  "on_path g = with_files (\<lambda>f. andthen (g (fis f)) (\<lambda>(r, t). Ok (r, f\<lparr>fis := t\<rparr>)))"

definition sys_newfstatat :: "'c block_cache \<Rightarrow> nat \<Rightarrow> int \<Rightarrow> nat \<Rightarrow> nat \<Rightarrow> int \<Rightarrow> 'c psys \<Rightarrow> (int \<times> kstat option \<times> 'c psys) outcome" where
  "sys_newfstatat bc stat_size dirfd path st flags s =
     andthen (path_arg bc path 256 s) (\<lambda>(p, s).
     case p of
       None \<Rightarrow> Ok (- 1, None, s)
     | Some p \<Rightarrow>
         andthen (user_writeable st stat_size s) (\<lambda>w.
         if \<not> w \<or> dirfd \<noteq> AT_FDCWD \<or> flags \<noteq> 0 then Ok (- 1, None, s)
         else andthen (on_path (\<lambda>t. andthen (stat_path bc p t) (\<lambda>(r, k, t). Ok ((r, k), t))) s) (\<lambda>((r, k), s). Ok (r, k, s))))"

definition sys_unlinkat :: "'c block_cache \<Rightarrow> int \<Rightarrow> nat \<Rightarrow> int \<Rightarrow> 'c psys \<Rightarrow> (int \<times> 'c psys) outcome" where
  "sys_unlinkat bc fd path flag s =
     andthen (assert_that (fd = AT_FDCWD \<and> flag = 0)) (\<lambda>_.
     andthen (path_arg bc path 256 s) (\<lambda>(p, s).
     case p of None \<Rightarrow> Ok (- 1, s) | Some p \<Rightarrow> on_path (unlink_path bc p) s))"

definition O_WRONLY :: u32 where "O_WRONLY = 1"

definition O_RDWR :: u32 where "O_RDWR = 2"

text \<open>The file of \<^verbatim>\<open>openat\<close> and its descriptor; a file without a descriptor is closed again.\<close>

definition open_slot :: "'c block_cache \<Rightarrow> 'c psys \<Rightarrow> ((nat \<times> int) option \<times> 'c psys) outcome" where
  "open_slot bc s =
     andthen (with_files file_alloc s) (\<lambda>(r, s).
     case r of
       None \<Rightarrow> Ok (None, s)
     | Some f \<Rightarrow>
         case fdalloc f s of (fd, s) \<Rightarrow>
           if fd < 0 then andthen (do_files (file_close bc (Some f)) s) (\<lambda>s. Ok (None, s)) else Ok (Some (f, fd), s))"

definition sys_openat :: "'c block_cache \<Rightarrow> int \<Rightarrow> nat \<Rightarrow> u32 \<Rightarrow> 'c psys \<Rightarrow> (int \<times> 'c psys) outcome" where
  "sys_openat bc dirfd path omode s =
     andthen (path_arg bc path 256 s) (\<lambda>(p, s).
     case p of
       None \<Rightarrow> Ok (- 1, s)
     | Some p \<Rightarrow>
         if dirfd \<noteq> AT_FDCWD then Ok (- 1, s)
         else andthen (do_inodes (op_begin bc) s) (\<lambda>s.
              andthen (on_path (open_inode bc p omode) s) (\<lambda>(r, s).
              case r of
                None \<Rightarrow> andthen (do_inodes (op_end bc) s) (\<lambda>s. Ok (- 1, s))
              | Some ip \<Rightarrow>
                  andthen (open_slot bc s) (\<lambda>(r, s).
                  case r of
                    None \<Rightarrow>
                      andthen (do_inodes (unlock_put bc ip) s) (\<lambda>s.
                      andthen (do_inodes (op_end bc) s) (\<lambda>s. Ok (- 1, s)))
                  | Some (f, fd) \<Rightarrow>
                      andthen (do_inodes (it_unlock (inodes bc) ip) s) (\<lambda>s.
                      andthen (do_inodes (op_end bc) s) (\<lambda>s.
                      Ok (fd, s\<lparr>pfs := upd_file f (\<lambda>x. x\<lparr>ftype := FD_INODE, fobj := ip, foff := 0,
                            freadable := (omode AND O_WRONLY = 0),
                            fwritable := (omode AND O_WRONLY \<noteq> 0 \<or> omode AND O_RDWR \<noteq> 0)\<rparr>) (pfs s)\<rparr>)))))))"

definition sys_mkdirat :: "'c block_cache \<Rightarrow> int \<Rightarrow> nat \<Rightarrow> int \<Rightarrow> 'c psys \<Rightarrow> (int \<times> 'c psys) outcome" where
  "sys_mkdirat bc dirfd path mode s =
     andthen (path_arg bc path 256 s) (\<lambda>(p, s).
     case p of
       None \<Rightarrow> Ok (- 1, s)
     | Some p \<Rightarrow>
         if dirfd \<noteq> AT_FDCWD \<or> mode \<noteq> 0 then Ok (- 1, s)
         else on_path (make_node bc p INODE_DIRECTORY 0 0) s)"

text \<open>\<^verbatim>\<open>major\<close> and \<^verbatim>\<open>minor\<close> of the C library are parameters.\<close>

definition sys_mknodat :: "(u64 \<Rightarrow> u32) \<Rightarrow> (u64 \<Rightarrow> u32) \<Rightarrow> 'c block_cache \<Rightarrow> int \<Rightarrow> nat \<Rightarrow> u64 \<Rightarrow> 'c psys \<Rightarrow> (int \<times> 'c psys) outcome" where
  "sys_mknodat dev_major dev_minor bc dirfd path dev s =
     andthen (path_arg bc path 256 s) (\<lambda>(p, s).
     case p of
       None \<Rightarrow> Ok (- 1, s)
     | Some p \<Rightarrow>
         if dirfd \<noteq> AT_FDCWD then Ok (- 1, s)
         else on_path (make_node bc p INODE_DEVICE (ucast (dev_major dev)) (ucast (dev_minor dev))) s)"

text \<open>
  \<^verbatim>\<open>chdir\<close> does not check its argument: the path is the string at the pointer, however long.
  The old working directory keeps its reference.
\<close>

definition sys_chdir :: "'c block_cache \<Rightarrow> nat \<Rightarrow> 'c psys \<Rightarrow> (int \<times> 'c psys) outcome" where
  "sys_chdir bc path s =
     (let cur = this_proc s
      in andthen (path_arg bc path (2 ^ 48) s) (\<lambda>(p, s).
         case p of
           None \<Rightarrow> Undef
         | Some p \<Rightarrow>
             andthen (on_path (chdir_path bc p) s) (\<lambda>(r, s).
             case r of None \<Rightarrow> Ok (- 1, s) | Some ip \<Rightarrow> Ok (0, upd_uproc cur (\<lambda>u. u\<lparr>cwd := Some ip\<rparr>) s))))"

section \<open>pipe2\<close>

definition drop_fd :: "'c block_cache \<Rightarrow> int \<Rightarrow> nat \<Rightarrow> 'c psys \<Rightarrow> 'c psys outcome" where
  "drop_fd bc fd f s =
     (if fd \<noteq> - 1 then do_files (file_close bc (Some f)) (set_fd (nat fd) None s) else Ok s)"

definition sys_pipe2 :: "'c block_cache \<Rightarrow> nat \<Rightarrow> int \<Rightarrow> 'c psys \<Rightarrow> (int \<times> 'c psys) outcome" where
  "sys_pipe2 bc pipefd flags s =
     andthen (with_files (\<lambda>t. andthen (pipe_alloc bc t) (\<lambda>(r, rf, wf, t). Ok ((r, rf, wf), t))) s) (\<lambda>((r, rf, wf), s).
     if r < 0 then Ok (- 1, s)
     else case fdalloc (the rf) s of (fd0, s) \<Rightarrow>
          case fdalloc (the wf) s of (fd1, s) \<Rightarrow>
            if fd0 = - 1 \<or> fd1 = - 1
            then andthen (drop_fd bc fd0 (the rf) s) (\<lambda>s. andthen (drop_fd bc fd1 (the wf) s) (\<lambda>s. Ok (- 1, s)))
            else andthen (user_store bc pipefd (le_bytes 4 (nat fd0) @ le_bytes 4 (nat fd1)) s) (\<lambda>s. Ok (0, s)))"

section \<open>mmap and munmap\<close>

definition PROT_READ :: u32 where "PROT_READ = 1"

definition PROT_WRITE :: u32 where "PROT_WRITE = 2"

text \<open>The last region of a chain; a chain of more than \<^verbatim>\<open>NVMA\<close> regions is a circle.\<close>

fun last_vma :: "nat \<Rightarrow> 'c psys \<Rightarrow> nat \<Rightarrow> nat outcome" where
  "last_vma 0 s pv = Blocked"
| "last_vma (Suc n) s pv = (case vnext (vma_list s pv) of None \<Rightarrow> Ok pv | Some q \<Rightarrow> last_vma n s q)"

definition sign_extend :: "int \<Rightarrow> nat" where
  "sign_extend n = unat (word_of_int n :: u64)"

text \<open>Where the region goes; the first region keeps the \<^verbatim>\<open>next\<close> it has.\<close>

definition place_region :: "nat \<Rightarrow> int \<Rightarrow> 'c psys \<Rightarrow> 'c psys outcome" where
  "place_region v len s =
     (let p = this_proc s;
          first = upd_uproc p (\<lambda>u. u\<lparr>pvma := Some v\<rparr>)
                    (upd_vma v (\<lambda>r. r\<lparr>vstart := VMA_START, vend := (VMA_START + sign_extend len) mod 2 ^ 64\<rparr>) s)
      in case pvma (uprocs s p) of
           None \<Rightarrow> Ok first
         | Some pv \<Rightarrow>
             if vlength (vma_list s pv) = 0 then Ok first
             else andthen (last_vma (Suc NVMA) s pv) (\<lambda>pv.
                  let st = pg_round_up (vend (vma_list s pv))
                  in Ok (upd_vma v (\<lambda>r. r\<lparr>vnext := None\<rparr>)
                       (upd_vma pv (\<lambda>r. r\<lparr>vnext := Some v\<rparr>)
                         (upd_vma v (\<lambda>r. r\<lparr>vstart := st, vend := (st + sign_extend len) mod 2 ^ 64\<rparr>) s)))))"

definition map_region :: "u64 \<Rightarrow> int \<Rightarrow> u32 \<Rightarrow> nat \<Rightarrow> 'c psys \<Rightarrow> (int \<times> 'c psys) outcome" where
  "map_region pte_flag len flags f s =
     andthen (vma_alloc s) (\<lambda>(v, s).
     andthen (do_files (file_dup f)
       (upd_vma v (\<lambda>r. r\<lparr>vperm := pte_flag, vlength := sign_extend len, voff := 0, vfile := f, vflags := flags\<rparr>) s)) (\<lambda>s.
     andthen (place_region v len s) (\<lambda>s.
     let addr = vstart (vma_list s v) in Ok (int addr, unlock_vma v s))))"

definition sys_mmap :: "nat \<Rightarrow> int \<Rightarrow> u32 \<Rightarrow> u32 \<Rightarrow> int \<Rightarrow> int \<Rightarrow> 'c psys \<Rightarrow> (int \<times> 'c psys) outcome" where
  "sys_mmap addr len prot flags fd offset s =
     (if addr \<noteq> 0 \<or> offset \<noteq> 0 then Panic
      else if fd < 0 \<or> fd \<ge> int OPENFILE then Undef
      else case oftable (uprocs s (this_proc s)) ! nat fd of
             None \<Rightarrow> Undef
           | Some f \<Rightarrow>
               let fl = ffiles (pfs s) f
               in if prot AND PROT_WRITE \<noteq> 0 \<and> \<not> fwritable fl \<and> flags AND MAP_PRIVATE = 0 then Ok (- 1, s)
                  else if prot AND PROT_READ \<noteq> 0 \<and> \<not> freadable fl then Ok (- 1, s)
                  else map_region (if prot AND PROT_WRITE \<noteq> 0 then PTE_USER_DATA OR PTE_RW else PTE_USER_DATA) len flags f s)"

text \<open>The region that an address lies in and the one before it in the chain.\<close>

fun region_at :: "nat \<Rightarrow> 'c psys \<Rightarrow> nat option \<Rightarrow> nat option \<Rightarrow> nat \<Rightarrow> (nat option \<times> nat option) outcome" where
  "region_at 0 s pre v addr = Blocked"
| "region_at (Suc n) s pre v addr =
     (case v of
        None \<Rightarrow> Ok (pre, None)
      | Some r \<Rightarrow> if vstart (vma_list s r) \<le> addr \<and> addr < vend (vma_list s r) then Ok (pre, Some r)
                 else region_at n s (Some r) (vnext (vma_list s r)) addr)"

text \<open>The whole region goes: it leaves the chain; without a predecessor it keeps its \<^verbatim>\<open>next\<close>.\<close>

definition drop_region :: "'c block_cache \<Rightarrow> nat option \<Rightarrow> nat \<Rightarrow> 'c psys \<Rightarrow> 'c psys outcome" where
  "drop_region bc pre v s =
     andthen (do_files (file_close bc (Some (vfile (vma_list s v)))) s) (\<lambda>s.
     let s = (case pre of
                None \<Rightarrow> upd_uproc (this_proc s) (\<lambda>u. u\<lparr>pvma := vnext (vma_list s v)\<rparr>) s
              | Some q \<Rightarrow> upd_vma v (\<lambda>r. r\<lparr>vnext := None\<rparr>) (upd_vma q (\<lambda>r. r\<lparr>vnext := vnext (vma_list s v)\<rparr>) s))
     in andthen (lock_vma v s) (\<lambda>s. Ok (unlock_vma v (upd_vma v (\<lambda>r. r\<lparr>vlength := 0\<rparr>) s))))"

definition minus64 :: "nat \<Rightarrow> nat \<Rightarrow> nat" where
  "minus64 a b = unat (of_nat a - of_nat b :: u64)"

definition unmap_head :: "'c block_cache \<Rightarrow> nat option \<Rightarrow> nat \<Rightarrow> nat \<Rightarrow> nat \<Rightarrow> 'c psys \<Rightarrow> 'c psys outcome" where
  "unmap_head bc pre v addr len s =
     andthen (writeback bc (vma_list s v) addr (nat (signed_take_bit 31 (int len))) s) (\<lambda>s.
     andthen (with_vm (\<lambda>m. andthen (uvmunmap (pgd (uprocs s (this_proc s))) addr (len div PAGE_SIZE) True m) (\<lambda>m. Ok ((), m))) s) (\<lambda>(_, s).
     if len = vlength (vma_list s v) then drop_region bc pre v s
     else Ok (upd_vma v (\<lambda>r. r\<lparr>voff := (voff r + len) mod 2 ^ 64, vlength := minus64 (vlength r) len\<rparr>) s)))"

definition sys_munmap :: "'c block_cache \<Rightarrow> nat \<Rightarrow> nat \<Rightarrow> 'c psys \<Rightarrow> (int \<times> 'c psys) outcome" where
  "sys_munmap bc addr len s =
     andthen (region_at (Suc NVMA) s None (pvma (uprocs s (this_proc s))) addr) (\<lambda>(pre, v).
     case v of
       None \<Rightarrow> Ok (- 1, s)
     | Some v \<Rightarrow>
         let st = vstart (vma_list s v); en = vend (vma_list s v)
         in if addr \<noteq> st \<and> (addr + len) mod 2 ^ 64 \<noteq> en then Panic
            else if addr = st then andthen (unmap_head bc pre v addr len s) (\<lambda>s. Ok (0, s))
            else Ok (0, upd_vma v (\<lambda>r. r\<lparr>vlength := minus64 (vlength r) len, vend := minus64 (vend r) len\<rparr>) s))"

end
