(* ===== verification/SysSpec.thy ===== *)
theory SysSpec
  imports SysFile
begin

text \<open>
  What the system calls on descriptors and mapped regions keep: the reference count of every
  open file is the number of descriptors and mapped regions that refer to it, and the regions of
  a process lie behind each other in its address space.
\<close>

section \<open>References to open files\<close>

definition region_refs :: "'c psys \<Rightarrow> nat \<Rightarrow> nat" where
  "region_refs s f = card {v. v < NVMA \<and> vlength (vma_list s v) \<noteq> 0 \<and> vfile (vma_list s v) = f}"

definition fd_refs :: "'c psys \<Rightarrow> tid set \<Rightarrow> nat \<Rightarrow> nat" where
  "fd_refs s T f = (\<Sum>p\<in>T. count_list (oftable (uprocs s p)) (Some f))"

definition counted :: "'c psys \<Rightarrow> tid set \<Rightarrow> bool" where
  "counted s T \<longleftrightarrow> finite T \<and> this_proc s \<in> T \<and> (\<forall>p\<in>T. length (oftable (uprocs s p)) = OPENFILE) \<and>
     (\<forall>f. fref (ffiles (pfs s) f) = int (fd_refs s T f + region_refs s f))"

lemma count_list_update:
  assumes "i < length xs"
  shows "int (count_list (xs[i := y]) x) = int (count_list xs x) - (if xs ! i = x then 1 else 0) + (if y = x then 1 else 0)"
  using assms
proof (induction xs arbitrary: i)
  case (Cons z zs)
  show ?case
  proof (cases i)
    case (Suc n)
    then show ?thesis using Cons.IH [of n] Cons.prems by auto
  qed simp
qed simp

lemma this_proc_simps [simp]:
  "this_proc (set_fd i f s) = this_proc s" "this_proc (upd_vma v g s) = this_proc s" "this_proc (unlock_vma v s) = this_proc s"
  "this_proc (s\<lparr>pfs := q\<rparr>) = this_proc s" "this_proc (s\<lparr>vma_list := l\<rparr>) = this_proc s" "this_proc (s\<lparr>pvm := w\<rparr>) = this_proc s"
  by (simp_all add: set_fd_def upd_vma_def unlock_vma_def this_proc_def)

lemma set_fd_simps [simp]:
  "pfs (set_fd i f s) = pfs s" "vma_list (set_fd i f s) = vma_list s" "sch (set_fd i f s) = sch s" "on_cpu (set_fd i f s) = on_cpu s"
  "uprocs (set_fd i f s) = (uprocs s)(this_proc s := (uprocs s (this_proc s))\<lparr>oftable := (oftable (uprocs s (this_proc s)))[i := f]\<rparr>)"
  by (simp_all add: set_fd_def)

text \<open>Changing one descriptor of the running process.\<close>

lemma fd_refs_set:
  assumes "finite T" and "this_proc s \<in> T" and "i < length (oftable (uprocs s (this_proc s)))"
  shows "int (fd_refs (set_fd i g s) T f) = int (fd_refs s T f)
     - (if oftable (uprocs s (this_proc s)) ! i = Some f then 1 else 0) + (if g = Some f then 1 else 0)"
proof -
  let ?p = "this_proc s"
  have s: "fd_refs t T f = count_list (oftable (uprocs t ?p)) (Some f) + (\<Sum>q\<in>T - {?p}. count_list (oftable (uprocs t q)) (Some f))" for t :: "'a psys"
    unfolding fd_refs_def using sum.remove [OF assms(1,2)] by simp
  have "(\<Sum>q\<in>T - {?p}. count_list (oftable (uprocs (set_fd i g s) q)) (Some f)) = (\<Sum>q\<in>T - {?p}. count_list (oftable (uprocs s q)) (Some f))"
    by (rule sum.cong) auto
  then show ?thesis
    using count_list_update [OF assms(3), of g "Some f"] unfolding s [of s] s [of "set_fd i g s"] by simp
qed

lemma region_refs_set_fd [simp]: "region_refs (set_fd i g s) f = region_refs s f"
  by (simp add: region_refs_def)

lemma fd2file_SomeD:
  assumes "fd2file fd s = Some f"
  shows "0 \<le> fd" "nat fd < OPENFILE" "oftable (uprocs s (this_proc s)) ! nat fd = Some f"
  using assms by (auto simp: fd2file_def split: if_splits)

text \<open>The descriptor that \<^verbatim>\<open>fdalloc\<close> takes is the least free one.\<close>

lemma fdalloc_spec:
  "fdalloc f s =
    (if \<exists>i<OPENFILE. oftable (uprocs s (this_proc s)) ! i = None
     then let i = LEAST i. oftable (uprocs s (this_proc s)) ! i = None in (int i, set_fd i (Some f) s)
     else (- 1, s))"
proof (cases "find (\<lambda>fd. oftable (uprocs s (this_proc s)) ! fd = None) [0..<OPENFILE]")
  case None
  then have "\<not> (\<exists>i<OPENFILE. oftable (uprocs s (this_proc s)) ! i = None)" by (auto simp: find_None_iff)
  then show ?thesis unfolding fdalloc_def None by (simp only: if_False option.case)
next
  case (Some i)
  then have i: "i < OPENFILE" "oftable (uprocs s (this_proc s)) ! i = None" "\<forall>j<i. oftable (uprocs s (this_proc s)) ! j \<noteq> None"
    by (auto simp: find_Some_iff)
  then have "(LEAST i. oftable (uprocs s (this_proc s)) ! i = None) = i" by (intro Least_equality) (auto simp: not_less [symmetric])
  then show ?thesis using Some i by (auto simp: fdalloc_def)
qed

lemma file_dup_eq:
  assumes "\<not> ftlock t" and "0 < fref (ffiles t f)"
  shows "file_dup f t = Ok (t\<lparr>ffiles := (ffiles t)(f := (ffiles t f)\<lparr>fref := fref (ffiles t f) + 1\<rparr>)\<rparr>)"
  using assms by (cases t) (simp add: file_dup_def lock_ftable_def unlock_ftable_def upd_file_def)

lemma as_thread_simps [simp]: "ftlock (as_thread s) = ftlock (pfs s)" "ffiles (as_thread s) = ffiles (pfs s)"
  "fpipes (as_thread s) = fpipes (pfs s)" "fmem (as_thread s) = fmem (pfs s)"
  by (simp_all add: as_thread_def Let_def)

lemma do_files_dup:
  assumes "\<not> ftlock (pfs s)" and "0 < fref (ffiles (pfs s) f)"
  obtains q where "do_files (file_dup f) s = Ok (s\<lparr>pfs := q\<rparr>)" "\<not> ftlock q"
    "ffiles q = (ffiles (pfs s))(f := (ffiles (pfs s) f)\<lparr>fref := fref (ffiles (pfs s) f) + 1\<rparr>)"
  using assms file_dup_eq [of "as_thread s" f] that by (simp add: do_files_def)

lemma refs_pfs [simp]: "fd_refs (s\<lparr>pfs := q\<rparr>) T f = fd_refs s T f" "region_refs (s\<lparr>pfs := q\<rparr>) f = region_refs s f"
  by (simp_all add: fd_refs_def region_refs_def)

lemma fd_refs_pos:
  assumes "counted s T" and "fd2file fd s = Some f"
  shows "0 < fref (ffiles (pfs s) f)"
proof -
  have "Some f \<in> set (oftable (uprocs s (this_proc s)))"
    using assms fd2file_SomeD [OF assms(2)] by (metis counted_def nth_mem)
  then have "0 < count_list (oftable (uprocs s (this_proc s))) (Some f)"
    by (metis count_list_0_iff gr0I)
  moreover have "count_list (oftable (uprocs s (this_proc s))) (Some f) \<le> fd_refs s T f"
    unfolding fd_refs_def using assms(1) by (intro member_le_sum) (auto simp: counted_def)
  ultimately show ?thesis using assms(1) by (simp add: counted_def)
qed

lemma dup_counted:
  assumes c: "counted s T" and l: "\<not> ftlock (pfs s)"
  shows "\<exists>r s'. sys_dup fd s = Ok (r, s') \<and> counted s' T \<and> \<not> ftlock (pfs s') \<and>
    (if fd2file fd s = None \<or> (\<forall>i<OPENFILE. oftable (uprocs s (this_proc s)) ! i \<noteq> None) then r = - 1 \<and> s' = s
     else r = int (LEAST i. oftable (uprocs s (this_proc s)) ! i = None) \<and> fd2file r s' = fd2file fd s)"
proof (cases "fd2file fd s")
  case None
  then show ?thesis using assms by (simp add: sys_dup_def)
next
  case (Some f)
  show ?thesis
  proof (cases "\<forall>i<OPENFILE. oftable (uprocs s (this_proc s)) ! i \<noteq> None")
    case True
    then have "fdalloc f s = (- 1, s)" by (auto simp: fdalloc_spec)
    then show ?thesis using True Some assms by (simp add: sys_dup_def)
  next
    case False
    let ?i = "LEAST i. oftable (uprocs s (this_proc s)) ! i = None"
    obtain j where j: "j < OPENFILE" "oftable (uprocs s (this_proc s)) ! j = None" using False by auto
    have i: "?i < OPENFILE" "oftable (uprocs s (this_proc s)) ! ?i = None"
      using j LeastI [of _ j] Least_le [of _ j] by (metis (mono_tags, lifting) le_less_trans)+
    have a: "fdalloc f s = (int ?i, set_fd ?i (Some f) s)" unfolding fdalloc_spec Let_def using j by auto
    have pos: "0 < fref (ffiles (pfs s) f)" by (rule fd_refs_pos [OF c Some])
    from do_files_dup [of "set_fd ?i (Some f) s" f] l pos obtain q where
      q: "do_files (file_dup f) (set_fd ?i (Some f) s) = Ok ((set_fd ?i (Some f) s)\<lparr>pfs := q\<rparr>)" "\<not> ftlock q"
      "ffiles q = (ffiles (pfs s))(f := (ffiles (pfs s) f)\<lparr>fref := fref (ffiles (pfs s) f) + 1\<rparr>)" by auto
    have len: "?i < length (oftable (uprocs s (this_proc s)))" using c i by (simp add: counted_def)
    have t: "finite T" "this_proc s \<in> T" using c by (auto simp: counted_def)
    have "counted ((set_fd ?i (Some f) s)\<lparr>pfs := q\<rparr>) T"
      using c fd_refs_set [OF t len, of "Some f"] by (auto simp: counted_def q(3) i(2))
    then show ?thesis using Some False a q i len by (auto simp: sys_dup_def fd2file_def)
  qed
qed

section \<open>Closing\<close>

lemma file_close_refs:
  assumes "file_close bc (Some f) t = Ok t'"
  shows "\<not> ftlock t'" "fref (ffiles t' f) = fref (ffiles t f) - 1" "g \<noteq> f \<Longrightarrow> fref (ffiles t' g) = fref (ffiles t g)"
  using assms
  by (auto simp: file_close_def lock_ftable_def unlock_ftable_def upd_file_def Let_def zero_file_def close_pipe_def on_inodes_def
      split: if_splits prod.splits)

lemma do_files_close:
  assumes "do_files (file_close bc (Some f)) s = Ok s'"
  obtains q where "s' = s\<lparr>pfs := q\<rparr>" "\<not> ftlock q" "\<And>g. fref (ffiles q g) = fref (ffiles (pfs s) g) - (if g = f then 1 else 0)"
proof -
  obtain q where q: "file_close bc (Some f) (as_thread s) = Ok q" "s' = s\<lparr>pfs := q\<rparr>" using assms by (auto simp: do_files_def)
  show thesis by (rule that [of q]) (use q file_close_refs [OF q(1)] in auto)
qed

lemma close_counted:
  assumes c: "counted s T" and k: "sys_close bc fd s = Ok (r, s')" and l: "\<not> ftlock (pfs s)"
  shows "counted s' T \<and> \<not> ftlock (pfs s') \<and> r = (if fd2file fd s = None then - 1 else 0) \<and> fd2file fd s' = None"
proof (cases "fd2file fd s")
  case None
  then show ?thesis using assms by (simp add: sys_close_def)
next
  case (Some f)
  note fd = fd2file_SomeD [OF Some]
  from k Some obtain s1 where s1: "do_files (file_close bc (Some f)) (set_fd (nat fd) None s) = Ok s1" "s' = s1" "r = 0"
    by (auto simp: sys_close_def)
  from do_files_close [OF s1(1)] obtain q where q: "s1 = (set_fd (nat fd) None s)\<lparr>pfs := q\<rparr>" "\<not> ftlock q"
    "\<And>g. fref (ffiles q g) = fref (ffiles (pfs s) g) - (if g = f then 1 else 0)" by auto
  have t: "finite T" "this_proc s \<in> T" "nat fd < length (oftable (uprocs s (this_proc s)))" using c fd by (auto simp: counted_def)
  have "counted s1 T"
    using c fd_refs_set [OF t, of None] by (auto simp: counted_def q fd(3))
  then show ?thesis using s1 Some q t(3) by (simp add: fd2file_def)
qed


lemma close_shared:
  assumes "fd2file fd s = Some f" and "\<not> ftlock (pfs s)" and "fref (ffiles (pfs s) f) \<noteq> 1"
  shows "\<exists>s'. sys_close bc fd s = Ok (0, s')"
  using assms
  by (auto simp: sys_close_def do_files_def file_close_def lock_ftable_def unlock_ftable_def upd_file_def Let_def)

section \<open>The regions of a process\<close>

fun vma_chain :: "(nat \<Rightarrow> vma) \<Rightarrow> nat option \<Rightarrow> nat list \<Rightarrow> bool" where
  "vma_chain l v [] \<longleftrightarrow> v = None"
| "vma_chain l v (r # rs) \<longleftrightarrow> v = Some r \<and> vma_chain l (vnext (l r)) rs"

text \<open>The regions in a vma_chain lie in different slots and behind each other, each on whole pages.\<close>

definition regions_ok :: "(nat \<Rightarrow> vma) \<Rightarrow> nat list \<Rightarrow> bool" where
  "regions_ok l ws \<longleftrightarrow> distinct ws \<and> sorted_wrt (\<lambda>a b. vend (l a) \<le> vstart (l b)) ws \<and>
     (\<forall>r\<in>set ws. r < NVMA \<and> 0 < vlength (l r) \<and> vend (l r) = vstart (l r) + vlength (l r) \<and> PAGE_SIZE dvd vstart (l r) \<and> VMA_START \<le> vstart (l r))"

lemma vma_chain_cong: "\<forall>r\<in>set ws. vnext (l' r) = vnext (l r) \<Longrightarrow> vma_chain l' v ws = vma_chain l v ws"
  by (induction ws arbitrary: v) auto

lemma vma_chain_snoc:
  assumes "vma_chain l v ws" and "ws \<noteq> []" and "distinct ws" and "vnext (l' (last ws)) = Some x" and "vnext (l' x) = None"
    and "\<forall>r\<in>set ws - {last ws}. vnext (l' r) = vnext (l r)"
  shows "vma_chain l' v (ws @ [x])"
  using assms
proof (induction ws arbitrary: v)
  case (Cons r rs)
  show ?case
  proof (cases "rs = []")
    case True
    then show ?thesis using Cons.prems by simp
  next
    case False
    then have "last rs \<in> set rs" by simp
    then have "r \<noteq> last rs" using Cons.prems(3) by auto
    then show ?thesis using Cons.IH [of "vnext (l r)"] Cons.prems False by auto
  qed
qed simp

lemma regions_cong:
  assumes "\<And>r. vstart (l' r) = vstart (l r)" and "\<And>r. vend (l' r) = vend (l r)" and "\<And>r. r \<in> set ws \<Longrightarrow> vlength (l' r) = vlength (l r)"
  shows "regions_ok l' ws = regions_ok l ws"
  unfolding regions_ok_def assms(1,2) using assms(3) by auto

lemma vma_chain_last:
  assumes "vma_chain (vma_list s) (Some r) (r # ws)" and "length ws \<le> n"
  shows "last_vma (Suc n) s r = Ok (last (r # ws))"
  using assms
proof (induction ws arbitrary: r n)
  case (Cons x xs)
  then show ?case by (cases n) auto
qed simp

lemma regions_length: "regions_ok l ws \<Longrightarrow> length ws \<le> NVMA"
proof -
  assume "regions_ok l ws"
  then have "distinct ws" "set ws \<subseteq> {..<NVMA}" by (auto simp: regions_ok_def)
  then show ?thesis by (metis card_lessThan card_mono distinct_card finite_lessThan)
qed

lemma round_up_le: "a \<le> pg_round_up a" "PAGE_SIZE dvd pg_round_up a"
proof -
  show "PAGE_SIZE dvd pg_round_up a" unfolding pg_round_up_def page_base_def by (rule dvd_minus_mod)
  have "(a + PAGE_SIZE - 1) mod PAGE_SIZE < PAGE_SIZE" by (rule mod_less_divisor) (simp add: PAGE_SIZE_def)
  then have "a + PAGE_SIZE - 1 < pg_round_up a + PAGE_SIZE" unfolding pg_round_up_def page_base_def by linarith
  then show "a \<le> pg_round_up a" by simp
qed

lemma regions_snoc:
  assumes ok: "regions_ok l ws" and x: "x \<notin> set ws" "x < NVMA" and same: "\<forall>r\<in>set ws. vstart (l' r) = vstart (l r) \<and> vend (l' r) = vend (l r) \<and> vlength (l' r) = vlength (l r)"
    and new: "vstart (l' x) = (if ws = [] then VMA_START else pg_round_up (vend (l (last ws))))" "vend (l' x) = vstart (l' x) + vlength (l' x)" "0 < vlength (l' x)"
  shows "regions_ok l' (ws @ [x])"
proof -
  have le: "vend (l a) \<le> vend (l (last ws))" if a: "a \<in> set ws" for a
  proof (cases "a = last ws")
    case False
    have ne: "ws \<noteq> []" using a by auto
    define us where "us = butlast ws"
    have us: "ws = us @ [last ws]" using ne by (simp add: us_def)
    have "a \<in> set (us @ [last ws])" using a by (simp only: us [symmetric])
    then have "a \<in> set us" using False by simp
    moreover have "sorted_wrt (\<lambda>a b. vend (l a) \<le> vstart (l b)) (us @ [last ws])" using ok us by (simp add: regions_ok_def)
    ultimately have "vend (l a) \<le> vstart (l (last ws))" by (simp add: sorted_wrt_append)
    moreover have "vstart (l (last ws)) \<le> vend (l (last ws))" using ok a unfolding regions_ok_def by (metis last_in_set le_add1 length_pos_if_in_set list.size(3) less_irrefl)
    ultimately show ?thesis by simp
  qed simp
  have st: "PAGE_SIZE dvd vstart (l' x) \<and> VMA_START \<le> vstart (l' x)"
  proof (cases "ws = []")
    case True
    then show ?thesis using new(1) by (simp add: VMA_START_def MAXVA_def PAGE_SIZE_def)
  next
    case False
    then have "VMA_START \<le> vend (l (last ws))" using ok unfolding regions_ok_def by (metis last_in_set trans_le_add1)
    then show ?thesis using new(1) False round_up_le [of "vend (l (last ws))"] by simp
  qed
  have "vend (l a) \<le> vstart (l' x)" if "a \<in> set ws" for a
    using le [OF that] round_up_le(1) [of "vend (l (last ws))"] new(1) that by (cases "ws = []") auto
  moreover have "sorted_wrt (\<lambda>a b. vend (l' a) \<le> vstart (l' b)) ws"
    using ok same by (simp add: regions_ok_def) (metis (no_types, lifting) sorted_wrt_mono_rel)
  ultimately show ?thesis using ok x same new(2,3) st by (auto simp: regions_ok_def sorted_wrt_append)
qed

section \<open>mmap\<close>

lemma vma_alloc_from_eq:
  assumes "\<forall>j\<in>set ys. vlength (vma_list s j) \<noteq> 0 \<and> \<not> vlock (vma_list s j)" and "vlength (vma_list s i) = 0" and "\<not> vlock (vma_list s i)"
  shows "vma_alloc_from (ys @ i # zs) s = Ok (i, upd_vma i (\<lambda>r. r\<lparr>vlock := True\<rparr>) s)"
  using assms
proof (induction ys)
  case Nil
  then show ?case by (simp add: lock_vma_def upd_vma_def)
next
  case (Cons y ys)
  have "(vma_list s y)\<lparr>vlock := False\<rparr> = vma_list s y" using Cons.prems(1) by (cases "vma_list s y") simp
  then have "unlock_vma y (s\<lparr>vma_list := (vma_list s)(y := (vma_list s y)\<lparr>vlock := True\<rparr>)\<rparr>) = s"
    by (cases s) (simp add: unlock_vma_def fun_upd_idem)
  then show ?case using Cons by (simp add: lock_vma_def)
qed

lemma vma_alloc_eq:
  assumes "\<forall>j<NVMA. \<not> vlock (vma_list s j)" and "i < NVMA" and "vlength (vma_list s i) = 0" and "\<forall>j<i. vlength (vma_list s j) \<noteq> 0"
  shows "vma_alloc s = Ok (i, upd_vma i (\<lambda>r. r\<lparr>vlock := True\<rparr>) s)"
proof -
  have "[0..<NVMA] = [0..<i] @ i # [Suc i..<NVMA]" using assms(2) upt_add_eq_append [of 0 i "NVMA - i"] upt_conv_Cons [of i NVMA] by simp
  then show ?thesis unfolding vma_alloc_def using assms by (simp only:, intro vma_alloc_from_eq) auto
qed

lemma sign_extend_pos: "0 < n \<Longrightarrow> n < 2 ^ 31 \<Longrightarrow> sign_extend n = nat n"
  unfolding sign_extend_def by (simp add: unsigned_of_int take_bit_int_eq_self nat_eq_iff)

text \<open>The region that a successful \<^verbatim>\<open>mmap\<close> makes.\<close>

definition may_map :: "open_file \<Rightarrow> u32 \<Rightarrow> u32 \<Rightarrow> bool" where
  "may_map fl prot flags \<longleftrightarrow>
     (prot AND PROT_WRITE \<noteq> 0 \<longrightarrow> fwritable fl \<or> flags AND MAP_PRIVATE \<noteq> 0) \<and> (prot AND PROT_READ \<noteq> 0 \<longrightarrow> freadable fl)"

definition next_start :: "(nat \<Rightarrow> vma) \<Rightarrow> nat list \<Rightarrow> nat" where
  "next_start l ws = (if ws = [] then VMA_START else pg_round_up (vend (l (last ws))))"

lemma place_region_spec:
  fixes s :: "'c psys"
  assumes ch: "vma_chain (vma_list s) (pvma (uprocs s (this_proc s))) ws" and ok: "regions_ok (vma_list s) ws"
    and v: "v < NVMA" "v \<notin> set ws" "vnext (vma_list s v) = None" and n: "0 < n" "n < 2 ^ 31" "next_start (vma_list s) ws + nat n < 2 ^ 64"
    and len: "vlength (vma_list s v) = nat n"
  shows "\<exists>l u. place_region v n s = Ok (s\<lparr>vma_list := l, uprocs := u\<rparr>) \<and>
    vma_chain l (pvma (u (this_proc s))) (ws @ [v]) \<and> regions_ok l (ws @ [v]) \<and> vstart (l v) = next_start (vma_list s) ws \<and>
    (\<forall>p. oftable (u p) = oftable (uprocs s p)) \<and> (\<forall>i. vlength (l i) = vlength (vma_list s i) \<and> vfile (l i) = vfile (vma_list s i))"
proof (cases ws)
  case Nil
  define l where "l = (vma_list s)(v := (vma_list s v)\<lparr>vstart := VMA_START, vend := (VMA_START + sign_extend n) mod 2 ^ 64\<rparr>)"
  define u where "u = (uprocs s)(this_proc s := (uprocs s (this_proc s))\<lparr>pvma := Some v\<rparr>)"
  have e: "(VMA_START + sign_extend n) mod 2 ^ 64 = VMA_START + nat n" using n Nil by (simp add: sign_extend_pos next_start_def)
  have p: "pvma (uprocs s (this_proc s)) = None" using ch Nil by simp
  have "place_region v n s = Ok (s\<lparr>vma_list := l, uprocs := u\<rparr>)"
    unfolding place_region_def Let_def p by (simp add: upd_uproc_def upd_vma_def l_def u_def)
  moreover have "regions_ok l ([] @ [v])"
    by (rule regions_snoc [of "vma_list s"]) (use v n len in \<open>simp_all add: regions_ok_def l_def e [simplified]\<close>)
  ultimately show ?thesis using v
    by (intro exI [of _ l] exI [of _ u]) (simp add: Nil l_def u_def next_start_def)
next
  case (Cons pv rs)
  have p: "pvma (uprocs s (this_proc s)) = Some pv" using ch Cons by simp
  have nz: "vlength (vma_list s pv) \<noteq> 0" using ok Cons by (auto simp: regions_ok_def)
  let ?w = "last ws"
  have w: "?w \<in> set ws" "v \<noteq> ?w" using Cons v(2) last_in_set [of ws] by (auto simp del: last.simps)
  have lst: "last_vma (Suc NVMA) s pv = Ok ?w"
    using vma_chain_last [of s pv rs NVMA] ch regions_length [OF ok] by (simp add: Cons)
  define st where "st = pg_round_up (vend (vma_list s ?w))"
  define l where "l = (vma_list s)(v := (vma_list s v)\<lparr>vstart := st, vend := st + nat n, vnext := None\<rparr>, ?w := (vma_list s ?w)\<lparr>vnext := Some v\<rparr>)"
  have e: "(st + sign_extend n) mod 2 ^ 64 = st + nat n" using n Cons by (simp add: sign_extend_pos next_start_def st_def)
  have "place_region v n s = Ok (s\<lparr>vma_list := l, uprocs := uprocs s\<rparr>)"
    unfolding place_region_def Let_def p option.case if_not_P [OF nz] lst andthen_simps st_def [symmetric] e
    using w(2) by (simp add: upd_vma_def l_def fun_upd_twist)
  moreover have "vma_chain l (pvma (uprocs s (this_proc s))) (ws @ [v])"
    by (rule vma_chain_snoc [OF ch]) (use Cons ok v(2) w in \<open>auto simp: l_def regions_ok_def simp del: last.simps\<close>)
  moreover have "regions_ok l (ws @ [v])"
    by (rule regions_snoc [OF ok]) (use v n len w Cons in \<open>auto simp: l_def st_def simp del: last.simps\<close>)
  ultimately show ?thesis using w Cons
    by (intro exI [of _ l] exI [of _ "uprocs s"]) (auto simp: l_def next_start_def st_def simp del: last.simps)
qed


lemma region_refs_new:
  assumes v: "v < NVMA" "vlength (vma_list s v) = 0" "0 < vlength (l v)" "vfile (l v) = f"
    and same: "\<forall>i. i \<noteq> v \<longrightarrow> vlength (l i) = vlength (vma_list s i) \<and> vfile (l i) = vfile (vma_list s i)"
  shows "region_refs (s\<lparr>vma_list := l\<rparr>) g = region_refs s g + (if g = f then 1 else 0)"
proof -
  define A where "A = {i. i < NVMA \<and> vlength (vma_list s i) \<noteq> 0 \<and> vfile (vma_list s i) = g}"
  have "{i. i < NVMA \<and> vlength (l i) \<noteq> 0 \<and> vfile (l i) = g} = (if g = f then insert v A else A)"
    using v same unfolding A_def by (auto split: if_splits) (metis gr_implies_not0)+
  then have "region_refs (s\<lparr>vma_list := l\<rparr>) g = card (if g = f then insert v A else A)" by (simp add: region_refs_def)
  moreover have "region_refs s g = card A" by (simp add: region_refs_def A_def)
  moreover have "finite A" unfolding A_def by (rule finite_subset [of _ "{..<NVMA}"]) auto
  moreover have "v \<notin> A" using v(2) by (simp add: A_def)
  ultimately show ?thesis by simp
qed

lemma mmap_spec:
  assumes c: "counted s T" and l: "\<not> ftlock (pfs s)" "\<forall>j<NVMA. \<not> vlock (vma_list s j)"
    and ch: "vma_chain (vma_list s) (pvma (uprocs s (this_proc s))) ws" and ok: "regions_ok (vma_list s) ws"
    and v: "v < NVMA" "vlength (vma_list s v) = 0" "\<forall>j<v. vlength (vma_list s j) \<noteq> 0" "vnext (vma_list s v) = None"
    and n: "0 < n" "n < 2 ^ 31" "next_start (vma_list s) ws + nat n < 2 ^ 64"
    and f: "fd2file fd s = Some f" "may_map (ffiles (pfs s) f) prot flags"
  shows "\<exists>s'. sys_mmap 0 n prot flags fd 0 s = Ok (int (next_start (vma_list s) ws), s') \<and> counted s' T \<and>
    vma_chain (vma_list s') (pvma (uprocs s' (this_proc s'))) (ws @ [v]) \<and> regions_ok (vma_list s') (ws @ [v]) \<and>
    vfile (vma_list s' v) = f \<and> vlength (vma_list s' v) = nat n"
proof -
  note fd = fd2file_SomeD [OF f(1)]
  define perm where "perm = (if prot AND PROT_WRITE \<noteq> 0 then PTE_USER_DATA OR PTE_RW else PTE_USER_DATA)"
  have e1: "sys_mmap 0 n prot flags fd 0 s = map_region perm n flags f s"
    using fd f(2) unfolding may_map_def by (auto simp: sys_mmap_def Let_def perm_def)
  define s1 where "s1 = upd_vma v (\<lambda>r. r\<lparr>vperm := perm, vlength := sign_extend n, voff := 0, vfile := f, vflags := flags\<rparr>)
    (upd_vma v (\<lambda>r. r\<lparr>vlock := True\<rparr>) s)"
  have vl: "vma_list s1 = (vma_list s)(v := (vma_list s v)\<lparr>vperm := perm, vlength := nat n, voff := 0, vfile := f, vflags := flags, vlock := True\<rparr>)"
    using sign_extend_pos [OF n(1,2)] by (cases "vma_list s v") (simp add: s1_def upd_vma_def)
  have s1: "pfs s1 = pfs s" "uprocs s1 = uprocs s" "this_proc s1 = this_proc s" by (simp_all add: s1_def) (simp_all add: upd_vma_def)
  obtain q where q: "do_files (file_dup f) s1 = Ok (s1\<lparr>pfs := q\<rparr>)" "\<not> ftlock q"
    "ffiles q = (ffiles (pfs s))(f := (ffiles (pfs s) f)\<lparr>fref := fref (ffiles (pfs s) f) + 1\<rparr>)"
    using do_files_dup [of s1 f] l(1) fd_refs_pos [OF c f(1)] s1(1) by auto
  define s2 where "s2 = s1\<lparr>pfs := q\<rparr>"
  have s2: "vma_list s2 = vma_list s1" "uprocs s2 = uprocs s" "this_proc s2 = this_proc s" "pfs s2 = q" by (simp_all add: s2_def s1)
  have nin: "v \<notin> set ws" using ok v(2) by (auto simp: regions_ok_def)
  have ch2: "vma_chain (vma_list s2) (pvma (uprocs s2 (this_proc s2))) ws" unfolding s2(2,3)
    by (subst vma_chain_cong [of _ _ "vma_list s"]) (use ch nin in \<open>auto simp: s2 vl\<close>)
  have ok2: "regions_ok (vma_list s2) ws"
    by (subst regions_cong [of _ "vma_list s"]) (use ok nin in \<open>auto simp: s2 vl\<close>)
  have ns: "next_start (vma_list s2) ws = next_start (vma_list s) ws" by (auto simp: next_start_def s2 vl)
  obtain m u where m: "place_region v n s2 = Ok (s2\<lparr>vma_list := m, uprocs := u\<rparr>)" "vma_chain m (pvma (u (this_proc s))) (ws @ [v])" "regions_ok m (ws @ [v])"
    "vstart (m v) = next_start (vma_list s) ws" "\<forall>p. oftable (u p) = oftable (uprocs s p)"
    "\<forall>i. vlength (m i) = vlength (vma_list s1 i) \<and> vfile (m i) = vfile (vma_list s1 i)"
    using place_region_spec [OF ch2 ok2 v(1) nin _ n(1,2)] v(4) n(3) unfolding s2(1,2,3) ns [unfolded s2(1)] by (auto simp: vl)
  define s' where "s' = unlock_vma v (s2\<lparr>vma_list := m, uprocs := u\<rparr>)"
  have s': "vma_list s' = m(v := (m v)\<lparr>vlock := False\<rparr>)" "uprocs s' = u" "pfs s' = q"
    by (simp_all add: s'_def unlock_vma_def s2)
  have t': "this_proc s' = this_proc s" using s1(3) by (simp add: s'_def s2_def this_proc_def unlock_vma_def)
  have "sys_mmap 0 n prot flags fd 0 s = Ok (int (next_start (vma_list s) ws), s')"
    unfolding e1 map_region_def vma_alloc_eq [OF l(2) v(1-3)] andthen_simps prod.case s1_def [symmetric] q(1) s2_def [symmetric] m(1)
    by (simp add: s'_def m(4) Let_def)
  moreover have "vma_chain (vma_list s') (pvma (uprocs s' (this_proc s'))) (ws @ [v])"
    unfolding s'(2) t' by (subst vma_chain_cong [of _ _ m]) (use m(2) in \<open>auto simp: s'\<close>)
  moreover have "regions_ok (vma_list s') (ws @ [v])"
    by (subst regions_cong [of _ m]) (use m(3) in \<open>auto simp: s'\<close>)
  moreover have "counted s' T"
  proof -
    have "region_refs s' g = region_refs (s\<lparr>vma_list := m\<rparr>) g" for g
      by (auto simp: region_refs_def s' intro!: arg_cong [of _ _ card])
    moreover have "region_refs (s\<lparr>vma_list := m\<rparr>) g = region_refs s g + (if g = f then 1 else 0)" for g
      by (rule region_refs_new [OF v(1,2)]) (use n m(6) in \<open>simp_all add: vl\<close>)
    moreover have "fd_refs s' T g = fd_refs s T g" for g by (simp add: fd_refs_def s' m(5))
    ultimately show ?thesis using c t' m(5) by (simp add: counted_def s' q(3))
  qed
  ultimately show ?thesis using m(6) by (simp add: s' vl)
qed

end
