(* ===== verification/ProcSpec.thy ===== *)
theory ProcSpec
  imports Lifecycle MemSpec
begin

text \<open>
  The invariant of the process layer and what \<^verbatim>\<open>wait\<close>, \<^verbatim>\<open>exit\<close>, \<^verbatim>\<open>kill\<close> and the creation of a
  process do to it.  \<open>T\<close> is the set of processes in the tree, \<open>W\<close> the set of processes that a post
  has woken from \<^verbatim>\<open>wait\<close> and that have not run since.
\<close>

section \<open>The invariant\<close>

definition up :: "'c psys \<Rightarrow> nat \<Rightarrow> tid \<Rightarrow> tid" where
  "up s n p = ((\<lambda>q. parent (uprocs s q)) ^^ n) p"

definition pstate :: "'c psys \<Rightarrow> tid \<Rightarrow> procstate" where
  "pstate s p = state (procs (sch s) p)"

text \<open>The tree: \<open>children\<close> and \<open>parent\<close> agree, every process descends from the root, zombies have no children.\<close>

definition family_ok :: "'c psys \<Rightarrow> tid set \<Rightarrow> bool" where
  "family_ok s T \<longleftrightarrow> finite T \<and> 0 \<notin> T \<and> root_proc s \<in> T \<and> parent (uprocs s (root_proc s)) = root_proc s \<and>
     pstate s (root_proc s) \<noteq> ZOMBIE \<and>
     (\<forall>p\<in>T. distinct (children (uprocs s p)) \<and>
        set (children (uprocs s p)) = {c \<in> T. c \<noteq> root_proc s \<and> parent (uprocs s c) = p}) \<and>
     (\<forall>p\<in>T. parent (uprocs s p) \<in> T \<and> (\<exists>n. up s n p = root_proc s)) \<and>
     (\<forall>p\<in>T. pstate s p = ZOMBIE \<longrightarrow> children (uprocs s p) = [])"

text \<open>The numbers: no two processes share one, and a recycled number is not in use.\<close>

definition names_ok :: "'c psys \<Rightarrow> tid set \<Rightarrow> bool" where
  "names_ok s T \<longleftrightarrow> inj_on (\<lambda>p. pidno (uprocs s p)) T \<and> distinct (map snd (pid_list s)) \<and>
     (\<lambda>p. pidno (uprocs s p)) ` T \<inter> snd ` set (pid_list s) = {} \<and>
     (\<forall>i \<in> (\<lambda>p. pidno (uprocs s p)) ` T \<union> snd ` set (pid_list s). 1 \<le> i \<and> i \<le> last_pid s)"

text \<open>The semaphore of a process counts its zombies, less the one that a woken process will take.\<close>

definition zombies :: "'c psys \<Rightarrow> tid set \<Rightarrow> tid \<Rightarrow> tid set" where
  "zombies s T p = {c \<in> T. c \<noteq> root_proc s \<and> parent (uprocs s c) = p \<and> pstate s c = ZOMBIE}"

definition counts :: "semaphore \<Rightarrow> tid \<Rightarrow> tid set \<Rightarrow> nat \<Rightarrow> bool" where
  "counts m p W k \<longleftrightarrow> sem_ok m \<and> set (sleeplist m) \<subseteq> {p} \<and> int k = max 0 (sval m) + (if p \<in> W then 1 else 0) \<and>
     (p \<in> W \<longrightarrow> sleeplist m = [])"

definition exits_ok :: "'c psys \<Rightarrow> tid set \<Rightarrow> tid set \<Rightarrow> bool" where
  "exits_ok s T W \<longleftrightarrow> (\<forall>p\<in>T. pstate s p \<noteq> ZOMBIE \<longrightarrow> counts (childexit (uprocs s p)) p W (card (zombies s T p)))"

definition locks_free :: "'c psys \<Rightarrow> tid set \<Rightarrow> bool" where
  "locks_free s T \<longleftrightarrow> (\<forall>p\<in>T. \<not> proclock (uprocs s p)) \<and> \<not> pidlock s \<and> \<not> elock s \<and> \<not> rqlock (sch s)"

text \<open>A process of the tree runs on this processor; the idle processes are not in the tree.\<close>

definition running :: "'c psys \<Rightarrow> tid set \<Rightarrow> bool" where
  "running s T \<longleftrightarrow> sched_inv (sch s) \<and> on_cpu s < NCPU \<and> this_proc s \<in> T \<and> T \<inter> idles (sch s) = {}"

lemma running_state: "running s T \<Longrightarrow> pstate s (this_proc s) = RUNNING"
  unfolding running_def pstate_def this_proc_def using sched_invD(3) by metis

definition procs_ok :: "'c psys \<Rightarrow> tid set \<Rightarrow> tid set \<Rightarrow> bool" where
  "procs_ok s T W \<longleftrightarrow> family_ok s T \<and> names_ok s T \<and> exits_ok s T W \<and> locks_free s T"

text \<open>The memory of the processes and of the recycled numbers.\<close>

definition procs_mem :: "'c psys \<Rightarrow> tid set \<Rightarrow> nat set \<Rightarrow> nat set \<Rightarrow> bool" where
  "procs_mem s T live X \<longleftrightarrow> mem_pages (fmem (pfs s)) live X \<and> T - {root_proc s} \<subseteq> live \<and>
     fst ` set (pid_list s) \<subseteq> live - T \<and> distinct (map fst (pid_list s)) \<and>
     (\<forall>p\<in>T. kstack (uprocs s p) \<noteq> 0 \<and> PAGE_SIZE dvd kstack (uprocs s p) \<and> kstack (uprocs s p) \<notin> X) \<and>
     inj_on (\<lambda>p. kstack (uprocs s p)) T \<and> page_base (root_proc s) \<notin> X \<union> (\<lambda>p. kstack (uprocs s p)) ` T \<and> 0 \<notin> X"

lemma zombies_children: "family_ok s T \<Longrightarrow> p \<in> T \<Longrightarrow> zombies s T p = {c \<in> set (children (uprocs s p)). pstate s c = ZOMBIE}"
  by (auto simp: family_ok_def zombies_def)

section \<open>wait\<close>

lemma lock_unlock:
  assumes "\<not> proclock (uprocs s p)"
  shows "lock_proc p s = Ok (upd_uproc p (\<lambda>q. q\<lparr>proclock := True\<rparr>) s)"
    and "unlock_proc p (upd_uproc p (\<lambda>q. q\<lparr>proclock := True\<rparr>) s) = s"
proof -
  show "lock_proc p s = Ok (upd_uproc p (\<lambda>q. q\<lparr>proclock := True\<rparr>) s)" using assms by (simp add: lock_proc_def)
  have "(uprocs s p)\<lparr>proclock := False\<rparr> = uprocs s p" using assms by (cases "uprocs s p") simp
  then show "unlock_proc p (upd_uproc p (\<lambda>q. q\<lparr>proclock := True\<rparr>) s) = s"
    by (simp add: unlock_proc_def upd_uproc_def release_spinlock_def fun_upd_idem)
qed

lemma reap_skip:
  assumes "\<forall>y\<in>set ys. \<not> proclock (uprocs s y) \<and> pstate s y \<noteq> ZOMBIE"
  shows "reap this (ys @ zs) s = reap this zs s"
  using assms by (induction ys) (simp_all add: lock_unlock pstate_def)

text \<open>The child that is taken, and everything that its removal changes.\<close>

lemma reap_zombie:
  assumes x: "\<not> proclock (uprocs s x)" "pstate s x = ZOMBIE" "x \<noteq> this" "x \<notin> set (rq (sch s))"
    and l: "\<not> pidlock s" "\<not> rqlock (sch s)" "proclock (uprocs s this)"
    and m: "mem_pages (fmem (pfs s)) live X" "free_pages (fmem (pfs s)) \<noteq> []" "x \<in> live"
    and k: "PAGE_SIZE dvd kstack (uprocs s x)" "kstack (uprocs s x) \<notin> X"
  shows "\<exists>node m. reap this (x # zs) s = Ok (pidno (uprocs s x), Some (exitcode (uprocs s x)),
       s\<lparr>uprocs := (uprocs s)(this := (uprocs s this)\<lparr>children := remove1 x (children (uprocs s this)), proclock := False\<rparr>),
         pid_list := (node, pidno (uprocs s x)) # pid_list s, pfs := (pfs s)\<lparr>fmem := m\<rparr>\<rparr>) \<and>
     node \<notin> live \<and> page_base node \<in> X \<and> mem_pages m (insert node live - {x}) (insert (kstack (uprocs s x)) X) \<and> free_pages m \<noteq> []"
proof -
  let ?s1 = "upd_uproc x (\<lambda>q. q\<lparr>proclock := True\<rparr>) s"
  have "sizeof_PidNode \<le> 2040" by (simp add: sizeof_PidNode_def)
  from kalloc_pages [OF m(1) this] m(2) obtain node m1 where a: "kalloc sizeof_PidNode (fmem (pfs s)) = Ok (Some node, m1)"
    "node \<notin> live" "page_base node \<in> X" "mem_pages m1 (insert node live) X"
    by (auto split: option.splits)
  obtain m2 where b: "kfree_page (kstack (uprocs s x)) m1 = Ok m2" "mem_pages m2 (insert node live) (insert (kstack (uprocs s x)) X)"
    "free_pages m2 \<noteq> []" using kfree_page_pages [OF a(4) k] by auto
  obtain m3 where c: "kfree (Some x) m2 = Ok m3" "mem_pages m3 (insert node live - {x}) (insert (kstack (uprocs s x)) X)"
    "set (free_pages m2) \<subseteq> set (free_pages m3)" using kfree_pages [OF b(2), of x] m(3) by auto
  have fx: "(uprocs s x)\<lparr>proclock := False\<rparr> = uprocs s x" using x(1) by (cases "uprocs s x") simp
  let ?th = "(uprocs s this)\<lparr>children := remove1 x (children (uprocs s this)), proclock := False\<rparr>"
  let ?r = "s\<lparr>uprocs := (uprocs s)(this := ?th), pid_list := (node, pidno (uprocs s x)) # pid_list s, pfs := (pfs s)\<lparr>fmem := m3\<rparr>\<rparr>"
  have rec: "recycle_pid (pidno (uprocs s x)) ?s1 = Ok (?s1\<lparr>pfs := (pfs s)\<lparr>fmem := m1\<rparr>, pid_list := (node, pidno (uprocs s x)) # pid_list s\<rparr>)"
    using a(1) l(1) by (simp add: recycle_pid_def with_mem_def lock_pid_def unlock_pid_def release_spinlock_def upd_uproc_def)
  have sch: "release_sched_lock ((sch s)\<lparr>rqlock := True, rq := remove1 x (rq (sch s))\<rparr>) = sch s"
    using l(2) x(4) by (cases "sch s") (simp add: release_sched_lock_def release_spinlock_def remove1_idem)
  have ups: "((uprocs s)(x := (uprocs s x)\<lparr>proclock := True\<rparr>, this := ?th, x := uprocs s x)) = (uprocs s)(this := ?th)"
    using x(3) by (simp add: fun_eq_iff)
  have "reap this (x # zs) s = Ok (pidno (uprocs s x), Some (exitcode (uprocs s x)), ?r)"
    using x(2,3) rec a(1) b(1) c(1) l(2) fx sch ups lock_unlock(1) [OF x(1)] acquire_sched_lock_free [OF l(2)[simplified]]
    by (simp add: pstate_def Let_def unlock_proc_def release_spinlock_def upd_uproc_def release_proc_def do_mem_def)
  moreover have "free_pages m3 \<noteq> []" using b(3) c(3) by auto
  ultimately show ?thesis using a(2,3) c(2) by blast
qed

text \<open>What is left when \<open>this\<close> has taken the zombie \<open>x\<close>.\<close>

lemma up_cong: "\<forall>q. parent (uprocs s' q) = parent (uprocs s q) \<Longrightarrow> up s' n p = up s n p"
  by (simp add: up_def)

lemma procs_ok_reaped:
  assumes ok: "procs_ok s T W" and th: "this \<in> T" "this \<notin> W" and x: "x \<in> zombies s T this"
    and s': "uprocs s' = (uprocs s)(this := (uprocs s this)\<lparr>childexit := m, children := remove1 x (children (uprocs s this))\<rparr>)"
      "pid_list s' = (node, pidno (uprocs s x)) # pid_list s" "sch s' = sch s" "root_proc s' = root_proc s" "last_pid s' = last_pid s"
      "pidlock s' = pidlock s" "elock s' = elock s"
    and m: "sem_ok m" "sleeplist m = []" "sval (childexit (uprocs s this)) = sval m + 1" "0 \<le> sval m"
  shows "procs_ok s' (T - {x}) W"
proof -
  have fam: "family_ok s T" and nam: "names_ok s T" and ex: "exits_ok s T W" and lk: "locks_free s T" using ok by (simp_all add: procs_ok_def)
  have xT: "x \<in> T" "x \<noteq> root_proc s" "parent (uprocs s x) = this" "pstate s x = ZOMBIE" using x by (auto simp: zombies_def)
  have cx: "children (uprocs s x) = []" using fam xT by (auto simp: family_ok_def)
  have xc: "x \<in> set (children (uprocs s this))" using fam xT th(1) by (auto simp: family_ok_def)
  then have xt: "x \<noteq> this" using cx by auto
  have np: "parent (uprocs s c) \<noteq> x" if "c \<in> T" "c \<noteq> root_proc s" for c
  proof
    assume "parent (uprocs s c) = x"
    then have "c \<in> set (children (uprocs s x))" using fam that xT(1) by (auto simp: family_ok_def)
    then show False using cx by simp
  qed
  have same: "parent (uprocs s' q) = parent (uprocs s q)" "pidno (uprocs s' q) = pidno (uprocs s q)" "proclock (uprocs s' q) = proclock (uprocs s q)"
    "pstate s' q = pstate s q" for q by (simp_all add: s' pstate_def)
  have ch: "children (uprocs s' q) = (if q = this then remove1 x (children (uprocs s this)) else children (uprocs s q))"
    "childexit (uprocs s' q) = (if q = this then m else childexit (uprocs s q))" for q by (simp_all add: s')
  have zm: "zombies s' (T - {x}) p = zombies s T p - {x}" for p by (auto simp: zombies_def same s'(4))
  have "family_ok s' (T - {x})"
    unfolding family_ok_def
  proof (intro conjI ballI impI)
    show "finite (T - {x})" "0 \<notin> T - {x}" "root_proc s' \<in> T - {x}" "parent (uprocs s' (root_proc s')) = root_proc s'"
      "pstate s' (root_proc s') \<noteq> ZOMBIE" using fam xT(2) by (auto simp: family_ok_def same s'(4))
    fix p assume p: "p \<in> T - {x}"
    then have d: "distinct (children (uprocs s p))" "set (children (uprocs s p)) = {c \<in> T. c \<noteq> root_proc s \<and> parent (uprocs s c) = p}"
      using fam by (auto simp: family_ok_def)
    show "distinct (children (uprocs s' p))" using d(1) by (auto simp: ch intro: distinct_remove1)
    have "set (children (uprocs s' p)) = set (children (uprocs s p)) - {x}"
    proof (cases "p = this")
      case True
      then show ?thesis using d(1) by (simp add: ch set_remove1_eq)
    next
      case False
      then have "x \<notin> set (children (uprocs s p))" using d(2) xT(3) by simp
      then show ?thesis using False by (simp add: ch)
    qed
    then show "set (children (uprocs s' p)) = {c \<in> T - {x}. c \<noteq> root_proc s' \<and> parent (uprocs s' c) = p}"
      unfolding d(2) same s'(4) by blast
    have "parent (uprocs s p) \<in> T" "\<exists>n. up s n p = root_proc s" using fam p by (auto simp: family_ok_def)
    moreover have "parent (uprocs s p) \<noteq> x" using np [of p] fam xT(2) p by (cases "p = root_proc s") (auto simp: family_ok_def)
    ultimately show "parent (uprocs s' p) \<in> T - {x}" "\<exists>n. up s' n p = root_proc s'"
      using up_cong [of s' s] by (auto simp: same s'(4))
    assume "pstate s' p = ZOMBIE"
    then have "children (uprocs s p) = []" using fam p by (auto simp: family_ok_def same)
    then show "children (uprocs s' p) = []" using xc by (auto simp: ch)
  qed
  moreover have "names_ok s' (T - {x})"
  proof -
    have "pidno (uprocs s x) \<notin> (\<lambda>p. pidno (uprocs s p)) ` (T - {x})" using nam xT(1) by (auto simp: names_ok_def inj_on_def)
    moreover have "inj_on (\<lambda>p. pidno (uprocs s p)) (T - {x})" using nam inj_on_subset by (fastforce simp: names_ok_def)
    moreover have "pidno (uprocs s x) \<in> (\<lambda>p. pidno (uprocs s p)) ` T" using xT(1) by simp
    ultimately show ?thesis using nam unfolding names_ok_def same s'(2,5) by auto
  qed
  moreover have "exits_ok s' (T - {x}) W"
    unfolding exits_ok_def
  proof (intro ballI)
    fix p assume p: "p \<in> T - {x}"
    show "pstate s' p \<noteq> ZOMBIE \<longrightarrow> counts (childexit (uprocs s' p)) p W (card (zombies s' (T - {x}) p))"
    proof
      assume nz: "pstate s' p \<noteq> ZOMBIE"
      then have e: "counts (childexit (uprocs s p)) p W (card (zombies s T p))" using ex p by (auto simp: exits_ok_def same)
      have z: "zombies s' (T - {x}) p = (if p = this then zombies s T p - {x} else zombies s T p)"
        unfolding zm using xT(3) by (auto simp: zombies_def)
      have "finite (zombies s T p)" using fam by (simp add: zombies_def family_ok_def)
      then have "int (card (zombies s T this - {x})) = int (card (zombies s T this)) - 1" if "p = this"
        using x that by (metis card_Suc_Diff1 add_diff_cancel_left' of_nat_Suc)
      then show "counts (childexit (uprocs s' p)) p W (card (zombies s' (T - {x}) p))"
        using e m th(2) by (auto simp: counts_def ch z)
    qed
  qed
  moreover have "locks_free s' (T - {x})" using lk by (simp add: locks_free_def same s')
  ultimately show ?thesis by (simp add: procs_ok_def)
qed

lemma procs_mem_reaped:
  assumes mem: "procs_mem s T live X" and x: "x \<in> T" "x \<noteq> root_proc s"
    and n: "node \<notin> live" "page_base node \<in> X" "mem_pages m (insert node live - {x}) (insert (kstack (uprocs s x)) X)"
    and s': "\<And>q. kstack (uprocs s' q) = kstack (uprocs s q)" "pid_list s' = (node, i) # pid_list s" "root_proc s' = root_proc s"
      "fmem (pfs s') = m"
  shows "procs_mem s' (T - {x}) (insert node live - {x}) (insert (kstack (uprocs s x)) X)"
proof -
  have xl: "x \<in> live" and xn: "x \<noteq> node" and nT: "node \<notin> T" using mem x n(1,2) by (auto simp: procs_mem_def)
  have "fst ` set (pid_list s') \<subseteq> (insert node live - {x}) - (T - {x})"
    using mem x n(1) xn nT unfolding procs_mem_def s' by (auto dest: subsetD)
  moreover have "distinct (map fst (pid_list s'))" using mem n(1) by (auto simp: procs_mem_def s')
  moreover have "kstack (uprocs s p) \<noteq> kstack (uprocs s x)" if "p \<in> T - {x}" for p
    using mem x(1) that by (auto simp: procs_mem_def inj_on_def)
  moreover have "inj_on (\<lambda>p. kstack (uprocs s p)) (T - {x})" using mem inj_on_subset by (fastforce simp: procs_mem_def)
  ultimately show ?thesis using mem n(3) x(1) unfolding procs_mem_def s' by auto
qed

lemma wait_reaps:
  assumes ok: "procs_ok s T W" and mem: "procs_mem s T live X" and free: "free_pages (fmem (pfs s)) \<noteq> []" and run: "running s T"
    and W: "this_proc s \<notin> W" and z: "zombies s T (this_proc s) \<noteq> {}"
  shows "\<exists>x s' live' X'. x \<in> zombies s T (this_proc s) \<and>
    wait_child s = Ok (Reaped (pidno (uprocs s x)) (Some (exitcode (uprocs s x))), s') \<and>
    procs_ok s' (T - {x}) W \<and> procs_mem s' (T - {x}) live' X' \<and> snd (hd (pid_list s')) = pidno (uprocs s x)"
proof -
  let ?t = "this_proc s"
  have th: "this_proc s \<in> T" "this_proc s \<notin> W" and sched: "sched_inv (sch s)" using run W by (simp_all add: running_def)
  have fam: "family_ok s T" and ex: "exits_ok s T W" and lk: "locks_free s T" using ok by (simp_all add: procs_ok_def)
  have zc: "zombies s T ?t = {c \<in> set (children (uprocs s ?t)). pstate s c = ZOMBIE}" by (rule zombies_children [OF fam th(1)])
  with z have "\<exists>c\<in>set (children (uprocs s ?t)). pstate s c = ZOMBIE" by auto
  then obtain ys x zs where c: "children (uprocs s ?t) = ys @ x # zs" "pstate s x = ZOMBIE" "\<forall>y\<in>set ys. pstate s y \<noteq> ZOMBIE"
    using split_list_first_prop [of "children (uprocs s ?t)" "\<lambda>c. pstate s c = ZOMBIE"] by blast
  have x: "x \<in> zombies s T ?t" using c(1,2) by (simp add: zc)
  have chT: "set (children (uprocs s ?t)) \<subseteq> T" "distinct (children (uprocs s ?t))" using fam th(1) by (auto simp: family_ok_def)
  have xT: "x \<in> T" "x \<noteq> root_proc s" using x by (auto simp: zombies_def)
  have tch: "?t \<notin> set (children (uprocs s ?t))"
  proof
    assume "?t \<in> set (children (uprocs s ?t))"
    then have t: "parent (uprocs s ?t) = ?t" "?t \<noteq> root_proc s" using fam th(1) by (auto simp: family_ok_def)
    then have "up s n ?t = ?t" for n by (induction n) (simp_all add: up_def)
    then show False using fam th(1) t(2) by (auto simp: family_ok_def)
  qed
  have sem: "sem_ok (childexit (uprocs s ?t))" "int (card (zombies s T ?t)) = max 0 (sval (childexit (uprocs s ?t)))"
    using ex th running_state [OF run] by (auto simp: exits_ok_def counts_def)
  have "0 < card (zombies s T ?t)" using z fam by (simp add: card_gt_0_iff zombies_def family_ok_def)
  then have pos: "0 < sval (childexit (uprocs s ?t))" using sem(2) by simp
  then have nil: "sleeplist (childexit (uprocs s ?t)) = []" using sem(1) sem_ok_nonneg by simp
  let ?m = "(childexit (uprocs s ?t))\<lparr>sval := sval (childexit (uprocs s ?t)) - 1\<rparr>"
  have w: "wait_begin ?t (childexit (uprocs s ?t)) = (True, ?m)" using pos by (simp add: wait_begin_def)
  have m: "sem_ok ?m" "sleeplist ?m = []" "sval (childexit (uprocs s ?t)) = sval ?m + 1" "0 \<le> sval ?m"
    using pos nil by (auto simp: sem_ok_def)
  have free_lock: "\<not> proclock (uprocs s q)" if "q \<in> T" for q using lk that by (simp add: locks_free_def)
  let ?s1 = "upd_uproc ?t (\<lambda>u. u\<lparr>childexit := ?m\<rparr>) s"
  let ?s2 = "upd_uproc ?t (\<lambda>q. q\<lparr>proclock := True\<rparr>) ?s1"
  have xrq: "x \<notin> set (rq (sch s))" using sched_invD(2) [OF sched, of x] c(2) by (auto simp: pstate_def)
  have ysT: "set ys \<subseteq> T" "?t \<notin> set ys" "x \<noteq> ?t" using chT tch c(1) by auto
  have rest: "x \<in> live" "PAGE_SIZE dvd kstack (uprocs s x)" "kstack (uprocs s x) \<notin> X" "mem_pages (fmem (pfs s)) live X"
    using mem xT by (auto simp: procs_mem_def)
  have "reap ?t (children (uprocs ?s2 ?t)) ?s2 = reap ?t (x # zs) ?s2"
  proof -
    have "children (uprocs ?s2 ?t) = ys @ x # zs" using c(1) by simp
    moreover have "\<forall>y\<in>set ys. \<not> proclock (uprocs ?s2 y) \<and> pstate ?s2 y \<noteq> ZOMBIE"
      using c(3) ysT(1,2) free_lock by (auto simp: pstate_def)
    ultimately show ?thesis by (simp only: reap_skip)
  qed
  moreover have "\<exists>node m'. reap ?t (x # zs) ?s2 = Ok (pidno (uprocs ?s2 x), Some (exitcode (uprocs ?s2 x)),
       ?s2\<lparr>uprocs := (uprocs ?s2)(?t := (uprocs ?s2 ?t)\<lparr>children := remove1 x (children (uprocs ?s2 ?t)), proclock := False\<rparr>),
         pid_list := (node, pidno (uprocs ?s2 x)) # pid_list ?s2, pfs := (pfs ?s2)\<lparr>fmem := m'\<rparr>\<rparr>) \<and>
     node \<notin> live \<and> page_base node \<in> X \<and> mem_pages m' (insert node live - {x}) (insert (kstack (uprocs ?s2 x)) X) \<and> free_pages m' \<noteq> []"
    by (rule reap_zombie) (use c(2) ysT free_lock [OF xT(1)] xrq lk rest free in \<open>auto simp: pstate_def locks_free_def\<close>)
  ultimately obtain node m' where r: "reap ?t (children (uprocs ?s2 ?t)) ?s2 = Ok (pidno (uprocs s x), Some (exitcode (uprocs s x)),
       ?s2\<lparr>uprocs := (uprocs ?s2)(?t := (uprocs ?s2 ?t)\<lparr>children := remove1 x (children (uprocs ?s2 ?t)), proclock := False\<rparr>),
         pid_list := (node, pidno (uprocs s x)) # pid_list s, pfs := (pfs s)\<lparr>fmem := m'\<rparr>\<rparr>)"
     "node \<notin> live" "page_base node \<in> X" "mem_pages m' (insert node live - {x}) (insert (kstack (uprocs s x)) X)"
    using ysT(3) by auto
  let ?s' = "?s2\<lparr>uprocs := (uprocs ?s2)(?t := (uprocs ?s2 ?t)\<lparr>children := remove1 x (children (uprocs ?s2 ?t)), proclock := False\<rparr>),
         pid_list := (node, pidno (uprocs s x)) # pid_list s, pfs := (pfs s)\<lparr>fmem := m'\<rparr>\<rparr>"
  have "wait_child s = Ok (Reaped (pidno (uprocs s x)) (Some (exitcode (uprocs s x))), ?s')"
    using r(1) w c(1) lock_unlock [OF free_lock [OF th(1)]] lock_unlock(1) [of ?s1 ?t] free_lock [OF th(1)]
    by (simp add: wait_child_def Let_def reap_children_def)
  moreover have "procs_ok ?s' (T - {x}) W"
  proof (rule procs_ok_reaped [OF ok th x _ _ _ _ _ _ _ m])
    show "uprocs ?s' = (uprocs s)(?t := (uprocs s ?t)\<lparr>childexit := ?m, children := remove1 x (children (uprocs s ?t))\<rparr>)"
      using free_lock [OF th(1)] by (cases "uprocs s ?t") simp
  qed simp_all
  moreover have "procs_mem ?s' (T - {x}) (insert node live - {x}) (insert (kstack (uprocs s x)) X)"
    by (rule procs_mem_reaped [OF mem xT r(2-4)]) simp_all
  ultimately show ?thesis using x by fastforce
qed

section \<open>The scheduler under the process layer\<close>

lemma sched_states:
  assumes inv: "sched_inv s" and ok: "sched_call_ok c st s" and sw: "\<not> sched_returns_early c st s"
  shows "\<exists>t nx. sched c now st s = Ok t \<and> sched_inv t \<and> \<not> rqlock t \<and> thisproc t = (thisproc s)(c := nx) \<and> idle t = idle s \<and>
    (\<forall>p. state (procs t p) = (if p = nx then RUNNING else if p = thisproc s c then st else state (procs s p))) \<and>
    (if nx = thisproc s c then st else state (procs s nx)) = RUNNABLE \<and> (\<forall>p. killed (procs t p) = killed (procs s p))"
proof -
  have st: "st \<noteq> RUNNING" using ok by (simp add: sched_call_ok_def)
  obtain nx t where 1: "sched c now st s = Ok (release_sched_lock ((requeue c st s)\<lparr>
       sched_timer := (sched_timer s)(c := t), thisproc := (thisproc s)(c := nx),
       procs := (aged (rq (requeue c st s)) (procs (requeue c st s)))
         (nx := (aged (rq (requeue c st s)) (procs (requeue c st s)) nx)\<lparr>state := RUNNING\<rparr>)\<rparr>))" (is "_ = Ok ?t")
    "queued t" "\<not> triggered t" "state (procs (requeue c st s) nx) = RUNNABLE" "nx \<in> set (rq (requeue c st s)) \<or> nx = idle s c"
    by (rule sched_switch [OF inv ok sw, of now]) blast
  note rs = requeue_simps [OF st, of c s]
  have "sched_inv ?t" by (rule sched_inv_switch [OF inv ok 1(2-5)])
  moreover have "thisproc ?t = (thisproc s)(c := nx) \<and> idle ?t = idle s \<and> \<not> rqlock ?t"
    by (simp add: release_sched_lock_def release_spinlock_def rs)
  moreover have "\<forall>p. state (procs ?t p) = (if p = nx then RUNNING else if p = thisproc s c then st else state (procs s p))"
    "\<forall>p. killed (procs ?t p) = killed (procs s p)"
    by (simp_all add: release_sched_lock_def rs)
  moreover have "(if nx = thisproc s c then st else state (procs s nx)) = RUNNABLE" using 1(4) by (simp add: rs split: if_splits)
  ultimately show ?thesis using 1(1) by blast
qed

lemma activate_states:
  assumes "activate_proc p al s = Ok (b, s')"
  shows "idle s' = idle s \<and> thisproc s' = thisproc s \<and> (\<forall>q. state (procs s' q) = (if q = p \<and> b then RUNNABLE else state (procs s q))) \<and>
    (\<forall>q. killed (procs s' q) = killed (procs s q)) \<and> (b \<longrightarrow> state (procs s p) \<noteq> ZOMBIE \<and> state (procs s p) \<noteq> RUNNING \<and> state (procs s p) \<noteq> RUNNABLE)"
  using assms by (auto simp: activate_proc_def acquire_sched_lock_def release_sched_lock_def Let_def split: if_splits)

text \<open>Two states with the same processes and zombies, up to the semaphores and the locks.\<close>

definition same_procs :: "'c psys \<Rightarrow> 'c psys \<Rightarrow> bool" where
  "same_procs s s' \<longleftrightarrow> root_proc s' = root_proc s \<and> pid_list s' = pid_list s \<and> last_pid s' = last_pid s \<and> pidlock s' = pidlock s \<and>
     (\<forall>q. parent (uprocs s' q) = parent (uprocs s q) \<and> children (uprocs s' q) = children (uprocs s q) \<and>
        pidno (uprocs s' q) = pidno (uprocs s q) \<and> exitcode (uprocs s' q) = exitcode (uprocs s q) \<and>
        (pstate s' q = ZOMBIE \<longleftrightarrow> pstate s q = ZOMBIE))"

lemma same_family: "same_procs s s' \<Longrightarrow> family_ok s T \<Longrightarrow> family_ok s' T"
  unfolding family_ok_def same_procs_def up_def by simp

lemma same_names: "same_procs s s' \<Longrightarrow> names_ok s' T = names_ok s T"
  unfolding names_ok_def same_procs_def by simp

lemma same_zombies: "same_procs s s' \<Longrightarrow> zombies s' T = zombies s T"
  unfolding zombies_def same_procs_def by auto

lemma post_childexit_spec:
  assumes c: "counts (childexit (uprocs s p)) p W k" and run: "running s T" and l: "\<not> rqlock (sch s)" and p: "p \<in> T" "p \<noteq> 0"
  shows "\<exists>s' m W'. post_childexit p s = Ok s' \<and> uprocs s' = (uprocs s)(p := (uprocs s p)\<lparr>childexit := m\<rparr>) \<and>
    counts m p W' (k + 1) \<and> W' - {p} = W - {p} \<and> same_procs s s' \<and> running s' T \<and> \<not> rqlock (sch s') \<and> elock s' = elock s \<and>
    on_cpu s' = on_cpu s \<and> this_proc s' = this_proc s"
proof (cases "sval (childexit (uprocs s p)) < 0")
  case False
  let ?m = "(childexit (uprocs s p))\<lparr>sval := sval (childexit (uprocs s p)) + 1\<rparr>"
  have "post_childexit p s = Ok (upd_uproc p (\<lambda>q. q\<lparr>childexit := ?m\<rparr>) s)"
    using False by (simp add: post_childexit_def post_sem_locked_idle)
  moreover have "counts ?m p W (k + 1)" using c False by (auto simp: counts_def sem_ok_def)
  ultimately show ?thesis using run l by (auto simp: same_procs_def pstate_def running_def)
next
  case True
  have ok: "sem_ok (childexit (uprocs s p))" "set (sleeplist (childexit (uprocs s p))) \<subseteq> {p}" using c by (simp_all add: counts_def)
  obtain ts t where ts: "sleeplist (childexit (uprocs s p)) = ts @ [t]"
    "post_sem_locked (childexit (uprocs s p)) = Ok (Some t, (childexit (uprocs s p))\<lparr>sval := sval (childexit (uprocs s p)) + 1, sleeplist := ts\<rparr>)"
    by (rule post_sem_locked_sleeping [OF ok(1) True])
  have t: "t = p" "ts = []" using ts(1) ok by (cases ts; auto simp: sem_ok_def)+
  then have v: "sval (childexit (uprocs s p)) = - 1" using ts(1) ok(1) True by (auto simp: sem_ok_def)
  have k: "p \<notin> W" "k = 0" using c ts(1) t v by (auto simp: counts_def split: if_splits)
  let ?m = "(childexit (uprocs s p))\<lparr>sval := 0, sleeplist := []\<rparr>"
  obtain b t' where a: "activate_proc p False (sch s) = Ok (b, t')" "sched_inv t'" "\<not> rqlock t'"
    using activate_preserves [of "sch s" p False] run l p by (auto simp: running_def RQ_SHADOW_def)
  note st = activate_states [OF a(1)]
  let ?s' = "(upd_uproc p (\<lambda>q. q\<lparr>childexit := ?m\<rparr>) s)\<lparr>sch := t'\<rparr>"
  have "post_childexit p s = Ok ?s'" using ts(2) t v a(1) by (simp add: post_childexit_def with_sched_def)
  moreover have "counts ?m p (insert p W) (k + 1)" using k by (simp add: counts_def sem_ok_def)
  moreover have "same_procs s ?s'" using st by (auto simp: same_procs_def pstate_def this_proc_def)
  moreover have "running ?s' T" using run a(2) st by (auto simp: running_def this_proc_def idles_def)
  moreover have "insert p W - {p} = W - {p}" by blast
  moreover have "on_cpu ?s' = on_cpu s \<and> this_proc ?s' = this_proc s" using st by (simp add: this_proc_def)
  ultimately show ?thesis using a(3) by (intro exI [of _ ?s'] exI [of _ ?m] exI [of _ "insert p W"]) simp
qed

lemma same_exits: "same_procs s s' \<Longrightarrow> \<forall>q. childexit (uprocs s' q) = childexit (uprocs s q) \<Longrightarrow> exits_ok s' T W = exits_ok s T W"
  unfolding exits_ok_def by (simp add: same_zombies) (simp add: same_procs_def)

lemma same_procs_refl [simp]: "same_procs s s"
  by (simp add: same_procs_def)

lemma same_procs_trans: "same_procs s t \<Longrightarrow> same_procs t u \<Longrightarrow> same_procs s u"
  by (simp add: same_procs_def)

lemma switch_same:
  assumes "\<forall>p. state (procs t p) = (if p = nx then RUNNING else if p = this_proc s then st else pstate s p)"
    and "(if nx = this_proc s then st else pstate s nx) = RUNNABLE" and "st \<noteq> ZOMBIE" and "pstate s (this_proc s) = RUNNING"
  shows "same_procs s (s\<lparr>sch := t\<rparr>)"
  using assms by (auto simp: same_procs_def pstate_def)

lemma sched_here:
  assumes run: "running s T" and st: "st = SLEEPING \<or> st = ZOMBIE" and k: "killed (procs (sch s) (this_proc s)) \<longrightarrow> st = ZOMBIE"
  shows "\<exists>t nx. sched (on_cpu s) (now_ms s) st ((sch s)\<lparr>rqlock := True\<rparr>) = Ok t \<and> sched_inv t \<and> \<not> rqlock t \<and>
    thisproc t (on_cpu s) = nx \<and> idle t = idle (sch s) \<and> nx \<noteq> this_proc s \<and> pstate s nx = RUNNABLE \<and>
    (\<forall>p. state (procs t p) = (if p = nx then RUNNING else if p = this_proc s then st else pstate s p))"
proof -
  let ?s = "(sch s)\<lparr>rqlock := True\<rparr>"
  have th: "on_cpu s < NCPU" "sched_inv ?s" "this_proc s \<notin> idles (sch s)" using run by (auto simp: running_def sched_inv_lock)
  then have call: "sched_call_ok (on_cpu s) st ?s"
    using st by (auto simp: sched_call_ok_def this_proc_def idles_def)
  have early: "\<not> sched_returns_early (on_cpu s) st ?s" using k by (simp add: sched_returns_early_def this_proc_def)
  obtain t nx where t: "sched (on_cpu s) (now_ms s) st ?s = Ok t" "sched_inv t" "\<not> rqlock t" "thisproc t = (thisproc ?s)(on_cpu s := nx)"
    "idle t = idle ?s" "\<forall>p. state (procs t p) = (if p = nx then RUNNING else if p = thisproc ?s (on_cpu s) then st else state (procs ?s p))"
    "(if nx = thisproc ?s (on_cpu s) then st else state (procs ?s nx)) = RUNNABLE"
    using sched_states [OF th(2) call early] by blast
  have e: "thisproc ?s (on_cpu s) = this_proc s" "state (procs ?s p) = pstate s p" for p by (simp_all add: this_proc_def pstate_def)
  have "nx \<noteq> this_proc s" "pstate s nx = RUNNABLE" using t(7) st unfolding e by (auto split: if_splits)
  then show ?thesis using t(1-6) unfolding e by simp
qed

lemma wait_sleeps:
  assumes ok: "procs_ok s T W" and run: "running s T" and W: "this_proc s \<notin> W" and z: "zombies s T (this_proc s) = {}"
    and c: "children (uprocs s (this_proc s)) \<noteq> []" and sl: "sleeplist (childexit (uprocs s (this_proc s))) = []"
    and k: "\<not> killed (procs (sch s) (this_proc s))"
  shows "\<exists>s'. wait_child s = Ok (Sleeps, s') \<and> procs_ok s' T W \<and> pstate s' (this_proc s) = SLEEPING \<and>
    sleeplist (childexit (uprocs s' (this_proc s))) = [this_proc s] \<and> sched_inv (sch s')"
proof -
  let ?t = "this_proc s"
  have fam: "family_ok s T" and nam: "names_ok s T" and ex: "exits_ok s T W" and lk: "locks_free s T" using ok by (simp_all add: procs_ok_def)
  have th: "?t \<in> T" "on_cpu s < NCPU" "sched_inv (sch s)" "?t \<notin> idles (sch s)" using run by (auto simp: running_def)
  have cn: "counts (childexit (uprocs s ?t)) ?t W 0" using ex th(1) running_state [OF run] z by (auto simp: exits_ok_def)
  then have v: "sval (childexit (uprocs s ?t)) = 0" using sl W by (auto simp: counts_def sem_ok_def max_def split: if_splits)
  let ?m = "\<lparr>sval = - 1, sleeplist = [?t]\<rparr> :: semaphore"
  have w: "wait_begin ?t (childexit (uprocs s ?t)) = (False, ?m)" using v sl by (simp add: wait_begin_def)
  let ?s1 = "upd_uproc ?t (\<lambda>u. u\<lparr>childexit := ?m\<rparr>) s"
  have free: "\<not> proclock (uprocs s ?t)" "\<not> rqlock (sch s)" using lk th(1) by (auto simp: locks_free_def)
  obtain t nx where t: "sched (on_cpu s) (now_ms s) SLEEPING ((sch s)\<lparr>rqlock := True\<rparr>) = Ok t" "sched_inv t" "\<not> rqlock t"
    "\<forall>p. state (procs t p) = (if p = nx then RUNNING else if p = ?t then SLEEPING else pstate s p)"
    "nx \<noteq> ?t" "pstate s nx = RUNNABLE"
    using sched_here [OF run, of SLEEPING] k by auto
  let ?s' = "?s1\<lparr>sch := t\<rparr>"
  have run1: "wait_child s = Ok (Sleeps, ?s')"
    using w c k t(1) lock_unlock [OF free(1)] acquire_sched_lock_free [OF free(2)] by (simp add: wait_child_def Let_def)
  have s1: "same_procs s ?s1" by (simp add: same_procs_def pstate_def)
  moreover have "same_procs ?s1 ?s'"
    by (rule switch_same) (use t(4-6) running_state [OF run] in \<open>auto simp: pstate_def\<close>)
  ultimately have same: "same_procs s ?s'" by (rule same_procs_trans)
  have "exits_ok ?s1 T W"
    using ex cn th(1) W z by (auto simp: exits_ok_def same_zombies [OF s1] counts_def sem_ok_def pstate_def)
  then have "exits_ok ?s' T W" using same_exits [OF \<open>same_procs ?s1 ?s'\<close>] by simp
  moreover have "locks_free ?s' T" using lk t(3) by (simp add: locks_free_def)
  ultimately have "procs_ok ?s' T W" using same_family [OF same fam] same_names [OF same] nam by (simp add: procs_ok_def)
  moreover have "pstate ?s' ?t = SLEEPING" using t(4,5) by (simp add: pstate_def)
  ultimately show ?thesis using run1 t(2) by simp
qed

lemma wait_none:
  assumes "procs_ok s T W" and "this_proc s \<in> T" and "children (uprocs s (this_proc s)) = []"
  shows "wait_child s = Ok (Reaped (- 1) None, s)"
  using assms lock_unlock [of s "this_proc s"] by (simp add: wait_child_def Let_def procs_ok_def locks_free_def)

end
