(* ===== verification/ExitSpec.thy ===== *)
theory ExitSpec
  imports ProcSpec
begin

text \<open>
  \<^verbatim>\<open>reparent\<close> and \<^verbatim>\<open>exit\<close>: the children of the process go to the root, which is told about the zombies
  among them; the process becomes a zombie and its parent is told.
\<close>

section \<open>reparent\<close>

text \<open>The state inside \<^verbatim>\<open>exit\<close>: the locks of the processes in \<open>L\<close> are taken, the semaphore of \<open>this\<close> no longer counts.\<close>

definition locks_at :: "'c psys \<Rightarrow> tid set \<Rightarrow> tid set \<Rightarrow> bool" where
  "locks_at s T L \<longleftrightarrow> (\<forall>p\<in>T. proclock (uprocs s p) \<longleftrightarrow> p \<in> L) \<and> \<not> pidlock s \<and> \<not> rqlock (sch s)"

definition exiting :: "'c psys \<Rightarrow> tid set \<Rightarrow> tid set \<Rightarrow> tid \<Rightarrow> bool" where
  "exiting s T W this \<longleftrightarrow> family_ok s T \<and> names_ok s T \<and> locks_at s T {this} \<and> running s T \<and> this_proc s = this \<and> this \<noteq> root_proc s \<and>
     elock s \<and> (\<forall>p\<in>T - {this}. pstate s p \<noteq> ZOMBIE \<longrightarrow> counts (childexit (uprocs s p)) p W (card (zombies s T p)))"

lemma up_Suc: "up s (Suc n) p = up s n (parent (uprocs s p))"
  by (simp only: up_def funpow_Suc_right o_apply)

lemma up_redirect:
  assumes "\<And>q. q \<noteq> x \<Longrightarrow> parent (uprocs s' q) = parent (uprocs s q)" and "parent (uprocs s' x) = r"
  shows "up s n p = r \<Longrightarrow> \<exists>k. up s' k p = r"
proof (induction n arbitrary: p)
  case 0
  then have "up s' 0 p = r" by (simp add: up_def)
  then show ?case ..
next
  case (Suc n)
  show ?case
  proof (cases "p = x")
    case True
    then have "up s' 1 p = r" using assms(2) by (simp add: up_def)
    then show ?thesis ..
  next
    case False
    have "up s n (parent (uprocs s p)) = r" using Suc.prems by (simp add: up_Suc)
    then obtain k where "up s' k (parent (uprocs s p)) = r" using Suc.IH by blast
    then have "up s' (Suc k) p = r" using assms(1) [OF False] by (simp add: up_Suc)
    then show ?thesis ..
  qed
qed

text \<open>The move of one child.\<close>

definition moved :: "tid \<Rightarrow> tid \<Rightarrow> 'c psys \<Rightarrow> 'c psys" where
  "moved this x s = upd_uproc (root_proc s) (\<lambda>u. u\<lparr>children := x # children u\<rparr>)
     (upd_uproc this (\<lambda>u. u\<lparr>children := remove1 x (children u)\<rparr>) (upd_uproc x (\<lambda>u. u\<lparr>parent := root_proc s\<rparr>) s))"

lemma moved_family:
  assumes fam: "family_ok s T" and th: "this \<in> T" "this \<noteq> root_proc s" "pstate s this \<noteq> ZOMBIE" and x: "x \<in> set (children (uprocs s this))"
  shows "family_ok (moved this x s) T"
    and "zombies (moved this x s) T p = (if p = root_proc s \<and> pstate s x = ZOMBIE then insert x (zombies s T p) else if p = this then zombies s T p - {x} else zombies s T p)"
proof -
  let ?s = "moved this x s" and ?r = "root_proc s"
  have xT: "x \<in> T" "x \<noteq> ?r" "parent (uprocs s x) = this" using fam th(1) x by (auto simp: family_ok_def)
  have par: "parent (uprocs ?s q) = (if q = x then ?r else parent (uprocs s q))" for q by (simp add: moved_def)
  have nt: "x \<noteq> this"
  proof
    assume a: "x = this"
    then have "up s n this = this" for n using xT(3) by (induction n) (simp_all add: up_def)
    then show False using fam th(1,2) by (auto simp: family_ok_def)
  qed
  have ch: "children (uprocs ?s q) = (if q = ?r then x # children (uprocs s ?r) else if q = this then remove1 x (children (uprocs s this)) else children (uprocs s q))" for q
    using th(2) xT(2) nt by (simp add: moved_def)
  have st: "pstate ?s q = pstate s q" "root_proc ?s = ?r" for q by (simp_all add: moved_def pstate_def)
  have d: "distinct (children (uprocs s p))" "set (children (uprocs s p)) = {c \<in> T. c \<noteq> ?r \<and> parent (uprocs s c) = p}" if "p \<in> T" for p
    using fam that by (auto simp: family_ok_def)
  show "family_ok ?s T"
    unfolding family_ok_def
  proof (intro conjI ballI impI)
    show "finite T" "0 \<notin> T" "root_proc ?s \<in> T" "parent (uprocs ?s (root_proc ?s)) = root_proc ?s" "pstate ?s (root_proc ?s) \<noteq> ZOMBIE"
      using fam xT(2) by (auto simp: family_ok_def st par)
    fix p assume p: "p \<in> T"
    have "x \<notin> set (children (uprocs s ?r))" using d(2) [of ?r] xT(3) th(2) fam by (auto simp: family_ok_def)
    then show "distinct (children (uprocs ?s p))" using d(1) [OF p] d(1) [of ?r] d(1) [OF th(1)] fam by (auto simp: ch family_ok_def intro: distinct_remove1)
    show "set (children (uprocs ?s p)) = {c \<in> T. c \<noteq> root_proc ?s \<and> parent (uprocs ?s c) = p}"
    proof -
      have "set (children (uprocs ?s p)) = (if p = ?r then insert x (set (children (uprocs s p))) else if p = this then set (children (uprocs s p)) - {x} else set (children (uprocs s p)))"
        using d(1) [OF th(1)] by (simp add: ch set_remove1_eq)
      also have "\<dots> = {c \<in> T. c \<noteq> ?r \<and> (if c = x then ?r else parent (uprocs s c)) = p}"
        using d(2) [OF p] xT th(2) by (cases "p = ?r"; cases "p = this") auto
      finally show ?thesis by (simp only: st par)
    qed
    show "parent (uprocs ?s p) \<in> T" using fam p by (simp add: family_ok_def par)
    show "\<exists>n. up ?s n p = root_proc ?s" using fam p up_redirect [of x ?s s ?r] by (auto simp: family_ok_def par st)
    assume "pstate ?s p = ZOMBIE"
    then have "children (uprocs s p) = []" "p \<noteq> ?r" using fam p by (auto simp: family_ok_def st)
    then show "children (uprocs ?s p) = []" using th(3) by (auto simp: ch)
  qed
  show "zombies ?s T p = (if p = ?r \<and> pstate s x = ZOMBIE then insert x (zombies s T p) else if p = this then zombies s T p - {x} else zombies s T p)"
    using xT th(2) unfolding zombies_def st par by auto
qed

text \<open>What the exit of \<open>this\<close> does not change.\<close>

definition kept :: "'c psys \<Rightarrow> 'c psys \<Rightarrow> tid \<Rightarrow> bool" where
  "kept s s' this \<longleftrightarrow> root_proc s' = root_proc s \<and> on_cpu s' = on_cpu s \<and> this_proc s' = this_proc s \<and> pid_list s' = pid_list s \<and>
     (\<forall>q. pidno (uprocs s' q) = pidno (uprocs s q) \<and> exitcode (uprocs s' q) = exitcode (uprocs s q) \<and>
        (pstate s' q = ZOMBIE \<longleftrightarrow> pstate s q = ZOMBIE)) \<and>
     parent (uprocs s' this) = parent (uprocs s this) \<and> pvma (uprocs s' this) = pvma (uprocs s this)"

lemma released_refl [simp]: "kept s s this"
  by (simp add: kept_def)

lemma released_trans: "kept s t this \<Longrightarrow> kept t u this \<Longrightarrow> kept s u this"
  by (simp add: kept_def)

lemma reparent_child_spec:
  assumes ex: "exiting s T W this" and x: "children (uprocs s this) = x # xs"
  shows "\<exists>s' W'. reparent_child this x s = Ok s' \<and> exiting s' T W' this \<and> children (uprocs s' this) = xs \<and> kept s s' this \<and>
    (\<forall>q. parent (uprocs s' q) = (if q = x then root_proc s else parent (uprocs s q)))"
proof -
  let ?r = "root_proc s"
  have fam: "family_ok s T" and nam: "names_ok s T" and lk: "locks_at s T {this}" and run: "running s T"
    and th: "this_proc s = this" "this \<noteq> ?r" "elock s" using ex by (simp_all add: exiting_def)
  have tT: "this \<in> T" "pstate s this \<noteq> ZOMBIE" using run running_state [OF run] th(1) by (auto simp: running_def)
  have xc: "x \<in> set (children (uprocs s this))" using x by simp
  have xT: "x \<in> T" "x \<noteq> ?r" "parent (uprocs s x) = this" using fam tT(1) xc by (auto simp: family_ok_def)
  have nt: "x \<noteq> this"
  proof
    assume a: "x = this"
    then have "up s n this = this" for n using xT(3) by (induction n) (simp_all add: up_def)
    then show False using fam tT(1) th(2) by (auto simp: family_ok_def)
  qed
  have rT: "?r \<in> T" "pstate s ?r \<noteq> ZOMBIE" "?r \<noteq> 0" using fam unfolding family_ok_def by metis+
  have free: "\<not> proclock (uprocs s x)" "\<not> proclock (uprocs s ?r)" "\<not> rqlock (sch s)"
    using lk xT(1) rT(1) nt th(2) by (auto simp: locks_at_def)
  define m where "m = moved this x s"
  note mf = moved_family [OF fam tT(1) th(2) tT(2) xc, folded m_def]
  have mk: "root_proc m = ?r" "on_cpu m = on_cpu s" "this_proc m = this_proc s" "sch m = sch s" "pid_list m = pid_list s" "last_pid m = last_pid s"
    "pidlock m = pidlock s" "elock m = elock s" "pidno (uprocs m q) = pidno (uprocs s q)" "exitcode (uprocs m q) = exitcode (uprocs s q)"
    "childexit (uprocs m q) = childexit (uprocs s q)" "proclock (uprocs m q) = proclock (uprocs s q)"
    "pvma (uprocs m q) = pvma (uprocs s q)" "pstate m q = pstate s q" for q
    by (simp_all add: m_def moved_def pstate_def)
  have mp: "parent (uprocs m this) = parent (uprocs s this)" "children (uprocs m this) = xs"
    using nt th(2) x by (simp_all add: m_def moved_def)
  have km: "kept s m this" using mk mp by (simp add: kept_def)
  have pm: "parent (uprocs m q) = (if q = x then ?r else parent (uprocs s q))" for q by (simp add: m_def moved_def)
  have run1: "reparent_child this x s = (if pstate s x = ZOMBIE then post_childexit ?r m else Ok m)"
  proof -
    let ?a = "upd_uproc this (\<lambda>u. u\<lparr>children := remove1 x (children u)\<rparr>) (upd_uproc x (\<lambda>u. u\<lparr>parent := ?r\<rparr>) s)"
    have "unlock_proc x (upd_uproc x (\<lambda>u. u\<lparr>parent := ?r\<rparr>) (upd_uproc x (\<lambda>q. q\<lparr>proclock := True\<rparr>) s)) = upd_uproc x (\<lambda>u. u\<lparr>parent := ?r\<rparr>) s"
      using free(1) by (cases "uprocs s x") (simp add: unlock_proc_def upd_uproc_def release_spinlock_def)
    moreover have "insert_child ?r x ?a = Ok m"
    proof -
      have "\<not> proclock (uprocs ?a ?r)" using free(2) xT(2) th(2) by simp
      then show ?thesis
        by (cases "uprocs ?a ?r")
          (simp add: insert_child_def lock_unlock(1) m_def moved_def unlock_proc_def upd_uproc_def release_spinlock_def)
    qed
    moreover have "with_sched (is_zombie x) m = Ok (pstate s x = ZOMBIE, m)"
      using free(3) mk(4,14) by (cases "sch s") (simp add: with_sched_def is_zombie_def acquire_sched_lock_def release_sched_lock_def
          release_spinlock_def pstate_def Let_def) 
    ultimately show ?thesis using free(1) mk(1) by (simp add: reparent_child_def lock_unlock(1) Let_def)
  qed
  have locks: "locks_at m T {this}" using lk mk by (simp add: locks_at_def)
  have runm: "running m T" using run mk by (simp add: running_def)
  have namm: "names_ok m T" using nam mk by (simp add: names_ok_def)
  show ?thesis
  proof (cases "pstate s x = ZOMBIE")
    case False
    have "exiting m T W this"
      using ex mf(1) locks runm namm mk th False unfolding exiting_def by (auto simp: mf(2))
    with run1 False mp km pm show ?thesis by auto
  next
    case True
    have fin: "finite (zombies s T p)" for p using fam by (simp add: zombies_def family_ok_def)
    have new: "x \<notin> zombies s T ?r" using xT(3) th(2) by (simp add: zombies_def)
    have c: "counts (childexit (uprocs m ?r)) ?r W (card (zombies s T ?r))" using ex rT th(2) mk by (auto simp: exiting_def)
    obtain s' sem W' where p: "post_childexit ?r m = Ok s'" "uprocs s' = (uprocs m)(?r := (uprocs m ?r)\<lparr>childexit := sem\<rparr>)"
      "counts sem ?r W' (card (zombies s T ?r) + 1)" "W' - {?r} = W - {?r}" "same_procs m s'" "running s' T" "\<not> rqlock (sch s')" "elock s' = elock m"
      "on_cpu s' = on_cpu m" "this_proc s' = this_proc m"
      using post_childexit_spec [OF c runm _ rT(1,3)] free(3) mk(4) by auto
    have st: "pstate s' q = ZOMBIE \<longleftrightarrow> pstate s q = ZOMBIE" "root_proc s' = ?r" for q using p(5) mk by (simp_all add: same_procs_def)
    have z: "zombies s' T = zombies m T" by (rule same_zombies [OF p(5)])
    have "exiting s' T W' this"
      unfolding exiting_def
    proof (intro conjI ballI impI)
      show "family_ok s' T" by (rule same_family [OF p(5) mf(1)])
      show "names_ok s' T" using same_names [OF p(5)] namm by simp
      show "locks_at s' T {this}" using locks p(2,5,7) by (auto simp: locks_at_def same_procs_def)
      show "running s' T" by (rule p(6))
      show "this_proc s' = this" "this \<noteq> root_proc s'" "elock s'" using p(8,10) mk th st(2) by simp_all
      fix q assume q: "q \<in> T - {this}" "pstate s' q \<noteq> ZOMBIE"
      then have old: "counts (childexit (uprocs s q)) q W (card (zombies s T q))" using ex st(1) by (auto simp: exiting_def)
      show "counts (childexit (uprocs s' q)) q W' (card (zombies s' T q))"
      proof (cases "q = ?r")
        case True
        then show ?thesis using p(2,3) new fin \<open>pstate s x = ZOMBIE\<close> by (simp add: z mf(2))
      next
        case False
        have "q \<in> W' \<longleftrightarrow> q \<in> W" using p(4) False by blast
        with old False q show ?thesis using p(2) mk by (auto simp: counts_def z mf(2))
      qed
    qed
    moreover have "kept s s' this" "children (uprocs s' this) = xs" using km mp p(2,5,9,10) th(2) by (auto simp: kept_def same_procs_def)
    moreover have "\<forall>q. parent (uprocs s' q) = (if q = x then ?r else parent (uprocs s q))" using pm p(5) by (simp add: same_procs_def)
    ultimately show ?thesis using run1 True p(1) by auto
  qed
qed

lemma reparent_spec:
  assumes "exiting s T W this"
  shows "\<exists>s' W'. reparent this s = Ok s' \<and> exiting s' T W' this \<and> children (uprocs s' this) = [] \<and> kept s s' this \<and>
    (\<forall>q. parent (uprocs s' q) = (if q \<in> set (children (uprocs s this)) then root_proc s else parent (uprocs s q)))"
proof -
  have "\<exists>s' W'. for_each (reparent_child this) xs s = Ok s' \<and> exiting s' T W' this \<and> children (uprocs s' this) = [] \<and> kept s s' this \<and>
      (\<forall>q. parent (uprocs s' q) = (if q \<in> set xs then root_proc s else parent (uprocs s q)))"
    if "exiting s T W this" "children (uprocs s this) = xs" for s W xs
    using that
  proof (induction xs arbitrary: s W)
    case Nil
    then show ?case by auto
  next
    case (Cons x xs)
    obtain s1 W1 where 1: "reparent_child this x s = Ok s1" "exiting s1 T W1 this" "children (uprocs s1 this) = xs" "kept s s1 this"
      "\<forall>q. parent (uprocs s1 q) = (if q = x then root_proc s else parent (uprocs s q))"
      using reparent_child_spec [OF Cons.prems] by blast
    obtain s2 W2 where 2: "for_each (reparent_child this) xs s1 = Ok s2" "exiting s2 T W2 this" "children (uprocs s2 this) = []" "kept s1 s2 this"
      "\<forall>q. parent (uprocs s2 q) = (if q \<in> set xs then root_proc s1 else parent (uprocs s1 q))"
      using Cons.IH [OF 1(2,3)] by blast
    have "root_proc s1 = root_proc s" using 1(4) by (simp add: kept_def)
    with 1 2 show ?case using released_trans [OF 1(4) 2(4)] by (intro exI [of _ s2] exI [of _ W2]) auto
  qed
  from this [OF assms refl] show ?thesis using assms by (auto simp: reparent_def)
qed

section \<open>What releasing files and memory leaves alone\<close>

text \<open>The part of the state that the tree, the numbers, the scheduler and the locks live in.\<close>

definition core :: "'c psys \<Rightarrow> _" where
  "core s = (root_proc s, on_cpu s, sch s, now_ms s, pid_list s, last_pid s, pidlock s, elock s,
     \<lambda>q. let u = uprocs s q in (parent u, children u, childexit u, kstack u, proclock u, pidno u, exitcode u, pvma u))"

lemma core_upd:
  assumes "parent (f (uprocs s p)) = parent (uprocs s p)" "children (f (uprocs s p)) = children (uprocs s p)"
    "childexit (f (uprocs s p)) = childexit (uprocs s p)" "kstack (f (uprocs s p)) = kstack (uprocs s p)"
    "proclock (f (uprocs s p)) = proclock (uprocs s p)" "pidno (f (uprocs s p)) = pidno (uprocs s p)"
    "exitcode (f (uprocs s p)) = exitcode (uprocs s p)" "pvma (f (uprocs s p)) = pvma (uprocs s p)"
  shows "core (upd_uproc p f s) = core s"
  using assms by (simp add: core_def Let_def fun_eq_iff)

lemma core_fields [simp]:
  "core (s\<lparr>pfs := f\<rparr>) = core s" "core (s\<lparr>pvm := v\<rparr>) = core s" "core (upd_vma i g s) = core s" "core (unlock_vma i s) = core s"
  "core (s\<lparr>pvm := v, pfs := f\<rparr>) = core s"
  by (simp_all add: core_def upd_vma_def unlock_vma_def)

lemma core_calls:
  "with_vm g s = Ok (x, s') \<Longrightarrow> core s' = core s"
  "with_files h s = Ok (y, s') \<Longrightarrow> core s' = core s"
  "do_files k s = Ok s' \<Longrightarrow> core s' = core s"
  "do_inodes j s = Ok s' \<Longrightarrow> core s' = core s"
  "do_mem m s = Ok s' \<Longrightarrow> core s' = core s"
  "lock_vma i s = Ok s' \<Longrightarrow> core s' = core s"
  by (auto simp: with_vm_def with_files_def do_files_def do_inodes_def do_mem_def lock_vma_def core_def)

lemma core_pgd: "with_pgd p g s = Ok (x, s') \<Longrightarrow> core s' = core s"
  by (auto simp: with_pgd_def core_upd dest!: core_calls(1))

lemma core_fault: "pgfault_handler bc addr iss s = Ok (r, s') \<Longrightarrow> core s' = core s"
  by (auto simp: pgfault_handler_def fault_in_file_def Let_def split: option.splits if_splits dest!: core_calls core_pgd)

lemma core_load: "user_load bc addr n s = Ok (bs, s') \<Longrightarrow> core s' = core s"
proof (induction bc addr n s arbitrary: bs rule: user_load.induct)
  case (1 bc addr n s)
  show ?case
  proof (cases "n = 0")
    case True
    then show ?thesis using "1.prems" by (simp add: user_load.simps)
  next
    case False
    let ?k = "min n (PAGE_SIZE - addr mod PAGE_SIZE)"
    obtain a s1 rest where p: "user_page bc addr s = Ok (a, s1)" and r: "user_load bc (addr + ?k) (n - ?k) s1 = Ok (rest, s')"
      using "1.prems" False by (subst (asm) user_load.simps) (auto simp: Let_def)
    have "core s1 = core s" using p by (auto simp: user_page_def split: option.splits dest!: core_fault)
    then show ?thesis using "1.IH" [OF False refl p refl refl r] by simp
  qed
qed

lemma core_writeback_loop: "writeback_loop bc v addr n i s = Ok s' \<Longrightarrow> core s' = core s"
proof (induction bc v addr n i s rule: writeback_loop.induct)
  case (1 bc v addr n i s)
  show ?case
  proof (cases "i < n")
    case True
    then obtain r s1 where w: "writeback_step bc v addr i (min (n - i) writeback_chunk) s = Ok (r, s1)" "writeback_loop bc v addr n (i + r) s1 = Ok s'"
      using "1.prems" by (subst (asm) writeback_loop.simps) auto
    have "core s1 = core s" using w(1) by (auto simp: writeback_step_def Let_def dest!: core_calls core_load)
    then show ?thesis using "1.IH" [OF True w(1) refl w(2)] by simp
  next
    case False
    then show ?thesis using "1.prems" by (simp add: writeback_loop.simps)
  qed
qed

lemma core_unmap: "unmap_region bc this v s = Ok (r, s') \<Longrightarrow> core s' = core s"
  by (auto simp: unmap_region_def writeback_def Let_def split: if_splits dest!: core_calls core_writeback_loop)

lemma core_for_each: "(\<And>i s s'. f i s = Ok s' \<Longrightarrow> core s' = core s) \<Longrightarrow> for_each f xs s = Ok s' \<Longrightarrow> core s' = core s"
  by (induction xs arbitrary: s) fastforce+

lemma core_regions: "exit_regions n bc this v s = Ok s' \<Longrightarrow> core s' = core s"
proof (induction n arbitrary: v s)
  case (Suc n)
  then show ?case by (auto simp: exit_regions.simps split: option.splits dest: core_unmap)
qed (simp add: exit_regions.simps)

text \<open>The open files are closed with the lock of the process free in between; the lock is taken again.\<close>

lemma core_close: "proclock (uprocs s this) \<Longrightarrow> close_slot bc this i s = Ok s' \<Longrightarrow> core s' = core s \<and> proclock (uprocs s' this)"
proof -
  assume l: "proclock (uprocs s this)" and c: "close_slot bc this i s = Ok s'"
  show ?thesis
  proof (cases "oftable (uprocs s this) ! i")
    case None
    then show ?thesis using l c by (simp add: close_slot_def)
  next
    case (Some f)
    then obtain t where t: "do_files (file_close bc (Some f)) (unlock_proc this s) = Ok t" "s' = upd_uproc this (\<lambda>u. u\<lparr>oftable := (oftable u)[i := None]\<rparr>) (upd_uproc this (\<lambda>q. q\<lparr>proclock := True\<rparr>) t)"
      using c Some by (auto simp: close_slot_def lock_proc_def)
    obtain f' where t': "t = (unlock_proc this s)\<lparr>pfs := f'\<rparr>" using t(1) by (auto simp: do_files_def)
    have "core s' = core s" using l by (simp add: t(2) t' core_def unlock_proc_def Let_def fun_eq_iff)
    moreover have "proclock (uprocs s' this)" by (simp add: t(2))
    ultimately show ?thesis ..
  qed
qed

lemma core_exit_files: "proclock (uprocs s this) \<Longrightarrow> exit_files bc this s = Ok s' \<Longrightarrow> core s' = core s"
proof -
  have "core s' = core s" if "proclock (uprocs s this)" "for_each (close_slot bc this) xs s = Ok s'" for xs s
    using that
  proof (induction xs arbitrary: s)
    case (Cons x xs)
    then obtain t where "close_slot bc this x s = Ok t" "for_each (close_slot bc this) xs t = Ok s'" by auto
    with Cons core_close [of s this bc x t] show ?case by metis
  qed simp
  then show "proclock (uprocs s this) \<Longrightarrow> exit_files bc this s = Ok s' \<Longrightarrow> core s' = core s" by (simp add: exit_files_def)
qed

lemma core_elock: "core s = core (t :: 'c psys) \<Longrightarrow> core (s\<lparr>elock := e\<rparr>) = core (t\<lparr>elock := e\<rparr>)"
  by (simp add: core_def Let_def)

lemma core_exit_memory:
  assumes "elock s" and "exit_memory bc this s = Ok s'"
  shows "core s' = core s"
proof -
  obtain s1 s2 s3 where 1: "exit_regions (NVMA + 2) bc this (pvma (uprocs s this)) (unlock_exit s) = Ok s1" "lock_exit s1 = Ok s2"
    "(case cwd (uprocs s2 this) of None \<Rightarrow> Ok s2 | Some i \<Rightarrow> do_inodes (it_put (inodes bc) False i) s2) = Ok s3"
    "with_pgd this (\<lambda>pd v. andthen (free_pgdir pd v) (\<lambda>(pd, v). Ok ((), pd, v))) (upd_uproc this (\<lambda>u. u\<lparr>cwd := None\<rparr>) s3) = Ok ((), s')"
    using assms(2) by (auto simp: exit_memory_def Let_def)
  have "core s1 = core (unlock_exit s)" by (rule core_regions [OF 1(1)])
  moreover have "s2 = s1\<lparr>elock := True\<rparr>" using 1(2) by (auto simp: lock_exit_def)
  ultimately have "core s2 = core ((unlock_exit s)\<lparr>elock := True\<rparr>)" using core_elock by metis
  also have "(unlock_exit s)\<lparr>elock := True\<rparr> = s" using assms(1) by (simp add: unlock_exit_def)
  finally have "core s2 = core s" .
  moreover have "core s3 = core s2" using 1(3) by (auto split: option.splits dest!: core_calls)
  moreover have "core s' = core s3" using core_pgd [OF 1(4)] by (simp add: core_upd)
  ultimately show ?thesis by simp
qed

section \<open>exit\<close>

lemma exiting_cong:
  assumes f: "root_proc s' = root_proc s" "on_cpu s' = on_cpu s" "sch s' = sch s" "pid_list s' = pid_list s" "last_pid s' = last_pid s"
      "pidlock s' = pidlock s" "elock s' = elock s"
    and q: "\<And>q. parent (uprocs s' q) = parent (uprocs s q)" "\<And>q. children (uprocs s' q) = children (uprocs s q)"
      "\<And>q. childexit (uprocs s' q) = childexit (uprocs s q)" "\<And>q. proclock (uprocs s' q) = proclock (uprocs s q)"
      "\<And>q. pidno (uprocs s' q) = pidno (uprocs s q)"
    and e: "exiting s T W this"
  shows "exiting s' T W this"
proof -
  have p: "pstate s' = pstate s" "this_proc s' = this_proc s" by (simp_all add: pstate_def this_proc_def f fun_eq_iff)
  show ?thesis
    using e unfolding exiting_def family_ok_def names_ok_def locks_at_def running_def zombies_def up_def f q p .
qed

lemma exiting_core: "core s' = core s \<Longrightarrow> exiting s T W this \<Longrightarrow> exiting s' T W this"
  by (erule exiting_cong [rotated -1]) (simp_all add: core_def Let_def fun_eq_iff)

text \<open>\<^verbatim>\<open>exit\<close> up to the release of the files: the children are gone and the code is stored.\<close>

definition exit_entry :: "'c psys \<Rightarrow> 'c psys" where
  "exit_entry s = upd_uproc (this_proc s) (\<lambda>q. q\<lparr>proclock := True\<rparr>) (s\<lparr>elock := True\<rparr>)"

definition releases :: "'c block_cache \<Rightarrow> int \<Rightarrow> 'c psys \<Rightarrow> bool" where
  "releases bc code s \<longleftrightarrow> (\<forall>s1. reparent (this_proc s) (exit_entry s) = Ok s1 \<longrightarrow>
     (\<exists>s2 s3. exit_files bc (this_proc s) (upd_uproc (this_proc s) (\<lambda>u. u\<lparr>exitcode := code\<rparr>) s1) = Ok s2 \<and> exit_memory bc (this_proc s) s2 = Ok s3))"

lemma exit_entry_exiting:
  assumes ok: "procs_ok s T W" and run: "running s T" and nr: "this_proc s \<noteq> root_proc s"
  shows "exiting (exit_entry s) T W (this_proc s)"
proof -
  let ?s = "exit_entry s" and ?t = "this_proc s"
  have fam: "family_ok s T" and nam: "names_ok s T" and ex: "exits_ok s T W" and lk: "locks_free s T" using ok by (simp_all add: procs_ok_def)
  have same: "same_procs s ?s" "this_proc ?s = ?t" "sch ?s = sch s" "on_cpu ?s = on_cpu s" "root_proc ?s = root_proc s"
    by (auto simp: exit_entry_def same_procs_def pstate_def this_proc_def)
  have "locks_at ?s T {?t}" using lk by (auto simp: locks_at_def locks_free_def exit_entry_def)
  moreover have "elock ?s" by (simp add: exit_entry_def)
  moreover have "childexit (uprocs ?s q) = childexit (uprocs s q)" "pstate ?s q = pstate s q" for q by (simp_all add: exit_entry_def pstate_def)
  moreover have "running ?s T" using run same by (simp add: running_def)
  ultimately show ?thesis
    using same_family [OF same(1) fam] same_names [OF same(1)] nam ex same_zombies [OF same(1)] nr same
    by (auto simp: exiting_def exits_ok_def)
qed

lemma exit_spec:
  assumes ok: "procs_ok s T W" and run: "running s T" and nr: "this_proc s \<noteq> root_proc s" and rel: "releases bc code s"
  shows "\<exists>s' W'. exit_proc bc code s = Ok s' \<and> procs_ok s' T W' \<and> sched_inv (sch s') \<and> pstate s' (this_proc s) = ZOMBIE \<and>
    exitcode (uprocs s' (this_proc s)) = code \<and>
    (\<forall>q\<in>T. parent (uprocs s' q) = (if q \<noteq> root_proc s \<and> parent (uprocs s q) = this_proc s then root_proc s else parent (uprocs s q)) \<and>
      pidno (uprocs s' q) = pidno (uprocs s q) \<and> (q \<noteq> this_proc s \<longrightarrow> exitcode (uprocs s' q) = exitcode (uprocs s q) \<and> (pstate s' q = ZOMBIE \<longleftrightarrow> pstate s q = ZOMBIE)))"
proof -
  let ?t = "this_proc s" and ?r = "root_proc s"
  have fam: "family_ok s T" and lk: "locks_free s T" using ok by (simp_all add: procs_ok_def)
  have tT: "?t \<in> T" using run by (simp add: running_def)
  let ?p = "parent (uprocs s ?t)"
  have pT: "?p \<in> T" "?p \<noteq> 0" "?p \<noteq> ?t"
  proof -
    show "?p \<in> T" using fam tT by (auto simp: family_ok_def)
    then show "?p \<noteq> 0" using fam unfolding family_ok_def by metis
    show "?p \<noteq> ?t"
    proof
      assume a: "?p = ?t"
      then have "up s n ?t = ?t" for n by (induction n) (simp_all add: up_def)
      then show False using fam tT nr by (auto simp: family_ok_def)
    qed
  qed
  note e0 = exit_entry_exiting [OF ok run nr]
  obtain s1 W1 where 1: "reparent ?t (exit_entry s) = Ok s1" "exiting s1 T W1 ?t" "children (uprocs s1 ?t) = []" "kept (exit_entry s) s1 ?t"
    "\<forall>q. parent (uprocs s1 q) = (if q \<in> set (children (uprocs (exit_entry s) ?t)) then root_proc (exit_entry s) else parent (uprocs (exit_entry s) q))"
    using reparent_spec [OF e0] by blast
  let ?s1 = "upd_uproc ?t (\<lambda>u. u\<lparr>exitcode := code\<rparr>) s1"
  obtain s2 s3 where 2: "exit_files bc ?t ?s1 = Ok s2" "exit_memory bc ?t s2 = Ok s3" using rel 1(1) unfolding releases_def by blast
  have e1: "exiting ?s1 T W1 ?t" by (rule exiting_cong [OF _ _ _ _ _ _ _ _ _ _ _ _ 1(2)]) simp_all
  have lt: "proclock (uprocs ?s1 ?t)" "elock ?s1" using e1 tT by (auto simp: exiting_def locks_at_def)
  have c2: "core s2 = core ?s1" by (rule core_exit_files [OF lt(1) 2(1)])
  then have "elock s2" using lt(2) by (simp add: core_def)
  from core_exit_memory [OF this 2(2)] c2 have c3: "core s3 = core ?s1" by simp
  have e3: "exiting s3 T W1 ?t" by (rule exiting_core [OF c3 e1])
  have f3: "root_proc s3 = ?r" "this_proc s3 = ?t" "on_cpu s3 = on_cpu s1" "parent (uprocs s3 q) = parent (uprocs s1 q)" "pidno (uprocs s3 q) = pidno (uprocs s q)"
    "exitcode (uprocs s3 q) = (if q = ?t then code else exitcode (uprocs s q))" "children (uprocs s3 ?t) = []"
    "pstate s3 q = ZOMBIE \<longleftrightarrow> pstate s q = ZOMBIE" for q
    using c3 1(3,4) by (auto simp: core_def kept_def exit_entry_def Let_def fun_eq_iff pstate_def this_proc_def)
  have chs: "set (children (uprocs s ?t)) = {c \<in> T. c \<noteq> ?r \<and> parent (uprocs s c) = ?t}" using fam tT by (auto simp: family_ok_def)
  have par3: "parent (uprocs s3 q) = (if q \<noteq> ?r \<and> parent (uprocs s q) = ?t then ?r else parent (uprocs s q))" if "q \<in> T" for q
    using 1(5) chs that by (auto simp: f3(4) exit_entry_def)
  have p3: "parent (uprocs s3 ?t) = ?p" using par3 [OF tT] pT(3) by simp
  have "?t \<in> set (children (uprocs s ?p))" using fam tT pT(1) nr by (auto simp: family_ok_def)
  then have "children (uprocs s ?p) \<noteq> []" by auto
  then have pz: "pstate s3 ?p \<noteq> ZOMBIE" using fam pT(1) f3(8) by (auto simp: family_ok_def)
  have fam3: "family_ok s3 T" and nam3: "names_ok s3 T" and lk3: "locks_at s3 T {?t}" and run3: "running s3 T" using e3 by (simp_all add: exiting_def)
  have cn: "counts (childexit (uprocs s3 ?p)) ?p W1 (card (zombies s3 T ?p))" using e3 pT pz by (auto simp: exiting_def)
  obtain s4 m W2 where 4: "post_childexit ?p s3 = Ok s4" "uprocs s4 = (uprocs s3)(?p := (uprocs s3 ?p)\<lparr>childexit := m\<rparr>)"
    "counts m ?p W2 (card (zombies s3 T ?p) + 1)" "W2 - {?p} = W1 - {?p}" "same_procs s3 s4" "running s4 T" "\<not> rqlock (sch s4)"
    "elock s4 = elock s3" "on_cpu s4 = on_cpu s3" "this_proc s4 = this_proc s3"
    using post_childexit_spec [OF cn run3 _ pT(1,2)] lk3 by (auto simp: locks_at_def)
  have t4: "this_proc s4 = ?t" using 4(10) f3(2) by simp
  obtain t nx where 5: "sched (on_cpu s4) (now_ms s4) ZOMBIE ((sch s4)\<lparr>rqlock := True\<rparr>) = Ok t" "sched_inv t" "\<not> rqlock t" "nx \<noteq> ?t"
    "pstate s4 nx = RUNNABLE" "\<forall>q. state (procs t q) = (if q = nx then RUNNING else if q = ?t then ZOMBIE else pstate s4 q)"
    using sched_here [OF 4(6), of ZOMBIE] t4 by auto
  define s' where "s' = (unlock_exit (unlock_proc ?t (s4\<lparr>sch := (sch s4)\<lparr>rqlock := True\<rparr>\<rparr>)))\<lparr>sch := t\<rparr>"
  have run1: "exit_proc bc code s = Ok s'"
    using 1(1) 2 p3 pT(2) 4(1) 5(1) lk tT acquire_sched_lock_free [OF 4(7)]
    by (simp add: exit_proc_def lock_exit_def lock_unlock(1) Let_def exit_entry_def locks_free_def this_proc_def unlock_exit_def unlock_proc_def s'_def)
  have u': "uprocs s' q = (if q = ?t then (uprocs s4 q)\<lparr>proclock := False\<rparr> else uprocs s4 q)" for q
    by (simp add: s'_def unlock_exit_def unlock_proc_def release_spinlock_def)
  have st': "pstate s' q = ZOMBIE \<longleftrightarrow> q = ?t \<or> pstate s4 q = ZOMBIE" for q using 5(4-6) by (auto simp: s'_def pstate_def)
  have rest: "root_proc s' = root_proc s4" "pid_list s' = pid_list s4" "last_pid s' = last_pid s4" "pidlock s' = pidlock s4" "elock s' = False" "sch s' = t"
    by (simp_all add: s'_def unlock_exit_def unlock_proc_def release_spinlock_def)
  have eq: "parent (uprocs s' q) = parent (uprocs s4 q)" "children (uprocs s' q) = children (uprocs s4 q)" "pidno (uprocs s' q) = pidno (uprocs s4 q)"
    "childexit (uprocs s' q) = childexit (uprocs s4 q)" "exitcode (uprocs s' q) = exitcode (uprocs s4 q)" for q
    by (simp_all add: s'_def unlock_exit_def unlock_proc_def)
  have fam4: "family_ok s4 T" by (rule same_family [OF 4(5) fam3])
  have c4: "children (uprocs s4 ?t) = []" "root_proc s4 = ?r" "parent (uprocs s4 q) = parent (uprocs s3 q)"
    "pidno (uprocs s4 q) = pidno (uprocs s3 q)" "exitcode (uprocs s4 q) = exitcode (uprocs s3 q)" "pstate s4 q = ZOMBIE \<longleftrightarrow> pstate s3 q = ZOMBIE" for q
    using 4(5) f3(1,7) by (simp_all add: same_procs_def)
  have fam': "family_ok s' T"
  proof -
    have "up s' n q = up s4 n q" for n q by (simp add: up_def eq)
    moreover have "pstate s' ?r \<noteq> ZOMBIE" using st' [of ?r] fam4 nr c4(2) by (auto simp: family_ok_def)
    moreover have "children (uprocs s4 q) = []" if "q \<in> T" "pstate s' q = ZOMBIE" for q
      using that c4(1) fam4 by (auto simp: st' family_ok_def)
    ultimately show ?thesis using fam4 unfolding family_ok_def rest eq c4(2) by auto
  qed
  have nam': "names_ok s' T" using nam3 same_names [OF 4(5)] unfolding names_ok_def rest eq by simp
  have z4: "zombies s4 T = zombies s3 T" by (rule same_zombies [OF 4(5)])
  have t4z: "pstate s4 ?t \<noteq> ZOMBIE" using running_state [OF 4(6)] t4 by simp
  have z': "zombies s' T q = (if q = ?p then insert ?t (zombies s4 T q) else zombies s4 T q)" for q
    unfolding zombies_def st' rest eq c4(2,3) using tT nr p3 by auto
  have exits': "exits_ok s' T W2"
    unfolding exits_ok_def
  proof (intro ballI impI)
    fix q assume q: "q \<in> T" "pstate s' q \<noteq> ZOMBIE"
    then have nz: "q \<noteq> ?t" "pstate s4 q \<noteq> ZOMBIE" by (auto simp: st')
    show "counts (childexit (uprocs s' q)) q W2 (card (zombies s' T q))"
    proof (cases "q = ?p")
      case True
      have "finite (zombies s4 T q)" using fam4 by (simp add: zombies_def family_ok_def)
      moreover have "?t \<notin> zombies s4 T q" using t4z by (simp add: zombies_def)
      ultimately show ?thesis using True 4(2,3) by (simp add: eq z' z4)
    next
      case False
      have "q \<in> W2 \<longleftrightarrow> q \<in> W1" using 4(4) False by blast
      moreover have "counts (childexit (uprocs s3 q)) q W1 (card (zombies s3 T q))" using e3 q(1) nz c4(6) by (auto simp: exiting_def)
      ultimately show ?thesis using False 4(2) by (simp add: eq z' z4 counts_def)
    qed
  qed
  have "proclock (uprocs s4 q) = (q = ?t)" if "q \<in> T" for q using lk3 that 4(2) by (auto simp: locks_at_def)
  then have lk': "locks_free s' T" using lk3 4(5) 5(3) by (auto simp: locks_free_def locks_at_def u' rest same_procs_def)
  have "pstate s' ?t = ZOMBIE" using st' by blast
  moreover have "exitcode (uprocs s' ?t) = code" using eq c4 f3 by simp
  moreover have "\<forall>q\<in>T. parent (uprocs s' q) = (if q \<noteq> ?r \<and> parent (uprocs s q) = ?t then ?r else parent (uprocs s q)) \<and>
      pidno (uprocs s' q) = pidno (uprocs s q) \<and> (q \<noteq> ?t \<longrightarrow> exitcode (uprocs s' q) = exitcode (uprocs s q) \<and> (pstate s' q = ZOMBIE \<longleftrightarrow> pstate s q = ZOMBIE))"
    unfolding st' eq c4(3-6) using par3 f3(5,6,8) by auto
  ultimately show ?thesis
    using run1 fam' nam' exits' lk' 5(2) rest(6) by (intro exI [of _ s'] exI [of _ W2]) (simp add: procs_ok_def)
qed

end
