(* ===== verification/TreeSpec.thy ===== *)
theory TreeSpec
  imports ExitSpec
begin

text \<open>
  The walks over the tree of processes end and find what they look for (\<^verbatim>\<open>kill\<close>), and a new
  process joins the tree with a number of its own.
\<close>

section \<open>Descendants\<close>

definition below :: "'c psys \<Rightarrow> tid set \<Rightarrow> tid \<Rightarrow> tid set" where
  "below s T p = {q \<in> T. \<exists>k. up s k q = p}"

lemma up_add: "up s (m + n) p = up s m (up s n p)"
  by (simp add: up_def funpow_add)

lemma up_root: "family_ok s T \<Longrightarrow> up s n (root_proc s) = root_proc s"
  by (induction n) (simp_all add: up_def family_ok_def)

lemma no_cycle:
  assumes fam: "family_ok s T" and p: "p \<in> T" and cyc: "up s (Suc k) p = p"
  shows "p = root_proc s"
proof -
  obtain m where m: "up s m p = root_proc s" using fam p by (auto simp: family_ok_def)
  have "up s (j * Suc k) p = p" for j
  proof (induction j)
    case 0
    show ?case by (simp add: up_def)
  next
    case (Suc j)
    have "up s (Suc j * Suc k) p = up s (Suc k) (up s (j * Suc k) p)" using up_add [of s "Suc k" "j * Suc k" p] by (simp only: mult_Suc)
    then show ?case using Suc cyc by simp
  qed
  then have "p = up s (m * Suc k) p" by simp
  also have "\<dots> = up s (m * k) (up s m p)" using up_add [of s "m * k" m p] by (simp add: add.commute)
  finally show ?thesis using m up_root [OF fam] by simp
qed

lemma below_child:
  assumes fam: "family_ok s T" and p: "p \<in> T" and c: "c \<in> set (children (uprocs s p))"
  shows "below s T c \<subset> below s T p"
proof -
  have ct: "c \<in> T" "c \<noteq> root_proc s" "parent (uprocs s c) = p" using fam p c by (auto simp: family_ok_def)
  have "below s T c \<subseteq> below s T p"
  proof
    fix q assume "q \<in> below s T c"
    then obtain k where "q \<in> T" "up s k q = c" by (auto simp: below_def)
    then have "up s (Suc k) q = p" using ct(3) by (simp add: up_def)
    then show "q \<in> below s T p" using \<open>q \<in> T\<close> by (auto simp: below_def)
  qed
  moreover have "p \<in> below s T p" using p by (auto simp: below_def up_def intro: exI [of _ 0])
  moreover have "p \<notin> below s T c"
  proof
    assume "p \<in> below s T c"
    then obtain k where k: "up s k p = c" by (auto simp: below_def)
    then have "up s (Suc k) p = p" using ct(3) by (simp add: up_def)
    then have "p = root_proc s" by (rule no_cycle [OF fam p])
    then have "c = root_proc s" using k up_root [OF fam] by simp
    then show False using ct(2) by simp
  qed
  ultimately show ?thesis by blast
qed

lemma below_split:
  assumes fam: "family_ok s T" and p: "p \<in> T"
  shows "below s T p = insert p (\<Union>c\<in>set (children (uprocs s p)). below s T c)"
proof
  show "below s T p \<subseteq> insert p (\<Union>c\<in>set (children (uprocs s p)). below s T c)"
  proof
    fix q assume "q \<in> below s T p"
    then obtain k where q: "q \<in> T" "up s k q = p" by (auto simp: below_def)
    show "q \<in> insert p (\<Union>c\<in>set (children (uprocs s p)). below s T c)"
    proof (cases "q = p")
      case False
      define k' where "k' = (LEAST k. up s k q = p)"
      have k': "up s k' q = p" using q(2) unfolding k'_def by (rule LeastI)
      have "k' \<noteq> 0" using k' False by (cases k') (auto simp: up_def)
      then obtain j where j: "k' = Suc j" by (cases k') auto
      let ?c = "up s j q"
      have pc: "parent (uprocs s ?c) = p" using k' j by (simp add: up_def)
      have ne: "?c \<noteq> p" using not_less_Least [of j "\<lambda>k. up s k q = p"] j unfolding k'_def by auto
      have "up s n q \<in> T" for n using q(1) fam by (induction n) (auto simp: up_def family_ok_def)
      then have "?c \<in> T" .
      moreover have "?c \<noteq> root_proc s" using pc ne fam by (auto simp: family_ok_def)
      ultimately have "?c \<in> set (children (uprocs s p))" using fam p pc by (auto simp: family_ok_def)
      moreover have "q \<in> below s T ?c" using q(1) by (auto simp: below_def)
      ultimately show ?thesis by blast
    qed simp
  qed
  have "p \<in> below s T p" using p by (auto simp: below_def up_def intro: exI [of _ 0])
  then show "insert p (\<Union>c\<in>set (children (uprocs s p)). below s T c) \<subseteq> below s T p"
    using below_child [OF fam p] by auto
qed

section \<open>kill\<close>

lemma first_found_spec:
  assumes "\<And>x. x \<in> set xs \<Longrightarrow> (f x s = Ok (None, s) \<and> \<not> P x) \<or> (\<exists>k. P x \<and> Q x k \<and> f x s = Ok (Some k, g k))"
  shows "(first_found f xs s = Ok (None, s) \<and> (\<forall>x\<in>set xs. \<not> P x)) \<or>
    (\<exists>x\<in>set xs. \<exists>k. P x \<and> Q x k \<and> first_found f xs s = Ok (Some k, g k))"
  using assms
proof (induction xs)
  case (Cons x xs)
  show ?case
  proof (cases "P x")
    case True
    then obtain k where "Q x k" "f x s = Ok (Some k, g k)" using Cons.prems [of x] by auto
    then show ?thesis using True by auto
  next
    case False
    then have "f x s = Ok (None, s)" using Cons.prems [of x] by auto
    then show ?thesis using False Cons.IH Cons.prems by simp
  qed
qed simp

definition mark_killed :: "'c psys \<Rightarrow> tid \<Rightarrow> 'c psys" where
  "mark_killed s k = s\<lparr>sch := upd_proc k (\<lambda>q. q\<lparr>killed := True\<rparr>) (sch s)\<rparr>"

definition matches :: "'c psys \<Rightarrow> int \<Rightarrow> tid \<Rightarrow> bool" where
  "matches s i q \<longleftrightarrow> pidno (uprocs s q) = i \<and> pstate s q \<noteq> UNUSED"

lemma dfs_kill_spec:
  assumes fam: "family_ok s T" and l: "\<not> rqlock (sch s)"
  shows "p \<in> T \<Longrightarrow> card (below s T p) \<le> n \<Longrightarrow>
    (dfs_kill n p i s = Ok (None, s) \<and> (\<forall>q\<in>below s T p. \<not> matches s i q)) \<or>
    (\<exists>k\<in>below s T p. matches s i k \<and> dfs_kill n p i s = Ok (Some k, mark_killed s k))"
proof (induction n arbitrary: p)
  case 0
  have "p \<in> below s T p" using 0 by (auto simp: below_def up_def intro: exI [of _ 0])
  moreover have "finite (below s T p)" using fam by (simp add: below_def family_ok_def)
  ultimately show ?case using 0 by auto
next
  case (Suc n)
  have fin: "finite (below s T p)" for p using fam by (simp add: below_def family_ok_def)
  have un: "with_sched (is_unused p) s = Ok (pstate s p = UNUSED, s)"
    using l by (cases "sch s") (simp add: with_sched_def is_unused_def acquire_sched_lock_def release_sched_lock_def
        release_spinlock_def pstate_def Let_def)
  have pb: "p \<in> below s T p" using Suc.prems by (auto simp: below_def up_def intro: exI [of _ 0])
  show ?case
  proof (cases "matches s i p")
    case True
    then have "dfs_kill (Suc n) p i s = Ok (Some p, mark_killed s p)" using un by (simp add: matches_def mark_killed_def)
    then show ?thesis using True pb by blast
  next
    case False
    have step: "dfs_kill (Suc n) p i s = first_found (\<lambda>c s. dfs_kill n c i s) (children (uprocs s p)) s"
      using False un by (auto simp: matches_def)
    have "(dfs_kill n c i s = Ok (None, s) \<and> \<not> (\<exists>q\<in>below s T c. matches s i q)) \<or>
        (\<exists>k. (\<exists>q\<in>below s T c. matches s i q) \<and> (k \<in> below s T c \<and> matches s i k) \<and> dfs_kill n c i s = Ok (Some k, mark_killed s k))"
      if c: "c \<in> set (children (uprocs s p))" for c
    proof -
      have "card (below s T c) < card (below s T p)" using psubset_card_mono [OF fin below_child [OF fam Suc.prems(1) c]] .
      then have "card (below s T c) \<le> n" using Suc.prems(2) by simp
      moreover have "c \<in> T" using fam Suc.prems(1) c by (auto simp: family_ok_def)
      ultimately show ?thesis using Suc.IH [of c] by blast
    qed
    from first_found_spec [of "children (uprocs s p)" "\<lambda>c s. dfs_kill n c i s" s "\<lambda>c. \<exists>q\<in>below s T c. matches s i q"
        "\<lambda>c k. k \<in> below s T c \<and> matches s i k" "mark_killed s"] this
    show ?thesis unfolding step below_split [OF fam Suc.prems(1)] using False by blast
  qed
qed

lemma below_root: "family_ok s T \<Longrightarrow> below s T (root_proc s) = T"
  by (auto simp: below_def family_ok_def)

lemma kill_spec:
  assumes ok: "procs_ok s T W" and run: "running s T" and l: "\<not> klock s" and n: "card T \<le> n"
  shows "\<exists>r s'. kill n i s = Ok (r, s') \<and>
    (if \<exists>k\<in>T. matches s i k
     then \<exists>k\<in>T. matches s i k \<and> killed (procs (sch s') k) \<and> klock s' \<and>
       r = (if drop_bit 48 (uelr (ucontext (uprocs s k))) = 0 then 0 else - 1)
     else r = - 1 \<and> s' = s)"
proof -
  let ?s = "s\<lparr>klock := True\<rparr>"
  have fam: "family_ok s T" and lk: "locks_free s T" using ok by (simp_all add: procs_ok_def)
  have fam': "family_ok ?s T" using fam by (simp add: family_ok_def up_def pstate_def)
  have ml: "matches ?s i = matches s i" by (simp add: matches_def pstate_def fun_eq_iff)
  have free: "\<not> rqlock (sch ?s)" using lk by (simp add: locks_free_def)
  have rT: "root_proc ?s \<in> T" using fam by (simp add: family_ok_def)
  have "card (below ?s T (root_proc ?s)) \<le> n" using n by (simp only: below_root [OF fam'])
  note d = dfs_kill_spec [OF fam' free rT this, of i, unfolded below_root [OF fam'] ml]
  have unl: "s\<lparr>klock := False\<rparr> = s" using l by simp
  from d show ?thesis
  proof (elim disjE bexE conjE)
    assume a: "dfs_kill n (root_proc ?s) i ?s = Ok (None, ?s)" "\<forall>q\<in>T. \<not> matches s i q"
    then show ?thesis using l unl by (simp add: kill_def release_spinlock_def)
  next
    fix k assume k: "k \<in> T" "matches s i k" "dfs_kill n (root_proc ?s) i ?s = Ok (Some k, mark_killed ?s k)"
    let ?m = "mark_killed ?s k"
    have um: "ucontext (uprocs ?m k) = ucontext (uprocs s k)" "killed (procs (sch ?m) k)" "klock ?m" by (simp_all add: mark_killed_def)
    show ?thesis
    proof (cases "drop_bit 48 (uelr (ucontext (uprocs s k))) = 0")
      case False
      then show ?thesis using k l um by (auto simp: kill_def)
    next
      case True
      have "sched_inv (sch ?m)" using run
        by (auto simp: running_def mark_killed_def sched_inv_def idles_def)
      moreover have "k \<notin> idles (sch ?m)" "k \<noteq> 0" using run k(1) fam by (auto simp: running_def mark_killed_def idles_def family_ok_def)
      ultimately obtain b t where t: "activate_proc k True (sch ?m) = Ok (b, t)"
        using activate_preserves [of "sch ?m" k True] free by (auto simp: RQ_SHADOW_def mark_killed_def)
      have "killed (procs t k)" using activate_states [OF t] um(2) by simp
      then show ?thesis using k l um True t by (auto simp: kill_def with_sched_def)
    qed
  qed
qed

end
