(* ===== verification/SpawnSpec.thy ===== *)
theory SpawnSpec
  imports TreeSpec
begin

text \<open>
  The creation of a process the way \<^verbatim>\<open>kernel_entry\<close> does it: \<^verbatim>\<open>create_proc\<close>, \<^verbatim>\<open>set_parent_to_this\<close>
  and \<^verbatim>\<open>start_proc\<close>.
\<close>

section \<open>Numbers\<close>

lemma get_pid_spec:
  assumes nam: "names_ok s T" and ne: "T \<noteq> {}" and l: "\<not> pidlock s" and m: "mem_pages (fmem (pfs s)) live X"
    and pl: "fst ` set (pid_list s) \<subseteq> live" "distinct (map fst (pid_list s))"
  shows "\<exists>i m' live'. get_pid s = Ok (i, s\<lparr>pid_list := tl (pid_list s), last_pid := (if pid_list s = [] then last_pid s + 1 else last_pid s),
      pfs := (pfs s)\<lparr>fmem := m'\<rparr>\<rparr>) \<and> mem_pages m' live' X \<and> length (free_pages (fmem (pfs s))) \<le> length (free_pages m') \<and>
    live' = live - fst ` set (take 1 (pid_list s)) \<and> 1 \<le> i \<and> i \<le> (if pid_list s = [] then last_pid s + 1 else last_pid s) \<and>
    i \<notin> (\<lambda>p. pidno (uprocs s p)) ` T \<and> i \<notin> snd ` set (tl (pid_list s))"
proof (cases "pid_list s")
  case Nil
  have "i \<le> last_pid s" if "i \<in> (\<lambda>p. pidno (uprocs s p)) ` T" for i using nam that by (auto simp: names_ok_def)
  then have "last_pid s + 1 \<notin> (\<lambda>p. pidno (uprocs s p)) ` T" by fastforce
  moreover have "0 \<le> last_pid s"
  proof -
    obtain p where "p \<in> T" using ne by auto
    then have "1 \<le> pidno (uprocs s p)" "pidno (uprocs s p) \<le> last_pid s" using nam by (auto simp: names_ok_def)
    then show ?thesis by simp
  qed
  moreover have "get_pid s = Ok (last_pid s + 1, s\<lparr>pid_list := tl (pid_list s), last_pid := last_pid s + 1,
      pfs := (pfs s)\<lparr>fmem := fmem (pfs s)\<rparr>\<rparr>)"
    using Nil by (cases s) (simp add: get_pid_def)
  ultimately show ?thesis using Nil m by (intro exI conjI) auto
next
  case (Cons x rest)
  obtain node i where x: "x = (node, i)" by (cases x)
  obtain m' where k: "kfree (Some node) (fmem (pfs s)) = Ok m'" "mem_pages m' (live - {node}) X" "set (free_pages (fmem (pfs s))) \<subseteq> set (free_pages m')"
    using kfree_pages [OF m, of node] pl Cons x by auto
  have "get_pid s = Ok (i, s\<lparr>pid_list := rest, pfs := (pfs s)\<lparr>fmem := m'\<rparr>\<rparr>)"
    using Cons x k(1) l by (simp add: get_pid_def lock_pid_def unlock_pid_def do_mem_def release_spinlock_def)
  moreover have "1 \<le> i \<and> i \<le> last_pid s \<and> i \<notin> (\<lambda>p. pidno (uprocs s p)) ` T \<and> i \<notin> snd ` set rest"
    using nam Cons x by (auto simp: names_ok_def)
  ultimately show ?thesis using Cons x k kfree_pages_length [OF m k(2,3)] by (intro exI conjI) auto
qed

section \<open>create_proc\<close>

lemma init_pgdir_spec:
  assumes m: "mem_pages (vmem v) live X" and two: "2 \<le> length (free_pages (vmem v))"
  shows "\<exists>pd v' a q. init_pgdir raw v = Ok (pd, v') \<and> mem_pages (vmem v') (insert a live) (X - {q}) \<and> q \<in> X \<and>
    length (free_pages (vmem v)) \<le> length (free_pages (vmem v')) + 2"
proof -
  obtain q ps where f: "free_pages (vmem v) = q # ps" using two by (cases "free_pages (vmem v)") auto
  obtain m1 where 1: "kalloc_page (vmem v) = Ok (Some q, m1)" "q \<in> X" "mem_pages m1 live (X - {q})" "free_pages m1 = ps"
    using kalloc_page_pages [OF m f] by blast
  have "sizeof_section \<le> 2040" by (simp add: sizeof_section_def)
  from kalloc_pages [OF 1(3) this] obtain a m2 where 2: "kalloc sizeof_section m1 = Ok (Some a, m2)" "mem_pages m2 (insert a live) (X - {q})"
    "length (free_pages m1) \<le> length (free_pages m2) + 1"
    using 1(4) two f by (auto split: option.splits)
  have "\<exists>pd v'. init_pgdir raw v = Ok (pd, v') \<and> vmem v' = m2"
    using 1(1) 2(1) by (simp add: init_pgdir_def new_table_def page_alloc_def zero_table_def init_sections_def)
  then show ?thesis using 1(2,4) 2 f by fastforce
qed

definition outside_quiet :: "'c psys \<Rightarrow> tid set \<Rightarrow> bool" where
  "outside_quiet s T \<longleftrightarrow> (\<forall>p. p \<notin> T \<longrightarrow> p \<notin> idles (sch s) \<longrightarrow> pstate s p \<noteq> RUNNABLE \<and> pstate s p \<noteq> RUNNING)"

lemma create_proc_spec:
  assumes ok: "procs_ok s T W" and mem: "procs_mem s T live X" and four: "4 \<le> length (free_pages (fmem (pfs s)))"
    and idl: "\<forall>q\<in>idles (sch s). q \<in> live \<or> page_base q \<notin> X"
  shows "\<exists>p s' u live' X'. create_proc s = Ok (p, s') \<and> p \<notin> T \<and> p \<noteq> 0 \<and> p \<notin> idles (sch s) \<and>
    uprocs s' = (uprocs s)(p := u) \<and> sch s' = upd_proc p (\<lambda>_. new_sproc) (sch s) \<and> root_proc s' = root_proc s \<and> on_cpu s' = on_cpu s \<and>
    elock s' = elock s \<and> pidlock s' = pidlock s \<and> pid_list s' = tl (pid_list s) \<and>
    parent u = 0 \<and> children u = [] \<and> childexit u = init_sem 0 \<and> \<not> proclock u \<and> kstack u \<noteq> 0 \<and> oftable u = init_oftable \<and>
    pidno u \<notin> (\<lambda>q. pidno (uprocs s q)) ` T \<and> names_ok s' (insert p T) \<and> procs_mem s' (insert p T) live' X'"
proof -
  have fam: "family_ok s T" and nam: "names_ok s T" and lk: "locks_free s T" using ok by (simp_all add: procs_ok_def)
  have mp: "mem_pages (fmem (pfs s)) live X" and pl: "fst ` set (pid_list s) \<subseteq> live - T" "distinct (map fst (pid_list s))"
    and ks: "\<And>q. q \<in> T \<Longrightarrow> kstack (uprocs s q) \<noteq> 0 \<and> PAGE_SIZE dvd kstack (uprocs s q) \<and> kstack (uprocs s q) \<notin> X"
    and kinj: "inj_on (\<lambda>p. kstack (uprocs s p)) T" and rt: "page_base (root_proc s) \<notin> X" "\<And>q. q \<in> T \<Longrightarrow> page_base (root_proc s) \<noteq> kstack (uprocs s q)"
    and z: "0 \<notin> X" and Tl: "T - {root_proc s} \<subseteq> live" using mem unfolding procs_mem_def by auto
  have "sizeof_Proc \<le> 2040" by (simp add: sizeof_Proc_def OPENFILE_def)
  from kalloc_pages [OF mp this] four obtain p m1 where 1: "kalloc sizeof_Proc (fmem (pfs s)) = Ok (Some p, m1)" "p \<notin> live" "page_base p \<in> X"
    "mem_pages m1 (insert p live) X" "length (free_pages (fmem (pfs s))) \<le> length (free_pages m1) + 1"
    by (auto split: option.splits)
  have p0: "p \<noteq> 0"
  proof
    assume "p = 0"
    then have "page_base p = 0" by (simp add: page_base_def)
    then show False using 1(3) z by simp
  qed
  have pT: "p \<notin> T" using 1(2,3) Tl rt(1) by auto
  let ?s0 = "s\<lparr>pfs := (pfs s)\<lparr>fmem := m1\<rparr>, sch := upd_proc p (\<lambda>_. new_sproc) (sch s)\<rparr>"
  let ?s1 = "upd_uproc p (\<lambda>_. zero_uproc (s\<lparr>pfs := (pfs s)\<lparr>fmem := m1\<rparr>\<rparr>)) ?s0"
  have nam1: "names_ok ?s1 T"
  proof -
    have "(\<lambda>q. pidno (uprocs ?s1 q)) ` T = (\<lambda>q. pidno (uprocs s q)) ` T" using pT by (intro image_cong) auto
    moreover have "inj_on (\<lambda>q. pidno (uprocs ?s1 q)) T = inj_on (\<lambda>q. pidno (uprocs s q)) T" using pT by (intro inj_on_cong) auto
    ultimately show ?thesis using nam unfolding names_ok_def by simp
  qed
  obtain i m2 live2 where 2: "get_pid ?s1 = Ok (i, ?s1\<lparr>pid_list := tl (pid_list ?s1), last_pid := (if pid_list ?s1 = [] then last_pid ?s1 + 1 else last_pid ?s1),
      pfs := (pfs ?s1)\<lparr>fmem := m2\<rparr>\<rparr>)" "mem_pages m2 live2 X" "length (free_pages (fmem (pfs ?s1))) \<le> length (free_pages m2)"
    "live2 = insert p live - fst ` set (take 1 (pid_list ?s1))" "1 \<le> i" "i \<le> (if pid_list ?s1 = [] then last_pid ?s1 + 1 else last_pid ?s1)"
    "i \<notin> (\<lambda>q. pidno (uprocs ?s1 q)) ` T" "i \<notin> snd ` set (tl (pid_list ?s1))"
  proof -
    have "T \<noteq> {}" "\<not> pidlock ?s1" "mem_pages (fmem (pfs ?s1)) (insert p live) X" "fst ` set (pid_list ?s1) \<subseteq> insert p live" "distinct (map fst (pid_list ?s1))"
      using fam lk 1(4) pl by (auto simp: family_ok_def locks_free_def)
    from get_pid_spec [OF nam1 this] that show thesis by blast
  qed
  have len2: "3 \<le> length (free_pages m2)" using 2(3) 1(5) four by simp
  let ?v = "(pvm s)\<lparr>vmem := m2\<rparr>"
  obtain pd v' a q where 3: "init_pgdir (raw_section s) ?v = Ok (pd, v')" "mem_pages (vmem v') (insert a live2) (X - {q})" "q \<in> X"
    "length (free_pages m2) \<le> length (free_pages (vmem v')) + 2"
    using init_pgdir_spec [of ?v live2 X "raw_section s"] 2(2) len2 by auto
  then obtain k ps where f: "free_pages (vmem v') = k # ps" using len2 by (cases "free_pages (vmem v')") auto
  obtain m5 where 5: "kalloc_page (vmem v') = Ok (Some k, m5)" "k \<in> X - {q}" "PAGE_SIZE dvd k" "mem_pages m5 (insert a live2) (X - {q} - {k})"
    using kalloc_page_pages [OF 3(2) f] by blast
  have k0: "k \<noteq> 0" using 5(2) z by (metis DiffD1)
  let ?u = "(zero_uproc (s\<lparr>pfs := (pfs s)\<lparr>fmem := m1\<rparr>\<rparr>))\<lparr>pidno := i, pgd := pd, kstack := k, proclock := False\<rparr>"
  obtain s' where s': "create_proc s = Ok (p, s')" "uprocs s' = (uprocs s)(p := ?u)" "sch s' = upd_proc p (\<lambda>_. new_sproc) (sch s)"
    "root_proc s' = root_proc s" "on_cpu s' = on_cpu s" "elock s' = elock s" "pidlock s' = pidlock s" "pid_list s' = tl (pid_list s)"
    "last_pid s' = (if pid_list s = [] then last_pid s + 1 else last_pid s)" "fmem (pfs s') = m5"
    using 1(1) 2(1) 3(1) 5(1)
    by (simp add: create_proc_def with_mem_def init_proc_def Let_def with_vm_def unlock_proc_def release_spinlock_def upd_uproc_def zero_uproc_def)
  have i: "i \<notin> (\<lambda>q. pidno (uprocs s q)) ` T"
  proof -
    have "(\<lambda>q. pidno (uprocs ?s1 q)) ` T = (\<lambda>q. pidno (uprocs s q)) ` T" using pT by (intro image_cong) auto
    then show ?thesis using 2(7) by simp
  qed
  have up: "uprocs s' q = (if q = p then ?u else uprocs s q)" for q by (simp add: s')
  have names: "names_ok s' (insert p T)"
  proof -
    have img: "(\<lambda>q. pidno (uprocs s' q)) ` T = (\<lambda>q. pidno (uprocs s q)) ` T" using pT by (intro image_cong) (auto simp: up)
    have inj: "inj_on (\<lambda>q. pidno (uprocs s' q)) T"
      using nam pT by (simp add: names_ok_def up inj_on_def)
    have pp: "pidno (uprocs s' p) = i" by (simp add: up)
    have sub: "snd ` set (tl (pid_list s)) \<subseteq> snd ` set (pid_list s)" by (cases "pid_list s") auto
    have dis: "distinct (map snd (tl (pid_list s)))" using nam by (auto simp: names_ok_def map_tl distinct_tl)
    have rng: "1 \<le> j \<and> j \<le> last_pid s'" if "j \<in> (\<lambda>q. pidno (uprocs s q)) ` T \<union> snd ` set (pid_list s)" for j
    proof -
      have "1 \<le> j \<and> j \<le> last_pid s" using nam that unfolding names_ok_def by blast
      then show ?thesis by (simp add: s'(9))
    qed
    have rng_i: "1 \<le> i \<and> i \<le> last_pid s'" using 2(5,6) by (simp add: s'(9) split: if_splits)
    have dj: "(\<lambda>q. pidno (uprocs s q)) ` T \<inter> snd ` set (pid_list s) = {}" using nam by (simp add: names_ok_def)
    have fresh_i: "i \<notin> snd ` set (tl (pid_list s))" using 2(8) by simp
    show ?thesis unfolding names_ok_def s'(8) image_insert img pp
    proof (intro conjI)
      show "inj_on (\<lambda>q. pidno (uprocs s' q)) (insert p T)" using inj pp i img pT by (auto simp: inj_on_insert)
      show "distinct (map snd (tl (pid_list s)))" by (rule dis)
      show "insert i ((\<lambda>q. pidno (uprocs s q)) ` T) \<inter> snd ` set (tl (pid_list s)) = {}" using fresh_i dj sub by blast
      show "\<forall>j\<in>insert i ((\<lambda>q. pidno (uprocs s q)) ` T) \<union> snd ` set (tl (pid_list s)). 1 \<le> j \<and> j \<le> last_pid s'"
        using rng rng_i sub by blast
    qed
  qed
  have nd: "fst ` set (tl (pid_list s)) \<subseteq> live - T - fst ` set (take 1 (pid_list s))"
    using pl by (cases "pid_list s") (auto simp: image_iff)
  have mem': "procs_mem s' (insert p T) (insert a live2) (X - {q} - {k})"
    unfolding procs_mem_def s'(4,8,10)
  proof (intro conjI ballI)
    show "mem_pages m5 (insert a live2) (X - {q} - {k})" by (rule 5(4))
    show "insert p T - {root_proc s} \<subseteq> insert a live2"
      using Tl pl(1) 1(2) 2(4) by (cases "pid_list s") auto
    show "fst ` set (tl (pid_list s)) \<subseteq> insert a live2 - insert p T" using nd 1(2) 2(4) by auto
    show "distinct (map fst (tl (pid_list s)))" using pl(2) by (simp add: map_tl distinct_tl)
    show "kstack (uprocs s' r) \<noteq> 0" if "r \<in> insert p T" for r using that ks k0 by (simp add: up) blast
    show "PAGE_SIZE dvd kstack (uprocs s' r)" if "r \<in> insert p T" for r using that ks 5(3) by (simp add: up) blast
    show "kstack (uprocs s' r) \<notin> X - {q} - {k}" if "r \<in> insert p T" for r using that ks by (simp add: up) blast
    show "inj_on (\<lambda>r. kstack (uprocs s' r)) (insert p T)"
    proof -
      have "inj_on (\<lambda>r. kstack (uprocs s' r)) T = inj_on (\<lambda>r. kstack (uprocs s r)) T" using pT by (intro inj_on_cong) (auto simp: up)
      moreover have "kstack (uprocs s r) \<noteq> k" if "r \<in> T" for r using ks [OF that] 5(2) by auto
      ultimately show ?thesis using kinj pT by (auto simp: up inj_on_insert image_iff)
    qed
    show "page_base (root_proc s) \<notin> (X - {q} - {k}) \<union> (\<lambda>r. kstack (uprocs s' r)) ` insert p T"
    proof -
      have "page_base (root_proc s) \<noteq> k" using rt(1) 5(2) by auto
      moreover have "(\<lambda>r. kstack (uprocs s' r)) ` insert p T = insert k ((\<lambda>r. kstack (uprocs s r)) ` T)"
        unfolding image_insert by (intro arg_cong2 [of _ _ _ _ insert] image_cong) (use pT in \<open>auto simp: up\<close>)
      moreover have "page_base (root_proc s) \<notin> (\<lambda>r. kstack (uprocs s r)) ` T" using rt(2) by blast
      ultimately show ?thesis using rt(1) by blast
    qed
    show "0 \<notin> X - {q} - {k}" using z by simp
  qed
  have "parent ?u = 0 \<and> children ?u = [] \<and> childexit ?u = init_sem 0 \<and> \<not> proclock ?u \<and> kstack ?u \<noteq> 0 \<and>
    oftable ?u = init_oftable \<and> pidno ?u = i"
    using k0 by (simp add: zero_uproc_def)
  then show ?thesis using s'(1-8) pT p0 1(2,3) idl i names mem' by (intro exI conjI) auto
qed


section \<open>Joining the tree\<close>

lemma family_outside:
  assumes fam: "family_ok s T" and same: "\<And>q. q \<in> T \<Longrightarrow> parent (uprocs s' q) = parent (uprocs s q) \<and>
      children (uprocs s' q) = children (uprocs s q) \<and> (pstate s' q = ZOMBIE \<longleftrightarrow> pstate s q = ZOMBIE)"
    and r: "root_proc s' = root_proc s"
  shows "family_ok s' T"
proof -
  have pT: "parent (uprocs s q) \<in> T" if "q \<in> T" for q using fam that by (auto simp: family_ok_def)
  have up: "up s' n q = up s n q" if "q \<in> T" for n q
    using that by (induction n arbitrary: q) (simp_all add: up_Suc pT same, simp add: up_def)
  show ?thesis using fam unfolding family_ok_def r by (simp add: same up cong: conj_cong)
qed

lemma names_outside:
  assumes "names_ok s T" and "\<And>q. q \<in> T \<Longrightarrow> pidno (uprocs s' q) = pidno (uprocs s q)"
    and "pid_list s' = pid_list s" and "last_pid s' = last_pid s"
  shows "names_ok s' T"
proof -
  have "(\<lambda>q. pidno (uprocs s' q)) ` T = (\<lambda>q. pidno (uprocs s q)) ` T" using assms(2) by (intro image_cong) auto
  moreover have "inj_on (\<lambda>q. pidno (uprocs s' q)) T = inj_on (\<lambda>q. pidno (uprocs s q)) T" using assms(2) by (intro inj_on_cong) auto
  ultimately show ?thesis using assms(1,3,4) by (simp add: names_ok_def)
qed

text \<open>A child that is ready to be adopted by the running process.\<close>

definition newborn :: "'c psys \<Rightarrow> tid set \<Rightarrow> tid set \<Rightarrow> tid \<Rightarrow> bool" where
  "newborn s T W p \<longleftrightarrow> procs_ok s T W \<and> names_ok s (insert p T) \<and> running s T \<and> W \<subseteq> T \<and> p \<notin> T \<and> p \<noteq> 0 \<and> p \<notin> idles (sch s) \<and>
     children (uprocs s p) = [] \<and> childexit (uprocs s p) = init_sem 0 \<and> \<not> proclock (uprocs s p) \<and>
     kstack (uprocs s p) \<noteq> 0 \<and> pstate s p = UNUSED"

lemma adopted_family:
  assumes fam: "family_ok s T" and p: "p \<notin> T" "p \<noteq> 0" "children (uprocs s p) = []" and th: "this \<in> T" "pstate s this \<noteq> ZOMBIE"
    and s': "uprocs s' = (uprocs s)(p := (uprocs s p)\<lparr>parent := this\<rparr>, this := (uprocs s this)\<lparr>children := p # children (uprocs s this)\<rparr>)"
      "root_proc s' = root_proc s" "sch s' = sch s"
  shows "family_ok s' (insert p T)"
proof -
  have pt: "p \<noteq> this" using p th by auto
  have par: "parent (uprocs s' q) = (if q = p then this else parent (uprocs s q))" for q using pt by (simp add: s')
  have chl: "children (uprocs s' q) = (if q = this then p # children (uprocs s q) else children (uprocs s q))" for q using pt p(3) by (simp add: s')
  have st: "pstate s' q = pstate s q" for q by (simp add: pstate_def s')
  have pT: "parent (uprocs s q) \<in> T" if "q \<in> T" for q using fam that by (auto simp: family_ok_def)
  have up: "up s' n q = up s n q" if "q \<in> T" for n q
    using that
  proof (induction n arbitrary: q)
    case 0
    show ?case by (simp add: up_def)
  next
    case (Suc n)
    then have "q \<noteq> p" using p by auto
    then show ?case using Suc pT by (simp add: up_Suc par)
  qed
  have root: "root_proc s \<in> T" "root_proc s \<noteq> p" using fam p(1) by (auto simp: family_ok_def)
  show ?thesis unfolding family_ok_def s'(2)
  proof (intro conjI ballI impI)
    show "finite (insert p T)" "0 \<notin> insert p T" "root_proc s \<in> insert p T" "parent (uprocs s' (root_proc s)) = root_proc s"
      "pstate s' (root_proc s) \<noteq> ZOMBIE" using fam p(2) root(2) by (auto simp: family_ok_def par st)
    fix q assume q: "q \<in> insert p T"
    have out: "p \<notin> set (children (uprocs s q))" if "q \<in> T" for q using fam p(1) that by (auto simp: family_ok_def)
    have none: "parent (uprocs s c) \<noteq> p" if "c \<in> T" for c using pT [OF that] p(1) by auto
    show "distinct (children (uprocs s' q))" using q fam p(3) out pt by (auto simp: family_ok_def chl)
    show "set (children (uprocs s' q)) = {c \<in> insert p T. c \<noteq> root_proc s \<and> parent (uprocs s' c) = q}"
    proof (cases "q = p")
      case True
      then show ?thesis using p(3) pt none by (auto simp: chl par)
    next
      case False
      then have "set (children (uprocs s q)) = {c \<in> T. c \<noteq> root_proc s \<and> parent (uprocs s c) = q}" using fam q by (auto simp: family_ok_def)
      then show ?thesis using p(1) root False by (auto simp: chl par)
    qed
    show "parent (uprocs s' q) \<in> insert p T" using q pT th(1) by (auto simp: par)
    show "\<exists>n. up s' n q = root_proc s"
    proof (cases "q = p")
      case True
      obtain n where "up s n this = root_proc s" using fam th(1) by (auto simp: family_ok_def)
      then have "up s' (Suc n) q = root_proc s" using True up [OF th(1)] by (simp add: up_Suc par)
      then show ?thesis ..
    next
      case False
      then show ?thesis using fam q up by (auto simp: family_ok_def)
    qed
    assume "pstate s' q = ZOMBIE"
    then show "children (uprocs s' q) = []" using q fam p(3) th(2) pt by (auto simp: family_ok_def chl st)
  qed
qed


definition adopted :: "tid \<Rightarrow> tid \<Rightarrow> 'c psys \<Rightarrow> 'c psys" where
  "adopted this p s = s\<lparr>uprocs := (uprocs s)(p := (uprocs s p)\<lparr>parent := this\<rparr>, this := (uprocs s this)\<lparr>children := p # children (uprocs s this)\<rparr>)\<rparr>"

lemma insert_child_eq:
  assumes "\<not> proclock (uprocs s q)" and "q \<noteq> p"
  shows "insert_child q p (upd_uproc p (\<lambda>u. u\<lparr>parent := q\<rparr>) s) = Ok (adopted q p s)"
proof -
  have e: "(uprocs s q)\<lparr>children := cs, proclock := False\<rparr> = (uprocs s q)\<lparr>children := cs\<rparr>" for cs using assms(1) by (cases "uprocs s q") simp
  show ?thesis using assms
    by (simp add: insert_child_def lock_proc_def unlock_proc_def adopted_def release_spinlock_def) (simp add: upd_uproc_def fun_upd_twist e)
qed

lemma set_parent_to_this_eq:
  assumes "\<not> proclock (uprocs s p)" "\<not> proclock (uprocs s (this_proc s))" "p \<noteq> this_proc s" "parent (uprocs s p) = 0"
  shows "set_parent_to_this p s = Ok (adopted (this_proc s) p s)"
proof -
  have "(uprocs s p)\<lparr>proclock := True, parent := q, proclock := False\<rparr> = (uprocs s p)\<lparr>parent := q\<rparr>" for q using assms(1) by (cases "uprocs s p") simp
  then have "unlock_proc p (upd_uproc p (\<lambda>u. u\<lparr>parent := this_proc s\<rparr>) (upd_uproc p (\<lambda>q. q\<lparr>proclock := True\<rparr>) s)) =
      upd_uproc p (\<lambda>u. u\<lparr>parent := this_proc s\<rparr>) s"
    by (simp add: unlock_proc_def release_spinlock_def upd_uproc_def)
  then show ?thesis using assms insert_child_eq [of s "this_proc s" p]
    by (simp add: set_parent_to_this_def lock_unlock Let_def)
qed

lemma adopted_ok:
  assumes nb: "newborn s T W p"
  shows "procs_ok (adopted (this_proc s) p s) (insert p T) W \<and> running (adopted (this_proc s) p s) (insert p T)"
proof -
  let ?t = "this_proc s" and ?s = "adopted (this_proc s) p s"
  have n: "family_ok s T" "names_ok s (insert p T)" "exits_ok s T W" "locks_free s T" "running s T" "W \<subseteq> T" "p \<notin> T" "p \<noteq> 0"
    "p \<notin> idles (sch s)" "children (uprocs s p) = []" "childexit (uprocs s p) = init_sem 0" "\<not> proclock (uprocs s p)" "pstate s p = UNUSED"
    using nb by (auto simp: newborn_def procs_ok_def)
  have th: "?t \<in> T" "pstate s ?t \<noteq> ZOMBIE" "p \<noteq> ?t" using n(5,7) running_state [OF n(5)] by (auto simp: running_def)
  have f: "sch ?s = sch s" "root_proc ?s = root_proc s" "pid_list ?s = pid_list s" "last_pid ?s = last_pid s" "pidlock ?s = pidlock s"
    "elock ?s = elock s" "on_cpu ?s = on_cpu s" by (simp_all add: adopted_def)
  have u: "uprocs ?s = (uprocs s)(p := (uprocs s p)\<lparr>parent := ?t\<rparr>, ?t := (uprocs s ?t)\<lparr>children := p # children (uprocs s ?t)\<rparr>)"
    by (simp add: adopted_def)
  have fam: "family_ok ?s (insert p T)" by (rule adopted_family [OF n(1,7,8,10) th(1,2) u f(2,1)])
  have nam: "names_ok ?s (insert p T)" using n(2) by (rule names_outside) (auto simp: u f)
  have st: "pstate ?s q = pstate s q" for q by (simp add: pstate_def f)
  have z: "zombies ?s (insert p T) q = zombies s T q" if "q \<noteq> p" for q using n(7,13) th(3) by (auto simp: zombies_def u st f)
  have zp: "zombies ?s (insert p T) p = {}"
  proof -
    have "parent (uprocs s c) \<noteq> p" if "c \<in> T" for c using n(1,7) that by (auto simp: family_ok_def)
    then show ?thesis using n(13) th(3) by (auto simp: zombies_def u st f)
  qed
  have "exits_ok ?s (insert p T) W"
    unfolding exits_ok_def
  proof (intro ballI impI)
    fix q assume q: "q \<in> insert p T" "pstate ?s q \<noteq> ZOMBIE"
    show "counts (childexit (uprocs ?s q)) q W (card (zombies ?s (insert p T) q))"
    proof (cases "q = p")
      case True
      then show ?thesis using zp n(6,7,11) th(3) by (auto simp: counts_def u init_sem_def sem_ok_def)
    next
      case False
      then show ?thesis using q n(3) z by (auto simp: exits_ok_def u st)
    qed
  qed
  moreover have "locks_free ?s (insert p T)" using n(4,12) by (auto simp: locks_free_def u f)
  moreover have "running ?s (insert p T)"
  proof -
    have "this_proc ?s = this_proc s" by (simp add: this_proc_def [of "adopted _ _ _"] adopted_def) (simp add: this_proc_def)
    then show ?thesis using n(5,9) by (simp add: running_def f)
  qed
  ultimately show ?thesis using fam nam by (simp add: procs_ok_def)
qed

text \<open>What \<^verbatim>\<open>start_proc\<close> does to a process that has a parent.\<close>

lemma start_proc_spec:
  assumes ok: "procs_ok s T W" and run: "running s T" and p: "p \<in> T" "parent (uprocs s p) \<noteq> 0" "kstack (uprocs s p) \<noteq> 0" "pstate s p = UNUSED"
  shows "\<exists>t. start_proc p e a s = Ok (pidno (uprocs s p),
      s\<lparr>uprocs := (uprocs s)(p := (uprocs s p)\<lparr>kcontext := (kcontext (uprocs s p))\<lparr>klr := proc_entry, kx0 := e, kx1 := a\<rparr>\<rparr>), sch := t\<rparr>) \<and>
    (let s' = s\<lparr>uprocs := (uprocs s)(p := (uprocs s p)\<lparr>kcontext := (kcontext (uprocs s p))\<lparr>klr := proc_entry, kx0 := e, kx1 := a\<rparr>\<rparr>), sch := t\<rparr>
     in procs_ok s' T W \<and> running s' T \<and> pstate s' p = RUNNABLE \<and> this_proc s' = this_proc s \<and> (\<forall>q. q \<noteq> p \<longrightarrow> pstate s' q = pstate s q))"
proof -
  have fam: "family_ok s T" and nam: "names_ok s T" and ex: "exits_ok s T W" and lk: "locks_free s T" using ok by (simp_all add: procs_ok_def)
  obtain t where t: "activate_proc p False (sch s) = Ok (True, t)" "sched_inv t" "\<not> rqlock t"
    using activate_preserves [of "sch s" p False] run lk p(1,4) fam
    by (auto simp: running_def RQ_SHADOW_def locks_free_def family_ok_def pstate_def)
  note st = activate_states [OF t(1)]
  let ?s = "s\<lparr>uprocs := (uprocs s)(p := (uprocs s p)\<lparr>kcontext := (kcontext (uprocs s p))\<lparr>klr := proc_entry, kx0 := e, kx1 := a\<rparr>\<rparr>), sch := t\<rparr>"
  have eq: "start_proc p e a s = Ok (pidno (uprocs s p), ?s)"
    using p(2,3) t(1) by (simp add: start_proc_def Let_def with_sched_def upd_uproc_def)
  have ps: "pstate ?s q = (if q = p then RUNNABLE else pstate s q)" for q using st by (simp add: pstate_def)
  have same: "same_procs s ?s" using p(4) ps by (auto simp: same_procs_def)
  have th: "this_proc ?s = this_proc s" using st by (simp add: this_proc_def)
  have "\<forall>q. childexit (uprocs ?s q) = childexit (uprocs s q)" by simp
  then have "procs_ok ?s T W" using same_family [OF same fam] same_names [OF same] nam same_exits [OF same] ex lk t(3)
    by (auto simp: procs_ok_def locks_free_def)
  moreover have "running ?s T" using run t(2) th st by (auto simp: running_def idles_def)
  ultimately show ?thesis using eq ps th by (intro exI [of _ t]) (simp add: Let_def)
qed


section \<open>A new process\<close>

lemma sched_inv_new:
  assumes "sched_inv t" and "p \<notin> idles t" and "state (procs t p) \<noteq> RUNNABLE" and "state (procs t p) \<noteq> RUNNING"
  shows "sched_inv (upd_proc p (\<lambda>_. new_sproc) t)"
proof -
  have nc: "thisproc t c \<noteq> p" if "c < NCPU" for c using sched_invD(3) [OF assms(1), of p] assms(4) that by auto
  have ni: "idle t c \<noteq> p" if "c < NCPU" for c using assms(2) that by (auto simp: idles_def)
  have np: "p \<notin> set (rq t)" using sched_invD(2) [OF assms(1), of p] assms(3,4) by simp
  show ?thesis
    unfolding sched_inv_def
  proof (intro conjI allI impI)
    show "(q \<in> set (rq (upd_proc p (\<lambda>_. new_sproc) t))) = (q \<notin> idles (upd_proc p (\<lambda>_. new_sproc) t) \<and>
        (state (procs (upd_proc p (\<lambda>_. new_sproc) t) q) = RUNNABLE \<or> state (procs (upd_proc p (\<lambda>_. new_sproc) t) q) = RUNNING))" for q
      using sched_invD(2) [OF assms(1), of q] np assms(3,4) by (simp add: new_sproc_def idles_def)
    show "(state (procs (upd_proc p (\<lambda>_. new_sproc) t) q) = RUNNING) = (\<exists>c<NCPU. thisproc (upd_proc p (\<lambda>_. new_sproc) t) c = q)" for q
      using sched_invD(3) [OF assms(1), of q] nc by (auto simp: new_sproc_def)
    show "state (procs (upd_proc p (\<lambda>_. new_sproc) t) (idle (upd_proc p (\<lambda>_. new_sproc) t) c)) = RUNNING \<or>
        state (procs (upd_proc p (\<lambda>_. new_sproc) t) (idle (upd_proc p (\<lambda>_. new_sproc) t) c)) = RUNNABLE" if "c < NCPU" for c
      using sched_invD(6) [OF assms(1) that] ni [OF that] by simp
    show "state (procs (upd_proc p (\<lambda>_. new_sproc) t) RQ_SHADOW) \<noteq> RUNNING" using sched_invD(11) [OF assms(1)] by (simp add: new_sproc_def)
  qed (use assms(1) in \<open>simp_all add: sched_inv_def new_sproc_def idles_def\<close>)
qed

lemma procs_ok_cong:
  assumes f: "root_proc s' = root_proc s" "on_cpu s' = on_cpu s" "sch s' = sch s" "pid_list s' = pid_list s" "last_pid s' = last_pid s"
      "pidlock s' = pidlock s" "elock s' = elock s"
    and q: "\<And>q. parent (uprocs s' q) = parent (uprocs s q)" "\<And>q. children (uprocs s' q) = children (uprocs s q)"
      "\<And>q. childexit (uprocs s' q) = childexit (uprocs s q)" "\<And>q. proclock (uprocs s' q) = proclock (uprocs s q)"
      "\<And>q. pidno (uprocs s' q) = pidno (uprocs s q)" "\<And>q. kstack (uprocs s' q) = kstack (uprocs s q)"
  shows "procs_ok s' T W = procs_ok s T W" "running s' T = running s T" "newborn s' T W p = newborn s T W p" "this_proc s' = this_proc s"
proof -
  have p: "pstate s' = pstate s" "this_proc s' = this_proc s" by (simp_all add: pstate_def this_proc_def f fun_eq_iff)
  then show "this_proc s' = this_proc s" by simp
  show 1: "procs_ok s' T W = procs_ok s T W"
    unfolding procs_ok_def exits_ok_def locks_free_def family_ok_def names_ok_def zombies_def up_def f q p ..
  show 2: "running s' T = running s T" unfolding running_def f p ..
  show "newborn s' T W p = newborn s T W p" unfolding newborn_def 1 2 names_ok_def f q p ..
qed

lemma create_newborn:
  assumes ok: "procs_ok s T W" and mem: "procs_mem s T live X" and four: "4 \<le> length (free_pages (fmem (pfs s)))"
    and idl: "\<forall>q\<in>idles (sch s). q \<in> live \<or> page_base q \<notin> X" and run: "running s T" and W: "W \<subseteq> T" and quiet: "outside_quiet s T"
  shows "\<exists>p s' live' X'. create_proc s = Ok (p, s') \<and> newborn s' T W p \<and> parent (uprocs s' p) = 0 \<and> (\<forall>q. q \<noteq> p \<longrightarrow> uprocs s' q = uprocs s q) \<and>
    (\<forall>q. q \<noteq> p \<longrightarrow> pstate s' q = pstate s q) \<and> oftable (uprocs s' p) = init_oftable \<and>
    pidno (uprocs s' p) \<notin> (\<lambda>q. pidno (uprocs s q)) ` T \<and> procs_mem s' (insert p T) live' X' \<and> this_proc s' = this_proc s"
proof -
  from create_proc_spec [OF ok mem four idl] obtain p s' u live' X' where
    c: "create_proc s = Ok (p, s')" "p \<notin> T" "p \<noteq> 0" "p \<notin> idles (sch s)" "uprocs s' = (uprocs s)(p := u)"
      "sch s' = upd_proc p (\<lambda>_. new_sproc) (sch s)" "root_proc s' = root_proc s" "on_cpu s' = on_cpu s" "elock s' = elock s" "pidlock s' = pidlock s"
      "parent u = 0" "children u = []" "childexit u = init_sem 0" "\<not> proclock u" "kstack u \<noteq> 0" "oftable u = init_oftable"
      "pidno u \<notin> (\<lambda>q. pidno (uprocs s q)) ` T" "names_ok s' (insert p T)" "procs_mem s' (insert p T) live' X'" by blast
  have st: "pstate s' q = (if q = p then UNUSED else pstate s q)" for q by (simp add: pstate_def c(6) new_sproc_def)
  have th: "this_proc s' = this_proc s" by (simp add: this_proc_def c(6,8))
  have inT: "uprocs s' q = uprocs s q" "pstate s' q = pstate s q" if "q \<in> T" for q using that c(2) by (auto simp: c(5) st)
  have fam: "family_ok s' T" using ok inT c(7) by (intro family_outside [of s T s']) (auto simp: procs_ok_def)
  have nam: "names_ok s' T" using c(18) by (auto simp: names_ok_def)
  have z: "zombies s' T q = zombies s T q" for q using inT c(7) by (auto simp: zombies_def)
  have ex: "exits_ok s' T W" using ok inT z by (auto simp: procs_ok_def exits_ok_def)
  have lk: "locks_free s' T" using ok inT c(6,9,10) by (auto simp: procs_ok_def locks_free_def)
  have "sched_inv (sch s')" unfolding c(6)
    using quiet c(2,4) run by (intro sched_inv_new) (auto simp: outside_quiet_def pstate_def running_def)
  then have "running s' T" using run th c(6,8) by (simp add: running_def idles_def)
  then have "newborn s' T W p" using fam nam ex lk W c st by (simp add: newborn_def procs_ok_def idles_def)
  then show ?thesis using c st th by (intro exI [of _ p] exI [of _ s'] exI [of _ live'] exI [of _ X']) simp
qed

text \<open>The way \<^verbatim>\<open>kernel_entry\<close> starts a process, and what it leads to.\<close>

lemma start_newborn:
  assumes nb: "newborn s T W p"
  shows "\<exists>s'. start_proc p e a (adopted (this_proc s) p s) = Ok (pidno (uprocs s p), s') \<and> procs_ok s' (insert p T) W \<and> running s' (insert p T) \<and>
    pstate s' p = RUNNABLE \<and> (\<forall>q. q \<noteq> p \<longrightarrow> pstate s' q = pstate s q) \<and>
    uprocs s' = (uprocs s)(this_proc s := (uprocs s (this_proc s))\<lparr>children := p # children (uprocs s (this_proc s))\<rparr>,
      p := (uprocs s p)\<lparr>parent := this_proc s, kcontext := (kcontext (uprocs s p))\<lparr>klr := proc_entry, kx0 := e, kx1 := a\<rparr>\<rparr>)"
proof -
  let ?s = "adopted (this_proc s) p s"
  have n: "this_proc s \<in> T" "p \<notin> T" "this_proc s \<noteq> 0" "kstack (uprocs s p) \<noteq> 0" "pstate s p = UNUSED"
    using nb by (auto simp: newborn_def running_def procs_ok_def family_ok_def)
  then have pt: "p \<noteq> this_proc s" by auto
  have u: "uprocs ?s = (uprocs s)(this_proc s := (uprocs s (this_proc s))\<lparr>children := p # children (uprocs s (this_proc s))\<rparr>, p := (uprocs s p)\<lparr>parent := this_proc s\<rparr>)"
    using pt by (simp add: adopted_def fun_upd_twist)
  have st: "pstate ?s q = pstate s q" for q by (simp add: pstate_def adopted_def)
  have "procs_ok ?s (insert p T) W" "running ?s (insert p T)" "p \<in> insert p T" "parent (uprocs ?s p) \<noteq> 0" "kstack (uprocs ?s p) \<noteq> 0" "pstate ?s p = UNUSED"
    using adopted_ok [OF nb] n pt by (auto simp: u st)
  from start_proc_spec [OF this, of e a] show ?thesis using pt n by (auto simp: u st Let_def fun_upd_twist)
qed


section \<open>fork\<close>

text \<open>Calls into the other layers change the files, the memory and the table of regions only.\<close>

lemma frame_calls:
  "with_vm g s = Ok (x, s') \<Longrightarrow> \<exists>f v. s' = s\<lparr>pfs := f, pvm := v\<rparr>"
  "do_files k s = Ok s' \<Longrightarrow> \<exists>f. s' = s\<lparr>pfs := f\<rparr>"
  "do_inodes j s = Ok s' \<Longrightarrow> \<exists>f. s' = s\<lparr>pfs := f\<rparr>"
  "do_mem m s = Ok s' \<Longrightarrow> \<exists>f. s' = s\<lparr>pfs := f\<rparr>"
proof -
  show "with_vm g s = Ok (x, s') \<Longrightarrow> \<exists>f v. s' = s\<lparr>pfs := f, pvm := v\<rparr>" by (cases s) (auto simp: with_vm_def)
qed (auto simp: do_files_def do_inodes_def do_mem_def)

lemma dup_slots:
  assumes "for_each (dup_slot cur new) js s = Ok s'" and "cur \<noteq> new" and "distinct js" and "\<forall>j\<in>set js. j < length (oftable (uprocs s new))"
  shows "\<exists>f fds. s' = s\<lparr>pfs := f, uprocs := (uprocs s)(new := (uprocs s new)\<lparr>oftable := fds\<rparr>)\<rparr> \<and> length fds = length (oftable (uprocs s new)) \<and>
    (\<forall>j. j < length fds \<longrightarrow> fds ! j = (if j \<in> set js \<and> oftable (uprocs s cur) ! j \<noteq> None then oftable (uprocs s cur) ! j else oftable (uprocs s new) ! j))"
  using assms(1,3,4)
proof (induction js arbitrary: s)
  case Nil
  then show ?case by (intro exI [of _ "pfs s"] exI [of _ "oftable (uprocs s new)"]) simp
next
  case (Cons j js)
  obtain s1 where s1: "dup_slot cur new j s = Ok s1" "for_each (dup_slot cur new) js s1 = Ok s'" using Cons.prems(1) by auto
  obtain f1 fd1 where f1: "s1 = s\<lparr>pfs := f1, uprocs := (uprocs s)(new := (uprocs s new)\<lparr>oftable := fd1\<rparr>)\<rparr>" "length fd1 = length (oftable (uprocs s new))"
    "fd1 = (if oftable (uprocs s cur) ! j \<noteq> None then (oftable (uprocs s new))[j := oftable (uprocs s cur) ! j] else oftable (uprocs s new))"
  proof (cases "oftable (uprocs s cur) ! j")
    case None
    then show thesis using s1(1) by (intro that [of "oftable (uprocs s new)" "pfs s"]) (simp_all add: dup_slot_def)
  next
    case (Some f)
    then obtain t where t: "do_files (file_dup f) s = Ok t" "s1 = upd_uproc new (\<lambda>u. u\<lparr>oftable := (oftable u)[j := Some f]\<rparr>) t"
      using s1(1) by (auto simp: dup_slot_def)
    obtain g where "t = s\<lparr>pfs := g\<rparr>" using frame_calls(2) [OF t(1)] by blast
    then show thesis using t(2) Some by (intro that [of "(oftable (uprocs s new))[j := Some f]" g]) (simp_all add: upd_uproc_def)
  qed
  have cur1: "uprocs s1 cur = uprocs s cur" and new1: "oftable (uprocs s1 new) = fd1" using assms(2) f1(1) by simp_all
  obtain f fds where r: "s' = s1\<lparr>pfs := f, uprocs := (uprocs s1)(new := (uprocs s1 new)\<lparr>oftable := fds\<rparr>)\<rparr>" "length fds = length fd1"
    "\<forall>i. i < length fds \<longrightarrow> fds ! i = (if i \<in> set js \<and> oftable (uprocs s cur) ! i \<noteq> None then oftable (uprocs s cur) ! i else fd1 ! i)"
  proof -
    have "distinct js" "\<forall>i\<in>set js. i < length (oftable (uprocs s1 new))" using Cons.prems(2,3) f1(2) new1 by simp_all
    from Cons.IH [OF s1(2) this] show thesis unfolding cur1 new1 by (elim exE conjE) (rule that)
  qed
  have "s' = s\<lparr>pfs := f, uprocs := (uprocs s)(new := (uprocs s new)\<lparr>oftable := fds\<rparr>)\<rparr>" using r(1) f1(1) by simp
  moreover have "fds ! i = (if i \<in> set (j # js) \<and> oftable (uprocs s cur) ! i \<noteq> None then oftable (uprocs s cur) ! i else oftable (uprocs s new) ! i)"
    if "i < length fds" for i using r(3) that f1(2,3) r(2) Cons.prems(2,3) by (auto simp: nth_list_update_if)
  moreover have "length fds = length (oftable (uprocs s new))" using r(2) f1(2) by simp
  ultimately show ?case by blast
qed

lemma vma_alloc_frame: "vma_alloc_from js s = Ok (w, s') \<Longrightarrow> \<exists>l. s' = s\<lparr>vma_list := l\<rparr>"
proof (induction js arbitrary: s)
  case (Cons j js)
  obtain u where u: "lock_vma j s = Ok u" using Cons.prems by auto
  then obtain l where l: "u = s\<lparr>vma_list := l\<rparr>" by (auto simp: lock_vma_def)
  show ?case
  proof (cases "vlength (vma_list u j) = 0")
    case True
    then show ?thesis using Cons.prems u l by auto
  next
    case False
    then have "vma_alloc_from js (unlock_vma j u) = Ok (w, s')" using Cons.prems u by simp
    from Cons.IH [OF this] show ?thesis by (auto simp: l unlock_vma_def)
  qed
qed simp

lemma copy_region_frame:
  assumes "copy_region new pre v s = Ok (w, s')"
  shows "\<exists>f l. s' = s\<lparr>pfs := f, vma_list := l, uprocs := (uprocs s)(new := (uprocs s new)\<lparr>pvma := (if pre = None then Some w else pvma (uprocs s new))\<rparr>)\<rparr>"
proof -
  obtain a where a: "vma_alloc s = Ok (w, a)" using assms by (auto simp: copy_region_def Let_def)
  define b where "b = upd_vma w (\<lambda>r. (vma_list a v)\<lparr>vnext := vnext r, vlock := vlock r\<rparr>) a"
  obtain t where t: "do_files (file_dup (vfile (vma_list b w))) b = Ok t"
    "s' = unlock_vma w (case pre of None \<Rightarrow> upd_uproc new (\<lambda>u. u\<lparr>pvma := Some w\<rparr>) (upd_vma w (\<lambda>r. r\<lparr>vnext := None\<rparr>) t)
       | Some q \<Rightarrow> upd_vma q (\<lambda>r. r\<lparr>vnext := Some w\<rparr>) (upd_vma w (\<lambda>r. r\<lparr>vnext := None\<rparr>) t))"
    using assms a unfolding b_def by (auto simp: copy_region_def Let_def)
  obtain l where l: "a = s\<lparr>vma_list := l\<rparr>" using vma_alloc_frame [of _ s w a] a by (auto simp: vma_alloc_def)
  obtain g where g: "t = b\<lparr>pfs := g\<rparr>" using frame_calls(2) [OF t(1)] by blast
  have id: "(uprocs s)(new := (uprocs s new)\<lparr>pvma := pvma (uprocs s new)\<rparr>) = uprocs s" by simp
  show ?thesis
  proof (cases pre)
    case None
    then show ?thesis
      by (intro exI [of _ g] exI [of _ "vma_list s'"]) (simp add: t(2) g b_def l upd_vma_def unlock_vma_def upd_uproc_def)
  next
    case (Some q)
    then show ?thesis
      by (intro exI [of _ g] exI [of _ "vma_list s'"]) (simp add: t(2) g b_def l upd_vma_def unlock_vma_def id)
  qed
qed

lemma copy_regions_frame:
  assumes "copy_regions n new pre v s = Ok s'"
  shows "\<exists>f l. s' = s\<lparr>pfs := f, vma_list := l, uprocs := (uprocs s)(new := (uprocs s new)\<lparr>pvma := pvma (uprocs s' new)\<rparr>)\<rparr> \<and>
    (pvma (uprocs s' new) = (if pre = None then pvma (uprocs s' new) else pvma (uprocs s new))) \<and>
    (pre = None \<longrightarrow> pvma (uprocs s new) = None \<longrightarrow> (pvma (uprocs s' new) = None \<longleftrightarrow> v = None))"
  using assms
proof (induction n new pre v s rule: copy_regions.induct)
  case (2 n new pre v s)
  show ?case
  proof (cases v)
    case None
    then have "s' = s" using "2.prems" by (simp add: copy_regions.simps)
    then show ?thesis using None by (intro exI [of _ "pfs s"] exI [of _ "vma_list s"]) simp
  next
    case (Some r)
    obtain w s1 where s1: "copy_region new pre r s = Ok (w, s1)" "copy_regions n new (Some w) (vnext (vma_list s1 r)) s1 = Ok s'"
      using "2.prems" Some by (auto simp: copy_regions.simps)
    obtain f l where f: "s1 = s\<lparr>pfs := f, vma_list := l, uprocs := (uprocs s)(new := (uprocs s new)\<lparr>pvma := (if pre = None then Some w else pvma (uprocs s new))\<rparr>)\<rparr>"
      using copy_region_frame [OF s1(1)] by blast
    obtain g k where g: "s' = s1\<lparr>pfs := g, vma_list := k, uprocs := (uprocs s1)(new := (uprocs s1 new)\<lparr>pvma := pvma (uprocs s' new)\<rparr>)\<rparr>"
      "pvma (uprocs s' new) = pvma (uprocs s1 new)" 
      using "2.IH" [OF Some s1(1) refl s1(2)] by (elim exE conjE) (rule that, assumption, simp)
    have p: "pvma (uprocs s' new) = (if pre = None then Some w else pvma (uprocs s new))" using g(2) by (simp add: f)
    have e: "s' = s\<lparr>pfs := g, vma_list := k, uprocs := (uprocs s)(new := (uprocs s new)\<lparr>pvma := pvma (uprocs s' new)\<rparr>)\<rparr>"
      by (subst g(1)) (simp add: f)
    have c: "pvma (uprocs s' new) = (if pre = None then pvma (uprocs s' new) else pvma (uprocs s new)) \<and>
      (pre = None \<longrightarrow> pvma (uprocs s new) = None \<longrightarrow> (pvma (uprocs s' new) = None \<longleftrightarrow> v = None))" using p Some by simp
    show ?thesis by (rule exI [of _ g], rule exI [of _ k], rule conjI, rule e, rule c)
  qed
qed (simp add: copy_regions.simps)

text \<open>The new process as \<^verbatim>\<open>fork\<close> leaves it.\<close>

definition forked :: "'c psys \<Rightarrow> 'c psys \<Rightarrow> tid \<Rightarrow> bool" where
  "forked s s' p \<longleftrightarrow> (let this = this_proc s; u = uprocs s' p in
     parent u = this \<and> ucontext u = (ucontext (uprocs s this))\<lparr>ux := (ux (ucontext (uprocs s this)))[0 := 0]\<rparr> \<and>
     (\<forall>j<OPENFILE. oftable u ! j = oftable (uprocs s this) ! j) \<and> cwd u = cwd (uprocs s this) \<and>
     (pvma u = None \<longleftrightarrow> pvma (uprocs s this) = None) \<and> klr (kcontext u) = proc_entry \<and> kx0 (kcontext u) = trap_return \<and>
     uprocs s' this = (uprocs s this)\<lparr>children := p # children (uprocs s this)\<rparr> \<and>
     (\<forall>q. q \<noteq> p \<and> q \<noteq> this \<longrightarrow> uprocs s' q = uprocs s q))"

lemma fork_fails:
  assumes nb: "newborn s T W p" and l: "lock_proc p s = Ok s1" and k: "do_mem m s1 = Ok s2"
  shows "procs_ok (unlock_proc p (s2\<lparr>sch := upd_proc p (\<lambda>q. q\<lparr>state := UNUSED\<rparr>) (sch s2)\<rparr>)) T W"
proof -
  have s1: "s1 = upd_uproc p (\<lambda>q. q\<lparr>proclock := True\<rparr>) s" using l by (auto simp: lock_proc_def)
  obtain f where s2: "s2 = s1\<lparr>pfs := f\<rparr>" using frame_calls(4) [OF k] by blast
  have "(procs (sch s) p)\<lparr>state := UNUSED\<rparr> = procs (sch s) p" using nb by (cases "procs (sch s) p") (simp add: newborn_def pstate_def)
  then have sch: "upd_proc p (\<lambda>q. q\<lparr>state := UNUSED\<rparr>) (sch s) = sch s" by (simp add: upd_proc_def fun_upd_idem)
  have l: "\<not> proclock (uprocs s p)" "procs_ok s T W" using nb by (simp_all add: newborn_def)
  let ?s = "unlock_proc p (s2\<lparr>sch := upd_proc p (\<lambda>q. q\<lparr>state := UNUSED\<rparr>) (sch s2)\<rparr>)"
  have "procs_ok ?s T W = procs_ok s T W"
    by (rule procs_ok_cong) (use l(1) in \<open>auto simp: unlock_proc_def s2 s1 sch release_spinlock_def\<close>)
  then show ?thesis using l(2) by simp
qed

lemma fork_succeeds:
  assumes nb: "newborn s1 T W p" and th: "this_proc s1 = this_proc s" and out: "\<forall>q. q \<noteq> p \<longrightarrow> uprocs s1 q = uprocs s q"
    and oft: "oftable (uprocs s1 p) = init_oftable"
    and u: "with_vm g s1 = Ok (Some npd, s2)"
    and rest: "fork_child bc cur p npd s2 = Ok (i, s')"
    and cur: "cur = this_proc s"
  shows "i = pidno (uprocs s1 p) \<and> procs_ok s' (insert p T) W \<and> running s' (insert p T) \<and> pstate s' p = RUNNABLE \<and> pidno (uprocs s' p) = i \<and> forked s s' p"
proof -
  obtain f2 v2 where s2: "s2 = s1\<lparr>pfs := f2, pvm := v2\<rparr>" using frame_calls(1) [OF u] by blast
  have n: "p \<noteq> cur" "\<not> proclock (uprocs s1 cur)" "cur \<in> T" "p \<notin> T" "cur \<noteq> 0"
    using nb th by (auto simp: newborn_def running_def procs_ok_def locks_free_def family_ok_def cur)
  define a where "a = adopted cur p (upd_uproc p (\<lambda>u. u\<lparr>pgd := npd\<rparr>) s2)"
  have up: "upd_uproc p (\<lambda>u. u\<lparr>pgd := npd, parent := cur\<rparr>) s2 = upd_uproc p (\<lambda>u. u\<lparr>parent := cur\<rparr>) (upd_uproc p (\<lambda>u. u\<lparr>pgd := npd\<rparr>) s2)"
    by (simp add: upd_uproc_def)
  have "insert_child cur p (upd_uproc p (\<lambda>u. u\<lparr>pgd := npd, parent := cur\<rparr>) s2) = Ok a"
    unfolding up a_def by (rule insert_child_eq) (use n s2 in auto)
  note r = rest [unfolded fork_child_def this]
  have ua: "uprocs a = (uprocs s1)(p := (uprocs s1 p)\<lparr>pgd := npd, parent := cur\<rparr>, cur := (uprocs s1 cur)\<lparr>children := p # children (uprocs s1 cur)\<rparr>)"
    using n(1) by (simp add: a_def adopted_def s2 fun_upd_twist)
  define b where "b = upd_uproc p (\<lambda>u. u\<lparr>ucontext := (ucontext (uprocs a cur))\<lparr>ux := (ux (ucontext (uprocs a cur)))[0 := 0]\<rparr>\<rparr>) a"
  obtain ip b1 where b1: "cwd (uprocs b cur) = Some ip" "do_inodes (\<lambda>t. Ok (it_share (inodes bc) ip t)) b = Ok b1"
    and r1: "andthen (for_each (dup_slot cur p) [0..<OPENFILE] (upd_uproc p (\<lambda>u. u\<lparr>cwd := Some ip\<rparr>) b1)) (\<lambda>s.
        andthen (copy_regions (NVMA + 2) p None (pvma (uprocs s cur)) (upd_uproc p (\<lambda>u. u\<lparr>pvma := None\<rparr>) s)) (\<lambda>t.
        andthen (start_proc p trap_return 0 t) (\<lambda>(_, t). Ok (pidno (uprocs s p), t)))) = Ok (i, s')"
    using r unfolding b_def by (auto simp: Let_def split: if_splits option.splits)
  obtain g1 where g1: "b1 = b\<lparr>pfs := g1\<rparr>" using frame_calls(3) [OF b1(2)] by blast
  define c where "c = upd_uproc p (\<lambda>u. u\<lparr>cwd := Some ip\<rparr>) b1"
  obtain c1 where c1: "for_each (dup_slot cur p) [0..<OPENFILE] c = Ok c1"
    and r2: "andthen (copy_regions (NVMA + 2) p None (pvma (uprocs c1 cur)) (upd_uproc p (\<lambda>u. u\<lparr>pvma := None\<rparr>) c1)) (\<lambda>t.
        andthen (start_proc p trap_return 0 t) (\<lambda>(_, t). Ok (pidno (uprocs c1 p), t))) = Ok (i, s')"
    using r1 unfolding c_def by auto
  have oc: "oftable (uprocs c p) = init_oftable" using n(1) oft by (simp add: c_def g1 b_def ua)
  have len: "length (init_oftable) = OPENFILE" by (simp add: init_oftable_def)
  obtain g2 fds where g2: "c1 = c\<lparr>pfs := g2, uprocs := (uprocs c)(p := (uprocs c p)\<lparr>oftable := fds\<rparr>)\<rparr>" "length fds = OPENFILE"
    "\<forall>j. j < length fds \<longrightarrow> fds ! j = (if j \<in> set [0..<OPENFILE] \<and> oftable (uprocs c cur) ! j \<noteq> None then oftable (uprocs c cur) ! j else oftable (uprocs c p) ! j)"
    using dup_slots [OF c1] n(1) unfolding oc len by auto
  have fds: "fds ! j = oftable (uprocs s1 cur) ! j" if "j < OPENFILE" for j
    using g2(2,3) that n(1) oc by (auto simp: c_def g1 b_def ua init_oftable_def)
  define d where "d = upd_uproc p (\<lambda>u. u\<lparr>pvma := None\<rparr>) c1"
  obtain d1 j where d1: "copy_regions (NVMA + 2) p None (pvma (uprocs c1 cur)) d = Ok d1" and st: "start_proc p trap_return 0 d1 = Ok (j, s')" and i: "i = pidno (uprocs c1 p)"
    using r2 unfolding d_def by auto
  define ws where "ws = pvma (uprocs d1 p)"
  obtain g3 l where g3: "d1 = d\<lparr>pfs := g3, vma_list := l, uprocs := (uprocs d)(p := (uprocs d p)\<lparr>pvma := ws\<rparr>)\<rparr>"
    "ws = None \<longleftrightarrow> pvma (uprocs c1 cur) = None" using copy_regions_frame [OF d1] unfolding ws_def [symmetric] by (auto simp: d_def)
  let ?a = "adopted cur p s1"
  have ud: "uprocs d1 q = (if q = p then (uprocs s1 p)\<lparr>pgd := npd, parent := cur,
      ucontext := (ucontext (uprocs s1 cur))\<lparr>ux := (ux (ucontext (uprocs s1 cur)))[0 := 0]\<rparr>, cwd := Some ip, oftable := fds, pvma := ws\<rparr>
      else uprocs ?a q)" for q
    using n(1) by (simp add: g3 d_def g2(1) c_def g1 b_def ua adopted_def)
  have fd: "root_proc d1 = root_proc ?a" "on_cpu d1 = on_cpu ?a" "sch d1 = sch ?a" "pid_list d1 = pid_list ?a" "last_pid d1 = last_pid ?a"
    "pidlock d1 = pidlock ?a" "elock d1 = elock ?a"
    by (simp_all add: g3 d_def g2(1) c_def g1 b_def a_def s2 adopted_def)
  have uq: "parent (uprocs d1 q) = parent (uprocs ?a q)" "children (uprocs d1 q) = children (uprocs ?a q)"
    "childexit (uprocs d1 q) = childexit (uprocs ?a q)" "proclock (uprocs d1 q) = proclock (uprocs ?a q)"
    "pidno (uprocs d1 q) = pidno (uprocs ?a q)" "kstack (uprocs d1 q) = kstack (uprocs ?a q)" for q
    using n(1) by (simp_all add: ud) (simp_all add: adopted_def)
  note cong = procs_ok_cong [of d1 ?a, OF fd uq]
  have ok: "procs_ok d1 (insert p T) W" "running d1 (insert p T)" using adopted_ok [OF nb] th by (simp_all add: cong cur)
  have "kstack (uprocs d1 p) \<noteq> 0" "pstate d1 p = UNUSED" "parent (uprocs d1 p) \<noteq> 0"
    using nb n(5) fd(3) by (simp_all add: ud newborn_def pstate_def adopted_def)
  from start_proc_spec [OF ok _ this(3,1,2), of trap_return 0] obtain t where
    s': "s' = d1\<lparr>uprocs := (uprocs d1)(p := (uprocs d1 p)\<lparr>kcontext := (kcontext (uprocs d1 p))\<lparr>klr := proc_entry, kx0 := trap_return, kx1 := 0\<rparr>\<rparr>), sch := t\<rparr>"
    and fin: "procs_ok s' (insert p T) W" "running s' (insert p T)" "pstate s' p = RUNNABLE"
    using st by (auto simp: Let_def)
  have pid: "pidno (uprocs c1 p) = pidno (uprocs s1 p)" using n(1) by (simp add: g2(1) c_def g1 b_def ua)
  have s1cur: "uprocs s1 cur = uprocs s cur" using out n(1) by simp
  have cw: "cwd (uprocs s cur) = Some ip" using b1(1) n(1) s1cur by (simp add: b_def ua)
  have pv: "ws = None \<longleftrightarrow> pvma (uprocs s cur) = None" using g3(2) n(1) s1cur by (simp add: g2(1) c_def g1 b_def ua)
  have "forked s s' p"
    unfolding forked_def Let_def cur [symmetric]
  proof (intro conjI allI impI)
    show "uprocs s' q = uprocs s q" if "q \<noteq> p \<and> q \<noteq> cur" for q using that out by (simp add: s' ud adopted_def)
    show "uprocs s' cur = (uprocs s cur)\<lparr>children := p # children (uprocs s cur)\<rparr>" using n(1) s1cur by (simp add: s' ud adopted_def)
    show "oftable (uprocs s' p) ! k = oftable (uprocs s cur) ! k" if "k < OPENFILE" for k using fds [OF that] s1cur by (simp add: s' ud)
  qed (use s1cur cw pv in \<open>simp_all add: s' ud\<close>)
  moreover have "pidno (uprocs s' p) = pidno (uprocs s1 p)" by (simp add: s' ud)
  ultimately show ?thesis using fin i pid by simp
qed

lemma fork_spec:
  assumes ok: "procs_ok s T W" and mem: "procs_mem s T live X" and four: "4 \<le> length (free_pages (fmem (pfs s)))"
    and idl: "\<forall>q\<in>idles (sch s). q \<in> live \<or> page_base q \<notin> X" and run: "running s T" and W: "W \<subseteq> T" and quiet: "outside_quiet s T"
    and f: "fork bc s = Ok (i, s')"
  shows "(i = - 1 \<and> procs_ok s' T W) \<or>
    (\<exists>p. p \<notin> T \<and> 1 \<le> i \<and> i \<notin> (\<lambda>q. pidno (uprocs s q)) ` T \<and> pidno (uprocs s' p) = i \<and>
      procs_ok s' (insert p T) W \<and> running s' (insert p T) \<and> pstate s' p = RUNNABLE \<and> forked s s' p)"
proof -
  from create_newborn [OF ok mem four idl run W quiet] obtain p s1 where
    c: "create_proc s = Ok (p, s1)" "newborn s1 T W p" "parent (uprocs s1 p) = 0" "\<forall>q. q \<noteq> p \<longrightarrow> uprocs s1 q = uprocs s q"
      "oftable (uprocs s1 p) = init_oftable" "pidno (uprocs s1 p) \<notin> (\<lambda>q. pidno (uprocs s q)) ` T" "this_proc s1 = this_proc s" by blast
  obtain npd s2 where u: "with_vm (uvmcopy (raw_section s1) (pgd (uprocs s1 (this_proc s)))) s1 = Ok (npd, s2)"
    using f c(1) by (auto simp: fork_def Let_def)
  show ?thesis
  proof (cases npd)
    case None
    obtain f2 v2 where s2: "s2 = s1\<lparr>pfs := f2, pvm := v2\<rparr>" using frame_calls(1) [OF u] by blast
    have "newborn s2 T W p = newborn s1 T W p" by (rule procs_ok_cong) (simp_all add: s2)
    then have nb: "newborn s2 T W p" using c(2) by simp
    obtain s3 s4 where "lock_proc p s2 = Ok s3" "do_mem (kfree (if kstack (uprocs s3 p) = 0 then None else Some (kstack (uprocs s3 p)))) s3 = Ok s4"
      "i = - 1" "s' = unlock_proc p (s4\<lparr>sch := upd_proc p (\<lambda>q. q\<lparr>state := UNUSED\<rparr>) (sch s4)\<rparr>)"
      using f c(1) u None by (auto simp: fork_def Let_def)
    then show ?thesis using fork_fails [OF nb] by blast
  next
    case (Some pd)
    have "i = pidno (uprocs s1 p) \<and> procs_ok s' (insert p T) W \<and> running s' (insert p T) \<and> pstate s' p = RUNNABLE \<and> pidno (uprocs s' p) = i \<and> forked s s' p"
      by (rule fork_succeeds [OF c(2,7,4,5) u [unfolded Some] _ refl, of bc]) (use f c(1) u Some in \<open>simp add: fork_def\<close>)
    moreover have "1 \<le> pidno (uprocs s1 p)" "p \<notin> T" using c(2) by (auto simp: newborn_def names_ok_def)
    ultimately show ?thesis using c(6) by (intro disjI2 exI [of _ p]) simp
  qed
qed

end
