(* ===== verification/RBTree.thy ===== *)
theory RBTree
  imports Prelude
begin

text \<open>
  \<^verbatim>\<open>src/common/rbtree.c\<close>: red-black trees of nodes that are linked by pointers.  A node is its
  address, \<open>0\<close> is \<^verbatim>\<open>NULL\<close>; the word \<^verbatim>\<open>__rb_parent_color\<close> is the parent's address with the colour in
  its lowest bit, which is zero in the address of a node (nodes are aligned to eight bytes), so
  that the two are separate fields here.  The branches of the code for the two sides are mirror
  images: \<open>d\<close> says which side is meant, \<open>True\<close> for the left one.  The loops carry a bound on
  their rounds.
\<close>

record rb_node =
  rbparent :: nat
  rbblack :: bool
  rbleft :: nat
  rbright :: nat

record rb_tree =
  rnode :: "nat \<Rightarrow> rb_node"
  rroot :: nat

definition RB_RED :: bool where "RB_RED = False"

definition RB_BLACK :: bool where "RB_BLACK = True"

section \<open>Access\<close>

definition rb_child :: "bool \<Rightarrow> rb_tree \<Rightarrow> nat \<Rightarrow> nat" where
  "rb_child d t a = (if d then rbleft (rnode t a) else rbright (rnode t a))"

definition set_child :: "bool \<Rightarrow> nat \<Rightarrow> nat \<Rightarrow> rb_tree \<Rightarrow> rb_tree" where
  "set_child d a x t =
     t\<lparr>rnode := (rnode t)(a := (if d then (rnode t a)\<lparr>rbleft := x\<rparr> else (rnode t a)\<lparr>rbright := x\<rparr>))\<rparr>"

definition rb_parent :: "rb_tree \<Rightarrow> nat \<Rightarrow> nat" where
  "rb_parent t a = rbparent (rnode t a)"

definition rb_is_black :: "rb_tree \<Rightarrow> nat \<Rightarrow> bool" where
  "rb_is_black t a = rbblack (rnode t a)"

definition rb_is_red :: "rb_tree \<Rightarrow> nat \<Rightarrow> bool" where
  "rb_is_red t a \<longleftrightarrow> \<not> rbblack (rnode t a)"

definition rb_set_parent_color :: "nat \<Rightarrow> nat \<Rightarrow> bool \<Rightarrow> rb_tree \<Rightarrow> rb_tree" where
  "rb_set_parent_color a p color t = t\<lparr>rnode := (rnode t)(a := (rnode t a)\<lparr>rbparent := p, rbblack := color\<rparr>)\<rparr>"

definition rb_set_parent :: "nat \<Rightarrow> nat \<Rightarrow> rb_tree \<Rightarrow> rb_tree" where
  "rb_set_parent a p t = t\<lparr>rnode := (rnode t)(a := (rnode t a)\<lparr>rbparent := p\<rparr>)\<rparr>"

definition rb_set_black :: "nat \<Rightarrow> rb_tree \<Rightarrow> rb_tree" where
  "rb_set_black a t = t\<lparr>rnode := (rnode t)(a := (rnode t a)\<lparr>rbblack := RB_BLACK\<rparr>)\<rparr>"

definition rb_change_child :: "nat \<Rightarrow> nat \<Rightarrow> nat \<Rightarrow> rb_tree \<Rightarrow> rb_tree" where
  "rb_change_child old new parent t =
     (if parent \<noteq> 0
      then if rb_child True t parent = old then set_child True parent new t else set_child False parent new t
      else t\<lparr>rroot := new\<rparr>)"

text \<open>The word with parent and colour is copied from the old node to the new one.\<close>

definition rb_copy_parent_color :: "nat \<Rightarrow> nat \<Rightarrow> rb_tree \<Rightarrow> rb_tree" where
  "rb_copy_parent_color old new t = rb_set_parent_color new (rb_parent t old) (rb_is_black t old) t"

definition rb_rotate_set_parents :: "nat \<Rightarrow> nat \<Rightarrow> bool \<Rightarrow> rb_tree \<Rightarrow> rb_tree" where
  "rb_rotate_set_parents old new color t =
     (let parent = rb_parent t old
      in rb_change_child old new parent (rb_set_parent_color old new color (rb_copy_parent_color old new t)))"

section \<open>Insertion\<close>

text \<open>Cases 2 and 3: the uncle is black, and one or two rotations end the loop.\<close>

definition insert_rotate :: "bool \<Rightarrow> nat \<Rightarrow> nat \<Rightarrow> nat \<Rightarrow> rb_tree \<Rightarrow> rb_tree" where
  "insert_rotate d node parent gparent t =
     (let tmp = rb_child (\<not> d) t parent;
          (parent, tmp, t) =
            (if node = tmp
             then let tmp = rb_child d t node;
                      t = set_child (\<not> d) parent tmp t;
                      t = (if tmp \<noteq> 0 then rb_set_parent_color tmp parent RB_BLACK t else t);
                      t = set_child d node parent t;
                      t = rb_set_parent_color parent node RB_RED t
                  in (node, rb_child (\<not> d) t node, t)
             else (parent, tmp, t));
          t = set_child d gparent tmp t;
          t = (if tmp \<noteq> 0 then rb_set_parent_color tmp gparent RB_BLACK t else t);
          t = set_child (\<not> d) parent gparent t
      in rb_rotate_set_parents gparent parent RB_RED t)"

fun insert_fix_loop :: "nat \<Rightarrow> nat \<Rightarrow> nat \<Rightarrow> rb_tree \<Rightarrow> rb_tree outcome" where
  "insert_fix_loop 0 node parent t = Blocked"
| "insert_fix_loop (Suc n) node parent t =
     (if parent = 0 then Ok ((rb_set_parent_color node 0 RB_BLACK t)\<lparr>rroot := node\<rparr>)
      else if rb_is_black t parent then Ok t
      else let gparent = rb_parent t parent
           in if gparent = 0 then Undef
              else let d = (parent \<noteq> rb_child False t gparent);
                       uncle = rb_child (\<not> d) t gparent
                   in if uncle \<noteq> 0 \<and> rb_is_red t uncle
                      then let t = rb_set_parent_color uncle gparent RB_BLACK t;
                               t = rb_set_parent_color parent gparent RB_BLACK t;
                               parent = rb_parent t gparent;
                               t = rb_set_parent_color gparent parent RB_RED t
                           in insert_fix_loop n gparent parent t
                      else Ok (insert_rotate d node parent gparent t))"

definition rb_insert_fix :: "nat \<Rightarrow> nat \<Rightarrow> rb_tree \<Rightarrow> rb_tree outcome" where
  "rb_insert_fix n node t = insert_fix_loop n node (rb_parent t node) t"

text \<open>The descent of \<^verbatim>\<open>_rb_insert\<close>: \<open>False\<close> when an equal node is there.\<close>

definition link_node :: "bool \<Rightarrow> nat \<Rightarrow> nat \<Rightarrow> rb_tree \<Rightarrow> rb_tree" where
  "link_node d parent node t = rb_set_parent_color node parent RB_RED (set_child d parent node t)"

fun insert_loop :: "nat \<Rightarrow> (nat \<Rightarrow> nat \<Rightarrow> bool) \<Rightarrow> nat \<Rightarrow> nat \<Rightarrow> rb_tree \<Rightarrow> (bool \<times> rb_tree) outcome" where
  "insert_loop 0 cmp node nw t = Blocked"
| "insert_loop (Suc n) cmp node nw t =
     (if nw = 0 then Ok (True, t)
      else let parent = nw
           in if cmp node nw
              then let nw = rb_child True t nw
                   in insert_loop n cmp node nw (if nw = 0 then link_node True parent node t else t)
              else if cmp nw node
              then let nw = rb_child False t nw
                   in insert_loop n cmp node nw (if nw = 0 then link_node False parent node t else t)
              else Ok (False, t))"

definition rb_insert :: "nat \<Rightarrow> nat \<Rightarrow> (nat \<Rightarrow> nat \<Rightarrow> bool) \<Rightarrow> rb_tree \<Rightarrow> (int \<times> rb_tree) outcome" where
  "rb_insert n node cmp t =
     (let nw = rroot t;
          t = t\<lparr>rnode := (rnode t)(node := \<lparr>rbparent = 0, rbblack = RB_RED, rbleft = 0, rbright = 0\<rparr>)\<rparr>
      in andthen (insert_loop n cmp node nw t) (\<lambda>(new, t).
         if \<not> new then Ok (- 1, t)
         else andthen (rb_insert_fix n node t) (\<lambda>t. Ok (0, t))))"

section \<open>Removal\<close>

text \<open>The loop that looks for the successor: the parent and the successor.\<close>

fun find_successor :: "nat \<Rightarrow> nat \<Rightarrow> nat \<Rightarrow> rb_tree \<Rightarrow> (nat \<times> nat) outcome" where
  "find_successor 0 successor tmp t = Blocked"
| "find_successor (Suc n) successor tmp t =
     (let parent = successor; successor = tmp; tmp = rb_child True t tmp
      in if tmp \<noteq> 0 then find_successor n successor tmp t else Ok (parent, successor))"

text \<open>A node with two children is replaced by its successor; the result is the node to rebalance at.\<close>

definition erase_inner :: "nat \<Rightarrow> nat \<Rightarrow> nat \<Rightarrow> rb_tree \<Rightarrow> (nat \<times> rb_tree) outcome" where
  "erase_inner n node child t =
     (let tmp = rb_child True t child
      in andthen
        (if tmp = 0 then Ok (child, child, rb_child False t child, t)
         else andthen (find_successor n child tmp t) (\<lambda>(parent, successor).
              let child2 = rb_child False t successor;
                  t = set_child True parent child2 t;
                  t = set_child False successor child t;
                  t = rb_set_parent child successor t
              in Ok (parent, successor, child2, t))) (\<lambda>(parent, successor, child2, t).
        let tmp = rb_child True t node;
            t = set_child True successor tmp t;
            t = rb_set_parent tmp successor t;
            t = rb_change_child node successor (rb_parent t node) t
        in if child2 \<noteq> 0
           then Ok (0, rb_set_parent_color child2 parent RB_BLACK (rb_copy_parent_color node successor t))
           else let black = rb_is_black t successor
                in Ok (if black then parent else 0, rb_copy_parent_color node successor t)))"

definition rb_erase_node :: "nat \<Rightarrow> nat \<Rightarrow> rb_tree \<Rightarrow> (nat \<times> rb_tree) outcome" where
  "rb_erase_node n node t =
     (let child = rb_child False t node; tmp = rb_child True t node; parent = rb_parent t node
      in if tmp = 0
         then let t' = rb_change_child node child parent t
              in if child \<noteq> 0 then Ok (0, rb_set_parent_color child parent (rb_is_black t node) t')
                 else Ok (if rb_is_black t node then parent else 0, t')
         else if child = 0
         then Ok (0, rb_change_child node tmp parent (rb_copy_parent_color node tmp t))
         else erase_inner n node child t)"

text \<open>Case 1 of \<^verbatim>\<open>__rb_erase_fix\<close>: a red sibling goes up; the result is the new sibling.\<close>

definition erase_red_sibling :: "bool \<Rightarrow> nat \<Rightarrow> nat \<Rightarrow> rb_tree \<Rightarrow> (nat \<times> rb_tree) outcome" where
  "erase_red_sibling d parent sibling t =
     (let tmp1 = rb_child d t sibling;
          t = set_child (\<not> d) parent tmp1 t
      in if tmp1 = 0 then Undef
         else let t = rb_set_parent_color tmp1 parent RB_BLACK t;
                  t = set_child d sibling parent t
              in Ok (tmp1, rb_rotate_set_parents parent sibling RB_RED t))"

text \<open>Case 3: the inner child of the sibling takes its place.\<close>

definition erase_inner_red :: "bool \<Rightarrow> nat \<Rightarrow> nat \<Rightarrow> nat \<Rightarrow> rb_tree \<Rightarrow> rb_tree" where
  "erase_inner_red d parent sibling tmp2 t =
     (let tmp1 = rb_child (\<not> d) t tmp2;
          t = set_child d sibling tmp1 t;
          t = (if tmp1 \<noteq> 0 then rb_set_parent_color tmp1 sibling RB_BLACK t else t);
          t = set_child (\<not> d) tmp2 sibling t
      in set_child (\<not> d) parent tmp2 t)"

text \<open>Case 4: the last rotation.\<close>

definition erase_rotate :: "bool \<Rightarrow> nat \<Rightarrow> nat \<Rightarrow> nat \<Rightarrow> rb_tree \<Rightarrow> rb_tree" where
  "erase_rotate d parent sibling tmp1 t =
     (let tmp2 = rb_child d t sibling;
          t = set_child (\<not> d) parent tmp2 t;
          t = (if tmp2 \<noteq> 0 then rb_set_parent tmp2 parent t else t);
          t = set_child d sibling parent t;
          t = rb_set_parent_color tmp1 sibling RB_BLACK t
      in rb_rotate_set_parents parent sibling RB_BLACK t)"

text \<open>The rest of a round with a black sibling: whether the loop goes on with the parent as its node.\<close>

definition erase_black_sibling :: "bool \<Rightarrow> nat \<Rightarrow> nat \<Rightarrow> rb_tree \<Rightarrow> bool \<times> rb_tree" where
  "erase_black_sibling d parent sibling t =
     (let tmp1 = rb_child (\<not> d) t sibling
      in if tmp1 = 0 \<or> rb_is_black t tmp1
         then let tmp2 = rb_child d t sibling
              in if tmp2 = 0 \<or> rb_is_black t tmp2
                 then let t = rb_set_parent_color sibling parent RB_RED t
                      in if rb_is_red t parent then (False, rb_set_black parent t) else (True, t)
                 else (False, erase_rotate d parent tmp2 sibling (erase_inner_red d parent sibling tmp2 t))
         else (False, erase_rotate d parent sibling tmp1 t))"

fun erase_fix_loop :: "nat \<Rightarrow> nat \<Rightarrow> nat \<Rightarrow> rb_tree \<Rightarrow> rb_tree outcome" where
  "erase_fix_loop 0 node parent t = Blocked"
| "erase_fix_loop (Suc n) node parent t =
     (let d = (node \<noteq> rb_child False t parent);
          sibling = rb_child (\<not> d) t parent
      in if sibling = 0 then Undef
         else andthen (if rb_is_red t sibling then erase_red_sibling d parent sibling t else Ok (sibling, t)) (\<lambda>(sibling, t).
         case erase_black_sibling d parent sibling t of (on, t) \<Rightarrow>
           if \<not> on then Ok t
           else let node = parent; parent = rb_parent t node
                in if parent \<noteq> 0 then erase_fix_loop n node parent t else Ok t))"

definition rb_erase :: "nat \<Rightarrow> nat \<Rightarrow> rb_tree \<Rightarrow> rb_tree outcome" where
  "rb_erase n node t =
     andthen (rb_erase_node n node t) (\<lambda>(rebalance, t).
     if rebalance \<noteq> 0 then erase_fix_loop n 0 rebalance t else Ok t)"

section \<open>Search\<close>

fun lookup_from :: "nat \<Rightarrow> (nat \<Rightarrow> nat \<Rightarrow> bool) \<Rightarrow> nat \<Rightarrow> nat \<Rightarrow> rb_tree \<Rightarrow> nat outcome" where
  "lookup_from 0 cmp node nw t = Blocked"
| "lookup_from (Suc n) cmp node nw t =
     (if nw = 0 then Ok 0
      else if cmp node nw then lookup_from n cmp node (rb_child True t nw) t
      else if cmp nw node then lookup_from n cmp node (rb_child False t nw) t
      else Ok nw)"

definition rb_lookup :: "nat \<Rightarrow> nat \<Rightarrow> (nat \<Rightarrow> nat \<Rightarrow> bool) \<Rightarrow> rb_tree \<Rightarrow> nat outcome" where
  "rb_lookup n node cmp t = lookup_from n cmp node (rroot t) t"

fun leftmost :: "nat \<Rightarrow> nat \<Rightarrow> rb_tree \<Rightarrow> nat outcome" where
  "leftmost 0 a t = Blocked"
| "leftmost (Suc n) a t = (if rb_child True t a \<noteq> 0 then leftmost n (rb_child True t a) t else Ok a)"

definition rb_first :: "nat \<Rightarrow> rb_tree \<Rightarrow> nat outcome" where
  "rb_first n t = (if rroot t = 0 then Ok 0 else leftmost n (rroot t) t)"

end
