(* ===== verification/RBSpec.thy ===== *)
theory RBSpec
  imports RBTree
begin

text \<open>
  What \<^verbatim>\<open>src/common/rbtree.c\<close> computes: the nodes in memory form a tree, the routines change this
  tree, and the tree stays sorted and balanced.  The loops climb from a node to the root: the
  tree is seen from that node, as a subtree in its context.
\<close>

section \<open>Trees and contexts in memory\<close>

datatype rtree = RL | RN bool rtree nat rtree

fun inorder :: "rtree \<Rightarrow> nat list" where
  "inorder RL = []"
| "inorder (RN c l a r) = inorder l @ a # inorder r"

fun blk :: "rtree \<Rightarrow> bool" where
  "blk RL = True"
| "blk (RN c l a r) = c"

fun paint :: "bool \<Rightarrow> rtree \<Rightarrow> rtree" where
  "paint c RL = RL"
| "paint c (RN _ l a r) = RN c l a r"

text \<open>The node with \<open>x\<close> on side \<open>d\<close> and \<open>s\<close> on the other one.\<close>

definition rbmk :: "bool \<Rightarrow> bool \<Rightarrow> rtree \<Rightarrow> nat \<Rightarrow> rtree \<Rightarrow> rtree" where
  "rbmk d c x a s = (if d then RN c x a s else RN c s a x)"

definition hchild :: "bool \<Rightarrow> rb_node \<Rightarrow> nat" where
  "hchild d n = (if d then rbleft n else rbright n)"

definition hset :: "bool \<Rightarrow> nat \<Rightarrow> rb_node \<Rightarrow> rb_node" where
  "hset d x n = (if d then n\<lparr>rbleft := x\<rparr> else n\<lparr>rbright := x\<rparr>)"

definition hpc :: "nat \<Rightarrow> bool \<Rightarrow> rb_node \<Rightarrow> rb_node" where
  "hpc p c n = n\<lparr>rbparent := p, rbblack := c\<rparr>"

lemma h_simps [simp]:
  "hchild d (hset e x n) = (if d = e then x else hchild d n)"
  "rbparent (hset d x n) = rbparent n" "rbblack (hset d x n) = rbblack n"
  "hchild d (hpc p c n) = hchild d n" "rbparent (hpc p c n) = p" "rbblack (hpc p c n) = c"
  by (auto simp: hchild_def hset_def hpc_def)

lemma ops_simps [simp]:
  "rb_child d t a = hchild d (rnode t a)"
  "rnode (set_child d a x t) = (rnode t)(a := hset d x (rnode t a))" "rroot (set_child d a x t) = rroot t"
  "rnode (rb_set_parent_color a p c t) = (rnode t)(a := hpc p c (rnode t a))" "rroot (rb_set_parent_color a p c t) = rroot t"
  "rb_parent t a = rbparent (rnode t a)" "rb_is_black t a = rbblack (rnode t a)" "rb_is_red t a = (\<not> rbblack (rnode t a))"
  by (simp_all add: rb_child_def hchild_def set_child_def hset_def rb_set_parent_color_def hpc_def rb_parent_def rb_is_black_def rb_is_red_def)

fun tree_at :: "(nat \<Rightarrow> rb_node) \<Rightarrow> nat \<Rightarrow> nat \<Rightarrow> rtree \<Rightarrow> bool" where
  "tree_at h par x RL \<longleftrightarrow> x = 0"
| "tree_at h par x (RN c l a r) \<longleftrightarrow> x = a \<and> a \<noteq> 0 \<and> rbparent (h a) = par \<and> rbblack (h a) = c \<and>
     tree_at h a (hchild True (h a)) l \<and> tree_at h a (hchild False (h a)) r"

lemma tree_at_rbmk:
  "tree_at h par x (rbmk d c l a r) \<longleftrightarrow> x = a \<and> a \<noteq> 0 \<and> rbparent (h a) = par \<and> rbblack (h a) = c \<and>
     tree_at h a (hchild d (h a)) l \<and> tree_at h a (hchild (\<not> d) (h a)) r"
  by (auto simp: rbmk_def)

lemma tree_at_cong: "\<forall>a\<in>set (inorder T). h' a = h a \<Longrightarrow> tree_at h' par x T = tree_at h par x T"
  by (induction T arbitrary: par x) auto

lemma tree_at_0 [simp]: "tree_at h par 0 T \<longleftrightarrow> T = RL"
  by (cases T) auto

lemma tree_at_ne: "tree_at h par x T \<Longrightarrow> T \<noteq> RL \<Longrightarrow> x \<noteq> 0"
  by (cases T) auto

lemma tree_at_addr: "tree_at h par x T \<Longrightarrow> x \<noteq> 0 \<Longrightarrow> x \<in> set (inorder T)"
  by (cases T) auto

lemma tree_at_blk: "tree_at h par x T \<Longrightarrow> x \<noteq> 0 \<Longrightarrow> rbblack (h x) = blk T \<and> rbparent (h x) = par"
  by (cases T) auto

lemma inorder_set: "set (inorder (rbmk d c l a r)) = insert a (set (inorder l) \<union> set (inorder r))"
  by (auto simp: rbmk_def)

lemma distinct_rbmk: "distinct (inorder (rbmk d c l a r)) \<longleftrightarrow> distinct (inorder l) \<and> distinct (inorder r) \<and>
    a \<notin> set (inorder l) \<and> a \<notin> set (inorder r) \<and> set (inorder l) \<inter> set (inorder r) = {}"
  by (auto simp: rbmk_def)

text \<open>Giving the root of a subtree another parent and colour.\<close>

lemma tree_at_paint:
  assumes "tree_at h p x T" and "distinct (inorder T)" and "x \<noteq> 0 \<longrightarrow> h' x = hpc q c (h x)" and "\<forall>a\<in>set (inorder T) - {x}. h' a = h a"
  shows "tree_at h' q x (paint c T)"
proof (cases T)
  case (RN b l a r)
  have "tree_at h' a y l = tree_at h a y l" "tree_at h' a y r = tree_at h a y r" for y
    by (rule tree_at_cong; use assms RN in auto)+
  then show ?thesis using assms RN by simp
qed (use assms in simp)

lemma paint_blk [simp]: "paint (blk T) T = T" "inorder (paint c T) = inorder T" "blk T \<Longrightarrow> paint True T = T"
  by (cases T; auto)+

type_synonym frame = "bool \<times> bool \<times> nat \<times> rtree"

fun par_of :: "frame list \<Rightarrow> nat" where
  "par_of [] = 0"
| "par_of ((d, c, a, s) # fs) = a"

fun plug :: "frame list \<Rightarrow> rtree \<Rightarrow> rtree" where
  "plug [] T = T"
| "plug ((d, c, a, s) # fs) T = plug fs (rbmk d c T a s)"

fun addrs_of :: "frame list \<Rightarrow> nat set" where
  "addrs_of [] = {}"
| "addrs_of ((d, c, a, s) # fs) = insert a (set (inorder s) \<union> addrs_of fs)"

fun ctx_at :: "(nat \<Rightarrow> rb_node) \<Rightarrow> nat \<Rightarrow> frame list \<Rightarrow> nat \<Rightarrow> bool" where
  "ctx_at h x [] y \<longleftrightarrow> x = y"
| "ctx_at h x ((d, c, a, s) # fs) y \<longleftrightarrow> ctx_at h x fs a \<and> a \<noteq> 0 \<and> rbparent (h a) = par_of fs \<and> rbblack (h a) = c \<and>
     hchild d (h a) = y \<and> tree_at h a (hchild (\<not> d) (h a)) s"

fun ctx_distinct :: "frame list \<Rightarrow> bool" where
  "ctx_distinct [] = True"
| "ctx_distinct ((d, c, a, s) # fs) \<longleftrightarrow> distinct (inorder s) \<and> a \<notin> set (inorder s) \<and> a \<notin> addrs_of fs \<and>
     set (inorder s) \<inter> addrs_of fs = {} \<and> ctx_distinct fs"

lemma ctx_at_cong: "\<forall>a\<in>addrs_of fs. h' a = h a \<Longrightarrow> ctx_at h' x fs y = ctx_at h x fs y"
proof (induction fs arbitrary: y)
  case (Cons f fs)
  obtain d c a s where f: "f = (d, c, a, s)" by (cases f) auto
  have "tree_at h' a z s = tree_at h a z s" for z by (rule tree_at_cong) (use Cons.prems f in auto)
  then show ?case using Cons f by simp
qed simp

text \<open>The tree in memory, seen from the node \<open>x\<close> on which the subtree \<open>T\<close> hangs.\<close>

definition holds :: "rb_tree \<Rightarrow> frame list \<Rightarrow> nat \<Rightarrow> rtree \<Rightarrow> bool" where
  "holds t fs x T \<longleftrightarrow> ctx_at (rnode t) (rroot t) fs x \<and> tree_at (rnode t) (par_of fs) x T \<and>
     ctx_distinct fs \<and> distinct (inorder T) \<and> set (inorder T) \<inter> addrs_of fs = {}"

lemma holds_Cons: "holds t ((d, c, a, s) # fs) x T \<longleftrightarrow> x = hchild d (rnode t a) \<and> holds t fs a (rbmk d c T a s)"
  by (auto simp: holds_def tree_at_rbmk distinct_rbmk inorder_set)

lemma holds_plug: "holds t fs x T \<Longrightarrow> holds t [] (rroot t) (plug fs T)"
proof (induction fs arbitrary: x T)
  case Nil
  then show ?case by (simp add: holds_def)
next
  case (Cons f fs)
  then show ?case by (cases f) (auto simp: holds_Cons)
qed

lemma set_plug: "set (inorder (plug fs T)) = addrs_of fs \<union> set (inorder T)"
proof (induction fs arbitrary: T)
  case (Cons f fs)
  then show ?case by (cases f) (auto simp: inorder_set)
qed simp

text \<open>The context with another node in its hole.\<close>

lemma change_child_ctx:
  assumes c: "ctx_at (rnode t) (rroot t) fs x" and "ctx_distinct fs" and x: "x \<noteq> 0" "x \<notin> addrs_of fs" and t': "t' = rb_change_child x y (par_of fs) t"
  shows "ctx_at (rnode t') (rroot t') fs y" and "\<forall>a. a \<notin> addrs_of fs \<longrightarrow> rnode t' a = rnode t a"
proof (atomize (full), cases fs)
  case Nil
  then show "ctx_at (rnode t') (rroot t') fs y \<and> (\<forall>a. a \<notin> addrs_of fs \<longrightarrow> rnode t' a = rnode t a)"
    by (simp add: t' rb_change_child_def)
next
  case (Cons f fs')
  obtain d b a s where f: "f = (d, b, a, s)" by (cases f) auto
  have h: "hchild d (rnode t a) = x" "a \<noteq> 0" "tree_at (rnode t) a (hchild (\<not> d) (rnode t a)) s" "a \<notin> set (inorder s)" "a \<notin> addrs_of fs'"
    "ctx_at (rnode t) (rroot t) fs' a" "rbparent (rnode t a) = par_of fs'" "rbblack (rnode t a) = b"
    using assms Cons f by auto
  have "hchild (\<not> d) (rnode t a) \<noteq> x"
  proof
    assume "hchild (\<not> d) (rnode t a) = x"
    then have "x \<in> set (inorder s)" using tree_at_addr [OF h(3)] x(1) by simp
    then show False using x(2) Cons f by simp
  qed
  then have e: "t' = set_child d a y t" using h(1,2) by (cases d) (simp_all add: t' rb_change_child_def Cons f)
  have "tree_at (rnode t') a z s = tree_at (rnode t) a z s" for z by (rule tree_at_cong) (use h(4) in \<open>auto simp: e\<close>)
  moreover have "ctx_at (rnode t') (rroot t') fs' a = ctx_at (rnode t) (rroot t) fs' a" unfolding e
    using ctx_at_cong [of fs' "rnode (set_child d a y t)" "rnode t"] h(5) by auto
  ultimately show "ctx_at (rnode t') (rroot t') fs y \<and> (\<forall>a. a \<notin> addrs_of fs \<longrightarrow> rnode t' a = rnode t a)"
    using h Cons f by (auto simp: e)
qed


lemma rotate_ctx:
  assumes "ctx_at (rnode t) (rroot t) fs old" and "ctx_distinct fs" and "old \<noteq> 0" and "old \<notin> addrs_of fs" and "new \<notin> addrs_of fs" and "old \<noteq> new"
    and "rbparent (rnode t old) = par_of fs" and t': "t' = rb_rotate_set_parents old new color t"
  shows "ctx_at (rnode t') (rroot t') fs new" and "rnode t' new = hpc (par_of fs) (rbblack (rnode t old)) (rnode t new)"
    and "rnode t' old = hpc new color (rnode t old)" and "\<forall>a. a \<notin> addrs_of fs \<longrightarrow> a \<noteq> old \<longrightarrow> a \<noteq> new \<longrightarrow> rnode t' a = rnode t a"
proof -
  define t1 where "t1 = rb_set_parent_color old new color (rb_copy_parent_color old new t)"
  have t1: "rnode t1 = (rnode t)(new := hpc (par_of fs) (rbblack (rnode t old)) (rnode t new), old := hpc new color (rnode t old))" "rroot t1 = rroot t"
    using assms(6,7) by (auto simp: t1_def rb_copy_parent_color_def)
  have e: "t' = rb_change_child old new (par_of fs) t1" using assms(7) by (simp add: t' rb_rotate_set_parents_def t1_def)
  have "ctx_at (rnode t1) (rroot t1) fs old" unfolding t1(2)
    by (subst ctx_at_cong [of fs "rnode t1" "rnode t"]) (use assms(1,4,5) in \<open>auto simp: t1\<close>)
  note c = change_child_ctx [OF this assms(2-4) e]
  show "ctx_at (rnode t') (rroot t') fs new" by (rule c(1))
  show "rnode t' new = hpc (par_of fs) (rbblack (rnode t old)) (rnode t new)" "rnode t' old = hpc new color (rnode t old)"
    "\<forall>a. a \<notin> addrs_of fs \<longrightarrow> a \<noteq> old \<longrightarrow> a \<noteq> new \<longrightarrow> rnode t' a = rnode t a"
    using c(2) assms(4-6) by (auto simp: t1)
qed

section \<open>Insertion: the rotations\<close>

lemma rotate_outer:
  assumes c: "ctx_at (rnode t) (rroot t) fs g" "ctx_distinct fs"
    and g: "g \<noteq> 0" "rbparent (rnode t g) = par_of fs" "rbblack (rnode t g) = c" "tree_at (rnode t) g (hchild (\<not> d) (rnode t g)) u"
    and p: "p \<noteq> 0" "tree_at (rnode t) p (hchild d (rnode t p)) T" "tree_at (rnode t) p (hchild (\<not> d) (rnode t p)) s"
    and dist: "distinct (inorder (rbmk d c (rbmk d False T p s) g u))" "set (inorder (rbmk d c (rbmk d False T p s) g u)) \<inter> addrs_of fs = {}"
    and tmp: "tmp = hchild (\<not> d) (rnode t p)"
    and t': "t' = rb_rotate_set_parents g p RB_RED (set_child (\<not> d) p g
        (if tmp \<noteq> 0 then rb_set_parent_color tmp g RB_BLACK (set_child d g tmp t) else set_child d g tmp t))"
  shows "holds t' fs p (rbmk d c T p (rbmk d False (paint True s) g u))"
proof -
  define t1 where "t1 = set_child (\<not> d) p g (if tmp \<noteq> 0 then rb_set_parent_color tmp g RB_BLACK (set_child d g tmp t) else set_child d g tmp t)"
  have D: "distinct (inorder T)" "distinct (inorder s)" "distinct (inorder u)" "p \<notin> set (inorder T)" "p \<notin> set (inorder s)" "p \<notin> set (inorder u)"
    "g \<notin> set (inorder T)" "g \<notin> set (inorder s)" "g \<notin> set (inorder u)" "p \<noteq> g" "set (inorder T) \<inter> set (inorder s) = {}"
    "set (inorder T) \<inter> set (inorder u) = {}" "set (inorder s) \<inter> set (inorder u) = {}"
    using dist(1) by (auto simp: distinct_rbmk inorder_set)
  have F: "p \<notin> addrs_of fs" "g \<notin> addrs_of fs" "set (inorder T) \<inter> addrs_of fs = {}" "set (inorder s) \<inter> addrs_of fs = {}" "set (inorder u) \<inter> addrs_of fs = {}"
    using dist(2) by (auto simp: inorder_set)
  have tm: "tmp \<in> set (inorder s)" if "tmp \<noteq> 0" using tree_at_addr [OF p(3)] that tmp by simp
  have t1: "rroot t1 = rroot t" "rnode t1 g = hset d tmp (rnode t g)" "rnode t1 p = hset (\<not> d) g (rnode t p)"
    "tmp \<noteq> 0 \<Longrightarrow> rnode t1 tmp = hpc g True (rnode t tmp)" "\<And>a. a \<noteq> g \<Longrightarrow> a \<noteq> p \<Longrightarrow> tmp = 0 \<or> a \<noteq> tmp \<Longrightarrow> rnode t1 a = rnode t a"
    using D(5,8,10) tm by (auto simp: t1_def RB_BLACK_def)
  have tn: "tmp \<notin> addrs_of fs" "tmp \<noteq> g" "tmp \<noteq> p" if "tmp \<noteq> 0" using tm [OF that] F D by auto
  have agree: "\<forall>a\<in>addrs_of fs. rnode t1 a = rnode t a"
  proof
    fix a assume "a \<in> addrs_of fs"
    then show "rnode t1 a = rnode t a" using F tn(1) by (cases "tmp = 0") (auto simp: t1_def)
  qed
  have c1: "ctx_at (rnode t1) (rroot t1) fs g" unfolding t1(1) ctx_at_cong [OF agree] by (rule c(1))
  have r: "t' = rb_rotate_set_parents g p RB_RED t1" by (simp add: t' t1_def)
  note R = rotate_ctx [OF c1 c(2) g(1) F(2,1) D(10) [symmetric] _ r, unfolded t1(2,3), simplified, OF g(2)]
  have other: "rnode t' a = rnode t1 a" if "a \<noteq> p" "a \<noteq> g" "a \<notin> addrs_of fs" for a using R(4) that by auto
  have same: "rnode t' a = rnode t a" if "a \<noteq> p" "a \<noteq> g" "a \<notin> addrs_of fs" "tmp = 0 \<or> a \<noteq> tmp" for a
    using other [OF that(1-3)] t1(5) [OF that(2,1,4)] by simp
  have nt: "tmp = 0 \<or> tmp \<in> set (inorder s)" using tm by auto
  have T: "tree_at (rnode t') p x T = tree_at (rnode t) p x T" for x
    by (rule tree_at_cong, rule ballI, rule same) (use D F nt in auto)
  have U: "tree_at (rnode t') g x u = tree_at (rnode t) g x u" for x
    by (rule tree_at_cong, rule ballI, rule same) (use D F nt in auto)
  have S: "tree_at (rnode t') g tmp (paint True s)"
  proof (rule tree_at_paint [OF p(3) [folded tmp] D(2)])
    show "tmp \<noteq> 0 \<longrightarrow> rnode t' tmp = hpc g True (rnode t tmp)" using tn other t1(4) by auto
    show "\<forall>a\<in>set (inorder s) - {tmp}. rnode t' a = rnode t a" by (rule ballI, rule same) (use D F in auto)
  qed
  show ?thesis
    unfolding holds_def tree_at_rbmk
    using R(1,2,3) c(2) dist p(1,2) g(1,3,4) S D F by (auto simp: T U distinct_rbmk inorder_set RB_RED_def)
qed


lemma insert_rotate_outer:
  assumes h: "holds t fs g (rbmk d c (rbmk d False T p s) g u)" and a: "a \<in> set (inorder T)"
  shows "holds (insert_rotate d a p g t) fs p (rbmk d c T p (rbmk d False (paint True s) g u))"
proof -
  note H = h [unfolded holds_def tree_at_rbmk]
  have S: "tree_at (rnode t) p (hchild (\<not> d) (rnode t p)) s" "p \<noteq> 0" using H by auto
  have "hchild (\<not> d) (rnode t p) \<noteq> a"
  proof
    assume e: "hchild (\<not> d) (rnode t p) = a"
    have "a \<notin> set (inorder s)" using H a by (auto simp: distinct_rbmk inorder_set)
    then have "a = 0" using tree_at_addr [OF S(1)] e by auto
    then have "s = RL" using S(1) e by simp
    moreover have "0 \<notin> set (inorder T)" if "tree_at h q x T" for h q x T using that by (induction T arbitrary: q x) auto
    ultimately show False using H a \<open>a = 0\<close> by blast
  qed
  then have "insert_rotate d a p g t = rb_rotate_set_parents g p RB_RED (set_child (\<not> d) p g
      (if hchild (\<not> d) (rnode t p) \<noteq> 0 then rb_set_parent_color (hchild (\<not> d) (rnode t p)) g RB_BLACK (set_child d g (hchild (\<not> d) (rnode t p)) t)
       else set_child d g (hchild (\<not> d) (rnode t p)) t))"
    by (auto simp: insert_rotate_def Let_def)
  from rotate_outer [OF _ _ _ _ _ _ _ _ _ _ _ refl this] show ?thesis using H by (auto simp: inorder_set)
qed

lemma insert_rotate_inner:
  assumes h: "holds t fs g (rbmk d c (rbmk (\<not> d) False (rbmk d b x a y) p s) g u)"
  shows "holds (insert_rotate d a p g t) fs a (rbmk d c (rbmk d False s p (paint True x)) a (rbmk d False (paint True y) g u))"
proof -
  note H = h [unfolded holds_def tree_at_rbmk]
  define z where "z = hchild d (rnode t a)"
  define t2 where "t2 = rb_set_parent_color p a RB_RED (set_child d a p (if z \<noteq> 0 then rb_set_parent_color z p RB_BLACK (set_child (\<not> d) p z t) else set_child (\<not> d) p z t))"
  have D: "distinct (inorder s)" "distinct (inorder x)" "distinct (inorder y)" "distinct (inorder u)"
    "p \<notin> set (inorder s)" "p \<notin> set (inorder x)" "p \<notin> set (inorder y)" "p \<notin> set (inorder u)"
    "g \<notin> set (inorder s)" "g \<notin> set (inorder x)" "g \<notin> set (inorder y)" "g \<notin> set (inorder u)"
    "a \<notin> set (inorder s)" "a \<notin> set (inorder x)" "a \<notin> set (inorder y)" "a \<notin> set (inorder u)" "p \<noteq> g" "a \<noteq> g" "a \<noteq> p"
    "set (inorder x) \<inter> set (inorder s) = {}" "set (inorder x) \<inter> set (inorder y) = {}" "set (inorder x) \<inter> set (inorder u) = {}"
    "set (inorder y) \<inter> set (inorder s) = {}" "set (inorder y) \<inter> set (inorder u) = {}" "set (inorder s) \<inter> set (inorder u) = {}"
    using H by (auto simp: distinct_rbmk inorder_set)
  have F: "p \<notin> addrs_of fs" "g \<notin> addrs_of fs" "a \<notin> addrs_of fs" "set (inorder x) \<inter> addrs_of fs = {}" "set (inorder y) \<inter> addrs_of fs = {}"
    "set (inorder s) \<inter> addrs_of fs = {}" "set (inorder u) \<inter> addrs_of fs = {}"
    using H by (auto simp: inorder_set)
  have X: "tree_at (rnode t) a z x" "hchild (\<not> d) (rnode t p) = a" "p \<noteq> 0" "a \<noteq> 0" "g \<noteq> 0" using H by (auto simp: z_def)
  have zm: "z = 0 \<or> z \<in> set (inorder x)" using tree_at_addr [OF X(1)] by auto
  have pz: "z \<noteq> p" "z \<noteq> a" "z \<noteq> g" using zm D X(3-5) by auto
  have t2: "rroot t2 = rroot t" "rnode t2 p = hpc a False (hset (\<not> d) z (rnode t p))" "rnode t2 a = hset d p (rnode t a)"
    "z \<noteq> 0 \<Longrightarrow> rnode t2 z = hpc p True (rnode t z)" "\<And>w. w \<noteq> p \<Longrightarrow> w \<noteq> a \<Longrightarrow> z = 0 \<or> w \<noteq> z \<Longrightarrow> rnode t2 w = rnode t w"
    using pz D(19) by (auto simp: t2_def RB_BLACK_def RB_RED_def)
  have agree: "\<forall>w\<in>addrs_of fs. rnode t2 w = rnode t w" by (rule ballI, rule t2(5)) (use F zm in auto)
  have S: "tree_at (rnode t2) q v s = tree_at (rnode t) q v s" "tree_at (rnode t2) q v y = tree_at (rnode t) q v y"
    "tree_at (rnode t2) q v u = tree_at (rnode t) q v u" for q v
    by (rule tree_at_cong, rule ballI, rule t2(5); use D zm in auto)+
  have P: "tree_at (rnode t2) p z (paint True x)"
  proof (rule tree_at_paint [OF X(1) D(2)])
    show "\<forall>w\<in>set (inorder x) - {z}. rnode t2 w = rnode t w" by (rule ballI, rule t2(5)) (use D in auto)
  qed (use t2(4) in simp)
  have g2: "rnode t2 g = rnode t g" by (rule t2(5)) (use D pz in auto)
  have e: "insert_rotate d a p g t = rb_rotate_set_parents g a RB_RED (set_child (\<not> d) a g
      (if hchild (\<not> d) (rnode t2 a) \<noteq> 0 then rb_set_parent_color (hchild (\<not> d) (rnode t2 a)) g RB_BLACK (set_child d g (hchild (\<not> d) (rnode t2 a)) t2)
       else set_child d g (hchild (\<not> d) (rnode t2 a)) t2))"
    using X(2) by (simp add: insert_rotate_def Let_def t2_def z_def)
  show ?thesis
  proof (rule rotate_outer [OF _ _ X(5) _ _ _ X(4) _ _ _ _ refl e])
    show "ctx_at (rnode t2) (rroot t2) fs g" unfolding t2(1) ctx_at_cong [OF agree] using H by simp
    show "tree_at (rnode t2) a (hchild d (rnode t2 a)) (rbmk d False s p (paint True x))"
      unfolding tree_at_rbmk using H P X(3) by (auto simp: t2(2,3) S)
    show "tree_at (rnode t2) a (hchild (\<not> d) (rnode t2 a)) y" using H by (simp add: t2(3) S)
    show "tree_at (rnode t2) g (hchild (\<not> d) (rnode t2 g)) u" using H by (simp add: g2 S)
    show "distinct (inorder (rbmk d c (rbmk d False (rbmk d False s p (paint True x)) a y) g u))"
      using D by (auto simp: distinct_rbmk inorder_set)
    show "set (inorder (rbmk d c (rbmk d False (rbmk d False s p (paint True x)) a y) g u)) \<inter> addrs_of fs = {}"
      using F by (auto simp: inorder_set)
  qed (use H g2 in simp_all)
qed


section \<open>Insertion: the loop\<close>

lemma rbmk_flip: "rbmk (\<not> d) c l a r = rbmk d c r a l"
  by (simp add: rbmk_def)

lemma holds_paint:
  assumes "holds t fs x T" and "x \<noteq> 0"
  shows "holds (rb_set_parent_color x (par_of fs) c t) fs x (paint c T)"
proof -
  have x: "x \<in> set (inorder T)" "x \<notin> addrs_of fs" using assms tree_at_addr unfolding holds_def by blast+
  let ?t = "rb_set_parent_color x (par_of fs) c t"
  have a: "\<forall>a\<in>addrs_of fs. rnode ?t a = rnode t a" using x(2) by auto
  have "tree_at (rnode ?t) (par_of fs) x (paint c T)"
    by (rule tree_at_paint [of "rnode t" "par_of fs"]) (use assms in \<open>auto simp: holds_def\<close>)
  moreover have "ctx_at (rnode ?t) (rroot ?t) fs x" using assms(1) by (subst ctx_at_cong [OF a]) (simp add: holds_def)
  ultimately show ?thesis using assms(1) by (simp add: holds_def)
qed

text \<open>Case 1: the colours of three nodes change, and the grandparent is the node of the next round.\<close>

lemma recolor:
  assumes h: "holds t fs g (rbmk d c (rbmk e False T p s) g u)" and v: "v = hchild (\<not> d) (rnode t g)" "u \<noteq> RL"
    and t': "t' = rb_set_parent_color g (par_of fs) False (rb_set_parent_color p g True (rb_set_parent_color v g True t))"
  shows "holds t' fs g (rbmk d False (rbmk e True T p s) g (paint True u))"
proof -
  have g0: "g \<noteq> 0" "p \<noteq> 0" "p = hchild d (rnode t g)" "p \<noteq> g" "tree_at (rnode t) g v u" using h v by (auto simp: holds_def tree_at_rbmk distinct_rbmk inorder_set)
  have v0: "v \<noteq> 0" by (rule tree_at_ne [OF g0(5) v(2)])
  have vg: "v \<noteq> g" using tree_at_addr [OF g0(5) v0] h by (auto simp: holds_def distinct_rbmk)
  define t1 where "t1 = rb_set_parent_color v g True t"
  have "holds t ((\<not> d, c, g, rbmk e False T p s) # fs) v u"
    unfolding holds_Cons rbmk_flip using h v(1) by simp
  from holds_paint [OF this v0, of True] have "holds t1 ((\<not> d, c, g, rbmk e False T p s) # fs) v (paint True u)" by (simp add: t1_def)
  then have "holds t1 fs g (rbmk d c (rbmk e False T p s) g (paint True u))" unfolding holds_Cons rbmk_flip by simp
  moreover have "p = hchild d (rnode t1 g)" using g0(3) vg by (simp add: t1_def)
  ultimately have "holds t1 ((d, c, g, paint True u) # fs) p (rbmk e False T p s)" unfolding holds_Cons by simp
  from holds_paint [OF this g0(2), of True] have "holds (rb_set_parent_color p g True t1) ((d, c, g, paint True u) # fs) p (rbmk e True T p s)"
    by (auto simp: rbmk_def split: if_splits)
  then have "holds (rb_set_parent_color p g True t1) fs g (rbmk d c (rbmk e True T p s) g (paint True u))" unfolding holds_Cons by simp
  from holds_paint [OF this g0(1), of False] show ?thesis by (auto simp: t' t1_def rbmk_def split: if_splits)
qed

definition sub :: "bool \<Rightarrow> rtree \<Rightarrow> rtree" where
  "sub d T = (case T of RL \<Rightarrow> RL | RN c l a r \<Rightarrow> if d then l else r)"

fun ins_fix :: "frame list \<Rightarrow> rtree \<Rightarrow> nat \<Rightarrow> rtree" where
  "ins_fix [] T x = paint True T"
| "ins_fix [f] T x = plug [f] T"
| "ins_fix ((e, c, p, s) # (d, c', g, u) # fs) T x =
     (if c then plug ((e, c, p, s) # (d, c', g, u) # fs) T
      else if \<not> blk u then ins_fix fs (rbmk d False (rbmk e True T p s) g (paint True u)) g
      else if e = d then plug fs (rbmk d c' T p (rbmk d False (paint True s) g u))
      else plug fs (rbmk d c' (rbmk d False s p (paint True (sub d T))) x (rbmk d False (paint True (sub (\<not> d) T)) g u)))"

definition black_root :: "frame list \<Rightarrow> bool" where
  "black_root fs \<longleftrightarrow> (fs \<noteq> [] \<longrightarrow> fst (snd (last fs)))"

lemma rbmk_sub: "T = RN b l a r \<Longrightarrow> T = rbmk d b (sub d T) a (sub (\<not> d) T)"
  by (simp add: rbmk_def sub_def)

lemma insert_fix_loop_spec:
  assumes "holds t fs x T" and "T \<noteq> RL" and "black_root fs" and "length fs < n"
  shows "\<exists>t'. insert_fix_loop n x (par_of fs) t = Ok t' \<and> holds t' [] (rroot t') (ins_fix fs T x)"
  using assms
proof (induction fs T x arbitrary: t n rule: ins_fix.induct)
  case (1 T x)
  then obtain m where n: "n = Suc m" by (cases n) auto
  have x: "x \<noteq> 0" "rroot t = x" using 1 tree_at_ne [of "rnode t" 0 x T] by (auto simp: holds_def)
  let ?t = "rb_set_parent_color x 0 True t"
  have "holds ?t [] x (paint True T)" using holds_paint [OF 1(1) x(1), of True] by simp
  moreover have e: "?t\<lparr>rroot := x\<rparr> = ?t" using x(2) by (simp add: rb_set_parent_color_def)
  have "insert_fix_loop n x (par_of []) t = Ok (?t\<lparr>rroot := x\<rparr>)" by (simp add: n RB_BLACK_def)
  then have "insert_fix_loop n x (par_of []) t = Ok ?t" unfolding e .
  ultimately show ?case using x by (intro exI [of _ ?t]) simp
next
  case (2 f T x)
  obtain e c p s where f: "f = (e, c, p, s)" by (cases f) auto
  obtain m where n: "n = Suc m" using 2 by (cases n) auto
  have "c" "p \<noteq> 0" "rbblack (rnode t p)" using 2 by (auto simp: f holds_def black_root_def)
  then show ?case using holds_plug [OF 2(1)] by (auto simp: n f)
next
  case (3 e c p s d c' g u fs T x)
  obtain m where n: "n = Suc m" using "3.prems" by (cases n) auto
  note h = "3.prems"(1)
  have p: "p \<noteq> 0" "rbblack (rnode t p) = c" "rbparent (rnode t p) = g" "g \<noteq> 0" "hchild d (rnode t g) = p"
    using h by (auto simp: holds_def)
  show ?case
  proof (cases c)
    case True
    then show ?thesis using holds_plug [OF h] p by (auto simp: n)
  next
    case red: False
    have h2: "holds t fs g (rbmk d c' (rbmk e False T p s) g u)" using h red unfolding holds_Cons by (metis (full_types))
    define v where "v = hchild (\<not> d) (rnode t g)"
    have v: "tree_at (rnode t) g v u" using h2 by (simp add: holds_def tree_at_rbmk v_def)
    have "p \<notin> set (inorder u)" using h2 by (auto simp: holds_def distinct_rbmk inorder_set)
    then have pv: "p \<noteq> v" using tree_at_addr [OF v] p(1) by auto
    have d: "(p \<noteq> hchild False (rnode t g)) = d" using p(5) pv by (cases d) (auto simp: v_def)
    have uncle: "v \<noteq> 0 \<and> \<not> rbblack (rnode t v) \<longleftrightarrow> \<not> blk u" using v tree_at_blk [OF v] by (cases "v = 0") auto
    have step: "insert_fix_loop n x p t =
        (if \<not> blk u then insert_fix_loop m g (par_of fs) (rb_set_parent_color g (par_of fs) False (rb_set_parent_color p g True (rb_set_parent_color v g True t)))
         else Ok (insert_rotate d x p g t))"
    proof -
      have "v \<noteq> g" "p \<noteq> g" using h2 v tree_at_addr [OF v] p(4) by (auto simp: holds_def distinct_rbmk inorder_set)
      moreover have "rbparent (rnode t g) = par_of fs" using h2 by (auto simp: holds_def tree_at_rbmk)
      ultimately show ?thesis using p red uncle
        by (simp add: n Let_def d v_def [symmetric] RB_BLACK_def RB_RED_def)
    qed
    show ?thesis
    proof (cases "blk u")
      case False
      have br: "black_root fs" using "3.prems"(3) by (auto simp: black_root_def split: if_splits)
      have "\<exists>t'. insert_fix_loop m g (par_of fs) (rb_set_parent_color g (par_of fs) False (rb_set_parent_color p g True (rb_set_parent_color v g True t))) = Ok t' \<and>
          holds t' [] (rroot t') (ins_fix fs (rbmk d False (rbmk e True T p s) g (paint True u)) g)"
        by (rule "3.IH" [OF _ _ recolor [OF h2 v_def _ refl] _ br]) (use red False "3.prems"(4) n in \<open>auto simp: rbmk_def\<close>)
      then show ?thesis using red False step by simp
    next
      case True
      have xT: "tree_at (rnode t) p x T" using h by (simp add: holds_def)
      obtain b l r where T: "T = RN b l x r" using xT "3.prems"(2) by (cases T) auto
      have "holds (insert_rotate d x p g t) [] (rroot (insert_rotate d x p g t)) (ins_fix ((e, c, p, s) # (d, c', g, u) # fs) T x)"
      proof (cases "e = d")
        case eq: True
        show ?thesis using holds_plug [OF insert_rotate_outer [OF h2 [unfolded eq], of x]] T red True eq by auto
      next
        case False
        then have e: "e = (\<not> d)" by auto
        have "holds t fs g (rbmk d c' (rbmk (\<not> d) False (rbmk d b (sub d T) x (sub (\<not> d) T)) p s) g u)"
          using h2 e rbmk_sub [OF T, of d] by simp
        from holds_plug [OF insert_rotate_inner [OF this]] show ?thesis using red True False by simp
      qed
      then show ?thesis using step True by simp
    qed
  qed
qed


section \<open>Balance\<close>

fun bh :: "rtree \<Rightarrow> nat" where
  "bh RL = 0"
| "bh (RN c l a r) = bh l + (if c then 1 else 0)"

fun invh :: "rtree \<Rightarrow> bool" where
  "invh RL = True"
| "invh (RN c l a r) \<longleftrightarrow> invh l \<and> invh r \<and> bh l = bh r"

fun invc :: "rtree \<Rightarrow> bool" where
  "invc RL = True"
| "invc (RN c l a r) \<longleftrightarrow> invc l \<and> invc r \<and> (c \<or> blk l \<and> blk r)"

fun rheight :: "rtree \<Rightarrow> nat" where
  "rheight RL = 0"
| "rheight (RN c l a r) = Suc (max (rheight l) (rheight r))"

definition rb :: "rtree \<Rightarrow> bool" where
  "rb T \<longleftrightarrow> invh T \<and> invc T \<and> blk T"

lemma rbmk_inv:
  "invh (rbmk d c l a r) \<longleftrightarrow> invh l \<and> invh r \<and> bh l = bh r" "invc (rbmk d c l a r) \<longleftrightarrow> invc l \<and> invc r \<and> (c \<or> blk l \<and> blk r)"
  "blk (rbmk d c l a r) = c" "invh l \<Longrightarrow> invh r \<Longrightarrow> bh l = bh r \<Longrightarrow> bh (rbmk d c l a r) = bh l + (if c then 1 else 0)"
  by (auto simp: rbmk_def)

lemma bh_rbmk: "invh (rbmk d c l a r) \<Longrightarrow> bh (rbmk d c l a r) = bh l + (if c then 1 else 0)"
  by (auto simp: rbmk_def)

text \<open>A context whose hole takes a tree of black height \<open>n\<close>.\<close>

fun fcol :: "frame list \<Rightarrow> bool" where
  "fcol [] = True"
| "fcol ((d, c, a, s) # fs) = c"

fun ctx_ok :: "frame list \<Rightarrow> nat \<Rightarrow> bool" where
  "ctx_ok [] n = True"
| "ctx_ok ((d, c, a, s) # fs) n \<longleftrightarrow> invh s \<and> invc s \<and> bh s = n \<and> (c \<or> blk s \<and> fs \<noteq> [] \<and> fcol fs) \<and> ctx_ok fs (n + (if c then 1 else 0))"

lemma rb_plug:
  assumes "ctx_ok fs (bh T)" and "invh T" and "invc T" and "blk T \<or> fs \<noteq> [] \<and> fcol fs"
  shows "rb (plug fs T)"
  using assms
proof (induction fs arbitrary: T)
  case (Cons f fs)
  obtain d c a s where f: "f = (d, c, a, s)" by (cases f) auto
  have "rb (plug fs (rbmk d c T a s))"
    by (rule Cons.IH) (use Cons.prems in \<open>auto simp: f rbmk_inv\<close>)
  then show ?case by (simp add: f)
qed (simp add: rb_def)

lemma plug_rb:
  assumes "rb (plug fs T)"
  shows "ctx_ok fs (bh T) \<and> invh T \<and> invc T \<and> (blk T \<or> fs \<noteq> [] \<and> fcol fs)"
  using assms
proof (induction fs arbitrary: T)
  case (Cons f fs)
  obtain d c a s where f: "f = (d, c, a, s)" by (cases f) auto
  from Cons.IH [of "rbmk d c T a s"] Cons.prems
  have i: "ctx_ok fs (bh (rbmk d c T a s))" "invh (rbmk d c T a s)" "invc (rbmk d c T a s)" "c \<or> fs \<noteq> [] \<and> fcol fs"
    by (auto simp: f rbmk_inv(3))
  then show ?case using bh_rbmk [OF i(2)] by (auto simp: f rbmk_inv)
qed (simp add: rb_def)

lemma ctx_ok_black_root: "ctx_ok fs n \<Longrightarrow> black_root fs"
proof (induction fs arbitrary: n)
  case (Cons f fs)
  then show ?case by (cases f) (cases fs; auto simp: black_root_def)
qed (simp add: black_root_def)

lemma paint_inv: "invh (paint c T) = invh T" "invc T \<Longrightarrow> invc (paint True T)" "blk (paint True T)" "\<not> blk T \<Longrightarrow> bh (paint True T) = bh T + 1"
  by (cases T; auto)+

lemma sub_inv: "invh T \<Longrightarrow> invh (sub d T)" "invc T \<Longrightarrow> invc (sub d T)" "invc T \<Longrightarrow> \<not> blk T \<Longrightarrow> blk (sub d T)"
  "invh T \<Longrightarrow> \<not> blk T \<Longrightarrow> bh (sub d T) = bh T"
  by (cases T; auto simp: sub_def)+

lemma ins_fix_rb:
  assumes "ctx_ok fs (bh T)" and "invh T" and "invc T" and "\<not> blk T"
  shows "rb (ins_fix fs T x)"
  using assms
proof (induction fs T x rule: ins_fix.induct)
  case (1 T x)
  then show ?case by (simp add: rb_def paint_inv)
next
  case (2 f T x)
  obtain e c p s where f: "f = (e, c, p, s)" by (cases f) auto
  show ?case unfolding ins_fix.simps by (rule rb_plug) (use 2 in \<open>auto simp: f\<close>)
next
  case (3 e c p s d c' g u fs T x)
  show ?case
  proof (cases c)
    case True
    then show ?thesis using rb_plug [OF "3.prems"(1-3)] by simp
  next
    case red: False
    then have c': "c'" "blk s" and i: "invh s" "invc s" "bh s = bh T" "invh u" "invc u" "bh u = bh T" "ctx_ok fs (bh T + 1)" using "3.prems" by auto
    show ?thesis
    proof (cases "blk u")
      case False
      have "rb (ins_fix fs (rbmk d False (rbmk e True T p s) g (paint True u)) g)"
        by (rule "3.IH") (use red False i "3.prems" in \<open>simp_all add: rbmk_inv paint_inv\<close>)
      then show ?thesis using red False by simp
    next
      case True
      have b: "paint True s = s" "paint True (sub b T) = sub b T" for b using c'(2) sub_inv(3) [OF "3.prems"(3,4)] by simp_all
      note S = sub_inv(1) [OF "3.prems"(2)] sub_inv(2) [OF "3.prems"(3)] sub_inv(3) [OF "3.prems"(3,4)] sub_inv(4) [OF "3.prems"(2,4)]
      show ?thesis
      proof (cases "e = d")
        case eq: True
        have "rb (plug fs (rbmk d c' T p (rbmk d False s g u)))"
          by (rule rb_plug) (use red True c' i "3.prems" in \<open>simp_all add: rbmk_inv\<close>)
        then show ?thesis using red True eq b by simp
      next
        case False
        have "rb (plug fs (rbmk d c' (rbmk d False s p (sub d T)) x (rbmk d False (sub (\<not> d) T) g u)))"
          by (rule rb_plug) (use red True c' i "3.prems" S in \<open>simp_all add: rbmk_inv\<close>)
        then show ?thesis using red True False b by simp
      qed
    qed
  qed
qed

text \<open>The loop does not change the order of the nodes.\<close>

fun lft :: "frame list \<Rightarrow> nat list" where
  "lft [] = []"
| "lft ((d, c, a, s) # fs) = lft fs @ (if d then [] else inorder s @ [a])"

fun rgt :: "frame list \<Rightarrow> nat list" where
  "rgt [] = []"
| "rgt ((d, c, a, s) # fs) = (if d then a # inorder s else []) @ rgt fs"

lemma inorder_plug: "inorder (plug fs T) = lft fs @ inorder T @ rgt fs"
proof (induction fs arbitrary: T)
  case (Cons f fs)
  then show ?case by (cases f) (simp add: rbmk_def)
qed simp

lemma inorder_rbmk: "inorder (rbmk d c l a r) = (if d then inorder l @ a # inorder r else inorder r @ a # inorder l)"
  by (simp add: rbmk_def)

lemma inorder_ins_fix:
  assumes "T = RN b l x r"
  shows "inorder (ins_fix fs T x) = inorder (plug fs T)"
  using assms
proof (induction fs T x arbitrary: b l r rule: ins_fix.induct)
  case (3 e c p s d c' g u fs T x)
  let ?Q = "rbmk d False (rbmk e True T p s) g (paint True u)"
  have "inorder (ins_fix fs ?Q g) = inorder (plug fs ?Q)" if "\<not> c" "\<not> blk u"
  proof -
    obtain l' r' where "?Q = RN False l' g r'" by (cases d) (auto simp: rbmk_def)
    from "3.IH" [OF that this] show ?thesis .
  qed
  then show ?case using "3.prems" by (auto simp: inorder_plug inorder_rbmk sub_def)
qed simp_all


section \<open>Insertion\<close>

text \<open>The order that the callers give: by a key.\<close>

definition by_key :: "(nat \<Rightarrow> 'k::linorder) \<Rightarrow> nat \<Rightarrow> nat \<Rightarrow> bool" where
  "by_key key a b \<longleftrightarrow> key a < key b"

definition sorted_by :: "(nat \<Rightarrow> 'k::linorder) \<Rightarrow> nat list \<Rightarrow> bool" where
  "sorted_by key xs \<longleftrightarrow> sorted_wrt (\<lambda>a b. key a < key b) xs"

lemma holds_child: "holds t fs x (rbmk d c l a r) \<Longrightarrow> holds t ((d, c, a, r) # fs) (hchild d (rnode t a)) l"
  by (auto simp: holds_def tree_at_rbmk distinct_rbmk inorder_set)

lemma link_holds:
  assumes h: "holds t fs a (rbmk d c RL a r)" and n: "node \<noteq> 0" "node \<notin> addrs_of fs" "node \<noteq> a" "node \<notin> set (inorder r)"
    and z: "rbleft (rnode t node) = 0" "rbright (rnode t node) = 0"
  shows "holds (link_node d a node t) ((d, c, a, r) # fs) node (RN False RL node RL)"
proof -
  let ?t = "link_node d a node t"
  have e: "rnode ?t = (rnode t)(a := hset d node (rnode t a), node := hpc a False (rnode t node))" "rroot ?t = rroot t"
    using n(3) by (auto simp: link_node_def RB_RED_def)
  note H = h [unfolded holds_def tree_at_rbmk]
  have r: "tree_at (rnode ?t) q v r = tree_at (rnode t) q v r" for q v
    by (rule tree_at_cong) (use H n in \<open>auto simp: e distinct_rbmk\<close>)
  have agree: "\<forall>w\<in>addrs_of fs. rnode ?t w = rnode t w" using H n by (auto simp: e inorder_set)
  have c: "ctx_at (rnode ?t) (rroot ?t) fs a" unfolding e(2) ctx_at_cong [OF agree] using H by simp
  have z': "hchild b (rnode t node) = 0" for b using z by (simp add: hchild_def)
  have "a \<noteq> 0" "rbparent (rnode ?t a) = par_of fs" "rbblack (rnode ?t a) = c" "hchild d (rnode ?t a) = node"
    "tree_at (rnode ?t) a (hchild (\<not> d) (rnode ?t a)) r" "tree_at (rnode ?t) a node (RN False RL node RL)"
    using H n z' by (auto simp: r) (auto simp: e z')
  then show ?thesis unfolding holds_def using H n c by (auto simp: distinct_rbmk inorder_set)
qed

lemma insert_loop_spec:
  assumes "holds t fs x T" and "T \<noteq> RL" and "node \<noteq> 0" "node \<notin> addrs_of fs" "node \<notin> set (inorder T)"
    and "rbleft (rnode t node) = 0" "rbright (rnode t node) = 0" and "rheight T < n" and "sorted_by key (inorder T)"
    and "\<forall>a\<in>set (lft fs). key a < key node" and "\<forall>a\<in>set (rgt fs). key node < key a"
  shows "if \<exists>a\<in>set (inorder T). key a = key node then insert_loop n (by_key key) node x t = Ok (False, t)
    else \<exists>t' fs'. insert_loop n (by_key key) node x t = Ok (True, t') \<and> holds t' fs' node (RN False RL node RL) \<and>
      plug fs' RL = plug fs T \<and> length fs' \<le> length fs + rheight T \<and> fs' \<noteq> [] \<and>
      (\<forall>a\<in>set (lft fs'). key a < key node) \<and> (\<forall>a\<in>set (rgt fs'). key node < key a)"
  using assms
proof (induction T arbitrary: fs x n)
  case (RN c l a r)
  obtain m where n: "n = Suc m" using RN.prems(8) by (cases n) auto
  have x: "x = a" "a \<noteq> 0" using RN.prems(1) by (auto simp: holds_def)
  have srt: "sorted_by key (inorder l)" "sorted_by key (inorder r)" "\<forall>b\<in>set (inorder l). key b < key a" "\<forall>b\<in>set (inorder r). key a < key b"
    using RN.prems(9) by (auto simp: sorted_by_def sorted_wrt_append)
  have node: "node \<noteq> a" "node \<notin> set (inorder l)" "node \<notin> set (inorder r)" using RN.prems(5) by auto
  define side where "side d = (if d then l else r)" for d
  have go: ?case if d: "if d then key node < key a else key a < key node" for d
  proof -
    define u where "u = hchild d (rnode t a)"
    have T: "RN c l a r = rbmk d c (side d) a (side (\<not> d))" by (simp add: rbmk_def side_def)
    have H: "holds t ((d, c, a, side (\<not> d)) # fs) u (side d)" "holds t fs a (rbmk d c (side d) a (side (\<not> d)))"
      using holds_child [of t fs x d c "side d" a "side (\<not> d)"] RN.prems(1) x by (simp_all add: T [symmetric] u_def)
    have nn: "node \<notin> addrs_of ((d, c, a, side (\<not> d)) # fs)" using RN.prems(4) node by (auto simp: side_def)
    have L: "\<forall>b\<in>set (lft ((d, c, a, side (\<not> d)) # fs)). key b < key node" "\<forall>b\<in>set (rgt ((d, c, a, side (\<not> d)) # fs)). key node < key b"
      using RN.prems(10,11) d srt by (auto simp: side_def dest: order.strict_trans)
    have ex: "(\<exists>b\<in>set (inorder (RN c l a r)). key b = key node) \<longleftrightarrow> (\<exists>b\<in>set (inorder (side d)). key b = key node)"
      using d srt(3,4) by (auto simp: side_def split: if_splits dest: order.strict_trans)
    have loop: "insert_loop n (by_key key) node x t = insert_loop m (by_key key) node u (if u = 0 then link_node d a node t else t)"
      using d x by (auto simp: n by_key_def u_def Let_def split: if_splits)
    show ?thesis
    proof (cases "side d = RL")
      case True
      then have u: "u = 0" using H(1) by (simp add: holds_def)
      obtain k where m: "m = Suc k" using RN.prems(8) n by (cases m) auto
      have "holds (link_node d a node t) ((d, c, a, side (\<not> d)) # fs) node (RN False RL node RL)"
        by (rule link_holds [OF H(2) [unfolded True]]) (use RN.prems nn in auto)
      moreover have "plug ((d, c, a, side (\<not> d)) # fs) RL = plug fs (RN c l a r)" by (simp add: T True)
      moreover have "length ((d, c, a, side (\<not> d)) # fs) \<le> length fs + rheight (RN c l a r)" by simp
      moreover have "insert_loop n (by_key key) node x t = Ok (True, link_node d a node t)" using loop u m by simp
      moreover have "\<not> (\<exists>b\<in>set (inorder (RN c l a r)). key b = key node)" unfolding ex True by simp
      ultimately show ?thesis using L by (simp only: if_False) blast
    next
      case False
      have u: "u \<noteq> 0" using H(1) False tree_at_ne unfolding holds_def by blast
      have ht: "rheight (side d) < m" "rheight (side d) < rheight (RN c l a r)" using RN.prems(8) n by (auto simp: side_def)
      have sd: "sorted_by key (inorder (side d))" "node \<notin> set (inorder (side d))" using srt node by (simp_all add: side_def)
      have P: "plug ((d, c, a, side (\<not> d)) # fs) (side d) = plug fs (RN c l a r)" by (simp add: T)
      have IH: "if \<exists>b\<in>set (inorder (side d)). key b = key node then insert_loop m (by_key key) node u t = Ok (False, t)
        else \<exists>t' fs'. insert_loop m (by_key key) node u t = Ok (True, t') \<and> holds t' fs' node (RN False RL node RL) \<and>
          plug fs' RL = plug ((d, c, a, side (\<not> d)) # fs) (side d) \<and> length fs' \<le> length ((d, c, a, side (\<not> d)) # fs) + rheight (side d) \<and> fs' \<noteq> [] \<and>
          (\<forall>a\<in>set (lft fs'). key a < key node) \<and> (\<forall>a\<in>set (rgt fs'). key node < key a)"
      proof (cases d)
        case True
        then have sl: "side d = l" by (simp add: side_def)
        show ?thesis unfolding sl
          by (rule RN.IH(1) [OF H(1) [unfolded sl] False [unfolded sl] RN.prems(3) nn sd(2) [unfolded sl] RN.prems(6,7) ht(1) [unfolded sl] sd(1) [unfolded sl] L])
      next
        case d': False
        then have sl: "side d = r" by (simp add: side_def)
        show ?thesis unfolding sl
          by (rule RN.IH(2) [OF H(1) [unfolded sl] False [unfolded sl] RN.prems(3) nn sd(2) [unfolded sl] RN.prems(6,7) ht(1) [unfolded sl] sd(1) [unfolded sl] L])
      qed
      show ?thesis
      proof (cases "\<exists>b\<in>set (inorder (side d)). key b = key node")
        case True
        then show ?thesis using IH u unfolding ex loop by simp
      next
        case nex: False
        from IH [unfolded if_not_P [OF nex] P] obtain t' fs' where r: "insert_loop m (by_key key) node u t = Ok (True, t')"
          "holds t' fs' node (RN False RL node RL)" "plug fs' RL = plug fs (RN c l a r)"
          "length fs' \<le> length ((d, c, a, side (\<not> d)) # fs) + rheight (side d)" "fs' \<noteq> []"
          "\<forall>a\<in>set (lft fs'). key a < key node" "\<forall>a\<in>set (rgt fs'). key node < key a" by blast
        have "length fs' \<le> length fs + rheight (RN c l a r)" using r(4) ht(2) by simp
        then show ?thesis unfolding ex if_not_P [OF nex] loop using r u by auto
      qed
    qed
  qed
  show ?case
  proof (cases "key a = key node")
    case True
    then have "insert_loop n (by_key key) node x t = Ok (False, t)" using x by (simp add: n by_key_def)
    moreover have "\<exists>b\<in>set (inorder (RN c l a r)). key b = key node" using True by simp
    ultimately show ?thesis by (simp only: if_True)
  next
    case False
    then show ?thesis using go [of "key node < key a"] by (cases "key node < key a") auto
  qed
qed simp


text \<open>A well-formed tree in memory.\<close>

definition rb_wf :: "(nat \<Rightarrow> 'k::linorder) \<Rightarrow> rb_tree \<Rightarrow> rtree \<Rightarrow> bool" where
  "rb_wf key t W \<longleftrightarrow> holds t [] (rroot t) W \<and> rb W \<and> sorted_by key (inorder W)"

lemma height_length: "rheight T \<le> length (inorder T)"
  by (induction T) auto

lemma holds_new_node:
  assumes "holds t fs x T" and "node \<notin> addrs_of fs" and "node \<notin> set (inorder T)"
  shows "holds (t\<lparr>rnode := (rnode t)(node := v)\<rparr>) fs x T"
proof -
  let ?t = "t\<lparr>rnode := (rnode t)(node := v)\<rparr>"
  have a: "\<forall>a\<in>addrs_of fs. rnode ?t a = rnode t a" using assms(2) by auto
  have "tree_at (rnode ?t) q y T = tree_at (rnode t) q y T" for q y by (rule tree_at_cong) (use assms(3) in auto)
  moreover have "ctx_at (rnode ?t) (rroot ?t) fs x = ctx_at (rnode t) (rroot t) fs x" by (subst ctx_at_cong [OF a]) simp
  ultimately show ?thesis using assms(1) unfolding holds_def by simp
qed

lemma sorted_by_insert:
  assumes "sorted_by key (xs @ ys)" and "\<forall>a\<in>set xs. key a < key n" and "\<forall>a\<in>set ys. key n < key a"
  shows "sorted_by key (xs @ [n] @ ys)"
  using assms by (auto simp: sorted_by_def sorted_wrt_append)

lemma rb_insert_spec:
  assumes wf: "rb_wf key t W" and n: "node \<noteq> 0" "node \<notin> set (inorder W)" and fuel: "rheight W < n"
  shows "if \<exists>a\<in>set (inorder W). key a = key node then \<exists>t'. rb_insert n node (by_key key) t = Ok (- 1, t') \<and> rb_wf key t' W
    else \<exists>t' W'. rb_insert n node (by_key key) t = Ok (0, t') \<and> rb_wf key t' W' \<and> set (inorder W') = insert node (set (inorder W))"
proof -
  define t0 where "t0 = t\<lparr>rnode := (rnode t)(node := \<lparr>rbparent = 0, rbblack = RB_RED, rbleft = 0, rbright = 0\<rparr>)\<rparr>"
  have W: "holds t [] (rroot t) W" "rb W" "sorted_by key (inorder W)" using wf by (auto simp: rb_wf_def)
  have H: "holds t0 [] (rroot t) W" unfolding t0_def by (rule holds_new_node [OF W(1)]) (use n in auto)
  have z: "rbleft (rnode t0 node) = 0" "rbright (rnode t0 node) = 0" "rbparent (rnode t0 node) = 0" "rroot t0 = rroot t" by (simp_all add: t0_def)
  have e: "rb_insert n node (by_key key) t = andthen (insert_loop n (by_key key) node (rroot t) t0) (\<lambda>(new, t).
      if \<not> new then Ok (- 1, t) else andthen (rb_insert_fix n node t) (\<lambda>t. Ok (0, t)))"
    by (simp add: rb_insert_def t0_def Let_def)
  show ?thesis
  proof (cases "W = RL")
    case True
    then have r: "rroot t = 0" using W(1) by (simp add: holds_def)
    obtain m where m: "n = Suc m" using fuel by (cases n) auto
    let ?t = "(rb_set_parent_color node 0 RB_BLACK t0)\<lparr>rroot := node\<rparr>"
    have "rb_insert n node (by_key key) t = Ok (0, ?t)" unfolding e using z by (simp add: r m rb_insert_fix_def)
    moreover have "hchild b (rnode t0 node) = 0" for b using z by (simp add: hchild_def)
    then have "rb_wf key ?t (RN True RL node RL)" using n by (simp add: rb_wf_def holds_def rb_def sorted_by_def RB_BLACK_def)
    moreover have "\<not> (\<exists>a\<in>set (inorder W). key a = key node)" "set (inorder (RN True RL node RL)) = insert node (set (inorder W))" by (simp_all add: True)
    ultimately show ?thesis by (simp only: if_False) blast
  next
    case False
    have L: "if \<exists>a\<in>set (inorder W). key a = key node then insert_loop n (by_key key) node (rroot t) t0 = Ok (False, t0)
      else \<exists>t' fs'. insert_loop n (by_key key) node (rroot t) t0 = Ok (True, t') \<and> holds t' fs' node (RN False RL node RL) \<and>
        plug fs' RL = plug [] W \<and> length fs' \<le> length ([] :: frame list) + rheight W \<and> fs' \<noteq> [] \<and>
        (\<forall>a\<in>set (lft fs'). key a < key node) \<and> (\<forall>a\<in>set (rgt fs'). key node < key a)"
      by (rule insert_loop_spec [OF H False n(1) _ n(2) z(1,2) fuel W(3)]) simp_all
    show ?thesis
    proof (cases "\<exists>a\<in>set (inorder W). key a = key node")
      case dup: True
      have "rb_wf key t0 W" using H W z(4) by (simp add: rb_wf_def)
      then show ?thesis using L dup by (simp add: e)
    next
      case nex: False
      from L [unfolded if_not_P [OF nex]] obtain t' fs' where r: "insert_loop n (by_key key) node (rroot t) t0 = Ok (True, t')"
        "holds t' fs' node (RN False RL node RL)" "plug fs' RL = W" "length fs' \<le> rheight W" "fs' \<noteq> []"
        "\<forall>a\<in>set (lft fs'). key a < key node" "\<forall>a\<in>set (rgt fs'). key node < key a" by auto
      have ok: "ctx_ok fs' 0" using plug_rb [of fs' RL] W(2) r(3) by simp
      have p: "rbparent (rnode t' node) = par_of fs'" using r(2) by (simp add: holds_def)
      let ?W = "ins_fix fs' (RN False RL node RL) node"
      from insert_fix_loop_spec [OF r(2) _ ctx_ok_black_root [OF ok], of n] r(4) fuel obtain t2 where
        t2: "insert_fix_loop n node (par_of fs') t' = Ok t2" "holds t2 [] (rroot t2) ?W" by auto
      have i: "inorder ?W = lft fs' @ [node] @ rgt fs'" using inorder_ins_fix [OF refl, of fs' False RL node RL] by (simp add: inorder_plug)
      have iW: "inorder W = lft fs' @ rgt fs'" using inorder_plug [of fs' RL] r(3) by simp
      have "sorted_by key (inorder ?W)" unfolding i by (rule sorted_by_insert) (use W(3) iW r(6,7) in auto)
      moreover have "rb ?W" by (rule ins_fix_rb) (use ok in simp_all)
      ultimately have "rb_wf key t2 ?W" using t2(2) by (simp add: rb_wf_def)
      moreover have "rb_insert n node (by_key key) t = Ok (0, t2)" using r(1) t2(1) p by (simp add: e rb_insert_fix_def)
      moreover have "set (inorder ?W) = insert node (set (inorder W))" by (auto simp: i iW)
      ultimately show ?thesis unfolding if_not_P [OF nex] by blast
    qed
  qed
qed

section \<open>Search\<close>

lemma lookup_from_spec:
  assumes "tree_at (rnode t) q x T" and "sorted_by key (inorder T)" and "rheight T < n"
  shows "\<exists>r. lookup_from n (by_key key) node x t = Ok r \<and>
    (if \<exists>a\<in>set (inorder T). key a = key node then r \<in> set (inorder T) \<and> key r = key node else r = 0)"
  using assms
proof (induction T arbitrary: q x n)
  case RL
  then show ?case by (cases n) simp_all
next
  case (RN c l a r)
  obtain m where n: "n = Suc m" using RN.prems by (cases n) auto
  have srt: "sorted_by key (inorder l)" "sorted_by key (inorder r)" "\<forall>b\<in>set (inorder l). key b < key a" "\<forall>b\<in>set (inorder r). key a < key b"
    using RN.prems(2) by (auto simp: sorted_by_def sorted_wrt_append)
  have x: "x = a" "a \<noteq> 0" "tree_at (rnode t) a (hchild True (rnode t a)) l" "tree_at (rnode t) a (hchild False (rnode t a)) r"
    using RN.prems(1) by auto
  have h: "rheight l < m" "rheight r < m" using RN.prems(3) n by auto
  consider "key node < key a" | "key a < key node" | "key a = key node" by fastforce
  then show ?case
  proof cases
    case 1
    have "(\<exists>b\<in>set (inorder (RN c l a r)). key b = key node) \<longleftrightarrow> (\<exists>b\<in>set (inorder l). key b = key node)"
      using 1 srt(4) by (auto dest: order.strict_trans)
    then show ?thesis using RN.IH(1) [OF x(3) srt(1) h(1)] 1 x by (auto simp: n by_key_def split: if_splits)
  next
    case 2
    have "(\<exists>b\<in>set (inorder (RN c l a r)). key b = key node) \<longleftrightarrow> (\<exists>b\<in>set (inorder r). key b = key node)"
      using 2 srt(3) by (auto dest: order.strict_trans)
    then show ?thesis using RN.IH(2) [OF x(4) srt(2) h(2)] 2 x by (auto simp: n by_key_def split: if_splits)
  next
    case 3
    then show ?thesis using x by (auto simp: n by_key_def)
  qed
qed

lemma leftmost_spec:
  assumes "tree_at (rnode t) q x T" and "T \<noteq> RL" and "rheight T \<le> n"
  shows "leftmost n x t = Ok (hd (inorder T))"
  using assms
proof (induction T arbitrary: q x n)
  case (RN c l a r)
  obtain m where n: "n = Suc m" using RN.prems by (cases n) auto
  have x: "x = a" "tree_at (rnode t) a (hchild True (rnode t a)) l" using RN.prems(1) by auto
  show ?case
  proof (cases "l = RL")
    case True
    then show ?thesis using x by (simp add: n)
  next
    case False
    then have "inorder l \<noteq> []" by (cases l) auto
    then show ?thesis using RN.IH(1) [OF x(2) False, of m] RN.prems(3) n x tree_at_ne [OF x(2) False] by simp
  qed
qed simp

section \<open>Height\<close>

lemma bh_size: "invh T \<Longrightarrow> 2 ^ bh T \<le> length (inorder T) + 1"
proof (induction T)
  case (RN c l a r)
  then have "2 ^ bh l \<le> length (inorder l) + 1" "2 ^ bh l \<le> length (inorder r) + 1" by auto
  then show ?case by (auto simp: mult_2)
qed simp

lemma height_bh: "invh T \<Longrightarrow> invc T \<Longrightarrow> rheight T \<le> 2 * bh T + (if blk T then 0 else 1)"
proof (induction T)
  case (RN c l a r)
  then show ?case by (cases c) (auto split: if_splits)
qed simp

lemma rb_height:
  assumes "rb T"
  shows "2 ^ rheight T \<le> (length (inorder T) + 1)\<^sup>2"
proof -
  have "rheight T \<le> 2 * bh T" using height_bh [of T] assms by (simp add: rb_def)
  then have "(2 :: nat) ^ rheight T \<le> 2 ^ (2 * bh T)" by (rule power_increasing) simp
  also have "\<dots> = (2 ^ bh T)\<^sup>2" by (simp add: power_mult mult.commute)
  also have "\<dots> \<le> (length (inorder T) + 1)\<^sup>2" by (rule power_mono) (use bh_size assms in \<open>auto simp: rb_def\<close>)
  finally show ?thesis .
qed

end
