(* ===== verification/RBErase.thy ===== *)
theory RBErase
  imports RBSpec
begin

text \<open>
  Removal from a red-black tree, \<^verbatim>\<open>_rb_erase\<close> of \<^verbatim>\<open>src/common/rbtree.c\<close>: the node leaves the tree, and
  the loop of \<^verbatim>\<open>__rb_erase_fix\<close> restores the balance.  A subtree that has lost a black level hangs in
  its context; every round looks at its sibling.
\<close>

section \<open>Rotations\<close>

lemma rotation:
  assumes c: "ctx_at (rnode t) (rroot t) fs old" "ctx_distinct fs"
    and old: "old \<noteq> 0" "rbparent (rnode t old) = par_of fs" "rbblack (rnode t old) = c"
      "tree_at (rnode t) old (hchild d (rnode t old)) N" "tree_at (rnode t) old (hchild (\<not> d) (rnode t old)) x"
    and new: "new \<noteq> 0" "hchild d (rnode t new) = old" "tree_at (rnode t) new (hchild (\<not> d) (rnode t new)) y"
    and dist: "distinct (inorder (rbmk d c (rbmk d col N old x) new y))" "set (inorder (rbmk d c (rbmk d col N old x) new y)) \<inter> addrs_of fs = {}"
    and t': "t' = rb_rotate_set_parents old new col t"
  shows "holds t' fs new (rbmk d c (rbmk d col N old x) new y)"
proof -
  have D: "old \<notin> addrs_of fs" "new \<notin> addrs_of fs" "old \<noteq> new" using dist by (auto simp: distinct_rbmk inorder_set)
  note R = rotate_ctx [OF c old(1) D old(2) t']
  have T: "tree_at (rnode t') q v N = tree_at (rnode t) q v N" "tree_at (rnode t') q v x = tree_at (rnode t) q v x"
    "tree_at (rnode t') q v y = tree_at (rnode t) q v y" for q v
    by (rule tree_at_cong, rule ballI, rule R(4) [rule_format]; use dist in \<open>auto simp: distinct_rbmk inorder_set\<close>)+
  show ?thesis
    unfolding holds_def tree_at_rbmk using R(1-3) c(2) old new dist by (auto simp: T)
qed

lemma set_child_same: "hchild d (rnode t a) = x \<Longrightarrow> set_child d a x t = t"
proof -
  assume "hchild d (rnode t a) = x"
  then have "hset d x (rnode t a) = rnode t a" by (cases "rnode t a") (auto simp: hchild_def hset_def)
  then show ?thesis by (cases t) (simp add: set_child_def hset_def [symmetric] fun_upd_idem)
qed

definition raddr :: "rtree \<Rightarrow> nat" where
  "raddr T = (case T of RL \<Rightarrow> 0 | RN c l a r \<Rightarrow> a)"

lemma raddr_simps [simp]: "raddr RL = 0" "raddr (RN c l a r) = a" "raddr (rbmk d c l a r) = a" "raddr (paint c T) = raddr T"
  by (auto simp: raddr_def rbmk_def split: rtree.splits)

lemma tree_at_raddr: "tree_at h q x T \<Longrightarrow> x = raddr T"
  by (cases T) auto

lemma as_rbmk: "T \<noteq> RL \<Longrightarrow> T = rbmk d (blk T) (sub d T) (raddr T) (sub (\<not> d) T)"
  by (cases T) (auto simp: rbmk_def sub_def)

text \<open>Case 1: the red sibling \<open>q\<close> with its children \<open>x\<close> and \<open>y\<close>.\<close>

lemma erase_red_sibling_spec:
  assumes h: "holds t ((d, c, p, rbmk d False x q y) # fs) node N" and x: "x \<noteq> RL"
  shows "\<exists>t'. erase_red_sibling d p q t = Ok (raddr x, t') \<and> holds t' ((d, False, p, paint True x) # (d, c, q, y) # fs) node N"
proof -
  note H = h [unfolded holds_def ctx_at.simps tree_at_rbmk ctx_distinct.simps distinct_rbmk addrs_of.simps inorder_set]
  have X: "tree_at (rnode t) q (hchild d (rnode t q)) x" "p \<noteq> 0" "q \<noteq> 0" "hchild d (rnode t p) = node" using H by auto
  have z: "hchild d (rnode t q) = raddr x" by (rule tree_at_raddr [OF X(1)])
  have z0: "raddr x \<noteq> 0" using tree_at_ne [OF X(1) x] z by simp
  have zm: "raddr x \<in> set (inorder x)" using tree_at_addr [OF X(1)] z0 z by simp
  have D: "p \<noteq> q" "raddr x \<noteq> p" "raddr x \<noteq> q" using H zm by auto
  define t1 where "t1 = set_child d q p (rb_set_parent_color (raddr x) p RB_BLACK (set_child (\<not> d) p (raddr x) t))"
  have t1: "rroot t1 = rroot t" "rnode t1 p = hset (\<not> d) (raddr x) (rnode t p)" "rnode t1 q = hset d p (rnode t q)"
    "rnode t1 (raddr x) = hpc p True (rnode t (raddr x))" "\<And>a. a \<noteq> p \<Longrightarrow> a \<noteq> q \<Longrightarrow> a \<noteq> raddr x \<Longrightarrow> rnode t1 a = rnode t a"
    using D by (auto simp: t1_def RB_BLACK_def)
  have agree: "\<forall>a\<in>addrs_of fs. rnode t1 a = rnode t a" by (rule ballI, rule t1(5)) (use H zm in auto)
  have S: "tree_at (rnode t1) v w N = tree_at (rnode t) v w N" "tree_at (rnode t1) v w y = tree_at (rnode t) v w y" for v w
    by (rule tree_at_cong, rule ballI, rule t1(5); use H zm in auto)+
  have P: "tree_at (rnode t1) p (raddr x) (paint True x)"
  proof (rule tree_at_paint [OF X(1) [unfolded z]])
    show "\<forall>a\<in>set (inorder x) - {raddr x}. rnode t1 a = rnode t a" by (rule ballI, rule t1(5)) (use H in auto)
  qed (use t1(4) H in auto)
  have "holds (rb_rotate_set_parents p q RB_RED t1) fs q (rbmk d c (rbmk d False N p (paint True x)) q y)"
  proof (rule rotation [OF _ _ X(2) _ _ _ _ X(3) _ _ _ _, where t = t1])
    show "ctx_at (rnode t1) (rroot t1) fs p" unfolding t1(1) ctx_at_cong [OF agree] using H by simp
    show "tree_at (rnode t1) p (hchild (\<not> d) (rnode t1 p)) (paint True x)" using P by (simp add: t1(2))
  qed (use H X in \<open>auto simp: t1(2,3) S distinct_rbmk inorder_set RB_RED_def\<close>)
  then have "holds (rb_rotate_set_parents p q RB_RED t1) ((d, c, q, y) # fs) p (rbmk d False N p (paint True x))"
    using holds_child [of _ fs q d c "rbmk d False N p (paint True x)" q y] by (auto simp: holds_def tree_at_rbmk)
  then have "holds (rb_rotate_set_parents p q RB_RED t1) ((d, False, p, paint True x) # (d, c, q, y) # fs)
      (hchild d (rnode (rb_rotate_set_parents p q RB_RED t1) p)) N"
    by (rule holds_child)
  moreover have "hchild d (rnode (rb_rotate_set_parents p q RB_RED t1) p) = raddr N"
    using calculation tree_at_raddr unfolding holds_def by blast
  moreover have "node = raddr N" using h tree_at_raddr unfolding holds_def by blast
  moreover have "erase_red_sibling d p q t = Ok (raddr x, rb_rotate_set_parents p q RB_RED t1)"
    using z z0 by (simp add: erase_red_sibling_def Let_def t1_def)
  ultimately show ?thesis by auto
qed


lemma set_parent_simps [simp]:
  "rnode (rb_set_parent a p t) = (rnode t)(a := hpc p (rbblack (rnode t a)) (rnode t a))" "rroot (rb_set_parent a p t) = rroot t"
  by (simp_all add: rb_set_parent_def hpc_def)

text \<open>The last rotation; \<open>x\<close> and \<open>y\<close> are the children of the sibling \<open>q\<close>.\<close>

lemma erase_rotate_spec:
  assumes c: "ctx_at (rnode t) (rroot t) fs p" "ctx_distinct fs"
    and p: "p \<noteq> 0" "rbparent (rnode t p) = par_of fs" "rbblack (rnode t p) = c" "tree_at (rnode t) p (hchild d (rnode t p)) N"
    and q: "q \<noteq> 0" "tree_at (rnode t) vx (hchild d (rnode t q)) x" "tree_at (rnode t) vy (hchild (\<not> d) (rnode t q)) y" "y \<noteq> RL"
    and dist: "distinct (inorder (rbmk d c (rbmk d True N p x) q y))" "set (inorder (rbmk d c (rbmk d True N p x) q y)) \<inter> addrs_of fs = {}"
  shows "holds (erase_rotate d p q (hchild (\<not> d) (rnode t q)) t) fs q (rbmk d c (rbmk d True N p x) q (paint True y))"
proof -
  note D = dist [unfolded distinct_rbmk inorder_set]
  define b where "b = hchild d (rnode t q)"
  define f where "f = hchild (\<not> d) (rnode t q)"
  have f0: "f \<noteq> 0" using tree_at_ne [OF q(3,4)] by (simp add: f_def)
  have fm: "f \<in> set (inorder y)" using tree_at_addr [OF q(3)] f0 by (simp add: f_def)
  have bm: "b = 0 \<or> b \<in> set (inorder x)" using tree_at_addr [OF q(2)] by (auto simp: b_def)
  have ne: "p \<noteq> q" "f \<noteq> p" "f \<noteq> q" "b \<noteq> p" "b \<noteq> q" "b \<noteq> f" using D fm bm p(1) q(1) f0 by auto
  define t1 where "t1 = rb_set_parent_color f q RB_BLACK (set_child d q p (if b \<noteq> 0 then rb_set_parent b p (set_child (\<not> d) p b t) else set_child (\<not> d) p b t))"
  have t1: "rroot t1 = rroot t" "rnode t1 p = hset (\<not> d) b (rnode t p)" "rnode t1 q = hset d p (rnode t q)"
    "rnode t1 f = hpc q True (rnode t f)" "b \<noteq> 0 \<Longrightarrow> rnode t1 b = hpc p (rbblack (rnode t b)) (rnode t b)"
    "\<And>a. a \<noteq> p \<Longrightarrow> a \<noteq> q \<Longrightarrow> a \<noteq> f \<Longrightarrow> b = 0 \<or> a \<noteq> b \<Longrightarrow> rnode t1 a = rnode t a"
    using ne by (auto simp: t1_def RB_BLACK_def)
  have agree: "\<forall>a\<in>addrs_of fs. rnode t1 a = rnode t a" by (rule ballI, rule t1(6)) (use D fm bm in auto)
  have S: "tree_at (rnode t1) v w N = tree_at (rnode t) v w N" for v w
    by (rule tree_at_cong, rule ballI, rule t1(6)) (use D fm bm in auto)
  have X: "tree_at (rnode t1) p b x"
  proof (cases "b = 0")
    case False
    have "tree_at (rnode t1) p b (paint (blk x) x)"
    proof (rule tree_at_paint [OF q(2) [folded b_def]])
      show "b \<noteq> 0 \<longrightarrow> rnode t1 b = hpc p (blk x) (rnode t b)" using t1(5) tree_at_blk [OF q(2)] by (auto simp: b_def)
      show "\<forall>a\<in>set (inorder x) - {b}. rnode t1 a = rnode t a" by (rule ballI, rule t1(6)) (use D fm in auto)
    qed (use D in auto)
    then show ?thesis by simp
  qed (use q(2) in \<open>simp add: b_def\<close>)
  have Y: "tree_at (rnode t1) q f (paint True y)"
  proof (rule tree_at_paint [OF q(3) [folded f_def]])
    show "\<forall>a\<in>set (inorder y) - {f}. rnode t1 a = rnode t a" by (rule ballI, rule t1(6)) (use D bm in auto)
  qed (use D t1(4) in auto)
  have e: "erase_rotate d p q f t = rb_rotate_set_parents p q RB_BLACK t1"
    by (simp add: erase_rotate_def Let_def t1_def b_def)
  show ?thesis unfolding f_def [symmetric]
  proof (rule rotation [OF _ c(2) p(1) _ _ _ _ q(1) _ _ _ _ e [unfolded RB_BLACK_def]])
    show "ctx_at (rnode t1) (rroot t1) fs p" unfolding t1(1) ctx_at_cong [OF agree] by (rule c(1))
    show "tree_at (rnode t1) p (hchild (\<not> d) (rnode t1 p)) x" using X by (simp add: t1(2))
    show "tree_at (rnode t1) q (hchild (\<not> d) (rnode t1 q)) (paint True y)" using Y by (simp add: t1(3) f_def)
  qed (use p dist in \<open>simp_all add: t1(2,3) S distinct_rbmk inorder_set\<close>)
qed

text \<open>Cases 3 and 4 together: the subtree that takes the place of the parent \<open>p\<close>.\<close>

definition del_rot :: "bool \<Rightarrow> bool \<Rightarrow> rtree \<Rightarrow> nat \<Rightarrow> rtree \<Rightarrow> rtree" where
  "del_rot d c N p s =
     (let x = sub d s; y = sub (\<not> d) s; q = raddr s
      in if blk y then rbmk d c (rbmk d True N p (sub d x)) (raddr x) (rbmk d True (paint True (sub (\<not> d) x)) q y)
         else rbmk d c (rbmk d True N p x) q (paint True y))"

lemma erase_case_4:
  assumes h: "holds t ((d, c, p, rbmk d b x q y) # fs) node N" and y: "\<not> blk y"
  shows "holds (erase_rotate d p q (hchild (\<not> d) (rnode t q)) t) fs q (rbmk d c (rbmk d True N p x) q (paint True y))"
proof -
  note H = h [unfolded holds_def ctx_at.simps tree_at_rbmk ctx_distinct.simps distinct_rbmk addrs_of.simps inorder_set]
  have "y \<noteq> RL" using y by auto
  then show ?thesis
    by (intro erase_rotate_spec [where vx = q and vy = q]) (use H in \<open>auto simp: distinct_rbmk inorder_set\<close>)
qed

lemma erase_case_3:
  assumes h: "holds t ((d, c, p, rbmk d b (rbmk d b' x1 z x2) q y) # fs) node N"
  shows "holds (erase_rotate d p z q (erase_inner_red d p q z t)) fs z (rbmk d c (rbmk d True N p x1) z (rbmk d True (paint True x2) q y))"
proof -
  have G: "ctx_distinct ((d, c, p, rbmk d b (rbmk d b' x1 z x2) q y) # fs)" "distinct (inorder N)"
    "set (inorder N) \<inter> addrs_of ((d, c, p, rbmk d b (rbmk d b' x1 z x2) q y) # fs) = {}" using h unfolding holds_def by blast+
  have pf: "ctx_at (rnode t) (rroot t) fs p" "rbparent (rnode t p) = par_of fs" "rbblack (rnode t p) = c" "tree_at (rnode t) p (hchild d (rnode t p)) N"
    "tree_at (rnode t) z (hchild d (rnode t z)) x1" "tree_at (rnode t) q (hchild (\<not> d) (rnode t q)) y" using h by (simp_all add: holds_def tree_at_rbmk)
  have sets: "p \<noteq> q" "z \<noteq> p" "z \<noteq> q" "p \<notin> set (inorder x2)" "q \<notin> set (inorder x2)" "z \<notin> set (inorder x2)" "distinct (inorder x2)"
    "addrs_of fs \<inter> ({p, q, z} \<union> set (inorder x2)) = {}" "set (inorder N) \<inter> ({p, q, z} \<union> set (inorder x2)) = {}"
    "set (inorder x1) \<inter> ({p, q, z} \<union> set (inorder x2)) = {}" "set (inorder y) \<inter> ({p, q, z} \<union> set (inorder x2)) = {}"
    using G by (auto simp: distinct_rbmk inorder_set)
  define w where "w = hchild (\<not> d) (rnode t z)"
  have X: "tree_at (rnode t) z w x2" "p \<noteq> 0" "q \<noteq> 0" "z \<noteq> 0" "hchild d (rnode t q) = z" using h by (simp_all add: holds_def tree_at_rbmk w_def)
  have wm: "w = 0 \<or> w \<in> set (inorder x2)" using tree_at_addr [OF X(1)] by auto
  have ne: "p \<noteq> q" "z \<noteq> p" "z \<noteq> q" "w \<noteq> p" "w \<noteq> q" "w \<noteq> z" using sets(1-6) wm X(2-4) by auto
  define t1 where "t1 = erase_inner_red d p q z t"
  have t1: "rroot t1 = rroot t" "rnode t1 p = hset (\<not> d) z (rnode t p)" "rnode t1 q = hset d w (rnode t q)" "rnode t1 z = hset (\<not> d) q (rnode t z)"
    "w \<noteq> 0 \<Longrightarrow> rnode t1 w = hpc q True (rnode t w)"
    "\<And>a. a \<noteq> p \<Longrightarrow> a \<noteq> q \<Longrightarrow> a \<noteq> z \<Longrightarrow> w = 0 \<or> a \<noteq> w \<Longrightarrow> rnode t1 a = rnode t a"
    using ne by (auto simp: t1_def erase_inner_red_def Let_def w_def [symmetric] RB_BLACK_def)
  have agree: "\<forall>a\<in>addrs_of fs. rnode t1 a = rnode t a" by (rule ballI, rule t1(6)) (use sets(8) wm in auto)
  have S: "tree_at (rnode t1) u v N = tree_at (rnode t) u v N" "tree_at (rnode t1) u v x1 = tree_at (rnode t) u v x1" "tree_at (rnode t1) u v y = tree_at (rnode t) u v y" for u v
    by (rule tree_at_cong, rule ballI, rule t1(6); use sets(9-11) wm in auto)+
  have P: "tree_at (rnode t1) q w (paint True x2)"
  proof (rule tree_at_paint [OF X(1)])
    show "\<forall>a\<in>set (inorder x2) - {w}. rnode t1 a = rnode t a" by (rule ballI, rule t1(6)) (use sets(4-6) in auto)
  qed (use t1(5) sets(7) in auto)
  have Q: "tree_at (rnode t1) (rbparent (rnode t1 q)) q (rbmk d (rbblack (rnode t1 q)) (paint True x2) q y)"
    unfolding tree_at_rbmk using P X(3) pf(6) ne by (simp add: t1(3) S)
  have zc: "hchild (\<not> d) (rnode t1 z) = q" "hchild d (rnode t1 z) = hchild d (rnode t z)" by (simp_all add: t1(4))
  let ?Q = "rbmk d (rbblack (rnode t1 q)) (paint True x2) q y"
  have "holds (erase_rotate d p z (hchild (\<not> d) (rnode t1 z)) t1) fs z (rbmk d c (rbmk d True N p x1) z (paint True ?Q))"
  proof (rule erase_rotate_spec [where vx = z])
    show "ctx_at (rnode t1) (rroot t1) fs p" unfolding t1(1) ctx_at_cong [OF agree] by (rule pf(1))
    show "tree_at (rnode t1) (rbparent (rnode t1 q)) (hchild (\<not> d) (rnode t1 z)) ?Q" unfolding zc by (rule Q)
    show "tree_at (rnode t1) z (hchild d (rnode t1 z)) x1" unfolding zc S by (rule pf(5))
    show "tree_at (rnode t1) p (hchild d (rnode t1 p)) N" unfolding t1(2) S using pf(4) by simp
    show "?Q \<noteq> RL" by (simp add: rbmk_def)
    show "distinct (inorder (rbmk d c (rbmk d True N p x1) z ?Q))" using G by (auto simp: distinct_rbmk inorder_set)
    show "set (inorder (rbmk d c (rbmk d True N p x1) z ?Q)) \<inter> addrs_of fs = {}" using G by (auto simp: inorder_set)
  qed (use G X(2,4) pf(2,3) in \<open>simp_all add: t1(2)\<close>)
  then show ?thesis unfolding zc t1_def [symmetric] by (cases d) (simp_all add: rbmk_def)
qed


section \<open>The loop\<close>

lemma set_black_eq: "rb_set_black a t = rb_set_parent_color a (rbparent (rnode t a)) True t"
  by (simp add: rb_set_black_def rb_set_parent_color_def RB_BLACK_def)

lemma child_black: "tree_at h q x T \<Longrightarrow> (x = 0 \<or> rbblack (h x)) = blk T"
  by (cases T) auto

lemma black_sibling_spec:
  assumes h: "holds t ((d, c, p, s) # fs) node N" and s: "s \<noteq> RL"
  shows "if blk (sub d s) \<and> blk (sub (\<not> d) s)
    then \<exists>t'. erase_black_sibling d p (raddr s) t = (c, t') \<and> holds t' fs p (rbmk d True N p (paint False s))
    else \<exists>t' x. erase_black_sibling d p (raddr s) t = (False, t') \<and> holds t' fs x (del_rot d c N p s)"
proof -
  define x y q where "x = sub d s" and "y = sub (\<not> d) s" and "q = raddr s"
  have e: "s = rbmk d (blk s) x q y" using as_rbmk [OF s, of d] by (simp add: x_def y_def q_def)
  have Q: "tree_at (rnode t) p (hchild (\<not> d) (rnode t p)) s" "p \<noteq> 0" "rbblack (rnode t p) = c" using h by (auto simp: holds_def)
  have q: "hchild (\<not> d) (rnode t p) = q" using tree_at_raddr [OF Q(1)] by (simp add: q_def)
  have C: "tree_at (rnode t) q (hchild d (rnode t q)) x" "tree_at (rnode t) q (hchild (\<not> d) (rnode t q)) y" "q \<noteq> 0"
    using Q(1) unfolding q by (subst (asm) e, simp add: tree_at_rbmk)+
  note B = child_black [OF C(1)] child_black [OF C(2)]
  have pq: "p \<noteq> q"
  proof
    assume "p = q"
    then have "p \<in> set (inorder s)" by (subst e) (simp add: inorder_set)
    then show False using h by (auto simp: holds_def)
  qed
  show ?thesis unfolding x_def [symmetric] y_def [symmetric] q_def [symmetric]
  proof (cases "blk x \<and> blk y")
    case True
    define t1 where "t1 = rb_set_parent_color q p False t"
    have flip: "holds t fs p (rbmk d c N p s)" using h by (simp add: holds_Cons)
    then have "holds t ((\<not> d, c, p, N) # fs) q s" using q unfolding holds_Cons rbmk_flip by simp
    from holds_paint [OF this C(3), of False] have "holds t1 ((\<not> d, c, p, N) # fs) q (paint False s)" by (simp add: t1_def)
    then have t1: "holds t1 fs p (rbmk d c N p (paint False s))" unfolding holds_Cons rbmk_flip by simp
    have pc: "rbblack (rnode t1 p) = c" "rbparent (rnode t1 p) = par_of fs" using t1 by (auto simp: holds_def tree_at_rbmk)
    have t2: "holds (rb_set_black p t1) fs p (rbmk d True N p (paint False s))"
      using holds_paint [OF t1 Q(2), of True] by (simp add: set_black_eq pc(2) rbmk_def split: if_splits)
    have "erase_black_sibling d p q t = (c, if c then t1 else rb_set_black p t1)"
      using True B pc(1) by (simp add: erase_black_sibling_def t1_def [symmetric] RB_RED_def Let_def)
    then show "if blk x \<and> blk y then \<exists>t'. erase_black_sibling d p q t = (c, t') \<and> holds t' fs p (rbmk d True N p (paint False s))
        else \<exists>t' v. erase_black_sibling d p q t = (False, t') \<and> holds t' fs v (del_rot d c N p s)"
      using True t1 t2 by (cases c) auto
  next
    case False
    have "\<exists>t' v. erase_black_sibling d p q t = (False, t') \<and> holds t' fs v (del_rot d c N p s)"
    proof (cases "blk y")
      case y: True
      then have xr: "\<not> blk x" using False by simp
      then have xe: "x = rbmk d (blk x) (sub d x) (raddr x) (sub (\<not> d) x)" by (intro as_rbmk) auto
      have z: "hchild d (rnode t q) = raddr x" by (rule tree_at_raddr [OF C(1)])
      have "holds t ((d, c, p, rbmk d (blk s) (rbmk d (blk x) (sub d x) (raddr x) (sub (\<not> d) x)) q y) # fs) node N"
        unfolding xe [symmetric] e [symmetric] by (rule h)
      from erase_case_3 [OF this] show ?thesis
        using B y xr z unfolding del_rot_def Let_def x_def [symmetric] y_def [symmetric] q_def [symmetric]
        by (simp add: erase_black_sibling_def Let_def) blast
    next
      case y: False
      have "holds t ((d, c, p, rbmk d (blk s) x q y) # fs) node N" unfolding e [symmetric] by (rule h)
      from erase_case_4 [OF this y] show ?thesis
        using B y unfolding del_rot_def Let_def x_def [symmetric] y_def [symmetric] q_def [symmetric]
        by (simp add: erase_black_sibling_def Let_def) blast
    qed
    then show "if blk x \<and> blk y then \<exists>t'. erase_black_sibling d p q t = (c, t') \<and> holds t' fs p (rbmk d True N p (paint False s))
        else \<exists>t' v. erase_black_sibling d p q t = (False, t') \<and> holds t' fs v (del_rot d c N p s)"
      unfolding if_not_P [OF False] .
  qed
qed

fun del_fix :: "frame list \<Rightarrow> rtree \<Rightarrow> rtree" where
  "del_fix [] N = N"
| "del_fix ((d, c, p, s) # fs) N =
     (if blk s
      then if blk (sub d s) \<and> blk (sub (\<not> d) s)
           then (if c then del_fix fs (rbmk d True N p (paint False s)) else plug fs (rbmk d True N p (paint False s)))
           else plug fs (del_rot d c N p s)
      else let x = paint True (sub d s); y = sub (\<not> d) s
           in plug ((d, c, raddr s, y) # fs)
                (if blk (sub d x) \<and> blk (sub (\<not> d) x) then rbmk d True N p (paint False x) else del_rot d False N p x))"

lemma bh_pos: "0 < bh T \<Longrightarrow> T \<noteq> RL"
  by auto

lemma sub_red:
  assumes "invh s" and "invc s" and "\<not> blk s" and "0 < bh s"
  shows "sub d s \<noteq> RL" and "blk (sub d s)" and "bh (sub d s) = bh s"
proof -
  show b: "bh (sub d s) = bh s" by (rule sub_inv(4) [OF assms(1,3)])
  show "blk (sub d s)" by (rule sub_inv(3) [OF assms(2,3)])
  show "sub d s \<noteq> RL" using b assms(4) by auto
qed

lemma erase_fix_loop_spec:
  assumes "holds t ((d, c, p, s) # fs) node N" and "ctx_ok ((d, c, p, s) # fs) (bh N + 1)" and "length fs < n"
  shows "\<exists>t'. erase_fix_loop n node p t = Ok t' \<and> holds t' [] (rroot t') (del_fix ((d, c, p, s) # fs) N)"
  using assms
proof (induction fs arbitrary: d c p s node N n t)
  have round: "\<exists>t2. (erase_fix_loop n node p t = (if c \<and> blk s \<and> blk (sub d s) \<and> blk (sub (\<not> d) s)
        then (if par_of fs \<noteq> 0 then erase_fix_loop m p (par_of fs) t2 else Ok t2) else Ok t2)) \<and>
      (if c \<and> blk s \<and> blk (sub d s) \<and> blk (sub (\<not> d) s) then holds t2 fs p (rbmk d True N p (paint False s))
       else holds t2 [] (rroot t2) (del_fix ((d, c, p, s) # fs) N))"
    if h: "holds t ((d, c, p, s) # fs) node N" and ok: "ctx_ok ((d, c, p, s) # fs) (bh N + 1)" and n: "n = Suc m" for d c p s fs node N n m t
  proof -
    have sne: "s \<noteq> RL" using ok by auto
    have Q: "tree_at (rnode t) p (hchild (\<not> d) (rnode t p)) s" "hchild d (rnode t p) = node" "tree_at (rnode t) p node N" using h by (auto simp: holds_def)
    define q where "q = raddr s"
    have q: "hchild (\<not> d) (rnode t p) = q" using tree_at_raddr [OF Q(1)] by (simp add: q_def)
    have q0: "q \<noteq> 0" using tree_at_ne [OF Q(1) sne] q by simp
    have qm: "q \<in> set (inorder s)" using tree_at_addr [OF Q(1)] q q0 by simp
    have nq: "node \<noteq> q"
    proof
      assume "node = q"
      then have "q \<in> set (inorder N)" using tree_at_addr [OF Q(3)] q0 by simp
      then show False using h qm by (auto simp: holds_def)
    qed
    have d: "(node \<noteq> hchild False (rnode t p)) = d" using Q(2) q nq by (cases d) auto
    have red: "rbblack (rnode t q) = blk s" using tree_at_blk [OF Q(1)] q q0 by simp
    show ?thesis
    proof (cases "blk s")
      case True
      note B = black_sibling_spec [OF h sne, folded q_def]
      show ?thesis
      proof (cases "blk (sub d s) \<and> blk (sub (\<not> d) s)")
        case bb: True
        from B [unfolded if_P [OF bb]] obtain t2 where t2: "erase_black_sibling d p q t = (c, t2)" "holds t2 fs p (rbmk d True N p (paint False s))" by blast
        have par: "rbparent (rnode t2 p) = par_of fs" using t2(2) by (simp add: holds_def tree_at_rbmk)
        have "erase_fix_loop n node p t = (if c then (if par_of fs \<noteq> 0 then erase_fix_loop m p (par_of fs) t2 else Ok t2) else Ok t2)"
          using q0 red True t2(1) par by (simp add: n d q Let_def)
        moreover have "holds t2 [] (rroot t2) (plug fs (rbmk d True N p (paint False s)))" by (rule holds_plug [OF t2(2)])
        ultimately show ?thesis using True bb t2(2) by (intro exI [of _ t2]) auto
      next
        case nb: False
        from B [unfolded if_not_P [OF nb]] obtain t2 v where t2: "erase_black_sibling d p q t = (False, t2)" "holds t2 fs v (del_rot d c N p s)" by blast
        have "erase_fix_loop n node p t = Ok t2" using q0 red True t2(1) by (simp add: n d q Let_def)
        then show ?thesis using True nb holds_plug [OF t2(2)] by (intro exI [of _ t2]) auto
      qed
    next
      case False
      define x y where "x = sub d s" and "y = sub (\<not> d) s"
      have sx: "x \<noteq> RL" "blk x" using sub_red [of s d] ok False by (auto simp: x_def)
      have e: "s = rbmk d False x q y" using as_rbmk [OF sne, of d] False by (simp add: x_def y_def q_def)
      obtain t1 where t1: "erase_red_sibling d p q t = Ok (raddr x, t1)" "holds t1 ((d, False, p, paint True x) # (d, c, q, y) # fs) node N"
        using erase_red_sibling_spec [OF h [unfolded e] sx(1)] by blast
      have px: "paint True x \<noteq> RL" using sx(1) by (cases x) auto
      note B = black_sibling_spec [OF t1(2) px, simplified]
      define R where "R = (if blk (sub d (paint True x)) \<and> blk (sub (\<not> d) (paint True x)) then rbmk d True N p (paint False (paint True x)) else del_rot d False N p (paint True x))"
      obtain t2 v where t2: "erase_black_sibling d p (raddr x) t1 = (False, t2)" "holds t2 ((d, c, q, y) # fs) v R"
        using B unfolding R_def by (auto split: if_splits)
      have "erase_fix_loop n node p t = Ok t2" using q0 red False t1(1) t2(1) by (simp add: n d q)
      moreover have "del_fix ((d, c, p, s) # fs) N = plug ((d, c, q, y) # fs) R" using False by (simp add: R_def x_def y_def q_def Let_def)
      ultimately show ?thesis using False holds_plug [OF t2(2)] by (intro exI [of _ t2]) simp
    qed
  qed
  {
    case Nil
    obtain m where n: "n = Suc m" using Nil by (cases n) auto
    from round [OF Nil(1,2) n] obtain t2 where
      l: "erase_fix_loop n node p t = (if c \<and> blk s \<and> blk (sub d s) \<and> blk (sub (\<not> d) s)
        then (if par_of [] \<noteq> 0 then erase_fix_loop m p (par_of []) t2 else Ok t2) else Ok t2)" and
      r: "if c \<and> blk s \<and> blk (sub d s) \<and> blk (sub (\<not> d) s) then holds t2 [] p (rbmk d True N p (paint False s))
       else holds t2 [] (rroot t2) (del_fix [(d, c, p, s)] N)" by blast
    have e: "erase_fix_loop n node p t = Ok t2" using l by simp
    show ?case
    proof (cases "c \<and> blk s \<and> blk (sub d s) \<and> blk (sub (\<not> d) s)")
      case True
      then have h: "holds t2 [] p (rbmk d True N p (paint False s))" using r by simp
      then have "rroot t2 = p" by (simp add: holds_def)
      then show ?thesis using e h True by simp
    next
      case False
      show ?thesis using e r [unfolded if_not_P [OF False]] by blast
    qed
  next
    case (Cons f fs)
    obtain m where n: "n = Suc m" using Cons.prems by (cases n) auto
    obtain d2 c2 p2 s2 where f: "f = (d2, c2, p2, s2)" by (cases f) auto
    from round [OF Cons.prems(1,2) n] obtain t2 where
      l: "erase_fix_loop n node p t = (if c \<and> blk s \<and> blk (sub d s) \<and> blk (sub (\<not> d) s)
        then (if par_of (f # fs) \<noteq> 0 then erase_fix_loop m p (par_of (f # fs)) t2 else Ok t2) else Ok t2)" and
      r: "if c \<and> blk s \<and> blk (sub d s) \<and> blk (sub (\<not> d) s) then holds t2 (f # fs) p (rbmk d True N p (paint False s))
       else holds t2 [] (rroot t2) (del_fix ((d, c, p, s) # f # fs) N)" by blast
    show ?case
    proof (cases "c \<and> blk s \<and> blk (sub d s) \<and> blk (sub (\<not> d) s)")
      case True
      have h2: "holds t2 ((d2, c2, p2, s2) # fs) p (rbmk d True N p (paint False s))" using r True f by simp
      have p2: "p2 \<noteq> 0" using h2 by (auto simp: holds_def)
      have "bh (rbmk d True N p (paint False s)) = bh N + 1"
        using True Cons.prems(2) by (cases s) (auto simp: rbmk_def)
      then have ok2: "ctx_ok ((d2, c2, p2, s2) # fs) (bh (rbmk d True N p (paint False s)) + 1)" using Cons.prems(2) True f by simp
      have "\<exists>t'. erase_fix_loop m p p2 t2 = Ok t' \<and> holds t' [] (rroot t') (del_fix ((d2, c2, p2, s2) # fs) (rbmk d True N p (paint False s)))"
        by (rule Cons.IH [OF h2 ok2]) (use Cons.prems(3) n in simp)
      then show ?thesis using l True f p2 by simp
    next
      case False
      show ?thesis using l [unfolded if_not_P [OF False]] r [unfolded if_not_P [OF False]] by blast
    qed
  }
qed


section \<open>The balance after the loop\<close>

lemma del_rot_inv:
  assumes s: "s \<noteq> RL" "invh s" "invc s" "blk s" "bh s = bh N + 1" and N: "invh N" "invc N" and r: "\<not> (blk (sub d s) \<and> blk (sub (\<not> d) s))"
  shows "invh (del_rot d c N p s) \<and> invc (del_rot d c N p s) \<and> blk (del_rot d c N p s) = c \<and> bh (del_rot d c N p s) = bh N + 1 + (if c then 1 else 0)"
proof -
  define x y where "x = sub d s" and "y = sub (\<not> d) s"
  have e: "s = rbmk d True x (raddr s) y" using as_rbmk [OF s(1), of d] s(4) by (simp add: x_def y_def)
  have "invh (rbmk d True x (raddr s) y)" "invc (rbmk d True x (raddr s) y)" "bh (rbmk d True x (raddr s) y) = bh N + 1"
    unfolding e [symmetric] using s by auto
  then have i: "invh x" "invh y" "invc x" "invc y" "bh x = bh N" "bh y = bh N" by (auto simp: rbmk_inv bh_rbmk)
  show ?thesis
  proof (cases "blk y")
    case True
    then have xr: "\<not> blk x" using r by (simp add: x_def y_def)
    then have xn: "x = rbmk d False (sub d x) (raddr x) (sub (\<not> d) x)" using as_rbmk [of x d] by (cases x) auto
    define u v where "u = sub d x" and "v = sub (\<not> d) x"
    have "invh (rbmk d False u (raddr x) v)" "invc (rbmk d False u (raddr x) v)" "bh (rbmk d False u (raddr x) v) = bh N"
      unfolding u_def v_def xn [symmetric] using i by auto
    then have j: "invh u" "invh v" "bh u = bh v" "invc u" "invc v" "blk u" "blk v" "bh u = bh N" by (auto simp: rbmk_inv bh_rbmk)
    have "del_rot d c N p s = rbmk d c (rbmk d True N p u) (raddr x) (rbmk d True v (raddr s) y)"
      using True j(7) by (simp add: del_rot_def Let_def x_def [symmetric] y_def [symmetric] u_def [symmetric] v_def [symmetric])
    then show ?thesis using i j N by (simp add: rbmk_inv)
  next
    case False
    have "del_rot d c N p s = rbmk d c (rbmk d True N p x) (raddr s) (paint True y)"
      using False by (simp add: del_rot_def Let_def x_def [symmetric] y_def [symmetric])
    then show ?thesis using i N False by (simp add: rbmk_inv paint_inv)
  qed
qed

lemma inorder_del_rot:
  assumes "s \<noteq> RL" and "\<not> (blk (sub d s) \<and> blk (sub (\<not> d) s))"
  shows "inorder (del_rot d c N p s) = inorder (rbmk d k N p s)"
proof -
  have "inorder s = inorder (rbmk d (blk s) (sub d s) (raddr s) (sub (\<not> d) s))" using as_rbmk [OF assms(1), of d] by simp
  moreover have "\<not> blk (sub d s) \<Longrightarrow> inorder (sub d s) = inorder (rbmk d (blk (sub d s)) (sub d (sub d s)) (raddr (sub d s)) (sub (\<not> d) (sub d s)))"
    using as_rbmk [of "sub d s" d] by (metis blk.simps(1))
  ultimately show ?thesis using assms(2) by (auto simp: del_rot_def Let_def inorder_rbmk)
qed

lemma red_step:
  assumes N: "invh N" "invc N" and s: "s \<noteq> RL" "invh s" "invc s" "blk s" "bh s = bh N + 1"
    and R_def: "R = (if blk (sub d s) \<and> blk (sub (\<not> d) s) then rbmk d True N p (paint False s) else del_rot d False N p s)"
  shows "invh R \<and> invc R \<and> bh R = bh N + 1 \<and> inorder R = inorder (rbmk d True N p s)"
proof (cases "blk (sub d s) \<and> blk (sub (\<not> d) s)")
  case True
  then have R: "R = rbmk d True N p (paint False s)" by (simp add: R_def)
  obtain l a r where e: "s = RN True l a r" using s(1,4) by (cases s) auto
  have "blk l" "blk r" using True by (auto simp: e sub_def split: if_splits)
  then show ?thesis using N s by (simp add: R rbmk_inv e inorder_rbmk)
next
  case False
  have R: "R = del_rot d False N p s" unfolding R_def by (rule if_not_P [OF False])
  show ?thesis unfolding R using del_rot_inv [OF s N False, of False p] inorder_del_rot [OF s(1) False] by simp
qed

lemma del_fix_rb:
  assumes "ctx_ok fs (bh N + 1)" and "invh N" and "invc N" and "blk N"
  shows "rb (del_fix fs N) \<and> inorder (del_fix fs N) = lft fs @ inorder N @ rgt fs"
  using assms
proof (induction fs arbitrary: N)
  case (Cons f fs)
  obtain d c p s where f: "f = (d, c, p, s)" by (cases f) auto
  have s: "invh s" "invc s" "bh s = bh N + 1" "s \<noteq> RL" and c: "c \<or> blk s \<and> fs \<noteq> [] \<and> fcol fs" and ok: "ctx_ok fs (bh N + 1 + (if c then 1 else 0))"
    using Cons.prems(1) by (auto simp: f)
  have i: "inorder (plug (f # fs) N) = lft (f # fs) @ inorder N @ rgt (f # fs)" by (rule inorder_plug)
  show ?case
  proof (cases "blk s")
    case bs: True
    show ?thesis
    proof (cases "blk (sub d s) \<and> blk (sub (\<not> d) s)")
      case True
      define M where "M = rbmk d True N p (paint False s)"
      have M: "invh M" "invc M" "bh M = bh N + 1" "blk M" "inorder M = inorder (rbmk d True N p s)"
        using red_step [OF Cons.prems(2,3) s(4,1,2) bs s(3) refl, of d p] True by (simp_all add: M_def rbmk_inv)
      show ?thesis
      proof (cases c)
        case True
        have "rb (del_fix fs M) \<and> inorder (del_fix fs M) = lft fs @ inorder M @ rgt fs"
          by (rule Cons.IH) (use ok M True in auto)
        then show ?thesis using True bs \<open>blk (sub d s) \<and> blk (sub (\<not> d) s)\<close> i M(5) by (auto simp: f M_def [symmetric] inorder_rbmk)
      next
        case False
        have "rb (plug fs M)" by (rule rb_plug) (use ok M False in auto)
        then show ?thesis using False bs \<open>blk (sub d s) \<and> blk (sub (\<not> d) s)\<close> M(5) by (auto simp: f M_def [symmetric] inorder_plug inorder_rbmk)
      qed
    next
      case False
      note R = del_rot_inv [OF s(4,1,2) bs s(3) Cons.prems(2,3) False, of c p]
      have "rb (plug fs (del_rot d c N p s))" by (rule rb_plug) (use ok R c in auto)
      then show ?thesis using False bs inorder_del_rot [OF s(4) False, of c N p c] by (auto simp: f inorder_plug inorder_rbmk)
    qed
  next
    case False
    define x y where "x = paint True (sub d s)" and "y = sub (\<not> d) s"
    note b = sub_red [OF s(1,2) False, of d]
    have T: c using c False by simp
    have e: "s = rbmk d False (sub d s) (raddr s) y" using as_rbmk [OF s(4), of d] False by (simp add: y_def)
    have x: "x = sub d s" using b s(3) by (simp add: x_def)
    have X: "x \<noteq> RL" "invh x" "invc x" "blk x" "bh x = bh N + 1" using b s sub_inv(1,2) by (simp_all add: x)
    have Y: "invh y" "invc y" "blk y" "bh y = bh N + 1" using sub_inv(1,2) [of s "\<not> d"] sub_red [OF s(1,2) False, of "\<not> d"] s(1-3) by (simp_all add: y_def)
    define R where "R = (if blk (sub d x) \<and> blk (sub (\<not> d) x) then rbmk d True N p (paint False x) else del_rot d False N p x)"
    have R: "invh R" "invc R" "bh R = bh N + 1" "inorder R = inorder (rbmk d True N p x)"
      using red_step [OF Cons.prems(2,3) X refl, of d p] by (simp_all add: R_def)
    have eq: "del_fix (f # fs) N = plug ((d, c, raddr s, y) # fs) R" using False by (simp add: f R_def x_def y_def Let_def)
    have "rb (plug ((d, c, raddr s, y) # fs) R)" by (rule rb_plug) (use ok R Y T in auto)
    moreover have "inorder s = inorder (rbmk d False x (raddr s) y)" using e by (simp add: x)
    ultimately show ?thesis unfolding eq using R(4) by (auto simp: f inorder_plug inorder_rbmk)
  qed
qed (simp add: rb_def)


section \<open>Taking a node out\<close>

lemma change_child_simps [simp]:
  "rnode (rb_change_child u v p t) = (if p \<noteq> 0 then (rnode t)(p := hset (rbleft (rnode t p) = u) v (rnode t p)) else rnode t)"
  "rroot (rb_change_child u v p t) = (if p \<noteq> 0 then rroot t else v)"
  by (auto simp: rb_change_child_def hchild_def)

lemma hpc_hpc [simp]: "hpc p c (hpc p' c' n) = hpc p c n"
  by (simp add: hpc_def)

text \<open>A node with a leaf on one side gives its place to the child on the other.\<close>

lemma drop_node:
  assumes h: "holds t fs a (rbmk d c T a RL)" and x: "x = hchild d (rnode t a)"
    and u: "u = rb_change_child a x (par_of fs) t" and t': "t' = (if x \<noteq> 0 then rb_set_parent_color x (par_of fs) k u else u)"
  shows "holds t' fs x (paint k T)"
proof -
  have a: "a \<noteq> 0" "a \<notin> addrs_of fs" "ctx_at (rnode t) (rroot t) fs a" "ctx_distinct fs" "tree_at (rnode t) a x T" "a \<notin> set (inorder T)"
    "distinct (inorder T)" "set (inorder T) \<inter> addrs_of fs = {}"
    using h x by (auto simp: holds_def tree_at_rbmk distinct_rbmk inorder_set)
  note C = change_child_ctx [OF a(3,4,1,2) u]
  have xm: "x \<noteq> 0 \<longrightarrow> x \<notin> addrs_of fs" using tree_at_addr [OF a(5)] a(8) by blast
  have agree: "\<forall>v\<in>addrs_of fs. rnode t' v = rnode u v" using xm t' by auto
  have "rroot t' = rroot u" using t' by auto
  then have "ctx_at (rnode t') (rroot t') fs x" using C(1) ctx_at_cong [OF agree] by simp
  moreover have "tree_at (rnode t') (par_of fs) x (paint k T)"
  proof (rule tree_at_paint [OF a(5,7)])
    show "x \<noteq> 0 \<longrightarrow> rnode t' x = hpc (par_of fs) k (rnode t x)" using xm C(2) t' by auto
    show "\<forall>v\<in>set (inorder T) - {x}. rnode t' v = rnode t v" using C(2) a(8) t' by auto
  qed
  ultimately show ?thesis using a by (simp add: holds_def)
qed

text \<open>Another node in the place of an inner one.\<close>

lemma rename_node:
  assumes h: "holds t fs a (RN c l a r)" and b: "b \<noteq> 0" "b \<notin> addrs_of fs" "b \<notin> set (inorder l)" "b \<notin> set (inorder r)"
    and xy: "x = hchild True (rnode t a)" "y = hchild False (rnode t a)"
    and ctx: "\<forall>v\<in>addrs_of fs. rnode t' v = rnode (rb_change_child a b (par_of fs) t) v" "rroot t' = rroot (rb_change_child a b (par_of fs) t)"
    and nb: "rbparent (rnode t' b) = par_of fs" "rbblack (rnode t' b) = c" "hchild True (rnode t' b) = x" "hchild False (rnode t' b) = y"
    and px: "x \<noteq> 0 \<longrightarrow> rnode t' x = hpc b (blk l) (rnode t x)" "\<forall>v\<in>set (inorder l) - {x}. rnode t' v = rnode t v"
    and py: "y \<noteq> 0 \<longrightarrow> rnode t' y = hpc b (blk r) (rnode t y)" "\<forall>v\<in>set (inorder r) - {y}. rnode t' v = rnode t v"
  shows "holds t' fs b (RN c l b r)"
proof -
  have a: "a \<noteq> 0" "a \<notin> addrs_of fs" "ctx_at (rnode t) (rroot t) fs a" "ctx_distinct fs" "tree_at (rnode t) a x l" "tree_at (rnode t) a y r"
    "distinct (inorder l)" "distinct (inorder r)" using h xy by (auto simp: holds_def)
  note C = change_child_ctx [OF a(3,4,1,2) refl, of b]
  have "ctx_at (rnode t') (rroot t') fs b" unfolding ctx(2) ctx_at_cong [OF ctx(1)] by (rule C(1))
  moreover have "tree_at (rnode t') b x l" using tree_at_paint [OF a(5,7) px] by simp
  moreover have "tree_at (rnode t') b y r" using tree_at_paint [OF a(6,8) py] by simp
  ultimately show ?thesis using h b nb by (auto simp: holds_def)
qed

lemma plug_append: "plug (ps @ qs) T = plug qs (plug ps T)"
proof (induction ps arbitrary: T)
  case (Cons f ps)
  then show ?case by (cases f) simp
qed simp

lemma frames_append:
  "addrs_of (ps @ qs) = addrs_of ps \<union> addrs_of qs"
  "ctx_distinct (ps @ qs) \<longleftrightarrow> ctx_distinct ps \<and> ctx_distinct qs \<and> addrs_of ps \<inter> addrs_of qs = {}"
  "lft (ps @ qs) = lft qs @ lft ps" "rgt (ps @ qs) = rgt ps @ rgt qs"
  "par_of (ps @ qs) = (if ps = [] then par_of qs else par_of ps)"
proof -
  show A: "addrs_of (ps @ qs) = addrs_of ps \<union> addrs_of qs" for ps by (induction ps) auto
  show "ctx_distinct (ps @ qs) \<longleftrightarrow> ctx_distinct ps \<and> ctx_distinct qs \<and> addrs_of ps \<inter> addrs_of qs = {}"
    by (induction ps) (auto simp: A)
  show "lft (ps @ qs) = lft qs @ lft ps" by (induction ps) auto
  show "rgt (ps @ qs) = rgt ps @ rgt qs" by (induction ps) auto
  show "par_of (ps @ qs) = (if ps = [] then par_of qs else par_of ps)" by (cases ps) auto
qed

lemma ctx_ok_frame: "ctx_ok (ps @ (d, c, a, s) # fs) n \<longleftrightarrow> ctx_ok (ps @ (d, c, b, s) # fs) n"
proof (induction ps arbitrary: n)
  case (Cons f ps)
  obtain d' c' a' s' where f: "f = (d', c', a', s')" by (cases f) auto
  have "fcol (ps @ (d, c, a, s) # fs) = fcol (ps @ (d, c, b, s) # fs)" by (cases ps) auto
  then show ?case using Cons by (simp add: f)
qed simp

text \<open>Going down to a subtree.\<close>

lemma holds_unplug: "holds t [] (rroot t) (plug fs T) \<Longrightarrow> holds t fs (raddr T) T"
proof (induction fs arbitrary: T)
  case Nil
  then show ?case using tree_at_raddr [of "rnode t" 0 "rroot t" T] by (simp add: holds_def)
next
  case (Cons f fs)
  obtain d c a s where f: "f = (d, c, a, s)" by (cases f) auto
  have h: "holds t fs a (rbmk d c T a s)" using Cons.IH [of "rbmk d c T a s"] Cons.prems by (simp add: f)
  then have "tree_at (rnode t) a (hchild d (rnode t a)) T" by (simp add: holds_def tree_at_rbmk)
  then have "raddr T = hchild d (rnode t a)" by (metis tree_at_raddr)
  then show ?case using h by (simp add: f holds_Cons)
qed

lemma find_node: "node \<in> set (inorder W) \<Longrightarrow> \<exists>fs c l r. W = plug fs (RN c l node r) \<and> length fs + Suc (max (rheight l) (rheight r)) \<le> rheight W"
proof (induction W)
  case (RN b l a r)
  consider "node = a" | "node \<in> set (inorder l)" | "node \<in> set (inorder r)" using RN.prems by auto
  then show ?case
  proof cases
    case 1
    then show ?thesis by (intro exI [of _ "[]"]) auto
  next
    case 2
    from RN.IH(1) [OF this] obtain fs c l' r' where e: "l = plug fs (RN c l' node r')" "length fs + Suc (max (rheight l') (rheight r')) \<le> rheight l" by blast
    have L: "RN b l a r = plug (fs @ [(True, b, a, r)]) (RN c l' node r')" by (simp add: plug_append e(1) rbmk_def)
    show ?thesis by (intro exI [of _ "fs @ [(True, b, a, r)]"] exI conjI, rule L) (use e(2) in simp)
  next
    case 3
    from RN.IH(2) [OF this] obtain fs c l' r' where e: "r = plug fs (RN c l' node r')" "length fs + Suc (max (rheight l') (rheight r')) \<le> rheight r" by blast
    have L: "RN b l a r = plug (fs @ [(False, b, a, l)]) (RN c l' node r')" by (simp add: plug_append e(1) rbmk_def)
    show ?thesis by (intro exI [of _ "fs @ [(False, b, a, l)]"] exI conjI, rule L) (use e(2) in simp)
  qed
qed simp

lemma left_spine: "r \<noteq> RL \<Longrightarrow> \<exists>ps sc succ r2. r = plug ps (RN sc RL succ r2) \<and> lft ps = [] \<and> (\<forall>f\<in>set ps. fst f) \<and> length ps < rheight r"
proof (induction r)
  case (RN b l a r)
  show ?case
  proof (cases "l = RL")
    case True
    then show ?thesis by (intro exI [of _ "[]"]) auto
  next
    case False
    from RN.IH(1) [OF this] obtain ps sc succ r2 where e: "l = plug ps (RN sc RL succ r2)" "lft ps = []" "\<forall>f\<in>set ps. fst f" "length ps < rheight l" by blast
    have L: "RN b l a r = plug (ps @ [(True, b, a, r)]) (RN sc RL succ r2)" by (simp add: plug_append e(1) rbmk_def)
    show ?thesis by (intro exI [of _ "ps @ [(True, b, a, r)]"] exI conjI, rule L) (use e(2-4) in \<open>simp_all add: frames_append\<close>)
  qed
qed simp

lemma find_successor_spec:
  assumes "tree_at (rnode t) u x T" and "T \<noteq> RL" and "rheight T \<le> n"
  shows "find_successor n u x t = Ok (rbparent (rnode t (hd (inorder T))), hd (inorder T))"
  using assms
proof (induction T arbitrary: u x n)
  case (RN c l a r)
  obtain m where n: "n = Suc m" using RN.prems by (cases n) auto
  have x: "x = a" "tree_at (rnode t) a (hchild True (rnode t a)) l" "rbparent (rnode t a) = u" using RN.prems(1) by auto
  show ?case
  proof (cases "l = RL")
    case True
    then show ?thesis using x by (simp add: n)
  next
    case False
    then have "inorder l \<noteq> []" by (cases l) auto
    then show ?thesis using RN.IH(1) [OF x(2) False, of m] RN.prems(3) n x tree_at_ne [OF x(2) False] by (simp add: Let_def)
  qed
qed simp


text \<open>A node with two children: its successor \<open>succ\<close>, the leftmost node on the right, takes its place.\<close>

lemma copy_simps [simp]:
  "rnode (rb_copy_parent_color a b t) = (rnode t)(b := hpc (rbparent (rnode t a)) (rbblack (rnode t a)) (rnode t b))"
  "rroot (rb_copy_parent_color a b t) = rroot t"
  by (simp_all add: rb_copy_parent_color_def)

lemma erase_inner_near:
  assumes h: "holds t fs node (RN c l node (RN sc RL succ r2))" and l: "l \<noteq> RL"
  shows "\<exists>t'. erase_inner n node succ t = Ok (if r2 \<noteq> RL then 0 else if sc then succ else 0, t') \<and>
    holds t' ((False, c, succ, l) # fs) (raddr r2) (paint True r2)"
proof -
  define x z pp where "x = hchild True (rnode t node)" and "z = hchild False (rnode t succ)" and "pp = par_of fs"
  have T: "tree_at (rnode t) node x l" "tree_at (rnode t) succ z r2" "hchild True (rnode t succ) = 0" "hchild False (rnode t node) = succ"
    "rbparent (rnode t node) = pp" "rbblack (rnode t node) = c" "rbblack (rnode t succ) = sc" "node \<noteq> 0" "succ \<noteq> 0"
    using h by (auto simp: holds_def x_def z_def pp_def)
  have D: "set (inorder l) \<inter> ({node, succ} \<union> set (inorder r2) \<union> addrs_of fs) = {}" "set (inorder r2) \<inter> ({node, succ} \<union> addrs_of fs) = {}"
    "node \<noteq> succ" "node \<notin> addrs_of fs" "succ \<notin> addrs_of fs" using h by (auto simp: holds_def)
  have x: "x \<noteq> 0" "x \<in> set (inorder l)" using tree_at_ne [OF T(1) l] tree_at_addr [OF T(1)] by auto
  have z: "z = raddr r2" "z \<noteq> 0 \<longrightarrow> z \<in> set (inorder r2)" "z \<noteq> 0 \<longleftrightarrow> r2 \<noteq> RL" using tree_at_raddr [OF T(2)] tree_at_addr [OF T(2)] tree_at_ne [OF T(2)] T(2) by auto
  have pp: "pp \<noteq> 0 \<longrightarrow> pp \<in> addrs_of fs" unfolding pp_def by (cases fs) auto
  have ne: "x \<noteq> node" "x \<noteq> succ" "x \<noteq> z" "z \<noteq> node" "z \<noteq> succ" "pp \<noteq> x" "pp \<noteq> z \<or> pp = 0" "pp \<noteq> node" "pp \<noteq> succ"
    using x z(2) pp D T(8,9) by auto
  define t1 where "t1 = (if z \<noteq> 0 then rb_set_parent_color z node True (rb_change_child succ z node t) else rb_change_child succ z node t)"
  have "holds t ((False, c, node, l) # fs) succ (rbmk False sc r2 succ RL)"
    unfolding holds_Cons using h T(4) by (simp add: rbmk_def)
  from drop_node [OF this z_def refl, of t1 True] have "holds t1 ((False, c, node, l) # fs) z (paint True r2)"
    by (simp add: t1_def)
  then have h1: "holds t1 fs node (RN c l node (paint True r2))" unfolding holds_Cons by (simp add: rbmk_def)
  have lx: "rbleft (rnode t node) \<noteq> succ" using ne(2) by (simp add: x_def hchild_def)
  have t1: "rroot t1 = rroot t" "rnode t1 node = hset False z (rnode t node)" "z \<noteq> 0 \<Longrightarrow> rnode t1 z = hpc node True (rnode t z)"
    "\<And>a. a \<noteq> node \<Longrightarrow> z = 0 \<or> a \<noteq> z \<Longrightarrow> rnode t1 a = rnode t a" using lx ne T(8) by (auto simp: t1_def)
  define t6 where "t6 = rb_change_child node succ pp (rb_set_parent x succ (set_child True succ x t))"
  define t' where "t' = (if z \<noteq> 0 then rb_set_parent_color z succ True (rb_copy_parent_color node succ t6) else rb_copy_parent_color node succ t6)"
  have e: "erase_inner n node succ t = Ok (if r2 \<noteq> RL then 0 else if sc then succ else 0, t')"
  proof -
    have a: "rb_child True t succ = 0" "rb_child False t succ = z" "rb_child True t node = x" "rb_parent (rb_set_parent x succ (set_child True succ x t)) node = pp"
      using T(3,5) ne D(3) by (simp_all add: x_def z_def)
    have b: "rb_is_black t6 succ = sc" using T(7) ne by (simp add: t6_def)
    have "erase_inner n node succ t = Ok (if z \<noteq> 0 then 0 else if sc then succ else 0, t')"
      unfolding erase_inner_def Let_def a t6_def [symmetric] if_P [OF refl] andthen_simps prod.case
      by (simp only: a b t6_def [symmetric] t'_def RB_BLACK_def split: if_splits) simp
    then show ?thesis using z(3) by simp
  qed
  define s2 where "s2 = rb_set_parent x succ (set_child True succ x t)"
  have s2: "rnode s2 = (rnode t)(succ := hset True x (rnode t succ), x := hpc succ (rbblack (rnode t x)) (rnode t x))" "rroot s2 = rroot t"
    using ne by (simp_all add: s2_def)
  have t6: "rnode t6 = (if pp \<noteq> 0 then (rnode s2)(pp := hset (rbleft (rnode t pp) = node) succ (rnode t pp)) else rnode s2)"
    "rroot t6 = (if pp \<noteq> 0 then rroot t else succ)" unfolding t6_def s2_def [symmetric] using ne by (simp_all add: s2)
  have t7: "rnode (rb_copy_parent_color node succ t6) = (rnode t6)(succ := hpc pp c (hset True x (rnode t succ)))"
    using ne T(5,6) D(3) by (simp add: t6(1) s2(1))
  have r': "rnode t' = (if z \<noteq> 0 then (rnode (rb_copy_parent_color node succ t6))(z := hpc succ True (rnode t z)) else rnode (rb_copy_parent_color node succ t6))"
    using ne by (auto simp: t'_def t7 t6(1) s2(1) simp del: copy_simps(1))
  note r' = r' [unfolded t7 t6(1) s2(1)]
  have t': "rroot t' = (if pp \<noteq> 0 then rroot t else succ)" "rnode t' x = hpc succ (rbblack (rnode t x)) (rnode t x)"
    "rnode t' succ = hpc pp c (hset True x (rnode t succ))" "z \<noteq> 0 \<Longrightarrow> rnode t' z = hpc succ True (rnode t z)"
    "pp \<noteq> 0 \<Longrightarrow> rnode t' pp = hset (rbleft (rnode t pp) = node) succ (rnode t pp)"
    using ne t6(2) by (simp_all add: r') (simp add: t'_def)
  have t'_other: "rnode t' a = rnode t a" if "a \<noteq> x" "a \<noteq> succ" "z = 0 \<or> a \<noteq> z" "pp = 0 \<or> a \<noteq> pp" for a
    unfolding r' using that by auto
  have "holds t' fs succ (RN c l succ (paint True r2))"
  proof (rule rename_node [OF h1, where x = x and y = z])
    have "rnode t' v = rnode (rb_change_child node succ pp t1) v" if "v \<in> addrs_of fs" for v
    proof -
      have v: "v \<noteq> x" "v \<noteq> succ" "v \<noteq> node" "z = 0 \<or> v \<noteq> z" using that x D z(2) by auto
      have "rnode t1 v = rnode t v" by (rule t1(4)) (use v in auto)
      then show ?thesis using t'(5) t'_other [of v] v by (cases "pp \<noteq> 0 \<and> v = pp") auto
    qed
    then show "\<forall>v\<in>addrs_of fs. rnode t' v = rnode (rb_change_child node succ (par_of fs) t1) v" by (simp add: pp_def)
    show "\<forall>v\<in>set (inorder l) - {x}. rnode t' v = rnode t1 v"
    proof
      fix v assume "v \<in> set (inorder l) - {x}"
      then have v: "v \<noteq> x" "v \<noteq> succ" "v \<noteq> node" "z = 0 \<or> v \<noteq> z" "pp = 0 \<or> v \<noteq> pp" using D z(2) pp by auto
      show "rnode t' v = rnode t1 v" using t'_other [of v] t1(4) [of v] v by simp
    qed
    show "\<forall>v\<in>set (inorder (paint True r2)) - {z}. rnode t' v = rnode t1 v"
    proof
      fix v assume "v \<in> set (inorder (paint True r2)) - {z}"
      then have v: "v \<noteq> x" "v \<noteq> succ" "v \<noteq> node" "v \<noteq> z" "pp = 0 \<or> v \<noteq> pp" using D pp x by auto
      show "rnode t' v = rnode t1 v" using t'_other [of v] t1(4) [of v] v by simp
    qed
    show "z \<noteq> 0 \<longrightarrow> rnode t' z = hpc succ (blk (paint True r2)) (rnode t1 z)" using t'(4) t1(3) by (simp add: paint_inv(3))
    show "x \<noteq> 0 \<longrightarrow> rnode t' x = hpc succ (blk l) (rnode t1 x)" using t'(2) t1(4) [of x] tree_at_blk [OF T(1) x(1)] ne by simp
  qed (use T D ne t'(1,3) t1(1,2) in \<open>simp_all add: pp_def x_def z_def\<close>)
  then have "holds t' [] (rroot t') (plug ((False, c, succ, l) # fs) (paint True r2))" by (auto simp: rbmk_def dest: holds_plug)
  from holds_unplug [OF this] show ?thesis using e by simp
qed


lemma erase_inner_far:
  assumes h: "holds t fs node (RN c l node (plug ps (RN sc RL succ r2)))" and l: "l \<noteq> RL"
    and ps: "ps = (True, pc, p, s) # ps'" and n: "rheight (plug ps (RN sc RL succ r2)) \<le> n" "hd (inorder (plug ps (RN sc RL succ r2))) = succ"
  shows "\<exists>t'. erase_inner n node (raddr (plug ps (RN sc RL succ r2))) t = Ok (if r2 \<noteq> RL then 0 else if sc then p else 0, t') \<and>
    holds t' (ps @ (False, c, succ, l) # fs) (raddr r2) (paint True r2)"
proof -
  define x z pp r k where "x = hchild True (rnode t node)" and "z = hchild False (rnode t succ)" and "pp = par_of fs"
    and "r = plug ps (RN sc RL succ r2)" and "k = raddr r"
  have "holds t [] (rroot t) (plug (ps @ (False, c, node, l) # fs) (RN sc RL succ r2))"
    using holds_plug [OF h] by (simp add: plug_append rbmk_def)
  from holds_unplug [OF this] have g: "holds t (ps @ (False, c, node, l) # fs) succ (RN sc RL succ r2)" by simp
  have T: "tree_at (rnode t) node x l" "tree_at (rnode t) node (hchild False (rnode t node)) r" "rbparent (rnode t node) = pp" "rbblack (rnode t node) = c" "node \<noteq> 0"
    using h by (auto simp: holds_def x_def pp_def r_def)
  have S: "tree_at (rnode t) succ z r2" "hchild True (rnode t succ) = 0" "rbblack (rnode t succ) = sc" "succ \<noteq> 0"
    "rbparent (rnode t succ) = p" "hchild True (rnode t p) = succ" "p \<noteq> 0" using g by (auto simp: holds_def z_def ps)
  note A = frames_append
  have D: "set (inorder l) \<inter> ({node, succ} \<union> set (inorder r2) \<union> addrs_of fs \<union> addrs_of ps) = {}" "set (inorder r2) \<inter> ({node, succ} \<union> addrs_of fs \<union> addrs_of ps) = {}"
    "addrs_of ps \<inter> ({node, succ} \<union> addrs_of fs) = {}" "node \<noteq> succ" "node \<notin> addrs_of fs" "succ \<notin> addrs_of fs" using g by (auto simp: holds_def A)
  have rset: "set (inorder r) = addrs_of ps \<union> ({succ} \<union> set (inorder r2))" by (auto simp: r_def set_plug)
  have pm: "p \<in> addrs_of ps" by (simp add: ps)
  have rne: "r \<noteq> RL" using rset by (cases r) auto
  have k: "hchild False (rnode t node) = k" using tree_at_raddr [OF T(2)] by (simp add: k_def)
  have k0: "k \<noteq> 0" using tree_at_ne [OF T(2) rne] by (simp add: k)
  have ka: "tree_at (rnode t) node k r" using T(2) k by simp
  obtain ps1 f1 where f1: "ps = ps1 @ [f1]" using ps by (metis append_butlast_last_id list.distinct(1))
  obtain d1 c1 a1 s1 where f1': "f1 = (d1, c1, a1, s1)" by (cases f1) auto
  have km: "k \<in> addrs_of ps" by (simp add: k_def r_def f1 f1' plug_append A)
  have kb: "hchild True (rnode t k) \<noteq> 0"
  proof -
    have "inorder r = lft ps @ succ # inorder r2 @ rgt ps" by (simp add: r_def inorder_plug)
    moreover have "hd (inorder r) = succ" using n(2) by (simp add: r_def)
    moreover have "hd (inorder r) = k" if "hchild True (rnode t k) = 0" using ka that rne by (cases r) auto
    ultimately show ?thesis using km D(3) by auto
  qed
  have x: "x \<noteq> 0" "x \<in> set (inorder l)" using tree_at_ne [OF T(1) l] tree_at_addr [OF T(1)] by auto
  have z: "z = raddr r2" "z \<noteq> 0 \<longrightarrow> z \<in> set (inorder r2)" "z \<noteq> 0 \<longleftrightarrow> r2 \<noteq> RL" using tree_at_raddr [OF S(1)] tree_at_addr [OF S(1)] tree_at_ne [OF S(1)] S(1) by auto
  have pp: "pp \<noteq> 0 \<longrightarrow> pp \<in> addrs_of fs" unfolding pp_def by (cases fs) auto
  have ne: "x \<noteq> node" "x \<noteq> succ" "x \<noteq> z" "x \<noteq> p" "x \<noteq> k" "z \<noteq> node" "z \<noteq> succ" "z \<noteq> p" "z \<noteq> k" "p \<noteq> node" "p \<noteq> succ" "k \<noteq> node" "k \<noteq> succ"
    "pp \<noteq> x" "pp \<noteq> z \<or> pp = 0" "pp \<noteq> node" "pp \<noteq> succ" "pp \<noteq> p" "pp \<noteq> k"
    using x z(2) pp D T(5) S(4,7) k0 km pm by auto
  define t1 where "t1 = (if z \<noteq> 0 then rb_set_parent_color z p True (rb_change_child succ z p t) else rb_change_child succ z p t)"
  have "holds t (ps @ (False, c, node, l) # fs) succ (rbmk False sc r2 succ RL)" using g by (simp add: rbmk_def)
  from drop_node [OF this z_def refl, of t1 True] have "holds t1 (ps @ (False, c, node, l) # fs) z (paint True r2)"
    by (simp add: t1_def ps)
  from holds_plug [OF this] have "holds t1 [] (rroot t1) (plug fs (RN c l node (plug ps (paint True r2))))" by (simp add: plug_append rbmk_def)
  from holds_unplug [OF this] have h1: "holds t1 fs node (RN c l node (plug ps (paint True r2)))" by simp
  have lx: "rbleft (rnode t p) = succ" using S(6) by (simp add: hchild_def)
  have t1: "rroot t1 = rroot t" "rnode t1 p = hset True z (rnode t p)" "\<And>a. a \<noteq> p \<Longrightarrow> z = 0 \<or> a \<noteq> z \<Longrightarrow> rnode t1 a = rnode t a"
    "z \<noteq> 0 \<Longrightarrow> rnode t1 z = hpc p True (rnode t z)"
    using lx ne S(7) by (auto simp: t1_def)
  define R where "R = plug ps (paint True r2)"
  have Rk: "hchild False (rnode t1 node) = k" "tree_at (rnode t1) node k R" using h1 t1(3) [of node] ne k by (auto simp: holds_def R_def)
  have Rset: "set (inorder R) = addrs_of ps \<union> set (inorder r2)" by (auto simp: R_def set_plug)
  define t3 where "t3 = rb_set_parent k succ (set_child False succ k (set_child True p z t))"
  define t6 where "t6 = rb_change_child node succ pp (rb_set_parent x succ (set_child True succ x t3))"
  define t' where "t' = (if z \<noteq> 0 then rb_set_parent_color z p True (rb_copy_parent_color node succ t6) else rb_copy_parent_color node succ t6)"
  have f: "find_successor n k (hchild True (rnode t k)) t = Ok (p, succ)"
  proof -
    obtain m where m: "n = Suc m" using n(1) rne by (cases n; cases r) (auto simp: r_def)
    obtain b l' r' where r: "r = RN b l' k r'" using rne ka by (cases r) auto
    have l': "tree_at (rnode t) k (hchild True (rnode t k)) l'" "l' \<noteq> RL" using ka kb by (auto simp: r)
    have "inorder l' \<noteq> []" using l'(2) by (cases l') auto
    then have hd: "hd (inorder l') = succ" using n(2) by (simp add: r_def [symmetric] r)
    have "find_successor n k (hchild True (rnode t k)) t = Ok (rbparent (rnode t (hd (inorder l'))), hd (inorder l'))"
      by (rule find_successor_spec [OF l']) (use n(1) in \<open>simp add: r_def [symmetric] r\<close>)
    then show ?thesis by (simp add: hd S(5))
  qed
  have e: "erase_inner n node k t = Ok (if r2 \<noteq> RL then 0 else if sc then p else 0, t')"
  proof -
    have a: "rb_child True t k \<noteq> 0" "rb_child False t succ = z" "rb_child True t3 node = x" "rb_parent (rb_set_parent x succ (set_child True succ x t3)) node = pp"
      using T(3) ne D(4) kb by (simp_all add: x_def z_def t3_def)
    have b: "rb_is_black t6 succ = sc" using S(3) ne by (simp add: t6_def t3_def)
    have f': "find_successor n k (rb_child True t k) t = Ok (p, succ)" using f by simp
    have "erase_inner n node k t = Ok (if z \<noteq> 0 then 0 else if sc then p else 0, t')"
      unfolding erase_inner_def Let_def f' if_not_P [OF a(1)] andthen_simps prod.case a(2) t3_def [symmetric] a(3,4) t6_def [symmetric]
      by (simp only: b t'_def RB_BLACK_def split: if_splits) simp
    then show ?thesis using z(3) by simp
  qed
  define s2 where "s2 = rb_set_parent x succ (set_child True succ x t3)"
  have t3: "rnode t3 = (rnode t)(p := hset True z (rnode t p), succ := hset False k (rnode t succ), k := hpc succ (rbblack (rnode t1 k)) (rnode t1 k))" "rroot t3 = rroot t"
    using ne t1(2) t1(3) [of k] by (cases "p = k"; simp add: t3_def)+
  have s2: "rnode s2 = (rnode t3)(succ := hset True x (hset False k (rnode t succ)), x := hpc succ (rbblack (rnode t x)) (rnode t x))" "rroot s2 = rroot t"
    using ne by (simp_all add: s2_def t3)
  have t6: "rnode t6 = (if pp \<noteq> 0 then (rnode s2)(pp := hset (rbleft (rnode t pp) = node) succ (rnode t pp)) else rnode s2)"
    "rroot t6 = (if pp \<noteq> 0 then rroot t else succ)" unfolding t6_def s2_def [symmetric] using ne by (simp_all add: s2 t3)
  have t7: "rnode (rb_copy_parent_color node succ t6) = (rnode t6)(succ := hpc pp c (hset True x (hset False k (rnode t succ))))"
    using ne T(3,4) D(4) by (simp add: t6(1) s2(1) t3(1))
  have r': "rnode t' = (if z \<noteq> 0 then (rnode (rb_copy_parent_color node succ t6))(z := hpc p True (rnode t z)) else rnode (rb_copy_parent_color node succ t6))"
    using ne by (auto simp: t'_def t7 t6(1) s2(1) t3(1) simp del: copy_simps(1))
  note r' = r' [unfolded t7 t6(1) s2(1) t3(1)]
  have t': "rroot t' = (if pp \<noteq> 0 then rroot t else succ)" "rnode t' x = hpc succ (rbblack (rnode t x)) (rnode t x)"
    "rnode t' succ = hpc pp c (hset True x (hset False k (rnode t succ)))" "z \<noteq> 0 \<Longrightarrow> rnode t' z = hpc p True (rnode t z)"
    "pp \<noteq> 0 \<Longrightarrow> rnode t' pp = hset (rbleft (rnode t pp) = node) succ (rnode t pp)"
    "rnode t' k = hpc succ (rbblack (rnode t1 k)) (rnode t1 k)"
    "p \<noteq> k \<Longrightarrow> rnode t' p = rnode t1 p"
    using ne t6(2) t1(2) by (simp_all add: r') (simp add: t'_def)
  have t'_other: "rnode t' a = rnode t a" if "a \<noteq> x" "a \<noteq> succ" "a \<noteq> k" "a \<noteq> p" "z = 0 \<or> a \<noteq> z" "pp = 0 \<or> a \<noteq> pp" for a
    unfolding r' using that by auto
  have "holds t' fs succ (RN c l succ R)"
  proof (rule rename_node [OF h1 [folded R_def], where x = x and y = k])
    have "rnode t' v = rnode (rb_change_child node succ pp t1) v" if "v \<in> addrs_of fs" for v
    proof -
      have v: "v \<noteq> x" "v \<noteq> succ" "v \<noteq> node" "v \<noteq> p" "v \<noteq> k" "z = 0 \<or> v \<noteq> z" using that x D z(2) km pm by auto
      have "rnode t1 v = rnode t v" by (rule t1(3)) (use v in auto)
      then show ?thesis using t'(5) t'_other [of v] v by (cases "pp \<noteq> 0 \<and> v = pp") auto
    qed
    then show "\<forall>v\<in>addrs_of fs. rnode t' v = rnode (rb_change_child node succ (par_of fs) t1) v" by (simp add: pp_def)
    show "\<forall>v\<in>set (inorder l) - {x}. rnode t' v = rnode t1 v"
    proof
      fix v assume "v \<in> set (inorder l) - {x}"
      then have v: "v \<noteq> x" "v \<noteq> succ" "v \<noteq> node" "v \<noteq> p" "v \<noteq> k" "z = 0 \<or> v \<noteq> z" "pp = 0 \<or> v \<noteq> pp" using D z(2) pp km pm by auto
      show "rnode t' v = rnode t1 v" using t'_other [of v] t1(3) [of v] v by simp
    qed
    show "\<forall>v\<in>set (inorder R) - {k}. rnode t' v = rnode t1 v"
    proof
      fix v assume vr: "v \<in> set (inorder R) - {k}"
      then have v: "v \<noteq> x" "v \<noteq> succ" "v \<noteq> node" "v \<noteq> k" "pp = 0 \<or> v \<noteq> pp" using D pp x unfolding Rset by auto
      consider "v = p" | "v \<noteq> p" "z \<noteq> 0" "v = z" | "v \<noteq> p" "z = 0 \<or> v \<noteq> z" by auto
      then show "rnode t' v = rnode t1 v"
      proof cases
        case 1
        then show ?thesis using t'(7) v(4) by simp
      next
        case 2
        then show ?thesis using t'(4) t1(4) by simp
      next
        case 3
        then show ?thesis using t'_other [of v] t1(3) [of v] v by simp
      qed
    qed
    show "k \<noteq> 0 \<longrightarrow> rnode t' k = hpc succ (blk R) (rnode t1 k)" using t'(6) tree_at_blk [OF Rk(2)] by simp
    show "x \<noteq> 0 \<longrightarrow> rnode t' x = hpc succ (blk l) (rnode t1 x)" using t'(2) t1(3) [of x] tree_at_blk [OF T(1) x(1)] ne by simp
    show "succ \<notin> set (inorder R)" using D by (auto simp: Rset)
    show "x = hchild True (rnode t1 node)" using t1(3) [of node] ne by (simp add: x_def)
  qed (use T D S ne t'(1,3) t1(1) Rk(1) in \<open>simp_all add: pp_def\<close>)
  then have "holds t' [] (rroot t') (plug (ps @ (False, c, succ, l) # fs) (paint True r2))" by (auto simp: rbmk_def R_def plug_append dest: holds_plug)
  from holds_unplug [OF this] show ?thesis using e by (simp add: k_def r_def)
qed


section \<open>Removal\<close>

text \<open>What \<^verbatim>\<open>__rb_erase_fix\<close> makes of a tree in which \<open>r\<close> stands for a node of colour \<open>sc\<close>.\<close>

lemma finish_erase:
  assumes h: "holds t gs (raddr r) (paint True r)" and ok: "ctx_ok gs (if sc then 1 else 0)" "invh r" "bh r = 0" "invc r"
    and c: "sc \<or> blk r \<and> gs \<noteq> [] \<and> fcol gs" and n: "length gs \<le> n" and reb: "reb = (if r \<noteq> RL then 0 else if sc then par_of gs else 0)"
  shows "\<exists>t' W'. (if reb \<noteq> 0 then erase_fix_loop n 0 reb t else Ok t) = Ok t' \<and> holds t' [] (rroot t') W' \<and> rb W' \<and>
    inorder W' = lft gs @ inorder r @ rgt gs"
proof (cases "reb \<noteq> 0")
  case True
  then have r: "r = RL" "sc" "reb = par_of gs" using reb by (auto split: if_splits)
  then obtain d c' p s fs where gs: "gs = (d, c', p, s) # fs" using True by (cases gs) auto
  have "\<exists>t'. erase_fix_loop n 0 p t = Ok t' \<and> holds t' [] (rroot t') (del_fix ((d, c', p, s) # fs) RL)"
    by (rule erase_fix_loop_spec) (use h ok n r in \<open>simp_all add: gs\<close>)
  moreover have "rb (del_fix gs RL) \<and> inorder (del_fix gs RL) = lft gs @ inorder RL @ rgt gs" by (rule del_fix_rb) (use ok r in simp_all)
  ultimately show ?thesis using True r by (auto simp: gs)
next
  case False
  have "rb (plug gs (paint True r))"
  proof (cases "r = RL")
    case True
    then have "sc \<Longrightarrow> gs = []" using False h reb by (cases gs) (auto simp: holds_def)
    then show ?thesis using ok c True by (cases sc) (simp add: rb_def, rule rb_plug, simp_all)
  next
    case r: False
    then have "\<not> blk r" using ok(3) by (cases r) (auto split: if_splits)
    then show ?thesis using ok c by (intro rb_plug) (auto simp: paint_inv)
  qed
  then show ?thesis using False holds_plug [OF h] by (auto simp: inorder_plug)
qed

lemma rb_erase_spec:
  assumes wf: "rb_wf key t W" and m: "node \<in> set (inorder W)" and n: "rheight W \<le> n"
  shows "\<exists>t' W'. rb_erase n node t = Ok t' \<and> rb_wf key t' W' \<and> inorder W' = removeAll node (inorder W)"
proof -
  have W: "holds t [] (rroot t) W" "rb W" "sorted_by key (inorder W)" "distinct (inorder W)" using wf by (auto simp: rb_wf_def holds_def)
  obtain fs c l r where e: "W = plug fs (RN c l node r)" "length fs + Suc (max (rheight l) (rheight r)) \<le> rheight W" using find_node [OF m] by blast
  have h: "holds t fs node (RN c l node r)" using holds_unplug [of t fs "RN c l node r"] W(1) by (simp add: e(1))
  have B: "ctx_ok fs (bh (RN c l node r))" "invh (RN c l node r)" "invc (RN c l node r)" "c \<or> fs \<noteq> [] \<and> fcol fs"
    using plug_rb [of fs "RN c l node r"] W(2) by (auto simp: e(1))
  have iW: "inorder W = lft fs @ inorder l @ node # inorder r @ rgt fs" by (simp add: e(1) inorder_plug)
  define x y where "x = hchild True (rnode t node)" and "y = hchild False (rnode t node)"
  have N: "tree_at (rnode t) node x l" "tree_at (rnode t) node y r" "rbparent (rnode t node) = par_of fs" "rbblack (rnode t node) = c" "node \<noteq> 0"
    "node \<notin> set (inorder l)" "node \<notin> set (inorder r)" "node \<notin> addrs_of fs" using h by (auto simp: holds_def x_def y_def)
  have xy: "x = raddr l" "y = raddr r" "x = 0 \<longleftrightarrow> l = RL" "y = 0 \<longleftrightarrow> r = RL" using N(1,2) tree_at_raddr tree_at_ne by (auto simp: tree_at_raddr)
  have main: "\<exists>reb t1 gs sc q. rb_erase_node n node t = Ok (reb, t1) \<and> holds t1 gs (raddr q) (paint True q) \<and>
      reb = (if q \<noteq> RL then 0 else if sc then par_of gs else 0) \<and> ctx_ok gs (if sc then 1 else 0) \<and> invh q \<and> bh q = 0 \<and> invc q \<and>
      (sc \<or> blk q \<and> gs \<noteq> [] \<and> fcol gs) \<and> length gs \<le> n \<and> lft gs @ inorder q @ rgt gs = removeAll node (inorder W)"
  proof (cases "l = RL \<or> r = RL")
    case True
    define q where "q = (if l = RL then r else l)"
    define d where "d = (l \<noteq> RL)"
    have hq: "holds t fs node (rbmk d c q node RL)" using h True by (auto simp: q_def d_def rbmk_def)
    have bq: "bh q = 0" "invh q" "invc q" "c \<or> blk q" using B True by (auto simp: q_def)
    have cq: "q \<noteq> RL \<Longrightarrow> c" using bq(1,4) by (cases q) (auto split: if_splits)
    define k where "k = hchild d (rnode t node)"
    have k: "k = raddr q" "k = 0 \<longleftrightarrow> q = RL" using xy True by (auto simp: k_def d_def q_def x_def y_def)
    define t1 where "t1 = (if k \<noteq> 0 then rb_set_parent_color k (par_of fs) c (rb_change_child node k (par_of fs) t) else rb_change_child node k (par_of fs) t)"
    have t1: "holds t1 fs k (paint c q)" by (rule drop_node [OF hq k_def refl t1_def])
    have pq: "paint c q = paint True q" using cq by (cases q) auto
    have lrm: "lft fs @ inorder q @ rgt fs = removeAll node (inorder W)" using True W(4) unfolding iW by (auto simp: q_def removeAll_id)
    have r1: "rb_erase_node n node t = Ok (if q \<noteq> RL then 0 else if c then par_of fs else 0, t1)"
    proof (cases "l = RL")
      case l: True
      then have "x = 0" "k = y" "q = r" using xy by (simp_all add: k_def d_def y_def q_def)
      then show ?thesis using N(3,4) xy(4) unfolding rb_erase_node_def t1_def x_def y_def by (cases "r = RL") (simp_all add: Let_def)
    next
      case l: False
      then have r: "r = RL" "q = l" "y = 0" "x \<noteq> 0" "k = x" "d" using True xy by (auto simp: q_def k_def d_def x_def)
      have kp: "par_of fs \<noteq> 0 \<Longrightarrow> k \<noteq> par_of fs"
      proof
        assume "par_of fs \<noteq> 0" "k = par_of fs"
        then have "k \<in> addrs_of fs" by (cases fs) auto
        moreover have "k \<in> set (inorder l)" using tree_at_addr [OF N(1)] r by simp
        ultimately show False using h by (auto simp: holds_def)
      qed
      have "rb_change_child node k (par_of fs) (rb_copy_parent_color node k t) = rb_set_parent_color k (par_of fs) c (rb_change_child node k (par_of fs) t)"
        by (rule rb_tree.equality) (use kp N(3,4) in \<open>auto simp: fun_upd_twist\<close>)
      then show ?thesis using r N(3) l by (simp add: rb_erase_node_def x_def y_def t1_def Let_def)
    qed
    show ?thesis
      by (intro exI [of _ "if q \<noteq> RL then 0 else if c then par_of fs else 0"] exI [of _ t1] exI [of _ fs] exI [of _ c] exI [of _ q] conjI r1)
        (use t1 k pq bq cq B e(2) n lrm True in \<open>auto simp: q_def split: if_splits\<close>)
  next
    case False
    then have lr: "l \<noteq> RL" "r \<noteq> RL" by auto
    obtain ps sc succ r2 where p: "r = plug ps (RN sc RL succ r2)" "lft ps = []" "\<forall>f\<in>set ps. fst f" "length ps < rheight r"
      using left_spine [OF lr(2)] by blast
    let ?gs = "ps @ (False, c, succ, l) # fs"
    have hs: "hd (inorder (plug ps (RN sc RL succ r2))) = succ" using p(2) by (simp add: inorder_plug)
    have ra: "rheight r \<le> n" using e(2) n by simp
    have er: "rb_erase_node n node t = erase_inner n node (raddr r) t" using xy lr by (simp add: rb_erase_node_def x_def y_def Let_def)
    have "\<exists>t'. erase_inner n node (raddr r) t = Ok (if r2 \<noteq> RL then 0 else if sc then par_of ?gs else 0, t') \<and> holds t' ?gs (raddr r2) (paint True r2)"
    proof (cases ps)
      case Nil
      then have r: "r = RN sc RL succ r2" "raddr r = succ" "par_of ?gs = succ" "?gs = (False, c, succ, l) # fs" using p(1) by simp_all
      show ?thesis unfolding r(4) r(2) par_of.simps by (rule erase_inner_near [OF _ lr(1)]) (use h r(1) in simp)
    next
      case (Cons f ps')
      obtain d pc pa s where f: "f = (d, pc, pa, s)" by (cases f) auto
      then have "d" using p(3) Cons by simp
      then have ps: "ps = (True, pc, pa, s) # ps'" by (simp add: Cons f)
      have pg: "par_of ?gs = pa" by (simp add: ps)
      show ?thesis unfolding pg p(1) by (rule erase_inner_far [OF h [unfolded p(1)] lr(1) ps _ hs]) (use ra p(1) in simp)
    qed
    then obtain t1 where t1: "rb_erase_node n node t = Ok (if r2 \<noteq> RL then 0 else if sc then par_of ?gs else 0, t1)" "holds t1 ?gs (raddr r2) (paint True r2)"
      using er by auto
    have "W = plug (ps @ (False, c, node, l) # fs) (RN sc RL succ r2)" by (simp add: plug_append e(1) p(1) rbmk_def)
    from plug_rb [OF W(2) [unfolded this]] have C: "ctx_ok ?gs (bh (RN sc RL succ r2))" "invh (RN sc RL succ r2)" "invc (RN sc RL succ r2)"
      "sc \<or> fcol (ps @ (False, c, node, l) # fs)" using ctx_ok_frame [of ps False c node l fs _ succ] by auto
    have fc: "fcol (ps @ (False, c, node, l) # fs) = fcol ?gs" by (cases ps) auto
    have "inorder r = succ # inorder r2 @ rgt ps" using p(2) by (simp add: p(1) inorder_plug)
    then have "lft ?gs @ inorder r2 @ rgt ?gs = removeAll node (inorder W)" using W(4) p(2) unfolding iW by (auto simp: frames_append removeAll_id)
    moreover have "length ?gs \<le> n" using p(4) e(2) n by simp
    ultimately show ?thesis using t1 C fc
      by (intro exI [of _ "if r2 \<noteq> RL then 0 else if sc then par_of ?gs else 0"] exI [of _ t1] exI [of _ ?gs] exI [of _ sc] exI [of _ r2] conjI) auto
  qed
  then obtain reb t1 gs sc q where M: "rb_erase_node n node t = Ok (reb, t1)" "holds t1 gs (raddr q) (paint True q)"
      "reb = (if q \<noteq> RL then 0 else if sc then par_of gs else 0)" "ctx_ok gs (if sc then 1 else 0)" "invh q" "bh q = 0" "invc q"
      "sc \<or> blk q \<and> gs \<noteq> [] \<and> fcol gs" "length gs \<le> n" "lft gs @ inorder q @ rgt gs = removeAll node (inorder W)" by blast
  from finish_erase [OF M(2,4-9) M(3)] obtain t' W' where F: "(if reb \<noteq> 0 then erase_fix_loop n 0 reb t1 else Ok t1) = Ok t'"
    "holds t' [] (rroot t') W'" "rb W'" "inorder W' = removeAll node (inorder W)" using M(10) by auto
  have "sorted_by key (inorder W')" using W(3) unfolding F(4) sorted_by_def by (simp add: removeAll_filter_not_eq sorted_wrt_filter)
  then show ?thesis using F M(1) by (intro exI [of _ t'] exI [of _ W']) (simp add: rb_erase_def rb_wf_def)
qed

end
