(* ===== verification/Exec.thy ===== *)
theory Exec
  imports SysFile SpawnSpec
begin

unbundle bit_operations_syntax

text \<open>
  \<^verbatim>\<open>src/kernel/exec.c\<close>.  The layout of an ELF file comes from \<^verbatim>\<open>elf.h\<close> of the C library: it is the
  parameter \<open>E\<close>, which reads the fields from the bytes of a header.  A pointer to user memory is a
  number; \<open>cur\<close> is the running process.  Jumping to \<^verbatim>\<open>bad\<close> is the result \<open>None\<close>.
\<close>

record elf_format =
  sizeof_ehdr :: nat
  sizeof_phdr :: nat
  elfmag :: "u8 list"
  e_ident :: "u8 list \<Rightarrow> u8 list"
  e_phoff :: "u8 list \<Rightarrow> u64"
  e_phnum :: "u8 list \<Rightarrow> nat"
  e_entry :: "u8 list \<Rightarrow> u64"
  PT_LOAD :: u32
  p_type :: "u8 list \<Rightarrow> u32"
  p_offset :: "u8 list \<Rightarrow> u64"
  p_vaddr :: "u8 list \<Rightarrow> u64"
  p_filesz :: "u8 list \<Rightarrow> u64"
  p_memsz :: "u8 list \<Rightarrow> u64"

definition MAXARG :: nat where "MAXARG = 32"

definition is_elf :: "elf_format \<Rightarrow> u8 list \<Rightarrow> bool" where
  "is_elf E hdr \<longleftrightarrow> take 4 (e_ident E hdr) = elfmag E"

section \<open>Loading the program\<close>

definition attach :: "pgdir \<Rightarrow> 'c psys \<Rightarrow> 'c psys" where
  "attach pd s = s\<lparr>pvm := attach_pgdir (invalid_pt s) pd (pvm s)\<rparr>"

definition set_pgd :: "tid \<Rightarrow> pgdir \<Rightarrow> 'c psys \<Rightarrow> 'c psys" where
  "set_pgd cur pd s = upd_uproc cur (\<lambda>u. u\<lparr>pgd := pd\<rparr>) s"

definition read_file :: "'c block_cache \<Rightarrow> nat \<Rightarrow> u64 \<Rightarrow> u64 \<Rightarrow> 'c psys \<Rightarrow> ((u64 \<times> u8 list) \<times> 'c psys) outcome" where
  "read_file bc ip off n s = on_path (\<lambda>t. andthen (it_read (inodes bc) ip off n t) (\<lambda>(r, bs, t). Ok ((r, bs), t))) s"

text \<open>One program header of type \<^verbatim>\<open>PT_LOAD\<close>; the size that \<^verbatim>\<open>uvmalloc\<close> returns is an \<^verbatim>\<open>int\<close>.\<close>

definition load_segment :: "elf_format \<Rightarrow> 'c block_cache \<Rightarrow> nat \<Rightarrow> u8 list \<Rightarrow> pgdir \<Rightarrow> bool \<Rightarrow> u64 \<Rightarrow> 'c psys \<Rightarrow> ((pgdir \<times> u64) option \<times> 'c psys) outcome" where
  "load_segment E bc ip ph pd first sz s =
     (if p_memsz E ph < p_filesz E ph then Ok (None, s)
      else if p_vaddr E ph + p_memsz E ph < p_vaddr E ph then Ok (None, s)
      else let sz = (if first then p_vaddr E ph else sz)
           in andthen (with_vm (\<lambda>v. andthen (uvmalloc pd (unat sz) (unat (p_vaddr E ph + p_memsz E ph)) v) (\<lambda>(r, pd, v). Ok ((r, pd), v))) s) (\<lambda>((r, pd), s).
              let sz = scast (of_nat r :: u32)
              in if sz = 0 then Ok (None, s)
                 else andthen (read_file bc ip (p_offset E ph) (p_filesz E ph) (attach pd s)) (\<lambda>((n, bs), s).
                      andthen (user_store bc (unat (p_vaddr E ph)) bs s) (\<lambda>s.
                      if n \<noteq> p_filesz E ph then Ok (None, s) else Ok (Some (pd, sz), s)))))"

fun load_loop :: "elf_format \<Rightarrow> 'c block_cache \<Rightarrow> nat \<Rightarrow> nat \<Rightarrow> u64 \<Rightarrow> pgdir \<Rightarrow> bool \<Rightarrow> u64 \<Rightarrow> 'c psys \<Rightarrow> (pgdir option \<times> 'c psys) outcome" where
  "load_loop E bc ip 0 off pd first sz s = Ok (Some pd, s)"
| "load_loop E bc ip (Suc k) off pd first sz s =
     andthen (read_file bc ip off (of_nat (sizeof_phdr E)) s) (\<lambda>((n, ph), s).
     if n \<noteq> of_nat (sizeof_phdr E) then Ok (None, s)
     else if p_type E ph \<noteq> PT_LOAD E then load_loop E bc ip k (off + of_nat (sizeof_phdr E)) pd first sz s
     else andthen (load_segment E bc ip ph pd first sz s) (\<lambda>(r, s).
          case r of
            None \<Rightarrow> Ok (None, s)
          | Some (pd, sz) \<Rightarrow> load_loop E bc ip k (off + of_nat (sizeof_phdr E)) pd False sz s))"

section \<open>The arguments\<close>

text \<open>
  While the arguments are read, the old tables are in use, but a fault is handled in those of
  \<^verbatim>\<open>curproc->pgdir\<close>, which are the new ones by now: an argument in a page that is not there faults
  for ever.
\<close>

definition page_via :: "'c block_cache \<Rightarrow> pgdir \<Rightarrow> nat \<Rightarrow> 'c psys \<Rightarrow> (nat \<times> 'c psys) outcome" where
  "page_via bc pd addr s =
     andthen (get_pte pd (of_nat addr) False (pvm s)) (\<lambda>(r, _, _).
     case r of
       Some e \<Rightarrow> if pte_valid (get_pte_at e (pvm s)) then Ok (target (get_pte_at e (pvm s)), s)
                 else andthen (pgfault_handler bc addr 0 s) (\<lambda>_. Blocked)
     | None \<Rightarrow> andthen (pgfault_handler bc addr 0 s) (\<lambda>_. Blocked))"

definition byte_via :: "'c block_cache \<Rightarrow> pgdir \<Rightarrow> nat \<Rightarrow> 'c psys \<Rightarrow> (u8 \<times> 'c psys) outcome" where
  "byte_via bc pd addr s = andthen (page_via bc pd addr s) (\<lambda>(a, s). Ok (pbytes (pvm s) a ! (addr mod PAGE_SIZE), s))"

fun bytes_via :: "'c block_cache \<Rightarrow> pgdir \<Rightarrow> nat \<Rightarrow> nat \<Rightarrow> 'c psys \<Rightarrow> (u8 list \<times> 'c psys) outcome" where
  "bytes_via bc pd addr 0 s = Ok ([], s)"
| "bytes_via bc pd addr (Suc n) s =
     andthen (byte_via bc pd addr s) (\<lambda>(b, s). andthen (bytes_via bc pd (addr + 1) n s) (\<lambda>(bs, s). Ok (b # bs, s)))"

text \<open>The string at \<open>addr\<close> with its zero.\<close>

function string_via :: "'c block_cache \<Rightarrow> pgdir \<Rightarrow> nat \<Rightarrow> 'c psys \<Rightarrow> (u8 list \<times> 'c psys) outcome" where
  "string_via bc pd addr s =
     (if USERTOP \<le> addr then Undef
      else andthen (byte_via bc pd addr s) (\<lambda>(b, s).
           if b = 0 then Ok ([0], s) else andthen (string_via bc pd (addr + 1) s) (\<lambda>(bs, s). Ok (b # bs, s))))"
  by pat_completeness auto
termination
  by (relation "measure (\<lambda>(bc, pd, addr, s). USERTOP - addr)") auto

declare string_via.simps [simp del]

text \<open>The loop that copies the strings of \<^verbatim>\<open>argv\<close> or \<^verbatim>\<open>envp\<close> to the new stack; the result of \<^verbatim>\<open>copyout\<close> is dropped.\<close>

definition copy_new :: "pgdir \<Rightarrow> u64 \<Rightarrow> u8 list option \<Rightarrow> nat \<Rightarrow> 'c psys \<Rightarrow> (pgdir \<times> 'c psys) outcome" where
  "copy_new pd sp src len s = with_vm (\<lambda>v. andthen (copyout pd (unat sp) src len v) (\<lambda>(_, pd, v). Ok (pd, v))) s"

fun push_strings :: "nat \<Rightarrow> 'c block_cache \<Rightarrow> pgdir \<Rightarrow> nat \<Rightarrow> nat \<Rightarrow> u64 \<Rightarrow> pgdir \<Rightarrow> 'c psys \<Rightarrow> (nat \<times> u64 \<times> pgdir \<times> 'c psys) outcome" where
  "push_strings 0 bc old vec c sp pd s = Ok (c, sp, pd, s)"
| "push_strings (Suc n) bc old vec c sp pd s =
     andthen (bytes_via bc old (vec + 8 * c) 8 s) (\<lambda>(p, s).
     if le_value p = 0 then Ok (c, sp, pd, s)
     else andthen (string_via bc old (le_value p) s) (\<lambda>(str, s).
          let sp = sp - of_nat (length str)
          in andthen (copy_new pd sp (Some str) (length str) s) (\<lambda>(pd, s). push_strings n bc old vec (c + 1) sp pd s)))"

definition push_vector :: "'c block_cache \<Rightarrow> pgdir \<Rightarrow> nat \<Rightarrow> u64 \<Rightarrow> pgdir \<Rightarrow> 'c psys \<Rightarrow> (nat \<times> u64 \<times> pgdir \<times> 'c psys) outcome" where
  "push_vector bc old vec sp pd s = (if vec \<noteq> 0 then push_strings MAXARG bc old vec 0 sp pd s else Ok (0, sp, pd, s))"

text \<open>The loop that fills in the pointers, from the last one down; \<open>sp\<close> runs up over the strings.\<close>

fun place_pointers :: "'c block_cache \<Rightarrow> u64 \<Rightarrow> nat \<Rightarrow> u64 \<Rightarrow> 'c psys \<Rightarrow> (u64 \<times> 'c psys) outcome" where
  "place_pointers bc vec 0 sp s = Ok (sp, s)"
| "place_pointers bc vec (Suc i) sp s =
     andthen (user_store bc (unat (vec + 8 * of_nat i)) (le_bytes 8 (unat sp)) s) (\<lambda>s.
     andthen (user_strlen bc (unat sp) USERTOP s) (\<lambda>(n, s). place_pointers bc vec i (sp + of_nat n) s))"

definition exec_stack :: "'c block_cache \<Rightarrow> pgdir \<Rightarrow> nat \<Rightarrow> nat \<Rightarrow> pgdir \<Rightarrow> 'c psys \<Rightarrow> (u64 \<times> pgdir \<times> 'c psys) outcome" where
  "exec_stack bc old argv envp pd s =
     andthen (push_vector bc old argv (of_nat USERTOP) pd (attach old s)) (\<lambda>(argc, sp, pd, s).
     andthen (push_vector bc old envp sp pd s) (\<lambda>(envc, sp, pd, s).
     let newsp = (sp - of_nat ((envc + argc + 4) * 8)) AND NOT 0xF
     in andthen (copy_new pd newsp None (unat (sp - newsp)) s) (\<lambda>(pd, s).
        let s = attach pd s;
            newargv = newsp + 8;
            newenvp = newargv + 8 * (of_nat argc + 1)
        in andthen (place_pointers bc newenvp envc sp s) (\<lambda>(sp, s).
           andthen (place_pointers bc newargv argc sp s) (\<lambda>(sp, s).
           andthen (user_store bc (unat newsp) (le_bytes 8 argc) s) (\<lambda>s.
           let sp = newsp;
               user_base = (of_nat USERTOP - sp + 8 * of_nat PAGE_SIZE - 1) AND NOT 0x7F
           in andthen (copy_new pd (of_nat USERTOP - user_base) None (unat (user_base - (of_nat USERTOP - sp))) s) (\<lambda>(pd, s).
              Ok (sp, pd, s))))))))"

section \<open>The call\<close>

definition exec_bad :: "'c block_cache \<Rightarrow> pgdir \<Rightarrow> pgdir \<Rightarrow> nat option \<Rightarrow> 'c psys \<Rightarrow> (int \<times> 'c psys) outcome" where
  "exec_bad bc old pd ip s =
     andthen (with_vm (free_pgdir pd) s) (\<lambda>(_, s).
     andthen (case ip of None \<Rightarrow> Ok s | Some ip \<Rightarrow> andthen (do_inodes (unlock_put bc ip) s) (do_inodes (op_end bc))) (\<lambda>s.
     Ok (- 1, set_pgd (this_proc s) old s)))"

definition exec_enter :: "'c block_cache \<Rightarrow> tid \<Rightarrow> pgdir \<Rightarrow> pgdir \<Rightarrow> u64 \<Rightarrow> nat \<Rightarrow> nat \<Rightarrow> 'c psys \<Rightarrow> (int \<times> 'c psys) outcome" where
  "exec_enter bc cur old pd start argv envp s =
     andthen (exec_stack bc old argv envp pd s) (\<lambda>(sp, pd, s).
     let s = upd_uproc cur (\<lambda>u. u\<lparr>pgd := pd, ucontext := (ucontext u)\<lparr>uelr := start, usp := sp\<rparr>\<rparr>) s
     in andthen (with_vm (free_pgdir old) s) (\<lambda>(_, s). Ok (0, s)))"

definition exec_file :: "elf_format \<Rightarrow> 'c block_cache \<Rightarrow> tid \<Rightarrow> pgdir \<Rightarrow> pgdir \<Rightarrow> nat \<Rightarrow> nat \<Rightarrow> nat \<Rightarrow> 'c psys \<Rightarrow> (int \<times> 'c psys) outcome" where
  "exec_file E bc cur old pd ip argv envp s =
     andthen (do_inodes (it_lock (inodes bc) ip) s) (\<lambda>s.
     andthen (read_file bc ip 0 (of_nat (sizeof_ehdr E)) s) (\<lambda>((n, hdr), s).
     if n \<noteq> of_nat (sizeof_ehdr E) then exec_bad bc old pd (Some ip) s
     else if \<not> is_elf E hdr then exec_bad bc old pd (Some ip) s
     else andthen (load_loop E bc ip (e_phnum E hdr) (e_phoff E hdr) pd True 0 (set_pgd cur pd s)) (\<lambda>(r, s).
          case r of
            None \<Rightarrow> exec_bad bc old pd (Some ip) s
          | Some pd \<Rightarrow>
              andthen (do_inodes (unlock_put bc ip) s) (\<lambda>s.
              andthen (do_inodes (op_end bc) s) (\<lambda>s. exec_enter bc cur old pd (e_entry E hdr) argv envp s)))))"

definition execve :: "elf_format \<Rightarrow> 'c block_cache \<Rightarrow> u8 list \<Rightarrow> nat \<Rightarrow> nat \<Rightarrow> 'c psys \<Rightarrow> (int \<times> 'c psys) outcome" where
  "execve E bc path argv envp s =
     (let cur = this_proc s; old = pgd (uprocs s cur)
      in andthen (with_mem (kalloc sizeof_pgdir) s) (\<lambda>(a, s).
         if a = None then Undef
         else andthen (with_vm (init_pgdir (raw_section s)) s) (\<lambda>(pd, s).
              andthen (do_inodes (op_begin bc) s) (\<lambda>s.
              andthen (on_path (namei bc path True) s) (\<lambda>(ip, s).
              case ip of
                None \<Rightarrow> andthen (do_inodes (op_end bc) s) (exec_bad bc old pd None)
              | Some ip \<Rightarrow> exec_file E bc cur old pd ip argv envp s)))))"


section \<open>What a call leaves alone\<close>

text \<open>The running process may get another page directory; files and memory may change.\<close>

definition tame :: "'c psys \<Rightarrow> 'c psys \<Rightarrow> bool" where
  "tame s s' \<longleftrightarrow> (\<exists>f v pd. s' = s\<lparr>pfs := f, pvm := v, uprocs := (uprocs s)(this_proc s := (uprocs s (this_proc s))\<lparr>pgd := pd\<rparr>)\<rparr>)"

lemma tameI:
  fixes s :: "'c psys" and f :: "'c fsys" and v :: vm_sys and pd :: pgdir
  shows "tame s (s\<lparr>pfs := f, pvm := v, uprocs := (uprocs s)(this_proc s := (uprocs s (this_proc s))\<lparr>pgd := pd\<rparr>)\<rparr>)"
  by (auto simp: tame_def)

lemma tame_fields: "tame s s' \<Longrightarrow> this_proc s' = this_proc s \<and> sch s' = sch s \<and> invalid_pt s' = invalid_pt s"
  by (auto simp: tame_def this_proc_def)

lemma tame_plain: "tame s (s\<lparr>pfs := f, pvm := v\<rparr>)" "tame s (s\<lparr>pfs := f\<rparr>)" "tame s (s\<lparr>pvm := v\<rparr>)" "tame s (s\<lparr>pvm := v, pfs := f\<rparr>)" "tame s s"
proof -
  have T: "tame s (s\<lparr>pfs := f, pvm := v\<rparr>)" for f v
    using tameI [where s = s and f = f and v = v and pd = "pgd (uprocs s (this_proc s))"] by simp
  show "tame s (s\<lparr>pfs := f, pvm := v\<rparr>)" by (rule T)
  show "tame s (s\<lparr>pfs := f\<rparr>)" using T [where f = f and v = "pvm s"] by simp
  show "tame s (s\<lparr>pvm := v\<rparr>)" using T [where f = "pfs s" and v = v] by simp
  show "tame s (s\<lparr>pvm := v, pfs := f\<rparr>)"
  proof -
    have e: "s\<lparr>pvm := v, pfs := f\<rparr> = s\<lparr>pfs := f, pvm := v\<rparr>" by (cases s) simp
    show ?thesis unfolding e by (rule T)
  qed
  show "tame s s" using T [where f = "pfs s" and v = "pvm s"] by simp
qed

lemma tame_pgd: "tame s (set_pgd (this_proc s) pd s)"
  using tameI [where s = s and f = "pfs s" and v = "pvm s" and pd = pd] by (simp add: set_pgd_def upd_uproc_def)

lemma tame_trans [trans]: "tame s t \<Longrightarrow> tame t u \<Longrightarrow> tame s u"
  unfolding tame_def by (elim exE) (simp add: this_proc_def, blast)

lemma tame_attach: "tame s (attach pd s)"
  unfolding attach_def by (rule tame_plain)

lemma tame_files: "with_files h s = Ok (z, s') \<Longrightarrow> tame s s'"
  by (auto simp: with_files_def as_thread_def Let_def tame_plain)

lemma tame_path: "on_path l s = Ok (w, s') \<Longrightarrow> tame s s'"
  unfolding on_path_def by (rule tame_files)

lemma tame_read: "read_file bc ip off n s = Ok (q, s') \<Longrightarrow> tame s s'"
  unfolding read_file_def by (rule tame_path)

lemma tame_calls:
  "with_vm g s = Ok (x, s') \<Longrightarrow> tame s s'" "do_files k s = Ok s' \<Longrightarrow> tame s s'" "do_inodes j s = Ok s' \<Longrightarrow> tame s s'"
  "do_mem m s = Ok s' \<Longrightarrow> tame s s'" "with_mem m2 s = Ok (y, s') \<Longrightarrow> tame s s'"
  by (auto simp: with_vm_def do_files_def do_inodes_def do_mem_def with_mem_def tame_plain)

lemma tame_with_pgd: "with_pgd (this_proc s) g s = Ok (x, s') \<Longrightarrow> tame s s'"
proof -
  assume a: "with_pgd (this_proc s) g s = Ok (x, s')"
  then obtain pd t where t: "with_vm (\<lambda>v. andthen (g (pgd (uprocs s (this_proc s))) v) (\<lambda>(x, pd, v). Ok ((x, pd), v))) s = Ok ((x, pd), t)"
    "s' = upd_uproc (this_proc s) (\<lambda>q. q\<lparr>pgd := pd\<rparr>) t" by (auto simp: with_pgd_def)
  have "tame s t" by (rule tame_calls(1) [OF t(1)])
  moreover have "tame t s'" using tame_pgd [of t pd] tame_fields [OF calculation] t(2) by (simp add: set_pgd_def)
  ultimately show ?thesis by (rule tame_trans)
qed

lemma tame_fault: "pgfault_handler bc addr iss s = Ok (r, s') \<Longrightarrow> tame s s'"
proof -
  have bytes: "tame u (u\<lparr>pvm := v\<rparr>)" for u :: "'a psys" and v by (rule tame_plain)
  have F: "tame s s'" if a: "fault_in_file bc (this_proc s) addr w s = Ok (r, s')" for w
  proof -
    from a obtain mem t where t: "with_vm page_alloc s = Ok (mem, t)" by (auto simp: fault_in_file_def Let_def)
    note T = tame_calls(1) [OF t]
    show ?thesis
    proof (cases mem)
      case None
      then show ?thesis using a t T by (simp add: fault_in_file_def Let_def)
    next
      case (Some m)
      define t1 where "t1 = t\<lparr>pvm := (pvm t)\<lparr>pbytes := (pbytes (pvm t))(m := replicate PAGE_SIZE 0)\<rparr>\<rparr>"
      have T1: "tame s t1" using tame_trans [OF T] bytes by (simp add: t1_def)
      have th: "this_proc t1 = this_proc s" using tame_fields [OF T1] by simp
      from a t Some obtain q t2 where t2: "with_pgd (this_proc s) (\<lambda>pd. mappages pd (of_nat (page_base addr)) PAGE_SIZE (of_nat m) (vperm w)) t1 = Ok (q, t2)"
        by (auto simp: fault_in_file_def Let_def t1_def)
      have T2: "tame s t2" by (rule tame_trans [OF T1]) (rule tame_with_pgd [OF t2 [folded th]])
      show ?thesis
      proof (cases "q = 0")
        case False
        then show ?thesis using a t Some t2 tame_trans [OF T2 tame_calls(4)] by (auto simp: fault_in_file_def Let_def t1_def)
      next
        case True
        define ip where "ip = fobj (ffiles (pfs t2) (vfile w))"
        from a t Some t2 True obtain t3 bs t4 t5 where t3: "do_inodes (it_lock (inodes bc) ip) t2 = Ok t3"
          and t4: "with_files (\<lambda>f. andthen (it_read (inodes bc) ip (of_nat (voff w) + of_nat (page_base addr) - of_nat (vstart w)) (of_nat PAGE_SIZE) (fis f)) (\<lambda>(_, bs, t). Ok (bs, f\<lparr>fis := t\<rparr>))) t3 = Ok (bs, t4)"
          and t5: "t5 = t4\<lparr>pvm := (pvm t4)\<lparr>pbytes := (pbytes (pvm t4))(m := splice 0 bs (pbytes (pvm t4) m))\<rparr>\<rparr>" "do_inodes (it_unlock (inodes bc) ip) t5 = Ok s'"
          by (auto simp: fault_in_file_def Let_def t1_def ip_def)
        have "tame t4 t5" unfolding t5(1) by (rule bytes)
        then show ?thesis by (intro tame_trans [OF T2] tame_trans [OF tame_calls(3) [OF t3]] tame_trans [OF tame_files [OF t4]] tame_trans [OF _ tame_calls(3) [OF t5(2)]])
      qed
    qed
  qed
  assume "pgfault_handler bc addr iss s = Ok (r, s')"
  then show ?thesis by (auto simp: pgfault_handler_def Let_def split: option.splits intro: F tame_with_pgd)
qed


lemma tame_user_page: "user_page bc addr s = Ok (a, s') \<Longrightarrow> tame s s'"
  by (auto simp: user_page_def tame_plain split: option.splits intro: tame_fault)

lemma user_store_nil: "user_store bc addr [] s = Ok s"
  by (subst user_store.simps) simp

lemma user_load_nil: "user_load bc addr 0 s = Ok ([], s)"
  by (subst user_load.simps) simp

lemma tame_store: "user_store bc addr bs s = Ok s' \<Longrightarrow> tame s s'"
proof (induction bc addr bs s rule: user_store.induct)
  case (1 bc addr bs s)
  show ?case
  proof (cases "bs = []")
    case True
    have "s' = s" using "1.prems" unfolding True user_store_nil by simp
    then show ?thesis by (simp add: tame_plain)
  next
    case False
    define k where "k = min (length bs) (PAGE_SIZE - addr mod PAGE_SIZE)"
    obtain a t where t: "user_page bc addr s = Ok (a, t)" using "1.prems" False by (auto simp: user_store.simps [of bc addr bs] Let_def)
    define t1 where "t1 = t\<lparr>pvm := (pvm t)\<lparr>pbytes := (pbytes (pvm t))(a := splice (addr mod PAGE_SIZE) (take k bs) (pbytes (pvm t) a))\<rparr>\<rparr>"
    have r: "user_store bc (addr + k) (drop k bs) t1 = Ok s'" using "1.prems" False t by (simp add: user_store.simps [of bc addr bs] Let_def k_def t1_def)
    have "tame t1 s'" by (rule "1.IH" [OF False k_def t refl refl, folded t1_def, OF r])
    moreover have "tame t t1" by (simp add: t1_def tame_plain)
    ultimately have "tame t s'" by (metis tame_trans)
    then show ?thesis by (rule tame_trans [OF tame_user_page [OF t]])
  qed
qed

lemma tame_load: "user_load bc addr n s = Ok (r, s') \<Longrightarrow> tame s s'"
proof (induction bc addr n s arbitrary: r rule: user_load.induct)
  case (1 bc addr n s)
  show ?case
  proof (cases "n = 0")
    case True
    have "s' = s" using "1.prems" unfolding True user_load_nil by simp
    then show ?thesis by (simp add: tame_plain)
  next
    case False
    define k where "k = min n (PAGE_SIZE - addr mod PAGE_SIZE)"
    obtain a t where t: "user_page bc addr s = Ok (a, t)" using "1.prems" False by (auto simp: user_load.simps [of bc addr n] Let_def)
    obtain q where r: "user_load bc (addr + k) (n - k) t = Ok (q, s')" using "1.prems" False t by (auto simp: user_load.simps [of bc addr n] Let_def k_def)
    show ?thesis by (rule tame_trans [OF tame_user_page [OF t] "1.IH" [OF False k_def t refl refl r]])
  qed
qed

lemma tame_strlen: "user_strlen_from bc str i m s = Ok (r, s') \<Longrightarrow> tame s s'"
proof (induction bc str i m s rule: user_strlen_from.induct)
  case (1 bc str i m s)
  show ?case
  proof (cases "i < m \<and> user_readable (str + i) 1")
    case False
    have "s' = s" using "1.prems" False by (subst (asm) user_strlen_from.simps) (auto split: if_splits)
    then show ?thesis by (simp add: tame_plain)
  next
    case True
    obtain bs t where t: "user_load bc (str + i) 1 s = Ok (bs, t)" using "1.prems" True by (auto simp: user_strlen_from.simps [of bc str i])
    show ?thesis
    proof (cases "hd bs = 0")
      case z: True
      then show ?thesis using "1.prems" True t tame_load [OF t] by (simp add: user_strlen_from.simps [of bc str i])
    next
      case z: False
      then have "user_strlen_from bc str (i + 1) m t = Ok (r, s')" using "1.prems" True t by (simp add: user_strlen_from.simps [of bc str i])
      then show ?thesis using "1.IH" [OF _ _ t refl z] True tame_trans [OF tame_load [OF t]] by blast
    qed
  qed
qed

lemma via_same: "page_via bc pd addr s = Ok (a, s') \<Longrightarrow> s' = s" "byte_via bc pd addr s = Ok (b, s') \<Longrightarrow> s' = s"
proof -
  show P: "page_via bc pd addr s = Ok (a, s') \<Longrightarrow> s' = s" for a by (auto simp: page_via_def split: option.splits if_splits)
  show "byte_via bc pd addr s = Ok (b, s') \<Longrightarrow> s' = s" by (auto simp: byte_via_def dest: P)
qed

lemma bytes_via_same: "bytes_via bc pd addr n s = Ok (r, s') \<Longrightarrow> s' = s"
  by (induction n arbitrary: addr r s) (auto dest: via_same)

lemma string_via_same: "string_via bc pd addr s = Ok (r, s') \<Longrightarrow> s' = s"
proof (induction bc pd addr s arbitrary: r rule: string_via.induct)
  case (1 bc pd addr s)
  then show ?case by (subst (asm) (2) string_via.simps) (auto split: if_splits dest: via_same)
qed

lemma tame_copy_new: "copy_new pd sp src len s = Ok (r, s') \<Longrightarrow> tame s s'"
  unfolding copy_new_def by (rule tame_calls(1))

lemma tame_push: "push_strings n bc old vec c sp pd s = Ok (c', sp', pd', s') \<Longrightarrow> tame s s'"
proof (induction n arbitrary: c sp pd s)
  case (Suc n)
  obtain p t where p: "bytes_via bc old (vec + 8 * c) 8 s = Ok (p, t)" using Suc.prems by auto
  then have t: "t = s" by (rule bytes_via_same)
  show ?case
  proof (cases "le_value p = 0")
    case True
    then show ?thesis using Suc.prems p t by (simp add: tame_plain)
  next
    case False
    obtain str u where u: "string_via bc old (le_value p) s = Ok (str, u)" using Suc.prems p t False by auto
    then have us: "u = s" by (rule string_via_same)
    obtain pd2 w where w: "copy_new pd (sp - of_nat (length str)) (Some str) (length str) s = Ok (pd2, w)" using Suc.prems p t False u us by (auto simp: Let_def)
    have "push_strings n bc old vec (c + 1) (sp - of_nat (length str)) pd2 w = Ok (c', sp', pd', s')" using Suc.prems p t False u us w by (simp add: Let_def)
    from Suc.IH [OF this] show ?thesis by (rule tame_trans [OF tame_copy_new [OF w]])
  qed
qed (simp add: tame_plain)

lemma tame_push_vector: "push_vector bc old vec sp pd s = Ok (c', sp', pd', s') \<Longrightarrow> tame s s'"
  by (auto simp: push_vector_def tame_plain split: if_splits intro: tame_push)

lemma tame_place: "place_pointers bc vec n sp s = Ok (sp', s') \<Longrightarrow> tame s s'"
proof (induction n arbitrary: sp s)
  case (Suc i)
  then obtain t k u where t: "user_store bc (unat (vec + 8 * of_nat i)) (le_bytes 8 (unat sp)) s = Ok t" "user_strlen bc (unat sp) USERTOP t = Ok (k, u)"
    "place_pointers bc vec i (sp + of_nat k) u = Ok (sp', s')" by auto
  show ?case by (rule tame_trans [OF tame_store [OF t(1)] tame_trans [OF tame_strlen [OF t(2) [unfolded user_strlen_def]] Suc.IH [OF t(3)]]])
qed (simp add: tame_plain)


lemma tame_stack: "exec_stack bc old argv envp pd s = Ok (sp', pd', s') \<Longrightarrow> tame s s'"
proof -
  assume a: "exec_stack bc old argv envp pd s = Ok (sp', pd', s')"
  obtain argc sp1 pd1 s1 where 1: "push_vector bc old argv (of_nat USERTOP) pd (attach old s) = Ok (argc, sp1, pd1, s1)"
    using a by (auto simp: exec_stack_def)
  obtain envc sp pd2 s2 where 2: "push_vector bc old envp sp1 pd1 s1 = Ok (envc, sp, pd2, s2)"
    using a by (auto simp: exec_stack_def 1)
  obtain q3 n3 pd3 s3 v4 sp4 s4 v5 sp5 s5 q6 n6 s6 q7 n7 where
    3: "copy_new pd2 q3 None n3 s2 = Ok (pd3, s3)" and 4: "place_pointers bc v4 envc sp (attach pd3 s3) = Ok (sp4, s4)"
    and 5: "place_pointers bc v5 argc sp4 s4 = Ok (sp5, s5)" and 6: "user_store bc q6 n6 s5 = Ok s6" and 7: "copy_new pd3 q7 None n7 s6 = Ok (pd', s')"
    using a unfolding exec_stack_def 1 Let_def by (auto simp: 2 simp del: of_nat_add of_nat_mult)
  have "tame s (attach old s)" by (rule tame_attach)
  also have "tame (attach old s) s1" by (rule tame_push_vector [OF 1])
  also have "tame s1 s2" by (rule tame_push_vector [OF 2])
  also have "tame s2 s3" by (rule tame_copy_new [OF 3])
  also have "tame s3 (attach pd3 s3)" by (rule tame_attach)
  also have "tame (attach pd3 s3) s4" by (rule tame_place [OF 4])
  also have "tame s4 s5" by (rule tame_place [OF 5])
  also have "tame s5 s6" by (rule tame_store [OF 6])
  also have "tame s6 s'" by (rule tame_copy_new [OF 7])
  finally show ?thesis .
qed

lemma tame_segment: "load_segment E bc ip ph pd f sz s = Ok (r, s') \<Longrightarrow> tame s s'"
proof -
  assume a: "load_segment E bc ip ph pd f sz s = Ok (r, s')"
  show ?thesis
  proof (cases "p_memsz E ph < p_filesz E ph \<or> p_vaddr E ph + p_memsz E ph < p_vaddr E ph")
    case True
    then show ?thesis using a by (auto simp: load_segment_def tame_plain split: if_splits)
  next
    case False
    define sz1 where "sz1 = (if f then p_vaddr E ph else sz)"
    obtain n pd1 s1 where 1: "with_vm (\<lambda>v. andthen (uvmalloc pd (unat sz1) (unat (p_vaddr E ph + p_memsz E ph)) v) (\<lambda>(r, pd, v). Ok ((r, pd), v))) s = Ok ((n, pd1), s1)"
      using a False by (auto simp: load_segment_def Let_def sz1_def)
    note T1 = tame_calls(1) [OF 1]
    show ?thesis
    proof (cases "scast (of_nat n :: u32) = (0 :: u64)")
      case True
      then show ?thesis using a False T1 by (auto simp: load_segment_def Let_def 1 [unfolded sz1_def])
    next
      case nz: False
      obtain m bs s2 where 2: "read_file bc ip (p_offset E ph) (p_filesz E ph) (attach pd1 s1) = Ok ((m, bs), s2)"
        using a False nz by (auto simp: load_segment_def Let_def 1 [unfolded sz1_def])
      have 3: "user_store bc (unat (p_vaddr E ph)) bs s2 = Ok s'"
        using a False nz by (auto simp: load_segment_def Let_def 1 [unfolded sz1_def] 2 split: if_splits)
      show ?thesis by (rule tame_trans [OF T1 tame_trans [OF tame_attach tame_trans [OF tame_read [OF 2] tame_store [OF 3]]]])
    qed
  qed
qed

lemma tame_load_loop: "load_loop E bc ip k off pd f sz s = Ok (r, s') \<Longrightarrow> tame s s'"
proof (induction k arbitrary: off pd f sz s)
  case (Suc k)
  obtain n ph s1 where 1: "read_file bc ip off (of_nat (sizeof_phdr E)) s = Ok ((n, ph), s1)" using Suc.prems by auto
  note T1 = tame_read [OF 1]
  consider (short) "n \<noteq> of_nat (sizeof_phdr E)" | (skip) "n = of_nat (sizeof_phdr E)" "p_type E ph \<noteq> PT_LOAD E"
    | (seg) "n = of_nat (sizeof_phdr E)" "p_type E ph = PT_LOAD E" by blast
  then show ?case
  proof cases
    case short
    then show ?thesis using Suc.prems 1 T1 by simp
  next
    case skip
    then have "load_loop E bc ip k (off + of_nat (sizeof_phdr E)) pd f sz s1 = Ok (r, s')" using Suc.prems 1 by simp
    from Suc.IH [OF this] show ?thesis by (rule tame_trans [OF T1])
  next
    case seg
    then obtain q s2 where 2: "load_segment E bc ip ph pd f sz s1 = Ok (q, s2)" using Suc.prems 1 by auto
    note T2 = tame_trans [OF T1 tame_segment [OF 2]]
    show ?thesis
    proof (cases q)
      case None
      then show ?thesis using Suc.prems 1 2 seg T2 by simp
    next
      case (Some p)
      obtain pd2 sz2 where p: "p = (pd2, sz2)" by force
      have "load_loop E bc ip k (off + of_nat (sizeof_phdr E)) pd2 False sz2 s2 = Ok (r, s')" using Suc.prems 1 2 seg Some p by simp
      from Suc.IH [OF this] show ?thesis by (rule tame_trans [OF T2])
    qed
  qed
qed (simp add: tame_plain)

section \<open>What the call leaves\<close>

text \<open>
  The running process as it was when the call began, or with the new directory and the entry point.
\<close>

definition restored :: "pgdir \<Rightarrow> 'c psys \<Rightarrow> 'c psys \<Rightarrow> bool" where
  "restored old s s' \<longleftrightarrow> sch s' = sch s \<and> uprocs s' = (uprocs s)(this_proc s := (uprocs s (this_proc s))\<lparr>pgd := old\<rparr>)"

definition entered :: "u64 \<Rightarrow> 'c psys \<Rightarrow> 'c psys \<Rightarrow> bool" where
  "entered start s s' \<longleftrightarrow> sch s' = sch s \<and> (\<exists>pd sp. uprocs s' = (uprocs s)(this_proc s := (uprocs s (this_proc s))
     \<lparr>pgd := pd, ucontext := (ucontext (uprocs s (this_proc s)))\<lparr>uelr := start, usp := sp\<rparr>\<rparr>))"

lemma tame_restored: "tame s t \<Longrightarrow> restored old t s' \<Longrightarrow> restored old s s'"
  by (auto simp: tame_def restored_def this_proc_def)

lemma tame_entered: "tame s t \<Longrightarrow> entered start t s' \<Longrightarrow> entered start s s'"
  by (auto simp: tame_def entered_def this_proc_def) blast

lemma restored_pgd: "tame s t \<Longrightarrow> restored old s (set_pgd (this_proc t) old t)"
  by (auto simp: tame_def restored_def this_proc_def set_pgd_def upd_uproc_def)

lemma exec_bad_restores: "exec_bad bc old pd ip s = Ok (r, s') \<Longrightarrow> r = - 1 \<and> restored old s s'"
proof -
  assume a: "exec_bad bc old pd ip s = Ok (r, s')"
  obtain x s1 where 1: "with_vm (free_pgdir pd) s = Ok (x, s1)" using a by (auto simp: exec_bad_def)
  note T1 = tame_calls(1) [OF 1]
  show ?thesis
  proof (cases ip)
    case None
    then show ?thesis using a 1 restored_pgd [OF T1, of old] by (auto simp: exec_bad_def)
  next
    case (Some i)
    obtain s2 where 2: "do_inodes (unlock_put bc i) s1 = Ok s2" using a 1 Some by (auto simp: exec_bad_def)
    obtain s3 where 3: "do_inodes (op_end bc) s2 = Ok s3" using a 1 2 Some by (auto simp: exec_bad_def)
    have "tame s s3" by (rule tame_trans [OF T1 tame_trans [OF tame_calls(3) [OF 2] tame_calls(3) [OF 3]]])
    from restored_pgd [OF this, of old] show ?thesis using a 1 2 3 Some by (auto simp: exec_bad_def)
  qed
qed

lemma exec_enter_enters:
  assumes "exec_enter bc (this_proc s) old pd start argv envp s = Ok (r, s')"
  shows "r = 0 \<and> entered start s s'"
proof -
  obtain sp pd1 s1 where 1: "exec_stack bc old argv envp pd s = Ok (sp, pd1, s1)" using assms by (auto simp: exec_enter_def)
  note T1 = tame_stack [OF 1]
  have p: "this_proc s = this_proc s1" using tame_fields [OF T1] by simp
  define s2 where "s2 = upd_uproc (this_proc s) (\<lambda>u. u\<lparr>pgd := pd1, ucontext := (ucontext u)\<lparr>uelr := start, usp := sp\<rparr>\<rparr>) s1"
  obtain x where 3: "with_vm (free_pgdir old) s2 = Ok (x, s')" "r = 0" using assms 1 by (auto simp: exec_enter_def Let_def s2_def)
  have "entered start s1 s'" using 3(1) by (auto simp: with_vm_def entered_def s2_def upd_uproc_def p) blast
  then show ?thesis using tame_entered [OF T1] 3(2) by simp
qed

lemma exec_file_result:
  assumes "exec_file E bc (this_proc s) old pd ip argv envp s = Ok (r, s')"
  shows "r = - 1 \<and> restored old s s' \<or> r = 0 \<and> (\<exists>start. entered start s s')"
proof -
  obtain s1 where 1: "do_inodes (it_lock (inodes bc) ip) s = Ok s1" using assms by (auto simp: exec_file_def)
  obtain n hdr s2 where 2: "read_file bc ip 0 (of_nat (sizeof_ehdr E)) s1 = Ok ((n, hdr), s2)" using assms 1 by (auto simp: exec_file_def)
  have T2: "tame s s2" by (rule tame_trans [OF tame_calls(3) [OF 1] tame_read [OF 2]])
  show ?thesis
  proof (cases "n \<noteq> of_nat (sizeof_ehdr E) \<or> \<not> is_elf E hdr")
    case True
    then have "exec_bad bc old pd (Some ip) s2 = Ok (r, s')" using assms 1 2 by (auto simp: exec_file_def split: if_splits)
    then show ?thesis using exec_bad_restores tame_restored [OF T2] by blast
  next
    case False
    have p: "this_proc s = this_proc s2" using tame_fields [OF T2] by simp
    obtain q s3 where 3: "load_loop E bc ip (e_phnum E hdr) (e_phoff E hdr) pd True 0 (set_pgd (this_proc s) pd s2) = Ok (q, s3)"
      using assms 1 2 False by (auto simp: exec_file_def)
    have T3: "tame s s3" by (rule tame_trans [OF T2]) (use tame_trans [OF tame_pgd tame_load_loop [OF 3 [unfolded p]]] in simp)
    show ?thesis
    proof (cases q)
      case None
      then have "exec_bad bc old pd (Some ip) s3 = Ok (r, s')" using assms 1 2 3 False by (auto simp: exec_file_def)
      then show ?thesis using exec_bad_restores tame_restored [OF T3] by blast
    next
      case (Some pd3)
      obtain s4 where 4: "do_inodes (unlock_put bc ip) s3 = Ok s4" using assms 1 2 3 False Some by (auto simp: exec_file_def)
      obtain s5 where 5: "do_inodes (op_end bc) s4 = Ok s5" using assms 1 2 3 4 False Some by (auto simp: exec_file_def)
      have T5: "tame s s5" by (rule tame_trans [OF T3 tame_trans [OF tame_calls(3) [OF 4] tame_calls(3) [OF 5]]])
      have p5: "this_proc s5 = this_proc s" using tame_fields [OF T5] by simp
      have "exec_enter bc (this_proc s) old pd3 (e_entry E hdr) argv envp s5 = Ok (r, s')" using assms 1 2 3 4 5 False Some by (simp add: exec_file_def)
      then have "r = 0 \<and> entered (e_entry E hdr) s5 s'" by (rule exec_enter_enters [of bc s5, unfolded p5])
      then show ?thesis using tame_entered [OF T5] by blast
    qed
  qed
qed

lemma execve_result:
  assumes "execve E bc path argv envp s = Ok (r, s')"
  shows "r = - 1 \<and> sch s' = sch s \<and> uprocs s' = uprocs s \<or> r = 0 \<and> (\<exists>start. entered start s s')"
proof -
  let ?cur = "this_proc s" and ?old = "pgd (uprocs s (this_proc s))"
  have R: "restored ?old s s' \<Longrightarrow> sch s' = sch s \<and> uprocs s' = uprocs s" by (simp add: restored_def)
  obtain a s1 where 1: "with_mem (kalloc sizeof_pgdir) s = Ok (a, s1)" using assms by (auto simp: execve_def Let_def)
  then have a: "a \<noteq> None" using assms by (auto simp: execve_def Let_def split: if_splits)
  obtain pd s2 where 2: "with_vm (init_pgdir (raw_section s1)) s1 = Ok (pd, s2)" using assms 1 a by (auto simp: execve_def Let_def)
  obtain s3 where 3: "do_inodes (op_begin bc) s2 = Ok s3" using assms 1 a 2 by (auto simp: execve_def Let_def)
  obtain ip s4 where 4: "on_path (namei bc path True) s3 = Ok (ip, s4)" using assms 1 a 2 3 by (auto simp: execve_def Let_def)
  have T4: "tame s s4" by (rule tame_trans [OF tame_calls(5) [OF 1] tame_trans [OF tame_calls(1) [OF 2] tame_trans [OF tame_calls(3) [OF 3] tame_path [OF 4]]]])
  show ?thesis
  proof (cases ip)
    case None
    then obtain s5 where 5: "do_inodes (op_end bc) s4 = Ok s5" "exec_bad bc ?old pd None s5 = Ok (r, s')" using assms 1 a 2 3 4 by (auto simp: execve_def Let_def)
    have "tame s s5" by (rule tame_trans [OF T4 tame_calls(3) [OF 5(1)]])
    then show ?thesis using exec_bad_restores [OF 5(2)] tame_restored R by blast
  next
    case (Some i)
    have p4: "this_proc s4 = this_proc s" using tame_fields [OF T4] by simp
    have "exec_file E bc ?cur ?old pd i argv envp s4 = Ok (r, s')" using assms 1 a 2 3 4 Some by (auto simp: execve_def Let_def)
    then have "r = - 1 \<and> restored ?old s4 s' \<or> r = 0 \<and> (\<exists>start. entered start s4 s')" by (rule exec_file_result [of E bc s4, unfolded p4])
    then show ?thesis using tame_restored [OF T4] tame_entered [OF T4] R by blast
  qed
qed

section \<open>A program that is not there\<close>

lemma for_each_skip: "(\<And>i. i \<in> set is \<Longrightarrow> f i s = Ok s) \<Longrightarrow> for_each f is s = Ok s"
  by (induction "is") auto

text \<open>A page directory that has just been made has an empty table and can be given back.\<close>

lemma new_pgdir_free:
  assumes m: "mem_pages (vmem v) live X" and two: "2 \<le> length (free_pages (vmem v))"
  shows "\<exists>pd v'. init_pgdir raw v = Ok (pd, v') \<and>
    (\<forall>w. vmem w = vmem v' \<and> tables w = tables v' \<longrightarrow> (\<exists>w'. free_pgdir pd w = Ok w'))"
proof -
  obtain q ps where f: "free_pages (vmem v) = q # ps" using two by (cases "free_pages (vmem v)") auto
  obtain m1 where 1: "kalloc_page (vmem v) = Ok (Some q, m1)" "PAGE_SIZE dvd q" "mem_pages m1 live (X - {q})" "free_pages m1 = ps"
    using kalloc_page_pages [OF m f] by blast
  have "sizeof_section \<le> 2040" by (simp add: sizeof_section_def)
  from kalloc_pages [OF 1(3) this] obtain a m2 where 2: "kalloc sizeof_section m1 = Ok (Some a, m2)" "mem_pages m2 (insert a live) (X - {q})"
    using 1(4) two f by (auto split: option.splits)
  obtain m3 where 3: "kfree_page q m2 = Ok m3" using kfree_page_pages [OF 2(2) 1(2)] by auto
  obtain secs where i: "init_pgdir raw v = Ok (\<lparr>pt = q, pglock = init_spinlock, sections = secs\<rparr>, (zero_table q (v\<lparr>vmem := m1\<rparr>))\<lparr>vmem := m2\<rparr>)"
    using 1(1) 2(1) by (simp add: init_pgdir_def new_table_def page_alloc_def zero_table_def init_sections_def)
  have "\<exists>w'. free_pgdir \<lparr>pt = q, pglock = init_spinlock, sections = secs\<rparr> w = Ok w'"
    if w: "vmem w = m2" "tables w = tables (zero_table q (v\<lparr>vmem := m1\<rparr>))" for w
  proof -
    have "get_pte_at (q, j) w = 0" if "j < N_PTE_PER_TABLE" for j using that w by (simp add: get_pte_at_def zero_table_def)
    then have "free_pagetable (Suc 3) q w = Ok w" unfolding free_pagetable.simps by (intro for_each_skip) (simp add: pte_valid_def Let_def)
    then show ?thesis using 3 w(1) by (simp add: free_pgdir_def page_free_def numeral_eq_Suc)
  qed
  then show ?thesis using i by (intro exI [of _ "\<lparr>pt = q, pglock = init_spinlock, sections = secs\<rparr>"]) auto
qed

text \<open>The part of the file system that the running process sees.\<close>

definition mine :: "'c psys \<Rightarrow> 'c isys \<Rightarrow> 'c isys" where
  "mine s i = i\<lparr>cur_cwd := (case cwd (uprocs s (this_proc s)) of Some i \<Rightarrow> i | None \<Rightarrow> 0), cur_killed := killed (procs (sch s) (this_proc s))\<rparr>"

lemma execve_missing:
  assumes m: "mem_pages (fmem (pfs s)) live X" and three: "3 \<le> length (free_pages (fmem (pfs s)))"
    and b: "op_begin bc (mine s (fis (pfs s))) = Ok i1" and n: "namei bc path True (mine s i1) = Ok (None, i2)" and e: "op_end bc (mine s i2) = Ok i3"
  shows "\<exists>s'. execve E bc path argv envp s = Ok (- 1, s')"
proof -
  have "sizeof_pgdir \<le> 2040" by (simp add: sizeof_pgdir_def)
  from kalloc_pages [OF m this] obtain a m1 where 1: "kalloc sizeof_pgdir (fmem (pfs s)) = Ok (Some a, m1)" "mem_pages m1 (insert a live) X"
    "length (free_pages (fmem (pfs s))) \<le> length (free_pages m1) + 1"
    using three by (auto split: option.splits)
  let ?v = "(pvm s)\<lparr>vmem := m1\<rparr>" and ?s1 = "s\<lparr>pfs := (pfs s)\<lparr>fmem := m1\<rparr>\<rparr>"
  have two: "2 \<le> length (free_pages (vmem ?v))" "mem_pages (vmem ?v) (insert a live) X" using 1(2,3) three by simp_all
  obtain pd v' where 2: "init_pgdir (raw_section ?s1) ?v = Ok (pd, v')" "\<forall>w. vmem w = vmem v' \<and> tables w = tables v' \<longrightarrow> (\<exists>w'. free_pgdir pd w = Ok w')"
    using new_pgdir_free [OF two(2,1), of "raw_section ?s1"] by (elim exE conjE)
  define s2 where "s2 = ?s1\<lparr>pvm := v', pfs := (pfs s)\<lparr>fmem := vmem v'\<rparr>\<rparr>"
  have c: "with_mem (kalloc sizeof_pgdir) s = Ok (Some a, ?s1)" "with_vm (init_pgdir (raw_section ?s1)) ?s1 = Ok (pd, s2)"
    using 1(1) 2(1) by (simp_all add: with_mem_def with_vm_def s2_def)
  define P where "P = this_proc s"
  have same: "this_proc (s2\<lparr>pfs := f\<rparr>) = P" "uprocs (s2\<lparr>pfs := f\<rparr>) = uprocs s" "sch (s2\<lparr>pfs := f\<rparr>) = sch s" "pvm (s2\<lparr>pfs := f\<rparr>) = v'" for f
    by (simp_all add: s2_def this_proc_def P_def)
  have th: "as_thread (s2\<lparr>pfs := f\<rparr>) = f\<lparr>cur_tid := P, fis := mine s (fis f)\<rparr>" for f
    unfolding as_thread_def same Let_def by (simp add: mine_def P_def)
  have s2: "s2 = s2\<lparr>pfs := (pfs s)\<lparr>fmem := vmem v'\<rparr>\<rparr>" by (simp add: s2_def)
  let ?f = "\<lambda>i. (pfs s)\<lparr>fmem := vmem v', cur_tid := P, fis := i\<rparr>"
  have 3: "do_inodes (op_begin bc) s2 = Ok (s2\<lparr>pfs := ?f i1\<rparr>)" using b by (subst s2) (simp add: do_inodes_def do_files_def on_inodes_def th)
  have 4: "on_path (namei bc path True) (s2\<lparr>pfs := ?f i1\<rparr>) = Ok (None, s2\<lparr>pfs := ?f i2\<rparr>)" using n by (simp add: on_path_def with_files_def th)
  have 5: "do_inodes (op_end bc) (s2\<lparr>pfs := ?f i2\<rparr>) = Ok (s2\<lparr>pfs := ?f i3\<rparr>)" using e by (simp add: do_inodes_def do_files_def on_inodes_def th)
  obtain q w' where 6: "free_pgdir pd v' = Ok (q, w')" using 2(2) by auto
  have "v'\<lparr>vmem := vmem v'\<rparr> = v'" by simp
  then have "\<exists>s'. exec_bad bc old pd None (s2\<lparr>pfs := ?f i3\<rparr>) = Ok (- 1, s')" for old
    using 6 by (simp add: exec_bad_def with_vm_def same)
  then show ?thesis using c 3 4 5 by (simp add: execve_def Let_def)
qed

end
