(* ===== verification/Traps.thy ===== *)
theory Traps
  imports Exec
begin

unbundle bit_operations_syntax

text \<open>
  \<^verbatim>\<open>src/kernel/syscall.c\<close>, \<^verbatim>\<open>src/kernel/sysproc.c\<close> and \<^verbatim>\<open>src/aarch64/trap.c\<close>: the table of the system
  calls, the calls on processes, and what happens when the processor traps.  What is not in the
  repository is a field of \<open>kernel_env\<close>: the numbers that only the C library gives, the layout of
  \<^verbatim>\<open>struct stat\<close> and of a device number, the layout of ELF files; so are the block cache, the
  bytes around the head of the list of sections, and \<^verbatim>\<open>syscall_myreport\<close>, which belongs to the tests.
\<close>

section \<open>The calls and their numbers\<close>

datatype call =
    c_getpid | c_set_tid_address | c_sigprocmask | c_rt_sigprocmask | c_myyield | c_yield | c_pstat | c_sbrk | c_clone
  | c_myexit | c_exit | c_exit_group | c_execve | c_wait4 | c_ioctl | c_mmap | c_munmap | c_dup | c_read | c_write | c_writev
  | c_close | c_fstat | c_newfstatat | c_unlinkat | c_openat | c_mkdirat | c_mknodat | c_chdir | c_pipe2 | c_myreport

record 'c kernel_env =
  ebc :: "'c block_cache"
  eelf :: elf_format
  enumber :: "call \<Rightarrow> nat"
  estat_size :: nat
  estat_bytes :: "kstat \<Rightarrow> u8 list"
  emajor :: "u64 \<Rightarrow> u32"
  eminor :: "u64 \<Rightarrow> u32"
  eshadow :: section_info
  ereport :: "u64 \<Rightarrow> 'c psys \<Rightarrow> (u64 \<times> 'c psys) outcome"

definition NR_SYSCALL :: nat where "NR_SYSCALL = 512"

definition sys_no :: "(call \<Rightarrow> nat) \<Rightarrow> call \<Rightarrow> nat" where
  "sys_no library c =
     (case c of
        c_yield \<Rightarrow> 124 | c_myreport \<Rightarrow> 499 | c_pstat \<Rightarrow> 500 | c_sbrk \<Rightarrow> 12 | c_getpid \<Rightarrow> 172 | c_clone \<Rightarrow> 220
      | c_myexit \<Rightarrow> 457 | c_myyield \<Rightarrow> 459 | c_exit \<Rightarrow> 93 | c_execve \<Rightarrow> 221 | c_ioctl \<Rightarrow> 29 | c_sigprocmask \<Rightarrow> 135
      | c_wait4 \<Rightarrow> 260 | c_exit_group \<Rightarrow> 94 | c_unlinkat \<Rightarrow> 35 | _ \<Rightarrow> library c)"

text \<open>The entries of the section \<^verbatim>\<open>.init.early\<close>: one for each \<^verbatim>\<open>define_syscall\<close>, in the order of the sources.\<close>

definition early_init :: "call list" where
  "early_init = [c_ioctl, c_mmap, c_munmap, c_dup, c_read, c_write, c_writev, c_close, c_fstat, c_newfstatat, c_unlinkat, c_openat,
     c_mkdirat, c_mknodat, c_chdir, c_pipe2, c_getpid, c_set_tid_address, c_sigprocmask, c_rt_sigprocmask, c_myyield, c_yield,
     c_pstat, c_sbrk, c_clone, c_myexit, c_exit, c_exit_group, c_execve, c_wait4]"

definition init_syscall :: "(call \<Rightarrow> nat) \<Rightarrow> call option list \<Rightarrow> call option list" where
  "init_syscall library t = fold (\<lambda>c t. t[sys_no library c := Some c]) early_init t"

definition syscall_table :: "(call \<Rightarrow> nat) \<Rightarrow> call option list" where
  "syscall_table library = init_syscall library ((replicate NR_SYSCALL None)[sys_no library c_myreport := Some c_myreport])"

section \<open>The calls\<close>

text \<open>
  A call returns, or it leaves the processor to another process: then \<^verbatim>\<open>exit\<close> never comes back, and
  the rest of \<^verbatim>\<open>wait\<close> and of \<^verbatim>\<open>yield\<close> is run when the scheduler picks the process again.
\<close>

datatype 'c answer = Returns u64 "'c psys" | Leaves "'c psys"

definition reg_int :: "u64 \<Rightarrow> int" where
  "reg_int a = sint (ucast a :: u32)"

definition int_result :: "(int \<times> 'c psys) outcome \<Rightarrow> 'c answer outcome" where
  "int_result m = andthen m (\<lambda>(r, s). Ok (Returns (word_of_int r) s))"

definition do_yield :: "'c psys \<Rightarrow> 'c answer outcome" where
  "do_yield s =
     andthen (yield (on_cpu s) (now_ms s) (sch s)) (\<lambda>t.
     let s' = s\<lparr>sch := t\<rparr> in Ok (if this_proc s' = this_proc s then Returns 0 s' else Leaves s'))"

definition do_sbrk :: "section_info \<Rightarrow> u64 \<Rightarrow> 'c psys \<Rightarrow> 'c answer outcome" where
  "do_sbrk shadow n s =
     andthen (with_pgd (this_proc s) (sbrk shadow (raw_section s) (invalid_pt s) (sint n)) s) (\<lambda>(r, s). Ok (Returns r s))"

definition do_exit :: "'c block_cache \<Rightarrow> u64 \<Rightarrow> 'c psys \<Rightarrow> 'c answer outcome" where
  "do_exit bc n s = andthen (exit_proc bc (reg_int n) s) (\<lambda>s. Ok (Leaves s))"

definition do_execve :: "'c kernel_env \<Rightarrow> u64 \<Rightarrow> u64 \<Rightarrow> u64 \<Rightarrow> 'c psys \<Rightarrow> (int \<times> 'c psys) outcome" where
  "do_execve E p argv envp s =
     andthen (path_arg (ebc E) (unat p) 256 s) (\<lambda>(path, s).
     case path of None \<Rightarrow> Ok (- 1, s) | Some path \<Rightarrow> execve (eelf E) (ebc E) path (unat argv) (unat envp) s)"

text \<open>The exit code that \<^verbatim>\<open>wait\<close> stores goes to a variable on the stack of the kernel.\<close>

definition do_wait4 :: "u64 \<Rightarrow> u64 \<Rightarrow> u64 \<Rightarrow> u64 \<Rightarrow> 'c psys \<Rightarrow> 'c answer outcome" where
  "do_wait4 pid wstatus options rusage s =
     (if reg_int pid \<noteq> - 1 \<or> wstatus \<noteq> 0 \<or> reg_int options \<noteq> 0 \<or> rusage \<noteq> 0 then Blocked
      else andthen (wait_child s) (\<lambda>(w, s). Ok (case w of Reaped i _ \<Rightarrow> Returns (word_of_int i) s | Sleeps \<Rightarrow> Leaves s)))"

definition store_stat :: "'c kernel_env \<Rightarrow> u64 \<Rightarrow> (int \<times> kstat option \<times> 'c psys) outcome \<Rightarrow> (int \<times> 'c psys) outcome" where
  "store_stat E st m =
     andthen m (\<lambda>(r, k, s).
     case k of None \<Rightarrow> Ok (r, s) | Some k \<Rightarrow> andthen (user_store (ebc E) (unat st) (estat_bytes E k) s) (\<lambda>s. Ok (r, s)))"

text \<open>The functions that \<^verbatim>\<open>define_syscall\<close> defines, each with its own types for the registers.\<close>

fun run_call :: "'c kernel_env \<Rightarrow> call \<Rightarrow> (nat \<Rightarrow> u64) \<Rightarrow> 'c psys \<Rightarrow> 'c answer outcome" where
  "run_call E c_getpid a s = Ok (Returns (word_of_int (pidno (uprocs s (this_proc s)))) s)"
| "run_call E c_set_tid_address a s = Ok (Returns (word_of_int (pidno (uprocs s (this_proc s)))) s)"
| "run_call E c_sigprocmask a s = Ok (Returns 0 s)"
| "run_call E c_rt_sigprocmask a s = Ok (Returns 0 s)"
| "run_call E c_myyield a s = do_yield s"
| "run_call E c_yield a s = do_yield s"
| "run_call E c_pstat a s = Ok (Returns (word_of_int (left_page_cnt (fmem (pfs s)))) s)"
| "run_call E c_sbrk a s = do_sbrk (eshadow E) (a 0) s"
| "run_call E c_clone a s = (if reg_int (a 0) \<noteq> 17 then Ok (Returns (- 1) s) else int_result (fork (ebc E) s))"
| "run_call E c_myexit a s = do_exit (ebc E) (a 0) s"
| "run_call E c_exit a s = do_exit (ebc E) (a 0) s"
| "run_call E c_exit_group a s = do_exit (ebc E) (a 0) s"
| "run_call E c_execve a s = int_result (do_execve E (a 0) (a 1) (a 2) s)"
| "run_call E c_wait4 a s = do_wait4 (a 0) (a 1) (a 2) (a 3) s"
| "run_call E c_ioctl a s = int_result (sys_ioctl (reg_int (a 0)) (a 1) s)"
| "run_call E c_mmap a s =
     int_result (sys_mmap (unat (a 0)) (reg_int (a 1)) (ucast (a 2)) (ucast (a 3)) (reg_int (a 4)) (reg_int (a 5)) s)"
| "run_call E c_munmap a s = int_result (sys_munmap (ebc E) (unat (a 0)) (unat (a 1)) s)"
| "run_call E c_dup a s = int_result (sys_dup (reg_int (a 0)) s)"
| "run_call E c_read a s = int_result (sys_read (ebc E) (reg_int (a 0)) (unat (a 1)) (reg_int (a 2)) s)"
| "run_call E c_write a s = int_result (sys_write (ebc E) (reg_int (a 0)) (unat (a 1)) (reg_int (a 2)) s)"
| "run_call E c_writev a s = int_result (sys_writev (ebc E) (reg_int (a 0)) (unat (a 1)) (reg_int (a 2)) s)"
| "run_call E c_close a s = int_result (sys_close (ebc E) (reg_int (a 0)) s)"
| "run_call E c_fstat a s = int_result (store_stat E (a 1) (sys_fstat (estat_size E) (reg_int (a 0)) (unat (a 1)) s))"
| "run_call E c_newfstatat a s =
     int_result (store_stat E (a 2) (sys_newfstatat (ebc E) (estat_size E) (reg_int (a 0)) (unat (a 1)) (unat (a 2)) (reg_int (a 3)) s))"
| "run_call E c_unlinkat a s = int_result (sys_unlinkat (ebc E) (reg_int (a 0)) (unat (a 1)) (reg_int (a 2)) s)"
| "run_call E c_openat a s = int_result (sys_openat (ebc E) (reg_int (a 0)) (unat (a 1)) (ucast (a 2)) s)"
| "run_call E c_mkdirat a s = int_result (sys_mkdirat (ebc E) (reg_int (a 0)) (unat (a 1)) (reg_int (a 2)) s)"
| "run_call E c_mknodat a s = int_result (sys_mknodat (emajor E) (eminor E) (ebc E) (reg_int (a 0)) (unat (a 1)) (a 2) s)"
| "run_call E c_chdir a s = int_result (sys_chdir (ebc E) (unat (a 0)) s)"
| "run_call E c_pipe2 a s = int_result (sys_pipe2 (ebc E) (unat (a 0)) (reg_int (a 1)) s)"
| "run_call E c_myreport a s = andthen (ereport E (a 0) s) (\<lambda>(r, s). Ok (Returns r s))"

text \<open>The number is in \<^verbatim>\<open>x8\<close>, the arguments are in \<^verbatim>\<open>x0\<close> to \<^verbatim>\<open>x5\<close>, and the result goes to \<^verbatim>\<open>x0\<close>.\<close>

definition set_x0 :: "tid \<Rightarrow> u64 \<Rightarrow> 'c psys \<Rightarrow> 'c psys" where
  "set_x0 p v s = upd_uproc p (\<lambda>u. u\<lparr>ucontext := (ucontext u)\<lparr>ux := (ux (ucontext u))[0 := v]\<rparr>\<rparr>) s"

definition syscall_entry :: "'c kernel_env \<Rightarrow> 'c psys \<Rightarrow> 'c answer outcome" where
  "syscall_entry E s =
     (let cur = this_proc s; x = ux (ucontext (uprocs s cur)); id = unat (x ! 8)
      in if NR_SYSCALL \<le> id then Panic
         else case syscall_table (enumber E) ! id of
                None \<Rightarrow> Panic
              | Some c \<Rightarrow> andthen (run_call E c (\<lambda>i. x ! i) s) (\<lambda>a.
                  Ok (case a of Returns v s \<Rightarrow> Returns v (set_x0 cur v s) | Leaves s \<Rightarrow> Leaves s)))"

section \<open>Traps\<close>

definition ESR_EC_SHIFT :: nat where "ESR_EC_SHIFT = 26"

definition ESR_ISS_MASK :: u64 where "ESR_ISS_MASK = 0xFFFFFF"

definition ESR_IR_MASK :: u64 where "ESR_IR_MASK = push_bit 25 1"

definition ESR_EC_UNKNOWN :: u64 where "ESR_EC_UNKNOWN = 0"

definition ESR_EC_SVC64 :: u64 where "ESR_EC_SVC64 = 0x15"

definition ESR_EC_IABORT_EL0 :: u64 where "ESR_EC_IABORT_EL0 = 0x20"

definition ESR_EC_IABORT_EL1 :: u64 where "ESR_EC_IABORT_EL1 = 0x21"

definition ESR_EC_DABORT_EL0 :: u64 where "ESR_EC_DABORT_EL0 = 0x24"

definition ESR_EC_DABORT_EL1 :: u64 where "ESR_EC_DABORT_EL1 = 0x25"

text \<open>
  \<open>irq\<close> is \<^verbatim>\<open>interrupt_global_handler\<close> (theory \<open>Devices\<close>) with the handlers it runs; \<open>esr\<close> and \<open>far\<close> are
  the registers of the processor, \<open>ctx\<close> is what the entry code has saved.  A trap is over when the
  process goes on, or when another one has the processor.
\<close>

datatype 'c trapped = Resumes "'c psys" | Away "'c psys"

definition trap_event :: "'c kernel_env \<Rightarrow> ('c psys \<Rightarrow> 'c psys outcome) \<Rightarrow> u64 \<Rightarrow> nat \<Rightarrow> 'c psys \<Rightarrow> 'c trapped outcome" where
  "trap_event E irq esr far s =
     (let ec = drop_bit ESR_EC_SHIFT esr; iss = esr AND ESR_ISS_MASK; ir = esr AND ESR_IR_MASK
      in if ec = ESR_EC_UNKNOWN
         then if ir \<noteq> 0 then Panic else andthen (irq s) (\<lambda>t. Ok (if this_proc t = this_proc s then Resumes t else Away t))
         else if ec = ESR_EC_SVC64 then andthen (syscall_entry E s) (\<lambda>a. Ok (case a of Returns _ s \<Rightarrow> Resumes s | Leaves s \<Rightarrow> Away s))
         else if ec \<in> {ESR_EC_IABORT_EL0, ESR_EC_IABORT_EL1, ESR_EC_DABORT_EL0, ESR_EC_DABORT_EL1}
         then andthen (pgfault_handler (ebc E) far (uint iss) s) (\<lambda>(_, s). Ok (Resumes s))
         else Panic)"

definition to_user :: "u64 \<Rightarrow> bool" where
  "to_user a \<longleftrightarrow> a AND 0xffff000000000000 = 0"

text \<open>A process that is resumed later runs the last test then.\<close>

definition trap_global_handler :: "'c kernel_env \<Rightarrow> ('c psys \<Rightarrow> 'c psys outcome) \<Rightarrow> user_context \<Rightarrow> u64 \<Rightarrow> nat \<Rightarrow> 'c psys \<Rightarrow> 'c trapped outcome" where
  "trap_global_handler E irq ctx esr far s =
     (let cur = this_proc s
      in andthen (trap_event E irq esr far (upd_uproc cur (\<lambda>u. u\<lparr>ucontext := ctx\<rparr>) s)) (\<lambda>t.
         case t of
           Away s \<Rightarrow> Ok (Away s)
         | Resumes s \<Rightarrow>
             if killed (procs (sch s) cur) \<and> to_user (uelr (ucontext (uprocs s cur)))
             then andthen (exit_proc (ebc E) (- 1) s) (\<lambda>s. Ok (Away s))
             else Ok (Resumes s)))"

text \<open>\<^verbatim>\<open>trap_error_handler\<close> panics, whatever the type of the trap.\<close>

definition trap_error_handler :: "u64 \<Rightarrow> 'c psys \<Rightarrow> 'c trapped outcome" where
  "trap_error_handler type s = Panic"

end
