(* ===== verification/TrapSpec.thy ===== *)
theory TrapSpec
  imports Traps
begin

text \<open>
  What the table of system calls does, and what a system call leaves of the registers of its
  process.  \<open>ok_then Q m\<close> says that \<open>Q\<close> holds of what \<open>m\<close> gives when it returns; the rules in
  \<open>calls\<close> go through the text of a call with it.
\<close>

named_theorems calls \<open>rules for what a returning call has done\<close>

section \<open>The table\<close>

text \<open>The last entry for a number stays.\<close>

lemma fold_table_length: "length (fold (\<lambda>c t. t[f c := Some c]) cs t) = length t"
  by (induction cs arbitrary: t) auto

lemma fold_table_nth:
  "n < length t \<Longrightarrow> fold (\<lambda>c t. t[f c := Some c]) cs t ! n = (case filter (\<lambda>c. f c = n) (rev cs) of [] \<Rightarrow> t ! n | c # _ \<Rightarrow> Some c)"
  by (induction cs rule: rev_induct) (auto simp: fold_table_length)

lemma all_early: "c \<in> set early_init \<or> c = c_myreport"
  by (cases c) (simp_all add: early_init_def)

lemma syscall_table_nth:
  "n < NR_SYSCALL \<Longrightarrow> syscall_table library ! n =
     (case filter (\<lambda>c. sys_no library c = n) (rev (c_myreport # early_init)) of [] \<Rightarrow> None | c # _ \<Rightarrow> Some c)"
  unfolding syscall_table_def init_syscall_def by (simp add: fold_table_nth split: list.split)

text \<open>
  \<^verbatim>\<open>sigprocmask\<close> has the number that the C library gives to \<^verbatim>\<open>rt_sigprocmask\<close>; the two calls do the
  same.  No other two calls have the same number.
\<close>

definition numbered :: "(call \<Rightarrow> nat) \<Rightarrow> bool" where
  "numbered library \<longleftrightarrow>
     (\<forall>c d. sys_no library c = sys_no library d \<longrightarrow> c = d \<or> {c, d} = {c_sigprocmask, c_rt_sigprocmask}) \<and>
     (\<forall>c. sys_no library c < NR_SYSCALL)"

lemma syscall_table_entry:
  assumes "numbered library"
  shows "\<exists>d. syscall_table library ! sys_no library c = Some d \<and> run_call E d = run_call E c"
proof -
  let ?f = "filter (\<lambda>d. sys_no library d = sys_no library c) (rev (c_myreport # early_init))"
  have "c \<in> set ?f" using all_early [of c] by auto
  then obtain d ds where d: "?f = d # ds" by (metis list.set_cases)
  have t: "syscall_table library ! sys_no library c = Some d"
    using assms unfolding numbered_def by (subst syscall_table_nth) (auto simp: d simp del: rev.simps)
  have "sys_no library d = sys_no library c" using d by (metis (mono_tags, lifting) filter_eq_ConsD)
  then consider "d = c" | "{d, c} = {c_sigprocmask, c_rt_sigprocmask}" using assms unfolding numbered_def by metis
  then have "run_call E d = run_call E c"
  proof cases
    case 2
    then have "d \<in> {c_sigprocmask, c_rt_sigprocmask}" "c \<in> {c_sigprocmask, c_rt_sigprocmask}" by blast+
    then show ?thesis by (auto intro!: ext)
  qed simp
  then show ?thesis using t by blast
qed

lemma syscall_table_unknown: "n < NR_SYSCALL \<Longrightarrow> n \<notin> range (sys_no library) \<Longrightarrow> syscall_table library ! n = None"
  by (auto simp: syscall_table_nth filter_empty_conv split: list.split dest!: filter_eq_ConsD)

section \<open>The registers\<close>

definition ok_then :: "('a \<Rightarrow> bool) \<Rightarrow> 'a outcome \<Rightarrow> bool" where
  "ok_then Q m \<longleftrightarrow> (\<forall>r. m = Ok r \<longrightarrow> Q r)"

lemma ok_thenD: "ok_then Q m \<Longrightarrow> m = Ok r \<Longrightarrow> Q r"
  by (simp add: ok_then_def)

lemma ok_then_mono: "ok_then P m \<Longrightarrow> (\<And>r. P r \<Longrightarrow> Q r) \<Longrightarrow> ok_then Q m"
  by (simp add: ok_then_def)

lemma ok_then_andthen: "ok_then (\<lambda>r. ok_then Q (k r)) m \<Longrightarrow> ok_then Q (andthen m k)"
  by (auto simp: ok_then_def)

lemma ok_then_any: "(\<And>r. Q r) \<Longrightarrow> ok_then Q m"
  by (simp add: ok_then_def)

lemma ok_then_simps [simp]: "ok_then Q (Ok r) = Q r" "ok_then Q Panic" "ok_then Q Undef" "ok_then Q Blocked"
  by (simp_all add: ok_then_def)

text \<open>The registers of the running process are as they were, and it still runs.\<close>

definition calm :: "'c psys \<Rightarrow> 'c psys \<Rightarrow> bool" where
  "calm s s' \<longleftrightarrow> this_proc s' = this_proc s \<and> ucontext (uprocs s' (this_proc s)) = ucontext (uprocs s (this_proc s))"

lemma calm_refl [simp]: "calm s s"
  by (simp add: calm_def)

lemma calm_trans: "calm s t \<Longrightarrow> calm t u \<Longrightarrow> calm s u"
  by (simp add: calm_def)

lemma calm_tame: "tame s t \<Longrightarrow> calm s t"
  by (auto simp: tame_def calm_def this_proc_def)

lemma calm_states [simp]:
  "this_proc (t\<lparr>pfs := f\<rparr>) = this_proc t" "this_proc (t\<lparr>pvm := v\<rparr>) = this_proc t" "this_proc (t\<lparr>vma_list := w\<rparr>) = this_proc t"
  "this_proc (set_fd fd x t) = this_proc t" "this_proc (upd_vma i g t) = this_proc t" "this_proc (unlock_vma i t) = this_proc t"
  "this_proc (upd_uproc q h t) = this_proc t"
  by (simp_all add: this_proc_def set_fd_def upd_vma_def unlock_vma_def upd_uproc_def)

lemma calm_contexts [simp]:
  "ucontext (uprocs (set_fd fd x t) p) = ucontext (uprocs t p)" "ucontext (uprocs (upd_vma i g t) p) = ucontext (uprocs t p)"
  "ucontext (uprocs (unlock_vma i t) p) = ucontext (uprocs t p)"
  "(\<And>u. ucontext (h u) = ucontext u) \<Longrightarrow> ucontext (uprocs (upd_uproc q h t) p) = ucontext (uprocs t p)"
  by (simp_all add: set_fd_def upd_vma_def unlock_vma_def upd_uproc_def)

lemma calm_upd: "(\<And>u. ucontext (f u) = ucontext u) \<Longrightarrow> calm s (upd_uproc p f t) = calm s t"
  by (simp add: calm_def)

text \<open>The routines that a call is made of.\<close>

lemma calm_call: "(\<And>x t'. m = Ok (x, t') \<Longrightarrow> calm t t') \<Longrightarrow> (\<And>x t'. calm t t' \<Longrightarrow> Q (x, t')) \<Longrightarrow> ok_then Q m"
  unfolding ok_then_def by (metis surj_pair)

lemma calm_step: "(\<And>t'. m = Ok t' \<Longrightarrow> calm t t') \<Longrightarrow> (\<And>t'. calm t t' \<Longrightarrow> Q t') \<Longrightarrow> ok_then Q m"
  unfolding ok_then_def by metis

lemma calls_files [calls]: "(\<And>x t'. calm t t' \<Longrightarrow> Q (x, t')) \<Longrightarrow> ok_then Q (with_files h t)"
  by (rule calm_call, erule calm_tame [OF tame_files], blast)

lemma calls_path [calls]: "(\<And>x t'. calm t t' \<Longrightarrow> Q (x, t')) \<Longrightarrow> ok_then Q (on_path l t)"
  by (rule calm_call, erule calm_tame [OF tame_path], blast)

lemma calls_vm [calls]: "(\<And>x t'. calm t t' \<Longrightarrow> Q (x, t')) \<Longrightarrow> ok_then Q (with_vm g t)"
  by (rule calm_call, erule calm_tame [OF tame_calls(1)], blast)

lemma calls_do_files [calls]: "(\<And>t'. calm t t' \<Longrightarrow> Q t') \<Longrightarrow> ok_then Q (do_files k t)"
  by (rule calm_step, erule calm_tame [OF tame_calls(2)], blast)

lemma calls_do_inodes [calls]: "(\<And>t'. calm t t' \<Longrightarrow> Q t') \<Longrightarrow> ok_then Q (do_inodes j t)"
  by (rule calm_step, erule calm_tame [OF tame_calls(3)], blast)

lemma calls_do_mem [calls]: "(\<And>t'. calm t t' \<Longrightarrow> Q t') \<Longrightarrow> ok_then Q (do_mem m t)"
  by (rule calm_step, erule calm_tame [OF tame_calls(4)], blast)

lemma calls_store [calls]: "(\<And>t'. calm t t' \<Longrightarrow> Q t') \<Longrightarrow> ok_then Q (user_store bc addr bs t)"
  by (rule calm_step, erule calm_tame [OF tame_store], blast)

lemma calls_load [calls]: "(\<And>x t'. calm t t' \<Longrightarrow> Q (x, t')) \<Longrightarrow> ok_then Q (user_load bc addr n t)"
  by (rule calm_call, erule calm_tame [OF tame_load], blast)

lemma calls_strlen [calls]: "(\<And>x t'. calm t t' \<Longrightarrow> Q (x, t')) \<Longrightarrow> ok_then Q (user_strlen bc addr n t)"
  by (rule calm_call, erule calm_tame [OF tame_strlen [where i = 0, folded user_strlen_def]], blast)

lemma calls_pgd [calls]: "(\<And>x t'. calm t t' \<Longrightarrow> Q (x, t')) \<Longrightarrow> ok_then Q (with_pgd (this_proc t) p t)"
  by (rule calm_call, erule calm_tame [OF tame_with_pgd], blast)

text \<open>Sequences, choices and what a call does not change.\<close>

lemma calls_shape [calls]:
  "ok_then (\<lambda>r. ok_then Q (k r)) m \<Longrightarrow> ok_then Q (andthen m k)"
  "(b \<Longrightarrow> ok_then Q x) \<Longrightarrow> (\<not> b \<Longrightarrow> ok_then Q y) \<Longrightarrow> ok_then Q (if b then x else y)"
  by (auto intro: ok_then_andthen)

lemma calls_option [calls]: "(r = None \<Longrightarrow> ok_then Q x) \<Longrightarrow> (\<And>y. r = Some y \<Longrightarrow> ok_then Q (f y)) \<Longrightarrow> ok_then Q (case r of None \<Rightarrow> x | Some y \<Rightarrow> f y)"
  by (cases r) auto

lemma calls_test [calls]: "(\<And>w. Q w) \<Longrightarrow> ok_then Q (user_writeable p n t)" "Q' () \<Longrightarrow> ok_then Q' (assert_that b)"
  by (simp_all add: ok_then_def)

lemma calls_fdalloc [calls]: "(\<And>fd t'. fdalloc f t = (fd, t') \<Longrightarrow> calm t t' \<Longrightarrow> ok_then Q (g fd t')) \<Longrightarrow> ok_then Q (case fdalloc f t of (fd, t') \<Rightarrow> g fd t')"
  by (auto simp: fdalloc_def calm_def split: option.splits)

definition quiet_call :: "'c psys \<Rightarrow> (int \<times> 'c psys) outcome \<Rightarrow> bool" where
  "quiet_call s m \<longleftrightarrow> ok_then (\<lambda>(r, t). calm s t) m"

lemma quiet_dup: "quiet_call s (sys_dup fd s)"
  unfolding quiet_call_def sys_dup_def by (auto intro!: calls simp: calm_def)

lemma quiet_close: "quiet_call s (sys_close bc fd s)"
  unfolding quiet_call_def sys_close_def by (auto intro!: calls simp: calm_def)

lemma quiet_ioctl: "quiet_call s (sys_ioctl fd r s)"
  unfolding quiet_call_def sys_ioctl_def by (auto intro!: calls simp: calm_def)

lemma quiet_read: "quiet_call s (sys_read bc fd buf n s)"
  unfolding quiet_call_def sys_read_def by (auto intro!: calls simp: calm_def)

lemma quiet_write: "quiet_call s (sys_write bc fd buf n s)"
  unfolding quiet_call_def sys_write_def by (auto intro!: calls simp: calm_def)

lemma ok_then_trans: "ok_then (\<lambda>(x, u). calm t u) m \<Longrightarrow> calm s t \<Longrightarrow> ok_then (\<lambda>(x, u). calm s u) m"
  by (erule ok_then_mono) (auto simp: calm_def)

lemma quiet_writev: "quiet_call s (sys_writev bc fd p n s)"
proof -
  have "ok_then (\<lambda>(r, u). calm t u) (writev_loop bc f q k tot t)" for f q k tot t
  proof (induction k arbitrary: q tot t)
    case (Suc k)
    note IH = ok_then_trans [OF Suc]
    show ?case by (auto simp: load_iovec_def Let_def intro!: calls IH) (auto simp: calm_def)
  qed simp
  then show ?thesis unfolding quiet_call_def sys_writev_def by (auto intro!: calls)
qed

lemma quiet_stat: "ok_then (\<lambda>(r, k, t). calm s t) (sys_fstat n fd st s)" "ok_then (\<lambda>(r, k, t). calm s t) (sys_newfstatat bc n fd path st fl s)"
  unfolding sys_fstat_def sys_newfstatat_def path_arg_def by (auto intro!: calls simp: calm_def)

lemma quiet_unlinkat: "quiet_call s (sys_unlinkat bc fd path fl s)"
  unfolding quiet_call_def sys_unlinkat_def path_arg_def by (auto intro!: calls simp: calm_def)

lemma quiet_openat: "quiet_call s (sys_openat bc fd path om s)"
  unfolding quiet_call_def sys_openat_def path_arg_def open_slot_def by (auto intro!: calls simp: calm_def)

lemma quiet_mkdirat: "quiet_call s (sys_mkdirat bc fd path m s)"
  unfolding quiet_call_def sys_mkdirat_def path_arg_def by (auto intro!: calls simp: calm_def)

lemma quiet_mknodat: "quiet_call s (sys_mknodat ma mi bc fd path d s)"
  unfolding quiet_call_def sys_mknodat_def path_arg_def by (auto intro!: calls simp: calm_def)

lemma quiet_chdir: "quiet_call s (sys_chdir bc path s)"
  unfolding quiet_call_def sys_chdir_def path_arg_def Let_def by (auto intro!: calls simp: calm_def)

lemma quiet_pipe2: "quiet_call s (sys_pipe2 bc p fl s)"
  unfolding quiet_call_def sys_pipe2_def drop_fd_def by (auto intro!: calls simp: calm_def)

lemma calls_lock_vma [calls]: "(\<And>t'. calm t t' \<Longrightarrow> Q t') \<Longrightarrow> ok_then Q (lock_vma v t)"
  unfolding lock_vma_def by (auto simp: ok_then_def calm_def)

lemma calls_walk [calls]: "(\<And>w. Q w) \<Longrightarrow> ok_then Q (last_vma k t v)" "(\<And>w. Q' w) \<Longrightarrow> ok_then Q' (region_at k t pre r a)"
  by (simp_all add: ok_then_def)

lemma calls_vma_alloc [calls]:
  assumes "\<And>v t'. calm t t' \<Longrightarrow> Q (v, t')"
  shows "ok_then Q (vma_alloc t)"
proof -
  have "ok_then (\<lambda>(v, t'). calm t t') (vma_alloc_from vs t)" for vs
  proof (induction vs arbitrary: t)
    case (Cons i vs)
    note IH = ok_then_trans [OF Cons]
    show ?case by (auto intro!: calls IH) (auto simp: calm_def)
  qed simp
  from ok_then_mono [OF this] show ?thesis unfolding vma_alloc_def using assms by auto
qed

lemma quiet_mmap: "quiet_call s (sys_mmap a n pr fl fd off s)"
  unfolding quiet_call_def sys_mmap_def map_region_def place_region_def Let_def by (auto intro!: calls simp: calm_def)

lemma calls_writeback [calls]:
  assumes "\<And>t'. calm t t' \<Longrightarrow> Q t'"
  shows "ok_then Q (writeback bc v addr n t)"
proof -
  have st: "ok_then (\<lambda>(r, t'). calm t t') (writeback_step bc v addr i m t)" for bc v addr t i m
    unfolding writeback_step_def Let_def by (auto intro!: calls simp: calm_def)
  have "ok_then (calm t) (writeback_loop bc v addr n i t)" for i t
  proof (induction bc v addr n i t rule: writeback_loop.induct)
    case (1 bc v addr n i t)
    show ?case
    proof (cases "i < n")
      case True
      have "ok_then (calm t) (writeback_loop bc v addr n (i + r) t')" if "writeback_step bc v addr i (min (n - i) writeback_chunk) t = Ok (r, t')" for r t'
        using ok_then_mono [OF "1.IH" [OF True that refl]] ok_thenD [OF st that] calm_trans by (auto simp: case_prod_beta)
      then show ?thesis using True by (subst writeback_loop.simps) (auto simp: ok_then_def)
    next
      case False
      then show ?thesis by (subst writeback_loop.simps) simp
    qed
  qed
  from ok_then_mono [OF this] show ?thesis unfolding writeback_def using assms by auto
qed

lemma quiet_munmap: "quiet_call s (sys_munmap bc a n s)"
  unfolding quiet_call_def sys_munmap_def unmap_head_def drop_region_def Let_def by (auto intro!: calls simp: calm_def split: option.splits)

section \<open>wait\<close>

lemma calls_lock_proc [calls]: "(\<And>t'. calm t t' \<Longrightarrow> Q t') \<Longrightarrow> ok_then Q (lock_proc p t)"
  unfolding lock_proc_def by (auto simp: ok_then_def calm_def)

lemma calm_unlock_proc [simp]: "this_proc (unlock_proc p t) = this_proc t" "ucontext (uprocs (unlock_proc p t) q) = ucontext (uprocs t q)"
  by (simp_all add: unlock_proc_def)

lemma sch_upd: "sch (unlock_proc p t) = sch t" "sch (upd_uproc p f t) = sch t" "on_cpu (unlock_proc p t) = on_cpu t" "on_cpu (upd_uproc p f t) = on_cpu t"
  by (simp_all add: unlock_proc_def upd_uproc_def)

lemma calm_unlock: "calm s (unlock_proc p t) = calm s t"
  by (simp add: unlock_proc_def calm_upd)

lemma calm_this: "calm s t \<Longrightarrow> thisproc (sch t) (on_cpu t) = this_proc s"
  by (simp add: calm_def this_proc_def)

lemma calm_sch: "thisproc k = thisproc (sch t) \<Longrightarrow> calm s (t\<lparr>sch := k\<rparr>) = calm s t"
  by (simp add: calm_def this_proc_def)

lemma calls_sched_lock [calls]: "(\<And>k'. thisproc k' = thisproc k \<Longrightarrow> procs k' = procs k \<Longrightarrow> Q k') \<Longrightarrow> ok_then Q (acquire_sched_lock k)"
  unfolding acquire_sched_lock_def by (auto simp: ok_then_def)

lemma calls_recycle [calls]: "(\<And>t'. calm t t' \<Longrightarrow> Q t') \<Longrightarrow> ok_then Q (recycle_pid i t)"
  unfolding recycle_pid_def lock_pid_def unlock_pid_def
  by (auto simp: ok_then_def calm_def with_mem_def this_proc_def split: option.splits)

lemma calm_sched [simp]: "thisproc k = thisproc (sch t) \<Longrightarrow> this_proc (t\<lparr>sch := release_sched_lock (k\<lparr>rq := r\<rparr>)\<rparr>) = this_proc t"
  by (simp add: this_proc_def release_sched_lock_def)

lemma reap_calm: "ok_then (\<lambda>(i, c, u). calm t u) (reap p xs t)"
proof (induction xs arbitrary: t)
  case (Cons x xs)
  have IH: "calm s t \<Longrightarrow> ok_then (\<lambda>(i, c, u). calm s u) (reap p xs t)" for s t :: "'a psys"
    by (rule ok_then_mono [OF Cons]) (auto simp: calm_def)
  show ?case by (auto simp: Let_def release_proc_def intro!: calls IH) (auto simp: calm_def)
qed (simp add: calm_def)

lemma wait_calm: "ok_then (\<lambda>(w, u). w \<noteq> Sleeps \<longrightarrow> calm s u) (wait_child s)"
proof -
  have R: "calm s t \<Longrightarrow> ok_then (\<lambda>(w, u). w \<noteq> Sleeps \<longrightarrow> calm s u) (reap_children p t)" for t p
    unfolding reap_children_def by (auto intro!: calls ok_then_mono [OF reap_calm] simp: calm_def)
  have W: "calm s t \<Longrightarrow> ok_then (\<lambda>(w, u). w \<noteq> Sleeps \<longrightarrow> calm s u) (wait_resume p up t)" for t p up
    unfolding wait_resume_def Let_def by (rule ok_then_andthen, rule ok_then_any) (auto intro!: calls R simp: calm_upd)
  have S: "ok_then (\<lambda>t'. killed (procs t (thisproc t c)) \<longrightarrow> thisproc t' = thisproc t) (sched c now SLEEPING t)" for c now t
    by (auto simp: ok_then_def sched_def Let_def release_sched_lock_def)
  show ?thesis unfolding wait_child_def Let_def
    by (auto intro!: calls R W ok_then_mono [OF S] simp: calm_upd calm_unlock calm_sch sch_upd calm_this split: prod.split)
qed

section \<open>All calls\<close>

text \<open>The calls that are to change the registers of their process, or that make a process.\<close>

lemma calm_result: "quiet_call s m \<Longrightarrow> int_result m = Ok (Returns v s') \<Longrightarrow> calm s s'"
  by (auto simp: quiet_call_def int_result_def ok_then_def)

lemma quiet_store_stat: "ok_then (\<lambda>(r, k, t). calm s t) m \<Longrightarrow> quiet_call s (store_stat E st m)"
proof -
  assume m: "ok_then (\<lambda>(r, k, t). calm s t) m"
  show ?thesis unfolding quiet_call_def store_stat_def
    by (rule ok_then_andthen, rule ok_then_mono [OF m]) (auto intro!: calls simp: calm_def)
qed

lemma yield_calm: "do_yield s = Ok (Returns v s') \<Longrightarrow> calm s s'"
  by (auto simp: do_yield_def Let_def calm_def split: if_splits)

lemma run_call_calm:
  assumes "c \<notin> {c_clone, c_execve, c_myreport}" and "run_call E c a s = Ok (Returns v s')"
  shows "calm s s'"
proof (cases c)
  case c_wait4
  then obtain w u where w: "wait_child s = Ok (w, u)" "(case w of Reaped i _ \<Rightarrow> Returns (word_of_int i) u | Sleeps \<Rightarrow> Leaves u) = Returns v s'"
    using assms(2) by (auto simp: do_wait4_def split: if_splits)
  then have "w \<noteq> Sleeps" "u = s'" by (cases w; simp)+
  then show ?thesis using ok_thenD [OF wait_calm w(1)] by simp
next
  case c_sbrk
  have "ok_then (\<lambda>(r, t). calm s t) (with_pgd (this_proc s) g s)" for g by (intro calls) simp
  from ok_thenD [OF this] show ?thesis using assms(2) c_sbrk by (fastforce simp: do_sbrk_def)
qed (use assms in \<open>auto simp: do_exit_def split: if_splits
    intro: yield_calm calm_result quiet_dup quiet_close quiet_ioctl quiet_read quiet_write quiet_writev quiet_unlinkat quiet_openat
      quiet_mkdirat quiet_mknodat quiet_chdir quiet_pipe2 quiet_mmap quiet_munmap quiet_store_stat [OF quiet_stat(1)] quiet_store_stat [OF quiet_stat(2)]\<close>)

lemma syscall_entry_call:
  assumes "numbered (enumber E)" and "unat (ux (ucontext (uprocs s (this_proc s))) ! 8) = sys_no (enumber E) c"
  shows "syscall_entry E s = andthen (run_call E c (\<lambda>i. ux (ucontext (uprocs s (this_proc s))) ! i) s)
    (\<lambda>a. Ok (case a of Returns v t \<Rightarrow> Returns v (set_x0 (this_proc s) v t) | Leaves t \<Rightarrow> Leaves t))"
proof -
  obtain d where d: "syscall_table (enumber E) ! sys_no (enumber E) c = Some d" "run_call E d = run_call E c"
    using syscall_table_entry [OF assms(1)] by blast
  have "\<not> NR_SYSCALL \<le> sys_no (enumber E) c" using assms(1) by (simp add: numbered_def not_le)
  then show ?thesis by (simp add: syscall_entry_def Let_def assms(2) d)
qed

lemma syscall_entry_unknown:
  assumes "unat (ux (ucontext (uprocs s (this_proc s))) ! 8) \<notin> range (sys_no (enumber E))"
  shows "syscall_entry E s = Panic"
  using assms syscall_table_unknown [of "unat (ux (ucontext (uprocs s (this_proc s))) ! 8)" "enumber E"]
  by (simp add: syscall_entry_def Let_def not_le)

lemma syscall_entry_registers:
  assumes n: "numbered (enumber E)" "unat (ux (ucontext (uprocs s (this_proc s))) ! 8) = sys_no (enumber E) c"
    and c: "c \<notin> {c_clone, c_execve, c_myreport}" and r: "syscall_entry E s = Ok (Returns v s')"
  shows "this_proc s' = this_proc s \<and>
    ucontext (uprocs s' (this_proc s)) = (ucontext (uprocs s (this_proc s)))\<lparr>ux := (ux (ucontext (uprocs s (this_proc s))))[0 := v]\<rparr>"
proof -
  obtain a where a: "run_call E c (\<lambda>i. ux (ucontext (uprocs s (this_proc s))) ! i) s = Ok a"
    "(case a of Returns v t \<Rightarrow> Returns v (set_x0 (this_proc s) v t) | Leaves t \<Rightarrow> Leaves t) = Returns v s'"
    using r unfolding syscall_entry_call [OF n] by auto
  from a(2) obtain t where t: "a = Returns v t" "s' = set_x0 (this_proc s) v t" by (cases a) auto
  have "calm s t" by (rule run_call_calm [OF c]) (use a(1) t(1) in simp)
  then show ?thesis unfolding t(2) by (simp add: calm_def set_x0_def upd_uproc_def this_proc_def)
qed

lemma trap_svc:
  assumes n: "numbered (enumber E)" "unat (ux ctx ! 8) = sys_no (enumber E) c" and c: "c \<notin> {c_clone, c_execve, c_myreport}"
    and e: "drop_bit ESR_EC_SHIFT esr = ESR_EC_SVC64" and r: "trap_global_handler E irq ctx esr far s = Ok (Resumes s')"
  defines "t \<equiv> upd_uproc (this_proc s) (\<lambda>u. u\<lparr>ucontext := ctx\<rparr>) s"
  shows "\<exists>v u. run_call E c (\<lambda>i. ux ctx ! i) t = Ok (Returns v u) \<and> s' = set_x0 (this_proc s) v u \<and> this_proc s' = this_proc s \<and>
    ucontext (uprocs s' (this_proc s)) = ctx\<lparr>ux := (ux ctx)[0 := v]\<rparr> \<and> \<not> (killed (procs (sch s') (this_proc s)) \<and> to_user (uelr ctx))"
proof -
  have t: "this_proc t = this_proc s" "ucontext (uprocs t (this_proc s)) = ctx" by (simp_all add: t_def upd_uproc_def this_proc_def)
  have ec: "ESR_EC_SVC64 \<noteq> ESR_EC_UNKNOWN" by (simp add: ESR_EC_SVC64_def ESR_EC_UNKNOWN_def)
  have ev: "trap_event E irq esr far t = andthen (syscall_entry E t) (\<lambda>a. Ok (case a of Returns _ s \<Rightarrow> Resumes s | Leaves s \<Rightarrow> Away s))"
    using ec by (simp add: trap_event_def e Let_def)
  obtain a where a: "syscall_entry E t = Ok a"
    using r unfolding trap_global_handler_def Let_def t_def [symmetric] ev by auto
  obtain v where v: "a = Returns v s'" and k: "\<not> (killed (procs (sch s') (this_proc s)) \<and> to_user (uelr (ucontext (uprocs s' (this_proc s)))))"
    using r unfolding trap_global_handler_def Let_def t_def [symmetric] ev a by (cases a) (auto split: if_splits)
  have w: "unat (ux (ucontext (uprocs t (this_proc t))) ! 8) = sys_no (enumber E) c" by (simp add: t n(2))
  obtain b where b: "run_call E c (\<lambda>i. ux ctx ! i) t = Ok b"
    "(case b of Returns v u \<Rightarrow> Returns v (set_x0 (this_proc t) v u) | Leaves u \<Rightarrow> Leaves u) = Returns v s'"
    using a v unfolding syscall_entry_call [OF n(1) w] t(2) [folded t(1)] by auto
  from b(2) [unfolded t(1)] obtain u where u: "b = Returns v u" "s' = set_x0 (this_proc s) v u" by (cases b) auto
  have "this_proc s' = this_proc s \<and> ucontext (uprocs s' (this_proc s)) = ctx\<lparr>ux := (ux ctx)[0 := v]\<rparr>"
    using syscall_entry_registers [OF n(1) w c, of v s'] a v by (simp add: t)
  then show ?thesis using b(1) u k by auto
qed

end
