(* ===== verification/Timers.thy ===== *)
theory Timers
  imports RBErase Sched "HOL-Library.Product_Lexorder"
begin

text \<open>
  \<^verbatim>\<open>src/driver/timer.c\<close>, \<^verbatim>\<open>src/driver/clock.c\<close> and the timers of \<^verbatim>\<open>src/kernel/cpu.c\<close>: the control
  register of the virtual timer, the clock that is set to go off after some milliseconds, and the
  timers of a processor in a red-black tree, ordered by the time at which they are due.  A timer
  is the address of its node in the tree.  The counter of the processor is read through
  \<open>counter\<close>: its value at each reading, and \<open>readings\<close>, how often it has been read.  The registers
  are those of the running processor.
\<close>

unbundle bit_operations_syntax

section \<open>The virtual timer and the clock\<close>

record timer_hw =
  cntv_ctl :: u64
  cntv_tval :: u64
  cntfrq :: u64
  counter :: "nat \<Rightarrow> u64"
  readings :: nat
  clock_handler :: "nat option"

definition CNTV_CTL_ENABLE :: u64 where "CNTV_CTL_ENABLE = 1"

definition CNTV_CTL_IMASK :: u64 where "CNTV_CTL_IMASK = 2"

definition enable_timer :: "'a timer_hw_scheme \<Rightarrow> 'a timer_hw_scheme" where
  "enable_timer h = (let c = cntv_ctl h; c = c OR CNTV_CTL_ENABLE; c = c AND NOT CNTV_CTL_IMASK in h\<lparr>cntv_ctl := c\<rparr>)"

definition disable_timer :: "'a timer_hw_scheme \<Rightarrow> 'a timer_hw_scheme" where
  "disable_timer h = (let c = cntv_ctl h; c = c AND NOT CNTV_CTL_ENABLE; c = c OR CNTV_CTL_IMASK in h\<lparr>cntv_ctl := c\<rparr>)"

definition timer_enabled :: "'a timer_hw_scheme \<Rightarrow> bool" where
  "timer_enabled h \<longleftrightarrow> cntv_ctl h AND 1 \<noteq> 0"

definition reset_clock :: "u64 \<Rightarrow> 'a timer_hw_scheme \<Rightarrow> 'a timer_hw_scheme outcome" where
  "reset_clock interval_ms h =
     (let interval_clk = interval_ms * cntfrq h div 1000
      in andthen (assert_that (interval_clk \<le> 0x7fffffff)) (\<lambda>_. Ok (h\<lparr>cntv_tval := interval_clk\<rparr>)))"

definition init_clock :: "'a timer_hw_scheme \<Rightarrow> 'a timer_hw_scheme outcome" where
  "init_clock h = reset_clock 10 (enable_timer h)"

definition get_timestamp_ms :: "'a timer_hw_scheme \<Rightarrow> u64 \<times> 'a timer_hw_scheme" where
  "get_timestamp_ms h = (counter h (readings h) * 1000 div cntfrq h, h\<lparr>readings := readings h + 1\<rparr>)"

text \<open>The handler of the clock is the code of a function, \<open>None\<close> for \<^verbatim>\<open>NULL\<close>; \<open>run\<close> runs it.\<close>

definition invoke_clock_handler :: "(nat \<Rightarrow> 'a timer_hw_scheme \<Rightarrow> 'a timer_hw_scheme outcome) \<Rightarrow> 'a timer_hw_scheme \<Rightarrow> 'a timer_hw_scheme outcome" where
  "invoke_clock_handler run h = (case clock_handler h of None \<Rightarrow> Panic | Some f \<Rightarrow> run f h)"

section \<open>The timers of a processor\<close>

record timer =
  trig :: bool
  telapse :: int
  due :: u64
  tdata :: u64
  thandler :: nat

record timer_sys = timer_hw +
  tnodes :: "nat \<Rightarrow> rb_node"
  troot :: "cpuid \<Rightarrow> nat"
  timers :: "nat \<Rightarrow> timer"
  online :: "cpuid \<Rightarrow> bool"
  hello_timer :: "cpuid \<Rightarrow> nat"
  trap_on :: "cpuid \<Rightarrow> bool"

definition cpu_tree :: "cpuid \<Rightarrow> timer_sys \<Rightarrow> rb_tree" where
  "cpu_tree c s = \<lparr>rnode = tnodes s, rroot = troot s c\<rparr>"

definition put_tree :: "cpuid \<Rightarrow> rb_tree \<Rightarrow> timer_sys \<Rightarrow> timer_sys" where
  "put_tree c t s = s\<lparr>tnodes := rnode t, troot := (troot s)(c := rroot t)\<rparr>"

definition set_timer :: "nat \<Rightarrow> (timer \<Rightarrow> timer) \<Rightarrow> timer_sys \<Rightarrow> timer_sys" where
  "set_timer tm f s = s\<lparr>timers := (timers s)(tm := f (timers s tm))\<rparr>"

definition timer_cmp :: "timer_sys \<Rightarrow> nat \<Rightarrow> nat \<Rightarrow> bool" where
  "timer_cmp s l r =
     (let d = sint (due (timers s l) - due (timers s r))
      in if d < 0 then True else if d = 0 then l < r else False)"

definition timer_set_clock :: "nat \<Rightarrow> cpuid \<Rightarrow> timer_sys \<Rightarrow> timer_sys outcome" where
  "timer_set_clock n c s =
     andthen (rb_first n (cpu_tree c s)) (\<lambda>node.
     if node = 0 then reset_clock 10 s
     else let t1 = due (timers s node); (t0, s) = get_timestamp_ms s
          in if t1 \<le> t0 then reset_clock 0 s else reset_clock (t1 - t0) s)"

definition cpu_timer_set :: "nat \<Rightarrow> cpuid \<Rightarrow> nat \<Rightarrow> timer_sys \<Rightarrow> timer_sys outcome" where
  "cpu_timer_set n c tm s =
     (let s = set_timer tm (\<lambda>t. t\<lparr>trig := False\<rparr>) s;
          (now, s) = get_timestamp_ms s;
          s = set_timer tm (\<lambda>t. t\<lparr>due := now + word_of_int (telapse t)\<rparr>) s
      in andthen (rb_insert n tm (timer_cmp s) (cpu_tree c s)) (\<lambda>(r, t).
         andthen (assert_that (r = 0)) (\<lambda>_. timer_set_clock n c (put_tree c t s))))"

definition cpu_timer_cancel :: "nat \<Rightarrow> cpuid \<Rightarrow> nat \<Rightarrow> timer_sys \<Rightarrow> timer_sys outcome" where
  "cpu_timer_cancel n c tm s =
     andthen (assert_that (\<not> trig (timers s tm))) (\<lambda>_.
     andthen (rb_erase n tm (cpu_tree c s)) (\<lambda>t. timer_set_clock n c (put_tree c t s)))"

text \<open>The loop of \<^verbatim>\<open>timer_clock_handler\<close>; \<open>run\<close> runs the handler of a timer.\<close>

fun clock_loop :: "(nat \<Rightarrow> nat \<Rightarrow> timer_sys \<Rightarrow> timer_sys outcome) \<Rightarrow> nat \<Rightarrow> nat \<Rightarrow> cpuid \<Rightarrow> timer_sys \<Rightarrow> timer_sys outcome" where
  "clock_loop run 0 n c s = Blocked"
| "clock_loop run (Suc k) n c s =
     andthen (rb_first n (cpu_tree c s)) (\<lambda>tm.
     if tm = 0 then Ok s
     else let (now, s) = get_timestamp_ms s
          in if now < due (timers s tm) then Ok s
             else andthen (cpu_timer_cancel n c tm s) (\<lambda>s.
                  let s = set_timer tm (\<lambda>t. t\<lparr>trig := True\<rparr>) s
                  in andthen (run (thandler (timers s tm)) tm s) (clock_loop run k n c)))"

definition timer_clock_handler :: "(nat \<Rightarrow> nat \<Rightarrow> timer_sys \<Rightarrow> timer_sys outcome) \<Rightarrow> nat \<Rightarrow> nat \<Rightarrow> cpuid \<Rightarrow> timer_sys \<Rightarrow> timer_sys outcome" where
  "timer_clock_handler run k n c s = andthen (reset_clock 10 s) (clock_loop run k n c)"

definition hello :: "nat \<Rightarrow> cpuid \<Rightarrow> nat \<Rightarrow> timer_sys \<Rightarrow> timer_sys outcome" where
  "hello n c t s = cpu_timer_set n c (hello_timer s c) (set_timer t (\<lambda>t. t\<lparr>tdata := tdata t + 1\<rparr>) s)"

text \<open>Bringing a processor up and down; \<open>f\<close> is the code of \<^verbatim>\<open>hello\<close>.\<close>

definition set_cpu_on :: "nat \<Rightarrow> nat \<Rightarrow> cpuid \<Rightarrow> timer_sys \<Rightarrow> timer_sys outcome" where
  "set_cpu_on f n c s =
     (let was = trap_on s c; s = s\<lparr>trap_on := (trap_on s)(c := False)\<rparr>
      in andthen (assert_that (\<not> was)) (\<lambda>_.
         andthen (init_clock s) (\<lambda>s.
         let s = s\<lparr>online := (online s)(c := True)\<rparr>;
             s = set_timer (hello_timer s c) (\<lambda>t. t\<lparr>telapse := 5000, thandler := f\<rparr>) s
         in cpu_timer_set n c (hello_timer s c) s)))"

definition set_cpu_off :: "cpuid \<Rightarrow> timer_sys \<Rightarrow> timer_sys outcome" where
  "set_cpu_off c s =
     (let was = trap_on s c; s = s\<lparr>trap_on := (trap_on s)(c := False)\<rparr>
      in if \<not> was then Panic else Ok (s\<lparr>online := (online s)(c := False)\<rparr>))"

section \<open>Registers\<close>

lemma enable_then_enabled: "timer_enabled (enable_timer h)" "\<not> timer_enabled (disable_timer h)"
  by (auto simp: timer_enabled_def enable_timer_def disable_timer_def CNTV_CTL_ENABLE_def CNTV_CTL_IMASK_def Let_def bit_simps
      intro!: bit_eqI dest!: arg_cong [of _ 0 "\<lambda>w. bit w 0"])


section \<open>The order of the timers\<close>

definition key_of :: "timer_sys \<Rightarrow> nat \<Rightarrow> int \<times> nat" where
  "key_of s a = (uint (due (timers s a)), a)"

text \<open>The signed difference of two deadlines is in order while they lie below \<open>2 ^ 63\<close>.\<close>

definition due_small :: "timer_sys \<Rightarrow> bool" where
  "due_small s \<longleftrightarrow> (\<forall>a. uint (due (timers s a)) < 2 ^ 63)"

lemma sint_diff:
  fixes x y :: u64
  assumes "uint x < 2 ^ 63" and "uint y < 2 ^ 63"
  shows "sint (x - y) = uint x - uint y"
proof -
  have b: "- (2 ^ 63) \<le> uint x - uint y" "uint x - uint y < 2 ^ 63" using assms uint_ge_0 [of x] uint_ge_0 [of y] by linarith+
  have "sint (x - y) = signed_take_bit 63 (uint x - uint y)"
    using signed_take_bit_take_bit [of 63 64 "uint x - uint y"]
    by (simp add: sint_uint uint_word_ariths(2) take_bit_eq_mod)
  then show ?thesis using b by (simp add: signed_take_bit_int_eq_self)
qed

lemma timer_cmp_by_key: "due_small s \<Longrightarrow> timer_cmp s = by_key (key_of s)"
  by (intro ext) (auto simp: timer_cmp_def by_key_def key_of_def due_small_def sint_diff Let_def less_prod_def)


section \<open>Timers that are due\<close>

text \<open>The milliseconds that a reading gives.\<close>

definition ms :: "'a timer_hw_scheme \<Rightarrow> nat \<Rightarrow> int" where
  "ms s k = uint (counter s k * 1000 div cntfrq s)"

text \<open>
  The timers of processor \<open>c\<close> are the nodes of the tree \<open>W\<close>: sorted by deadline, none triggered,
  and due within \<open>L\<close> milliseconds, which the clock can count.  Time does not run backwards.
\<close>

definition timer_inv :: "int \<Rightarrow> cpuid \<Rightarrow> timer_sys \<Rightarrow> rtree \<Rightarrow> bool" where
  "timer_inv L c s W \<longleftrightarrow> rb_wf (key_of s) (cpu_tree c s) W \<and> due_small s \<and>
     L * uint (cntfrq s) div 1000 \<le> 0x7fffffff \<and> 10 \<le> L \<and> (\<forall>j k. readings s \<le> j \<and> j \<le> k \<longrightarrow> ms s j \<le> ms s k) \<and>
     (\<forall>a\<in>set (inorder W). uint (due (timers s a)) \<le> ms s (readings s) + L \<and> \<not> trig (timers s a))"

lemma timestamp_ms [simp]: "get_timestamp_ms s = (t, s') \<longleftrightarrow> t = counter s (readings s) * 1000 div cntfrq s \<and> s' = s\<lparr>readings := readings s + 1\<rparr>"
  by (auto simp: get_timestamp_ms_def)

lemma reset_clock_ok:
  assumes L: "L * uint (cntfrq h) div 1000 \<le> 0x7fffffff" and d: "uint d \<le> L"
  shows "reset_clock d h = Ok (h\<lparr>cntv_tval := d * cntfrq h div 1000\<rparr>)"
proof -
  have m: "uint d * uint (cntfrq h) \<le> L * uint (cntfrq h)" using d by (rule mult_right_mono) simp
  then have b: "uint d * uint (cntfrq h) div 1000 \<le> 0x7fffffff" using L zdiv_mono1 [OF m, of 1000] by linarith
  then have "uint d * uint (cntfrq h) < 2 ^ 64"
    using div_mult_mod_eq [of "uint d * uint (cntfrq h)" 1000] pos_mod_bound [of 1000 "uint d * uint (cntfrq h)"] by simp
  then have "uint (d * cntfrq h) = uint d * uint (cntfrq h)" by (simp add: uint_word_ariths(3))
  then have "uint (d * cntfrq h div 1000) \<le> 0x7fffffff" using b by (simp add: uint_div)
  then have "d * cntfrq h div 1000 \<le> 0x7fffffff" by (simp add: word_le_def)
  then show ?thesis by (simp add: reset_clock_def Let_def)
qed

lemma rb_wf_cong:
  fixes key key' :: "nat \<Rightarrow> 'k::linorder"
  assumes "\<forall>a\<in>set (inorder W). key' a = key a"
  shows "rb_wf key' t W = rb_wf key t W"
proof -
  have "sorted_by k' xs" if "sorted_by k xs" "\<forall>a\<in>set xs. k' a = k a" for k k' :: "nat \<Rightarrow> 'k" and xs
    using that unfolding sorted_by_def by (induction xs) auto
  from this [of key "inorder W" key'] this [of key' "inorder W" key] show ?thesis using assms by (auto simp: rb_wf_def)
qed

lemma first_ok:
  assumes "rb_wf key t W" and "rheight W \<le> n"
  shows "rb_first n t = Ok (if W = RL then 0 else hd (inorder W))" and "W \<noteq> RL \<Longrightarrow> hd (inorder W) \<noteq> 0 \<and> hd (inorder W) \<in> set (inorder W)"
proof -
  have T: "tree_at (rnode t) 0 (rroot t) W" using assms(1) by (simp add: rb_wf_def holds_def)
  show "rb_first n t = Ok (if W = RL then 0 else hd (inorder W))"
    using leftmost_spec [OF T _ assms(2)] tree_at_ne [OF T] T by (auto simp: rb_first_def)
  have nz: "tree_at h q x V \<Longrightarrow> 0 \<notin> set (inorder V)" for h q x V by (induction V arbitrary: q x) auto
  show "hd (inorder W) \<noteq> 0 \<and> hd (inorder W) \<in> set (inorder W)" if "W \<noteq> RL"
  proof -
    have "inorder W \<noteq> []" using that by (cases W) auto
    then have "hd (inorder W) \<in> set (inorder W)" by simp
    then show ?thesis using nz [OF T] by (metis)
  qed
qed

lemma timer_inv_tick:
  assumes "timer_inv L c s W" and "readings s \<le> r"
  shows "timer_inv L c (s\<lparr>readings := r, cntv_tval := d\<rparr>) W"
proof -
  let ?s = "s\<lparr>readings := r, cntv_tval := d\<rparr>"
  have m: "ms ?s k = ms s k" for k by (simp add: ms_def)
  have "key_of ?s = key_of s" by (simp add: key_of_def fun_eq_iff)
  moreover have "cpu_tree c ?s = cpu_tree c s" by (simp add: cpu_tree_def)
  moreover have "ms s (readings s) \<le> ms s r" using assms by (simp add: timer_inv_def)
  ultimately show ?thesis using assms unfolding timer_inv_def m by (fastforce simp: due_small_def)
qed

lemma timer_set_clock_ok:
  assumes inv: "timer_inv L c s W" and h: "rheight W \<le> n"
  shows "\<exists>r d. timer_set_clock n c s = Ok (s\<lparr>readings := r, cntv_tval := d\<rparr>) \<and> readings s \<le> r"
proof (cases "W = RL")
  case True
  note I = inv [unfolded timer_inv_def]
  have "reset_clock 10 s = Ok (s\<lparr>cntv_tval := 10 * cntfrq s div 1000\<rparr>)" by (rule reset_clock_ok [of L]) (use I in auto)
  then have "timer_set_clock n c s = Ok (s\<lparr>cntv_tval := 10 * cntfrq s div 1000\<rparr>)" using first_ok(1) [of "key_of s" "cpu_tree c s" W n] I h True by (simp add: timer_set_clock_def)
  then show ?thesis by (intro exI [of _ "readings s"] exI [of _ "10 * cntfrq s div 1000"]) simp
next
  case False
  note I = inv [unfolded timer_inv_def]
  define a where "a = hd (inorder W)"
  have f: "rb_first n (cpu_tree c s) = Ok a" "a \<noteq> 0" "a \<in> set (inorder W)" using first_ok [of "key_of s" "cpu_tree c s" W n] I h False by (simp_all add: a_def)
  let ?t0 = "counter s (readings s) * 1000 div cntfrq s"
  let ?s = "s\<lparr>readings := readings s + 1\<rparr>"
  have L: "uint (due (timers s a)) \<le> uint ?t0 + L" using I f(3) by (simp add: ms_def)
  define d where "d = (if due (timers s a) \<le> ?t0 then 0 else due (timers s a) - ?t0)"
  have d: "uint d \<le> L"
  proof (cases "due (timers s a) \<le> ?t0")
    case False
    then have "uint d = uint (due (timers s a)) - uint ?t0" using uint_minus_simple_alt [of ?t0 "due (timers s a)"] by (simp add: d_def word_le_def)
    then show ?thesis using L by simp
  qed (use I in \<open>simp add: d_def\<close>)
  have "reset_clock d ?s = Ok (?s\<lparr>cntv_tval := d * cntfrq s div 1000\<rparr>)" using reset_clock_ok [of L ?s d] I d by simp
  then have "timer_set_clock n c s = Ok (?s\<lparr>cntv_tval := d * cntfrq s div 1000\<rparr>)" using f by (simp add: timer_set_clock_def d_def get_timestamp_ms_def split: if_splits)
  then show ?thesis by (intro exI [of _ "readings s + 1"] exI [of _ "d * cntfrq s div 1000"]) simp
qed


section \<open>Setting and cancelling\<close>

lemma tree_simps [simp]:
  "cpu_tree c (put_tree c t s) = t" "cpu_tree c (set_timer tm f s) = cpu_tree c s" "cpu_tree c (s\<lparr>readings := r\<rparr>) = cpu_tree c s"
  "timers (put_tree c t s) = timers s" "timers (set_timer tm f s) = (timers s)(tm := f (timers s tm))"
  "readings (put_tree c t s) = readings s" "readings (set_timer tm f s) = readings s"
  "cntfrq (put_tree c t s) = cntfrq s" "cntfrq (set_timer tm f s) = cntfrq s"
  "counter (put_tree c t s) = counter s" "counter (set_timer tm f s) = counter s"
  by (simp_all add: cpu_tree_def put_tree_def set_timer_def)

text \<open>A bound on the rounds that is logarithmic in the number of timers.\<close>

lemma height_fuel: "rb W \<Longrightarrow> (length (inorder W) + 1)\<^sup>2 < 2 ^ n \<Longrightarrow> rheight W < n"
  using le_less_trans [OF rb_height] by fastforce

lemma cpu_timer_set_spec:
  assumes inv: "timer_inv L c s W" and tm: "tm \<noteq> 0" "tm \<notin> set (inorder W)"
    and el: "0 \<le> telapse (timers s tm)" "telapse (timers s tm) \<le> L" "ms s (readings s) + L < 2 ^ 63"
    and n: "(length (inorder W) + 2)\<^sup>2 < 2 ^ n"
  shows "\<exists>s' W'. cpu_timer_set n c tm s = Ok s' \<and> timer_inv L c s' W' \<and> set (inorder W') = insert tm (set (inorder W)) \<and>
    uint (due (timers s' tm)) = ms s (readings s) + telapse (timers s tm) \<and> (\<forall>a. a \<noteq> tm \<longrightarrow> timers s' a = timers s a)"
proof -
  note I = inv [unfolded timer_inv_def]
  define now where "now = counter s (readings s) * 1000 div cntfrq s"
  define s1 where "s1 = set_timer tm (\<lambda>t. t\<lparr>due := now + word_of_int (telapse t)\<rparr>) ((set_timer tm (\<lambda>t. t\<lparr>trig := False\<rparr>) s)\<lparr>readings := readings s + 1\<rparr>)"
  have now: "uint now = ms s (readings s)" by (simp add: now_def ms_def)
  have D: "uint (due (timers s1 tm)) = ms s (readings s) + telapse (timers s tm)"
    using el now uint_ge_0 [of now] by (simp add: s1_def uint_word_ariths(1) uint_word_of_int_eq take_bit_eq_mod)
  have T1: "\<And>a. a \<noteq> tm \<Longrightarrow> timers s1 a = timers s a" "\<not> trig (timers s1 tm)" by (simp_all add: s1_def)
  have C: "cpu_tree c s1 = cpu_tree c s" by (simp add: s1_def)
  have "uint (due (timers s1 a)) < 2 ^ 63" for a using D el I T1(1) [of a] by (cases "a = tm") (simp_all add: due_small_def)
  then have small: "due_small s1" by (simp add: due_small_def)
  have "key_of s1 a = key_of s a" if "a \<in> set (inorder W)" for a
    using T1(1) [of a] that tm(2) by (cases "a = tm") (simp_all add: key_of_def)
  then have wf: "rb_wf (key_of s1) (cpu_tree c s1) W" unfolding C using I rb_wf_cong [of W "key_of s1" "key_of s"] by simp
  have len: "rb W" using I by (simp add: rb_wf_def)
  have h: "rheight W < n" by (rule height_fuel [OF len]) (rule le_less_trans [OF _ n], rule power_mono, simp_all)
  have "\<not> (\<exists>a\<in>set (inorder W). key_of s1 a = key_of s1 tm)" using tm(2) by (auto simp: key_of_def)
  then obtain t W' where r: "rb_insert n tm (timer_cmp s1) (cpu_tree c s1) = Ok (0, t)" "rb_wf (key_of s1) t W'" "set (inorder W') = insert tm (set (inorder W))"
    using rb_insert_spec [OF wf tm h] by (auto simp: timer_cmp_by_key [OF small])
  let ?s = "put_tree c t s1"
  have m: "ms ?s k = ms s k" for k by (simp add: ms_def s1_def)
  have "\<forall>a\<in>set (inorder W'). uint (due (timers ?s a)) \<le> ms ?s (readings ?s) + L \<and> \<not> trig (timers ?s a)"
  proof
    fix a assume a: "a \<in> set (inorder W')"
    have mono: "ms s (readings s) \<le> ms s (Suc (readings s))" using I by simp
    show "uint (due (timers ?s a)) \<le> ms ?s (readings ?s) + L \<and> \<not> trig (timers ?s a)"
    proof (cases "a = tm")
      case True
      then show ?thesis using D T1(2) el mono unfolding m by (simp add: s1_def [THEN arg_cong [of _ _ readings]])
    next
      case False
      then have "uint (due (timers s a)) \<le> ms s (readings s) + L" "\<not> trig (timers s a)" using a r(3) I by auto
      then show ?thesis using T1(1) [OF False] mono unfolding m by (simp add: s1_def [THEN arg_cong [of _ _ readings]])
    qed
  qed
  moreover have "key_of ?s = key_of s1" "due_small ?s = due_small s1" by (simp_all add: key_of_def due_small_def fun_eq_iff)
  moreover have "cntfrq ?s = cntfrq s" "readings ?s = readings s + 1" by (simp_all add: s1_def)
  ultimately have inv': "timer_inv L c ?s W'" unfolding timer_inv_def m using I small r(2) by auto
  have "length (inorder W') = card (set (inorder W'))" using r(2) by (simp add: rb_wf_def holds_def distinct_card)
  also have "\<dots> \<le> length (inorder W) + 1" unfolding r(3) using tm(2) card_length [of "inorder W"] by simp
  finally have l: "length (inorder W') \<le> length (inorder W) + 1" .
  have "rb W'" using r(2) by (simp add: rb_wf_def)
  then have h': "rheight W' < n" by (rule height_fuel) (rule le_less_trans [OF _ n], rule power_mono, use l in simp_all)
  from timer_set_clock_ok [OF inv' less_imp_le [OF h']] obtain q d where
    q: "timer_set_clock n c ?s = Ok (?s\<lparr>readings := q, cntv_tval := d\<rparr>)" "readings ?s \<le> q" by blast
  have "cpu_timer_set n c tm s = andthen (rb_insert n tm (timer_cmp s1) (cpu_tree c s1)) (\<lambda>(r, t).
      andthen (assert_that (r = 0)) (\<lambda>_. timer_set_clock n c (put_tree c t s1)))"
    by (simp add: cpu_timer_set_def Let_def get_timestamp_ms_def s1_def now_def)
  then have "cpu_timer_set n c tm s = Ok (?s\<lparr>readings := q, cntv_tval := d\<rparr>)" by (simp only: r(1) q(1) andthen_simps prod.case assert_that_simps simp_thms)
  then show ?thesis using timer_inv_tick [OF inv' q(2), of d] r(3) D T1(1) by (intro exI [of _ "?s\<lparr>readings := q, cntv_tval := d\<rparr>"] exI [of _ W']) simp
qed

lemma cpu_timer_cancel_spec:
  assumes inv: "timer_inv L c s W" and tm: "tm \<in> set (inorder W)" and n: "(length (inorder W) + 1)\<^sup>2 < 2 ^ n"
  shows "\<exists>s' W'. cpu_timer_cancel n c tm s = Ok s' \<and> timer_inv L c s' W' \<and> inorder W' = removeAll tm (inorder W) \<and>
    timers s' = timers s \<and> readings s \<le> readings s' \<and> counter s' = counter s \<and> cntfrq s' = cntfrq s"
proof -
  note I = inv [unfolded timer_inv_def]
  have h: "rheight W < n" by (rule height_fuel) (use I n in \<open>auto simp: rb_wf_def\<close>)
  obtain t W' where r: "rb_erase n tm (cpu_tree c s) = Ok t" "rb_wf (key_of s) t W'" "inorder W' = removeAll tm (inorder W)"
    using rb_erase_spec [of "key_of s" "cpu_tree c s" W tm n] I tm h by auto
  let ?s = "put_tree c t s"
  have m: "ms ?s k = ms s k" for k by (simp add: ms_def)
  have "key_of ?s = key_of s" "due_small ?s = due_small s" by (simp_all add: key_of_def due_small_def fun_eq_iff)
  then have inv': "timer_inv L c ?s W'" unfolding timer_inv_def m using I r(2,3) by simp
  have "length (inorder W') \<le> length (inorder W)" unfolding r(3) by (simp add: removeAll_filter_not_eq)
  then have h': "rheight W' < n" by (intro height_fuel le_less_trans [OF _ n] power_mono) (use r(2) in \<open>simp_all add: rb_wf_def\<close>)
  from timer_set_clock_ok [OF inv' less_imp_le [OF h']] obtain q d where
    q: "timer_set_clock n c ?s = Ok (?s\<lparr>readings := q, cntv_tval := d\<rparr>)" "readings ?s \<le> q" by blast
  have "cpu_timer_cancel n c tm s = Ok (?s\<lparr>readings := q, cntv_tval := d\<rparr>)" using r(1) q(1) I tm by (simp add: cpu_timer_cancel_def)
  then show ?thesis using timer_inv_tick [OF inv' q(2), of d] r(3) q(2) by (intro exI [of _ "?s\<lparr>readings := q, cntv_tval := d\<rparr>"] exI [of _ W']) simp
qed


section \<open>The clock handler\<close>

text \<open>Handlers that leave the timers and the clock alone.\<close>

definition quiet :: "(nat \<Rightarrow> nat \<Rightarrow> timer_sys \<Rightarrow> timer_sys outcome) \<Rightarrow> bool" where
  "quiet run \<longleftrightarrow> (\<forall>f tm s. \<exists>s'. run f tm s = Ok s' \<and> tnodes s' = tnodes s \<and> troot s' = troot s \<and> timers s' = timers s \<and>
     readings s' = readings s \<and> counter s' = counter s \<and> cntfrq s' = cntfrq s)"

lemma timer_inv_cong:
  assumes "timer_inv L c s W" and "tnodes s' = tnodes s" "troot s' = troot s" "readings s' = readings s" "counter s' = counter s" "cntfrq s' = cntfrq s"
    and "\<forall>a. due (timers s' a) = due (timers s a)" and "\<forall>a\<in>set (inorder W). timers s' a = timers s a"
  shows "timer_inv L c s' W"
proof -
  have "ms s' k = ms s k" for k using assms by (simp add: ms_def)
  moreover have "key_of s' = key_of s" "due_small s' = due_small s" using assms by (simp_all add: key_of_def due_small_def fun_eq_iff)
  moreover have "cpu_tree c s' = cpu_tree c s" using assms by (simp add: cpu_tree_def)
  ultimately show ?thesis using assms unfolding timer_inv_def by simp
qed

lemma clock_loop_spec:
  assumes inv: "timer_inv L c s W" and q: "quiet run" and n: "(length (inorder W) + 1)\<^sup>2 < 2 ^ n" and k: "length (inorder W) < k"
  shows "\<exists>s' W' j. clock_loop run k n c s = Ok s' \<and> timer_inv L c s' W' \<and> j \<le> length (inorder W) \<and> inorder W' = drop j (inorder W) \<and>
    readings s \<le> readings s' \<and> (\<forall>i. ms s' i = ms s i) \<and> (\<forall>a. due (timers s' a) = due (timers s a)) \<and>
    (\<forall>a\<in>set (take j (inorder W)). trig (timers s' a) \<and> uint (due (timers s a)) \<le> ms s (readings s')) \<and>
    (\<forall>a. a \<notin> set (take j (inorder W)) \<longrightarrow> timers s' a = timers s a) \<and>
    (inorder W' \<noteq> [] \<longrightarrow> readings s < readings s' \<and> ms s (readings s' - 1) < uint (due (timers s (hd (inorder W')))))"
  using inv n k
proof (induction k arbitrary: s W)
  case (Suc k)
  note I = Suc.prems(1) [unfolded timer_inv_def]
  have h: "rheight W < n" by (rule height_fuel) (use I Suc.prems(2) in \<open>auto simp: rb_wf_def\<close>)
  have mono: "\<And>i j. readings s \<le> i \<Longrightarrow> i \<le> j \<Longrightarrow> ms s i \<le> ms s j" using I by blast
  note f = first_ok [of "key_of s" "cpu_tree c s" W n]
  show ?case
  proof (cases "W = RL")
    case True
    then have "clock_loop run (Suc k) n c s = Ok s" using f(1) I h by simp
    then show ?thesis using Suc.prems(1) True by (intro exI [of _ s] exI [of _ W] exI [of _ 0]) simp
  next
    case False
    define a rest where "a = hd (inorder W)" and "rest = tl (inorder W)"
    have iW: "inorder W = a # rest" using False by (cases W) (auto simp: a_def rest_def)
    have a: "rb_first n (cpu_tree c s) = Ok a" "a \<noteq> 0" "a \<in> set (inorder W)" using f I h False by (auto simp: a_def)
    let ?s = "s\<lparr>readings := readings s + 1\<rparr>"
    have inv1: "timer_inv L c ?s W" using timer_inv_tick [OF Suc.prems(1), of "readings s + 1" "cntv_tval s"] by simp
    have cmp: "counter s (readings s) * 1000 div cntfrq s < due (timers s a) \<longleftrightarrow> ms s (readings s) < uint (due (timers s a))"
      by (simp add: ms_def word_less_def)
    show ?thesis
    proof (cases "ms s (readings s) < uint (due (timers s a))")
      case True
      then have "clock_loop run (Suc k) n c s = Ok ?s" using a cmp by (simp add: get_timestamp_ms_def)
      then show ?thesis using inv1 True iW by (intro exI [of _ ?s] exI [of _ W] exI [of _ 0]) (simp add: ms_def)
    next
      case exp: False
      from cpu_timer_cancel_spec [OF inv1 a(3) Suc.prems(2)] obtain s2 W2 where s2: "cpu_timer_cancel n c a ?s = Ok s2" "timer_inv L c s2 W2"
        "inorder W2 = removeAll a (inorder W)" "timers s2 = timers s" "readings s + 1 \<le> readings s2" "counter s2 = counter s" "cntfrq s2 = cntfrq s" by auto
      have "distinct (inorder W)" using I by (simp add: rb_wf_def holds_def)
      then have W2: "inorder W2 = rest" "a \<notin> set rest" using s2(3) iW by (auto simp: removeAll_id)
      let ?s3 = "set_timer a (\<lambda>t. t\<lparr>trig := True\<rparr>) s2"
      from q obtain s4 where s4: "run (thandler (timers ?s3 a)) a ?s3 = Ok s4" "tnodes s4 = tnodes ?s3" "troot s4 = troot ?s3" "timers s4 = timers ?s3"
        "readings s4 = readings ?s3" "counter s4 = counter ?s3" "cntfrq s4 = cntfrq ?s3" unfolding quiet_def by blast
      have t4: "timers s4 b = (if b = a then (timers s a)\<lparr>trig := True\<rparr> else timers s b)" for b using s4(4) s2(4) by simp
      have e: "clock_loop run (Suc k) n c s = clock_loop run k n c s4"
        using a cmp exp s2(1) s4(1) by (simp add: get_timestamp_ms_def)
      have "tnodes ?s3 = tnodes s2" "troot ?s3 = troot s2" by (simp_all add: set_timer_def)
      then have inv4: "timer_inv L c s4 W2" by (intro timer_inv_cong [OF s2(2)]) (use s4 s2(4) W2 in auto)
      have m4: "ms s4 i = ms s i" for i using s4 s2 by (simp add: ms_def)
      have d4: "due (timers s4 b) = due (timers s b)" for b by (simp add: t4)
      have len: "(length (inorder W2) + 1)\<^sup>2 < 2 ^ n"
        by (rule le_less_trans [OF _ Suc.prems(2)], rule power_mono) (use W2 iW in simp_all)
      have lk: "length (inorder W2) < k" using Suc.prems(3) W2 iW by simp
      from Suc.IH [OF inv4 len lk] obtain s' W' j where r: "clock_loop run k n c s4 = Ok s'" "timer_inv L c s' W'" "j \<le> length rest" "inorder W' = drop j rest"
        "readings s4 \<le> readings s'" "\<forall>i. ms s' i = ms s i" "\<forall>a. due (timers s' a) = due (timers s a)"
        "\<forall>a\<in>set (take j rest). trig (timers s' a) \<and> uint (due (timers s a)) \<le> ms s (readings s')"
        "\<forall>b. b \<notin> set (take j rest) \<longrightarrow> timers s' b = timers s4 b"
        "inorder W' \<noteq> [] \<longrightarrow> readings s4 < readings s' \<and> ms s (readings s' - 1) < uint (due (timers s (hd (inorder W'))))"
        unfolding W2 m4 d4 by blast
      have rd: "readings s < readings s4" using s4(5) s2(5) by simp
      have "a \<notin> set (take j rest)" using W2(2) by (auto dest: in_set_takeD)
      then have ta: "trig (timers s' a)" using r(9) t4 by simp
      have "ms s (readings s) \<le> ms s (readings s')" by (rule mono) (use rd r(5) in simp_all)
      then have da: "uint (due (timers s a)) \<le> ms s (readings s')" using exp by simp
      show ?thesis unfolding e
      proof (intro exI [of _ s'] exI [of _ W'] exI [of _ "Suc j"] conjI)
        show "\<forall>b\<in>set (take (Suc j) (inorder W)). trig (timers s' b) \<and> uint (due (timers s b)) \<le> ms s (readings s')" using r(8) ta da iW by simp
        show "\<forall>b. b \<notin> set (take (Suc j) (inorder W)) \<longrightarrow> timers s' b = timers s b" using r(9) t4 iW by simp
      qed (use r rd iW in auto)
    qed
  qed
qed simp


text \<open>
  The handler fires the timers that are due, first those with the earliest deadlines, and no
  others: what is left in the tree is not due at the last reading of the clock.
\<close>

lemma timer_clock_handler_spec:
  assumes inv: "timer_inv L c s W" and q: "quiet run" and n: "(length (inorder W) + 1)\<^sup>2 < 2 ^ n" and k: "length (inorder W) < k"
  shows "\<exists>s' W' j. timer_clock_handler run k n c s = Ok s' \<and> timer_inv L c s' W' \<and> j \<le> length (inorder W) \<and> inorder W' = drop j (inorder W) \<and>
    (\<forall>a\<in>set (take j (inorder W)). trig (timers s' a) \<and> uint (due (timers s a)) \<le> ms s (readings s')) \<and>
    (\<forall>a. a \<notin> set (take j (inorder W)) \<longrightarrow> timers s' a = timers s a) \<and>
    (inorder W' \<noteq> [] \<longrightarrow> readings s < readings s' \<and> ms s (readings s' - 1) < uint (due (timers s (hd (inorder W')))))"
proof -
  let ?s = "s\<lparr>cntv_tval := 10 * cntfrq s div 1000\<rparr>"
  have "reset_clock 10 s = Ok ?s" by (rule reset_clock_ok [of L]) (use inv in \<open>auto simp: timer_inv_def\<close>)
  then have e: "timer_clock_handler run k n c s = clock_loop run k n c ?s" by (simp add: timer_clock_handler_def)
  have i: "timer_inv L c ?s W" using timer_inv_tick [OF inv order_refl, of "10 * cntfrq s div 1000"] by simp
  have m: "ms ?s i = ms s i" for i by (simp add: ms_def)
  have sel: "timers ?s = timers s" "readings ?s = readings s" by simp_all
  show ?thesis unfolding e using clock_loop_spec [OF i q n k, unfolded m sel] by blast
qed

end
