(* ===== verification/Devices.thy ===== *)
theory Devices
  imports Virtio Console Mem
begin

text \<open>
  Device registers: \<^verbatim>\<open>src/driver/gicv3.c\<close>, \<^verbatim>\<open>src/driver/interrupt.c\<close>, \<^verbatim>\<open>src/driver/uart.c\<close> and the
  handshake of \<^verbatim>\<open>virtio_init\<close>.  What a device does when a register is read or written is not part of
  the program: \<open>'d\<close> is the state of the devices, and a record of four functions gives what reading
  and writing a register at an address, or a system register of the interrupt controller, does to
  it.  A handler in the table of interrupt handlers is the name of a function.
\<close>

unbundle bit_operations_syntax

section \<open>Registers\<close>

datatype icc = ICC_IGRPEN1 | ICC_PMR | ICC_IAR1 | ICC_EOIR1 | ICC_SRE

record 'd device =
  get32 :: "u64 \<Rightarrow> 'd \<Rightarrow> u32 \<times> 'd"
  put32 :: "u64 \<Rightarrow> u32 \<Rightarrow> 'd \<Rightarrow> 'd"
  get_icc :: "icc \<Rightarrow> 'd \<Rightarrow> u32 \<times> 'd"
  put_icc :: "icc \<Rightarrow> u32 \<Rightarrow> 'd \<Rightarrow> 'd"

datatype int_code = NULL_HANDLER | default_handler | invoke_clock | uart_intr | virtio_intr

record 'd devs =
  hw :: 'd
  gicd :: u64
  rdist_addrs :: "u64 list"
  int_handler :: "int_code list"

definition device_put_u32 :: "'d device \<Rightarrow> u64 \<Rightarrow> u32 \<Rightarrow> ('d, 'a) devs_scheme \<Rightarrow> ('d, 'a) devs_scheme" where
  "device_put_u32 D a v g = g\<lparr>hw := put32 D a v (hw g)\<rparr>"

definition device_get_u32 :: "'d device \<Rightarrow> u64 \<Rightarrow> ('d, 'a) devs_scheme \<Rightarrow> u32 \<times> ('d, 'a) devs_scheme" where
  "device_get_u32 D a g = (case get32 D a (hw g) of (v, d) \<Rightarrow> (v, g\<lparr>hw := d\<rparr>))"

definition KERNEL_BASE :: u64 where "KERNEL_BASE = 0xFFFF000000000000"

definition UARTBASE :: u64 where "UARTBASE = 0x9000000 + KERNEL_BASE"

definition GICBASE :: u64 where "GICBASE = 0x08000000 + KERNEL_BASE"

definition VIRTIO0 :: u64 where "VIRTIO0 = 0x0A000000 + KERNEL_BASE"

section \<open>Interrupt handlers\<close>

definition NUM_IRQ_TYPES :: nat where "NUM_IRQ_TYPES = 64"

definition TIMER_IRQ :: u32 where "TIMER_IRQ = 27"

definition UART_IRQ :: u32 where "UART_IRQ = 33"

definition VIRTIO_BLK_IRQ :: u32 where "VIRTIO_BLK_IRQ = 48"

definition init_interrupt :: "('d, 'a) devs_scheme \<Rightarrow> ('d, 'a) devs_scheme" where
  "init_interrupt g = g\<lparr>int_handler := replicate NUM_IRQ_TYPES default_handler\<rparr>"

definition set_interrupt_handler :: "u32 \<Rightarrow> int_code \<Rightarrow> ('d, 'a) devs_scheme \<Rightarrow> ('d, 'a) devs_scheme outcome" where
  "set_interrupt_handler type handler g =
     (if unat type < length (int_handler g) then Ok (g\<lparr>int_handler := (int_handler g)[unat type := handler]\<rparr>) else Undef)"

definition gic_iar :: "'d device \<Rightarrow> ('d, 'a) devs_scheme \<Rightarrow> u32 \<times> ('d, 'a) devs_scheme" where
  "gic_iar D g = (case get_icc D ICC_IAR1 (hw g) of (v, d) \<Rightarrow> (v, g\<lparr>hw := d\<rparr>))"

definition gic_eoi :: "'d device \<Rightarrow> u32 \<Rightarrow> ('d, 'a) devs_scheme \<Rightarrow> ('d, 'a) devs_scheme" where
  "gic_eoi D iar g = g\<lparr>hw := put_icc D ICC_EOIR1 iar (hw g)\<rparr>"

text \<open>
  \<open>run\<close> runs a handler.  The table has 64 entries, and the number of the interrupt is only compared
  with 1023: a number beyond the table reads outside it.
\<close>

definition interrupt_global_handler ::
  "'d device \<Rightarrow> (int_code \<Rightarrow> u32 \<Rightarrow> ('d, 'a) devs_scheme \<Rightarrow> ('d, 'a) devs_scheme outcome) \<Rightarrow> ('d, 'a) devs_scheme \<Rightarrow> ('d, 'a) devs_scheme outcome" where
  "interrupt_global_handler D run g =
     (let (iar, g) = gic_iar D g; intid = iar AND 0x3ff
      in if intid = 1023 then Ok g
         else let g = gic_eoi D iar g
              in if length (int_handler g) \<le> unat intid then Undef
                 else case int_handler g ! unat intid of
                     NULL_HANDLER \<Rightarrow> Ok g
                   | default_handler \<Rightarrow> Panic
                   | h \<Rightarrow> run h intid g)"

section \<open>The interrupt controller\<close>

definition GICD_CTLR :: u32 where "GICD_CTLR = 0"

definition GICD_IGROUPR :: "u32 \<Rightarrow> u32" where "GICD_IGROUPR n = 0x80 + n * 4"

definition GICD_ISENABLER :: "u32 \<Rightarrow> u32" where "GICD_ISENABLER n = 0x100 + n * 4"

definition GICD_ICPENDR :: "u32 \<Rightarrow> u32" where "GICD_ICPENDR n = 0x280 + n * 4"

definition GICD_IPRIORITYR :: "u32 \<Rightarrow> u32" where "GICD_IPRIORITYR n = 0x400 + n * 4"

definition GICD_ITARGETSR :: "u32 \<Rightarrow> u32" where "GICD_ITARGETSR n = 0x800 + n * 4"

definition GICR_CTLR :: u32 where "GICR_CTLR = 0"

definition GICR_WAKER :: u32 where "GICR_WAKER = 0x14"

definition SGI_BASE :: u32 where "SGI_BASE = 0x10000"

definition GICR_IGROUPR0 :: u32 where "GICR_IGROUPR0 = SGI_BASE + 0x80"

definition GICR_ISENABLER0 :: u32 where "GICR_ISENABLER0 = SGI_BASE + 0x100"

definition GICR_ICPENDR0 :: u32 where "GICR_ICPENDR0 = SGI_BASE + 0x280"

definition GICR_IPRIORITYR :: "u32 \<Rightarrow> u32" where "GICR_IPRIORITYR n = SGI_BASE + 0x400 + n * 4"

definition GICR_ICFGR1 :: u32 where "GICR_ICFGR1 = SGI_BASE + 0xc04"

definition GICR_IGRPMODR0 :: u32 where "GICR_IGRPMODR0 = SGI_BASE + 0xd00"

definition is_sgi_ppi :: "u32 \<Rightarrow> bool" where
  "is_sgi_ppi i \<longleftrightarrow> i < 32"

definition wd32 :: "'d device \<Rightarrow> u32 \<Rightarrow> u32 \<Rightarrow> ('d, 'a) devs_scheme \<Rightarrow> ('d, 'a) devs_scheme" where
  "wd32 D off val g = device_put_u32 D (gicd g + ucast off) val g"

definition rd32 :: "'d device \<Rightarrow> u32 \<Rightarrow> ('d, 'a) devs_scheme \<Rightarrow> u32 \<times> ('d, 'a) devs_scheme" where
  "rd32 D off g = device_get_u32 D (gicd g + ucast off) g"

definition wr32 :: "'d device \<Rightarrow> u32 \<Rightarrow> u32 \<Rightarrow> u32 \<Rightarrow> ('d, 'a) devs_scheme \<Rightarrow> ('d, 'a) devs_scheme outcome" where
  "wr32 D cpu off val g =
     (if unat cpu < length (rdist_addrs g) then Ok (device_put_u32 D (rdist_addrs g ! unat cpu + ucast off) val g) else Undef)"

definition rr32 :: "'d device \<Rightarrow> u32 \<Rightarrow> u32 \<Rightarrow> ('d, 'a) devs_scheme \<Rightarrow> (u32 \<times> ('d, 'a) devs_scheme) outcome" where
  "rr32 D cpu off g =
     (if unat cpu < length (rdist_addrs g) then Ok (device_get_u32 D (rdist_addrs g ! unat cpu + ucast off) g) else Undef)"

definition int_bit :: "u32 \<Rightarrow> u32" where
  "int_bit intid = push_bit (unat (intid mod 32)) 1"

definition gic_enable_int :: "'d device \<Rightarrow> u32 \<Rightarrow> ('d, 'a) devs_scheme \<Rightarrow> ('d, 'a) devs_scheme" where
  "gic_enable_int D intid g =
     (let (is, g) = rd32 D (GICD_ISENABLER (intid div 32)) g; is = is OR int_bit intid
      in wd32 D (GICD_ISENABLER (intid div 32)) is g)"

definition gicr_enable_int :: "'d device \<Rightarrow> u32 \<Rightarrow> u32 \<Rightarrow> ('d, 'a) devs_scheme \<Rightarrow> ('d, 'a) devs_scheme outcome" where
  "gicr_enable_int D cpu intid g =
     (if \<not> is_sgi_ppi intid then Panic
      else andthen (rr32 D cpu GICR_ISENABLER0 g) (\<lambda>(is, g). wr32 D cpu GICR_ISENABLER0 (is OR int_bit intid) g))"

definition gic_clear_pending :: "'d device \<Rightarrow> u32 \<Rightarrow> ('d, 'a) devs_scheme \<Rightarrow> ('d, 'a) devs_scheme" where
  "gic_clear_pending D intid g =
     (let (ic, g) = rd32 D (GICD_ICPENDR (intid div 32)) g; ic = ic OR int_bit intid
      in wd32 D (GICD_ICPENDR (intid div 32)) ic g)"

definition gicr_clear_pending :: "'d device \<Rightarrow> u32 \<Rightarrow> u32 \<Rightarrow> ('d, 'a) devs_scheme \<Rightarrow> ('d, 'a) devs_scheme outcome" where
  "gicr_clear_pending D cpu intid g =
     (if \<not> is_sgi_ppi intid then Panic
      else andthen (rr32 D cpu GICR_ICPENDR0 g) (\<lambda>(ic, g). wr32 D cpu GICR_ICPENDR0 (ic OR int_bit intid) g))"

text \<open>The priority is always set to zero.\<close>

definition byte_mask :: "u32 \<Rightarrow> u32" where
  "byte_mask intid = push_bit (unat (intid mod 4 * 8)) 0xff"

definition gic_set_prio :: "'d device \<Rightarrow> u32 \<Rightarrow> ('d, 'a) devs_scheme \<Rightarrow> ('d, 'a) devs_scheme" where
  "gic_set_prio D intid g =
     (let (p, g) = rd32 D (GICD_IPRIORITYR (intid div 4)) g; p = p AND NOT (byte_mask intid)
      in wd32 D (GICD_IPRIORITYR (intid div 4)) p g)"

definition gicr_set_prio :: "'d device \<Rightarrow> u32 \<Rightarrow> u32 \<Rightarrow> ('d, 'a) devs_scheme \<Rightarrow> ('d, 'a) devs_scheme outcome" where
  "gicr_set_prio D cpu intid g =
     (if \<not> is_sgi_ppi intid then Panic
      else andthen (rr32 D cpu (GICR_IPRIORITYR (intid div 4)) g) (\<lambda>(p, g).
           wr32 D cpu (GICR_IPRIORITYR (intid div 4)) (p AND NOT (byte_mask intid)) g))"

definition gic_set_target :: "'d device \<Rightarrow> u32 \<Rightarrow> u32 \<Rightarrow> ('d, 'a) devs_scheme \<Rightarrow> ('d, 'a) devs_scheme" where
  "gic_set_target D intid cpu g =
     (let (t, g) = rd32 D (GICD_ITARGETSR (intid div 4)) g; t = t AND NOT (byte_mask intid)
      in wd32 D (GICD_ITARGETSR (intid div 4)) (t OR push_bit (unat (intid mod 4 * 8)) (push_bit (unat cpu) 1)) g)"

definition gic_setup_ppi :: "'d device \<Rightarrow> u32 \<Rightarrow> u32 \<Rightarrow> ('d, 'a) devs_scheme \<Rightarrow> ('d, 'a) devs_scheme outcome" where
  "gic_setup_ppi D cpu intid g =
     andthen (gicr_set_prio D cpu intid g) (\<lambda>g. andthen (gicr_clear_pending D cpu intid g) (gicr_enable_int D cpu intid))"

definition gic_setup_spi :: "'d device \<Rightarrow> u32 \<Rightarrow> ('d, 'a) devs_scheme \<Rightarrow> ('d, 'a) devs_scheme" where
  "gic_setup_spi D intid g = gic_enable_int D intid (gic_clear_pending D intid (gic_set_target D intid 0 (gic_set_prio D intid g)))"

definition w_icc :: "'d device \<Rightarrow> icc \<Rightarrow> u32 \<Rightarrow> ('d, 'a) devs_scheme \<Rightarrow> ('d, 'a) devs_scheme" where
  "w_icc D r v g = g\<lparr>hw := put_icc D r v (hw g)\<rparr>"

definition r_icc :: "'d device \<Rightarrow> icc \<Rightarrow> ('d, 'a) devs_scheme \<Rightarrow> u32 \<times> ('d, 'a) devs_scheme" where
  "r_icc D r g = (case get_icc D r (hw g) of (v, d) \<Rightarrow> (v, g\<lparr>hw := d\<rparr>))"

definition gic_cpu_init :: "'d device \<Rightarrow> ('d, 'a) devs_scheme \<Rightarrow> ('d, 'a) devs_scheme" where
  "gic_cpu_init D g = w_icc D ICC_PMR 0xff (w_icc D ICC_IGRPEN1 0 g)"

definition gic_dist_init :: "'d device \<Rightarrow> ('d, 'a) devs_scheme \<Rightarrow> ('d, 'a) devs_scheme" where
  "gic_dist_init D g = fold (\<lambda>i. wd32 D (GICD_IGROUPR (of_nat i)) (NOT 0)) [0..<32] (wd32 D GICD_CTLR 0 g)"

text \<open>The redistributor is waited for until it no longer sleeps, with a bound on the readings.\<close>

fun wait_awake :: "'d device \<Rightarrow> nat \<Rightarrow> u32 \<Rightarrow> ('d, 'a) devs_scheme \<Rightarrow> ('d, 'a) devs_scheme outcome" where
  "wait_awake D 0 cpu g = Blocked"
| "wait_awake D (Suc n) cpu g = andthen (rr32 D cpu GICR_WAKER g) (\<lambda>(w, g). if w AND 4 \<noteq> 0 then wait_awake D n cpu g else Ok g)"

definition gic_redist_init :: "'d device \<Rightarrow> nat \<Rightarrow> u32 \<Rightarrow> ('d, 'a) devs_scheme \<Rightarrow> ('d, 'a) devs_scheme outcome" where
  "gic_redist_init D n cpu g =
     andthen (wr32 D cpu GICR_CTLR 0 g) (\<lambda>g.
     let (sre, g) = r_icc D ICC_SRE g; g = w_icc D ICC_SRE (sre OR 1) g
     in andthen (wr32 D cpu GICR_IGROUPR0 (NOT 0) g) (\<lambda>g.
        andthen (wr32 D cpu GICR_IGRPMODR0 0 g) (\<lambda>g.
        andthen (wr32 D cpu GICR_ICFGR1 0 g) (\<lambda>g.
        andthen (rr32 D cpu GICR_WAKER g) (\<lambda>(waker, g).
        andthen (wr32 D cpu GICR_WAKER (waker AND NOT 2) g) (wait_awake D n cpu))))))"

definition gic_enable :: "'d device \<Rightarrow> ('d, 'a) devs_scheme \<Rightarrow> ('d, 'a) devs_scheme" where
  "gic_enable D g = w_icc D ICC_IGRPEN1 1 (wd32 D GICD_CTLR 3 g)"

definition gicv3_init_percpu :: "'d device \<Rightarrow> nat \<Rightarrow> u32 \<Rightarrow> ('d, 'a) devs_scheme \<Rightarrow> ('d, 'a) devs_scheme outcome" where
  "gicv3_init_percpu D n cpu g =
     andthen (gic_redist_init D n cpu (gic_dist_init D (gic_cpu_init D g))) (\<lambda>g.
     andthen (gic_setup_ppi D cpu TIMER_IRQ g) (\<lambda>g. Ok (gic_enable D g)))"

definition gicv3_init :: "'d device \<Rightarrow> ('d, 'a) devs_scheme \<Rightarrow> ('d, 'a) devs_scheme" where
  "gicv3_init D g =
     (let g = g\<lparr>gicd := GICBASE, rdist_addrs := map (\<lambda>i. GICBASE + 0xa0000 + of_nat i * 0x20000) [0..<4]\<rparr>
      in gic_setup_spi D VIRTIO_BLK_IRQ (gic_setup_spi D UART_IRQ g))"

definition gic_enabled :: "'d device \<Rightarrow> ('d, 'a) devs_scheme \<Rightarrow> bool \<times> ('d, 'a) devs_scheme" where
  "gic_enabled D g =
     (let (e, g) = r_icc D ICC_IGRPEN1 g
      in if e AND 1 \<noteq> 0 then (let (c, g) = rd32 D GICD_CTLR g in (c AND 1 \<noteq> 0, g)) else (False, g))"


section \<open>The serial line\<close>

definition UART_DR :: u64 where "UART_DR = UARTBASE"

definition UART_FR :: u64 where "UART_FR = UARTBASE + 0x18"

definition FR_RXFE :: u32 where "FR_RXFE = 16"

definition FR_TXFF :: u32 where "FR_TXFF = 32"

definition UART_LCRH :: u64 where "UART_LCRH = UARTBASE + 0x2c"

definition LCRH_FEN :: u32 where "LCRH_FEN = 16"

definition LCRH_WLEN_8BIT :: u32 where "LCRH_WLEN_8BIT = 96"

definition UART_CR :: u64 where "UART_CR = UARTBASE + 0x30"

definition UART_IMSC :: u64 where "UART_IMSC = UARTBASE + 0x38"

definition UART_ICR :: u64 where "UART_ICR = UARTBASE + 0x44"

definition uart_init :: "'d device \<Rightarrow> ('d, 'a) devs_scheme \<Rightarrow> ('d, 'a) devs_scheme outcome" where
  "uart_init D g =
     andthen (set_interrupt_handler UART_IRQ uart_intr (device_put_u32 D UART_CR 0 g)) (\<lambda>g.
     let g = device_put_u32 D UART_LCRH (LCRH_FEN OR LCRH_WLEN_8BIT) g;
         g = device_put_u32 D UART_CR 0x301 g;
         g = device_put_u32 D UART_IMSC 0 g
     in Ok (device_put_u32 D UART_IMSC (16 OR 32) g))"

definition uart_get_char :: "'d device \<Rightarrow> ('d, 'a) devs_scheme \<Rightarrow> u8 \<times> ('d, 'a) devs_scheme" where
  "uart_get_char D g =
     (let (f, g) = device_get_u32 D UART_FR g
      in if f AND FR_RXFE \<noteq> 0 then (0xFF, g) else (let (c, g) = device_get_u32 D UART_DR g in (ucast c, g)))"

text \<open>Sending waits for room; the bound is on the readings of the flags.\<close>

fun uart_send :: "'d device \<Rightarrow> nat \<Rightarrow> u8 \<Rightarrow> ('d, 'a) devs_scheme \<Rightarrow> ('d, 'a) devs_scheme outcome" where
  "uart_send D 0 c g = Blocked"
| "uart_send D (Suc n) c g =
     (let (f, g) = device_get_u32 D UART_FR g
      in if f AND FR_TXFF \<noteq> 0 then uart_send D n c g else Ok (device_put_u32 D UART_DR (ucast c) g))"

text \<open>The interrupt of the serial line hands the character over to the console, theory \<open>Console\<close>.\<close>

definition uartintr ::
  "'d device \<Rightarrow> (int \<Rightarrow> 'w \<Rightarrow> (int \<times> 'w) outcome) \<Rightarrow> ('w \<Rightarrow> 'w) \<Rightarrow> int \<Rightarrow> ('d, 'a) devs_scheme \<times> console \<times> 'w \<Rightarrow> (('d, 'a) devs_scheme \<times> console \<times> 'w) outcome" where
  "uartintr D kill procdump pid gw =
     (case gw of (g, w) \<Rightarrow>
      let (c, g) = uart_get_char D g
      in andthen (if c \<noteq> 0xFF then console_intr kill procdump pid c w else Ok w) (\<lambda>w.
         Ok (device_put_u32 D UART_ICR (16 OR 32) g, w)))"

section \<open>The handshake with the disk\<close>

definition VIRTIO_MAGIC :: u32 where "VIRTIO_MAGIC = 0x74726976"

definition DEV_STATUS_ACKNOWLEDGE :: u32 where "DEV_STATUS_ACKNOWLEDGE = 1"

definition DEV_STATUS_DRIVER :: u32 where "DEV_STATUS_DRIVER = 2"

definition DEV_STATUS_FEATURES_OK :: u32 where "DEV_STATUS_FEATURES_OK = 8"

definition DEV_STATUS_DRIVER_OK :: u32 where "DEV_STATUS_DRIVER_OK = 4"

text \<open>The features that the driver turns down.\<close>

definition drop_features :: "u32 \<Rightarrow> u32" where
  "drop_features features = fold (\<lambda>k f. f AND NOT (push_bit k 1)) [2, 4, 5, 6, 9, 10, 11, 27, 28, 29] features"

definition reg :: "'d device \<Rightarrow> u64 \<Rightarrow> ('d, 'a) devs_scheme \<Rightarrow> u32 \<times> ('d, 'a) devs_scheme" where
  "reg D off g = device_get_u32 D (VIRTIO0 + off) g"

definition set_reg :: "'d device \<Rightarrow> u64 \<Rightarrow> u32 \<Rightarrow> ('d, 'a) devs_scheme \<Rightarrow> ('d, 'a) devs_scheme" where
  "set_reg D off v g = device_put_u32 D (VIRTIO0 + off) v g"

definition LO :: "u64 \<Rightarrow> u32" where "LO a = ucast (a AND 0xffffffff)"

definition HI :: "u64 \<Rightarrow> u32" where "HI a = ucast (drop_bit 32 a)"

text \<open>
  The device has to show its identification; the condition reads the three registers in order and
  stops at the first that is wrong.
\<close>

definition virtio_probe :: "'d device \<Rightarrow> ('d, 'a) devs_scheme \<Rightarrow> bool \<times> ('d, 'a) devs_scheme" where
  "virtio_probe D g =
     (let (m, g) = reg D 0x00 g
      in if m \<noteq> VIRTIO_MAGIC then (False, g)
         else let (v, g) = reg D 0x04 g
              in if v \<noteq> 2 then (False, g) else let (i, g) = reg D 0x08 g in (i = 2, g))"

definition virtio_negotiate :: "'d device \<Rightarrow> ('d, 'a) devs_scheme \<Rightarrow> (u32 \<times> ('d, 'a) devs_scheme) outcome" where
  "virtio_negotiate D g =
     (let g = set_reg D 0x70 0 g;
          st = 0 OR DEV_STATUS_ACKNOWLEDGE; g = set_reg D 0x70 st g;
          st = st OR DEV_STATUS_DRIVER; g = set_reg D 0x70 st g;
          g = set_reg D 0x14 0 g; g = set_reg D 0x24 0 g;
          (features, g) = reg D 0x10 g;
          g = set_reg D 0x20 (drop_features features) g;
          st = st OR DEV_STATUS_FEATURES_OK; g = set_reg D 0x70 st g;
          (st, g) = reg D 0x70 g
      in if st AND DEV_STATUS_FEATURES_OK = 0 then Panic else Ok (st, g))"

text \<open>Three pages for the rings; a missing one is written to before it is noticed.\<close>

definition ring_pages :: "mem_sys \<Rightarrow> ((u64 \<times> u64 \<times> u64) \<times> mem_sys) outcome" where
  "ring_pages m =
     andthen (kalloc_page m) (\<lambda>(d, m). andthen (kalloc_page m) (\<lambda>(a, m). andthen (kalloc_page m) (\<lambda>(u, m).
     case (d, a, u) of (Some d, Some a, Some u) \<Rightarrow> Ok ((of_nat d, of_nat a, of_nat u), m) | _ \<Rightarrow> Undef)))"

definition V2P :: "u64 \<Rightarrow> u64" where "V2P v = v - KERNEL_BASE"

definition virtio_queue :: "'d device \<Rightarrow> u64 \<times> u64 \<times> u64 \<Rightarrow> u32 \<Rightarrow> ('d, 'a) devs_scheme \<Rightarrow> ('d, 'a) devs_scheme outcome" where
  "virtio_queue D pages st g =
     (case pages of (pd, pa, pu) \<Rightarrow>
      let (qmax, g) = reg D 0x34 g
      in if sint qmax < int NQUEUE then Panic
         else let g = set_reg D 0x30 0 g; g = set_reg D 0x38 (of_nat NQUEUE) g;
                  g = set_reg D 0x80 (LO (V2P pd)) g; g = set_reg D 0x84 (HI (V2P pd)) g;
                  g = set_reg D 0x90 (LO (V2P pa)) g; g = set_reg D 0x94 (HI (V2P pa)) g;
                  g = set_reg D 0xa0 (LO (V2P pu)) g; g = set_reg D 0xa4 (HI (V2P pu)) g;
                  g = set_reg D 0x44 1 g;
                  g = set_reg D 0x70 (st OR DEV_STATUS_DRIVER_OK) g
              in set_interrupt_handler VIRTIO_BLK_IRQ virtio_intr g)"

definition virtio_init :: "'d device \<Rightarrow> ('d, 'a) devs_scheme \<times> mem_sys \<Rightarrow> (virtq \<times> ('d, 'a) devs_scheme \<times> mem_sys) outcome" where
  "virtio_init D gm =
     (case gm of (g, m) \<Rightarrow>
      let (found, g) = virtio_probe D g
      in if \<not> found then Panic
         else andthen (virtio_negotiate D g) (\<lambda>(st, g).
              andthen (ring_pages m) (\<lambda>(pages, m).
              andthen (virtio_queue D pages st g) (\<lambda>g. Ok (virtq_init, g, m)))))"


section \<open>Enabling an interrupt\<close>

text \<open>
  What the architecture says of the distributor at \<open>base\<close>: the enable registers read as the set of
  enabled interrupts and a write adds to it; the clear-pending registers read as the set of pending
  interrupts and a write takes from it; priorities and targets touch neither.
\<close>

definition gicd_like :: "'d device \<Rightarrow> u64 \<Rightarrow> ('d \<Rightarrow> nat \<Rightarrow> bool) \<Rightarrow> ('d \<Rightarrow> nat \<Rightarrow> bool) \<Rightarrow> bool" where
  "gicd_like D base en pe \<longleftrightarrow>
     (\<forall>n<32. \<forall>d. \<exists>v. get32 D (base + ucast (GICD_ISENABLER n)) d = (v, d) \<and> (\<forall>i<32. bit v i = en d (32 * unat n + i))) \<and>
     (\<forall>n<32. \<forall>d. \<exists>v. get32 D (base + ucast (GICD_ICPENDR n)) d = (v, d) \<and> (\<forall>i<32. bit v i = pe d (32 * unat n + i))) \<and>
     (\<forall>n<32. \<forall>d v k. en (put32 D (base + ucast (GICD_ISENABLER n)) v d) k = (en d k \<or> k div 32 = unat n \<and> bit v (k mod 32)) \<and>
        pe (put32 D (base + ucast (GICD_ISENABLER n)) v d) k = pe d k) \<and>
     (\<forall>n<32. \<forall>d v k. pe (put32 D (base + ucast (GICD_ICPENDR n)) v d) k = (pe d k \<and> \<not> (k div 32 = unat n \<and> bit v (k mod 32))) \<and>
        en (put32 D (base + ucast (GICD_ICPENDR n)) v d) k = en d k) \<and>
     (\<forall>n<256. \<forall>b\<in>{GICD_IPRIORITYR, GICD_ITARGETSR}. \<forall>d v k. snd (get32 D (base + ucast (b n)) d) = d \<and>
        en (put32 D (base + ucast (b n)) v d) k = en d k \<and> pe (put32 D (base + ucast (b n)) v d) k = pe d k)"

lemma bit_int_bit: "i < 32 \<Longrightarrow> bit (int_bit intid) i \<longleftrightarrow> i = unat intid mod 32"
  by (auto simp: int_bit_def bit_simps unat_mod)

lemma gic_setup_spi_spec:
  assumes like: "gicd_like D (gicd g) en pe" and i: "intid < 1020"
  shows "gicd (gic_setup_spi D intid g) = gicd g \<and>
    en (hw (gic_setup_spi D intid g)) k = (en (hw g) k \<or> k = unat intid) \<and>
    pe (hw (gic_setup_spi D intid g)) k = (pe (hw g) k \<and> k div 32 \<noteq> unat intid div 32)"
proof -
  define n m where "n = intid div 32" and "m = intid div 4"
  have n: "unat n = unat intid div 32" "n < 32" and m: "m < 256" using i by (simp_all add: n_def m_def unat_div word_less_nat_alt)
  note L = like [unfolded gicd_like_def]
  note io = rd32_def wd32_def device_get_u32_def device_put_u32_def
  define g1 where "g1 = gic_set_prio D intid g"
  define g2 where "g2 = gic_set_target D intid 0 g1"
  define g3 where "g3 = gic_clear_pending D intid g2"
  have s1: "snd (get32 D (gicd g + ucast (GICD_IPRIORITYR m)) d) = d" "snd (get32 D (gicd g + ucast (GICD_ITARGETSR m)) d) = d"
    "en (put32 D (gicd g + ucast (GICD_IPRIORITYR m)) v d) k = en d k" "pe (put32 D (gicd g + ucast (GICD_IPRIORITYR m)) v d) k = pe d k"
    "en (put32 D (gicd g + ucast (GICD_ITARGETSR m)) v d) k = en d k" "pe (put32 D (gicd g + ucast (GICD_ITARGETSR m)) v d) k = pe d k" for d v k
    using L m by auto
  have g1: "gicd g1 = gicd g" "en (hw g1) k = en (hw g) k" "pe (hw g1) k = pe (hw g) k" for k
    using s1(1) [of "hw g"] by (cases "get32 D (gicd g + ucast (GICD_IPRIORITYR m)) (hw g)"; simp add: g1_def gic_set_prio_def io Let_def m_def [symmetric] s1)+
  have g2: "gicd g2 = gicd g" "en (hw g2) k = en (hw g) k" "pe (hw g2) k = pe (hw g) k" for k
    using s1(2) [of "hw g1"] by (cases "get32 D (gicd g + ucast (GICD_ITARGETSR m)) (hw g1)"; simp add: g2_def gic_set_target_def io Let_def m_def [symmetric] s1 g1)+
  obtain ic where ic: "get32 D (gicd g + ucast (GICD_ICPENDR n)) (hw g2) = (ic, hw g2)" "\<forall>i<32. bit ic i = pe (hw g2) (32 * unat n + i)"
    using L n(2) by blast
  have bank: "32 * unat n + k mod 32 = k" if "k div 32 = unat n" for k using that by (metis mult_div_mod_eq)
  have g3: "gicd g3 = gicd g" "en (hw g3) k = en (hw g) k" "pe (hw g3) k = (pe (hw g) k \<and> k div 32 \<noteq> unat n)" for k
  proof -
    have "\<forall>v d k. pe (put32 D (gicd g + ucast (GICD_ICPENDR n)) v d) k = (pe d k \<and> \<not> (k div 32 = unat n \<and> bit v (k mod 32)))"
      "\<forall>v d k. en (put32 D (gicd g + ucast (GICD_ICPENDR n)) v d) k = en d k" using L n(2) by blast+
    moreover have "bit (ic OR int_bit intid) (k mod 32)" if "pe (hw g2) k" "k div 32 = unat n"
      using ic(2) that bank [OF that(2)] by (simp add: bit_or_iff)
    ultimately show "gicd g3 = gicd g" "en (hw g3) k = en (hw g) k" "pe (hw g3) k = (pe (hw g) k \<and> k div 32 \<noteq> unat n)"
      by (auto simp: g3_def gic_clear_pending_def io Let_def n_def [symmetric] ic(1) g2)
  qed
  obtain w where w: "get32 D (gicd g + ucast (GICD_ISENABLER n)) (hw g3) = (w, hw g3)" "\<forall>i<32. bit w i = en (hw g3) (32 * unat n + i)"
    using L n(2) by blast
  have e: "\<forall>v d k. en (put32 D (gicd g + ucast (GICD_ISENABLER n)) v d) k = (en d k \<or> k div 32 = unat n \<and> bit v (k mod 32))"
    "\<forall>v d k. pe (put32 D (gicd g + ucast (GICD_ISENABLER n)) v d) k = pe d k" using L n(2) by blast+
  have b: "(k div 32 = unat n \<and> bit (w OR int_bit intid) (k mod 32)) \<longleftrightarrow> (k div 32 = unat n \<and> (en (hw g3) k \<or> k = unat intid))"
  proof (cases "k div 32 = unat n")
    case True
    have "k mod 32 = unat intid mod 32 \<longleftrightarrow> k = unat intid" using True n(1) by (metis mult_div_mod_eq)
    then show ?thesis using w(2) True bank [OF True] by (simp add: bit_or_iff bit_int_bit)
  qed simp
  have q: "gic_setup_spi D intid g = gic_enable_int D intid g3" by (simp add: gic_setup_spi_def g1_def g2_def g3_def)
  show ?thesis unfolding q using e b n(1)
    by (auto simp: gic_enable_int_def io Let_def n_def [symmetric] w(1) g3)
qed


text \<open>
  \<^verbatim>\<open>gicv3_init\<close> adds the serial line and the disk to the enabled interrupts; as the clear-pending
  registers are read before they are written, it also drops every other pending interrupt from 32
  to 63.
\<close>

lemma gicv3_init_spec:
  assumes "gicd_like D GICBASE en pe"
  shows "en (hw (gicv3_init D g)) k = (en (hw g) k \<or> k = 33 \<or> k = 48)"
    and "pe (hw (gicv3_init D g)) k = (pe (hw g) k \<and> k div 32 \<noteq> 1)"
proof -
  define g0 where "g0 = g\<lparr>gicd := GICBASE, rdist_addrs := map (\<lambda>i. GICBASE + 0xa0000 + of_nat i * 0x20000) [0..<4]\<rparr>"
  have a: "gicd_like D (gicd g0) en pe" using assms by (simp add: g0_def)
  have u: "UART_IRQ < 1020" "VIRTIO_BLK_IRQ < 1020" "unat UART_IRQ = 33" "unat VIRTIO_BLK_IRQ = 48" by (simp_all add: UART_IRQ_def VIRTIO_BLK_IRQ_def)
  define g1 where "g1 = gic_setup_spi D UART_IRQ g0"
  have g1: "gicd g1 = gicd g0" "en (hw g1) k = (en (hw g0) k \<or> k = 33)" "pe (hw g1) k = (pe (hw g0) k \<and> k div 32 \<noteq> 1)" for k
    using gic_setup_spi_spec [OF a u(1), of k] u(3) by (simp_all add: g1_def)
  have "gicd_like D (gicd g1) en pe" using a by (simp add: g1(1))
  note S = gic_setup_spi_spec [OF this u(2), of k]
  have e: "gicv3_init D g = gic_setup_spi D VIRTIO_BLK_IRQ g1" by (simp add: gicv3_init_def g1_def g0_def Let_def)
  show "en (hw (gicv3_init D g)) k = (en (hw g) k \<or> k = 33 \<or> k = 48)" "pe (hw (gicv3_init D g)) k = (pe (hw g) k \<and> k div 32 \<noteq> 1)"
    unfolding e using S g1(2,3) u(4) by (auto simp: g0_def)
qed

end
