(* ===== verification/Core.thy ===== *)
theory Core
  imports TrapSpec PageSpec Timers Devices Format
begin

unbundle bit_operations_syntax

text \<open>
  \<^verbatim>\<open>src/kernel/core.c\<close> and what is left of \<^verbatim>\<open>sched.c\<close>, \<^verbatim>\<open>sem.c\<close> and \<^verbatim>\<open>printk.c\<close>: the first process, the
  idle process of a processor, the end of the kernel, the set-up of the scheduler, \<^verbatim>\<open>printk\<close> on the
  serial line, and the semaphore routines that take the lock themselves.  The code of the first
  process lies between the addresses \<open>icode\<close> and \<open>eicode\<close>.
\<close>

section \<open>Semaphores with their lock\<close>

type_synonym locked_sem = "spinlock \<times> semaphore"

definition lock_sem :: "locked_sem \<Rightarrow> locked_sem outcome" where
  "lock_sem ls = (case ls of (l, s) \<Rightarrow> andthen (acquire_spinlock l) (\<lambda>l. Ok (l, s)))"

definition unlock_sem :: "locked_sem \<Rightarrow> locked_sem" where
  "unlock_sem ls = (case ls of (l, s) \<Rightarrow> (release_spinlock l, s))"

text \<open>\<^verbatim>\<open>my_wait_sem\<close> up to the call of \<^verbatim>\<open>sched\<close>, and from there on.\<close>

definition my_wait_begin :: "tid \<Rightarrow> locked_sem \<Rightarrow> (bool \<times> locked_sem) outcome" where
  "my_wait_begin t ls =
     andthen (lock_sem ls) (\<lambda>(l, s).
     let s = s\<lparr>sval := sval s - 1\<rparr>
     in Ok (if 0 \<le> sval s then (True, unlock_sem (l, s)) else (False, unlock_sem (l, s\<lparr>sleeplist := t # sleeplist s\<rparr>))))"

definition my_wait_finish :: "tid \<Rightarrow> bool \<Rightarrow> locked_sem \<Rightarrow> (bool \<times> locked_sem) outcome" where
  "my_wait_finish t woken ls =
     andthen (lock_sem ls) (\<lambda>(l, s).
     if woken then Ok (woken, unlock_sem (l, s))
     else let s = s\<lparr>sval := sval s + 1\<rparr>
          in andthen (assert_that (sval s \<le> 0)) (\<lambda>_. Ok (woken, unlock_sem (l, s\<lparr>sleeplist := remove1 t (sleeplist s)\<rparr>))))"

definition my_post_sem :: "locked_sem \<Rightarrow> (tid option \<times> locked_sem) outcome" where
  "my_post_sem ls =
     andthen (lock_sem ls) (\<lambda>(l, s).
     let s = s\<lparr>sval := sval s + 1\<rparr>
     in if sval s \<le> 0
        then andthen (assert_that (sleeplist s \<noteq> [])) (\<lambda>_.
             let t = last (sleeplist s) in Ok (Some t, unlock_sem (l, s\<lparr>sleeplist := remove1 t (sleeplist s)\<rparr>)))
        else Ok (None, unlock_sem (l, s)))"

section \<open>printk\<close>

text \<open>\<open>n\<close> bounds the polls of the serial line for one character.\<close>

definition printk_init :: spinlock where
  "printk_init = init_spinlock"

definition printk :: "'d device \<Rightarrow> nat \<Rightarrow> u8 list \<Rightarrow> farg list \<Rightarrow> spinlock \<times> 'd devs \<Rightarrow> (spinlock \<times> 'd devs) outcome" where
  "printk D n fmt args lg =
     (case lg of (l, g) \<Rightarrow>
      andthen (acquire_spinlock l) (\<lambda>l.
      andthen (vformat fmt args) (\<lambda>cs.
      andthen (for_each (uart_send D n) cs g) (\<lambda>g. Ok (release_spinlock l, g)))))"

section \<open>The scheduler at the start\<close>

definition init_sched_cpu :: "cpuid \<Rightarrow> 'c psys \<Rightarrow> 'c psys outcome" where
  "init_sched_cpu i s =
     andthen (with_mem (kalloc sizeof_Proc) s) (\<lambda>(r, s).
     case r of
       None \<Rightarrow> Undef
     | Some p \<Rightarrow>
         let t = upd_proc p (\<lambda>q. q\<lparr>state := RUNNING\<rparr>) (sch s)
         in Ok (s\<lparr>sch := t\<lparr>thisproc := (thisproc t)(i := p), idle := (idle t)(i := p),
              sched_timer := (sched_timer t)(i := (sched_timer t i)\<lparr>triggered := True, elapse := 15\<rparr>)\<rparr>\<rparr>))"

definition init_sched :: "'c psys \<Rightarrow> 'c psys outcome" where
  "init_sched s = for_each init_sched_cpu [0..<NCPU] (s\<lparr>sch := (sch s)\<lparr>rqlock := init_spinlock, rq := []\<rparr>\<rparr>)"

text \<open>The first steps of a process: \<^verbatim>\<open>proc_entry\<close> lets the scheduler go and hands over to the code.\<close>

definition enter_proc :: "tid \<Rightarrow> 'c psys \<Rightarrow> code \<times> u64 \<times> 'c psys" where
  "enter_proc p s =
     (let k = kcontext (uprocs s p) in (kx0 k, kx1 k, s\<lparr>sch := release_sched_lock (sch s)\<rparr>))"

section \<open>The first process\<close>

definition PAGE_BASE :: "nat \<Rightarrow> nat" where
  "PAGE_BASE a = a - a mod PAGE_SIZE"

function map_icode :: "nat \<Rightarrow> nat \<Rightarrow> nat \<Rightarrow> pgdir \<Rightarrow> vm_sys \<Rightarrow> (pgdir \<times> vm_sys) outcome" where
  "map_icode icode eicode q pd s =
     (if eicode < q then Ok (pd, s)
      else andthen (the_pte pd (0 + of_nat q - of_nat icode) s) (\<lambda>(p, pd, s).
           map_icode icode eicode (q + PAGE_SIZE) pd (set_pte p (of_nat (K2P q) OR PTE_USER_DATA OR PTE_RO) s)))"
  by pat_completeness auto
termination
  by (relation "measure (\<lambda>(icode, eicode, q, pd, s). Suc eicode - q)") (auto simp: PAGE_SIZE_def)

declare map_icode.simps [simp del]

text \<open>\<^verbatim>\<open>kernel_entry\<close> from \<^verbatim>\<open>create_proc\<close> to \<^verbatim>\<open>start_proc\<close>.\<close>

definition launch_init :: "'c block_cache \<Rightarrow> nat \<Rightarrow> nat \<Rightarrow> 'c psys \<Rightarrow> (tid \<times> 'c psys) outcome" where
  "launch_init bc icode eicode s =
     andthen (create_proc s) (\<lambda>(p, s).
     andthen (with_pgd p (\<lambda>pd v. andthen (map_icode icode eicode (PAGE_BASE icode) pd v) (\<lambda>(pd, v). Ok ((), pd, v))) s) (\<lambda>(_, s).
     if kstack (uprocs s p) = 0 then Undef
     else let s = upd_uproc p (\<lambda>u. u\<lparr>ucontext := (ucontext u)\<lparr>ux := (ux (ucontext u))[0 := 0], uelr := 0 + of_nat icode - of_nat (PAGE_BASE icode)\<rparr>\<rparr>) s
          in case iroot (fis (pfs s)) of
               None \<Rightarrow> Undef
             | Some r \<Rightarrow>
                 andthen (do_inodes (\<lambda>t. Ok (it_share (inodes bc) r t)) s) (\<lambda>s.
                 andthen (set_parent_to_this p (upd_uproc p (\<lambda>u. u\<lparr>cwd := Some r\<rparr>) s)) (\<lambda>s.
                 andthen (start_proc p trap_return 0 s) (\<lambda>(_, s). Ok (p, s))))))"

section \<open>The idle process and the end\<close>

text \<open>
  The rounds of \<^verbatim>\<open>idle_entry\<close>: for each, the reading of the clock and \<^verbatim>\<open>panic_flag\<close> after \<^verbatim>\<open>yield\<close>.  While
  the processor waits for interrupts it takes traps; afterwards it takes none again.
\<close>

fun idle_rounds :: "cpuid \<Rightarrow> (u64 \<times> bool) list \<Rightarrow> sched_sys \<Rightarrow> sched_sys outcome" where
  "idle_rounds c [] t = Blocked"
| "idle_rounds c ((now, panic_flag) # rs) t =
     andthen (yield c now t) (\<lambda>t. if panic_flag then Ok t else idle_rounds c rs t)"

definition idle_run :: "nat \<Rightarrow> nat \<Rightarrow> cpuid \<Rightarrow> (u64 \<times> bool) list \<Rightarrow> timer_sys \<times> sched_sys \<Rightarrow> (timer_sys \<times> sched_sys) outcome" where
  "idle_run f n c rs ht =
     (case ht of (h, t) \<Rightarrow>
      andthen (set_cpu_on f n c h) (\<lambda>h.
      andthen (idle_rounds c rs t) (\<lambda>t.
      andthen (set_cpu_off c h) (\<lambda>h. Ok (h, t)))))"

text \<open>
  \<^verbatim>\<open>_panic\<close>: the flag, and the processors.  A \<^verbatim>\<open>PANIC\<close> in \<^verbatim>\<open>set_cpu_off\<close> calls it again, \<open>k\<close> bounds these
  calls; the loop waits until no processor is online.
\<close>

fun panic :: "nat \<Rightarrow> cpuid \<Rightarrow> bool \<times> timer_sys \<Rightarrow> (bool \<times> timer_sys) outcome" where
  "panic 0 c s = Blocked"
| "panic (Suc k) c (flag, h) =
     (case set_cpu_off c h of
        Panic \<Rightarrow> panic k c (True, h\<lparr>trap_on := (trap_on h)(c := False)\<rparr>)
      | Ok h \<Rightarrow> if list_ex (online h) [0..<NCPU] then Blocked else Ok (True, h)
      | Undef \<Rightarrow> Undef
      | Blocked \<Rightarrow> Blocked)"

section \<open>The two versions of the semaphore routines\<close>

lemma my_sem_same:
  "my_wait_begin t (False, s) = Ok (case wait_begin t s of (r, s) \<Rightarrow> (r, False, s))"
  "my_wait_finish t woken (False, s) = andthen (wait_finish t woken s) (\<lambda>(r, s). Ok (r, False, s))"
  "my_post_sem (False, s) = andthen (post_sem_locked s) (\<lambda>(w, s). Ok (w, False, s))"
  by (simp_all add: my_wait_begin_def wait_begin_def my_wait_finish_def wait_finish_def my_post_sem_def post_sem_locked_def
      lock_sem_def unlock_sem_def acquire_spinlock_def try_acquire_spinlock_def release_spinlock_def Let_def assert_that_def)

section \<open>A processor that does not take traps cannot be stopped\<close>

lemma panic_recurses: "\<not> trap_on h c \<Longrightarrow> panic k c (flag, h) = Blocked"
  by (induction k arbitrary: flag h) (simp_all add: set_cpu_off_def Let_def)

lemma trap_on_keeps:
  "trap_on (set_timer tm g h) = trap_on h" "trap_on (put_tree c t h) = trap_on h" "trap_on (enable_timer h) = trap_on h"
  "get_timestamp_ms h = (x, h') \<Longrightarrow> trap_on h' = trap_on h"
  "reset_clock i h = Ok h' \<Longrightarrow> trap_on h' = trap_on h"
  by (auto simp: set_timer_def put_tree_def enable_timer_def get_timestamp_ms_def reset_clock_def Let_def)

lemma trap_on_timer_set_clock: "timer_set_clock n c h = Ok h' \<Longrightarrow> trap_on h' = trap_on h"
  by (auto simp: timer_set_clock_def Let_def split: if_splits prod.splits dest!: trap_on_keeps(4,5))

lemma trap_on_timer_set: "cpu_timer_set n c tm h = Ok h' \<Longrightarrow> trap_on h' = trap_on h"
  by (auto simp: cpu_timer_set_def Let_def trap_on_keeps(1,2) split: prod.splits dest!: trap_on_timer_set_clock trap_on_keeps(4))

lemma set_cpu_on_masks:
  assumes "set_cpu_on f n c h = Ok h'"
  shows "\<not> trap_on h' c"
proof -
  obtain h1 m where 1: "init_clock (h\<lparr>trap_on := (trap_on h)(c := False)\<rparr>) = Ok h1"
    and 2: "cpu_timer_set n c m (set_timer (hello_timer h1 c) (\<lambda>t. t\<lparr>telapse := 5000, thandler := f\<rparr>) (h1\<lparr>online := (online h1)(c := True)\<rparr>)) = Ok h'"
    using assms by (auto simp: set_cpu_on_def Let_def)
  have "trap_on h1 = (trap_on h)(c := False)" using 1 unfolding init_clock_def by (auto dest!: trap_on_keeps(5) simp: trap_on_keeps(3))
  then show ?thesis using trap_on_timer_set [OF 2] by (simp add: trap_on_keeps(1))
qed

lemma idle_never_stops: "idle_run f n c rs (h, t) \<noteq> Ok r"
proof
  assume "idle_run f n c rs (h, t) = Ok r"
  then obtain h1 h2 where "set_cpu_on f n c h = Ok h1" "set_cpu_off c h1 = Ok h2" by (auto simp: idle_run_def)
  then show False using set_cpu_on_masks by (fastforce simp: set_cpu_off_def Let_def)
qed

section \<open>The pages of the first process\<close>

lemma page_alloc_count:
  assumes "page_alloc s = Ok (r, s')"
  shows "length (free_pages (vmem s)) \<le> length (free_pages (vmem s')) + 1"
proof (cases "page_lock (vmem s)")
  case True
  then show ?thesis using assms by (simp add: page_alloc_def kalloc_page_def lock_pages_def)
next
  case False
  then show ?thesis using assms
    by (cases "free_pages (vmem s)") (auto simp: page_alloc_def kalloc_page_def lock_pages_def unlock_pages_def unlock_mem_def Let_def)
qed

lemma new_table_count: "new_table s = Ok (r, s') \<Longrightarrow> length (free_pages (vmem s)) \<le> length (free_pages (vmem s')) + 1"
proof -
  assume n: "new_table s = Ok (r, s')"
  then obtain p s1 where p: "page_alloc s = Ok (Some p, s1)" "s' = zero_table p s1"
    unfolding new_table_def by (auto split: option.splits)
  show ?thesis using page_alloc_count [OF p(1)] by (simp add: p(2) zero_table_def)
qed

lemma walk_count: "walk alloc a idx s = Ok (r, s') \<Longrightarrow> length (free_pages (vmem s)) \<le> length (free_pages (vmem s')) + length idx"
proof (induction idx arbitrary: a s)
  case (Cons i idx)
  show ?case
  proof (cases "pte_valid (get_pte_at (a, i) s) \<or> \<not> alloc")
    case True
    then show ?thesis using Cons.IH [of "target (get_pte_at (a, i) s)" s] Cons.prems by (auto split: if_splits)
  next
    case False
    then obtain n s1 where n: "new_table s = Ok (n, s1)" using Cons.prems by auto
    let ?s2 = "set_pte (a, i) (of_nat (K2P n) OR PTE_TABLE) s1"
    have "length (free_pages (vmem ?s2)) \<le> length (free_pages (vmem s')) + length idx"
      using Cons.IH [of "target (get_pte_at (a, i) ?s2)" ?s2] Cons.prems False n by (simp add: Let_def)
    then show ?thesis using new_table_count [OF n] by (simp add: set_pte_def)
  qed
qed simp

lemma the_pte_count:
  assumes "the_pte pd va s = Ok (x, pd', s')"
  shows "length (free_pages (vmem s)) \<le> length (free_pages (vmem s')) + 4"
proof -
  obtain pd1 s1 where 1: "(if pt pd = 0 \<and> True then andthen (new_table s) (\<lambda>(p, s). Ok (pd\<lparr>pt := p\<rparr>, s)) else Ok (pd, s)) = Ok (pd1, s1)"
    and 2: "(if pt pd1 = 0 then Ok (None, pd1, s1)
       else andthen (walk True (pt pd1) [VA_PART0 va, VA_PART1 va, VA_PART2 va] s1) (\<lambda>(r, s). Ok (map_option (\<lambda>t. (t, VA_PART3 va)) r, pd1, s)))
       = Ok (Some x, pd', s')"
    using assms unfolding the_pte_def get_pte_def by (auto simp del: walk.simps split: option.splits)
  have "length (free_pages (vmem s)) \<le> length (free_pages (vmem s1)) + 1"
    using 1 new_table_count [of s] by (auto split: if_splits)
  moreover have "length (free_pages (vmem s1)) \<le> length (free_pages (vmem s')) + 3"
    using 2 walk_count [of True "pt pd1" "[VA_PART0 va, VA_PART1 va, VA_PART2 va]" s1] by (auto simp del: walk.simps split: if_splits)
  ultimately show ?thesis by simp
qed

definition upage :: "nat \<Rightarrow> u64" where
  "upage k = of_nat (PAGE_SIZE * k)"

lemma page_offset: "VA_OFFSET (upage k) = 0"
proof -
  have "(0xFFF :: u64) = mask 12" by (simp add: mask_eq_exp_minus_1)
  then have o: "VA_OFFSET w = take_bit 12 w" for w by (simp add: VA_OFFSET_def take_bit_eq_mask)
  have "upage k = push_bit 12 (of_nat k)" by (simp add: upage_def PAGE_SIZE_def push_bit_eq_mult)
  then show ?thesis by (simp only: o) (simp add: take_bit_push_bit)
qed

lemma page_parts:
  assumes "PAGE_SIZE * j < USERTOP" "PAGE_SIZE * k < USERTOP" "parts (upage j) = parts (upage k)"
  shows "j = k"
proof -
  have u: "unat (upage i) = PAGE_SIZE * i" if "PAGE_SIZE * i < USERTOP" for i
    unfolding upage_def using that by (intro u64_of_nat) (simp add: USERTOP_def)
  have l: "unat (upage j) < USERTOP" "unat (upage k) < USERTOP" using u assms(1,2) by simp_all
  have e: "VA_PART0 (upage j) = VA_PART0 (upage k)" "VA_PART1 (upage j) = VA_PART1 (upage k)"
    "VA_PART2 (upage j) = VA_PART2 (upage k)" "VA_PART3 (upage j) = VA_PART3 (upage k)" using assms(3) by (simp_all add: parts_def)
  have "upage j = join_va (VA_PART0 (upage j)) (VA_PART1 (upage j)) (VA_PART2 (upage j)) (VA_PART3 (upage j)) + VA_OFFSET (upage j)"
    by (rule join_parts [OF l(1), symmetric])
  also have "\<dots> = join_va (VA_PART0 (upage k)) (VA_PART1 (upage k)) (VA_PART2 (upage k)) (VA_PART3 (upage k)) + VA_OFFSET (upage k)"
    by (simp only: e page_offset)
  also have "\<dots> = upage k" by (rule join_parts [OF l(2)])
  finally have "upage j = upage k" .
  then have "PAGE_SIZE * j = PAGE_SIZE * k" using u [OF assms(1)] u [OF assms(2)] by argo
  then show ?thesis by (simp add: PAGE_SIZE_def)
qed

definition icode_entry :: "nat \<Rightarrow> u64" where
  "icode_entry q = of_nat (K2P q) OR PTE_USER_DATA OR PTE_RO"

lemma map_icode_spec:
  assumes "icode \<le> eicode" "eicode - icode < USERTOP" and "pd_ok s pd"
    and "4 * (Suc ((eicode - icode) div PAGE_SIZE) - j) \<le> length (free_pages (vmem s))"
  shows "\<exists>pd' s'. map_icode icode eicode (icode + PAGE_SIZE * j) pd s = Ok (pd', s') \<and> pd_ok s' pd' \<and>
    (\<forall>k. j \<le> k \<and> PAGE_SIZE * k \<le> eicode - icode \<longrightarrow> entry_of s' pd' (upage k) = icode_entry (icode + PAGE_SIZE * k)) \<and>
    (\<forall>va. (\<forall>k. j \<le> k \<and> PAGE_SIZE * k \<le> eicode - icode \<longrightarrow> parts va \<noteq> parts (upage k)) \<longrightarrow> entry_of s' pd' va = entry_of s pd va)"
  using assms(3,4)
proof (induction "Suc ((eicode - icode) div PAGE_SIZE) - j" arbitrary: j pd s)
  case 0
  then have "eicode - icode < PAGE_SIZE * j" by (simp add: PAGE_SIZE_def)
  then have "eicode < icode + PAGE_SIZE * j" "\<not> (j \<le> k \<and> PAGE_SIZE * k \<le> eicode - icode)" for k
    by (auto simp: PAGE_SIZE_def)
  then show ?case using 0(2) by (subst map_icode.simps) auto
next
  case (Suc n)
  let ?q = "icode + PAGE_SIZE * j"
  have j: "PAGE_SIZE * j \<le> eicode - icode" using Suc(2) by (simp add: PAGE_SIZE_def)
  have q: "\<not> eicode < ?q" using j assms(1) by (simp add: PAGE_SIZE_def)
  have va: "0 + of_nat ?q - of_nat icode = upage j" by (simp add: upage_def)
  let ?va = "upage j"
  have "4 \<le> length (free_pages (vmem s))" using Suc(2,4) by simp
  from the_pte_spec [OF Suc(3) this, of ?va] obtain t pd1 s1 where 1: "the_pte pd ?va s = Ok ((t, VA_PART3 ?va), pd1, s1)" "pt pd1 \<noteq> 0" "pd_ok s1 pd1"
    "node s1 (pt pd1) [VA_PART0 ?va, VA_PART1 ?va, VA_PART2 ?va] = Some t" "\<And>va'. entry_of s1 pd1 va' = entry_of s pd va'" by metis
  let ?s2 = "set_pte (t, VA_PART3 ?va) (icode_entry ?q) s1"
  have 2: "pd_ok ?s2 pd1" "\<And>va'. entry_of ?s2 pd1 va' = (if parts va' = parts ?va then icode_entry ?q else entry_of s pd va')"
    using entry_set_leaf [OF 1(3,2,4), of "icode_entry ?q"] 1(5) by auto
  have "length (free_pages (vmem s)) \<le> length (free_pages (vmem ?s2)) + 4" using the_pte_count [OF 1(1)] by (simp add: set_pte_def)
  then have f: "4 * (Suc ((eicode - icode) div PAGE_SIZE) - Suc j) \<le> length (free_pages (vmem ?s2))" using Suc(2,4) by simp
  have n: "n = Suc ((eicode - icode) div PAGE_SIZE) - Suc j" using Suc(2) by simp
  obtain pd' s' where 3: "map_icode icode eicode (icode + PAGE_SIZE * Suc j) pd1 ?s2 = Ok (pd', s')" "pd_ok s' pd'"
    "\<And>k. Suc j \<le> k \<and> PAGE_SIZE * k \<le> eicode - icode \<Longrightarrow> entry_of s' pd' (upage k) = icode_entry (icode + PAGE_SIZE * k)"
    "\<And>va. \<forall>k. Suc j \<le> k \<and> PAGE_SIZE * k \<le> eicode - icode \<longrightarrow> parts va \<noteq> parts (upage k) \<Longrightarrow> entry_of s' pd' va = entry_of ?s2 pd1 va"
    using Suc(1) [OF n 2(1) f] by blast
  have r: "map_icode icode eicode ?q pd s = Ok (pd', s')"
    using q va 1(1) 3(1) by (subst map_icode.simps) (simp add: icode_entry_def add.assoc add.commute [of "PAGE_SIZE * j"] del: of_nat_add)
  have "entry_of s' pd' (upage k) = icode_entry (icode + PAGE_SIZE * k)" if "j \<le> k" "PAGE_SIZE * k \<le> eicode - icode" for k
  proof (cases "k = j")
    case True
    have "parts ?va \<noteq> parts (upage i)" if "Suc j \<le> i" "PAGE_SIZE * i \<le> eicode - icode" for i
      using page_parts [of j i] that j assms(2) by auto
    then show ?thesis using 3(4) [of ?va] 2(2) [of ?va] True by simp
  next
    case False
    then show ?thesis using 3(3) [of k] that by simp
  qed
  moreover have "entry_of s' pd' va = entry_of s pd va"
    if "\<forall>k. j \<le> k \<and> PAGE_SIZE * k \<le> eicode - icode \<longrightarrow> parts va \<noteq> parts (upage k)" for va
    using 3(4) [of va] 2(2) [of va] that j by auto
  ultimately show ?case using r 3(2) by blast
qed

end
