(* ===== verification/LockFree.thy ===== *)
theory LockFree
  imports Prelude
begin

text \<open>
  The lock-free stack of \<^verbatim>\<open>src/common/list.c\<close> (\<^verbatim>\<open>QueueNode\<close>), with threads that interleave between
  any two accesses to shared memory.  A node is its address; 0 is \<^verbatim>\<open>NULL\<close>.  The
  compare-and-exchange is the weak one: it may fail although the values agree.
\<close>

section \<open>The threads\<close>

text \<open>Where a thread is: outside, before \<^verbatim>\<open>node->next = *head\<close>, before the exchange, and so on.\<close>

datatype place = Outside | AddLoad nat | AddCas nat | FetchLoad | FetchNext nat | FetchCas nat nat

datatype event = Pushed nat | Popped nat | Empty | Took nat

record stack_sys =
  shead :: nat
  snext :: "nat \<Rightarrow> nat"
  at_place :: "nat \<Rightarrow> place"

definition go_to :: "nat \<Rightarrow> place \<Rightarrow> stack_sys \<Rightarrow> stack_sys" where
  "go_to t p s = s\<lparr>at_place := (at_place s)(t := p)\<rparr>"

text \<open>A failed exchange stores the head where the expected value was, \<^verbatim>\<open>&node->next\<close>.\<close>

definition add_to_queue :: "nat \<Rightarrow> bool \<Rightarrow> stack_sys \<Rightarrow> (stack_sys \<times> event list) option" where
  "add_to_queue t lucky s =
     (case at_place s t of
        AddLoad node \<Rightarrow> Some (go_to t (AddCas node) (s\<lparr>snext := (snext s)(node := shead s)\<rparr>), [])
      | AddCas node \<Rightarrow>
          if lucky \<and> shead s = snext s node then Some (go_to t Outside (s\<lparr>shead := node\<rparr>), [Pushed node])
          else Some (go_to t (AddLoad node) (s\<lparr>snext := (snext s)(node := shead s)\<rparr>), [])
      | _ \<Rightarrow> None)"

definition fetch_from_queue :: "nat \<Rightarrow> bool \<Rightarrow> stack_sys \<Rightarrow> (stack_sys \<times> event list) option" where
  "fetch_from_queue t lucky s =
     (case at_place s t of
        FetchLoad \<Rightarrow> if shead s = 0 then Some (go_to t Outside s, [Empty]) else Some (go_to t (FetchNext (shead s)) s, [])
      | FetchNext node \<Rightarrow> Some (go_to t (FetchCas node (snext s node)) s, [])
      | FetchCas node nxt \<Rightarrow>
          if lucky \<and> shead s = node then Some (go_to t Outside (s\<lparr>shead := nxt\<rparr>), [Popped node])
          else Some (go_to t FetchLoad s, [])
      | _ \<Rightarrow> None)"

definition fetch_all_from_queue :: "nat \<Rightarrow> stack_sys \<Rightarrow> (stack_sys \<times> event list) option" where
  "fetch_all_from_queue t s = (if at_place s t = Outside then Some (s\<lparr>shead := 0\<rparr>, [Took (shead s)]) else None)"

text \<open>What can happen next: a thread calls one of the routines, or goes on in the one that it is in.\<close>

datatype action = CallAdd nat nat | CallFetch nat | CallFetchAll nat | GoAdd nat bool | GoFetch nat bool

fun stack_step :: "action \<Rightarrow> stack_sys \<Rightarrow> (stack_sys \<times> event list) option" where
  "stack_step (CallAdd t node) s = (if at_place s t = Outside then Some (go_to t (AddLoad node) s, []) else None)"
| "stack_step (CallFetch t) s = (if at_place s t = Outside then Some (go_to t FetchLoad s, []) else None)"
| "stack_step (CallFetchAll t) s = fetch_all_from_queue t s"
| "stack_step (GoAdd t lucky) s = add_to_queue t lucky s"
| "stack_step (GoFetch t lucky) s = fetch_from_queue t lucky s"

section \<open>What a stack is\<close>

fun stack_event :: "event \<Rightarrow> nat list \<Rightarrow> nat list option" where
  "stack_event (Pushed n) xs = Some (n # xs)"
| "stack_event (Popped n) xs = (case xs of x # ys \<Rightarrow> if x = n then Some ys else None | [] \<Rightarrow> None)"
| "stack_event Empty xs = (if xs = [] then Some [] else None)"
| "stack_event (Took h) xs = (if h = (case xs of [] \<Rightarrow> 0 | x # _ \<Rightarrow> x) then Some [] else None)"

fun replay_events :: "event list \<Rightarrow> nat list \<Rightarrow> nat list option" where
  "replay_events [] xs = Some xs"
| "replay_events (e # es) xs = (case stack_event e xs of None \<Rightarrow> None | Some ys \<Rightarrow> replay_events es ys)"

lemma replay_events_append: "replay_events (es @ fs) xs = (case replay_events es xs of None \<Rightarrow> None | Some ys \<Rightarrow> replay_events fs ys)"
  by (induction es arbitrary: xs) (auto split: option.splits)

text \<open>The nodes that hang at a pointer, in order.\<close>

fun chain_at :: "(nat \<Rightarrow> nat) \<Rightarrow> nat \<Rightarrow> nat list \<Rightarrow> bool" where
  "chain_at nx p [] \<longleftrightarrow> p = 0"
| "chain_at nx p (x # xs) \<longleftrightarrow> p = x \<and> x \<noteq> 0 \<and> chain_at nx (nx x) xs"

section \<open>Runs\<close>

text \<open>
  The nodes \<open>given\<close> have been handed to \<^verbatim>\<open>add_to_queue\<close> some time.  A node that is still inside
  (\<open>inside\<close>: handed over and not returned since) is not handed over again; when \<open>reuse\<close> is false, no
  node is handed over twice.
\<close>

definition adding :: "nat \<Rightarrow> place \<Rightarrow> bool" where
  "adding n p \<longleftrightarrow> p = AddLoad n \<or> p = AddCas n"

fun left_inside :: "stack_sys \<Rightarrow> event list \<Rightarrow> nat set \<Rightarrow> nat set" where
  "left_inside s [Popped n] A = A - {n}"
| "left_inside s [Took h] A = {n \<in> A. \<exists>t. adding n (at_place s t)}"
| "left_inside s es A = A"

inductive stack_run :: "bool \<Rightarrow> stack_sys \<Rightarrow> event list \<Rightarrow> nat set \<Rightarrow> nat set \<Rightarrow> bool" for reuse where
  start: "stack_run reuse \<lparr>shead = 0, snext = nx, at_place = (\<lambda>_. Outside)\<rparr> [] {} {}"
| call: "stack_run reuse s es inside given \<Longrightarrow> n \<noteq> 0 \<Longrightarrow> n \<notin> inside \<Longrightarrow> reuse \<or> n \<notin> given \<Longrightarrow>
    stack_step (CallAdd t n) s = Some (s', fs) \<Longrightarrow> stack_run reuse s' (es @ fs) (insert n inside) (insert n given)"
| go: "stack_run reuse s es inside given \<Longrightarrow> \<forall>t n. a \<noteq> CallAdd t n \<Longrightarrow> stack_step a s = Some (s', fs) \<Longrightarrow>
    stack_run reuse s' (es @ fs) (left_inside s fs inside) given"

section \<open>Without reuse\<close>

text \<open>The nodes \<open>D\<close> have been in the stack, or are in it; the others of \<open>given\<close> are on their way.\<close>

fun place_ok :: "(nat \<Rightarrow> nat) \<Rightarrow> nat set \<Rightarrow> nat set \<Rightarrow> place \<Rightarrow> bool" where
  "place_ok nx D given (AddLoad n) \<longleftrightarrow> n \<in> given - D"
| "place_ok nx D given (AddCas n) \<longleftrightarrow> n \<in> given - D"
| "place_ok nx D given (FetchNext n) \<longleftrightarrow> n \<in> D"
| "place_ok nx D given (FetchCas n m) \<longleftrightarrow> n \<in> D \<and> nx n = m"
| "place_ok nx D given _ \<longleftrightarrow> True"

definition one_adder :: "(nat \<Rightarrow> place) \<Rightarrow> bool" where
  "one_adder P \<longleftrightarrow> (\<forall>n t t'. adding n (P t) \<and> adding n (P t') \<longrightarrow> t = t')"

definition stack_parts :: "stack_sys \<Rightarrow> nat list \<Rightarrow> nat set \<Rightarrow> nat set \<Rightarrow> bool" where
  "stack_parts s xs given D \<longleftrightarrow>
     0 \<notin> given \<and> chain_at (snext s) (shead s) xs \<and> set xs \<subseteq> D \<and> D \<subseteq> given \<and> one_adder (at_place s) \<and>
     (\<forall>t. place_ok (snext s) D given (at_place s t))"

lemma chain_at_upd: "n \<notin> set xs \<Longrightarrow> chain_at (nx(n := v)) p xs = chain_at nx p xs"
  by (induction xs arbitrary: p) auto

lemma chain_at_head: "chain_at nx p xs \<Longrightarrow> p = (case xs of [] \<Rightarrow> 0 | x # _ \<Rightarrow> x)"
  by (cases xs) auto

lemma adding_simps [simp]:
  "adding n (AddLoad k) = (k = n)" "adding n (AddCas k) = (k = n)" "\<not> adding n Outside" "\<not> adding n FetchLoad"
  "\<not> adding n (FetchNext k)" "\<not> adding n (FetchCas k m)"
  by (auto simp: adding_def)

lemma go_to_simps [simp]:
  "shead (go_to t p s) = shead s" "snext (go_to t p s) = snext s" "at_place (go_to t p s) = (at_place s)(t := p)"
  by (simp_all add: go_to_def)

lemma one_adder_upd: "one_adder P \<Longrightarrow> (\<And>n t'. adding n p \<Longrightarrow> adding n (P t') \<Longrightarrow> t' = t) \<Longrightarrow> one_adder (P(t := p))"
  unfolding one_adder_def by (auto simp: fun_upd_def)

lemma place_ok_link: "n \<notin> D \<Longrightarrow> place_ok (nx(n := v)) D given p = place_ok nx D given p"
  by (cases p) auto

lemma place_ok_given: "place_ok nx D given p \<Longrightarrow> n \<notin> D \<Longrightarrow> place_ok nx D (insert n given) p"
  by (cases p) auto

lemma place_ok_push: "place_ok nx D given p \<Longrightarrow> \<not> adding n p \<Longrightarrow> place_ok nx (insert n D) given p"
  by (cases p) auto

lemma place_ok_adding: "place_ok nx D given p \<Longrightarrow> adding n p \<Longrightarrow> n \<in> given \<and> n \<notin> D"
  by (cases p) auto

lemma parts_call:
  assumes "stack_parts s xs given D" "n \<noteq> 0" "n \<notin> given" "at_place s t = Outside"
  shows "stack_parts (go_to t (AddLoad n) s) xs (insert n given) D"
proof -
  have s: "0 \<notin> given" "chain_at (snext s) (shead s) xs" "set xs \<subseteq> D" "D \<subseteq> given" "one_adder (at_place s)"
    and ok: "place_ok (snext s) D given (at_place s t')" for t' using assms(1) by (simp_all add: stack_parts_def)
  have "\<not> adding n (at_place s t')" for t' using place_ok_adding [OF ok] assms(3) by blast
  then have "one_adder ((at_place s)(t := AddLoad n))" by (intro one_adder_upd s) simp
  moreover have "n \<notin> D" using s(4) assms(3) by blast
  ultimately show ?thesis using s place_ok_given [OF ok] assms(2) by (auto simp: stack_parts_def)
qed

text \<open>A thread writes the link of a node that it is adding.\<close>

lemma parts_link:
  assumes "stack_parts s xs given D" "adding n (at_place s t)" "p \<in> {AddLoad n, AddCas n}"
  shows "stack_parts (go_to t p (s\<lparr>snext := (snext s)(n := v)\<rparr>)) xs given D"
proof -
  have s: "0 \<notin> given" "chain_at (snext s) (shead s) xs" "set xs \<subseteq> D" "D \<subseteq> given" "one_adder (at_place s)"
    and ok: "place_ok (snext s) D given (at_place s t')" for t' using assms(1) by (simp_all add: stack_parts_def)
  have n: "n \<in> given" "n \<notin> D" "n \<notin> set xs" using place_ok_adding [OF ok assms(2)] s(3) by auto
  have "one_adder ((at_place s)(t := p))"
    using assms(2,3) s(5) by (intro one_adder_upd s) (auto simp: one_adder_def)
  then show ?thesis using s n ok assms(3) by (auto simp: stack_parts_def chain_at_upd place_ok_link)
qed

text \<open>A thread moves on without a change to the memory.\<close>

lemma parts_goes:
  assumes "stack_parts s xs given D"
    and "p \<in> {Outside, FetchLoad} \<or> p = FetchNext (shead s) \<and> shead s \<noteq> 0 \<or> (\<exists>n. at_place s t = FetchNext n \<and> p = FetchCas n (snext s n))"
  shows "stack_parts (go_to t p s) xs given D"
proof -
  have s: "0 \<notin> given" "chain_at (snext s) (shead s) xs" "set xs \<subseteq> D" "D \<subseteq> given" "one_adder (at_place s)"
    and ok: "place_ok (snext s) D given (at_place s t')" for t' using assms(1) by (simp_all add: stack_parts_def)
  have h: "shead s \<noteq> 0 \<Longrightarrow> shead s \<in> D" using s(2,3) by (cases xs) auto
  have "\<not> adding n p" for n using assms(2) by auto
  then have "one_adder ((at_place s)(t := p))" by (intro one_adder_upd s) simp
  moreover have "place_ok (snext s) D given p" using assms(2) h ok [of t] by auto
  ultimately show ?thesis using s ok by (simp add: stack_parts_def)
qed

lemma parts_push:
  assumes "stack_parts s xs given D" "at_place s t = AddCas n" "shead s = snext s n"
  shows "stack_parts (go_to t Outside (s\<lparr>shead := n\<rparr>)) (n # xs) given (insert n D)"
proof -
  have s: "0 \<notin> given" "chain_at (snext s) (shead s) xs" "set xs \<subseteq> D" "D \<subseteq> given" "one_adder (at_place s)"
    and ok: "place_ok (snext s) D given (at_place s t')" for t' using assms(1) by (simp_all add: stack_parts_def)
  have n: "n \<in> given" "n \<noteq> 0" using ok [of t] assms(2) s(1) by (auto intro: gr0I)
  have o: "\<not> adding n (at_place s t')" if "t' \<noteq> t" for t'
    using s(5) that assms(2) unfolding one_adder_def by (metis adding_simps(2))
  have "one_adder ((at_place s)(t := Outside))" by (intro one_adder_upd s) simp
  then show ?thesis using s n assms(3) place_ok_push [OF ok o] by (auto simp: stack_parts_def)
qed

lemma parts_pop:
  assumes "stack_parts s xs given D" "at_place s t = FetchCas n m" "shead s = n"
  shows "\<exists>ys. xs = n # ys \<and> stack_parts (go_to t Outside (s\<lparr>shead := m\<rparr>)) ys given D"
proof -
  have s: "0 \<notin> given" "chain_at (snext s) (shead s) xs" "set xs \<subseteq> D" "D \<subseteq> given" "one_adder (at_place s)"
    and ok: "place_ok (snext s) D given (at_place s t')" for t' using assms(1) by (simp_all add: stack_parts_def)
  have n: "n \<noteq> 0" "snext s n = m" using ok [of t] assms(2) s(1,4) by (auto intro: gr0I)
  obtain ys where ys: "xs = n # ys" using s(2) n(1) assms(3) by (cases xs) auto
  have "one_adder ((at_place s)(t := Outside))" by (intro one_adder_upd s) simp
  then show ?thesis using s n ys ok by (auto simp: stack_parts_def)
qed

lemma parts_take: "stack_parts s xs given D \<Longrightarrow> stack_parts (s\<lparr>shead := 0\<rparr>) [] given D"
  by (simp add: stack_parts_def)

lemma parts_head: "stack_parts s xs given D \<Longrightarrow> shead s = (case xs of [] \<Rightarrow> 0 | x # _ \<Rightarrow> x)"
  unfolding stack_parts_def by (elim conjE) (rule chain_at_head)

lemma parts_empty: "stack_parts s xs given D \<Longrightarrow> shead s = 0 \<Longrightarrow> xs = []"
  by (cases xs) (auto simp: stack_parts_def)

lemma parts_step:
  assumes "stack_parts s xs given D" "\<forall>t n. a \<noteq> CallAdd t n" "stack_step a s = Some (s', fs)"
  shows "\<exists>ys E. replay_events fs xs = Some ys \<and> stack_parts s' ys given E"
proof (cases a)
  case (CallFetch t)
  then show ?thesis using assms(3) parts_goes [OF assms(1), of FetchLoad t] by (auto split: if_splits)
next
  case (CallFetchAll t)
  then show ?thesis using assms(3) parts_take [OF assms(1)] parts_head [OF assms(1)]
    by (auto simp: fetch_all_from_queue_def split: if_splits)
next
  case (GoAdd t l)
  show ?thesis
  proof (cases "at_place s t")
    case (AddLoad n)
    then show ?thesis using GoAdd assms(3) parts_link [OF assms(1), of n t] by (auto simp: add_to_queue_def)
  next
    case (AddCas n)
    then show ?thesis using GoAdd assms(3) parts_link [OF assms(1), of n t] parts_push [OF assms(1) AddCas]
      by (auto simp: add_to_queue_def split: if_splits)
  qed (use GoAdd assms(3) in \<open>simp_all add: add_to_queue_def\<close>)
next
  case (GoFetch t l)
  note G = parts_goes [OF assms(1), of _ t]
  show ?thesis
  proof (cases "at_place s t")
    case FetchLoad
    then show ?thesis using GoFetch assms(3) G [of Outside] G [of "FetchNext (shead s)"] parts_empty [OF assms(1)]
      by (auto simp: fetch_from_queue_def split: if_splits)
  next
    case (FetchNext n)
    then show ?thesis using GoFetch assms(3) G [of "FetchCas n (snext s n)"] by (auto simp: fetch_from_queue_def)
  next
    case (FetchCas n m)
    then show ?thesis using GoFetch assms(3) G [of FetchLoad] parts_pop [OF assms(1) FetchCas]
      by (auto simp: fetch_from_queue_def split: if_splits)
  qed (use GoFetch assms(3) in \<open>simp_all add: fetch_from_queue_def\<close>)
qed (use assms(2) in simp)

lemma run_parts:
  assumes "stack_run False s es inside given"
  shows "\<exists>xs D. replay_events es [] = Some xs \<and> stack_parts s xs given D"
  using assms
proof (induction rule: stack_run.induct)
  case (start nx)
  have "stack_parts \<lparr>shead = 0, snext = nx, at_place = \<lambda>_. Outside\<rparr> [] {} {}" by (simp add: stack_parts_def one_adder_def)
  then show ?case by auto
next
  case (call s es inside given n t s' fs)
  then obtain xs D where xs: "replay_events es [] = Some xs" "stack_parts s xs given D" by blast
  have "at_place s t = Outside" "s' = go_to t (AddLoad n) s" "fs = []" using call(5) by (simp_all split: if_splits)
  then show ?case using xs parts_call [OF xs(2) call(2)] call(4) by auto
next
  case (go s es inside given a s' fs)
  then obtain xs D where xs: "replay_events es [] = Some xs" "stack_parts s xs given D" by blast
  show ?case using parts_step [OF xs(2) go(2,3)] xs(1) by (auto simp: replay_events_append)
qed

section \<open>With reuse\<close>

text \<open>A list of actions, played.\<close>

fun act :: "bool \<Rightarrow> action \<Rightarrow> stack_sys \<times> event list \<times> nat set \<times> nat set \<Rightarrow> (stack_sys \<times> event list \<times> nat set \<times> nat set) option" where
  "act reuse a (s, es, inside, given) =
     (case stack_step a s of
        None \<Rightarrow> None
      | Some (s', fs) \<Rightarrow>
          (case a of
             CallAdd t n \<Rightarrow>
               if n = 0 \<or> n \<in> inside \<or> \<not> reuse \<and> n \<in> given then None
               else Some (s', es @ fs, insert n inside, insert n given)
           | _ \<Rightarrow> Some (s', es @ fs, left_inside s fs inside, given)))"

fun play :: "bool \<Rightarrow> action list \<Rightarrow> stack_sys \<times> event list \<times> nat set \<times> nat set \<Rightarrow> (stack_sys \<times> event list \<times> nat set \<times> nat set) option" where
  "play reuse [] x = Some x"
| "play reuse (a # as) x = (case act reuse a x of None \<Rightarrow> None | Some y \<Rightarrow> play reuse as y)"

definition runs :: "bool \<Rightarrow> stack_sys \<times> event list \<times> nat set \<times> nat set \<Rightarrow> bool" where
  "runs reuse x = (case x of (s, es, inside, given) \<Rightarrow> stack_run reuse s es inside given)"

lemma act_run: "runs reuse x \<Longrightarrow> act reuse a x = Some y \<Longrightarrow> runs reuse y"
proof -
  assume r: "runs reuse x" and y: "act reuse a x = Some y"
  obtain s es inside given where x: "x = (s, es, inside, given)" by (cases x)
  have r: "stack_run reuse s es inside given" using r by (simp add: runs_def x)
  obtain s' fs where st: "stack_step a s = Some (s', fs)" using y by (auto simp: x split: option.splits)
  show ?thesis
  proof (cases "\<exists>t n. a = CallAdd t n")
    case True
    then obtain t n where a: "a = CallAdd t n" by blast
    then have "n \<noteq> 0 \<and> n \<notin> inside \<and> (reuse \<or> n \<notin> given)" and "y = (s', es @ fs, insert n inside, insert n given)"
      using y st by (auto simp: x split: if_splits)
    then show ?thesis using stack_run.call [OF r] st a by (simp add: runs_def)
  next
    case False
    then have "y = (s', es @ fs, left_inside s fs inside, given)" using y st by (cases a) (simp_all add: x del: stack_step.simps)
    then show ?thesis using stack_run.go [OF r _ st] False by (simp add: runs_def)
  qed
qed

lemma play_run: "runs reuse x \<Longrightarrow> play reuse as x = Some y \<Longrightarrow> runs reuse y"
proof (induction as arbitrary: x)
  case (Cons a as)
  obtain z where z: "act reuse a x = Some z" "play reuse as z = Some y" using Cons.prems(2) by (cases "act reuse a x") simp_all
  show ?case by (rule Cons.IH [OF act_run [OF Cons.prems(1) z(1)] z(2)])
qed simp

definition no_threads :: stack_sys where
  "no_threads = \<lparr>shead = 0, snext = (\<lambda>_. 0), at_place = (\<lambda>_. Outside)\<rparr>"

definition push_all :: "nat \<Rightarrow> nat \<Rightarrow> action list" where
  "push_all t n = [CallAdd t n, GoAdd t True, GoAdd t True]"

definition pop_all :: "nat \<Rightarrow> action list" where
  "pop_all t = [CallFetch t, GoFetch t True, GoFetch t True, GoFetch t True]"

text \<open>Thread 1 is about to exchange when thread 0 takes both nodes and gives the first one back.\<close>

definition aba :: "action list" where
  "aba = push_all 0 16 @ push_all 0 8 @ [CallFetch 1, GoFetch 1 True, GoFetch 1 True] @ pop_all 0 @ pop_all 0 @ push_all 0 8 @
     [GoFetch 1 True] @ pop_all 0"

lemma aba_plays: "\<exists>s. play True aba (no_threads, [], {}, {}) =
  Some (s, [Pushed 16, Pushed 8, Popped 8, Popped 16, Pushed 8, Popped 8, Popped 16], {}, {8, 16})"
  by (simp add: aba_def push_all_def pop_all_def no_threads_def add_to_queue_def fetch_from_queue_def insert_commute)

lemma run_no_threads: "runs reuse (no_threads, [], {}, {})"
  unfolding no_threads_def runs_def by (simp add: stack_run.start)

text \<open>Thread 0 then takes a node from what ought to be the empty stack.\<close>

lemma aba_run: "\<exists>s es inside given. stack_run True s es inside given \<and> replay_events es [] = None"
proof -
  obtain s where "play True aba (no_threads, [], {}, {}) =
    Some (s, [Pushed 16, Pushed 8, Popped 8, Popped 16, Pushed 8, Popped 8, Popped 16], {}, {8, 16})" using aba_plays by blast
  from play_run [OF run_no_threads this] show ?thesis unfolding runs_def by (simp, intro exI conjI) (assumption, simp)
qed

end
