(* ===== verification/Spec2Isabelle.thy ===== *)
theory Spec2Isabelle
  imports CacheAlloc Sched ListNode Format InodeDir PathSpec FileSpec PageSpec BootPt SysSpec SpawnSpec RBSpec RBErase Core LockFree
begin

text \<open>
  A verification development for the teaching kernel of this repository: an AArch64 kernel in C
  with its memory allocator, scheduler, page tables, processes, file system, drivers and system
  calls.  Paths below are relative to \<^verbatim>\<open>src/\<close>, the directory of the kernel.

  \<^bold>\<open>The program.\<close>  \<^verbatim>\<open>kernel/mem.c\<close> gives out pages and blocks.  \<^verbatim>\<open>common/\<close> has lists, red-black trees,
  strings, bitmaps, spinlocks and semaphores.  \<^verbatim>\<open>kernel/sched.c\<close> chooses the process that runs and
  uses the timers of \<^verbatim>\<open>kernel/cpu.c\<close>; \<^verbatim>\<open>common/sem.c\<close> puts processes to sleep and wakes them through it.
  \<^verbatim>\<open>kernel/pt.c\<close> and \<^verbatim>\<open>kernel/paging.c\<close> build address spaces; \<^verbatim>\<open>kernel/proc.c\<close> makes, ends and waits for
  processes.  The file system is a stack: \<^verbatim>\<open>driver/virtio_blk.c\<close> moves sectors,
  \<^verbatim>\<open>fs/block_device.c\<close> names them, \<^verbatim>\<open>fs/cache.c\<close> caches blocks and makes groups of writes atomic with a
  log, \<^verbatim>\<open>fs/inode.c\<close> builds files, directories and paths from blocks, \<^verbatim>\<open>fs/file.c\<close> and \<^verbatim>\<open>fs/pipe.c\<close>
  build open files from these.  \<^verbatim>\<open>kernel/sysfile.c\<close>, \<^verbatim>\<open>kernel/sysproc.c\<close> and \<^verbatim>\<open>kernel/exec.c\<close> are the
  system calls over all that, \<^verbatim>\<open>kernel/syscall.c\<close> and \<^verbatim>\<open>aarch64/trap.c\<close> lead from a trap to them, and
  \<^verbatim>\<open>kernel/core.c\<close> starts the first process.

  \<^bold>\<open>Conventions\<close> (theory \<open>Prelude\<close>, \<open>Basics\<close>).  A call has an \<open>outcome\<close>: \<open>Ok\<close> with its result,
  \<open>Panic\<close> for \<^verbatim>\<open>PANIC\<close> and a failed \<^verbatim>\<open>ASSERT\<close>, \<open>Undef\<close> for what C leaves undefined (a null pointer,
  an access past an object), \<open>Blocked\<close> for a call that waits for a lock or an event that does not
  come within the call.  State is passed explicitly in records named after the C structures;
  \<open>andthen\<close> puts calls one after the other, \<open>for_each\<close> is a loop over a list.  Machine integers are
  words where they can wrap around.  A spinlock is one flag, taken and given back as a whole.  A
  pointer is the address or the index of its object, 0 or \<open>None\<close> is \<^verbatim>\<open>NULL\<close>; a list behind a sentinel
  is a list, and \<open>ListNode\<close> shows on the pointers that the operations of \<^verbatim>\<open>common/list.c\<close> do that.

  \<^bold>\<open>Theories and sources.\<close>
  \<^item> \<open>Basics\<close>: \<^verbatim>\<open>defines.h\<close>, \<^verbatim>\<open>spinlock.c\<close>, \<^verbatim>\<open>rc.c\<close>, \<^verbatim>\<open>bitmap.h\<close>.  \<open>CString\<close>: \<^verbatim>\<open>string.c\<close>.  \<open>Format\<close>:
    \<^verbatim>\<open>format.c\<close>.  \<open>ListNode\<close>, \<open>LockFree\<close>: \<^verbatim>\<open>list.c\<close>.  \<open>RBTree\<close>: \<^verbatim>\<open>rbtree.c\<close>, with what insertion and
    erasure do in \<open>RBSpec\<close> and \<open>RBErase\<close>.  \<open>Sem\<close>: \<^verbatim>\<open>sem.c\<close> under its lock.
  \<^item> \<open>Mem\<close>: \<^verbatim>\<open>mem.c\<close>; \<open>MemSpec\<close>: its invariant and its contract.  \<open>Sched\<close>: \<^verbatim>\<open>sched.c\<close> and the timer
    calls it makes.  \<open>Timers\<close>: \<^verbatim>\<open>cpu.c\<close>, \<^verbatim>\<open>clock.c\<close>, \<^verbatim>\<open>timer.c\<close> on the red-black trees.
  \<^item> \<open>Virtio\<close>, \<open>Device\<close>: \<^verbatim>\<open>virtio_blk.c\<close>, \<^verbatim>\<open>block_device.c\<close>.  \<open>Devices\<close>: \<^verbatim>\<open>gicv3.c\<close>, \<^verbatim>\<open>interrupt.c\<close>,
    \<^verbatim>\<open>uart.c\<close> and \<^verbatim>\<open>virtio_init\<close>.  \<open>Console\<close>: \<^verbatim>\<open>console.c\<close>.
  \<^item> \<open>FsDefs\<close>: \<^verbatim>\<open>fs/defines.h\<close>.  \<open>Cache\<close>: \<^verbatim>\<open>cache.c\<close>; \<open>CacheSpec\<close> is the abstract cache, a map from blocks
    to contents, that the operations refine; \<open>CacheLog\<close> has the log, commits and recovery, \<open>CacheAlloc\<close>
    the bitmap.  \<open>BlockCache\<close> is the table of operations that \<^verbatim>\<open>inode.c\<close> gets, with the locale of its
    laws and its interpretation on \<open>Cache\<close>.
  \<^item> \<open>Inode\<close>, \<open>InodeFile\<close>: \<^verbatim>\<open>inode.c\<close>; \<open>InodeSpec\<close>, \<open>InodeWrite\<close>, \<open>InodeDir\<close>, \<open>PathSpec\<close>: reading,
    writing, directories, paths.  \<open>Pipe\<close>: \<^verbatim>\<open>pipe.c\<close>.  \<open>File\<close>: \<^verbatim>\<open>file.c\<close>; \<open>FileSpec\<close>: reference counts.
  \<^item> \<open>PageTable\<close>: \<^verbatim>\<open>pt.c\<close>; \<open>PageSpec\<close>: page directories as maps.  \<open>BootPt\<close>: \<^verbatim>\<open>kernel_pt.c\<close>.  \<open>Paging\<close>:
    \<^verbatim>\<open>paging.c\<close>.  \<open>ProcDefs\<close>, \<open>Proc\<close>, \<open>Lifecycle\<close>: \<^verbatim>\<open>proc.h\<close> and \<^verbatim>\<open>proc.c\<close>; \<open>ProcSpec\<close>, \<open>TreeSpec\<close>,
    \<open>ExitSpec\<close>, \<open>SpawnSpec\<close>: the tree of processes under wait, kill, exit and creation.
  \<^item> \<open>SysFile\<close>, \<open>SysPath\<close>: \<^verbatim>\<open>sysfile.c\<close>; \<open>SysSpec\<close>: descriptors and mappings.  \<open>Exec\<close>: \<^verbatim>\<open>exec.c\<close>.
    \<open>Traps\<close>: \<^verbatim>\<open>syscall.c\<close>, \<^verbatim>\<open>sysproc.c\<close>, \<^verbatim>\<open>trap.c\<close>; \<open>TrapSpec\<close>: the table and the registers.
    \<open>Core\<close>: \<^verbatim>\<open>core.c\<close>, \<^verbatim>\<open>printk.c\<close> and the set-up of the scheduler.

  \<^bold>\<open>What the lemmas show.\<close>  The log: with \<open>wlog\<close>, the list of all block writes, a commit and a
  recovery that stop after any number of writes leave all or nothing of an operation (C1 to C5).  The
  bitmap, a call that does not wait for its log, the disk and its descriptors (C6 to C9).  The scheduler keeps its invariant and lets no
  runnable process starve (C10, C11).  Red-black trees, timers, the interrupt controller, lists and the
  lock-free stack (C12 to C18).  Inodes, directories, paths (C19 to C22), numbers and the console, the
  allocator, pipes and files (C23 to C30), page tables (C31 to C33), processes and system calls (C34 to
  C40).  The locales state what one part relies on in another; each is interpreted on the model of the
  code in the theory that provides it.

  \<^bold>\<open>Bounds.\<close>  Loops are functions with a termination proof.  Where the code may loop for ever, a bound
  is an argument and running out of it is \<open>Blocked\<close>: the rounds on a red-black tree (the height is
  enough, see \<open>rb_search_logarithmic\<close>), the levels of the process tree (the number of processes is
  enough), the rounds over the regions of a process (\<open>NVMA + 2\<close>, as every round takes a region), the
  polls of a device and the calls of \<open>panic\<close> within itself, of which no number is enough.

  \<^bold>\<open>Assumed.\<close>  Parameters of the model are what is not in the repository or is hardware: what a device
  does on an access, the transfer of a disk request, the counter of the clock, the numbers and
  structures of the C library, the layout of ELF files, \<^verbatim>\<open>syscall_myreport\<close> of the tests, and what fresh
  memory holds.  A call of the file layer runs without interleaving with others, except where a
  machine of threads is stated (\<open>Sem\<close>, \<open>Sched\<close>, \<open>Pipe\<close>, \<open>LockFree\<close>, \<open>Virtio\<close>).

  \<^bold>\<open>Not modelled.\<close>  The assembly (entry, switch, exception vector) and the intrinsics; \<^verbatim>\<open>main\<close> and
  \<^verbatim>\<open>init_filesystem\<close>, which only call the initialisers; the loop of \<^verbatim>\<open>kernel_entry\<close> that waits for orphans,
  as it stores through a null pointer; the messages that the kernel prints; caches and barriers;
  \<^verbatim>\<open>init_bitmap\<close>, which has no body; the acquisition counter of \<^verbatim>\<open>checker.h\<close>; the tests; unused headers;
  the files of CMake; the C library and the user programs.
\<close>

section \<open>Concrete states\<close>

text \<open>
  A small file system in the middle of an operation that has changed block 200, and a
  scheduler with four idle processes and one process that has waited.
\<close>

definition demo_sb :: super_block where
  "demo_sb = \<lparr>num_blocks = 1000, num_data_blocks = 800, num_inodes = 100, num_log_blocks = 64,
     log_start = 2, inode_start = 66, bitmap_start = 100\<rparr>"

definition demo_idle :: cache_sys where
  "demo_idle = \<lparr>sblock = demo_sb, store = (\<lambda>_. zero_block), wlog = [], lru = [], blocks = (\<lambda>_. fresh_block),
     cached_block_count = 0, clock = False, bitlock = False, loglock = False,
     header = \<lparr>hnum = 0, hblocks = replicate LOG_MAX_SIZE 0\<rparr>, outstanding = 0, committing = False,
     log_sem = init_sem 0\<rparr>"

definition demo_busy :: cache_sys where
  "demo_busy = demo_idle\<lparr>lru := [200], cached_block_count := 1, outstanding := 1,
     blocks := (\<lambda>_. fresh_block\<lparr>pinned := True, valid := True, data := replicate BLOCK_SIZE 7\<rparr>),
     header := \<lparr>hnum = 1, hblocks = 200 # replicate (LOG_MAX_SIZE - 1) 0\<rparr>\<rparr>"

definition demo_held :: cache_sys where
  "demo_held = demo_idle\<lparr>lru := [200], cached_block_count := 1, outstanding := 1,
     blocks := (\<lambda>_. fresh_block\<lparr>acquired := True, block_lock := \<lparr>sval = 0, sleeplist = []\<rparr>, valid := True\<rparr>)\<rparr>"

lemma decode_zero_block: "hnum (decode_header zero_block) = 0"
  by (simp add: decode_header_def zero_block_def BLOCK_SIZE_def numeral_eq_Suc)

lemma demo_idle_ok: "log_ok demo_idle" "aheld (abs_cache demo_idle) = {}"
  by (simp_all add: demo_idle_def log_ok_def cache_ok_def header_ok_def logged_def abs_cache_def
      decode_zero_block sem_ok_init)

lemma demo_busy_ok: "log_ok demo_busy" "aheld (abs_cache demo_busy) = {}" "outstanding demo_busy = 1"
  by (auto simp: demo_busy_def demo_idle_def log_ok_def cache_ok_def header_ok_def logged_def abs_cache_def
      decode_zero_block sem_ok_init block_ok_def fresh_block_def sleeplock_facts(1) demo_sb_def log_area_def
      LOG_MAX_SIZE_def BLOCK_SIZE_def)

lemma demo_held_ok: "op_ok \<lparr>rm = 10\<rparr> demo_held" "aheld (abs_cache demo_held) = {200}"
  "apin (abs_cache demo_held) = {}" "200 \<notin> log_area (sblock demo_held)"
  by (auto simp: demo_held_def demo_idle_def op_ok_def log_ok_def cache_ok_def header_ok_def logged_def
      abs_cache_def decode_zero_block sem_ok_init block_ok_def fresh_block_def sleeplock_held_def demo_sb_def
      log_area_def LOG_MAX_SIZE_def BLOCK_SIZE_def)

definition demo_sched :: sched_sys where
  "demo_sched = \<lparr>
     procs = (\<lambda>p. if p \<in> {1, 2, 3, 4} then \<lparr>state = RUNNING, wait_time = 0, killed = False\<rparr>
                  else if p = 5 then \<lparr>state = RUNNABLE, wait_time = 1, killed = False\<rparr>
                  else \<lparr>state = UNUSED, wait_time = 0, killed = False\<rparr>),
     rq = [5], rqlock = False, thisproc = (\<lambda>c. c + 1), idle = (\<lambda>c. c + 1),
     sched_timer = (\<lambda>_. \<lparr>triggered = True, elapse = 15, tkey = 0, queued = False\<rparr>)\<rparr>"

lemma less_NCPU: "c < NCPU \<longleftrightarrow> c = 0 \<or> c = 1 \<or> c = 2 \<or> c = 3"
  by (auto simp: NCPU_def)

lemma demo_sched_ok: "sched_inv demo_sched"
  by (auto simp: sched_inv_def demo_sched_def less_NCPU idles_def RQ_SHADOW_def inj_on_def)

lemma demo_sched_simps [simp]:
  "rq demo_sched = [5]" "\<not> rqlock demo_sched" "state (procs demo_sched 5) = RUNNABLE"
  "wait_time (procs demo_sched 5) = 1" "state (procs demo_sched 6) = UNUSED" "6 \<notin> idles demo_sched"
  by (auto simp: demo_sched_def idles_def NCPU_def)

section \<open>The file system's log\<close>

text \<open>
  C1: Ending the last running operation is atomic with respect to crashes: cache_end_op returns, and if the machine stops after any number k of the block writes it makes and init_bcache runs on what the device then holds, with any contents of memory, then init_bcache returns and every block outside the log area reads either, for all blocks, as it did on the device before the operation, or, for all blocks, as the operation left it.
\<close>

theorem end_op_crash_safe:
  assumes "log_ok s" and "aheld (abs_cache s) = {}" and "outstanding s = 1"
  shows "\<exists>s1 ws. cache_end_op s = Ok s1 \<and> wlog s1 = wlog s @ ws \<and>
    (\<forall>k t. store t = replay (take k ws) (store s) \<longrightarrow>
      (\<exists>t1. init_bcache (sblock s) t = Ok t1 \<and> log_ok t1 \<and>
        ((\<forall>n. n \<notin> log_area (sblock s) \<longrightarrow> aview (abs_cache t1) n = store s n) \<or>
         (\<forall>n. n \<notin> log_area (sblock s) \<longrightarrow> aview (abs_cache t1) n = aview (abs_cache s) n))))"
proof -
  obtain s1 where s1: "cache_end_op s = Ok s1" "wlog s1 = wlog s @ commit_writes s"
    using end_op_commits [OF assms] by blast
  have "\<exists>t1. init_bcache (sblock s) t = Ok t1 \<and> log_ok t1 \<and>
        ((\<forall>n. n \<notin> log_area (sblock s) \<longrightarrow> aview (abs_cache t1) n = store s n) \<or>
         (\<forall>n. n \<notin> log_area (sblock s) \<longrightarrow> aview (abs_cache t1) n = aview (abs_cache s) n))"
    if t: "store t = replay (take k (commit_writes s)) (store s)" for k t
  proof -
    have "log_start (sblock s) + LOG_MAX_SIZE + 1 \<notin> log_area (sblock s)" by (simp add: log_area_def)
    then have "recoverable (sblock s) (store t)" unfolding t by (rule crash_atomic(2) [OF assms(1,2)])
    then obtain t1 where "init_bcache (sblock s) t = Ok t1" "log_ok t1"
      "aview (abs_cache t1) = recovered (sblock s) (store t)" using init_bcache_recovers by metis
    then show ?thesis using crash_atomic(1) [OF assms(1,2), of _ k] unfolding t
      by (cases "k \<le> hnum (header s)") auto
  qed
  with s1 show ?thesis by blast
qed

corollary end_op_crash_safe_witness:
  "\<exists>s1 ws. cache_end_op demo_busy = Ok s1 \<and> wlog s1 = wlog demo_busy @ ws \<and>
    (\<forall>k t. store t = replay (take k ws) (store demo_busy) \<longrightarrow>
      (\<exists>t1. init_bcache (sblock demo_busy) t = Ok t1 \<and> log_ok t1 \<and>
        ((\<forall>n. n \<notin> log_area (sblock demo_busy) \<longrightarrow> aview (abs_cache t1) n = store demo_busy n) \<or>
         (\<forall>n. n \<notin> log_area (sblock demo_busy) \<longrightarrow> aview (abs_cache t1) n = aview (abs_cache demo_busy) n))))"
  by (rule end_op_crash_safe [OF demo_busy_ok])

text \<open>
  C2: Recovery can itself be interrupted: if the machine stops after any number of the writes init_bcache makes and init_bcache runs again on what the device then holds, every block outside the log area reads as after an uninterrupted recovery.
\<close>

theorem recovery_crash_safe:
  assumes "recoverable sb (store s)"
  shows "\<exists>s1 ws. init_bcache sb s = Ok s1 \<and> wlog s1 = wlog s @ ws \<and>
    (\<forall>k t. store t = replay (take k ws) (store s) \<longrightarrow>
      (\<exists>t1. init_bcache sb t = Ok t1 \<and>
        (\<forall>n. n \<notin> log_area sb \<longrightarrow> aview (abs_cache t1) n = aview (abs_cache s1) n)))"
proof -
  obtain s1 where s1: "init_bcache sb s = Ok s1" "wlog s1 = wlog s @ recovery_writes sb (store s)"
    "aview (abs_cache s1) = recovered sb (store s)" using init_bcache_recovers [OF assms] by auto
  have "\<exists>t1. init_bcache sb t = Ok t1 \<and>
      (\<forall>n. n \<notin> log_area sb \<longrightarrow> aview (abs_cache t1) n = aview (abs_cache s1) n)"
    if t: "store t = replay (take k (recovery_writes sb (store s))) (store s)" for k t
  proof -
    have "log_start sb + LOG_MAX_SIZE + 1 \<notin> log_area sb" by (simp add: log_area_def)
    then have "recoverable sb (store t)" unfolding t by (rule recovery_idempotent(2) [OF assms])
    then obtain t1 where "init_bcache sb t = Ok t1" "aview (abs_cache t1) = recovered sb (store t)"
      using init_bcache_recovers by metis
    then show ?thesis using recovery_idempotent(1) [OF assms] s1(3) t by auto
  qed
  with s1 show ?thesis by blast
qed

corollary recovery_crash_safe_witness:
  "\<exists>s1 ws. init_bcache demo_sb demo_idle = Ok s1 \<and> wlog s1 = wlog demo_idle @ ws \<and>
    (\<forall>k t. store t = replay (take k ws) (store demo_idle) \<longrightarrow>
      (\<exists>t1. init_bcache demo_sb t = Ok t1 \<and>
        (\<forall>n. n \<notin> log_area demo_sb \<longrightarrow> aview (abs_cache t1) n = aview (abs_cache s1) n)))"
  by (rule recovery_crash_safe) (simp add: recoverable_def demo_idle_def decode_zero_block)

text \<open>
  C3: When the last running operation ends, every block outside the log area holds on the device exactly what the cache showed for it, no block stays pinned, the log is empty again and the invariant of the log holds.
\<close>

theorem end_op_persists:
  assumes "log_ok s" and "aheld (abs_cache s) = {}" and "outstanding s = 1"
  shows "\<exists>s'. cache_end_op s = Ok s' \<and> log_ok s' \<and> outstanding s' = 0 \<and> hnum (header s') = 0 \<and>
    apin (abs_cache s') = {} \<and>
    (\<forall>n. n \<notin> log_area (sblock s) \<longrightarrow>
      store s' n = aview (abs_cache s) n \<and> aview (abs_cache s') n = aview (abs_cache s) n)"
proof -
  obtain s' where s': "cache_end_op s = Ok s'" "cache_ok s'" "aheld (abs_cache s') = {}" "apin (abs_cache s') = {}"
    "\<forall>n. n \<notin> log_area (sblock s) \<longrightarrow> aview (abs_cache s') n = aview (abs_cache s) n"
    using end_op_commits [OF assms] by blast
  with log_ok_end_op [OF assms] show ?thesis using view_clean [OF s'(2)] by auto
qed

corollary end_op_persists_witness:
  "\<exists>s'. cache_end_op demo_busy = Ok s' \<and> log_ok s' \<and> outstanding s' = 0 \<and> hnum (header s') = 0 \<and>
    apin (abs_cache s') = {} \<and>
    (\<forall>n. n \<notin> log_area (sblock demo_busy) \<longrightarrow>
      store s' n = aview (abs_cache demo_busy) n \<and> aview (abs_cache s') n = aview (abs_cache demo_busy) n)"
  by (rule end_op_persists [OF demo_busy_ok])

text \<open>
  C4: Inside an operation that still has room, changing a held block and calling cache_sync and cache_release returns: the block reads as changed, no other block does, the lock is given back, nothing is written to the device, the block is in the log exactly once, and the operation has used up one of its blocks exactly when the block was not logged before.
\<close>

theorem update_in_operation:
  assumes "op_ok c s" and "n \<in> aheld (abs_cache s)" and "length bs = BLOCK_SIZE"
    and "n \<notin> log_area (sblock s)" and "n < 2 ^ 64" and "0 < rm c"
  shows "\<exists>c' s1 s'. cache_sync (Some c) n (set_block_data n bs s) = Ok (Some c', s1) \<and>
    cache_release n s1 = Ok s' \<and> op_ok c' s' \<and> store s' = store s \<and> wlog s' = wlog s \<and>
    aview (abs_cache s') = (aview (abs_cache s))(n := bs) \<and>
    aheld (abs_cache s') = aheld (abs_cache s) - {n} \<and>
    n \<in> set (logged (header s')) \<and> distinct (logged (header s')) \<and>
    rm c' = (if n \<in> set (logged (header s)) then rm c else rm c - 1)"
proof -
  have "n \<in> set (logged (header s)) \<or> 0 < rm c" using assms(6) by simp
  from op_update [OF assms(1-5) this] obtain c' s1 s' where
    "cache_sync (Some c) n (set_block_data n bs s) = Ok (Some c', s1)" "cache_release n s1 = Ok s'"
    "op_ok c' s'" "same_disk s s'" "aview (abs_cache s') = (aview (abs_cache s))(n := bs)"
    "aheld (abs_cache s') = aheld (abs_cache s) - {n}"
    "set (logged (header s')) = insert n (set (logged (header s)))"
    "rm c' = (if n \<in> set (logged (header s)) then rm c else rm c - 1)" by blast
  then show ?thesis by (intro exI [of _ c'] exI [of _ s1] exI [of _ s'])
      (simp add: same_disk_def op_ok_def log_ok_def)
qed

corollary update_in_operation_witness:
  "\<exists>c' s1 s'. cache_sync (Some \<lparr>rm = 10\<rparr>) 200 (set_block_data 200 zero_block demo_held) = Ok (Some c', s1) \<and>
    cache_release 200 s1 = Ok s' \<and> op_ok c' s' \<and> store s' = store demo_held \<and> wlog s' = wlog demo_held \<and>
    aview (abs_cache s') = (aview (abs_cache demo_held))(200 := zero_block) \<and>
    aheld (abs_cache s') = aheld (abs_cache demo_held) - {200} \<and>
    200 \<in> set (logged (header s')) \<and> distinct (logged (header s')) \<and>
    rm c' = (if 200 \<in> set (logged (header demo_held)) then rm \<lparr>rm = 10\<rparr> else rm \<lparr>rm = 10\<rparr> - 1)"
  by (rule update_in_operation) (use demo_held_ok in simp_all)

text \<open>
  C5: The log never overflows: cache_begin_op returns only when ten more blocks fit beside the blocks reserved for the operations already running, and then a cache_sync of a held block by any running operation panics only if that operation has already logged its ten blocks.
\<close>

theorem log_room_reserved:
  assumes "log_ok s" and "ops_room s cs" and "cache_begin_op s = Ok (c, s')"
  shows "ops_room s' (c # cs) \<and> log_ok s' \<and> rm c = OP_MAX_NUM_BLOCKS \<and>
    (\<forall>d n. d \<in> set (c # cs) \<longrightarrow> n \<in> aheld (abs_cache s') \<longrightarrow> n \<notin> log_area (sblock s') \<longrightarrow> n < 2 ^ 64 \<longrightarrow>
      (cache_sync (Some d) n s' = Panic \<longleftrightarrow> rm d = 0 \<and> n \<notin> set (logged (header s'))))"
proof -
  have room: "ops_room s' (c # cs)" by (rule begin_op_room [OF assms])
  have l: "log_ok s'" "rm c = OP_MAX_NUM_BLOCKS" using begin_op_spec [OF assms(1,3)] by auto
  have "cache_sync (Some d) n s' = Panic \<longleftrightarrow> rm d = 0 \<and> n \<notin> set (logged (header s'))"
    if "d \<in> set (c # cs)" "n \<in> aheld (abs_cache s')" "n \<notin> log_area (sblock s')" "n < 2 ^ 64" for d n
  proof -
    have ok: "op_ok d s'" by (rule ops_room_op_ok [OF l(1) room that(1)])
    show ?thesis
    proof
      assume p: "cache_sync (Some d) n s' = Panic"
      have "\<not> (n \<in> set (logged (header s')) \<or> 0 < rm d)"
        using op_sync [OF ok that(2-4)] p by auto
      then show "rm d = 0 \<and> n \<notin> set (logged (header s'))" by simp
    next
      assume "rm d = 0 \<and> n \<notin> set (logged (header s'))"
      then show "cache_sync (Some d) n s' = Panic" using op_sync_limit [OF ok that(2)] by simp
    qed
  qed
  with room l show ?thesis by blast
qed

corollary log_room_reserved_witness:
  "\<exists>s'. cache_begin_op demo_idle = Ok (\<lparr>rm = 10\<rparr>, s') \<and> ops_room s' [\<lparr>rm = 10\<rparr>] \<and> log_ok s'"
proof -
  obtain s' where "cache_begin_op demo_idle = Ok (\<lparr>rm = OP_MAX_NUM_BLOCKS\<rparr>, s')"
    using begin_op_returns [OF demo_idle_ok(1)] by (auto simp: demo_idle_def OP_MAX_NUM_BLOCKS_def fs_sizes)
  then have b: "cache_begin_op demo_idle = Ok (\<lparr>rm = 10\<rparr>, s')" by (simp add: OP_MAX_NUM_BLOCKS_def)
  have "ops_room demo_idle []" by (simp add: ops_room_def demo_idle_def)
  from log_room_reserved [OF demo_idle_ok(1) this b] b show ?thesis by auto
qed

text \<open>
  C6: cache_alloc returns the lowest block number whose bit in the bitmap on the disk is clear, sets that bit and no other, hands the block out filled with zeros, changes no other block, holds no block afterwards, writes nothing to the device and uses up at most two blocks of the operation.
\<close>

theorem alloc_takes_least_free:
  assumes "op_ok c s" and "2 \<le> rm c" and "bitmap_ok (sblock s) (aview (abs_cache s))" and "\<not> bitlock s"
    and "aheld (abs_cache s) = {}" and "least_free (sblock s) (aview (abs_cache s)) b"
  shows "\<exists>c' s'. cache_alloc (Some c) s = Ok (b, Some c', s') \<and> op_ok c' s' \<and> store s' = store s \<and> \<not> bitlock s' \<and>
    aheld (abs_cache s') = {} \<and> rm c \<le> rm c' + 2 \<and> aview (abs_cache s') b = zero_block \<and>
    (\<forall>d<num_blocks (sblock s). block_used (sblock s) (aview (abs_cache s')) d \<longleftrightarrow>
       d = b \<or> block_used (sblock s) (aview (abs_cache s)) d) \<and>
    (\<forall>n. n \<noteq> b \<longrightarrow> n \<noteq> bm_block (sblock s) b \<longrightarrow> aview (abs_cache s') n = aview (abs_cache s) n)"
proof -
  let ?sb = "sblock s" and ?v = "aview (abs_cache s)"
  obtain c' s' where a: "cache_alloc (Some c) s = Ok (b, Some c', s')" "op_ok c' s'" "same_disk s s'"
    "aview (abs_cache s') = (mark_used ?sb ?v b)(b := zero_block)" "aheld (abs_cache s') = {}" "rm c \<le> rm c' + 2"
    using alloc_spec [OF assms(1-4) _ _ assms(6)] assms(5) by auto
  have b: "b < num_blocks ?sb" "\<not> block_used ?sb ?v b" using assms(6) by (auto simp: least_free_def)
  have nd: "disk_bits ?sb ?v = num_blocks ?sb" using op_view_length [OF assms(1)] by (simp add: disk_bits_def)
  have bm: "bm_block ?sb d \<noteq> b" if "d < num_blocks ?sb" for d
    using assms(3) b that by (auto simp: bitmap_ok_def)
  have "block_used ?sb (aview (abs_cache s')) d \<longleftrightarrow> d = b \<or> block_used ?sb ?v d" if d: "d < num_blocks ?sb" for d
  proof -
    have "block_used ?sb (aview (abs_cache s')) d = block_used ?sb (mark_used ?sb ?v b) d"
      using bm [OF d] by (simp add: a(4) block_used_def)
    then show ?thesis using disk_map.bget_bset [of b ?sb ?v d] b d nd by simp
  qed
  with a assms(4) show ?thesis
    by (intro exI [of _ c'] exI [of _ s']) (simp add: same_disk_def mark_used_def)
qed

definition demo_bitmap :: cache_sys where
  "demo_bitmap = demo_idle\<lparr>sblock := demo_sb\<lparr>num_blocks := 16, log_start := 1000, bitmap_start := 2000\<rparr>,
     outstanding := 1, store := (\<lambda>_. zero_block)(2000 := 1 # replicate 511 0)\<rparr>"

lemma demo_bitmap_view: "aview (abs_cache demo_bitmap) = (\<lambda>_. zero_block)(2000 := 1 # replicate 511 0)"
  by (simp add: demo_bitmap_def demo_idle_def abs_cache_def fun_eq_iff)

lemma demo_bitmap_ok: "op_ok \<lparr>rm = 10\<rparr> demo_bitmap" "aheld (abs_cache demo_bitmap) = {}" "\<not> bitlock demo_bitmap"
  "num_blocks (sblock demo_bitmap) = 16"
  by (simp_all add: demo_bitmap_def demo_idle_def op_ok_def log_ok_def cache_ok_def header_ok_def logged_def
      abs_cache_def decode_zero_block sem_ok_init demo_sb_def BLOCK_SIZE_def LOG_MAX_SIZE_def)

lemma demo_bitmap_used: "d < 16 \<Longrightarrow> block_used (sblock demo_bitmap) (aview (abs_cache demo_bitmap)) d = (d = 0)"
proof -
  assume d: "d < 16"
  have b: "bm_block (sblock demo_bitmap) d = 2000"
    using d by (simp add: bm_block_def demo_bitmap_def demo_idle_def fs_sizes)
  have m: "bm_idx d = d div 8" "bm_off d = d mod 8" using d by (simp_all add: bm_idx_def bm_off_def fs_sizes)
  have i: "d div 8 < 512" using d by simp
  show ?thesis unfolding block_used_def b m demo_bitmap_view
    using i by (cases "d div 8") (auto simp: bit_1_iff)
qed

lemma demo_bitmap_geometry:
  "bitmap_ok (sblock demo_bitmap) (aview (abs_cache demo_bitmap))"
  "least_free (sblock demo_bitmap) (aview (abs_cache demo_bitmap)) 1"
proof -
  have "bm_block (sblock demo_bitmap) d = 2000" if "d < 16" for d
    using that by (simp add: bm_block_def demo_bitmap_def demo_idle_def fs_sizes)
  moreover have "log_area (sblock demo_bitmap) = {1000..1063}"
    by (simp add: log_area_def demo_bitmap_def demo_idle_def fs_sizes)
  ultimately show "bitmap_ok (sblock demo_bitmap) (aview (abs_cache demo_bitmap))"
    unfolding bitmap_ok_def demo_bitmap_ok(4) by auto
  show "least_free (sblock demo_bitmap) (aview (abs_cache demo_bitmap)) 1"
    unfolding least_free_def demo_bitmap_ok(4) using demo_bitmap_used by auto
qed

corollary alloc_takes_least_free_witness:
  "\<exists>c' s'. cache_alloc (Some \<lparr>rm = 10\<rparr>) demo_bitmap = Ok (1, Some c', s') \<and> op_ok c' s' \<and> aview (abs_cache s') 1 = zero_block"
  using alloc_takes_least_free [OF demo_bitmap_ok(1) _ demo_bitmap_geometry(1) demo_bitmap_ok(3) demo_bitmap_ok(2)
      demo_bitmap_geometry(2)] by auto



text \<open>
  C8: The block device on a medium whose sectors keep what was last written to them behaves as a map from block numbers to blocks: after any sequence of sd_writes of whole blocks, sd_read of a block gives what was last written to it, and its old content when it was not written; 32-bit addition of the partition offset never makes two block numbers share a sector.
\<close>

theorem sd_card_refines_map:
  assumes "\<forall>(n, bs)\<in>set ws. n < 2 ^ 32 \<and> length bs = BLOCK_SIZE" and "m < 2 ^ 32"
  shows "fst (sd_read sector_transfer junk m (fold (\<lambda>(n, bs). sd_write sector_transfer n bs) ws d)) =
    (case map_of (rev ws) m of None \<Rightarrow> fst (sd_read sector_transfer junk m d) | Some bs \<Rightarrow> bs)"
proof -
  have "fold (\<lambda>(n, bs). sd_write sector_transfer n bs) ws d = sd.write_all ws d" for ws d
    by (induction ws arbitrary: d) auto
  then show ?thesis
    using sd.contents_write_all [OF assms, of junk d] unfolding sd.contents_def by (simp split: option.splits)
qed

corollary sd_card_refines_map_witness:
  "fst (sd_read sector_transfer [] 1 (fold (\<lambda>(n, bs). sd_write sector_transfer n bs) [(1, zero_block)] (\<lambda>_. []))) = zero_block"
  using sd_card_refines_map [of "[(1, zero_block)]" 1 "[]" "\<lambda>_. []"] by simp

section \<open>The disk driver\<close>

text \<open>
  C9: However requests are submitted and finished, in any order, the sixteen descriptors of the disk are shared out exactly between the free list and the requests in flight, three for each: there are never more than five requests, and submitting one panics exactly when five are in flight.
\<close>

theorem virtio_five_requests:
  assumes "virtq_run q reqs"
  shows "length reqs \<le> 5 \<and> nfree q + 3 * length reqs = NQUEUE \<and> distinct (concat (map desc_of reqs)) \<and>
    (submit_request rd hdr dat stat q = Panic \<longleftrightarrow> length reqs = 5) \<and>
    (\<forall>a b c. (a, b, c) \<in> set reqs \<longrightarrow> (\<exists>q'. finish_request a q = Some q'))"
proof -
  obtain free where ok: "virtq_ok q free reqs" using virtq_run_ok [OF assms] by blast
  have "\<exists>q'. finish_request a q = Some q'" if "(a, b, c) \<in> set reqs" for a b c
    using virtq_ok_finish [OF virtq_ok_reqs_perm [OF ok that]] by blast
  then show ?thesis using virtq_capacity [OF assms] ok by (auto simp: virtq_ok_def)
qed

corollary virtio_five_requests_witness:
  "length ([] :: (nat \<times> nat \<times> nat) list) \<le> 5 \<and> nfree virtq_init = NQUEUE"
  using virtio_five_requests [OF virtq_run.start] by simp

section \<open>The scheduler\<close>



text \<open>
  C11: No runnable process starves: once a process in the run queue has been passed over, at most as many further switches of any CPUs as there are runnable processes that have waited at least as long happen before it runs, whatever processes are woken and whatever states the running processes leave in between.
\<close>

theorem sched_no_starvation:
  assumes "sched_inv s" and "\<not> rqlock s" and "p \<in> set (rq s)" and "state (procs s p) = RUNNABLE"
    and "1 \<le> wait_time (procs s p)"
  shows "switches_until p es s \<le>
    card {q \<in> set (rq s). q \<noteq> p \<and> state (procs s q) = RUNNABLE \<and> wait_time (procs s p) \<le> wait_time (procs s q)} + 1"
  using switches_until_rivals [of s p es] assms by (simp add: waiting_def rivals_def)

corollary sched_no_starvation_witness:
  "switches_until 5 [Reschedule 0 7 RUNNABLE, Wake 6 False, Reschedule 1 8 RUNNABLE] demo_sched \<le> 1"
proof -
  have "{q \<in> set (rq demo_sched). q \<noteq> 5 \<and> state (procs demo_sched q) = RUNNABLE \<and>
      wait_time (procs demo_sched 5) \<le> wait_time (procs demo_sched q)} = {}"
    by auto
  then show ?thesis
    using sched_no_starvation [OF demo_sched_ok, of 5 "[Reschedule 0 7 RUNNABLE, Wake 6 False, Reschedule 1 8 RUNNABLE]"]
    by (simp del: switches_until.simps Collect_empty_eq)
qed

section \<open>Semaphores and lists\<close>

section \<open>Red-black trees\<close>

text \<open>
  C12: Inserting a node into a red-black tree that is sorted by a key returns -1 and leaves the tree as it is when the key is there, and otherwise links the node in so that the pointers form again a sorted and balanced red-black tree, with exactly this node more; a bound above the height of the tree is enough for the loops.
\<close>

theorem rb_insert_keeps_tree:
  assumes "rb_wf key t W" and "x \<noteq> 0" and "x \<notin> set (inorder W)" and "rheight W < n"
  shows "if \<exists>a\<in>set (inorder W). key a = key x then \<exists>t'. rb_insert n x (by_key key) t = Ok (- 1, t') \<and> rb_wf key t' W
    else \<exists>t' W'. rb_insert n x (by_key key) t = Ok (0, t') \<and> rb_wf key t' W' \<and> set (inorder W') = insert x (set (inorder W))"
  by (rule rb_insert_spec [OF assms])

definition demo_tree :: rb_tree where
  "demo_tree = \<lparr>rnode = (\<lambda>a. if a = 16 then \<lparr>rbparent = 0, rbblack = True, rbleft = 8, rbright = 24\<rparr>
     else \<lparr>rbparent = 16, rbblack = False, rbleft = 0, rbright = 0\<rparr>), rroot = 16\<rparr>"

lemma demo_tree_wf: "rb_wf (\<lambda>a. a) demo_tree (RN True (RN False RL 8 RL) 16 (RN False RL 24 RL))"
  by (simp add: rb_wf_def holds_def rb_def sorted_by_def demo_tree_def hchild_def)

corollary rb_insert_keeps_tree_witness:
  "(\<exists>t' W'. rb_insert 3 32 (by_key (\<lambda>a. a)) demo_tree = Ok (0, t') \<and> rb_wf (\<lambda>a. a) t' W' \<and> set (inorder W') = {8, 16, 24, 32}) \<and>
   (\<exists>t'. rb_insert 3 26 (by_key (\<lambda>a. a div 8)) demo_tree = Ok (- 1, t'))"
proof
  show "\<exists>t' W'. rb_insert 3 32 (by_key (\<lambda>a. a)) demo_tree = Ok (0, t') \<and> rb_wf (\<lambda>a. a) t' W' \<and> set (inorder W') = {8, 16, 24, 32}"
    using rb_insert_keeps_tree [OF demo_tree_wf, of 32 3] by (auto simp: insert_commute)
  have "rb_wf (\<lambda>a. a div 8) demo_tree (RN True (RN False RL 8 RL) 16 (RN False RL 24 RL))"
    by (simp add: rb_wf_def holds_def rb_def sorted_by_def demo_tree_def hchild_def)
  from rb_insert_keeps_tree [OF this, of 26 3] show "\<exists>t'. rb_insert 3 26 (by_key (\<lambda>a. a div 8)) demo_tree = Ok (- 1, t')" by auto
qed

text \<open>
  C13: Removing any node of a red-black tree, also one with two children whose successor has to take its place, leaves pointers that form a sorted and balanced red-black tree again, in which the other nodes stand in the old order; a bound of the height is enough for the loops.
\<close>

theorem rb_erase_removes_node:
  assumes "rb_wf key t W" and "x \<in> set (inorder W)" and "rheight W \<le> n"
  shows "\<exists>t' W'. rb_erase n x t = Ok t' \<and> rb_wf key t' W' \<and> inorder W' = removeAll x (inorder W)"
  by (rule rb_erase_spec [OF assms])

corollary rb_erase_removes_node_witness:
  "\<exists>t' W'. rb_erase 2 16 demo_tree = Ok t' \<and> rb_wf (\<lambda>a. a) t' W' \<and> inorder W' = [8, 24]"
  using rb_erase_removes_node [OF demo_tree_wf, of 16 2] by simp

text \<open>
  C14: A search in a red-black tree ends within 2 log2 (size + 1) rounds with the node that has the key, or NULL when there is none, and rb_first finds the first node of the order.
\<close>

theorem rb_search_logarithmic:
  assumes "rb_wf key t W" and "(length (inorder W) + 1)\<^sup>2 < 2 ^ n"
  shows "\<exists>r. rb_lookup n x (by_key key) t = Ok r \<and>
      (if \<exists>a\<in>set (inorder W). key a = key x then r \<in> set (inorder W) \<and> key r = key x else r = 0) \<and>
      rb_first n t = Ok (if inorder W = [] then 0 else hd (inorder W))"
proof -
  have W: "holds t [] (rroot t) W" "rb W" "sorted_by key (inorder W)" using assms(1) by (auto simp: rb_wf_def)
  have "(2 :: nat) ^ rheight W < 2 ^ n" using rb_height [OF W(2)] assms(2) by (rule le_less_trans)
  then have h: "rheight W < n" by simp
  have T: "tree_at (rnode t) 0 (rroot t) W" using W(1) by (simp add: holds_def)
  have "rb_first n t = Ok (if inorder W = [] then 0 else hd (inorder W))"
  proof (cases W)
    case RL
    then show ?thesis using T by (simp add: rb_first_def)
  next
    case (RN c l a r)
    then have "rroot t \<noteq> 0" "W \<noteq> RL" using T by auto
    then show ?thesis using leftmost_spec [OF T, of n] h RN by (simp add: rb_first_def)
  qed
  then show ?thesis using lookup_from_spec [OF T W(3) h, of x] by (auto simp: rb_lookup_def)
qed

corollary rb_search_logarithmic_witness:
  "rb_lookup 5 24 (by_key (\<lambda>a. a)) demo_tree = Ok 24 \<and> rb_lookup 5 9 (by_key (\<lambda>a. a)) demo_tree = Ok 0 \<and> rb_first 5 demo_tree = Ok 8"
  using rb_search_logarithmic [OF demo_tree_wf, of 5 24] rb_search_logarithmic [OF demo_tree_wf, of 5 9] by (auto simp: power2_eq_square)

section \<open>Timers\<close>




section \<open>Interrupts\<close>

definition demo_word :: "(nat \<Rightarrow> bool) \<Rightarrow> nat \<Rightarrow> u32" where
  "demo_word f n = horner_sum of_bool 2 (map (\<lambda>i. f (32 * n + i)) [0..<32])"

definition demo_gic :: "((nat \<Rightarrow> bool) \<times> (nat \<Rightarrow> bool)) device" where
  "demo_gic = \<lparr>
     get32 = (\<lambda>a d. let i = unat (a - GICBASE) in
        (if 0x100 \<le> i \<and> i < 0x180 then demo_word (fst d) ((i - 0x100) div 4)
         else if 0x280 \<le> i \<and> i < 0x300 then demo_word (snd d) ((i - 0x280) div 4) else 0, d)),
     put32 = (\<lambda>a v d. let i = unat (a - GICBASE) in
        if 0x100 \<le> i \<and> i < 0x180 then (\<lambda>k. fst d k \<or> k div 32 = (i - 0x100) div 4 \<and> bit v (k mod 32), snd d)
        else if 0x280 \<le> i \<and> i < 0x300 then (fst d, \<lambda>k. snd d k \<and> \<not> (k div 32 = (i - 0x280) div 4 \<and> bit v (k mod 32))) else d),
     get_icc = (\<lambda>r d. (0, d)), put_icc = (\<lambda>r v d. d)\<rparr>"

lemma demo_gic_like: "gicd_like demo_gic GICBASE fst snd"
proof -
  have w: "bit (demo_word f n) i = f (32 * n + i)" if "i < 32" for f n i
    using that by (simp add: demo_word_def bit_horner_sum_bit_word_iff)
  have o: "unat (ucast (c + n * 4) :: u64) = unat c + unat n * 4" if "c \<le> 0x800" "n < 256" for c n :: u32
  proof -
    have "unat c + unat n * 4 < 2 ^ 32" using that by (simp add: word_le_nat_alt word_less_nat_alt)
    moreover from this have "unat (c + n * 4) = unat c + unat n * 4" by (simp add: unat_word_ariths)
    ultimately show ?thesis by (simp add: unsigned_ucast_eq take_bit_nat_eq_self)
  qed
  have a: "unat (ucast (GICD_ISENABLER n) :: u64) = 256 + unat n * 4" "unat (ucast (GICD_ICPENDR n) :: u64) = 640 + unat n * 4"
    "unat (ucast (GICD_IPRIORITYR n) :: u64) = 1024 + unat n * 4" "unat (ucast (GICD_ITARGETSR n) :: u64) = 2048 + unat n * 4" if "n < 256" for n
    using o [OF _ that, of "0x100"] o [OF _ that, of "0x280"] o [OF _ that, of "0x400"] o [OF _ that, of "0x800"]
    by (simp_all add: GICD_ISENABLER_def GICD_ICPENDR_def GICD_IPRIORITYR_def GICD_ITARGETSR_def)
  have l: "unat n < 32" "n < 256" if "n < 32" for n :: u32 using that by (simp_all add: word_less_nat_alt)
  have b: "unat (ucast (GICD_ISENABLER n) :: u64) = 256 + unat n * 4" "unat (ucast (GICD_ICPENDR n) :: u64) = 640 + unat n * 4" if "n < 32" for n
    using a l(2) [OF that] by simp_all
  show ?thesis unfolding gicd_like_def
    by (auto simp: demo_gic_def Let_def a b w l(1))
qed

text \<open>
  C16: On a distributor whose enable and clear-pending registers behave as the architecture says, gicv3_init enables the interrupts of the serial line and of the disk and no other; and since it writes back what it reads from the clear-pending register, it drops every interrupt that is pending in the bank of 32 of these two.
\<close>

theorem gicv3_init_enables:
  assumes "gicd_like D GICBASE en pe"
  shows "en (hw (gicv3_init D g)) k = (en (hw g) k \<or> k = unat UART_IRQ \<or> k = unat VIRTIO_BLK_IRQ) \<and>
    pe (hw (gicv3_init D g)) k = (pe (hw g) k \<and> k div 32 \<noteq> unat UART_IRQ div 32)"
  using gicv3_init_spec [OF assms, of g k] by (simp add: UART_IRQ_def VIRTIO_BLK_IRQ_def)

corollary gicv3_init_enables_witness:
  "let g = hw (gicv3_init demo_gic \<lparr>hw = (\<lambda>_. False, \<lambda>k. k = 40 \<or> k = 70), gicd = 0, rdist_addrs = [], int_handler = []\<rparr>)
   in fst g 33 \<and> fst g 48 \<and> \<not> fst g 34 \<and> \<not> snd g 40 \<and> snd g 70"
  using gicv3_init_enables [OF demo_gic_like, of "\<lparr>hw = (\<lambda>_. False, \<lambda>k. k = 40 \<or> k = 70), gicd = 0, rdist_addrs = [], int_handler = []\<rparr>"]
  by (simp add: Let_def UART_IRQ_def VIRTIO_BLK_IRQ_def)

section \<open>Lists\<close>

text \<open>
  C17: On the pointers, merging two disjoint circular lists puts the second right after the first node and keeps every link consistent, and detaching a node leaves the rest a circular list and the node a list of its own.
\<close>

theorem list_splice:
  assumes "ring h (a # xs)" and "ring h (b # ys)" and "set (a # xs) \<inter> set (b # ys) = {}"
  shows "fst (merge_list a b h) = a \<and> ring (snd (merge_list a b h)) (a # b # ys @ xs) \<and>
    (xs \<noteq> [] \<longrightarrow> ring (snd (detach_from_list a h)) xs) \<and> ring (snd (detach_from_list a h)) [a]"
  using merge_list_ring [OF assms] detach_from_list_ring [OF assms(1)] by simp

corollary list_splice_witness:
  "ring (snd (merge_list 1 2 (init_list_node 2 (init_list_node 1 \<lparr>nxt = (\<lambda>_. 0), prv = (\<lambda>_. 0)\<rparr>)))) [1, 2]"
  using list_splice [of "init_list_node 2 (init_list_node 1 \<lparr>nxt = (\<lambda>_. 0), prv = (\<lambda>_. 0)\<rparr>)" 1 "[]" 2 "[]"]
  by (simp add: init_list_node_def)

text \<open>
  C18: However any number of threads interleave their accesses to the lock-free list of QueueNodes, and however often an exchange fails without a reason, as long as no node is handed over twice the calls have the results of a stack on which they act one after the other, in the order of their successful exchanges, and the nodes that hang at the head are the contents of that stack.
\<close>

theorem lock_free_stack:
  assumes "stack_run False s es I H"
  shows "\<exists>xs. replay_events es [] = Some xs \<and> chain_at (snext s) (shead s) xs \<and> set xs \<subseteq> H"
  using run_parts [OF assms] by (auto simp: stack_parts_def)

text \<open>Thread 1 has read the head and its link when thread 0 pushes; its exchange fails, and it starts over.\<close>

definition demo_stack_run :: "action list" where
  "demo_stack_run = push_all 0 16 @ [CallFetch 1, GoFetch 1 True, GoFetch 1 True] @ push_all 0 8 @
     [GoFetch 1 True, GoFetch 1 True, GoFetch 1 True, GoFetch 1 True]"

corollary lock_free_stack_witness:
  "\<exists>s. stack_run False s [Pushed 16, Pushed 8, Popped 8] {16} {8, 16} \<and> chain_at (snext s) (shead s) [16]"
proof -
  have "\<exists>s. play False demo_stack_run (no_threads, [], {}, {}) = Some (s, [Pushed 16, Pushed 8, Popped 8], {16}, {8, 16})"
    by (simp add: demo_stack_run_def push_all_def no_threads_def add_to_queue_def fetch_from_queue_def)
  then obtain s where r: "stack_run False s [Pushed 16, Pushed 8, Popped 8] {16} {8, 16}"
    using play_run [OF run_no_threads] by (fastforce simp: runs_def)
  from lock_free_stack [OF r] show ?thesis using r by auto
qed

section \<open>Files\<close>

text \<open>What the callers of the cache see of the disk, and an inode whose first \<open>nb\<close> blocks are allocated.\<close>

abbreviation fview :: "cache_sys isys \<Rightarrow> nat \<Rightarrow> u8 list" where
  "fview s \<equiv> aview (abs_cache (cst s))"

definition file_ready :: "nat \<Rightarrow> nat \<Rightarrow> cache_sys isys \<Rightarrow> bool" where
  "file_ready i nb s \<longleftrightarrow> op_ok (opctx s) (cst s) \<and>
     mapped (usable (cst s)) (aheld (abs_cache (cst s))) (ent i s) (fview s) nb \<and>
     own_blocks (ent i s) (fview s) nb \<and> unat (num_bytes (ent i s)) \<le> BLOCK_SIZE * nb"

lemma file_ready_blocks:
  "file_ready i nb s \<Longrightarrow> mapped (usable (cst s)) (aheld (abs_cache (cst s))) (ent i s) (fview s) (num_file_blocks (ent i s))"
proof -
  assume r: "file_ready i nb s"
  then have "num_file_blocks (ent i s) \<le> nb" by (auto simp: file_ready_def num_file_blocks_def BLOCK_SIZE_def)
  then show ?thesis using r by (auto simp: file_ready_def mapped_def)
qed

lemma take_splice: "i + length xs \<le> n \<Longrightarrow> n \<le> length bs \<Longrightarrow> take n (splice i xs bs) = splice i xs (take n bs)"
  by (cases "n = i") (auto simp: splice_def drop_take min_def)

text \<open>A regular file of 600 bytes in the blocks 300 and 301, and an empty directory in block 302.\<close>

definition demo_entry :: "u16 \<Rightarrow> u32 \<Rightarrow> u32 list \<Rightarrow> inode_entry" where
  "demo_entry ty sz as = \<lparr>itype = ty, major = 0, minor = 0, num_links = 1, num_bytes = sz,
     addrs = as @ replicate (INODE_NUM_DIRECT - length as) 0, indirect = 0\<rparr>"

definition demo_files :: "cache_sys isys" where
  "demo_files = \<lparr>isb = demo_sb, cst = demo_idle\<lparr>outstanding := 1\<rparr>, opctx = \<lparr>rm = 10\<rparr>, islock = False, ihead = [5, 2],
     imem = (\<lambda>i. \<lparr>ilock = init_sleeplock, irc = 1, ivalid = True,
       entry = (if i = 5 then demo_entry INODE_REGULAR 600 [300, 301] else demo_entry INODE_DIRECTORY 0 [302])\<rparr>),
     iroot = Some 1, icons = \<lparr>conslock = False, consem = init_sem 0, cbuf = replicate IBUF_SIZE 0, read_idx = 0,
       write_idx = 0, edit_idx = 0, tty = []\<rparr>, cur_cwd = 1, cur_killed = False\<rparr>"

lemma demo_files_view: "fview demo_files = (\<lambda>_. zero_block)"
  by (simp add: demo_files_def demo_idle_def abs_cache_def fun_eq_iff)

lemma demo_files_ok: "op_ok (opctx demo_files) (cst demo_files)" "aheld (abs_cache (cst demo_files)) = {}"
  "n \<in> usable (cst demo_files) \<longleftrightarrow> n \<notin> {2..65} \<and> n < 2 ^ 64" "rm (opctx demo_files) = 10"
  by (auto simp: demo_files_def demo_idle_def op_ok_def log_ok_def cache_ok_def header_ok_def logged_def usable_def log_area_def
      abs_cache_def decode_zero_block sem_ok_init demo_sb_def BLOCK_SIZE_def LOG_MAX_SIZE_def)

lemma demo_entries: "ent 5 demo_files = demo_entry INODE_REGULAR 600 [300, 301]" "ent 2 demo_files = demo_entry INODE_DIRECTORY 0 [302]"
  by (simp_all add: demo_files_def ent_def)

lemma less_two: "k < (2 :: nat) \<longleftrightarrow> k = 0 \<or> k = 1"
  by auto

lemma demo_file_ready: "file_ready 5 2 demo_files" "itype (ent 5 demo_files) \<noteq> INODE_DEVICE" "num_bytes (ent 5 demo_files) = 600"
  by (auto simp: file_ready_def mapped_def own_blocks_def inj_on_def less_two block_of_def demo_entries demo_entry_def demo_files_ok
      fs_sizes INODE_REGULAR_def INODE_DEVICE_def)



text \<open>
  C19: Reading n bytes at an offset inside a regular file or directory whose blocks are allocated returns min(n, size - offset) and exactly those bytes of the file (the contents of its blocks, direct and indirect, in order), and changes no block, whatever the state of the block cache.
\<close>

theorem inode_read_content:
  assumes "file_ready i nb s" and "itype (ent i s) \<noteq> INODE_DEVICE"
    and "unat off \<le> unat (num_bytes (ent i s))" and "unat off + unat n < 2 ^ 64"
  shows "\<exists>t. inode_read bcache i off n s =
      Ok (of_nat (min (unat n) (unat (num_bytes (ent i s)) - unat off)),
          take (unat n) (drop (unat off) (file_bytes (ent i s) (fview s))), s\<lparr>cst := t\<rparr>) \<and>
    op_ok (opctx s) t \<and> aview (abs_cache t) = fview s"
proof -
  have ok: "op_ok (opctx s) (cst s)" using assms(1) by (simp add: file_ready_def)
  have "take (min (unat n) (unat (num_bytes (ent i s)) - unat off)) (drop (unat off) (file_bytes (ent i s) (fview s))) =
      take (unat n) (drop (unat off) (file_bytes (ent i s) (fview s)))"
    using bc.length_file_bytes [OF ok, of "ent i s"] by (simp add: min_def)
  then show ?thesis
    using bc.read_content [OF ok assms(2) file_ready_blocks [OF assms(1)] assms(3,4)] unfolding bc.kept_def by auto
qed

corollary inode_read_content_witness:
  "\<exists>t. inode_read bcache 5 590 100 demo_files = Ok (10, replicate 10 0, demo_files\<lparr>cst := t\<rparr>)"
proof -
  have s: "unat (600 :: u32) = 600" by simp
  have fb: "block_bytes (ent 5 demo_files) (\<lambda>_. zero_block) 2 = replicate 1024 0"
    by (simp add: block_bytes_def zero_block_def BLOCK_SIZE_def upt_rec replicate_add [symmetric])
  have nb: "num_file_blocks (ent 5 demo_files) = 2" by (simp add: num_file_blocks_def demo_file_ready(3) BLOCK_SIZE_def)
  show ?thesis
    using inode_read_content [OF demo_file_ready(1,2), of 590 100]
    by (simp add: demo_file_ready(3) s demo_files_view file_bytes_def nb fb) blast
qed

text \<open>
  C20: Overwriting n bytes inside a file, in an operation with room for the blocks it touches, returns n, replaces exactly these bytes of the file, leaves every block that is not one of the file's as it was, and a read of the same range then returns what was written.
\<close>

theorem inode_write_in_place:
  assumes "file_ready i nb s" and "itype (ent i s) \<noteq> INODE_DEVICE"
    and "unat off + unat n \<le> unat (num_bytes (ent i s))" and "length src = unat n"
    and "touched (unat off) (unat n) \<le> rm (opctx s)"
  shows "\<exists>c' t t'. inode_write bcache True i src off n s = Ok (n, s\<lparr>cst := t, opctx := c'\<rparr>) \<and>
    file_bytes (ent i s) (aview (abs_cache t)) = splice (unat off) src (file_bytes (ent i s) (fview s)) \<and>
    (\<forall>k. k \<notin> block_of (ent i s) (fview s) ` {..<nb} \<longrightarrow> aview (abs_cache t) k = fview s k) \<and>
    inode_read bcache i off n (s\<lparr>cst := t, opctx := c'\<rparr>) = Ok (n, src, s\<lparr>opctx := c', cst := t'\<rparr>)"
proof -
  let ?e = "ent i s" and ?sz = "unat (num_bytes (ent i s))"
  have ok: "op_ok (opctx s) (cst s)" and m: "mapped (usable (cst s)) (aheld (abs_cache (cst s))) ?e (fview s) nb"
    and own: "own_blocks ?e (fview s) nb" and le: "?sz \<le> BLOCK_SIZE * nb" using assms(1) by (simp_all add: file_ready_def)
  have off: "unat off \<le> ?sz" using assms(3) by simp
  obtain c' t where w: "inode_write bcache True i src off n s = Ok (n, s\<lparr>cst := t, opctx := c'\<rparr>)"
    "bc.wrote ?e nb (unat off) src (opctx s) (cst s) c' t"
    using bc.write_content [OF ok assms(2) m own off assms(3) le assms(4,5)] by auto
  let ?s = "s\<lparr>cst := t, opctx := c'\<rparr>"
  have e: "ent i ?s = ?e" by (simp add: ent_def)
  note wr = w(2) [unfolded bc.wrote_def]
  have "mapped (usable t) (aheld (abs_cache t)) ?e (aview (abs_cache t)) nb" using m wr by (simp add: mapped_def)
  then have rdy: "file_ready i nb ?s" using wr le by (simp add: file_ready_def e)
  have fb: "file_bytes ?e (aview (abs_cache t)) = splice (unat off) src (file_bytes ?e (fview s))"
  proof -
    have nbs: "num_file_blocks ?e \<le> nb" using le by (simp add: num_file_blocks_def BLOCK_SIZE_def)
    have cut: "file_bytes ?e v = take ?sz (block_bytes ?e v nb)" if "\<forall>k. length (v k) = BLOCK_SIZE" for v
    proof -
      have "block_bytes ?e v nb = block_bytes ?e v (num_file_blocks ?e) @ concat (map (\<lambda>k. v (block_of ?e v k)) [num_file_blocks ?e..<nb])"
        using nbs upt_add_eq_append [of 0 "num_file_blocks ?e" "nb - num_file_blocks ?e"]
        by (simp add: block_bytes_def flip: concat_append map_append)
      then show ?thesis using length_block_bytes [OF that, of ?e "num_file_blocks ?e"] num_file_blocks_covers [of ?e]
        by (simp add: file_bytes_def)
    qed
    have l: "\<forall>k. length (fview s k) = BLOCK_SIZE" "\<forall>k. length (aview (abs_cache t) k) = BLOCK_SIZE"
      using ok wr op_view_length by blast+
    have lb: "length (block_bytes ?e (fview s) nb) = BLOCK_SIZE * nb" by (rule length_block_bytes [OF l(1)])
    show ?thesis unfolding cut [OF l(1)] cut [OF l(2)] using wr take_splice [of "unat off" src ?sz] assms(3,4) le lb by simp
  qed
  have lf: "length (file_bytes ?e (fview s)) = ?sz" by (rule bc.length_file_bytes [OF ok])
  have n64: "unat off + unat n < 2 ^ 64" using assms(3) unat_u32_less [of "num_bytes ?e"] by simp
  have "unat off \<le> unat (num_bytes (ent i ?s))" using off by (simp only: e)
  from inode_read_content [OF rdy _ this n64] assms(2)
  obtain t' where r: "inode_read bcache i off n ?s = Ok (of_nat (min (unat n) (?sz - unat off)),
      take (unat n) (drop (unat off) (splice (unat off) src (file_bytes ?e (fview s)))), s\<lparr>opctx := c', cst := t'\<rparr>)"
    by (auto simp: e fb)
  moreover have "min (unat n) (?sz - unat off) = unat n" using assms(3) by simp
  moreover have "take (unat n) (drop (unat off) (splice (unat off) src (file_bytes ?e (fview s)))) = src"
    using assms(3,4) lf by (simp add: splice_def)
  ultimately show ?thesis using w(1) wr fb by (intro exI [of _ c'] exI [of _ t] exI [of _ t']) simp
qed

corollary inode_write_in_place_witness:
  "\<exists>c' t t'. inode_write bcache True 5 [1, 2, 3, 4] 510 4 demo_files = Ok (4, demo_files\<lparr>cst := t, opctx := c'\<rparr>) \<and>
    inode_read bcache 5 510 4 (demo_files\<lparr>cst := t, opctx := c'\<rparr>) = Ok (4, [1, 2, 3, 4], demo_files\<lparr>opctx := c', cst := t'\<rparr>)"
proof -
  have "touched 510 4 = 2" by (simp add: touched_def BLOCK_SIZE_def)
  then show ?thesis using inode_write_in_place [OF demo_file_ready(1,2), of 510 4 "[1, 2, 3, 4]"]
    by (auto simp: demo_file_ready(3) demo_files_ok)
qed



text \<open>
  C22: Following skipelem from the start of a path, as namex does, yields exactly the nonempty pieces between the slashes in order (leading, doubled and trailing slashes are skipped), for paths whose pieces fit into a name with its terminating zero.
\<close>

theorem path_elements:
  assumes "length name = FILE_NAME_MAX_LENGTH" and "\<forall>e\<in>set (path_elems path). length e < FILE_NAME_MAX_LENGTH \<and> 0 \<notin> set e"
  shows "map (takeWhile (\<lambda>c. c \<noteq> 0)) (names_of path name) = path_elems path \<and>
    (skipelem path name = None \<longleftrightarrow> path_elems path = [])"
  using names_of_elems [OF assms] skipelem_elems [of path name] by (simp split: list.split)

corollary path_elements_witness:
  "map (takeWhile (\<lambda>c. c \<noteq> 0)) (names_of [47, 47, 47, 97, 47, 47, 98, 98] (replicate 14 9)) = [[97], [98, 98]]"
proof -
  have "path_elems [47, 47, 47, 97, 47, 47, 98, 98] = [[97], [98, 98]]" by (simp add: path_elems_def SLASH_def)
  then show ?thesis using path_elements [of "replicate 14 9" "[47, 47, 47, 97, 47, 47, 98, 98]"] by (simp add: FILE_NAME_MAX_LENGTH_def)
qed

section \<open>Strings and numbers\<close>

text \<open>
  C23: In every base from 2 to 16, reading the digits that _print_int prints, with a leading minus sign for a negative number, gives back the 64-bit number that was printed, signed or unsigned, the most negative number included.
\<close>

theorem print_int_reads_back:
  assumes "2 \<le> base" and "base \<le> 16"
  shows "parse_int base (print_int u base is_signed) = (if is_signed then sint u else uint u)"
  by (rule parse_print_int [OF assms])

corollary print_int_reads_back_witness: "parse_int 10 (print_int (- 42) 10 True) = - 42"
  using print_int_reads_back [of 10 "- 42" True] by simp

section \<open>The console\<close>

definition demo_console :: console where
  "demo_console = \<lparr>conslock = False, consem = init_sem 0, cbuf = replicate IBUF_SIZE 0, read_idx = 0, write_idx = 0, edit_idx = 0, tty = []\<rparr>"




text \<open>
  C25: When a whole line (or n characters, or an end-of-file mark) has been handed over, console_read returns its length and its characters, up to and including the newline and at most n, removes exactly these from the buffer, and leaves an end-of-file mark for the next read if it has already got something.
\<close>

theorem console_reads_line:
  assumes "console_ok s" and "\<not> conslock s" and "n < 2 ^ 31" and "take_line True n (ready s) = Some (l, k)"
  shows "\<exists>s'. console_read dead (int n) s = Ok (int (length l), l, s') \<and> console_ok s' \<and> \<not> conslock s' \<and>
    ready s' = drop k (ready s) \<and> typed s' = drop k (typed s)"
proof -
  let ?s = "s\<lparr>conslock := True\<rparr>"
  have same [simp]: "console_ok (t\<lparr>conslock := x\<rparr>) = console_ok t" "typed (t\<lparr>conslock := x\<rparr>) = typed t"
    "ready (t\<lparr>conslock := x\<rparr>) = ready t" for t x
    by (simp_all add: console_ok_def typed_def ready_def typed_len_def ready_len_def)
  have n: "signed_take_bit 31 (int n) = int n" by (rule signed_take_bit_int_eq_self) (use assms(3) in simp_all)
  obtain t where "console_read_loop dead (int n) (int n) [] ?s = Ok (Some (int n - int (length l)), l, t)" "console_ok t"
    "ready t = drop k (ready s)" "typed t = drop k (typed s)"
    using read_loop_spec [of ?s n "int n" l k dead "[]"] assms by auto
  then show ?thesis using assms(2) n by (simp add: console_read_def lock_console_def unlock_console_def release_spinlock_def Let_def)
qed

definition demo_line :: console where
  "demo_line = demo_console\<lparr>cbuf := [104, 105, 10] @ replicate 125 0, write_idx := 3, edit_idx := 3\<rparr>"

corollary console_reads_line_witness:
  "\<exists>s'. console_read False 4 demo_line = Ok (3, [104, 105, 10], s') \<and> ready s' = []"
proof -
  have r: "ready demo_line = [104, 105, 10]"
    by (simp add: ready_def typed_def ready_len_def typed_len_def demo_line_def demo_console_def IBUF_SIZE_def upt_rec)
  have ok: "console_ok demo_line" "\<not> conslock demo_line"
    by (simp_all add: console_ok_def demo_line_def demo_console_def ready_len_def typed_len_def IBUF_SIZE_def sem_ok_init)
  have four: "(4 :: nat) = Suc (Suc (Suc (Suc 0)))" by simp
  have "take_line True 4 (ready demo_line) = Some ([104, 105, 10], 3)" unfolding four r by (simp add: CTRL_D_def)
  from console_reads_line [OF ok _ this, of False] r show ?thesis by auto
qed

section \<open>Memory\<close>


text \<open>A machine with two pages behind the kernel.\<close>

definition demo_boot :: mem_sys where
  "demo_boot = kinit KSPACE_MASK 8192 \<lparr>allocators = [], mem_lock = False, page_lock = False, free_lock = False, free_pages = [],
     headers = (\<lambda>_. \<lparr>block_size = 0, block_count = 0\<rparr>), page_cnt = (\<lambda>_. 0), page_counter = 0, kalloc_page_cnt = 0\<rparr>"

lemma demo_boot_ok: "mem_run demo_boot {}" "mem_inv demo_boot {}"
  unfolding demo_boot_def by (rule mem_run.start kinit_inv)+

lemma demo_boot_pages: "free_pages demo_boot = [KSPACE_MASK + 4096, KSPACE_MASK]"
  by (simp add: demo_boot_def kinit_def Let_def page_base_def PAGE_SIZE_def P2K_def KSPACE_MASK_def
      add_free_pages.simps count_kernel_pages_fields)




section \<open>Files and pipes\<close>



text \<open>
  C29: With two free entries in the file table and a free page, pipe_alloc succeeds with a read end and a write end that nobody else holds, and up to PIPE_SIZE bytes written to the one are what a read of the other returns.
\<close>

theorem pipe_roundtrip:
  assumes "table_run bc s H" and "mem_run (fmem s) live" and "free_pages (fmem s) \<noteq> []"
    and "x < NFILE" "y < NFILE" "x \<noteq> y" "H x = 0" "H y = 0" and "length src \<le> PIPE_SIZE" "src \<noteq> []"
  shows "\<exists>a b s1 s2 s3. pipe_alloc bc s = Ok (0, Some a, Some b, s1) \<and> a \<noteq> b \<and> H a = 0 \<and> H b = 0 \<and> files_ok (H(a := 1, b := 1)) s1 \<and>
    file_write bc b src (int (length src)) s1 = Ok (int (length src), s2) \<and>
    file_read bc a (int (length src)) s2 = Ok (int (length src), src, s3)"
proof -
  note ok = table_run_ok [OF assms(1)]
  obtain f0 f1 s1 where p: "pipe_alloc bc s = Ok (0, f0, f1, s1)"
    using pipe_alloc_succeeds [OF ok mem_run_inv [OF assms(2)] assms(3-8)] by blast
  obtain a b q pi where e: "f0 = Some a" "f1 = Some b" "pipe_ends a b q s1" "H a = 0" "H b = 0" "files_ok (H(a := 1, b := 1)) s1"
    "fpipes s1 q = init_pipe pi"
    using pipe_alloc_ends [OF ok p] by metis
  obtain s2 s3 where "file_write bc b src (int (length src)) s1 = Ok (int (length src), s2)"
    "file_read bc a (int (length src)) s2 = Ok (int (length src), src, s3)"
    using pipe_files_roundtrip [OF e(3), of src bc] assms(9,10) by (auto simp: e(7) init_pipe_spec init_sem_def)
  moreover have "a \<noteq> b" using e(3) by (simp add: pipe_ends_def)
  ultimately show ?thesis using p e by blast
qed

definition demo_table :: "cache_sys fsys" where
  "demo_table = init_ftable \<lparr>ftlock = False, ffiles = (\<lambda>_. zero_file), fpipes = (\<lambda>_. init_pipe undefined), fmem = demo_boot, fis = demo_files, cur_tid = 1\<rparr>"

lemma demo_table_run: "table_run bc demo_table (\<lambda>f. 0)"
  unfolding demo_table_def by (rule table_run.start) simp

corollary pipe_roundtrip_witness:
  "\<exists>a b s1 s2 s3. pipe_alloc bcache demo_table = Ok (0, Some a, Some b, s1) \<and>
    file_write bcache b [7, 8, 9] 3 s1 = Ok (3, s2) \<and> file_read bcache a 3 s2 = Ok (3, [7, 8, 9], s3)"
  using pipe_roundtrip [OF demo_table_run [of bcache], of "{}" 0 "Suc 0" "[7, 8, 9]"] demo_boot_ok(1) demo_boot_pages
  by (fastforce simp: demo_table_def init_ftable_def NFILE_def PIPE_SIZE_def)

text \<open>
  C30: The reference count of every entry of the file table is the number of its holders, after any sequence of file_alloc, file_dup and file_close; so file_alloc returns an entry that nobody holds, the first one, and fails only when every entry is held, and a dup'ed entry stays in place until its last holder closes it.
\<close>

theorem file_table_counts:
  assumes "table_run bc s H"
  shows "(\<forall>f<NFILE. fref (ffiles s f) = int (H f)) \<and>
    (\<exists>r s'. file_alloc s = Ok (r, s') \<and>
       (case r of Some f \<Rightarrow> f < NFILE \<and> H f = 0 \<and> (\<forall>g<f. 0 < H g) \<and> table_run bc s' (H(f := 1)) | None \<Rightarrow> (\<forall>f<NFILE. 0 < H f))) \<and>
    (\<forall>f<NFILE. 0 < H f \<longrightarrow> (\<exists>s'. file_dup f s = Ok s' \<and> table_run bc s' (H(f := H f + 1)))) \<and>
    (\<forall>f<NFILE. 1 < H f \<longrightarrow> (\<exists>s'. file_close bc (Some f) s = Ok s' \<and> table_run bc s' (H(f := H f - 1)) \<and>
       ffiles s' f = (ffiles s f)\<lparr>fref := int (H f - 1)\<rparr>))"
proof -
  note ok = table_run_ok [OF assms]
  have "\<exists>r s'. file_alloc s = Ok (r, s') \<and>
       (case r of Some f \<Rightarrow> f < NFILE \<and> H f = 0 \<and> (\<forall>g<f. 0 < H g) \<and> table_run bc s' (H(f := 1)) | None \<Rightarrow> (\<forall>f<NFILE. 0 < H f))"
    using file_alloc_spec [OF ok] table_run.alloc [OF assms] by (fastforce split: option.splits)
  moreover have "\<exists>s'. file_dup f s = Ok s' \<and> table_run bc s' (H(f := H f + 1))" if "f < NFILE" "0 < H f" for f
    using file_dup_spec [OF ok that(1)] table_run.dup [OF assms that] by blast
  moreover have "\<exists>s'. file_close bc (Some f) s = Ok s' \<and> table_run bc s' (H(f := H f - 1)) \<and> ffiles s' f = (ffiles s f)\<lparr>fref := int (H f - 1)\<rparr>"
    if f: "f < NFILE" "1 < H f" for f
  proof -
    have "fref (ffiles s f) - 1 = int (H f - 1)" using ok f by (simp add: files_ok_def of_nat_diff)
    then show ?thesis using file_close_shared [OF ok f, of bc] table_run.close [OF assms f(1)] f(2) by (auto simp: fun_upd_same)
  qed
  ultimately show ?thesis using ok unfolding files_ok_def by blast
qed

corollary file_table_counts_witness: "\<exists>r s'. file_alloc demo_table = Ok (r, s') \<and> (\<forall>f<NFILE. fref (ffiles demo_table f) = 0)"
  using file_table_counts [OF demo_table_run [of bcache]] by fastforce

section \<open>Page tables\<close>


definition demo_vm :: vm_sys where
  "demo_vm = \<lparr>vmem = demo_boot\<lparr>free_pages := map (\<lambda>k. KSPACE_MASK + 4096 * k) [1..<6]\<rparr>, tables = (\<lambda>_. []), pbytes = (\<lambda>_. []), ttbr0 = 0\<rparr>"

definition demo_dir :: pgdir where
  "demo_dir = \<lparr>pt = 0, pglock = False, sections = []\<rparr>"

lemma demo_vm_ok: "pd_ok demo_vm demo_dir" "length (free_pages (vmem demo_vm)) = 5" "entry_of demo_vm demo_dir va = 0"
proof -
  have "\<not> page_lock demo_boot" using demo_boot_ok(2) by (auto simp: mem_inv_def mem_ok_def)
  then show "pd_ok demo_vm demo_dir"
    by (auto simp: pd_ok_def frees_ok_def demo_vm_def demo_dir_def good_page_def KSPACE_MASK_def PAGE_SIZE_def distinct_map inj_on_def)
qed (simp_all add: demo_vm_def demo_dir_def entry_of_def)


text \<open>
  C32: kernel_entry maps the code of the first process: for code that starts at a page, the loop ends while four free pages are left for every page of it, and then the page k of the user's address space, for every k up to the end of the code, is the page k of the code with the flags of a user's page and read-only, and no other address is mapped anew.
\<close>

theorem init_pages_mapped:
  assumes "PAGE_SIZE dvd icode" and "icode \<le> eicode" and "eicode - icode < USERTOP"
    and "pd_ok s pd" and "4 * Suc ((eicode - icode) div PAGE_SIZE) \<le> length (free_pages (vmem s))"
  shows "\<exists>pd' s'. map_icode icode eicode (PAGE_BASE icode) pd s = Ok (pd', s') \<and> pd_ok s' pd' \<and>
    (\<forall>k. PAGE_SIZE * k \<le> eicode - icode \<longrightarrow>
       entry_of s' pd' (of_nat (PAGE_SIZE * k)) = of_nat (K2P (icode + PAGE_SIZE * k)) OR PTE_USER_DATA OR PTE_RO) \<and>
    (\<forall>va. (\<forall>k. PAGE_SIZE * k \<le> eicode - icode \<longrightarrow> parts va \<noteq> parts (of_nat (PAGE_SIZE * k))) \<longrightarrow> entry_of s' pd' va = entry_of s pd va)"
proof -
  have "PAGE_BASE icode = icode + PAGE_SIZE * 0" using assms(1) by (simp add: PAGE_BASE_def)
  then show ?thesis using map_icode_spec [OF assms(2-4), of 0] assms(5) unfolding icode_entry_def upage_def by simp
qed

corollary init_pages_mapped_witness:
  "\<exists>pd' s'. map_icode (KSPACE_MASK + 0x9000) (KSPACE_MASK + 0x9050) (PAGE_BASE (KSPACE_MASK + 0x9000)) demo_dir demo_vm = Ok (pd', s') \<and>
    entry_of s' pd' 0 = of_nat (K2P (KSPACE_MASK + 0x9000)) OR PTE_USER_DATA OR PTE_RO \<and> entry_of s' pd' 0x1000 = 0"
proof -
  have p: "\<forall>k. PAGE_SIZE * k \<le> 0x50 \<longrightarrow> parts 0x1000 \<noteq> parts (of_nat (PAGE_SIZE * k))"
  proof (intro allI impI)
    fix k assume "PAGE_SIZE * k \<le> 0x50"
    then have "k = 0" by (simp add: PAGE_SIZE_def)
    then show "parts 0x1000 \<noteq> parts (of_nat (PAGE_SIZE * k))" by (simp add: parts_def part_eq)
  qed
  have "PAGE_SIZE dvd KSPACE_MASK + 0x9000" by (simp add: PAGE_SIZE_def KSPACE_MASK_def)
  from init_pages_mapped [OF this, of "KSPACE_MASK + 0x9050" demo_vm demo_dir] obtain pd' s' where
    "map_icode (KSPACE_MASK + 0x9000) (KSPACE_MASK + 0x9050) (PAGE_BASE (KSPACE_MASK + 0x9000)) demo_dir demo_vm = Ok (pd', s')"
    and e: "\<And>k. PAGE_SIZE * k \<le> 0x50 \<Longrightarrow> entry_of s' pd' (of_nat (PAGE_SIZE * k)) = of_nat (K2P (KSPACE_MASK + 0x9000 + PAGE_SIZE * k)) OR PTE_USER_DATA OR PTE_RO"
    "\<And>va. \<forall>k. PAGE_SIZE * k \<le> 0x50 \<longrightarrow> parts va \<noteq> parts (of_nat (PAGE_SIZE * k)) \<Longrightarrow> entry_of s' pd' va = entry_of demo_vm demo_dir va"
    using demo_vm_ok(1,2) by (auto simp: USERTOP_def PAGE_SIZE_def)
  then show ?thesis using e(1) [of 0] e(2) [OF p] demo_vm_ok(3) by auto
qed

text \<open>
  C33: The tables that the kernel runs on map the upper half of the address space linearly: the address KSPACE_MASK + pa means pa, with device attributes for the device range 0x8000000 to 0xb000000 and with normal memory attributes for the gigabyte of memory from 0x40000000 on, and every other physical address below 2^48 is not mapped, wherever the linker puts the tables.
\<close>

theorem kernel_pt_linear:
  assumes "good_page l1" and "good_page dev" and "good_page ram" and "distinct [l0, l1, dev, ram]" and "pa < 2 ^ 48"
  shows "kernel_lookup (boot_tables l0 l1 dev ram) l0 (of_nat (KSPACE_MASK + pa)) =
    (if 0x8000000 \<le> pa \<and> pa < 0xb000000 then Some (pa, PTE_KERNEL_DEVICE)
     else if 0x40000000 \<le> pa \<and> pa < 0x80000000 then Some (pa, PTE_KERNEL_DATA) else None)"
  by (rule kernel_lookup_low [OF assms])

corollary kernel_pt_linear_witness:
  "let t = boot_tables 0 (KSPACE_MASK + 4096) (KSPACE_MASK + 8192) (KSPACE_MASK + 12288) in
   kernel_lookup t 0 (of_nat (KSPACE_MASK + 0x9000000)) = Some (0x9000000, PTE_KERNEL_DEVICE) \<and>
   kernel_lookup t 0 (of_nat (KSPACE_MASK + 0x40080123)) = Some (0x40080123, PTE_KERNEL_DATA) \<and>
   kernel_lookup t 0 (of_nat (KSPACE_MASK + 0x80000000)) = None"
proof -
  have "good_page (KSPACE_MASK + 4096)" "good_page (KSPACE_MASK + 8192)" "good_page (KSPACE_MASK + 12288)"
    "distinct [0, KSPACE_MASK + 4096, KSPACE_MASK + 8192, KSPACE_MASK + 12288]"
    by (simp_all add: good_page_def KSPACE_MASK_def PAGE_SIZE_def)
  note t = kernel_pt_linear [OF this]
  show ?thesis unfolding Let_def by (intro conjI; subst t; simp)
qed

section \<open>Processes\<close>

text \<open>
  A root process and at most one child, on four processors; \<open>this\<close> runs on the first one, the
  idle processes \<open>2\<close>, \<open>3\<close> and \<open>4\<close> on the others.
\<close>

definition demo_root :: tid where "demo_root = 12304"

definition demo_psched :: "tid \<Rightarrow> tid \<Rightarrow> procstate \<Rightarrow> sched_sys" where
  "demo_psched this other st = \<lparr>
     procs = (\<lambda>p. \<lparr>state = (if p = this \<or> p \<in> {2, 3, 4} then RUNNING else if p = 1 then RUNNABLE else if p = other then st else UNUSED),
                     wait_time = 0, killed = False\<rparr>),
     rq = [this], rqlock = False, thisproc = (\<lambda>c. if c = 0 then this else c + 1), idle = (\<lambda>c. c + 1),
     sched_timer = (\<lambda>_. \<lparr>triggered = True, elapse = 15, tkey = 0, queued = False\<rparr>)\<rparr>"

definition demo_uproc :: uproc where
  "demo_uproc = \<lparr>pidno = 1, exitcode = 0, childexit = init_sem 0, proclock = False, children = [], parent = demo_root,
     pgd = \<lparr>pt = 0, pglock = False, sections = []\<rparr>, kstack = 4096,
     ucontext = \<lparr>q0_0 = 0, q0_1 = 0, uelr = 0, utpidr = 0, usp = 0, uspsr = 0, ux = replicate 32 0\<rparr>,
     kcontext = \<lparr>klr = proc_entry, kx0 = kernel_entry, kx1 = 0\<rparr>, oftable = init_oftable, cwd = None, pvma = None\<rparr>"

definition demo_procs :: "tid \<Rightarrow> tid \<Rightarrow> procstate \<Rightarrow> mem_sys \<Rightarrow> (tid \<Rightarrow> uproc) \<Rightarrow> cache_sys psys" where
  "demo_procs this other st m us = \<lparr>sch = demo_psched this other st,
     pfs = init_ftable \<lparr>ftlock = False, ffiles = (\<lambda>_. zero_file), fpipes = (\<lambda>_. init_pipe undefined), fmem = m, fis = demo_files, cur_tid = 1\<rparr>,
     pvm = \<lparr>vmem = m, tables = (\<lambda>_. []), pbytes = (\<lambda>_. []), ttbr0 = 0\<rparr>, uprocs = us, on_cpu = 0, now_ms = 0, root_proc = demo_root,
     invalid_pt = 0, last_pid = 2, pid_list = [], pidlock = False, elock = False, klock = False,
     vma_list = (\<lambda>_. \<lparr>vstart = 0, vend = 0, vlength = 0, voff = 0, vperm = 0, vflags = 0, vfile = 0, vnext = None, vlock = False\<rparr>),
     raw_section = \<lparr>sec_flags = 0, sec_begin = 0, sec_end = 0, sec_fp = None, sec_offset = 0, sec_length = 0\<rparr>,
     raw_ucontext = ucontext demo_uproc, raw_kcontext = kcontext demo_uproc\<rparr>"

text \<open>The root process with \<open>k\<close> units in its semaphore, and its child \<open>c\<close>.\<close>

definition demo_family :: "tid \<Rightarrow> int \<Rightarrow> tid \<Rightarrow> uproc" where
  "demo_family c k = (\<lambda>p. if p = demo_root then demo_uproc\<lparr>children := [c], childexit := init_sem k\<rparr>
     else if p = c then demo_uproc\<lparr>pidno := 2, exitcode := 7, kstack := 8192\<rparr> else demo_uproc)"

definition demo_store :: mem_sys where
  "demo_store = kinit KSPACE_MASK 32768 demo_boot"

definition demo_managed :: "nat set" where
  "demo_managed = set (free_pages demo_store)"

lemma demo_store_ok: "mem_pages demo_store {} demo_managed" "length (free_pages demo_store) = 8" "x \<in> demo_managed \<Longrightarrow> KSPACE_MASK \<le> x"
proof -
  have f: "free_pages demo_store = map (\<lambda>k. KSPACE_MASK + 4096 * k) [7, 6, 5, 4, 3, 2, 1, 0]"
    by (simp add: demo_store_def kinit_def Let_def page_base_def PAGE_SIZE_def P2K_def KSPACE_MASK_def
        add_free_pages.simps count_kernel_pages_fields)
  show "length (free_pages demo_store) = 8" "x \<in> demo_managed \<Longrightarrow> KSPACE_MASK \<le> x" by (auto simp: f demo_managed_def)
  show "mem_pages demo_store {} demo_managed" unfolding demo_managed_def demo_store_def by (rule kinit_pages)
qed

lemma demo_low: "a < 65536 \<Longrightarrow> a \<notin> demo_managed"
  using demo_store_ok(3) [of a] by (auto simp: KSPACE_MASK_def)

lemma demo_psched_ok:
  assumes "4 < this" and "4 < other" and "st \<noteq> RUNNABLE" and "st \<noteq> RUNNING" and "this \<noteq> other"
  shows "sched_inv (demo_psched this other st)" "idles (demo_psched this other st) = {1, 2, 3, 4}"
proof -
  have all: "(\<forall>c<NCPU. P c) \<longleftrightarrow> P 0 \<and> P 1 \<and> P 2 \<and> P 3" "(\<exists>c<NCPU. P c) \<longleftrightarrow> P 0 \<or> P 1 \<or> P 2 \<or> P 3" "{..<NCPU} = {0, 1, 2, 3}" for P
    by (auto simp: less_NCPU)
  have st: "state (procs (demo_psched this other st) p) = (if p = this \<or> p \<in> {2, 3, 4} then RUNNING else if p = 1 then RUNNABLE else if p = other then st else UNUSED)" for p
    by (simp add: demo_psched_def)
  have f: "rq (demo_psched this other st) = [this]" "thisproc (demo_psched this other st) c = (if c = 0 then this else c + 1)" "idle (demo_psched this other st) c = c + 1"
    "wait_time (procs (demo_psched this other st) p) = 0" "\<not> queued (sched_timer (demo_psched this other st) c)" for c p
    by (simp_all add: demo_psched_def)
  show id: "idles (demo_psched this other st) = {1, 2, 3, 4}" by (auto simp: idles_def all f)
  have "p \<in> set (rq (demo_psched this other st)) \<longleftrightarrow> p \<notin> idles (demo_psched this other st) \<and>
      (state (procs (demo_psched this other st) p) = RUNNABLE \<or> state (procs (demo_psched this other st) p) = RUNNING)" for p
    unfolding id st f using assms by (cases "p = this"; cases "p = other") auto
  moreover have "state (procs (demo_psched this other st) p) = RUNNING \<longleftrightarrow> (\<exists>c<NCPU. thisproc (demo_psched this other st) c = p)" for p
    unfolding all st f using assms by (cases "p = this"; cases "p = other") auto
  ultimately show "sched_inv (demo_psched this other st)"
    unfolding sched_inv_def all using assms by (simp add: f id st inj_on_def RQ_SHADOW_def)
qed

lemma demo_fmem: "fmem (init_ftable f) = fmem f"
  by (simp add: init_ftable_def)

lemma demo_family_ok:
  assumes c: "4 < c" "c \<noteq> demo_root" and st: "st \<noteq> RUNNABLE" "st \<noteq> RUNNING"
    and two: "(this, other) = (demo_root, c) \<or> (this, other) = (c, demo_root) \<and> st \<noteq> ZOMBIE" and k: "k = (if st = ZOMBIE then 1 else 0)"
  shows "procs_ok (demo_procs this other st m (demo_family c k)) {demo_root, c} {}"
    and "running (demo_procs this other st m (demo_family c k)) {demo_root, c}"
    and "this_proc (demo_procs this other st m (demo_family c k)) = this"
proof -
  let ?s = "demo_procs this other st m (demo_family c k)"
  have to: "4 < this" "4 < other" "this \<noteq> other" using two c by (auto simp: demo_root_def)
  have ps: "pstate ?s demo_root \<noteq> ZOMBIE" "pstate ?s c = ZOMBIE \<longleftrightarrow> st = ZOMBIE" using two c by (auto simp: pstate_def demo_procs_def demo_psched_def demo_root_def)
  have up: "up ?s (Suc 0) c = demo_root" "up ?s 0 demo_root = demo_root" using c by (simp_all add: up_def demo_procs_def demo_family_def demo_uproc_def)
  have fam: "family_ok ?s {demo_root, c}"
    using c ps up by (auto simp: family_ok_def demo_procs_def demo_family_def demo_uproc_def) (auto simp: demo_root_def)
  have z: "zombies ?s {demo_root, c} demo_root = (if st = ZOMBIE then {c} else {})" "zombies ?s {demo_root, c} c = {}"
    using c ps by (auto simp: zombies_def demo_procs_def demo_family_def demo_uproc_def)
  have "exits_ok ?s {demo_root, c} {}"
    using c ps z k by (auto simp: exits_ok_def counts_def sem_ok_def init_sem_def) (auto simp: demo_procs_def demo_family_def demo_uproc_def init_sem_def)
  moreover have "names_ok ?s {demo_root, c}" using c by (auto simp: names_ok_def demo_procs_def demo_family_def demo_uproc_def)
  moreover have "locks_free ?s {demo_root, c}" by (auto simp: locks_free_def demo_procs_def demo_family_def demo_uproc_def demo_psched_def)
  ultimately show "procs_ok ?s {demo_root, c} {}" using fam by (simp add: procs_ok_def)
  show "this_proc ?s = this" by (simp add: this_proc_def demo_procs_def demo_psched_def)
  then show "running ?s {demo_root, c}" using demo_psched_ok [OF to(1,2) st to(3)] two c
    by (auto simp: running_def demo_procs_def NCPU_def demo_root_def)
qed



text \<open>
  C35: Exit of a process other than the root ends with the process a zombie that carries the exit code and another process running; its children, zombies included, are children of the root then, every semaphore of the tree counts its zombies again, and nothing else about the tree changes, provided that releasing the files and the memory returns.
\<close>

theorem exit_hands_over:
  assumes "procs_ok s T W" and "running s T" and "this_proc s \<noteq> root_proc s" and "releases bc code s"
  shows "\<exists>s' W'. exit_proc bc code s = Ok s' \<and> procs_ok s' T W' \<and> sched_inv (sch s') \<and> pstate s' (this_proc s) = ZOMBIE \<and>
    exitcode (uprocs s' (this_proc s)) = code \<and>
    (\<forall>q\<in>T. parent (uprocs s' q) = (if q \<noteq> root_proc s \<and> parent (uprocs s q) = this_proc s then root_proc s else parent (uprocs s q)) \<and>
      pidno (uprocs s' q) = pidno (uprocs s q) \<and>
      (q \<noteq> this_proc s \<longrightarrow> exitcode (uprocs s' q) = exitcode (uprocs s q) \<and> (pstate s' q = ZOMBIE \<longleftrightarrow> pstate s q = ZOMBIE)))"
  by (rule exit_spec [OF assms])

definition demo_child :: "cache_sys psys" where
  "demo_child = demo_procs 20480 demo_root SLEEPING demo_store (demo_family 20480 0)"

lemma demo_child_ok: "procs_ok demo_child {demo_root, 20480} {}" "running demo_child {demo_root, 20480}" "this_proc demo_child = 20480"
  unfolding demo_child_def by (rule demo_family_ok; simp add: demo_root_def)+

lemma demo_child_releases: "releases bcache 3 demo_child"
proof -
  have p: "pvma (uprocs demo_child 20480) = None" "cwd (uprocs demo_child 20480) = None" "pt (pgd (uprocs demo_child 20480)) = 0"
    "oftable (uprocs demo_child 20480) = init_oftable" "children (uprocs demo_child 20480) = []"
    by (simp_all add: demo_child_def demo_procs_def demo_family_def demo_uproc_def demo_root_def)
  have files: "for_each (close_slot bcache 20480) js s = Ok s" if "oftable (uprocs s 20480) = init_oftable" "\<forall>j\<in>set js. j < OPENFILE" for js and s :: "cache_sys psys"
    using that by (induction js) (simp_all add: close_slot_def init_oftable_def)
  show ?thesis
    unfolding releases_def demo_child_ok(3)
  proof (intro allI impI)
    fix s1 assume "reparent 20480 (exit_entry demo_child) = Ok s1"
    then have s1: "s1 = exit_entry demo_child" using p(5) by (simp add: reparent_def exit_entry_def demo_child_ok(3))
    let ?s2 = "upd_uproc 20480 (\<lambda>u. u\<lparr>exitcode := 3\<rparr>) s1"
    have "exit_files bcache 20480 ?s2 = Ok ?s2" unfolding exit_files_def by (rule files) (simp_all add: s1 exit_entry_def p demo_child_ok(3))
    moreover have "\<exists>s3. exit_memory bcache 20480 ?s2 = Ok s3"
      by (simp add: exit_memory_def s1 exit_entry_def p demo_child_ok(3) unlock_exit_def lock_exit_def release_spinlock_def Let_def
          with_pgd_def with_vm_def free_pgdir_def exit_regions.simps)
    ultimately show "\<exists>s2 s3. exit_files bcache 20480 (upd_uproc 20480 (\<lambda>u. u\<lparr>exitcode := 3\<rparr>) s1) = Ok s2 \<and> exit_memory bcache 20480 s2 = Ok s3" by blast
  qed
qed

corollary exit_hands_over_witness:
  "\<exists>s' W'. exit_proc bcache 3 demo_child = Ok s' \<and> procs_ok s' {demo_root, 20480} W' \<and> pstate s' 20480 = ZOMBIE \<and> exitcode (uprocs s' 20480) = 3"
  using exit_hands_over [OF demo_child_ok(1,2) _ demo_child_releases] demo_child_ok(3)
  by (auto simp: demo_child_def demo_procs_def demo_root_def)

text \<open>
  C36: Creating a process, making it a child of the running one and starting it, as kernel_entry does, succeeds while four free pages are left and keeps the process state well formed: the new process is a block of its own, its number differs from those of all processes, it is the first child of the running process and runnable, and nothing else about the old processes changes.
\<close>

theorem new_process_joins:
  assumes "procs_ok s T W" and "procs_mem s T live X" and "4 \<le> length (free_pages (fmem (pfs s)))"
    and "\<forall>q\<in>idles (sch s). q \<in> live \<or> page_base q \<notin> X" and "running s T" and "W \<subseteq> T" and "outside_quiet s T"
  shows "\<exists>p s1 s2 s3 live' X'. create_proc s = Ok (p, s1) \<and> p \<notin> T \<and> procs_mem s1 (insert p T) live' X' \<and>
    set_parent_to_this p s1 = Ok s2 \<and> start_proc p e a s2 = Ok (pidno (uprocs s3 p), s3) \<and>
    procs_ok s3 (insert p T) W \<and> running s3 (insert p T) \<and> pidno (uprocs s3 p) \<notin> (\<lambda>q. pidno (uprocs s q)) ` T \<and>
    parent (uprocs s3 p) = this_proc s \<and> pstate s3 p = RUNNABLE \<and> klr (kcontext (uprocs s3 p)) = proc_entry \<and> kx0 (kcontext (uprocs s3 p)) = e \<and>
    (\<forall>q\<in>T. pstate s3 q = pstate s q \<and> uprocs s3 q =
       (if q = this_proc s then (uprocs s q)\<lparr>children := p # children (uprocs s q)\<rparr> else uprocs s q))"
proof -
  from create_newborn [OF assms] obtain p s1 live' X' where
    c: "create_proc s = Ok (p, s1)" "newborn s1 T W p" "parent (uprocs s1 p) = 0" "\<forall>q. q \<noteq> p \<longrightarrow> uprocs s1 q = uprocs s q"
      "\<forall>q. q \<noteq> p \<longrightarrow> pstate s1 q = pstate s q" "pidno (uprocs s1 p) \<notin> (\<lambda>q. pidno (uprocs s q)) ` T" "procs_mem s1 (insert p T) live' X'"
      "this_proc s1 = this_proc s" by blast
  have n: "p \<notin> T" "this_proc s \<in> T" "\<not> proclock (uprocs s1 p)" "\<not> proclock (uprocs s1 (this_proc s))"
    using c(2,8) by (auto simp: newborn_def running_def procs_ok_def locks_free_def)
  then have "p \<noteq> this_proc s" by auto
  then have "set_parent_to_this p s1 = Ok (adopted (this_proc s1) p s1)" using n c(3,8) by (intro set_parent_to_this_eq) simp_all
  moreover obtain s3 where s3: "start_proc p e a (adopted (this_proc s1) p s1) = Ok (pidno (uprocs s1 p), s3)" "procs_ok s3 (insert p T) W"
    "running s3 (insert p T)" "pstate s3 p = RUNNABLE" "\<forall>q. q \<noteq> p \<longrightarrow> pstate s3 q = pstate s1 q"
    "uprocs s3 = (uprocs s1)(this_proc s := (uprocs s1 (this_proc s))\<lparr>children := p # children (uprocs s1 (this_proc s))\<rparr>,
      p := (uprocs s1 p)\<lparr>parent := this_proc s, kcontext := (kcontext (uprocs s1 p))\<lparr>klr := proc_entry, kx0 := e, kx1 := a\<rparr>\<rparr>)"
    using start_newborn [OF c(2), of e a] c(8) by auto
  moreover have "uprocs s3 p = (uprocs s1 p)\<lparr>parent := this_proc s, kcontext := (kcontext (uprocs s1 p))\<lparr>klr := proc_entry, kx0 := e, kx1 := a\<rparr>\<rparr>"
    using s3(6) by simp
  moreover have "uprocs s3 q = (if q = this_proc s then (uprocs s q)\<lparr>children := p # children (uprocs s q)\<rparr> else uprocs s q)" "pstate s3 q = pstate s q" if "q \<in> T" for q
    using s3(5,6) c(4,5) n(1) that \<open>p \<noteq> this_proc s\<close> by auto
  ultimately show ?thesis using c(1,6,7) n(1)
    by (intro exI [of _ p] exI [of _ s1] exI [of _ "adopted (this_proc s1) p s1"] exI [of _ s3] exI [of _ live'] exI [of _ X']) simp
qed

definition demo_single :: "cache_sys psys" where
  "demo_single = demo_procs demo_root 5 UNUSED demo_store (\<lambda>_. demo_uproc)"

lemma demo_single_ok: "procs_ok demo_single {demo_root} {}" "running demo_single {demo_root}" "this_proc demo_single = demo_root"
  "procs_mem demo_single {demo_root} {} demo_managed" "\<forall>q\<in>idles (sch demo_single). page_base q \<notin> demo_managed"
  "outside_quiet demo_single {demo_root}" "4 \<le> length (free_pages (fmem (pfs demo_single)))"
proof -
  have s: "sch demo_single = demo_psched demo_root 5 UNUSED" "fmem (pfs demo_single) = demo_store" "uprocs demo_single = (\<lambda>_. demo_uproc)"
    "root_proc demo_single = demo_root" "pid_list demo_single = []" "last_pid demo_single = 2" "pidlock demo_single = False" "elock demo_single = False" "on_cpu demo_single = 0"
    by (simp_all add: demo_single_def demo_procs_def demo_fmem)
  have inv: "sched_inv (sch demo_single)" "idles (sch demo_single) = {1, 2, 3, 4}"
    unfolding s using demo_psched_ok [of demo_root 5 UNUSED] by (simp_all add: demo_root_def)
  have st: "pstate demo_single p = (if p = demo_root \<or> p \<in> {2, 3, 4} then RUNNING else if p = 1 then RUNNABLE else UNUSED)" for p
    by (simp add: pstate_def s demo_psched_def)
  show th: "this_proc demo_single = demo_root" by (simp add: this_proc_def s demo_psched_def)
  have "up demo_single 0 demo_root = demo_root" by (simp add: up_def)
  then have "family_ok demo_single {demo_root}" by (auto simp: family_ok_def s st demo_uproc_def) (auto simp: demo_root_def)
  moreover have "exits_ok demo_single {demo_root} {}"
    by (auto simp: exits_ok_def counts_def zombies_def s demo_uproc_def sem_ok_def init_sem_def)
  ultimately show "procs_ok demo_single {demo_root} {}"
    by (simp add: procs_ok_def names_ok_def locks_free_def s demo_uproc_def demo_psched_def)
  show "running demo_single {demo_root}" using inv th by (simp add: running_def s(9) NCPU_def) (simp add: demo_root_def)
  show "procs_mem demo_single {demo_root} {} demo_managed"
    using demo_store_ok(1) by (auto simp: procs_mem_def s demo_uproc_def demo_root_def page_base_def PAGE_SIZE_def demo_low)
  show "\<forall>q\<in>idles (sch demo_single). page_base q \<notin> demo_managed"
    unfolding inv by (simp add: page_base_def PAGE_SIZE_def demo_low)
  show "outside_quiet demo_single {demo_root}" by (auto simp: outside_quiet_def inv st)
  show "4 \<le> length (free_pages (fmem (pfs demo_single)))" by (simp add: s demo_store_ok)
qed

corollary new_process_joins_witness:
  "\<exists>p s1 s2 s3. create_proc demo_single = Ok (p, s1) \<and> set_parent_to_this p s1 = Ok s2 \<and> start_proc p trap_return 0 s2 = Ok (pidno (uprocs s3 p), s3) \<and>
    procs_ok s3 {p, demo_root} {} \<and> pidno (uprocs s3 p) \<noteq> 1 \<and> pstate s3 p = RUNNABLE"
proof -
  have "pidno (uprocs demo_single demo_root) = 1" by (simp add: demo_single_def demo_procs_def demo_uproc_def)
  then show ?thesis
    using new_process_joins [OF demo_single_ok(1,4,7) _ demo_single_ok(2) _ demo_single_ok(6), of trap_return 0] demo_single_ok(3,5) by auto
qed

section \<open>System calls on files\<close>

definition demo_open :: "cache_sys psys" where
  "demo_open = demo_single\<lparr>uprocs := (\<lambda>_. demo_uproc\<lparr>oftable := [Some 3, None, Some 3] @ replicate 13 None\<rparr>),
     pfs := (pfs demo_single)\<lparr>ffiles := (\<lambda>_. zero_file)(3 := zero_file\<lparr>ftype := FD_INODE, fref := 2, freadable := True, fobj := 5\<rparr>)\<rparr>\<rparr>"

lemma demo_open_ok: "counted demo_open {demo_root}" "\<not> ftlock (pfs demo_open)" "this_proc demo_open = demo_root"
  "vma_list demo_open = (\<lambda>_. \<lparr>vstart = 0, vend = 0, vlength = 0, voff = 0, vperm = 0, vflags = 0, vfile = 0, vnext = None, vlock = False\<rparr>)"
proof -
  show t: "this_proc demo_open = demo_root" using demo_single_ok(3) by (simp add: this_proc_def demo_open_def)
  show v: "vma_list demo_open = (\<lambda>_. \<lparr>vstart = 0, vend = 0, vlength = 0, voff = 0, vperm = 0, vflags = 0, vfile = 0, vnext = None, vlock = False\<rparr>)"
    by (simp add: demo_open_def demo_single_def demo_procs_def)
  show "\<not> ftlock (pfs demo_open)" by (simp add: demo_open_def demo_single_def demo_procs_def init_ftable_def init_spinlock_def)
  show "counted demo_open {demo_root}"
    by (simp add: counted_def t fd_refs_def region_refs_def v) (simp add: demo_open_def OPENFILE_def zero_file_def)
qed

text \<open>
  C37: The reference count of every open file is the number of descriptors and mapped regions that refer to it, and dup and close keep it so: dup gives the least free descriptor and makes it refer to the same file, or it fails with -1 and changes nothing; close returns while others share the file, and whenever it returns the descriptor is free and the result says whether it was open.
\<close>

theorem descriptors_counted:
  assumes "counted s T" and "\<not> ftlock (pfs s)"
  shows "(\<exists>r s'. sys_dup fd s = Ok (r, s') \<and> counted s' T \<and> \<not> ftlock (pfs s') \<and>
      (if fd2file fd s = None \<or> (\<forall>i<OPENFILE. oftable (uprocs s (this_proc s)) ! i \<noteq> None) then r = - 1 \<and> s' = s
       else r = int (LEAST i. oftable (uprocs s (this_proc s)) ! i = None) \<and> fd2file r s' = fd2file fd s)) \<and>
    (\<forall>f. fd2file fd s = Some f \<and> fref (ffiles (pfs s) f) \<noteq> 1 \<longrightarrow> (\<exists>s'. sys_close bc fd s = Ok (0, s'))) \<and>
    (\<forall>r s'. sys_close bc fd s = Ok (r, s') \<longrightarrow>
      counted s' T \<and> \<not> ftlock (pfs s') \<and> r = (if fd2file fd s = None then - 1 else 0) \<and> fd2file fd s' = None)"
  using dup_counted [OF assms, of fd] close_counted [OF assms(1) _ assms(2), of bc fd] close_shared [OF _ assms(2), of fd _ bc] by blast

corollary descriptors_counted_witness:
  "(\<exists>s'. sys_dup 2 demo_open = Ok (1, s') \<and> fd2file 1 s' = Some 3 \<and> counted s' {demo_root}) \<and>
   (\<exists>s'. sys_close bcache 2 demo_open = Ok (0, s') \<and> fd2file 2 s' = None \<and> counted s' {demo_root})"
proof -
  have o: "oftable (uprocs demo_open demo_root) = [Some 3, None, Some 3] @ replicate 13 None" by (simp add: demo_open_def)
  have l: "(LEAST i. oftable (uprocs demo_open demo_root) ! i = None) = 1"
  proof (rule Least_equality)
    show "1 \<le> i" if "oftable (uprocs demo_open demo_root) ! i = None" for i using that by (cases i) (simp_all add: o)
  qed (simp add: o)
  have fd: "fd2file 2 demo_open = Some 3" by (simp add: fd2file_def demo_open_ok(3) o OPENFILE_def)
  have free: "\<exists>i<OPENFILE. oftable (uprocs demo_open demo_root) ! i = None" by (intro exI [of _ 1]) (simp add: o OPENFILE_def)
  have r: "fref (ffiles (pfs demo_open) 3) = 2" by (simp add: demo_open_def)
  have c: "\<not> (fd2file 2 demo_open = None \<or> (\<forall>i<OPENFILE. oftable (uprocs demo_open demo_root) ! i \<noteq> None))" using fd free by auto
  note d = descriptors_counted [OF demo_open_ok(1,2), of 2 bcache, unfolded demo_open_ok(3) l if_not_P [OF c], unfolded fd]
  obtain s1 where "sys_dup 2 demo_open = Ok (1, s1)" "fd2file 1 s1 = Some 3" "counted s1 {demo_root}" using conjunct1 [OF d] by auto
  moreover obtain s2 where "sys_close bcache 2 demo_open = Ok (0, s2)" using conjunct1 [OF conjunct2 [OF d]] r by auto
  moreover from this have "fd2file 2 s2 = None" "counted s2 {demo_root}" using conjunct2 [OF conjunct2 [OF d]] by auto
  ultimately show ?thesis by blast
qed

text \<open>
  C38: A mapping of a positive length is put behind all regions of the process, on a page boundary, in the first free slot: the chain of regions grows by it at the end, the regions still do not overlap, and the file behind it has one reference more; the chain must not be entered by a stale next pointer in the free slot.
\<close>

theorem mmap_appends_region:
  assumes "counted s T" and "\<not> ftlock (pfs s)" and "\<forall>j<NVMA. \<not> vlock (vma_list s j)"
    and "vma_chain (vma_list s) (pvma (uprocs s (this_proc s))) ws" and "regions_ok (vma_list s) ws"
    and "v < NVMA" and "vlength (vma_list s v) = 0" and "\<forall>j<v. vlength (vma_list s j) \<noteq> 0" and "vnext (vma_list s v) = None"
    and "0 < n" and "n < 2 ^ 31" and "next_start (vma_list s) ws + nat n < 2 ^ 64"
    and "fd2file fd s = Some f" and "may_map (ffiles (pfs s) f) prot flags"
  shows "\<exists>s'. sys_mmap 0 n prot flags fd 0 s = Ok (int (next_start (vma_list s) ws), s') \<and> counted s' T \<and>
    vma_chain (vma_list s') (pvma (uprocs s' (this_proc s'))) (ws @ [v]) \<and> regions_ok (vma_list s') (ws @ [v]) \<and>
    vfile (vma_list s' v) = f \<and> vlength (vma_list s' v) = nat n"
  by (rule mmap_spec [OF assms])

corollary mmap_appends_region_witness:
  "\<exists>s'. sys_mmap 0 5000 PROT_READ MAP_PRIVATE 0 0 demo_open = Ok (int VMA_START, s') \<and>
    vma_chain (vma_list s') (pvma (uprocs s' demo_root)) [0] \<and> regions_ok (vma_list s') [0] \<and> counted s' {demo_root}"
proof -
  note d = demo_open_ok
  have o: "pvma (uprocs demo_open demo_root) = None" "fd2file 0 demo_open = Some 3" "may_map (ffiles (pfs demo_open) 3) PROT_READ MAP_PRIVATE"
    by (simp_all add: fd2file_def d(3) OPENFILE_def may_map_def demo_open_def demo_uproc_def PROT_READ_def PROT_WRITE_def MAP_PRIVATE_def)
  have e: "next_start (vma_list demo_open) [] = VMA_START" by (simp add: next_start_def)
  from mmap_appends_region [OF d(1,2) _ _ _ _ _ _ _ _ _ _ o(2,3), of "[]" 0 5000] o(1)
  obtain s' where "sys_mmap 0 5000 PROT_READ MAP_PRIVATE 0 0 demo_open = Ok (int VMA_START, s')" "counted s' {demo_root}"
    "vma_chain (vma_list s') (pvma (uprocs s' (this_proc s'))) [0]" "regions_ok (vma_list s') [0]"
    by (auto simp: d(3,4) regions_ok_def NVMA_def e VMA_START_def MAXVA_def next_start_def)
  moreover from this have "this_proc s' = demo_root" by (auto simp: counted_def)
  ultimately show ?thesis by auto
qed




section \<open>Traps\<close>

text \<open>The numbers of the calls in the C library, and a process that asks for its number.\<close>

definition demo_number :: "call \<Rightarrow> nat" where
  "demo_number c =
     (case c of
        c_dup \<Rightarrow> 23 | c_mmap \<Rightarrow> 222 | c_munmap \<Rightarrow> 215 | c_read \<Rightarrow> 63 | c_write \<Rightarrow> 64 | c_writev \<Rightarrow> 66 | c_close \<Rightarrow> 57 | c_fstat \<Rightarrow> 80
      | c_newfstatat \<Rightarrow> 79 | c_openat \<Rightarrow> 56 | c_mkdirat \<Rightarrow> 34 | c_mknodat \<Rightarrow> 33 | c_chdir \<Rightarrow> 49 | c_pipe2 \<Rightarrow> 59
      | c_set_tid_address \<Rightarrow> 96 | c_rt_sigprocmask \<Rightarrow> 135 | _ \<Rightarrow> 0)"

lemma demo_numbered: "numbered demo_number"
  unfolding numbered_def
proof (intro conjI allI impI)
  show "sys_no demo_number c < NR_SYSCALL" for c by (cases c) (simp_all add: sys_no_def demo_number_def NR_SYSCALL_def)
  show "c = d \<or> {c, d} = {c_sigprocmask, c_rt_sigprocmask}" if "sys_no demo_number c = sys_no demo_number d" for c d
    using that by (cases c; cases d; simp add: sys_no_def demo_number_def insert_commute)
qed

definition demo_trap :: user_context where
  "demo_trap = (ucontext demo_uproc)\<lparr>uelr := 0x400, ux := (replicate 32 5)[8 := 172]\<rparr>"

text \<open>
  C40: When a system call traps and its process goes on, the routine with the number in x8 has run on the saved registers and has returned a value, and the saved context of the process is what it was at the trap but for that value in x0; a process that has been killed does not go back to its program. This holds for all calls but clone, execve and the report of the tests; two calls may share a number only where they do the same.
\<close>

theorem system_call_returns:
  assumes "numbered (enumber E)" and "unat (ux ctx ! 8) = sys_no (enumber E) c" and "c \<notin> {c_clone, c_execve, c_myreport}"
    and "drop_bit ESR_EC_SHIFT esr = ESR_EC_SVC64" and "trap_global_handler E irq ctx esr far s = Ok (Resumes s')"
  shows "\<exists>v u. run_call E c (\<lambda>i. ux ctx ! i) (upd_uproc (this_proc s) (\<lambda>u. u\<lparr>ucontext := ctx\<rparr>) s) = Ok (Returns v u) \<and>
    s' = set_x0 (this_proc s) v u \<and> this_proc s' = this_proc s \<and> ucontext (uprocs s' (this_proc s)) = ctx\<lparr>ux := (ux ctx)[0 := v]\<rparr> \<and>
    \<not> (killed (procs (sch s') (this_proc s)) \<and> to_user (uelr ctx))"
  by (rule trap_svc [OF assms])

corollary system_call_returns_witness:
  "\<forall>E irq far. \<exists>s'. trap_global_handler (E\<lparr>enumber := demo_number\<rparr>) irq demo_trap 0x54000000 far demo_child = Ok (Resumes s') \<and>
    ucontext (uprocs s' 20480) = demo_trap\<lparr>ux := (replicate 32 5)[8 := 172, 0 := 2]\<rparr>"
proof (intro allI)
  fix E :: "cache_sys kernel_env" and irq far
  let ?E = "E\<lparr>enumber := demo_number\<rparr>" and ?t = "upd_uproc 20480 (\<lambda>u. u\<lparr>ucontext := demo_trap\<rparr>) demo_child"
  have th: "this_proc demo_child = 20480" "this_proc ?t = 20480" using demo_child_ok(3) by simp_all
  have n: "numbered (enumber ?E)" "unat (ux demo_trap ! 8) = sys_no (enumber ?E) c_getpid"
    using demo_numbered by (simp_all add: demo_trap_def sys_no_def)
  have x: "drop_bit ESR_EC_SHIFT (0x54000000 :: u64) = ESR_EC_SVC64" "ESR_EC_SVC64 \<noteq> ESR_EC_UNKNOWN"
    by (simp_all add: ESR_EC_SHIFT_def ESR_EC_SVC64_def ESR_EC_UNKNOWN_def)
  have i: "pidno (uprocs demo_child 20480) = 2" "\<not> killed (procs (sch demo_child) 20480)"
    by (simp_all add: demo_child_def demo_procs_def demo_family_def demo_uproc_def demo_psched_def demo_root_def)
  have w: "unat (ux (ucontext (uprocs ?t (this_proc ?t))) ! 8) = sys_no (enumber ?E) c_getpid"
    using n(2) by (simp add: th demo_child_ok(3))
  have c: "syscall_entry ?E ?t = Ok (Returns 2 (set_x0 20480 2 ?t))"
    unfolding syscall_entry_call [OF n(1) w] by (simp add: th demo_child_ok(3) i)
  have h: "trap_global_handler ?E irq demo_trap 0x54000000 far demo_child = Ok (Resumes (set_x0 20480 2 ?t))"
    using x i(2) by (simp add: trap_global_handler_def trap_event_def th demo_child_ok(3) c set_x0_def)
  from system_call_returns [OF n _ x(1) h] show "\<exists>s'. trap_global_handler ?E irq demo_trap 0x54000000 far demo_child = Ok (Resumes s') \<and>
    ucontext (uprocs s' 20480) = demo_trap\<lparr>ux := (replicate 32 5)[8 := 172, 0 := 2]\<rparr>"
    using h i(1) by (auto simp: demo_trap_def demo_child_ok(3))
qed

end
